(* ===== verification/Prelude.thy ===== *)
theory Prelude
  imports Main "HOL-Library.Word" "HOL-Library.Monad_Syntax"
begin

section \<open>Machine words, pages and lanes\<close>

text \<open>
  Shared vocabulary of the development: the integer types of the C code, pages (the
  4096-byte slabs of \<^verbatim>\<open>mm.c\<close>), bit lanes of a 64-bit cell (the sub-word fields of
  the packed structs), the undefined-behaviour-aware \<^verbatim>\<open>__builtin_ctz\<close>, and the word
  arithmetic lemmas that every component uses. The collection \<open>page_simps\<close> decides
  equality of addresses of the form page plus offset.
\<close>

unbundle bit_operations_syntax

named_theorems page_simps "deciding equality of page-plus-offset addresses"
named_theorems lane_simps "reading and writing the bit lanes of a cell"

type_synonym u8 = "8 word"
type_synonym u16 = "16 word"
type_synonym u32 = "32 word"
type_synonym u64 = "64 word"

lemma sint_negative_iff: "sint (n :: u64) < 0 \<longleftrightarrow> 2 ^ 63 \<le> unat n"
proof -
  have "unat n < 2 ^ 64" using unsigned_less [of n] by simp
  then have "odd (unat n div 2 ^ 63) \<longleftrightarrow> 2 ^ 63 \<le> unat n"
    by (cases "2 ^ 63 \<le> unat n") (simp_all add: le_div_geq)
  moreover have "bit n 63 \<longleftrightarrow> odd (unat n div 2 ^ 63)"
    using bit_unsigned_iff [where ?'a = nat, of n 63] bit_iff_odd [of "unat n" 63]
    by (auto dest: bit_imp_le_length)
  ultimately show ?thesis using bit_last_iff [of n] by simp
qed

subsection \<open>Pages\<close>

definition page_aligned :: "u64 \<Rightarrow> bool" where
  "page_aligned a \<longleftrightarrow> take_bit 12 a = 0"

definition pg :: "u64 \<Rightarrow> nat \<Rightarrow> u64" where
  "pg h k = h + of_nat k * 4096"

lemma take_bit_12_small: "c < 4096 \<Longrightarrow> take_bit 12 c = (c :: u64)"
  using less_mask_eq [of c 12] by (simp add: take_bit_eq_mask)

lemma take_bit_word_add:
  "take_bit n (a + b) = take_bit n (take_bit n a + take_bit n (b :: 'a :: len word))"
  by transfer (simp add: take_bit_add)

lemma take_bit_12_offset:
  assumes "page_aligned a" and "c < 4096"
  shows "take_bit 12 (a + c) = c"
proof -
  have "take_bit 12 (a + c) = take_bit 12 (take_bit 12 a + take_bit 12 c)"
    by (rule take_bit_word_add)
  then show ?thesis using assms by (simp add: page_aligned_def take_bit_12_small)
qed

lemma page_offset_eq_iff:
  assumes "page_aligned a" and "page_aligned b" and "c < 4096" and "d < 4096"
  shows "a + c = b + d \<longleftrightarrow> a = b \<and> c = d"
proof
  assume eq: "a + c = b + d"
  then have "take_bit 12 (a + c) = take_bit 12 (b + d)" by simp
  then have "c = d" using assms by (simp add: take_bit_12_offset)
  with eq show "a = b \<and> c = d" by simp
qed simp

lemma page_aligned_page: "page_aligned (of_nat k * 4096)"
proof -
  have "of_nat k * 4096 = push_bit 12 (of_nat k :: u64)"
    by (simp add: push_bit_eq_mult)
  then show ?thesis by (simp add: page_aligned_def take_bit_push_bit)
qed

lemma page_aligned_add:
  assumes "page_aligned a" and "page_aligned b"
  shows "page_aligned (a + b)"
proof -
  have "take_bit 12 (a + b) = take_bit 12 (take_bit 12 a + take_bit 12 b)"
    by (rule take_bit_word_add)
  then show ?thesis using assms by (simp add: page_aligned_def)
qed

lemma pg_aligned [simp, intro]: "page_aligned h \<Longrightarrow> page_aligned (pg h k)"
  unfolding pg_def by (rule page_aligned_add [OF _ page_aligned_page])

lemma pg_0 [simp]: "pg h 0 = h"
  by (simp add: pg_def)

lemma pg_add: "pg h k + of_nat n * 4096 = pg h (k + n)"
  by (simp add: pg_def algebra_simps)

lemma unat_of_nat_page:
  assumes "k < 2 ^ 52"
  shows "unat (of_nat k * 4096 :: u64) = k * 4096"
proof -
  have "unat (of_nat k :: u64) = k" using assms by (simp add: unat_of_nat)
  then show ?thesis using assms by (simp add: unat_word_ariths)
qed

lemma pg_inj:
  assumes "j < 2 ^ 52" and "k < 2 ^ 52"
  shows "pg h j = pg h k \<longleftrightarrow> j = k"
proof
  assume "pg h j = pg h k"
  then have "unat (of_nat j * 4096 :: u64) = unat (of_nat k * 4096 :: u64)"
    by (simp add: pg_def)
  then show "j = k" unfolding unat_of_nat_page [OF assms(1)] unat_of_nat_page [OF assms(2)]
    by simp
qed simp

lemma pg_offset_eq_iff [page_simps]:
  assumes "page_aligned h" "j < 2 ^ 52" "k < 2 ^ 52" "c < 4096" "d < 4096"
  shows "pg h j + c = pg h k + d \<longleftrightarrow> j = k \<and> c = d"
  using assms by (simp add: page_offset_eq_iff pg_inj)

lemma pg_eq_iffs:
  assumes "page_aligned h" "j < 2 ^ 52" "k < 2 ^ 52" "c < 4096" "d < 4096"
  shows "pg h j = pg h k \<longleftrightarrow> j = k"
    and "pg h j = pg h k + d \<longleftrightarrow> j = k \<and> d = 0" and "pg h k + d = pg h j \<longleftrightarrow> j = k \<and> d = 0"
    and "h + c = pg h k + d \<longleftrightarrow> k = 0 \<and> c = d" and "pg h k + d = h + c \<longleftrightarrow> k = 0 \<and> c = d"
    and "h + c = pg h k \<longleftrightarrow> k = 0 \<and> c = 0" and "pg h k = h + c \<longleftrightarrow> k = 0 \<and> c = 0"
    and "h = pg h k \<longleftrightarrow> k = 0" and "pg h k = h \<longleftrightarrow> k = 0"
    and "h = pg h k + d \<longleftrightarrow> k = 0 \<and> d = 0" and "pg h k + d = h \<longleftrightarrow> k = 0 \<and> d = 0"
proof -
  have z: "(0 :: nat) < 2 ^ 52" "(0 :: u64) < 4096" by simp_all
  note o = pg_offset_eq_iff [OF assms(1)]
  show "pg h j = pg h k \<longleftrightarrow> j = k" by (rule pg_inj [OF assms(2,3)])
  show a: "pg h j = pg h k + d \<longleftrightarrow> j = k \<and> d = 0"
    using o [OF assms(2,3) z(2) assms(5)] by (simp only: add_0_right eq_commute [of 0 d])
  show "pg h k + d = pg h j \<longleftrightarrow> j = k \<and> d = 0" using a by (simp only: eq_commute [of "pg h k + d"])
  show b: "h + c = pg h k + d \<longleftrightarrow> k = 0 \<and> c = d"
    using o [OF z(1) assms(3,4,5)] by (simp only: pg_0 eq_commute [of 0 k])
  show "pg h k + d = h + c \<longleftrightarrow> k = 0 \<and> c = d" using b by (simp only: eq_commute [of "pg h k + d"])
  show e: "h + c = pg h k \<longleftrightarrow> k = 0 \<and> c = 0"
    using o [OF z(1) assms(3,4) z(2)] by (simp only: pg_0 add_0_right eq_commute [of 0 k])
  show "pg h k = h + c \<longleftrightarrow> k = 0 \<and> c = 0" using e by (simp only: eq_commute [of "pg h k"])
  show f: "h = pg h k \<longleftrightarrow> k = 0" using pg_inj [OF z(1) assms(3), of h] by (simp only: pg_0 eq_commute [of 0 k])
  show "pg h k = h \<longleftrightarrow> k = 0" using f by (simp only: eq_commute [of "pg h k"])
  show g: "h = pg h k + d \<longleftrightarrow> k = 0 \<and> d = 0"
    using o [OF z(1) assms(3) z(2) assms(5)] by (simp only: pg_0 add_0_right eq_commute [of 0 k] eq_commute [of 0 d])
  show "pg h k + d = h \<longleftrightarrow> k = 0 \<and> d = 0" using g by (simp only: eq_commute [of "pg h k + d"])
qed

text \<open>The same without the parameters that a conclusion does not mention.\<close>

lemma pg_eq_simps [page_simps]:
  assumes "page_aligned h" "k < 2 ^ 52"
  shows "j < 2 ^ 52 \<Longrightarrow> pg h j = pg h k \<longleftrightarrow> j = k"
    and "j < 2 ^ 52 \<Longrightarrow> d < 4096 \<Longrightarrow> pg h j = pg h k + d \<longleftrightarrow> j = k \<and> d = 0"
    and "j < 2 ^ 52 \<Longrightarrow> d < 4096 \<Longrightarrow> pg h k + d = pg h j \<longleftrightarrow> j = k \<and> d = 0"
    and "c < 4096 \<Longrightarrow> d < 4096 \<Longrightarrow> h + c = pg h k + d \<longleftrightarrow> k = 0 \<and> c = d"
    and "c < 4096 \<Longrightarrow> d < 4096 \<Longrightarrow> pg h k + d = h + c \<longleftrightarrow> k = 0 \<and> c = d"
    and "c < 4096 \<Longrightarrow> h + c = pg h k \<longleftrightarrow> k = 0 \<and> c = 0"
    and "c < 4096 \<Longrightarrow> pg h k = h + c \<longleftrightarrow> k = 0 \<and> c = 0"
    and "h = pg h k \<longleftrightarrow> k = 0" and "pg h k = h \<longleftrightarrow> k = 0"
    and "d < 4096 \<Longrightarrow> h = pg h k + d \<longleftrightarrow> k = 0 \<and> d = 0"
    and "d < 4096 \<Longrightarrow> pg h k + d = h \<longleftrightarrow> k = 0 \<and> d = 0"
proof -
  have z: "(0 :: u64) < 4096" by simp
  note e = pg_eq_iffs [OF assms(1) _ assms(2)]
  show "j < 2 ^ 52 \<Longrightarrow> pg h j = pg h k \<longleftrightarrow> j = k" by (rule e(1) [OF _ z z])
  show "j < 2 ^ 52 \<Longrightarrow> d < 4096 \<Longrightarrow> pg h j = pg h k + d \<longleftrightarrow> j = k \<and> d = 0" by (rule e(2) [OF _ z])
  show "j < 2 ^ 52 \<Longrightarrow> d < 4096 \<Longrightarrow> pg h k + d = pg h j \<longleftrightarrow> j = k \<and> d = 0" by (rule e(3) [OF _ z])
  show "c < 4096 \<Longrightarrow> d < 4096 \<Longrightarrow> h + c = pg h k + d \<longleftrightarrow> k = 0 \<and> c = d" by (rule e(4) [OF assms(2)])
  show "c < 4096 \<Longrightarrow> d < 4096 \<Longrightarrow> pg h k + d = h + c \<longleftrightarrow> k = 0 \<and> c = d" by (rule e(5) [OF assms(2)])
  show "c < 4096 \<Longrightarrow> h + c = pg h k \<longleftrightarrow> k = 0 \<and> c = 0" by (rule e(6) [OF assms(2) _ z])
  show "c < 4096 \<Longrightarrow> pg h k = h + c \<longleftrightarrow> k = 0 \<and> c = 0" by (rule e(7) [OF assms(2) _ z])
  show "h = pg h k \<longleftrightarrow> k = 0" "pg h k = h \<longleftrightarrow> k = 0" by (rule e(8) [OF assms(2) z z] e(9) [OF assms(2) z z])+
  show "d < 4096 \<Longrightarrow> h = pg h k + d \<longleftrightarrow> k = 0 \<and> d = 0" by (rule e(10) [OF assms(2) z])
  show "d < 4096 \<Longrightarrow> pg h k + d = h \<longleftrightarrow> k = 0 \<and> d = 0" by (rule e(11) [OF assms(2) z])
qed

lemma unat_pg:
  assumes "unat h + 4096 * k < 2 ^ 64"
  shows "unat (pg h k) = unat h + 4096 * k"
proof -
  have k: "k < 2 ^ 52" using assms by simp
  have "unat (of_nat k * 4096 :: u64) = k * 4096" by (rule unat_of_nat_page [OF k])
  then show ?thesis using assms by (simp add: pg_def unat_word_ariths)
qed

lemma unat_pg_offset:
  assumes "unat h + 4096 * Suc k < 2 ^ 64" and "c < 4096"
  shows "unat (pg h k + c) = unat h + 4096 * k + unat c"
proof -
  have "unat (pg h k) = unat h + 4096 * k" using assms(1) by (intro unat_pg) simp
  moreover have "unat c < 4096" using assms(2) by (simp add: word_less_nat_alt)
  ultimately show ?thesis using assms(1) by (simp add: unat_word_ariths)
qed

lemma page_of_offset:
  assumes "page_aligned a" and "c < 4096"
  shows "(a + c) AND - 4096 = a"
proof -
  have m4: "(- 4096 :: u64) = NOT 4095" by simp
  have m: "(4095 :: u64) = mask 12" by (simp add: mask_eq_exp_minus_1)
  have "(a + c) AND NOT (mask 12) = (a + c) - take_bit 12 (a + c)"
  proof -
    have "(a + c) AND NOT (mask 12) = (a + c) AND NOT (take_bit 12 (a + c))"
      by (rule bit_eqI) (auto simp: bit_simps)
    also have "\<dots> = (a + c) - take_bit 12 (a + c)"
      by (rule disjunctive_diff_eq_and_not [symmetric]) (rule bit_eqI, auto simp: bit_simps)
    finally show ?thesis .
  qed
  then show ?thesis using assms unfolding m4 by (simp only: m) (simp add: take_bit_12_offset)
qed

lemma page_plus_or:
  assumes "page_aligned a" and "c < 4096"
  shows "a + c = a OR c"
proof (rule disjunctive_add_eq_or)
  show "a AND c = 0"
  proof (rule bit_eqI)
    fix i
    have "\<not> bit a i" if "i < 12"
      using assms(1) that by (metis bit_0_eq bit_take_bit_iff bot_apply page_aligned_def bot_bool_def)
    moreover have "i < 12" if "bit c i"
      using take_bit_12_small [OF assms(2)] that by (metis bit_take_bit_iff)
    ultimately show "bit (a AND c) i \<longleftrightarrow> bit 0 i" by (auto simp: bit_and_iff)
  qed
qed

lemma page_aligned_not_bit: "page_aligned a \<Longrightarrow> i < 12 \<Longrightarrow> \<not> bit a i"
  by (metis bit_0_eq bit_take_bit_iff bot_apply page_aligned_def bot_bool_def)

lemma page_offset_and:
  assumes "page_aligned a" and "c < 4096"
  shows "(a + c) AND 7 = c AND 7" and "(a + c) AND - 8 = a + (c AND - 8)"
proof -
  have m8: "(- 8 :: u64) = NOT 7" by simp
  have m: "(7 :: u64) = mask 3" by (simp add: mask_eq_exp_minus_1)
  show "(a + c) AND 7 = c AND 7"
    unfolding page_plus_or [OF assms] m
    by (rule bit_eqI) (use page_aligned_not_bit [OF assms(1)] in \<open>auto simp: bit_simps\<close>)
  have "c AND NOT 7 \<le> c" by (simp add: word_and_le2)
  then have c: "c AND NOT 7 < 4096" using assms(2) by simp
  show "(a + c) AND - 8 = a + (c AND - 8)"
    unfolding m8
    unfolding page_plus_or [OF assms] page_plus_or [OF assms(1) c]
    unfolding m
    by (rule bit_eqI) (use page_aligned_not_bit [OF assms(1)] in \<open>auto simp: bit_simps\<close>)
qed

subsection \<open>Lanes of a cell\<close>

text \<open>
  A field narrower than 64 bits is a lane of its 8-byte cell, little-endian: \<open>get_lane k c\<close>
  reads the bits from \<open>k\<close> on, at the width of its result type, and \<open>set_lane k v c\<close>
  replaces them.
\<close>

definition get_lane :: "nat \<Rightarrow> u64 \<Rightarrow> 'b::len word" where
  "get_lane k c = ucast (drop_bit k c)"

definition set_lane :: "nat \<Rightarrow> 'b::len word \<Rightarrow> u64 \<Rightarrow> u64" where
  "set_lane k v c = (c AND NOT (push_bit k (mask LENGTH('b)))) OR push_bit k (ucast v)"

lemma bit_get_lane:
  "bit (get_lane k c :: 'b::len word) i \<longleftrightarrow> i < LENGTH('b) \<and> bit c (k + i)"
  by (auto simp: get_lane_def bit_simps dest: bit_imp_le_length)

lemma bit_set_lane:
  fixes v :: "'b::len word"
  assumes "k + LENGTH('b) \<le> 64"
  shows "bit (set_lane k v c) i \<longleftrightarrow>
    (if k \<le> i \<and> i < k + LENGTH('b) then bit v (i - k) else bit c i)"
  using assms by (auto simp: set_lane_def bit_simps dest: bit_imp_le_length)

lemma get_set_lane_same [lane_simps]:
  fixes v :: "'b::len word"
  assumes "k + LENGTH('b) \<le> 64"
  shows "get_lane k (set_lane k v c) = v"
  by (rule bit_eqI) (auto simp: bit_get_lane bit_set_lane assms dest: bit_imp_le_length)

lemma get_set_lane_other [lane_simps]:
  fixes v :: "'b::len word"
  assumes "k + LENGTH('b) \<le> 64" and "j + LENGTH('a) \<le> k \<or> k + LENGTH('b) \<le> j"
  shows "(get_lane j (set_lane k v c) :: 'a::len word) = get_lane j c"
  using assms(2) by (intro bit_eqI) (auto simp: bit_get_lane bit_set_lane [OF assms(1)])

lemma set_set_lane_same [lane_simps]:
  fixes v w :: "'b::len word"
  assumes "k + LENGTH('b) \<le> 64"
  shows "set_lane k v (set_lane k w c) = set_lane k v c"
  by (rule bit_eqI) (auto simp: bit_set_lane assms)

lemma set_get_lane [lane_simps]:
  assumes "k + LENGTH('b) \<le> 64"
  shows "set_lane k (get_lane k c :: 'b::len word) c = c"
  by (rule bit_eqI) (auto simp: bit_set_lane bit_get_lane assms)

lemma bit_set_lane_or_bit:
  assumes "k + LENGTH('b::len) \<le> 64" and "r < LENGTH('b)"
  shows "bit (set_lane k ((get_lane k x :: 'b word) OR push_bit r 1) x) j \<longleftrightarrow> bit x j \<or> j = k + r"
proof -
  have b: "bit (push_bit r 1 :: 'b word) i \<longleftrightarrow> i = r" for i
    using assms(2) by (auto simp: bit_push_bit_iff bit_1_iff simp del: push_bit_of_1)
  show ?thesis
  proof (cases "k \<le> j \<and> j < k + LENGTH('b)")
    case True
    then have "j - k < LENGTH('b)" "k + (j - k) = j" "j - k = r \<longleftrightarrow> j = k + r" by auto
    then show ?thesis using True by (simp only: bit_set_lane [OF assms(1)] bit_or_iff bit_get_lane b simp_thms if_True)
  next
    case False
    then have "j \<noteq> k + r" using assms(2) by auto
    then show ?thesis using False by (simp only: bit_set_lane [OF assms(1)] simp_thms if_False)
  qed
qed

subsection \<open>Shifts and count-trailing-zeros\<close>

text \<open>
  The program is x86-64 code (it contains inline assembly and MMX intrinsics), where the
  count of a 64-bit shift is taken modulo 64 and that of a 32-bit one modulo 32. \<open>__builtin_ctz\<close> of zero is undefined
  behaviour of the compiler intrinsic: it is \<open>None\<close>, which every caller propagates.
\<close>

definition shl64 :: "u64 \<Rightarrow> nat \<Rightarrow> u64" where
  "shl64 x n = push_bit (n mod 64) x"

definition shl32 :: "u32 \<Rightarrow> nat \<Rightarrow> u32" where
  "shl32 x n = push_bit (n mod 32) x"

definition shr64 :: "u64 \<Rightarrow> nat \<Rightarrow> u64" where
  "shr64 x n = drop_bit (n mod 64) x"

definition ctz_upto :: "nat \<Rightarrow> 'a::len word \<Rightarrow> nat" where
  "ctz_upto n w = length (takeWhile (\<lambda>i. \<not> bit w i) [0..<n])"

definition builtin_ctz :: "'a::len word \<Rightarrow> nat option" where
  "builtin_ctz w = (if w = 0 then None else Some (ctz_upto LENGTH('a) w))"

lemma ctz_upto_props:
  assumes "ctz_upto n w < n"
  shows "bit w (ctz_upto n w)" and "j < ctz_upto n w \<Longrightarrow> \<not> bit w j"
proof -
  let ?p = "\<lambda>i. \<not> bit w i"
  have "\<not> ?p ([0..<n] ! length (takeWhile ?p [0..<n]))"
    by (rule nth_length_takeWhile) (use assms in \<open>simp add: ctz_upto_def\<close>)
  then show "bit w (ctz_upto n w)" using assms by (simp add: ctz_upto_def)
  assume j: "j < ctz_upto n w"
  then have "takeWhile ?p [0..<n] ! j \<in> set (takeWhile ?p [0..<n])"
    by (simp add: ctz_upto_def)
  moreover have "takeWhile ?p [0..<n] ! j = j"
    using j assms by (subst takeWhile_nth) (auto simp: ctz_upto_def)
  ultimately show "\<not> bit w j" by (auto dest: set_takeWhileD)
qed

lemma ctz_upto_less:
  assumes "bit w i" and "i < n"
  shows "ctz_upto n w \<le> i" and "ctz_upto n w < n"
proof -
  show "ctz_upto n w \<le> i"
  proof (rule ccontr)
    assume "\<not> ctz_upto n w \<le> i"
    then have "i < length (takeWhile (\<lambda>i. \<not> bit w i) [0..<n])" by (simp add: ctz_upto_def)
    then have "takeWhile (\<lambda>i. \<not> bit w i) [0..<n] ! i \<in> set (takeWhile (\<lambda>i. \<not> bit w i) [0..<n])"
      by (rule nth_mem)
    moreover have "takeWhile (\<lambda>i. \<not> bit w i) [0..<n] ! i = i"
      using \<open>i < length _\<close> assms(2) by (simp add: takeWhile_nth)
    ultimately show False using assms(1) by (auto dest: set_takeWhileD)
  qed
  then show "ctz_upto n w < n" using assms(2) by simp
qed

lemma builtin_ctz_Some:
  fixes w :: "'a::len word"
  assumes "w \<noteq> 0"
  obtains i where "builtin_ctz w = Some i" "i < LENGTH('a)" "bit w i" "\<And>j. j < i \<Longrightarrow> \<not> bit w j"
proof -
  obtain b where b: "bit w b" using assms by (auto simp: bit_eq_iff)
  then have "b < LENGTH('a)" by (rule bit_imp_le_length)
  with b have "ctz_upto LENGTH('a) w < LENGTH('a)" by (rule ctz_upto_less(2))
  then show thesis
    using that [of "ctz_upto LENGTH('a) w"] ctz_upto_props [of "LENGTH('a)" w] assms
    by (auto simp: builtin_ctz_def)
qed

subsection \<open>Rounding down to a multiple of 8 or 16\<close>

lemma unat_and_not_15: "unat (x AND NOT 15 :: u64) = 16 * (unat x div 16)"
proof -
  have m: "(15 :: u64) = mask 4" by (simp add: mask_eq_exp_minus_1)
  have "x AND NOT 15 = push_bit 4 (drop_bit 4 x)"
    unfolding m by (rule bit_eqI) (auto simp: bit_simps dest: bit_imp_le_length)
  also have "unat \<dots> = (unat x div 16 * 16) mod 2 ^ 64"
    by (simp add: push_bit_eq_mult drop_bit_eq_div unat_word_ariths unat_div mod_mult_left_eq)
  also have "\<dots> = unat x div 16 * 16"
    using unsigned_less [of x, where ?'a = nat] div_times_less_eq_dividend [of "unat x" 16]
    by (intro mod_less) simp
  finally show ?thesis by (simp add: mult.commute)
qed

lemma unat_and_not_7: "unat (x AND - 8 :: u64) = 8 * (unat x div 8)"
proof -
  have m: "(- 8 :: u64) = NOT (mask 3)" by (simp add: mask_eq_exp_minus_1)
  have "x AND NOT (mask 3) = push_bit 3 (drop_bit 3 x)"
    by (rule bit_eqI) (auto simp: bit_simps dest: bit_imp_le_length)
  then have "unat (x AND - 8) = unat (push_bit 3 (drop_bit 3 x))" unfolding m by simp
  also have "\<dots> = (unat x div 8 * 8) mod 2 ^ 64"
    by (simp add: push_bit_eq_mult drop_bit_eq_div unat_word_ariths unat_div mod_mult_left_eq)
  also have "\<dots> = unat x div 8 * 8"
    using unsigned_less [of x, where ?'a = nat] div_times_less_eq_dividend [of "unat x" 8]
    by (intro mod_less) simp
  finally show ?thesis by (simp add: mult.commute)
qed

end
