(* ===== verification/Memory.thy ===== *)
theory Memory
  imports Prelude
begin

unbundle bit_operations_syntax

section \<open>The arena: byte-addressed memory between the heap's start and its break\<close>

text \<open>
  \<^verbatim>\<open>src/src/heap_interface.h\<close> describes the memory the allocators live in: one region that
  starts at \<^verbatim>\<open>heap_start_\<close>, currently ends at \<^verbatim>\<open>heap_end_\<close> (the break) and may grow to
  \<^verbatim>\<open>max_size_\<close> bytes. Its contents are 8-byte cells, keyed by their 8-aligned address;
  narrower fields are lanes of a cell (every field of the structs of \<^verbatim>\<open>mm.c\<close> is
  naturally aligned within its cell, which the layout theory checks).

  A load or store outside the region, or a misaligned one, is \<open>None\<close>: the program
  crashes. So a theorem that an operation returns \<open>Some\<close> is a memory-safety theorem.
  The global variable \<^verbatim>\<open>heap\<close> of \<^verbatim>\<open>mm.c\<close> is the field \<open>heap_ptr\<close>.
\<close>

record memory =
  cells :: "u64 \<Rightarrow> u64"
  arena_start :: u64
  arena_end :: u64
  arena_max :: u64
  heap_ptr :: u64

definition valid_cell :: "memory \<Rightarrow> u64 \<Rightarrow> bool" where
  "valid_cell m a \<longleftrightarrow> a AND 7 = 0 \<and> arena_start m \<le> a \<and> unat a + 8 \<le> unat (arena_end m)"

definition load64 :: "memory \<Rightarrow> u64 \<Rightarrow> u64 option" where
  "load64 m a = (if valid_cell m a then Some (cells m a) else None)"

definition store64 :: "memory \<Rightarrow> u64 \<Rightarrow> u64 \<Rightarrow> memory option" where
  "store64 m a v = (if valid_cell m a then Some (m\<lparr>cells := (cells m)(a := v)\<rparr>) else None)"

text \<open>An access of a narrower field goes through the cell that contains it.\<close>

definition load_lane :: "memory \<Rightarrow> u64 \<Rightarrow> 'b::len word option" where
  "load_lane m a = do {
     c \<leftarrow> load64 m (a AND NOT 7);
     Some (get_lane (8 * unat (a AND 7)) c)
   }"

definition store_lane :: "memory \<Rightarrow> u64 \<Rightarrow> 'b::len word \<Rightarrow> memory option" where
  "store_lane m a v = do {
     c \<leftarrow> load64 m (a AND NOT 7);
     store64 m (a AND NOT 7) (set_lane (8 * unat (a AND 7)) v c)
   }"

abbreviation load8 :: "memory \<Rightarrow> u64 \<Rightarrow> u8 option" where "load8 \<equiv> load_lane"
abbreviation load16 :: "memory \<Rightarrow> u64 \<Rightarrow> u16 option" where "load16 \<equiv> load_lane"
abbreviation load32 :: "memory \<Rightarrow> u64 \<Rightarrow> u32 option" where "load32 \<equiv> load_lane"
abbreviation store8 :: "memory \<Rightarrow> u64 \<Rightarrow> u8 \<Rightarrow> memory option" where "store8 \<equiv> store_lane"
abbreviation store16 :: "memory \<Rightarrow> u64 \<Rightarrow> u16 \<Rightarrow> memory option" where "store16 \<equiv> store_lane"
abbreviation store32 :: "memory \<Rightarrow> u64 \<Rightarrow> u32 \<Rightarrow> memory option" where "store32 \<equiv> store_lane"

text \<open>\<^verbatim>\<open>MALLOC_ASSERT\<close>: a failed assertion prints and aborts.\<close>

definition malloc_assert :: "bool \<Rightarrow> unit option" where
  "malloc_assert b = (if b then Some () else None)"

text \<open>The C library's \<^verbatim>\<open>memset\<close> and \<^verbatim>\<open>memcpy\<close>, a byte at a time.\<close>

primrec mem_set :: "u64 \<Rightarrow> u8 \<Rightarrow> nat \<Rightarrow> memory \<Rightarrow> memory option" where
  "mem_set p v 0 m = Some m"
| "mem_set p v (Suc n) m = do {
     m \<leftarrow> store8 m p v;
     mem_set (p + 1) v n m
   }"

primrec mem_cpy :: "u64 \<Rightarrow> u64 \<Rightarrow> nat \<Rightarrow> memory \<Rightarrow> memory option" where
  "mem_cpy dst src 0 m = Some m"
| "mem_cpy dst src (Suc n) m = do {
     b \<leftarrow> load8 m src;
     m \<leftarrow> store8 m dst b;
     mem_cpy (dst + 1) (src + 1) n m
   }"

subsection \<open>Symbolic execution\<close>

text \<open>
  The collection \<open>exec_simps\<close> executes straight-line code on a state of which the accessed
  addresses are known to be valid: validity depends on the bounds only, which no store
  changes.
\<close>

named_theorems exec_simps "symbolic execution of loads, stores and assertions"

lemma valid_cell_update [simp]: "valid_cell (m\<lparr>cells := c\<rparr>) a = valid_cell m a"
  by (simp add: valid_cell_def)

lemma load64_valid [exec_simps]: "valid_cell m a \<Longrightarrow> load64 m a = Some (cells m a)"
  by (simp add: load64_def)

lemma store64_valid [exec_simps]:
  "valid_cell m a \<Longrightarrow> store64 m a v = Some (m\<lparr>cells := (cells m)(a := v)\<rparr>)"
  by (simp add: store64_def)

lemma malloc_assert_True [exec_simps]: "b \<Longrightarrow> malloc_assert b = Some ()"
  by (simp add: malloc_assert_def)

lemma malloc_assert_eq_Some [simp]: "malloc_assert b = Some u \<longleftrightarrow> b"
  by (simp add: malloc_assert_def)

lemma load_lane_page [exec_simps]:
  assumes "page_aligned a" "c < 4096" "valid_cell m (a + (c AND - 8))"
  shows "load_lane m (a + c) = Some (get_lane (8 * unat (c AND 7)) (cells m (a + (c AND - 8))))"
  using assms by (simp add: load_lane_def page_offset_and load64_valid)

lemma store_lane_page [exec_simps]:
  assumes "page_aligned a" "c < 4096" "valid_cell m (a + (c AND - 8))"
  shows "store_lane m (a + c) v = Some (m\<lparr>cells := (cells m)(a + (c AND - 8) :=
    set_lane (8 * unat (c AND 7)) v (cells m (a + (c AND - 8))))\<rparr>)"
  using assms by (simp add: store_lane_def page_offset_and load64_valid store64_valid)

lemma load_lane_page0 [exec_simps]:
  assumes "page_aligned a" "valid_cell m a"
  shows "load_lane m a = Some (get_lane 0 (cells m a))"
  using load_lane_page [of a 0 m] assms by simp

lemma store_lane_page0 [exec_simps]:
  assumes "page_aligned a" "valid_cell m a"
  shows "store_lane m a v = Some (m\<lparr>cells := (cells m)(a := set_lane 0 v (cells m a))\<rparr>)"
  using store_lane_page [of a 0 m] assms by simp

text \<open>A cell of a page of the arena is valid.\<close>

lemma valid_cell_pg [exec_simps]:
  assumes "page_aligned h" "arena_start m = h" "arena_end m = pg h N"
    and "unat h + 4096 * N < 2 ^ 64" "k < N" "c < 4096" "c AND 7 = 0"
  shows "valid_cell m (pg h k + c)"
proof -
  have u: "unat (pg h k + c) = unat h + 4096 * k + unat c"
    using assms by (intro unat_pg_offset) auto
  have "unat c < 4096" using \<open>c < 4096\<close> by (simp add: word_less_nat_alt)
  moreover have "unat c mod 8 = 0"
  proof -
    have "c AND 7 = take_bit 3 c" by (simp add: take_bit_eq_mask mask_eq_exp_minus_1)
    then have "unat (take_bit 3 c) = 0" using assms by simp
    then show ?thesis by (simp only: unsigned_take_bit_eq) (simp add: take_bit_eq_mod)
  qed
  ultimately have c: "unat c + 8 \<le> 4096" by presburger
  have "unat (pg h N) = unat h + 4096 * N" using assms by (intro unat_pg) simp
  moreover have "4096 * Suc k \<le> 4096 * N" using assms(5) by simp
  ultimately have "unat (pg h k + c) + 8 \<le> unat (arena_end m)" using u c assms(3) by simp
  moreover have "h \<le> pg h k + c" using u by (simp add: word_le_nat_alt)
  moreover have "(pg h k + c) AND 7 = 0"
    using assms by (simp add: page_offset_and(1))
  ultimately show ?thesis using assms(2) by (simp add: valid_cell_def)
qed

text \<open>A byte that is stored is the one that is loaded, and no other byte changes.\<close>

lemma split_address: "(a :: u64) AND NOT 7 = b AND NOT 7 \<Longrightarrow> a AND 7 = b AND 7 \<Longrightarrow> a = b"
proof -
  assume h: "a AND NOT 7 = b AND NOT 7" "a AND 7 = b AND 7"
  have "x = (x AND NOT 7) OR (x AND 7)" for x :: u64 by (rule bit_eqI) (auto simp: bit_simps)
  then show "a = b" using h by metis
qed

lemma load8_Some: "(\<exists>v. load8 m a = Some v) \<longleftrightarrow> valid_cell m (a AND NOT 7)"
  by (simp add: load_lane_def load64_def)

lemma store8_Some: "(\<exists>m'. store8 m a v = Some m') \<longleftrightarrow> valid_cell m (a AND NOT 7)"
  by (auto simp: store_lane_def load64_def store64_def)

lemma load8_store8:
  assumes "store8 m a v = Some m'"
  shows "load8 m' b = (if b = a then Some v else load8 m b)"
    "arena_start m' = arena_start m" "arena_end m' = arena_end m" "arena_max m' = arena_max m"
proof -
  let ?c = "a AND NOT 7"
  have v: "valid_cell m ?c" using assms store8_Some by blast
  then have m': "m' = m\<lparr>cells := (cells m)(?c := set_lane (8 * unat (a AND 7)) v (cells m ?c))\<rparr>"
    using assms by (simp add: store_lane_def load64_def store64_def)
  then show "arena_start m' = arena_start m" "arena_end m' = arena_end m" "arena_max m' = arena_max m" by simp_all
  have l: "unat (x AND 7) < 8" for x :: u64
  proof -
    have "x AND 7 \<le> 7" by (rule word_and_le1)
    then show ?thesis by (simp add: word_le_nat_alt)
  qed
  show "load8 m' b = (if b = a then Some v else load8 m b)"
  proof (cases "b AND NOT 7 = ?c")
    case True
    show ?thesis
    proof (cases "b = a")
      case False
      then have "b AND 7 \<noteq> a AND 7" using True split_address by blast
      then have "unat (b AND 7) \<noteq> unat (a AND 7)" by (simp add: word_unat_eq_iff)
      then have "8 * unat (b AND 7) + 8 \<le> 8 * unat (a AND 7) \<or> 8 * unat (a AND 7) + 8 \<le> 8 * unat (b AND 7)" by linarith
      then have "(get_lane (8 * unat (b AND 7)) (set_lane (8 * unat (a AND 7)) v (cells m ?c)) :: u8)
          = get_lane (8 * unat (b AND 7)) (cells m ?c)"
        using l [of a] by (intro get_set_lane_other) simp_all
      then show ?thesis using False True v by (simp add: m' load_lane_def load64_def)
    next
      case T: True
      then show ?thesis using v l [of a] by (simp add: m' load_lane_def load64_def get_set_lane_same)
    qed
  next
    case False
    then have "b \<noteq> a" by blast
    then show ?thesis using False by (simp add: m' load_lane_def load64_def)
  qed
qed

end
