(* ===== verification/Layout.thy ===== *)
theory Layout
  imports Memory
begin

unbundle bit_operations_syntax

section \<open>Constants, struct layouts and size classes\<close>

text \<open>
  The macros of \<^verbatim>\<open>slab_malloc/mm.c\<close>, the byte offsets of the fields of
  \<^verbatim>\<open>struct slab\<close>, \<^verbatim>\<open>struct block\<close>, \<^verbatim>\<open>struct slab_bin\<close> and \<^verbatim>\<open>struct heap\<close>, and the
  integer functions that choose size classes and bins. Every function is computed at
  the C width of its operands and truncated to the C width of its result. The
  collection \<open>layout_simps\<close> evaluates the constants.
\<close>

named_theorems layout_simps "values of macros and field offsets"

subsection \<open>Alignment macros\<close>

definition ALIGN_DOWN :: "u64 \<Rightarrow> u64 \<Rightarrow> u64" where
  "ALIGN_DOWN val m = val AND NOT (m - 1)"

definition ALIGN_UP :: "u64 \<Rightarrow> u64 \<Rightarrow> u64" where
  "ALIGN_UP val m = (val + m - 1) AND NOT (m - 1)"

definition CEIL_DIV :: "u64 \<Rightarrow> u64 \<Rightarrow> u64" where
  "CEIL_DIV val m = (val + m - 1) div m"

subsection \<open>Macros\<close>

definition MALLOC_ALIGN :: u64 where [layout_simps]: "MALLOC_ALIGN = 16"
definition SLAB_SIZE :: u64 where [layout_simps]: "SLAB_SIZE = 4096"
definition SLAB_SIZE_SHIFT :: nat where [layout_simps]: "SLAB_SIZE_SHIFT = 12"
definition SLAB_SIZE_MASK :: u64 where "SLAB_SIZE_MASK = NOT (SLAB_SIZE - 1)"

definition SLAB_ALLOC_BIT :: u8 where [layout_simps]: "SLAB_ALLOC_BIT = 1"
definition SLAB_PREV_ALLOC_BIT :: u8 where [layout_simps]: "SLAB_PREV_ALLOC_BIT = 2"
definition SLAB_PACKED_BIT :: u8 where [layout_simps]: "SLAB_PACKED_BIT = 4"
definition LAST_SLAB_ALLOC :: u32 where [layout_simps]: "LAST_SLAB_ALLOC = 1"

definition PACKED_SLAB_2LVL_BITV_THRESH :: u64 where
  [layout_simps]: "PACKED_SLAB_2LVL_BITV_THRESH = 48"
definition PACKED_SLAB_16_BITV_LEN :: u64 where [layout_simps]: "PACKED_SLAB_16_BITV_LEN = 32"
definition PACKED_SLAB_32_BITV_LEN :: u64 where [layout_simps]: "PACKED_SLAB_32_BITV_LEN = 16"
definition PACKED_SLAB_48_BITV_LEN :: u64 where [layout_simps]: "PACKED_SLAB_48_BITV_LEN = 11"

definition PACKED_SLAB_16_HEADER_SIZE :: u64 where
  "PACKED_SLAB_16_HEADER_SIZE = ALIGN_UP (24 + PACKED_SLAB_16_BITV_LEN) MALLOC_ALIGN"
definition PACKED_SLAB_32_HEADER_SIZE :: u64 where
  "PACKED_SLAB_32_HEADER_SIZE = ALIGN_UP (24 + PACKED_SLAB_32_BITV_LEN) MALLOC_ALIGN"
definition PACKED_SLAB_48_HEADER_SIZE :: u64 where
  "PACKED_SLAB_48_HEADER_SIZE = ALIGN_UP (24 + PACKED_SLAB_48_BITV_LEN) MALLOC_ALIGN"

definition PACKED_SLAB_16_BITV_BITS :: u64 where
  "PACKED_SLAB_16_BITV_BITS = (SLAB_SIZE - PACKED_SLAB_16_HEADER_SIZE) div 16"
definition PACKED_SLAB_32_BITV_BITS :: u64 where
  "PACKED_SLAB_32_BITV_BITS = (SLAB_SIZE - PACKED_SLAB_32_HEADER_SIZE) div 32"
definition PACKED_SLAB_48_BITV_BITS :: u64 where
  "PACKED_SLAB_48_BITV_BITS = (SLAB_SIZE - PACKED_SLAB_48_HEADER_SIZE) div 48"

definition PACKED_SLAB_HEADER_SIZE :: u64 where [layout_simps]: "PACKED_SLAB_HEADER_SIZE = 32"
definition MAX_TINY_BLOCK_SZ :: u64 where [layout_simps]: "MAX_TINY_BLOCK_SZ = 496"
definition MIN_MEDIUM_BLOCK_SZ :: u64 where
  "MIN_MEDIUM_BLOCK_SZ = MAX_TINY_BLOCK_SZ + MALLOC_ALIGN"
definition MAX_MEDIUM_BLOCK_SZ :: u64 where
  "MAX_MEDIUM_BLOCK_SZ = SLAB_SIZE - MALLOC_ALIGN"
definition MIN_LARGE_BLOCK_SZ :: u64 where "MIN_LARGE_BLOCK_SZ = SLAB_SIZE"
definition REALLOC_MAX_DEADWEIGHT :: u64 where
  "REALLOC_MAX_DEADWEIGHT = MAX_TINY_BLOCK_SZ"
definition NUM_SLAB_BINS :: nat where [layout_simps]: "NUM_SLAB_BINS = 128"
definition MAX_SEG_SLAB_SZ :: u64 where
  "MAX_SEG_SLAB_SZ = of_nat (NUM_SLAB_BINS - 1)"
definition SLAB_BINS_SKIPLIST_SZ :: nat where
  "SLAB_BINS_SKIPLIST_SZ = (NUM_SLAB_BINS + (8 * 4 - 1)) div (8 * 4)"
definition NUM_SMALLBINS :: nat where
  "NUM_SMALLBINS = unat (MAX_TINY_BLOCK_SZ div MALLOC_ALIGN) - 8"
definition NUM_MEDIUMBINS :: nat where
  "NUM_MEDIUMBINS = unat ((MAX_MEDIUM_BLOCK_SZ - MIN_MEDIUM_BLOCK_SZ) div MALLOC_ALIGN) + 1"
definition MEDIUMBINS_SKIPLIST_SZ :: nat where
  "MEDIUMBINS_SKIPLIST_SZ = (NUM_MEDIUMBINS + (8 * 4 - 1)) div (8 * 4)"

lemma SLAB_SIZE_MASK_val [layout_simps]: "SLAB_SIZE_MASK = - 4096"
  by (simp add: SLAB_SIZE_MASK_def SLAB_SIZE_def)

lemma header_sizes [layout_simps]:
  "PACKED_SLAB_16_HEADER_SIZE = 64" "PACKED_SLAB_32_HEADER_SIZE = 48"
  "PACKED_SLAB_48_HEADER_SIZE = 48"
  by (simp_all add: PACKED_SLAB_16_HEADER_SIZE_def PACKED_SLAB_32_HEADER_SIZE_def
      PACKED_SLAB_48_HEADER_SIZE_def ALIGN_UP_def layout_simps)

lemma bitv_bits [layout_simps]:
  "PACKED_SLAB_16_BITV_BITS = 252" "PACKED_SLAB_32_BITV_BITS = 126"
  "PACKED_SLAB_48_BITV_BITS = 84"
  by (simp_all add: PACKED_SLAB_16_BITV_BITS_def PACKED_SLAB_32_BITV_BITS_def
      PACKED_SLAB_48_BITV_BITS_def layout_simps)

lemma size_limits [layout_simps]:
  "MIN_MEDIUM_BLOCK_SZ = 512" "MAX_MEDIUM_BLOCK_SZ = 4080" "MIN_LARGE_BLOCK_SZ = 4096"
  "REALLOC_MAX_DEADWEIGHT = 496" "MAX_SEG_SLAB_SZ = 127" "SLAB_BINS_SKIPLIST_SZ = 4"
  "NUM_SMALLBINS = 23" "NUM_MEDIUMBINS = 224" "MEDIUMBINS_SKIPLIST_SZ = 7"
  by (simp_all add: MIN_MEDIUM_BLOCK_SZ_def MAX_MEDIUM_BLOCK_SZ_def MIN_LARGE_BLOCK_SZ_def
      REALLOC_MAX_DEADWEIGHT_def MAX_SEG_SLAB_SZ_def SLAB_BINS_SKIPLIST_SZ_def
      NUM_SMALLBINS_def NUM_MEDIUMBINS_def MEDIUMBINS_SKIPLIST_SZ_def layout_simps)

subsection \<open>\<^verbatim>\<open>struct slab\<close>\<close>

text \<open>
  Byte offsets within a slab. The three views of the union share the first 32 bytes:
  a free slab has \<^verbatim>\<open>next\<close>, \<^verbatim>\<open>prev\<close>, \<^verbatim>\<open>num_slabs\<close>; a packed slab \<^verbatim>\<open>sz_class\<close>,
  \<^verbatim>\<open>alloc_cnt\<close>, \<^verbatim>\<open>ps_f1\<close>, \<^verbatim>\<open>next_p\<close>, \<^verbatim>\<open>prev_p\<close> and one of \<^verbatim>\<open>ps_f2\<close> and
  \<^verbatim>\<open>pl_f\<close>; a large slab \<^verbatim>\<open>block_offs\<close> and \<^verbatim>\<open>offset\<close>, whose top byte is
  \<^verbatim>\<open>block_alloc\<close>.
\<close>

definition slab_flags :: u64 where [layout_simps]: "slab_flags = 0"
definition slab_next :: u64 where [layout_simps]: "slab_next = 8"
definition slab_prev :: u64 where [layout_simps]: "slab_prev = 16"
definition slab_num_slabs :: u64 where [layout_simps]: "slab_num_slabs = 24"
definition slab_sz_class :: u64 where [layout_simps]: "slab_sz_class = 1"
definition slab_alloc_cnt :: u64 where [layout_simps]: "slab_alloc_cnt = 2"
definition slab_ps_f1 :: u64 where [layout_simps]: "slab_ps_f1 = 4"
definition slab_next_p :: u64 where [layout_simps]: "slab_next_p = 8"
definition slab_prev_p :: u64 where [layout_simps]: "slab_prev_p = 16"
definition slab_ps_f2 :: u64 where [layout_simps]: "slab_ps_f2 = 24"
definition slab_pl_f :: u64 where [layout_simps]: "slab_pl_f = 24"
definition slab_block_offs :: u64 where [layout_simps]: "slab_block_offs = 1"
definition slab_offset :: u64 where [layout_simps]: "slab_offset = 8"
definition slab_block_alloc :: u64 where [layout_simps]: "slab_block_alloc = 15"
definition LARGE_SLAB_HEADER_SIZE :: u64 where [layout_simps]: "LARGE_SLAB_HEADER_SIZE = 16"

subsection \<open>\<^verbatim>\<open>struct block\<close>, \<^verbatim>\<open>struct slab_bin\<close> and \<^verbatim>\<open>struct heap\<close>\<close>

definition block_next :: u64 where [layout_simps]: "block_next = 0"
definition block_prev :: u64 where [layout_simps]: "block_prev = 8"
definition bin_head :: u64 where [layout_simps]: "bin_head = 0"
definition bin_tail :: u64 where [layout_simps]: "bin_tail = 8"
definition sizeof_slab_bin :: u64 where [layout_simps]: "sizeof_slab_bin = 16"

definition heap_slab_bins :: u64 where [layout_simps]: "heap_slab_bins = 0"
definition heap_smallbins :: u64 where
  "heap_smallbins = heap_slab_bins + of_nat NUM_SLAB_BINS * sizeof_slab_bin"
definition heap_mediumbins :: u64 where
  "heap_mediumbins = heap_smallbins + of_nat NUM_SMALLBINS * 8"
definition heap_slab_skiplist :: u64 where
  "heap_slab_skiplist = heap_mediumbins + of_nat NUM_MEDIUMBINS * 8"
definition heap_med_skiplist :: u64 where
  "heap_med_skiplist = heap_slab_skiplist + of_nat SLAB_BINS_SKIPLIST_SZ * 4"
definition heap_heap_end :: u64 where \<comment> \<open>a pointer, aligned to 8\<close>
  "heap_heap_end = ALIGN_UP (heap_med_skiplist + of_nat MEDIUMBINS_SKIPLIST_SZ * 4) 8"
definition heap_flags :: u64 where "heap_flags = heap_heap_end + 8"
definition sizeof_heap :: u64 where \<comment> \<open>an \<^verbatim>\<open>int\<close>, and the padding to the struct's alignment\<close>
  "sizeof_heap = ALIGN_UP (heap_flags + 4) 8"

lemma heap_offsets [layout_simps]:
  "heap_smallbins = 2048" "heap_mediumbins = 2232" "heap_slab_skiplist = 4024"
  "heap_med_skiplist = 4040" "heap_heap_end = 4072" "heap_flags = 4080" "sizeof_heap = 4088"
  by (simp_all add: heap_smallbins_def heap_mediumbins_def heap_slab_skiplist_def
      heap_med_skiplist_def heap_heap_end_def heap_flags_def sizeof_heap_def ALIGN_UP_def
      layout_simps)

end
