(* ===== verification/Size_Class.thy ===== *)
theory Size_Class
  imports Layout
begin

unbundle bit_operations_syntax

section \<open>Size classes of tiny and medium blocks\<close>

text \<open>
  The integer functions that round a request up to a size class and find its bin. Every
  result is truncated to the width the C function returns.
\<close>

definition is_tiny_block_size :: "u64 \<Rightarrow> bool" where
  "is_tiny_block_size sz \<longleftrightarrow> sz \<le> MAX_TINY_BLOCK_SZ"

definition adj_tiny_size :: "u32 \<Rightarrow> u32" where
  "adj_tiny_size sz =
     (if sz < 320 then sz + push_bit 4 (of_bool (sz = 256))
      else if sz < 416 then (sz AND NOT 0x1f) + 16
      else 400 + 3 * (drop_bit 4 (sz + 48) AND NOT 0xf))"

definition size_to_sz_class :: "u32 \<Rightarrow> u8" where
  "size_to_sz_class sz = ucast (sz div ucast MALLOC_ALIGN - 1)"

definition sz_class_to_size :: "u8 \<Rightarrow> u32" where
  "sz_class_to_size sz_class = (ucast sz_class + 1) * ucast MALLOC_ALIGN"

definition packed_bin_idx :: "u32 \<Rightarrow> u8" where
  "packed_bin_idx sz = ucast
     (if sz < 256 then sz div ucast MALLOC_ALIGN - 1
      else if sz < 368 then sz * 3 div (4 * ucast MALLOC_ALIGN) + 3
      else (sz * 3 + 32) div (8 * ucast MALLOC_ALIGN) + 11)"

definition packed_slab_n_blocks :: "u32 \<Rightarrow> u32" where
  "packed_slab_n_blocks sz = ucast (SLAB_SIZE - PACKED_SLAB_HEADER_SIZE) div sz"

definition is_medium_block_size :: "u64 \<Rightarrow> bool" where
  "is_medium_block_size sz \<longleftrightarrow> MAX_TINY_BLOCK_SZ < sz \<and> sz \<le> MAX_MEDIUM_BLOCK_SZ"

definition medium_bin_idx :: "u64 \<Rightarrow> u64" where
  "medium_bin_idx sz = (sz - MIN_MEDIUM_BLOCK_SZ) div MALLOC_ALIGN"

definition medium_bin_idx_size :: "u64 \<Rightarrow> u64" where
  "medium_bin_idx_size bin_idx = bin_idx * MALLOC_ALIGN + MIN_MEDIUM_BLOCK_SZ"

definition medium_bin_skiplist_idx :: "u32 \<Rightarrow> u8" where
  "medium_bin_skiplist_idx bin_idx = ucast (bin_idx div (8 * 4))"

definition medium_bin_skiplist_bit :: "u32 \<Rightarrow> u8" where
  "medium_bin_skiplist_bit bin_idx = ucast (bin_idx AND (8 * 4 - 1))"

subsection \<open>Facts about the size classes\<close>

text \<open>The aligned tiny sizes, and the classes they are rounded up to.\<close>

definition tiny_sizes :: "u32 list" where
  "tiny_sizes = map (\<lambda>k. of_nat (16 * k)) [1..<32]"

definition tiny_classes :: "u32 list" where
  "tiny_classes = [16, 32, 48, 64, 80, 96, 112, 128, 144, 160, 176, 192, 208, 224, 240,
     272, 288, 304, 336, 368, 400, 448, 496]"

lemma and_15_dvd: "(n :: 'a :: len word) AND 15 = 0 \<longleftrightarrow> 16 dvd unat n"
proof -
  have "n AND 15 = take_bit 4 n" by (simp add: take_bit_eq_mask mask_eq_exp_minus_1)
  then have "unat (n AND 15) = unat n mod 16"
    by (simp only: unsigned_take_bit_eq) (simp add: take_bit_eq_mod)
  then show ?thesis by (metis unat_eq_zero dvd_eq_mod_eq_0)
qed

lemma tiny_sizesI:
  assumes "16 \<le> n" "n \<le> 496" "n AND 15 = 0"
  shows "n \<in> set tiny_sizes"
proof -
  obtain k where k: "unat n = 16 * k" using assms(3) by (auto simp: and_15_dvd elim: dvdE)
  have "1 \<le> k" "k < 32" using assms(1,2) k by (auto simp: word_le_nat_alt)
  moreover have "n = of_nat (16 * k)" unfolding k [symmetric] by simp
  ultimately show ?thesis unfolding tiny_sizes_def by auto
qed

lemma tiny_sizes_eval: "tiny_sizes =
   [16, 32, 48, 64, 80, 96, 112, 128, 144, 160, 176, 192, 208, 224, 240, 256, 272, 288, 304, 320,
    336, 352, 368, 384, 400, 416, 432, 448, 464, 480, 496]"
  by (simp add: tiny_sizes_def upt_conv_Cons)

lemma adj_tiny_eval: "map adj_tiny_size tiny_sizes =
   [16, 32, 48, 64, 80, 96, 112, 128, 144, 160, 176, 192, 208, 224, 240, 272, 272, 288, 304, 336,
    336, 368, 368, 400, 400, 448, 448, 448, 496, 496, 496]"
  unfolding tiny_sizes_eval list.map by (simp add: adj_tiny_size_def)

lemma bin_idx_eval: "map packed_bin_idx tiny_classes = map of_nat [0..<23]"
  by (simp add: tiny_classes_def packed_bin_idx_def layout_simps upt_conv_Cons)

lemma adj_tiny_size_props:
  assumes "16 \<le> n" "n \<le> 496" "n AND 15 = 0"
  shows "adj_tiny_size n \<in> set tiny_classes" "n \<le> adj_tiny_size n"
    "adj_tiny_size (adj_tiny_size n) = adj_tiny_size n"
    "packed_slab_n_blocks (adj_tiny_size n) \<le> packed_slab_n_blocks n"
proof -
  have n: "n \<in> set tiny_sizes" by (rule tiny_sizesI [OF assms])
  have "list_all (\<lambda>n. adj_tiny_size n \<in> set tiny_classes) tiny_sizes"
    "list_all (\<lambda>n. n \<le> adj_tiny_size n) tiny_sizes"
    "list_all (\<lambda>n. adj_tiny_size (adj_tiny_size n) = adj_tiny_size n) tiny_sizes"
    unfolding tiny_sizes_eval tiny_classes_def by (simp_all add: adj_tiny_size_def)
  then show "adj_tiny_size n \<in> set tiny_classes" "n \<le> adj_tiny_size n"
    "adj_tiny_size (adj_tiny_size n) = adj_tiny_size n"
    using n by (auto simp only: list_all_iff)
  have "list_all (\<lambda>n. packed_slab_n_blocks (adj_tiny_size n) \<le> packed_slab_n_blocks n) tiny_sizes"
    unfolding tiny_sizes_eval by (simp add: adj_tiny_size_def packed_slab_n_blocks_def layout_simps)
  then show "packed_slab_n_blocks (adj_tiny_size n) \<le> packed_slab_n_blocks n"
    using n by (auto simp only: list_all_iff)
qed

lemma tiny_classes_props:
  assumes "c \<in> set tiny_classes"
  shows "16 \<le> c" "c \<le> 496" "c AND 15 = 0" "sz_class_to_size (size_to_sz_class c) = c"
    "packed_bin_idx c < of_nat NUM_SMALLBINS"
proof -
  have "list_all (\<lambda>c. 16 \<le> c \<and> c \<le> 496 \<and> c AND 15 = 0) tiny_classes"
    "list_all (\<lambda>c. sz_class_to_size (size_to_sz_class c) = c) tiny_classes"
    "list_all (\<lambda>c. packed_bin_idx c < of_nat NUM_SMALLBINS) tiny_classes"
    unfolding tiny_classes_def
    by (simp_all add: sz_class_to_size_def size_to_sz_class_def packed_bin_idx_def layout_simps)
  then show "16 \<le> c" "c \<le> 496" "c AND 15 = 0" "sz_class_to_size (size_to_sz_class c) = c"
    "packed_bin_idx c < of_nat NUM_SMALLBINS"
    using assms by (simp_all only: list_all_iff)
qed

lemma packed_bin_idx_inj:
  assumes "c \<in> set tiny_classes" "d \<in> set tiny_classes"
  shows "packed_bin_idx c = packed_bin_idx d \<longleftrightarrow> c = d"
proof -
  have "distinct (map packed_bin_idx tiny_classes)"
    unfolding bin_idx_eval by (simp add: upt_conv_Cons)
  then have "inj_on packed_bin_idx (set tiny_classes)" by (simp add: distinct_map)
  then show ?thesis using assms by (auto dest: inj_onD)
qed

text \<open>C21: adj_tiny_size rounds every aligned tiny request up to a class of at most 496 bytes that
  is a multiple of 16, it is idempotent, and the one-byte sz_class of the class determines
  its block size.\<close>

theorem adj_tiny_size_class:
  assumes "16 \<le> n" "n \<le> 496" "n AND 15 = 0"
  shows "n \<le> adj_tiny_size n \<and> adj_tiny_size n \<le> 496 \<and> adj_tiny_size n AND 15 = 0
    \<and> adj_tiny_size (adj_tiny_size n) = adj_tiny_size n
    \<and> sz_class_to_size (size_to_sz_class (adj_tiny_size n)) = adj_tiny_size n"
  using adj_tiny_size_props [OF assms] tiny_classes_props by blast

theorem adj_tiny_size_class_witness:
  "(256 :: u32) \<le> adj_tiny_size 256 \<and> adj_tiny_size 256 \<le> 496 \<and> adj_tiny_size 256 AND 15 = 0
    \<and> adj_tiny_size (adj_tiny_size 256) = adj_tiny_size 256
    \<and> sz_class_to_size (size_to_sz_class (adj_tiny_size 256)) = adj_tiny_size 256"
  by (rule adj_tiny_size_class) simp_all

text \<open>C22: packed_bin_idx maps the adjusted tiny sizes into the 23 small bins and never puts two
  different classes into one bin.\<close>

theorem packed_bin_idx_separates:
  assumes "16 \<le> a" "a \<le> 496" "a AND 15 = 0" and "16 \<le> b" "b \<le> 496" "b AND 15 = 0"
  shows "packed_bin_idx (adj_tiny_size a) < of_nat NUM_SMALLBINS
    \<and> (packed_bin_idx (adj_tiny_size a) = packed_bin_idx (adj_tiny_size b)
        \<longleftrightarrow> adj_tiny_size a = adj_tiny_size b)"
  using adj_tiny_size_props(1) [OF assms(1-3)] adj_tiny_size_props(1) [OF assms(4-6)]
  by (simp add: tiny_classes_props(5) packed_bin_idx_inj)

theorem packed_bin_idx_separates_witness:
  "packed_bin_idx (adj_tiny_size 432) < of_nat NUM_SMALLBINS
    \<and> (packed_bin_idx (adj_tiny_size 432) = packed_bin_idx (adj_tiny_size 464)
        \<longleftrightarrow> adj_tiny_size 432 = adj_tiny_size 464)"
  by (rule packed_bin_idx_separates) simp_all

text \<open>C23: For an aligned medium size, medium_bin_idx is an index into the 224 medium bins and
  medium_bin_idx_size is its inverse.\<close>

theorem medium_bin_idx_roundtrip:
  assumes "is_medium_block_size n" "n AND 15 = 0"
  shows "medium_bin_idx_size (medium_bin_idx n) = n \<and> unat (medium_bin_idx n) < NUM_MEDIUMBINS"
proof -
  obtain k where k: "unat n = 16 * k" using assms(2) by (auto simp: and_15_dvd elim: dvdE)
  have le: "496 < unat n" "unat n \<le> 4080"
    using assms(1) by (auto simp: is_medium_block_size_def layout_simps word_less_nat_alt word_le_nat_alt)
  then have n: "512 \<le> n" using k by (auto simp: word_le_nat_alt)
  have s: "unat (n - 512) = 16 * (k - 32)" using n k by (simp add: unat_sub)
  then have d: "unat (medium_bin_idx n) = k - 32"
    by (simp add: medium_bin_idx_def layout_simps unat_div)
  have "unat (medium_bin_idx n * 16 + 512) = (k - 32) * 16 + 512"
    using le k by (simp add: unat_word_ariths d)
  then have "unat (medium_bin_idx_size (medium_bin_idx n)) = unat n"
    using k le by (simp add: medium_bin_idx_size_def layout_simps)
  then have "medium_bin_idx_size (medium_bin_idx n) = n" by (simp add: word_unat_eq_iff)
  moreover have "unat (medium_bin_idx n) < NUM_MEDIUMBINS"
    using le k by (simp add: d layout_simps)
  ultimately show ?thesis ..
qed

theorem medium_bin_idx_roundtrip_witness:
  "medium_bin_idx_size (medium_bin_idx 4080) = 4080 \<and> unat (medium_bin_idx 4080) < NUM_MEDIUMBINS"
  by (rule medium_bin_idx_roundtrip) (simp_all add: is_medium_block_size_def layout_simps)

end
