(* ===== verification/Link_List.thy ===== *)
theory Link_List
  imports Memory
begin

section \<open>Doubly linked lists in memory\<close>

text \<open>
  The three kinds of free lists of \<^verbatim>\<open>mm.c\<close> are intrusive doubly linked lists. They
  differ in where a node keeps its two links, so the predicates take the link fields
  \<open>nx\<close> and \<open>pv\<close> as functions from a node to the address of its cell. A slab bin is a
  ring through its root (\<open>ring\<close>); a small bin or a medium bin is a chain that ends in
  NULL (\<open>chain\<close>). The locale \<open>link_fields\<close> says that different nodes have different
  link cells, and proves once that unlinking, inserting and framing do to the
  represented list what the code relies on.
\<close>

primrec seg :: "(u64 \<Rightarrow> u64) \<Rightarrow> (u64 \<Rightarrow> u64) \<Rightarrow> (u64 \<Rightarrow> u64) \<Rightarrow> u64 \<Rightarrow> u64 list \<Rightarrow> u64 \<Rightarrow> bool" where
  "seg nx pv c a [] b \<longleftrightarrow> c (nx a) = b \<and> c (pv b) = a"
| "seg nx pv c a (x # xs) b \<longleftrightarrow> c (nx a) = x \<and> c (pv x) = a \<and> seg nx pv c x xs b"

primrec chain :: "(u64 \<Rightarrow> u64) \<Rightarrow> (u64 \<Rightarrow> u64) \<Rightarrow> (u64 \<Rightarrow> u64) \<Rightarrow> u64 \<Rightarrow> u64 list \<Rightarrow> bool" where
  "chain nx pv c a [] \<longleftrightarrow> c (nx a) = 0"
| "chain nx pv c a (x # xs) \<longleftrightarrow> x \<noteq> 0 \<and> c (nx a) = x \<and> c (pv x) = a \<and> chain nx pv c x xs"

definition seg_from :: "(u64 \<Rightarrow> u64) \<Rightarrow> (u64 \<Rightarrow> u64) \<Rightarrow> (u64 \<Rightarrow> u64) \<Rightarrow> u64 list \<Rightarrow> u64 \<Rightarrow> bool" where
  "seg_from nx pv c xs b \<longleftrightarrow> (case xs of [] \<Rightarrow> True | x # ys \<Rightarrow> seg nx pv c x ys b)"

definition sep_nodes :: "(u64 \<Rightarrow> u64) \<Rightarrow> (u64 \<Rightarrow> u64) \<Rightarrow> u64 set \<Rightarrow> bool" where
  "sep_nodes nx pv N \<longleftrightarrow> (\<forall>x\<in>N. \<forall>y\<in>N. nx x \<noteq> pv y)"

definition ring :: "(u64 \<Rightarrow> u64) \<Rightarrow> (u64 \<Rightarrow> u64) \<Rightarrow> (u64 \<Rightarrow> u64) \<Rightarrow> u64 \<Rightarrow> u64 list \<Rightarrow> bool" where
  "ring nx pv c r xs \<longleftrightarrow> seg nx pv c r xs r \<and> distinct (r # xs)"

lemma sep_nodesD: "sep_nodes nx pv N \<Longrightarrow> u \<in> N \<Longrightarrow> v \<in> N \<Longrightarrow> nx u \<noteq> pv v"
  by (simp add: sep_nodes_def)

lemma sep_nodes_mono: "sep_nodes nx pv N \<Longrightarrow> M \<subseteq> N \<Longrightarrow> sep_nodes nx pv M"
  by (auto simp: sep_nodes_def)

lemma seg_append: "seg nx pv c a (xs @ x # ys) b \<longleftrightarrow> seg nx pv c a xs x \<and> seg nx pv c x ys b"
  by (induction xs arbitrary: a) auto

lemma seg_split:
  "seg nx pv c a (xs @ ys) b \<longleftrightarrow> seg nx pv c a xs (hd (ys @ [b])) \<and> seg_from nx pv c ys b"
  by (cases ys) (simp_all add: seg_append seg_from_def)

lemma seg_tail: "seg nx pv c a xs b \<Longrightarrow> seg_from nx pv c xs b"
  by (cases xs) (simp_all add: seg_from_def)

lemma seg_last_next: "seg nx pv c a xs b \<Longrightarrow> c (nx (last (a # xs))) = b"
  by (induction xs arbitrary: a) auto

lemma seg_last_prev: "seg nx pv c a xs b \<Longrightarrow> c (pv b) = last (a # xs)"
  by (induction xs arbitrary: a) auto

lemma seg_head_next: "seg nx pv c a xs b \<Longrightarrow> c (nx a) = hd (xs @ [b])"
  by (cases xs) auto

text \<open>A segment depends on the links of its nodes only; its last link may be redirected.\<close>

lemma seg_frame:
  assumes "seg nx pv c a xs b"
    and "\<And>u. u \<in> set (a # xs) \<Longrightarrow> c' (nx u) = c (nx u)"
    and "\<And>v. v \<in> set (xs @ [b]) \<Longrightarrow> c' (pv v) = c (pv v)"
  shows "seg nx pv c' a xs b"
  using assms by (induction xs arbitrary: a) auto

lemma seg_from_frame:
  assumes "seg_from nx pv c xs b"
    and "\<And>u. u \<in> set xs \<Longrightarrow> c' (nx u) = c (nx u)"
    and "\<And>v. v \<in> set (tl (xs @ [b])) \<Longrightarrow> c' (pv v) = c (pv v)"
  shows "seg_from nx pv c' xs b"
  using assms unfolding seg_from_def by (cases xs) (auto intro: seg_frame)

lemma seg_redirect_last:
  assumes "seg nx pv c a xs b" and "p = last (a # xs)"
    and "c' (nx p) = b'" and "c' (pv b') = p"
    and "\<And>u. u \<in> set (a # xs) \<Longrightarrow> u \<noteq> p \<Longrightarrow> c' (nx u) = c (nx u)"
    and "\<And>v. v \<in> set xs \<Longrightarrow> c' (pv v) = c (pv v)"
    and "distinct (a # xs)"
  shows "seg nx pv c' a xs b'"
  using assms
proof (induction xs arbitrary: a)
  case Nil
  then show ?case by simp
next
  case (Cons x xs)
  have "seg nx pv c' x xs b'"
    by (rule Cons.IH) (use Cons.prems in auto)
  moreover have "p \<in> set (x # xs)" using Cons.prems(2) last_in_set [of "x # xs"] by simp
  then have "a \<noteq> p" using Cons.prems(7) by (metis distinct.simps(2))
  then have "c' (nx a) = x" using Cons.prems by auto
  ultimately show ?case using Cons.prems by auto
qed

lemma chain_nonnull: "chain nx pv c a xs \<Longrightarrow> 0 \<notin> set xs"
  by (induction xs arbitrary: a) auto

lemma chain_head: "chain nx pv c a xs \<Longrightarrow> c (nx a) = (case xs of [] \<Rightarrow> 0 | x # _ \<Rightarrow> x)"
  by (cases xs) auto

lemma chain_append:
  "chain nx pv c a (xs @ x # ys) \<longleftrightarrow> seg nx pv c a xs x \<and> x \<noteq> 0 \<and> 0 \<notin> set xs \<and> chain nx pv c x ys"
  by (induction xs arbitrary: a) auto

lemma chain_frame:
  assumes "chain nx pv c a xs"
    and "\<And>u. u \<in> set (a # xs) \<Longrightarrow> c' (nx u) = c (nx u)"
    and "\<And>v. v \<in> set xs \<Longrightarrow> c' (pv v) = c (pv v)"
  shows "chain nx pv c' a xs"
  using assms by (induction xs arbitrary: a) auto

locale link_fields =
  fixes nx pv :: "u64 \<Rightarrow> u64"
  assumes nx_inj: "nx a = nx b \<longleftrightarrow> a = b"
    and pv_inj: "pv a = pv b \<longleftrightarrow> a = b"
begin

lemma ring_frame:
  assumes "ring nx pv c r xs"
    and "\<And>u. u \<in> set (r # xs) \<Longrightarrow> c' (nx u) = c (nx u) \<and> c' (pv u) = c (pv u)"
  shows "ring nx pv c' r xs"
  using assms by (auto simp: ring_def intro!: seg_frame [of nx pv c])

text \<open>Unlinking a node: its two neighbours now point at each other.\<close>

lemma ring_remove:
  assumes r: "ring nx pv c r (xs @ x # ys)"
    and p: "p = last (r # xs)" and n: "n = hd (ys @ [r])"
    and c': "c' = c(nx p := n, pv n := p)"
    and sep: "sep_nodes nx pv (set (r # xs @ x # ys))"
  shows "ring nx pv c' r (xs @ ys)"
proof -
  have d: "distinct (r # xs @ x # ys)" and s1: "seg nx pv c r xs x" and s2: "seg_from nx pv c ys r"
    using r by (auto simp: ring_def seg_append seg_tail)
  have pN: "p \<in> set (r # xs)" unfolding p by (rule last_in_set) simp
  have nN: "n \<in> set (r # ys)" unfolding n by (cases ys) auto
  have np: "nx u \<noteq> pv v" if "u \<in> set (r # xs @ ys)" "v \<in> set (r # xs @ ys)" for u v
    by (rule sep_nodesD [OF sep]) (use that in auto)
  have cn: "c' (nx u) = (if u = p then n else c (nx u))" if "u \<in> set (r # xs @ ys)" for u
    using np [OF that, of n] nN that by (auto simp: c' nx_inj)
  have cp: "c' (pv v) = (if v = n then p else c (pv v))" if "v \<in> set (r # xs @ ys)" for v
    using np [THEN not_sym, of p v] pN that by (auto simp: c' pv_inj)
  have "seg nx pv c' r xs n"
    by (rule seg_redirect_last [OF s1 p]) (use cn cp pN nN d in auto)
  moreover have "seg_from nx pv c' ys r"
    by (rule seg_from_frame [OF s2]; cases ys) (use cn cp pN d n in auto)
  ultimately show ?thesis using d by (simp add: ring_def seg_split n)
qed

text \<open>Linking a node between the end of one part of the ring and the start of the other.\<close>

lemma ring_insert:
  assumes r: "ring nx pv c r (xs @ ys)"
    and p: "p = last (r # xs)" and n: "n = hd (ys @ [r])"
    and x: "x \<notin> set (r # xs @ ys)"
    and c': "c' = c(nx x := n, pv x := p, pv n := x, nx p := x)"
    and sep: "sep_nodes nx pv (set (r # xs @ x # ys))"
  shows "ring nx pv c' r (xs @ x # ys)"
proof -
  have d: "distinct (r # xs @ ys)" and s1: "seg nx pv c r xs n" and s2: "seg_from nx pv c ys r"
    using r by (auto simp: ring_def seg_split n)
  have pN: "p \<in> set (r # xs)" unfolding p by (rule last_in_set) simp
  have nN: "n \<in> set (r # ys)" unfolding n by (cases ys) auto
  have np: "nx u \<noteq> pv v"
    if "u \<in> set (r # xs @ x # ys)" "v \<in> set (r # xs @ x # ys)" for u v
    by (rule sep_nodesD [OF sep that])
  have cn: "c' (nx u) = (if u = p then x else if u = x then n else c (nx u))"
    if "u \<in> set (r # xs @ x # ys)" for u
    using np [OF that, of n] np [OF that, of x] nN that by (auto simp: c' nx_inj)
  have cp: "c' (pv v) = (if v = n then x else if v = x then p else c (pv v))"
    if "v \<in> set (r # xs @ x # ys)" for v
    using np [THEN not_sym, of p v] np [THEN not_sym, of x v] pN that by (auto simp: c' pv_inj)
  have "seg nx pv c' r xs x"
    by (rule seg_redirect_last [OF s1 p]) (use cn cp pN nN d x in auto)
  moreover have "seg nx pv c' x [] n"
    using cn [of x] cp [of n] pN nN x by auto
  moreover have "seg_from nx pv c' ys r"
    by (rule seg_from_frame [OF s2]; cases ys) (use cn cp pN d n x in auto)
  ultimately have "seg nx pv c' r (xs @ x # ys) r"
    by (simp add: seg_append) (simp add: seg_split [where xs = "[]", simplified] n)
  then show ?thesis using d x by (auto simp: ring_def)
qed

text \<open>The same two operations on a chain: push at the front, remove anywhere.\<close>

lemma chain_push:
  assumes ch: "chain nx pv c r xs" and n: "n = (case xs of [] \<Rightarrow> 0 | y # _ \<Rightarrow> y)"
    and x: "x \<notin> set (r # xs)" "x \<noteq> 0" and d: "distinct (r # xs)"
    and c': "c' (nx x) = n" "c' (pv x) = r" "c' (nx r) = x" "xs \<noteq> [] \<Longrightarrow> c' (pv n) = x"
    and frame: "\<And>u. u \<in> set xs \<Longrightarrow> c' (nx u) = c (nx u)"
      "\<And>v. v \<in> set xs \<Longrightarrow> v \<noteq> n \<Longrightarrow> c' (pv v) = c (pv v)"
  shows "chain nx pv c' r (x # xs)"
proof (cases xs)
  case Nil
  then show ?thesis using x c' n by simp
next
  case (Cons y zs)
  have "chain nx pv c y zs" using ch Cons by simp
  then have "chain nx pv c' y zs"
    by (rule chain_frame) (use frame d n Cons in auto)
  then show ?thesis using ch x c' n Cons by simp
qed

lemma chain_remove:
  assumes ch: "chain nx pv c r (xs @ x # ys)"
    and p: "p = last (r # xs)" and n: "n = (case ys of [] \<Rightarrow> 0 | y # _ \<Rightarrow> y)"
    and d: "distinct (r # xs @ x # ys)"
    and c': "c' (nx p) = n" "ys \<noteq> [] \<Longrightarrow> c' (pv n) = p"
    and frame: "\<And>u. u \<in> set (r # xs @ ys) \<Longrightarrow> u \<noteq> p \<Longrightarrow> c' (nx u) = c (nx u)"
      "\<And>v. v \<in> set (xs @ ys) \<Longrightarrow> v \<noteq> n \<Longrightarrow> c' (pv v) = c (pv v)"
  shows "chain nx pv c' r (xs @ ys)"
proof -
  have s1: "seg nx pv c r xs x" and x: "x \<noteq> 0" and z: "0 \<notin> set xs" and s2: "chain nx pv c x ys"
    using ch by (auto simp: chain_append)
  have pN: "p \<in> set (r # xs)" unfolding p by (rule last_in_set) simp
  show ?thesis
  proof (cases ys)
    case Nil
    have "chain nx pv c' r xs"
      using s1 z d p c' frame unfolding Nil n
    proof (induction xs arbitrary: r)
      case (Cons a as)
      have "chain nx pv c' a as"
        by (rule Cons.IH) (use Cons.prems in \<open>auto split: if_splits\<close>)
      moreover have "r \<noteq> p" using Cons.prems(3,4) last_in_set [of "a # as"] by auto
      ultimately show ?case using Cons.prems by auto
    qed simp
    then show ?thesis by (simp add: Nil)
  next
    case (Cons y zs)
    then have s2': "chain nx pv c y zs" and y: "n = y" "y \<noteq> 0" using s2 n by auto
    have "seg nx pv c' r xs y"
      by (rule seg_redirect_last [OF s1 p]) (use c' frame d y Cons pN in auto)
    moreover have ne: "u \<noteq> p" if "u \<in> set (y # zs)" for u using that pN d Cons by auto
    have "chain nx pv c' y zs"
      by (rule chain_frame [OF s2']) (use ne frame d y Cons in auto)
    ultimately show ?thesis using y z Cons by (simp add: chain_append)
  qed
qed

end

end
