(* ===== verification/Slab_Bins.thy ===== *)
theory Slab_Bins
  imports Layout Link_List
begin

unbundle bit_operations_syntax

section \<open>Slabs and the bins of free slabs\<close>

text \<open>
  The slab helper functions of \<^verbatim>\<open>mm.c\<close>: the flag tests, the size of a slab in pages,
  and the 128 bins of free slabs with their skiplist. A bin is a ring through the
  \<^verbatim>\<open>struct slab_bin\<close> itself: \<^verbatim>\<open>__slab_bin_start\<close> makes the bin look like a slab whose
  \<^verbatim>\<open>next\<close> and \<^verbatim>\<open>prev\<close> fields are the bin's \<^verbatim>\<open>head\<close> and \<^verbatim>\<open>tail\<close>.
\<close>

subsection \<open>Flags and sizes\<close>

definition slab_is_free :: "u64 \<Rightarrow> memory \<Rightarrow> bool option" where
  "slab_is_free s m = do {
     flags \<leftarrow> load8 m (s + slab_flags);
     Some (flags AND SLAB_ALLOC_BIT = 0)
   }"

definition slab_is_alloc :: "u64 \<Rightarrow> memory \<Rightarrow> bool option" where
  "slab_is_alloc s m = do {
     flags \<leftarrow> load8 m (s + slab_flags);
     Some (flags AND SLAB_ALLOC_BIT \<noteq> 0)
   }"

definition slab_is_packed :: "u64 \<Rightarrow> memory \<Rightarrow> bool option" where
  "slab_is_packed s m = do {
     flags \<leftarrow> load8 m (s + slab_flags);
     Some (flags AND SLAB_PACKED_BIT \<noteq> 0)
   }"

definition ptr_get_slab :: "u64 \<Rightarrow> u64" where
  "ptr_get_slab ptr = ALIGN_DOWN (ptr - MALLOC_ALIGN) SLAB_SIZE"

definition block_get_slab :: "u64 \<Rightarrow> u64" where
  "block_get_slab b = ALIGN_DOWN b SLAB_SIZE"

definition slab_bin_idx :: "u64 \<Rightarrow> u8" where
  "slab_bin_idx n_slabs =
     ucast (if n_slabs - 1 < of_nat NUM_SLAB_BINS - 1 then n_slabs - 1 else of_nat NUM_SLAB_BINS - 1)"

definition slab_bin_idx_small :: "u64 \<Rightarrow> u8" where
  "slab_bin_idx_small n_slabs = ucast (n_slabs - 1)"

definition slab_bin_skiplist_idx :: "u32 \<Rightarrow> u8" where
  "slab_bin_skiplist_idx bin_idx = ucast (bin_idx div (8 * 4))"

definition slab_bin_skiplist_bit :: "u32 \<Rightarrow> u8" where
  "slab_bin_skiplist_bit bin_idx = ucast (bin_idx AND (8 * 4 - 1))"

definition free_slab_size :: "u64 \<Rightarrow> memory \<Rightarrow> u64 option" where
  "free_slab_size s m = load64 m (s + slab_num_slabs)"

definition req_slabs_for_size :: "u64 \<Rightarrow> u64" where
  "req_slabs_for_size sz = ALIGN_UP (sz + LARGE_SLAB_HEADER_SIZE) SLAB_SIZE div SLAB_SIZE"

definition large_slab_get_size :: "u64 \<Rightarrow> memory \<Rightarrow> u64 option" where
  "large_slab_get_size s m = do {
     offset \<leftarrow> load64 m (s + slab_offset);
     Some (offset AND 0x00ffffffffffffff)
   }"

definition large_slab_set_size :: "u64 \<Rightarrow> u64 \<Rightarrow> memory \<Rightarrow> memory option" where
  "large_slab_set_size s sz m = do {
     block_alloc \<leftarrow> load8 m (s + slab_block_alloc);
     store64 m (s + slab_offset) (shl64 (ucast block_alloc) 0x38 OR sz)
   }"

definition slab_get_size :: "u64 \<Rightarrow> memory \<Rightarrow> u64 option" where
  "slab_get_size s m = do {
     free \<leftarrow> slab_is_free s m;
     if free then load64 m (s + slab_num_slabs)
     else do {
       packed \<leftarrow> slab_is_packed s m;
       if packed then Some 1 else large_slab_get_size s m
     }
   }"

definition slab_plus :: "u64 \<Rightarrow> u64 \<Rightarrow> u64" where \<comment> \<open>pointer arithmetic on \<^verbatim>\<open>slab_t *\<close>\<close>
  "slab_plus s n = s + n * SLAB_SIZE"

definition next_adj_slab :: "u64 \<Rightarrow> memory \<Rightarrow> u64 option" where
  "next_adj_slab s m = do {
     n \<leftarrow> slab_get_size s m;
     Some (slab_plus s n)
   }"

definition prev_adj_slab :: "u64 \<Rightarrow> memory \<Rightarrow> u64 option" where
  "prev_adj_slab s m = do {
     footer \<leftarrow> load64 m (s - 8);
     Some (s - footer * SLAB_SIZE)
   }"

text \<open>\<open>s->flags |= bits\<close> and \<open>s->flags &= ~bits\<close>.\<close>

definition slab_set_flags :: "u64 \<Rightarrow> u8 \<Rightarrow> memory \<Rightarrow> memory option" where
  "slab_set_flags s bits m = do {
     flags \<leftarrow> load8 m (s + slab_flags);
     store8 m (s + slab_flags) (flags OR bits)
   }"

definition slab_clear_flags :: "u64 \<Rightarrow> u8 \<Rightarrow> memory \<Rightarrow> memory option" where
  "slab_clear_flags s bits m = do {
     flags \<leftarrow> load8 m (s + slab_flags);
     store8 m (s + slab_flags) (flags AND NOT bits)
   }"

subsection \<open>Linking and unlinking\<close>

definition slab_bin :: "u64 \<Rightarrow> u8 \<Rightarrow> u64" where \<comment> \<open>\<open>&h->slab_bins[bin_idx]\<close>\<close>
  "slab_bin h bin_idx = h + heap_slab_bins + ucast bin_idx * sizeof_slab_bin"

definition slab_bin_start :: "u64 \<Rightarrow> u64" where
  "slab_bin_start bin = bin - slab_next"

definition raw_slab_link :: "u64 \<Rightarrow> u64 \<Rightarrow> memory \<Rightarrow> memory option" where
  "raw_slab_link bin s m = do {
     prev \<leftarrow> load64 m (bin + bin_tail);
     let next = slab_bin_start bin;
     m \<leftarrow> store64 m (s + slab_next) next;
     m \<leftarrow> store64 m (s + slab_prev) prev;
     m \<leftarrow> store64 m (bin + bin_tail) s;
     store64 m (prev + slab_next) s
   }"

text \<open>
  The backwards walk of \<^verbatim>\<open>__slab_link_large\<close>; a list that never reaches the bin would
  keep it running for ever, which is \<open>None\<close>.
\<close>

partial_function (option) link_large_walk ::
  "u64 \<Rightarrow> u64 \<Rightarrow> u64 \<Rightarrow> u64 \<Rightarrow> memory \<Rightarrow> (u64 \<times> u64) option" where
  "link_large_walk bin_start n_slabs prev next m =
     (if prev = bin_start then Some (prev, next)
      else do {
        k \<leftarrow> load64 m (prev + slab_num_slabs);
        if n_slabs < k then do {
          prev' \<leftarrow> load64 m (prev + slab_prev);
          link_large_walk bin_start n_slabs prev' prev m
        } else Some (prev, next)
      })"

declare link_large_walk.simps [code]

definition raw_slab_link_large :: "u64 \<Rightarrow> u64 \<Rightarrow> u64 \<Rightarrow> memory \<Rightarrow> memory option" where
  "raw_slab_link_large bin s n_slabs m = do {
     prev \<leftarrow> load64 m (bin + bin_tail);
     let bin_start = slab_bin_start bin;
     (prev, next) \<leftarrow> link_large_walk bin_start n_slabs prev bin_start m;
     m \<leftarrow> store64 m (s + slab_next) next;
     m \<leftarrow> store64 m (s + slab_prev) prev;
     m \<leftarrow> store64 m (next + slab_prev) s;
     store64 m (prev + slab_next) s
   }"

definition slab_skiplist :: "u64 \<Rightarrow> u8 \<Rightarrow> u64" where \<comment> \<open>\<open>&h->slab_skiplist[skip_idx]\<close>\<close>
  "slab_skiplist h skip_idx = h + (heap_slab_skiplist + ucast skip_idx * 4)"

definition slab_skiplist_mark :: "u64 \<Rightarrow> u8 \<Rightarrow> memory \<Rightarrow> memory option" where
  "slab_skiplist_mark h bin_idx m = do {
     let skip_idx = slab_bin_skiplist_idx (ucast bin_idx);
     let bit_idx = slab_bin_skiplist_bit (ucast bin_idx);
     w \<leftarrow> load32 m (slab_skiplist h skip_idx);
     store32 m (slab_skiplist h skip_idx) (w OR push_bit (unat bit_idx) 1)
   }"

definition slab_link_small :: "u64 \<Rightarrow> u64 \<Rightarrow> u64 \<Rightarrow> memory \<Rightarrow> memory option" where
  "slab_link_small h s n_slabs m = do {
     let bin_idx = slab_bin_idx_small n_slabs;
     m \<leftarrow> raw_slab_link (slab_bin h bin_idx) s m;
     slab_skiplist_mark h bin_idx m
   }"

definition slab_link :: "u64 \<Rightarrow> u64 \<Rightarrow> u64 \<Rightarrow> memory \<Rightarrow> memory option" where
  "slab_link h s sz m = do {
     let bin_idx = slab_bin_idx sz;
     if sz \<le> MAX_SEG_SLAB_SZ then do {
       m \<leftarrow> raw_slab_link (slab_bin h bin_idx) s m;
       slab_skiplist_mark h bin_idx m
     } else raw_slab_link_large (slab_bin h (of_nat (NUM_SLAB_BINS - 1))) s sz m
   }"

definition slab_unlink :: "u64 \<Rightarrow> memory \<Rightarrow> memory option" where
  "slab_unlink s m = do {
     next \<leftarrow> load64 m (s + slab_next);
     prev \<leftarrow> load64 m (s + slab_prev);
     m \<leftarrow> store64 m (prev + slab_next) next;
     store64 m (next + slab_prev) prev
   }"

subsection \<open>The shape of the arena\<close>

text \<open>
  The arena is the header page at \<open>h\<close> (page 0, the \<^verbatim>\<open>heap_t\<close>) and \<open>N - 1\<close> slabs.
\<close>

definition shape :: "u64 \<Rightarrow> nat \<Rightarrow> memory \<Rightarrow> bool" where
  "shape h N m \<longleftrightarrow> page_aligned h \<and> 0 < N \<and> unat h + 4096 * N < 2 ^ 64
     \<and> arena_start m = h \<and> arena_end m = pg h N"

lemma shape_cells [simp]: "shape h N (m\<lparr>cells := c\<rparr>) = shape h N m"
  by (simp add: shape_def)

lemma shape_aligned: "shape h N m \<Longrightarrow> page_aligned h"
  by (simp add: shape_def)

lemma shape_bound: "shape h N m \<Longrightarrow> k < N \<Longrightarrow> k < 2 ^ 52"
  by (simp add: shape_def)

lemma shape_valid:
  "shape h N m \<Longrightarrow> k < N \<Longrightarrow> c < 4096 \<Longrightarrow> c AND 7 = 0 \<Longrightarrow> valid_cell m (pg h k + c)"
  unfolding shape_def by (rule valid_cell_pg) auto

lemma shape_valid0: "shape h N m \<Longrightarrow> k < N \<Longrightarrow> valid_cell m (pg h k)"
  using shape_valid [of h N m k 0] by simp

lemma shape_valid_header: "shape h N m \<Longrightarrow> c < 4096 \<Longrightarrow> c AND 7 = 0 \<Longrightarrow> valid_cell m (h + c)"
  using shape_valid [of h N m 0 c] by (simp add: shape_def)

subsection \<open>The representation invariant of the bins\<close>

abbreviation slab_nx :: "u64 \<Rightarrow> u64" where "slab_nx s \<equiv> s + slab_next"
abbreviation slab_pv :: "u64 \<Rightarrow> u64" where "slab_pv s \<equiv> s + slab_prev"

interpretation slab_links: link_fields slab_nx slab_pv
  by unfold_locales simp_all

definition bin_root :: "u64 \<Rightarrow> nat \<Rightarrow> u64" where
  "bin_root h i = slab_bin_start (slab_bin h (of_nat i))"

definition bin_no :: "nat \<Rightarrow> nat" where
  "bin_no n = min (n - 1) 127"

definition skip_bit :: "u64 \<Rightarrow> (u64 \<Rightarrow> u64) \<Rightarrow> nat \<Rightarrow> bool" where
  "skip_bit h c i \<longleftrightarrow> bit (c (h + (4024 + of_nat (i div 64) * 8))) (i mod 64)"

text \<open>
  \<open>F\<close> maps the page of each free region to its size; \<open>bins i\<close> lists the pages in bin \<open>i\<close>
  from the head on. A set skiplist bit may be stale (the bin may be empty), a clear bit
  may not; the last bin is never marked.
\<close>

definition bins_ok :: "u64 \<Rightarrow> (u64 \<Rightarrow> u64) \<Rightarrow> (nat \<Rightarrow> nat list) \<Rightarrow> (nat \<rightharpoonup> nat) \<Rightarrow> bool" where
  "bins_ok h c bins F \<longleftrightarrow>
     (\<forall>i<128. ring slab_nx slab_pv c (bin_root h i) (map (pg h) (bins i))
            \<and> set (bins i) = {k. \<exists>n. F k = Some n \<and> bin_no n = i})
   \<and> sorted (map (\<lambda>k. the (F k)) (bins 127))
   \<and> (\<forall>i<127. bins i \<noteq> [] \<longrightarrow> skip_bit h c i) \<and> \<not> skip_bit h c 127"

text \<open>The nodes of all rings, and the cells that hold their links.\<close>

definition nodes :: "u64 \<Rightarrow> nat set \<Rightarrow> u64 set" where
  "nodes h D = bin_root h ` {..<128} \<union> pg h ` D"

definition link_cells :: "u64 \<Rightarrow> nat set \<Rightarrow> u64 set" where
  "link_cells h D = slab_nx ` nodes h D \<union> slab_pv ` nodes h D"

definition skip_cells :: "u64 \<Rightarrow> u64 set" where
  "skip_cells h = {h + 4024, h + 4032}"

lemma small_bin_offsets:
  assumes "i < 128"
  shows "of_nat i * 16 < (2048 :: u64)" and "of_nat i * 16 + 8 < (2048 :: u64)"
    and "(of_nat i * 16 :: u64) AND 7 = 0" and "(of_nat i * 16 + 8 :: u64) AND 7 = 0"
    and "unat (of_nat i * 16 :: u64) = i * 16" and "unat (of_nat i * 16 + 8 :: u64) = i * 16 + 8"
proof -
  show u: "unat (of_nat i * 16 :: u64) = i * 16" and v: "unat (of_nat i * 16 + 8 :: u64) = i * 16 + 8"
    using assms by (simp_all add: unat_word_ariths unat_of_nat)
  show "of_nat i * 16 < (2048 :: u64)" "of_nat i * 16 + 8 < (2048 :: u64)"
    using assms by (simp_all add: word_less_nat_alt u v)
  have a: "w AND 7 = 0 \<longleftrightarrow> unat w mod 8 = 0" for w :: u64
  proof -
    have "w AND 7 = take_bit 3 w" by (simp add: take_bit_eq_mask mask_eq_exp_minus_1)
    then have "unat (w AND 7) = unat w mod 8"
      by (simp only: unsigned_take_bit_eq) (simp add: take_bit_eq_mod)
    then show ?thesis by (metis unat_0 unat_eq_zero)
  qed
  show "(of_nat i * 16 :: u64) AND 7 = 0" "(of_nat i * 16 + 8 :: u64) AND 7 = 0"
    unfolding a u v by presburger+
qed

lemma bin_offset_eq:
  assumes "i < 128" "j < 128"
  shows "(of_nat i * 16 :: u64) = of_nat j * 16 \<longleftrightarrow> i = j"
    and "(of_nat i * 16 :: u64) \<noteq> of_nat j * 16 + 8"
proof -
  note u = small_bin_offsets(5,6) [OF assms(1)] small_bin_offsets(5,6) [OF assms(2)]
  show "(of_nat i * 16 :: u64) = of_nat j * 16 \<longleftrightarrow> i = j"
    using u by (metis mult_right_cancel zero_neq_numeral)
  have "i * 16 \<noteq> j * 16 + 8" by presburger
  then show "(of_nat i * 16 :: u64) \<noteq> of_nat j * 16 + 8" using u by metis
qed

lemma bin_root_fields:
  assumes "i < 128"
  shows "slab_nx (bin_root h i) = h + of_nat i * 16" "bin_root h i + 8 = h + of_nat i * 16"
    and "slab_pv (bin_root h i) = h + (of_nat i * 16 + 8)" "bin_root h i + 16 = h + (of_nat i * 16 + 8)"
  using assms
  by (simp_all add: bin_root_def slab_bin_start_def slab_bin_def layout_simps unsigned_of_nat
      take_bit_nat_eq_self)

lemma bin_root_inj: "i < 128 \<Longrightarrow> j < 128 \<Longrightarrow> bin_root h i = bin_root h j \<longleftrightarrow> i = j"
  using bin_root_fields(1) [of i h] bin_root_fields(1) [of j h] bin_offset_eq(1) [of i j] by auto

lemma bin_root_not_page:
  assumes "page_aligned h" "1 \<le> k" "k < 2 ^ 52" "i < 128"
  shows "bin_root h i \<noteq> pg h k"
proof
  assume "bin_root h i = pg h k"
  then have "pg h k + 8 = h + of_nat i * 16" using bin_root_fields(1) [OF assms(4), of h]
    by (simp add: layout_simps)
  moreover have "of_nat i * 16 < (4096 :: u64)" by (rule less_trans [OF small_bin_offsets(1) [OF assms(4)]]) simp
  ultimately show False using assms by (simp add: page_simps)
qed

lemma nodes_sep:
  assumes "page_aligned h" "D \<subseteq> {1..<2 ^ 52}"
  shows "sep_nodes slab_nx slab_pv (nodes h D)"
proof -
  have b: "of_nat i * 16 < (4096 :: u64)" "of_nat i * 16 + 8 < (4096 :: u64)" if "i < 128" for i
    by (rule less_trans [OF small_bin_offsets(1) [OF that]], simp)
      (rule less_trans [OF small_bin_offsets(2) [OF that]], simp)
  have rr: "slab_nx (bin_root h i) \<noteq> slab_pv (bin_root h j)" if "i < 128" "j < 128" for i j
    using bin_offset_eq(2) [OF that] by (simp add: bin_root_fields that)
  have rp: "slab_nx (bin_root h i) \<noteq> slab_pv (pg h k)" "slab_nx (pg h k) \<noteq> slab_pv (bin_root h i)"
    if "i < 128" "k \<in> D" for i k
  proof -
    have "k < 2 ^ 52" "k \<noteq> 0" using that assms(2) by auto
    then show "slab_nx (bin_root h i) \<noteq> slab_pv (pg h k)" "slab_nx (pg h k) \<noteq> slab_pv (bin_root h i)"
      using that assms b [of i] by (simp_all add: bin_root_fields page_simps layout_simps)
  qed
  have pp: "slab_nx (pg h j) \<noteq> slab_pv (pg h k)" if "j \<in> D" "k \<in> D" for j k
  proof -
    have "j < 2 ^ 52" "k < 2 ^ 52" using that assms by auto
    then show ?thesis using assms by (simp add: page_simps layout_simps)
  qed
  show ?thesis unfolding sep_nodes_def nodes_def using rr rp pp by auto
qed

lemma valid_link_cells:
  assumes "shape h N m" "D \<subseteq> {1..<N}" "u \<in> nodes h D"
  shows "valid_cell m (slab_nx u)" and "valid_cell m (slab_pv u)"
proof -
  have "valid_cell m (h + of_nat i * 16)" "valid_cell m (h + (of_nat i * 16 + 8))" if "i < 128" for i
    using small_bin_offsets(3,4) [OF that]
    by (auto intro!: shape_valid_header [OF assms(1)]
        intro: less_trans [OF small_bin_offsets(1) [OF that]] less_trans [OF small_bin_offsets(2) [OF that]])
  moreover have "valid_cell m (pg h k + 8)" "valid_cell m (pg h k + 16)" if "k \<in> D" for k
    using assms(2) that by (auto intro!: shape_valid [OF assms(1)])
  ultimately show "valid_cell m (slab_nx u)" "valid_cell m (slab_pv u)"
    using assms(3) by (auto simp: nodes_def bin_root_fields layout_simps)
qed

lemma skip_cells_not_link:
  assumes "page_aligned h" "D \<subseteq> {1..<2 ^ 52}"
  shows "skip_cells h \<inter> link_cells h D = {}"
proof -
  have "h + of_nat i * 16 \<notin> skip_cells h" "h + (of_nat i * 16 + 8) \<notin> skip_cells h"
    if "i < 128" for i
    using small_bin_offsets(1,2) [OF that] by (auto simp: skip_cells_def)
  moreover have "pg h k + 8 \<notin> skip_cells h" "pg h k + 16 \<notin> skip_cells h" if "k \<in> D" for k
  proof -
    have "k < 2 ^ 52" "k \<noteq> 0" using that assms(2) by auto
    then show "pg h k + 8 \<notin> skip_cells h" "pg h k + 16 \<notin> skip_cells h"
      using assms(1) by (simp_all add: skip_cells_def page_simps)
  qed
  ultimately show ?thesis
    by (auto simp: link_cells_def nodes_def bin_root_fields) (auto simp: layout_simps)
qed

subsection \<open>Framing the bins\<close>

abbreviation ring_nodes :: "u64 \<Rightarrow> (nat \<Rightarrow> nat list) \<Rightarrow> nat \<Rightarrow> u64 set" where
  "ring_nodes h bins i \<equiv> set (bin_root h i # map (pg h) (bins i))"

lemma bin_no_less: "bin_no n < 128"
  by (simp add: bin_no_def)

lemma bins_okD:
  assumes "bins_ok h c bins F" "i < 128"
  shows "ring slab_nx slab_pv c (bin_root h i) (map (pg h) (bins i))"
    and "set (bins i) = {k. \<exists>n. F k = Some n \<and> bin_no n = i}"
  using assms by (simp_all add: bins_ok_def)

lemma bins_ok_mem: "bins_ok h c bins F \<Longrightarrow> F k = Some n \<Longrightarrow> k \<in> set (bins (bin_no n))"
  using bins_okD(2) [of h c bins F "bin_no n"] bin_no_less [of n] by simp

lemma ring_nodes_subset:
  assumes "bins_ok h c bins F" "i < 128"
  shows "ring_nodes h bins i \<subseteq> nodes h (dom F)"
  using bins_okD(2) [OF assms] assms(2) by (auto simp: nodes_def)

lemma ring_nodes_disjoint:
  assumes ok: "bins_ok h c bins F" and h: "page_aligned h" and D: "dom F \<subseteq> {1..<2 ^ 52}"
    and ij: "i < 128" "j < 128" "i \<noteq> j"
  shows "ring_nodes h bins i \<inter> ring_nodes h bins j = {}"
proof -
  have k: "1 \<le> k" "k < 2 ^ 52" if "k \<in> set (bins i) \<union> set (bins j)" for k
    using that bins_okD(2) [OF ok ij(1)] bins_okD(2) [OF ok ij(2)] D by auto
  have "pg h ` set (bins i) \<inter> pg h ` set (bins j) = {}"
  proof -
    have "k \<noteq> l" if "k \<in> set (bins i)" "l \<in> set (bins j)" for k l
      using that ij(3) bins_okD(2) [OF ok ij(1)] bins_okD(2) [OF ok ij(2)] by auto
    then show ?thesis using k by (auto simp: pg_inj)
  qed
  moreover have "bin_root h i \<noteq> bin_root h j" using ij by (simp add: bin_root_inj)
  moreover have "bin_root h a \<noteq> pg h k" if "a < 128" "k \<in> set (bins i) \<union> set (bins j)" for a k
    using bin_root_not_page [OF h] k that by auto
  ultimately show ?thesis using ij by (auto dest: sym)
qed

text \<open>Replacing one ring, while the others and the skiplist keep their links.\<close>

lemma bins_ok_update:
  assumes ok: "bins_ok h c bins F" and b: "b < 128"
    and ring: "ring slab_nx slab_pv c' (bin_root h b) (map (pg h) ks)"
    and set: "set ks = {k. \<exists>n. F' k = Some n \<and> bin_no n = b}"
    and others: "\<And>k n. bin_no n \<noteq> b \<Longrightarrow> F' k = Some n \<longleftrightarrow> F k = Some n"
    and srt: "b = 127 \<Longrightarrow> sorted (map (\<lambda>k. the (F' k)) ks)"
    and h: "page_aligned h" and D: "dom F \<subseteq> {1..<2 ^ 52}"
    and pn: "p \<in> ring_nodes h bins b" "q \<in> ring_nodes h bins b"
    and frame: "\<And>u. u \<in> nodes h (dom F) \<Longrightarrow> u \<noteq> p \<Longrightarrow> c' (slab_nx u) = c (slab_nx u)"
      "\<And>u. u \<in> nodes h (dom F) \<Longrightarrow> u \<noteq> q \<Longrightarrow> c' (slab_pv u) = c (slab_pv u)"
    and skip: "\<And>i. i < 127 \<Longrightarrow> skip_bit h c i \<Longrightarrow> skip_bit h c' i" "\<not> skip_bit h c' 127"
      "b < 127 \<Longrightarrow> ks \<noteq> [] \<Longrightarrow> skip_bit h c' b"
  shows "bins_ok h c' (bins(b := ks)) F'"
proof -
  have "ring slab_nx slab_pv c' (bin_root h i) (map (pg h) (bins i))
      \<and> set (bins i) = {k. \<exists>n. F' k = Some n \<and> bin_no n = i}" if "i < 128" "i \<noteq> b" for i
  proof
    show "ring slab_nx slab_pv c' (bin_root h i) (map (pg h) (bins i))"
    proof (rule slab_links.ring_frame [OF bins_okD(1) [OF ok that(1)]])
      fix u assume u: "u \<in> ring_nodes h bins i"
      then have "u \<noteq> p" "u \<noteq> q"
        using ring_nodes_disjoint [OF ok h D that(1) b that(2)] pn by blast+
      moreover have "u \<in> nodes h (dom F)" using ring_nodes_subset [OF ok that(1)] u by blast
      ultimately show "c' (slab_nx u) = c (slab_nx u) \<and> c' (slab_pv u) = c (slab_pv u)"
        by (simp add: frame)
    qed
    show "set (bins i) = {k. \<exists>n. F' k = Some n \<and> bin_no n = i}"
      using bins_okD(2) [OF ok that(1)] others that(2) by auto
  qed
  moreover have "sorted (map (\<lambda>k. the (F' k)) (bins 127))" if "b \<noteq> 127"
  proof -
    have "F' k = F k" if "k \<in> set (bins 127)" for k
    proof -
      obtain n where "F k = Some n" "bin_no n = 127"
        using bins_okD(2) [OF ok, of 127] \<open>k \<in> set (bins 127)\<close> by auto
      then show ?thesis using others [of n k] \<open>b \<noteq> 127\<close> by simp
    qed
    then have "map (\<lambda>k. the (F' k)) (bins 127) = map (\<lambda>k. the (F k)) (bins 127)" by simp
    moreover have "sorted (map (\<lambda>k. the (F k)) (bins 127))" using ok by (simp add: bins_ok_def)
    ultimately show ?thesis by (simp only:)
  qed
  ultimately show ?thesis
    using ok ring set srt skip b unfolding bins_ok_def by (auto simp: fun_upd_def)
qed

text \<open>Cells outside the links and the skiplist do not matter.\<close>

lemma bins_ok_frame:
  assumes ok: "bins_ok h c bins F"
    and frame: "\<And>a. a \<in> link_cells h (dom F) \<union> skip_cells h \<Longrightarrow> c' a = c a"
  shows "bins_ok h c' bins F"
proof -
  have "ring slab_nx slab_pv c' (bin_root h i) (map (pg h) (bins i))" if "i < 128" for i
  proof (rule slab_links.ring_frame [OF bins_okD(1) [OF ok that]])
    fix u assume "u \<in> ring_nodes h bins i"
    then have "u \<in> nodes h (dom F)" using ring_nodes_subset [OF ok that] by blast
    then show "c' (slab_nx u) = c (slab_nx u) \<and> c' (slab_pv u) = c (slab_pv u)"
      using frame by (auto simp: link_cells_def)
  qed
  moreover have "skip_bit h c' i = skip_bit h c i" if "i < 128" for i
  proof -
    have "i div 64 = 0 \<or> i div 64 = 1" using that by auto
    then have "h + (4024 + of_nat (i div 64) * 8) \<in> skip_cells h" by (auto simp: skip_cells_def)
    then show ?thesis using frame by (simp add: skip_bit_def)
  qed
  ultimately show ?thesis using ok by (simp add: bins_ok_def)
qed

subsection \<open>Unlinking and linking a free region\<close>

lemma skip_bit_eq:
  assumes "i < 128" and "\<And>a. a \<in> skip_cells h \<Longrightarrow> c' a = c a"
  shows "skip_bit h c' i = skip_bit h c i"
proof -
  have "i div 64 = 0 \<or> i div 64 = 1" using assms(1) by auto
  then have "h + (4024 + of_nat (i div 64) * 8) \<in> skip_cells h" by (auto simp: skip_cells_def)
  then show ?thesis using assms(2) by (simp add: skip_bit_def)
qed

lemma link_cellsI: "u \<in> nodes h D \<Longrightarrow> slab_nx u \<in> link_cells h D"
  "u \<in> nodes h D \<Longrightarrow> slab_pv u \<in> link_cells h D"
  by (auto simp: link_cells_def)

lemma sorted_remove: "sorted (map f (xs @ x # ys)) \<Longrightarrow> sorted (map f (xs @ ys))"
  by (simp add: sorted_append)

text \<open>The links of a free region: its neighbours in the ring of its bin.\<close>

lemma ring_neighbours:
  assumes ok: "bins_ok h c bins F" and k: "F k = Some n"
  obtains xs ys p q where "bins (bin_no n) = xs @ k # ys"
    and "p = last (bin_root h (bin_no n) # map (pg h) xs)" and "q = hd (map (pg h) ys @ [bin_root h (bin_no n)])"
    and "p \<in> ring_nodes h bins (bin_no n)" and "q \<in> ring_nodes h bins (bin_no n)"
    and "c (slab_nx (pg h k)) = q" and "c (slab_pv (pg h k)) = p"
proof -
  let ?r = "bin_root h (bin_no n)"
  obtain xs ys where b: "bins (bin_no n) = xs @ k # ys"
    using bins_ok_mem [OF ok k] by (meson split_list)
  have rg: "ring slab_nx slab_pv c ?r (map (pg h) xs @ pg h k # map (pg h) ys)"
    using bins_okD(1) [OF ok bin_no_less, of n] by (simp add: b)
  have "last (?r # map (pg h) xs) \<in> set (?r # map (pg h) xs)" by (rule last_in_set) simp
  then have p: "last (?r # map (pg h) xs) \<in> ring_nodes h bins (bin_no n)" by (auto simp: b)
  have q: "hd (map (pg h) ys @ [?r]) \<in> ring_nodes h bins (bin_no n)" by (cases ys) (auto simp: b)
  have "c (slab_nx (pg h k)) = hd (map (pg h) ys @ [?r])"
    using rg seg_head_next [of slab_nx slab_pv c "pg h k" "map (pg h) ys" ?r]
    by (simp add: ring_def seg_append)
  moreover have "c (slab_pv (pg h k)) = last (?r # map (pg h) xs)"
    using rg seg_last_prev [of slab_nx slab_pv c ?r "map (pg h) xs" "pg h k"]
    by (simp add: ring_def seg_append)
  ultimately show thesis using that b p q by blast
qed

lemma neighbours_in_ring:
  assumes "bins_ok h c bins F" and "F k = Some n"
  shows "c (slab_pv (pg h k)) \<in> ring_nodes h bins (bin_no n)"
    and "c (slab_nx (pg h k)) \<in> ring_nodes h bins (bin_no n)"
proof -
  obtain xs ys p q where "p \<in> ring_nodes h bins (bin_no n)" "q \<in> ring_nodes h bins (bin_no n)"
    "c (slab_nx (pg h k)) = q" "c (slab_pv (pg h k)) = p"
    using assms by (rule ring_neighbours)
  then show "c (slab_pv (pg h k)) \<in> ring_nodes h bins (bin_no n)"
    and "c (slab_nx (pg h k)) \<in> ring_nodes h bins (bin_no n)" by blast+
qed

lemma relink_cells:
  assumes h: "page_aligned h" and D: "D \<subseteq> {1..<2 ^ 52}"
    and pq: "p \<in> nodes h D" "q \<in> nodes h D" and c': "c' = c(slab_nx p := v, slab_pv q := w)"
  shows "u \<in> nodes h D \<Longrightarrow> u \<noteq> p \<Longrightarrow> c' (slab_nx u) = c (slab_nx u)"
    and "u \<in> nodes h D \<Longrightarrow> u \<noteq> q \<Longrightarrow> c' (slab_pv u) = c (slab_pv u)"
    and "a \<notin> link_cells h D \<Longrightarrow> c' a = c a"
    and "a \<in> skip_cells h \<Longrightarrow> c' a = c a"
proof -
  note sep = sep_nodesD [OF nodes_sep [OF h D]]
  show "c' (slab_nx u) = c (slab_nx u)" if "u \<in> nodes h D" "u \<noteq> p"
    using that sep [OF that(1) pq(2)] by (simp add: c')
  show "c' (slab_pv u) = c (slab_pv u)" if "u \<in> nodes h D" "u \<noteq> q"
    using that sep [OF pq(1) that(1)] by (simp add: c')
  show out: "c' a = c a" if "a \<notin> link_cells h D" for a
    using that link_cellsI(1) [OF pq(1)] link_cellsI(2) [OF pq(2)] by (auto simp: c')
  show "c' a = c a" if "a \<in> skip_cells h"
    by (rule out) (use that skip_cells_not_link [OF h D] in auto)
qed

lemma bins_ok_unlink:
  assumes h: "page_aligned h" and ok: "bins_ok h c bins F" and D: "dom F \<subseteq> {1..<2 ^ 52}"
    and k: "F k = Some n" and c': "c' = c(slab_nx (c (slab_pv (pg h k))) := c (slab_nx (pg h k)),
        slab_pv (c (slab_nx (pg h k))) := c (slab_pv (pg h k)))"
  obtains bins' where "bins_ok h c' bins' (F(k := None))"
proof -
  let ?b = "bin_no n"
  obtain xs ys p q where n: "bins ?b = xs @ k # ys" "p = last (bin_root h ?b # map (pg h) xs)"
      "q = hd (map (pg h) ys @ [bin_root h ?b])" "p \<in> ring_nodes h bins ?b" "q \<in> ring_nodes h bins ?b"
      "c (slab_nx (pg h k)) = q" "c (slab_pv (pg h k)) = p"
    using ok k by (rule ring_neighbours)
  have c'': "c' = c(slab_nx p := q, slab_pv q := p)" using n c' by simp
  have sub: "ring_nodes h bins ?b \<subseteq> nodes h (dom F)" by (rule ring_nodes_subset [OF ok bin_no_less])
  have rg: "ring slab_nx slab_pv c (bin_root h ?b) (map (pg h) xs @ pg h k # map (pg h) ys)"
    using bins_okD(1) [OF ok bin_no_less, of n] by (simp add: n)
  then have kd: "k \<notin> set (xs @ ys)" by (auto simp: ring_def)
  note fr = relink_cells [OF h D subsetD [OF sub n(4)] subsetD [OF sub n(5)] c'']
  have "bins_ok h c' (bins(?b := xs @ ys)) (F(k := None))"
  proof (rule bins_ok_update [OF ok bin_no_less _ _ _ _ h D n(4,5) fr(1,2)])
    show "ring slab_nx slab_pv c' (bin_root h ?b) (map (pg h) (xs @ ys))"
      unfolding map_append
      by (rule slab_links.ring_remove [OF rg n(2,3) c'']) (rule sep_nodes_mono [OF nodes_sep [OF h D]],
        rule subset_trans [OF _ sub], auto simp: n)
    show "set (xs @ ys) = {ka. \<exists>na. (F(k := None)) ka = Some na \<and> bin_no na = ?b}"
      using bins_okD(2) [OF ok bin_no_less, of n] kd unfolding n by auto
    show "(F(k := None)) ka = Some na \<longleftrightarrow> F ka = Some na" if "bin_no na \<noteq> ?b" for ka na
      using that k by auto
    have eq: "map (\<lambda>ka. the ((F(k := None)) ka)) (xs @ ys) = map (\<lambda>ka. the (F ka)) (xs @ ys)"
      using kd by (auto simp: map_eq_conv)
    show "sorted (map (\<lambda>ka. the ((F(k := None)) ka)) (xs @ ys))" if "?b = 127"
      unfolding eq by (rule sorted_remove [of _ _ k]) (use ok that n(1) in \<open>simp add: bins_ok_def\<close>)
    show "skip_bit h c' i" if "i < 127" "skip_bit h c i" for i
      using that skip_bit_eq [of i h c' c] fr(4) by simp
    show "\<not> skip_bit h c' 127" "?b < 127 \<Longrightarrow> skip_bit h c' ?b"
      using ok skip_bit_eq [of _ h c' c] fr(4) n(1) by (auto simp: bins_ok_def)
  qed
  then show thesis by (rule that)
qed

lemma slab_unlink_ok:
  assumes sh: "shape h N m" and ok: "bins_ok h (cells m) bins F" and D: "dom F \<subseteq> {1..<N}"
    and k: "F k = Some n"
  obtains c' bins' where "slab_unlink (pg h k) m = Some (m\<lparr>cells := c'\<rparr>)"
    and "bins_ok h c' bins' (F(k := None))"
    and "\<And>a. a \<notin> link_cells h (dom F) \<Longrightarrow> c' a = cells m a"
proof -
  let ?c = "cells m"
  let ?p = "?c (slab_pv (pg h k))" and ?q = "?c (slab_nx (pg h k))"
  have h: "page_aligned h" by (rule shape_aligned [OF sh])
  have D': "dom F \<subseteq> {1..<2 ^ 52}" using D shape_bound [OF sh] by fastforce
  have pq: "?p \<in> nodes h (dom F)" "?q \<in> nodes h (dom F)"
    using neighbours_in_ring [OF ok k] ring_nodes_subset [OF ok bin_no_less] by blast+
  have kN: "pg h k \<in> nodes h (dom F)" using k by (auto simp: nodes_def)
  let ?c' = "?c(slab_nx ?p := ?q, slab_pv ?q := ?p)"
  obtain bins' where "bins_ok h ?c' bins' (F(k := None))"
    using bins_ok_unlink [OF h ok D' k refl] .
  moreover have "slab_unlink (pg h k) m = Some (m\<lparr>cells := ?c'\<rparr>)"
    using valid_link_cells [OF sh D kN] valid_link_cells [OF sh D pq(1)] valid_link_cells [OF sh D pq(2)]
    by (simp add: slab_unlink_def exec_simps)
  ultimately show thesis using relink_cells(3) [OF h D' pq refl] that by metis
qed

text \<open>The four 32-bit words of the skiplist are the lanes of two cells.\<close>

lemma skiplist_word:
  assumes h: "page_aligned h" and i: "i < 128"
  shows "slab_bin_skiplist_idx (of_nat i) = of_nat (i div 32)"
    and "slab_bin_skiplist_bit (of_nat i) = of_nat (i mod 32)"
    and "slab_skiplist h (of_nat (i div 32)) = h + (4024 + of_nat (i div 32) * 4)"
    and "(4024 + of_nat (i div 32) * 4 :: u64) AND - 8 = 4024 + of_nat (i div 64) * 8"
    and "unat ((4024 + of_nat (i div 32) * 4 :: u64) AND 7) * 8 = 32 * (i div 32 mod 2)"
    and "4024 + of_nat (i div 32) * 4 < (4096 :: u64)"
proof -
  have u: "unat (of_nat i :: u32) = i" using i by (simp add: unat_of_nat)
  show "slab_bin_skiplist_idx (of_nat i) = of_nat (i div 32)"
    unfolding slab_bin_skiplist_idx_def
    by (rule unsigned_word_eqI [where ?'a = nat]) (use i in \<open>simp add: unat_div u unsigned_ucast_eq take_bit_eq_mod unat_of_nat\<close>)
  have "of_nat i AND (31 :: u32) = take_bit 5 (of_nat i)" by (simp add: take_bit_eq_mask mask_eq_exp_minus_1)
  then have "unat (of_nat i AND (31 :: u32)) = i mod 32"
    by (simp only: unsigned_take_bit_eq u) (simp add: take_bit_eq_mod)
  moreover have "i mod 32 < 256" by (rule less_trans [of _ 32]) simp_all
  ultimately show "slab_bin_skiplist_bit (of_nat i) = of_nat (i mod 32)"
    unfolding slab_bin_skiplist_bit_def
    by (intro unsigned_word_eqI [where ?'a = nat])
      (simp add: unsigned_ucast_eq take_bit_eq_mod unat_of_nat)
  have "i div 32 \<in> {0, 1, 2, 3}" using i by auto
  then have c: "i div 32 = 0 \<or> i div 32 = 1 \<or> i div 32 = 2 \<or> i div 32 = 3" by simp
  have d: "i div 64 = i div 32 div 2" by (simp add: div_mult2_eq [symmetric])
  show "slab_skiplist h (of_nat (i div 32)) = h + (4024 + of_nat (i div 32) * 4)"
    using c by (auto simp: slab_skiplist_def layout_simps)
  show "(4024 + of_nat (i div 32) * 4 :: u64) AND - 8 = 4024 + of_nat (i div 64) * 8"
    unfolding d using c by (elim disjE) (simp_all only:, simp_all)
  show "unat ((4024 + of_nat (i div 32) * 4 :: u64) AND 7) * 8 = 32 * (i div 32 mod 2)"
    using c by (elim disjE) (simp_all only:, simp_all)
  show "4024 + of_nat (i div 32) * 4 < (4096 :: u64)"
    using c by (elim disjE) (simp_all only:, simp_all)
qed

lemma skip_bit_lane:
  assumes "i < 128"
  shows "skip_bit h c i \<longleftrightarrow>
    bit (get_lane (32 * (i div 32 mod 2)) (c (h + (4024 + of_nat (i div 64) * 8))) :: u32) (i mod 32)"
proof -
  have "i mod 64 = 32 * (i div 32 mod 2) + i mod 32" using mod_mult2_eq [of i 32 2] by simp
  then show ?thesis by (simp add: skip_bit_def bit_get_lane)
qed

lemma slab_skiplist_mark_ok:
  assumes sh: "shape h N m" and b: "b < 128"
  obtains c' where "slab_skiplist_mark h (of_nat b) m = Some (m\<lparr>cells := c'\<rparr>)"
    and "\<And>a. a \<notin> skip_cells h \<Longrightarrow> c' a = cells m a"
    and "\<And>i. i < 128 \<Longrightarrow> skip_bit h c' i \<longleftrightarrow> skip_bit h (cells m) i \<or> i = b"
proof -
  have h: "page_aligned h" by (rule shape_aligned [OF sh])
  note w = skiplist_word [OF h b]
  let ?a = "h + (4024 + of_nat (b div 64) * 8)" and ?k = "32 * (b div 32 mod 2)"
  have b64: "b div 64 = 0 \<or> b div 64 = 1" using b by auto
  have a: "?a \<in> skip_cells h" using b64 by (auto simp: skip_cells_def)
  have v: "valid_cell m ?a" using b64 by (auto intro!: shape_valid_header [OF sh])
  have m32: "unat (of_nat (b mod 32) :: u8) = b mod 32" by (simp add: unat_of_nat)
  define c' where "c' = (cells m)(?a := set_lane ?k
      ((get_lane ?k (cells m ?a) :: u32) OR push_bit (b mod 32) 1) (cells m ?a))"
  have "ucast (of_nat b :: u8) = (of_nat b :: u32)" using b
    by (intro unsigned_word_eqI [where ?'a = nat]) (simp add: unsigned_ucast_eq take_bit_eq_mod unat_of_nat)
  then have "slab_skiplist_mark h (of_nat b) m = Some (m\<lparr>cells := c'\<rparr>)"
    using v w(4,5,6) h
    by (simp add: slab_skiplist_mark_def w m32 load_lane_page store_lane_page c'_def ac_simps)
  moreover have "c' a = cells m a" if "a \<notin> skip_cells h" for a
    using that a by (auto simp: c'_def)
  moreover have "skip_bit h c' i \<longleftrightarrow> skip_bit h (cells m) i \<or> i = b" if i: "i < 128" for i
  proof (cases "i div 64 = b div 64")
    case True
    have "b mod 64 = ?k + b mod 32" using mod_mult2_eq [of b 32 2] by simp
    then have "i = b \<longleftrightarrow> i mod 64 = ?k + b mod 32" using True by (metis div_mult_mod_eq)
    moreover have "bit (c' ?a) (i mod 64) \<longleftrightarrow> bit (cells m ?a) (i mod 64) \<or> i mod 64 = ?k + b mod 32"
      unfolding c'_def fun_upd_same by (rule bit_set_lane_or_bit) simp_all
    ultimately show ?thesis unfolding skip_bit_def True by simp
  next
    case False
    have "i div 64 = 0 \<or> i div 64 = 1" using i by auto
    then have "h + (4024 + of_nat (i div 64) * 8) \<noteq> ?a" using False b64 by auto
    then show ?thesis using False by (auto simp: skip_bit_def c'_def)
  qed
  ultimately show thesis by (rule that)
qed

lemma fresh_page_not_node:
  assumes h: "page_aligned h" and D: "insert k D \<subseteq> {1..<2 ^ 52}" and k: "k \<notin> D"
  shows "pg h k \<notin> nodes h D"
proof
  assume "pg h k \<in> nodes h D"
  moreover have "bin_root h i \<noteq> pg h k" if "i < 128" for i
    using bin_root_not_page [OF h _ _ that, of k] D by auto
  ultimately obtain j where "j \<in> D" "pg h k = pg h j" by (auto simp: nodes_def dest: sym)
  then show False using k D by (auto simp: pg_inj subset_iff)
qed

lemma insert_cells:
  assumes h: "page_aligned h" and D: "insert k D \<subseteq> {1..<2 ^ 52}" and k: "k \<notin> D"
    and pq: "p \<in> nodes h D" "q \<in> nodes h D"
    and c': "c' = c(slab_nx (pg h k) := q, slab_pv (pg h k) := p, slab_pv q := pg h k, slab_nx p := pg h k)"
  shows "u \<in> nodes h D \<Longrightarrow> u \<noteq> p \<Longrightarrow> c' (slab_nx u) = c (slab_nx u)"
    and "u \<in> nodes h D \<Longrightarrow> u \<noteq> q \<Longrightarrow> c' (slab_pv u) = c (slab_pv u)"
    and "a \<notin> link_cells h (insert k D) \<Longrightarrow> c' a = c a"
proof -
  have kN: "pg h k \<in> nodes h (insert k D)" and sub: "nodes h D \<subseteq> nodes h (insert k D)"
    by (auto simp: nodes_def)
  note sep = sep_nodesD [OF nodes_sep [OF h D]]
  have kn: "pg h k \<notin> nodes h D" by (rule fresh_page_not_node [OF h D k])
  show "c' (slab_nx u) = c (slab_nx u)" if u: "u \<in> nodes h D" "u \<noteq> p"
  proof -
    have "slab_nx u \<noteq> slab_pv (pg h k)" "slab_nx u \<noteq> slab_pv q" "u \<noteq> pg h k"
      using sep [OF subsetD [OF sub u(1)] kN] sep [OF subsetD [OF sub u(1)] subsetD [OF sub pq(2)]] kn u(1)
      by auto
    then show ?thesis using u(2) by (simp add: c')
  qed
  show "c' (slab_pv u) = c (slab_pv u)" if u: "u \<in> nodes h D" "u \<noteq> q"
  proof -
    have "slab_nx (pg h k) \<noteq> slab_pv u" "slab_nx p \<noteq> slab_pv u" "u \<noteq> pg h k"
      using sep [OF kN subsetD [OF sub u(1)]] sep [OF subsetD [OF sub pq(1)] subsetD [OF sub u(1)]] kn u(1)
      by auto
    then show ?thesis using u(2) by (simp add: c')
  qed
  show "c' a = c a" if "a \<notin> link_cells h (insert k D)"
    using that kN pq sub link_cellsI [of _ h "insert k D"] by (auto simp: c' subset_iff)
qed

lemma bins_ok_insert:
  assumes h: "page_aligned h" and ok: "bins_ok h c bins F" and D: "insert k (dom F) \<subseteq> {1..<2 ^ 52}"
    and k: "F k = None" and b: "bins (bin_no n) = xs @ ys"
    and p: "p = last (bin_root h (bin_no n) # map (pg h) xs)"
    and q: "q = hd (map (pg h) ys @ [bin_root h (bin_no n)])"
    and c1: "c1 = c(slab_nx (pg h k) := q, slab_pv (pg h k) := p, slab_pv q := pg h k, slab_nx p := pg h k)"
    and c': "\<And>a. a \<notin> skip_cells h \<Longrightarrow> c' a = c1 a"
    and skip: "\<And>i. i < 128 \<Longrightarrow> skip_bit h c' i \<longleftrightarrow> skip_bit h c i \<or> i = bin_no n \<and> i < 127"
    and srt: "bin_no n = 127 \<Longrightarrow> (\<forall>j\<in>set xs. the (F j) \<le> n) \<and> (\<forall>j\<in>set ys. n \<le> the (F j))"
  shows "bins_ok h c' (bins(bin_no n := xs @ k # ys)) (F(k \<mapsto> n))"
proof -
  let ?b = "bin_no n" and ?D = "insert k (dom F)"
  let ?r = "bin_root h ?b"
  have D': "dom F \<subseteq> {1..<2 ^ 52}" and kD: "k \<notin> dom F" using D k by auto
  have rn: "ring_nodes h bins ?b \<subseteq> nodes h (dom F)" by (rule ring_nodes_subset [OF ok bin_no_less])
  have "last (?r # map (pg h) xs) \<in> set (?r # map (pg h) xs)" by (rule last_in_set) simp
  then have pN: "p \<in> ring_nodes h bins ?b" by (auto simp: b p)
  have qN: "q \<in> ring_nodes h bins ?b" by (cases ys) (auto simp: b q)
  have sub: "nodes h (dom F) \<subseteq> nodes h ?D" by (auto simp: nodes_def)
  note ins = insert_cells [OF h D kD subsetD [OF rn pN] subsetD [OF rn qN] c1]
  have c'1: "c' (slab_nx u) = c1 (slab_nx u)" "c' (slab_pv u) = c1 (slab_pv u)" if "u \<in> nodes h ?D" for u
    using link_cellsI [OF that] skip_cells_not_link [OF h D] by (auto intro!: c')
  have rg: "ring slab_nx slab_pv c ?r (map (pg h) xs @ map (pg h) ys)"
    using bins_okD(1) [OF ok bin_no_less, of n] by (simp add: b)
  have knk: "pg h k \<notin> ring_nodes h bins ?b" using fresh_page_not_node [OF h D kD] rn by blast
  show ?thesis
  proof (rule bins_ok_update [OF ok bin_no_less _ _ _ _ h D' pN qN])
    have r1: "ring slab_nx slab_pv c1 ?r (map (pg h) xs @ pg h k # map (pg h) ys)"
    proof (rule slab_links.ring_insert [OF rg p q _ c1])
      show "pg h k \<notin> set (?r # map (pg h) xs @ map (pg h) ys)" using knk by (simp add: b)
      show "sep_nodes slab_nx slab_pv (set (?r # map (pg h) xs @ pg h k # map (pg h) ys))"
        by (rule sep_nodes_mono [OF nodes_sep [OF h D]])
          (use rn b in \<open>auto simp: nodes_def\<close>)
    qed
    have "set (?r # map (pg h) xs @ pg h k # map (pg h) ys) \<subseteq> nodes h ?D"
      using rn sub b by (auto simp: nodes_def)
    then show "ring slab_nx slab_pv c' ?r (map (pg h) (xs @ k # ys))"
      unfolding map_append list.map by (intro slab_links.ring_frame [OF r1]) (blast intro: c'1)
    show "set (xs @ k # ys) = {ka. \<exists>na. (F(k \<mapsto> n)) ka = Some na \<and> bin_no na = ?b}"
      using bins_okD(2) [OF ok bin_no_less, of n] k unfolding b by auto
    show "(F(k \<mapsto> n)) ka = Some na \<longleftrightarrow> F ka = Some na" if "bin_no na \<noteq> ?b" for ka na
      using that k by auto
    have "k \<notin> set xs" "k \<notin> set ys"
      using kD bins_okD(2) [OF ok bin_no_less, of n] unfolding b by auto
    then have m: "map (\<lambda>ka. the ((F(k \<mapsto> n)) ka)) xs = map (\<lambda>ka. the (F ka)) xs"
        "map (\<lambda>ka. the ((F(k \<mapsto> n)) ka)) ys = map (\<lambda>ka. the (F ka)) ys"
      by (auto simp: map_eq_conv)
    have "sorted (map (\<lambda>ka. the (F ka)) (xs @ ys))" if "?b = 127"
      using ok that b by (simp add: bins_ok_def)
    then show "sorted (map (\<lambda>ka. the ((F(k \<mapsto> n)) ka)) (xs @ k # ys))" if "?b = 127"
      unfolding map_append list.map m using that srt by (auto simp: sorted_append)
    show "c' (slab_nx u) = c (slab_nx u)" if "u \<in> nodes h (dom F)" "u \<noteq> p" for u
      using c'1(1) [of u] ins(1) [OF that] sub that(1) by auto
    show "c' (slab_pv u) = c (slab_pv u)" if "u \<in> nodes h (dom F)" "u \<noteq> q" for u
      using c'1(2) [of u] ins(2) [OF that] sub that(1) by auto
    show "skip_bit h c' i" if "i < 127" "skip_bit h c i" for i using that skip by simp
    show "\<not> skip_bit h c' 127" using ok skip [of 127] by (simp add: bins_ok_def)
    show "skip_bit h c' ?b" if "?b < 127" using that skip [of ?b] by simp
  qed
qed

lemma ucast8_of_nat: "k < 2 ^ 52 \<Longrightarrow> (ucast (of_nat k :: u64) :: u8) = of_nat k"
  by (rule unsigned_word_eqI [where ?'a = nat])
    (simp add: unsigned_ucast_eq unat_of_nat take_bit_eq_mod)

lemma slab_bin_idx_of_nat:
  assumes "1 \<le> n" "n < 2 ^ 52"
  shows "slab_bin_idx (of_nat n) = of_nat (bin_no n)"
    and "(of_nat n \<le> MAX_SEG_SLAB_SZ) = (n \<le> 127)"
    and "slab_bin_idx_small (of_nat n) = of_nat (n - 1)"
proof -
  have u: "unat (of_nat n :: u64) = n" using assms(2) by (simp add: unat_of_nat)
  have d: "(of_nat n - 1 :: u64) = of_nat (n - 1)" using assms(1) by simp
  have u1: "unat (of_nat (n - 1) :: u64) = n - 1" using assms(2) by (simp add: unat_of_nat)
  have n1: "n - 1 < 2 ^ 52" using assms(2) by simp
  show "(of_nat n \<le> MAX_SEG_SLAB_SZ) = (n \<le> 127)" by (simp add: layout_simps word_le_nat_alt u)
  have lt: "(of_nat (n - 1) < (127 :: u64)) = (n - 1 < 127)" unfolding word_less_nat_alt u1 by simp
  have "slab_bin_idx (of_nat n) = ucast (if n - 1 < 127 then of_nat (n - 1) else (127 :: u64))"
    unfolding slab_bin_idx_def NUM_SLAB_BINS_def d by (simp add: lt del: One_nat_def)
  also have "\<dots> = of_nat (bin_no n)"
    by (cases "n - 1 < 127") (simp_all only: if_True if_False ucast8_of_nat [OF n1] bin_no_def, simp_all)
  finally show "slab_bin_idx (of_nat n) = of_nat (bin_no n)" .
  show "slab_bin_idx_small (of_nat n) = of_nat (n - 1)"
    unfolding slab_bin_idx_small_def d by (rule ucast8_of_nat [OF n1])
qed

lemma slab_bin_fields:
  assumes "i < 128"
  shows "slab_bin_start (slab_bin h (of_nat i)) = bin_root h i"
    and "slab_bin h (of_nat i) + bin_tail = slab_pv (bin_root h i)"
    and "slab_bin h (of_nat i) + bin_head = slab_nx (bin_root h i)"
  by (simp_all add: bin_root_def slab_bin_start_def layout_simps)

text \<open>The backwards walk stops at the insertion point that keeps the last bin sorted.\<close>

lemma link_large_walk_ok:
  assumes "ring slab_nx slab_pv (cells m) r (map (pg h) (xs @ ys))"
    and "\<And>j. j \<in> set xs \<Longrightarrow> pg h j \<noteq> r \<and> valid_cell m (pg h j + slab_num_slabs)
        \<and> valid_cell m (slab_pv (pg h j)) \<and> cells m (pg h j + slab_num_slabs) = of_nat (sz j) \<and> sz j < 2 ^ 52"
    and "n < 2 ^ 52" and "sorted (map sz xs)"
  shows "\<exists>xs1 xs2. xs = xs1 @ xs2
    \<and> link_large_walk r (of_nat n) (last (r # map (pg h) xs)) (hd (map (pg h) ys @ [r])) m
        = Some (last (r # map (pg h) xs1), hd (map (pg h) (xs2 @ ys) @ [r]))
    \<and> (\<forall>j\<in>set xs1. sz j \<le> n) \<and> (\<forall>j\<in>set xs2. n < sz j)"
  using assms
proof (induction xs arbitrary: ys rule: rev_induct)
  case Nil
  then show ?case by (intro exI [of _ "[]"]) (simp add: link_large_walk.simps)
next
  case (snoc x xs)
  have x: "pg h x \<noteq> r" "valid_cell m (pg h x + slab_num_slabs)" "valid_cell m (slab_pv (pg h x))"
      "cells m (pg h x + slab_num_slabs) = of_nat (sz x)" "sz x < 2 ^ 52"
    using snoc.prems(2) by auto
  have cmp: "(of_nat n < (of_nat (sz x) :: u64)) = (n < sz x)"
    using x(5) snoc.prems(3) by (simp add: word_less_nat_alt unat_of_nat)
  show ?case
  proof (cases "n < sz x")
    case False
    then have "\<forall>j\<in>set (xs @ [x]). sz j \<le> n" using snoc.prems(4) by (auto simp: sorted_append)
    then show ?thesis using x cmp False
      by (intro exI [of _ "xs @ [x]"] exI [of _ "[]"])
        (simp add: link_large_walk.simps [of r _ "pg h x"] exec_simps)
  next
    case True
    have rg: "ring slab_nx slab_pv (cells m) r (map (pg h) (xs @ (x # ys)))" using snoc.prems(1) by simp
    then have "cells m (slab_pv (pg h x)) = last (r # map (pg h) xs)"
      using seg_last_prev [of slab_nx slab_pv "cells m" r "map (pg h) xs" "pg h x"]
      by (simp add: ring_def seg_append)
    then have step: "link_large_walk r (of_nat n) (pg h x) (hd (map (pg h) ys @ [r])) m =
        link_large_walk r (of_nat n) (last (r # map (pg h) xs)) (pg h x) m"
      using x cmp True by (simp add: link_large_walk.simps [of r _ "pg h x"] exec_simps)
    have srt: "sorted (map sz xs)" using snoc.prems(4) by (simp add: sorted_append)
    have hd: "hd (map (pg h) (x # ys) @ [r]) = pg h x" by simp
    have "\<exists>xs1 xs2. xs = xs1 @ xs2
      \<and> link_large_walk r (of_nat n) (last (r # map (pg h) xs)) (hd (map (pg h) (x # ys) @ [r])) m
         = Some (last (r # map (pg h) xs1), hd (map (pg h) (xs2 @ x # ys) @ [r]))
      \<and> (\<forall>j\<in>set xs1. sz j \<le> n) \<and> (\<forall>j\<in>set xs2. n < sz j)"
      by (rule snoc.IH [OF rg _ snoc.prems(3) srt]) (use snoc.prems(2) in auto)
    then obtain xs1 xs2 where r: "xs = xs1 @ xs2"
      "link_large_walk r (of_nat n) (last (r # map (pg h) xs)) (pg h x) m
         = Some (last (r # map (pg h) xs1), hd (map (pg h) (xs2 @ x # ys) @ [r]))"
      "\<forall>j\<in>set xs1. sz j \<le> n" "\<forall>j\<in>set xs2. n < sz j"
      unfolding hd by blast
    show ?thesis using r step True
      by (intro exI [of _ xs1] exI [of _ "xs2 @ [x]"]) simp
  qed
qed

text \<open>Linking at the tail of a bin, and in size order in the last bin.\<close>

lemma raw_slab_link_exec:
  assumes sh: "shape h N m" and ok: "bins_ok h (cells m) bins F" and D: "insert k (dom F) \<subseteq> {1..<N}"
    and b: "b < 128"
  defines "r \<equiv> bin_root h b"
  defines "p \<equiv> last (r # map (pg h) (bins b))"
  shows "raw_slab_link (slab_bin h (of_nat b)) (pg h k) m = Some (m\<lparr>cells := (cells m)
    (slab_nx (pg h k) := r, slab_pv (pg h k) := p, slab_pv r := pg h k, slab_nx p := pg h k)\<rparr>)"
proof -
  have D': "insert k (dom F) \<subseteq> {1..<2 ^ 52}" using D shape_bound [OF sh] by fastforce
  have h: "page_aligned h" by (rule shape_aligned [OF sh])
  let ?N = "nodes h (insert k (dom F))"
  have "last (r # map (pg h) (bins b)) \<in> set (r # map (pg h) (bins b))" by (rule last_in_set) simp
  then have "p \<in> nodes h (dom F)"
    using ring_nodes_subset [OF ok b] unfolding p_def r_def by blast
  then have N: "p \<in> ?N" "r \<in> ?N" "pg h k \<in> ?N" using b by (auto simp: nodes_def r_def)
  have rg: "ring slab_nx slab_pv (cells m) r (map (pg h) (bins b))"
    using bins_okD(1) [OF ok b] by (simp add: r_def)
  then have "cells m (slab_pv r) = p" unfolding ring_def p_def by (auto dest: seg_last_prev)
  then show ?thesis
    using N [THEN valid_link_cells(1) [OF sh D]] N [THEN valid_link_cells(2) [OF sh D]]
    by (simp add: raw_slab_link_def exec_simps slab_bin_fields(1,2) [OF b] r_def [symmetric])
qed

lemma skip_bit_frame:
  assumes h: "page_aligned h" and D: "D \<subseteq> {1..<2 ^ 52}" and i: "i < 128"
    and fr: "\<And>a. a \<notin> link_cells h D \<Longrightarrow> c' a = c a"
  shows "skip_bit h c' i = skip_bit h c i"
  by (rule skip_bit_eq [OF i]) (use skip_cells_not_link [OF h D] in \<open>auto intro: fr\<close>)

lemma link_tail_ok:
  assumes sh: "shape h N m" and ok: "bins_ok h (cells m) bins F" and D: "insert k (dom F) \<subseteq> {1..<N}"
    and k: "F k = None" and n: "1 \<le> n" "n \<le> 127"
  obtains c' bins' m1 where "raw_slab_link (slab_bin h (of_nat (bin_no n))) (pg h k) m = Some m1"
    and "slab_skiplist_mark h (of_nat (bin_no n)) m1 = Some (m\<lparr>cells := c'\<rparr>)"
    and "bins_ok h c' bins' (F(k \<mapsto> n))"
    and "\<And>a. a \<notin> link_cells h (insert k (dom F)) \<union> skip_cells h \<Longrightarrow> c' a = cells m a"
proof -
  let ?b = "bin_no n" and ?c = "cells m"
  let ?r = "bin_root h ?b"
  let ?p = "last (?r # map (pg h) (bins ?b))"
  define c1 where "c1 = ?c(slab_nx (pg h k) := ?r, slab_pv (pg h k) := ?p, slab_pv ?r := pg h k, slab_nx ?p := pg h k)"
  have D': "insert k (dom F) \<subseteq> {1..<2 ^ 52}" using D shape_bound [OF sh] by fastforce
  have h: "page_aligned h" by (rule shape_aligned [OF sh])
  have ex: "raw_slab_link (slab_bin h (of_nat ?b)) (pg h k) m = Some (m\<lparr>cells := c1\<rparr>)"
    unfolding c1_def by (rule raw_slab_link_exec [OF sh ok D bin_no_less])
  have sh1: "shape h N (m\<lparr>cells := c1\<rparr>)" using sh by simp
  obtain c' where c': "slab_skiplist_mark h (of_nat ?b) (m\<lparr>cells := c1\<rparr>) = Some (m\<lparr>cells := c'\<rparr>)"
    "\<And>a. a \<notin> skip_cells h \<Longrightarrow> c' a = c1 a"
    "\<And>i. i < 128 \<Longrightarrow> skip_bit h c' i \<longleftrightarrow> skip_bit h c1 i \<or> i = ?b"
    using slab_skiplist_mark_ok [OF sh1 bin_no_less [of n]] by auto
  have "last (?r # map (pg h) (bins ?b)) \<in> set (?r # map (pg h) (bins ?b))" by (rule last_in_set) simp
  then have p: "?p \<in> nodes h (dom F)" using ring_nodes_subset [OF ok bin_no_less] by blast
  have r: "?r \<in> nodes h (dom F)" using bin_no_less by (auto simp: nodes_def)
  have k': "k \<notin> dom F" using k by auto
  note out = insert_cells(3) [OF h D' k' p r c1_def]
  have b: "?b < 127" using n by (simp add: bin_no_def)
  have "bins_ok h c' (bins(?b := bins ?b @ k # [])) (F(k \<mapsto> n))"
  proof (rule bins_ok_insert [OF h ok D' k _ refl refl _ c'(2)])
    show "bins ?b = bins ?b @ []" by simp
    show "skip_bit h c' i \<longleftrightarrow> skip_bit h ?c i \<or> i = ?b \<and> i < 127" if "i < 128" for i
      using c'(3) [OF that] b skip_bit_frame [OF h D' that out] by auto
    show "c1 = ?c(slab_nx (pg h k) := hd (map (pg h) [] @ [?r]), slab_pv (pg h k) := ?p,
        slab_pv (hd (map (pg h) [] @ [?r])) := pg h k, slab_nx ?p := pg h k)"
      by (simp only: c1_def list.map append_Nil list.sel)
  qed (use b in simp_all)
  moreover have "c' a = ?c a" if "a \<notin> link_cells h (insert k (dom F)) \<union> skip_cells h" for a
    using that c'(2) out by simp
  ultimately show thesis using that ex c'(1) by blast
qed

lemma slab_link_small_ok:
  assumes "shape h N m" "bins_ok h (cells m) bins F" "insert k (dom F) \<subseteq> {1..<N}"
    and "F k = None" "1 \<le> n" "n \<le> 127"
  obtains c' bins' where "slab_link_small h (pg h k) (of_nat n) m = Some (m\<lparr>cells := c'\<rparr>)"
    and "bins_ok h c' bins' (F(k \<mapsto> n))"
    and "\<And>a. a \<notin> link_cells h (insert k (dom F)) \<union> skip_cells h \<Longrightarrow> c' a = cells m a"
proof -
  have "bin_no n = n - 1" using assms by (simp add: bin_no_def)
  then have "slab_bin_idx_small (of_nat n) = of_nat (bin_no n)"
    using slab_bin_idx_of_nat(3) [of n] assms by simp
  moreover obtain m1 c' bins' where "raw_slab_link (slab_bin h (of_nat (bin_no n))) (pg h k) m = Some m1"
    "slab_skiplist_mark h (of_nat (bin_no n)) m1 = Some (m\<lparr>cells := c'\<rparr>)"
    "bins_ok h c' bins' (F(k \<mapsto> n))"
    "\<And>a. a \<notin> link_cells h (insert k (dom F)) \<union> skip_cells h \<Longrightarrow> c' a = cells m a"
    by (rule link_tail_ok [OF assms]) blast
  ultimately show thesis using that [of c' bins'] by (simp add: slab_link_small_def)
qed

lemma link_large_ok:
  assumes sh: "shape h N m" and ok: "bins_ok h (cells m) bins F" and D: "insert k (dom F) \<subseteq> {1..<N}"
    and k: "F k = None" and n: "127 < n" "n < 2 ^ 52"
    and sz: "\<And>j l. F j = Some l \<Longrightarrow> cells m (pg h j + slab_num_slabs) = of_nat l \<and> l < 2 ^ 52"
  obtains c' bins' where "raw_slab_link_large (slab_bin h 127) (pg h k) (of_nat n) m = Some (m\<lparr>cells := c'\<rparr>)"
    and "bins_ok h c' bins' (F(k \<mapsto> n))"
    and "\<And>a. a \<notin> link_cells h (insert k (dom F)) \<Longrightarrow> c' a = cells m a"
proof -
  let ?c = "cells m" and ?r = "bin_root h 127" and ?N = "nodes h (insert k (dom F))"
  have D': "insert k (dom F) \<subseteq> {1..<2 ^ 52}" using D shape_bound [OF sh] by fastforce
  have h: "page_aligned h" by (rule shape_aligned [OF sh])
  have rg: "ring slab_nx slab_pv ?c ?r (map (pg h) (bins 127 @ []))" using bins_okD(1) [OF ok, of 127] by simp
  have st: "set (bins 127) = {j. \<exists>l. F j = Some l \<and> bin_no l = 127}" using bins_okD(2) [OF ok, of 127] by simp
  have srt: "sorted (map (\<lambda>j. the (F j)) (bins 127))" using ok by (simp add: bins_ok_def)
  have nd: "pg h j \<noteq> ?r \<and> valid_cell m (pg h j + slab_num_slabs) \<and> valid_cell m (slab_pv (pg h j))
      \<and> ?c (pg h j + slab_num_slabs) = of_nat (the (F j)) \<and> the (F j) < 2 ^ 52" if j: "j \<in> set (bins 127)" for j
  proof -
    obtain l where l: "F j = Some l" using st j by auto
    then have jN: "j \<in> {1..<N}" using D by auto
    then have "pg h j \<noteq> ?r" using bin_root_not_page [OF h _ shape_bound [OF sh], of j 127] by auto
    then show ?thesis using sz [OF l] l jN
      by (auto intro!: shape_valid [OF sh] simp: layout_simps)
  qed
  obtain xs ys where w: "bins 127 = xs @ ys"
    "link_large_walk ?r (of_nat n) (last (?r # map (pg h) (bins 127))) ?r m
        = Some (last (?r # map (pg h) xs), hd (map (pg h) ys @ [?r]))"
    "\<forall>j\<in>set xs. the (F j) \<le> n" "\<forall>j\<in>set ys. n < the (F j)"
    using link_large_walk_ok [OF rg nd n(2) srt]
    unfolding list.map append_Nil append_Nil2 list.sel by blast
  let ?p = "last (?r # map (pg h) xs)" and ?q = "hd (map (pg h) ys @ [?r])"
  define c1 where "c1 = ?c(slab_nx (pg h k) := ?q, slab_pv (pg h k) := ?p, slab_pv ?q := pg h k, slab_nx ?p := pg h k)"
  have "last (?r # map (pg h) xs) \<in> set (?r # map (pg h) xs)" by (rule last_in_set) simp
  then have "?p \<in> ring_nodes h bins 127" by (auto simp: w)
  moreover have "?q \<in> ring_nodes h bins 127" by (cases ys) (auto simp: w)
  ultimately have pq: "?p \<in> nodes h (dom F)" "?q \<in> nodes h (dom F)"
    using ring_nodes_subset [OF ok, of 127] by auto
  then have N: "?p \<in> ?N" "?q \<in> ?N" "?r \<in> ?N" "pg h k \<in> ?N" by (auto simp: nodes_def)
  define t p q where "t = last (?r # map (pg h) (bins 127))" and "p = ?p" and "q = ?q"
  have "?c (slab_pv ?r) = t"
    using rg unfolding ring_def t_def append_Nil2 by (blast dest: seg_last_prev)
  moreover have "link_large_walk ?r (of_nat n) t ?r m = Some (p, q)" using w(2) by (simp only: t_def p_def q_def)
  ultimately have ex: "raw_slab_link_large (slab_bin h 127) (pg h k) (of_nat n) m = Some (m\<lparr>cells := c1\<rparr>)"
    using N [THEN valid_link_cells(1) [OF sh D]] N [THEN valid_link_cells(2) [OF sh D]]
      slab_bin_fields [of 127 h]
    unfolding c1_def p_def [symmetric] q_def [symmetric]
    by (simp add: raw_slab_link_large_def exec_simps)
  have k': "k \<notin> dom F" using k by auto
  have b: "bin_no n = 127" using n by (simp add: bin_no_def)
  have out: "c1 a = ?c a" if "a \<notin> link_cells h (insert k (dom F))" for a
    by (rule insert_cells(3) [OF h D' k' pq c1_def that])
  have "bins_ok h c1 (bins(bin_no n := xs @ k # ys)) (F(k \<mapsto> n))"
  proof (rule bins_ok_insert [OF h ok D' k _ refl refl])
    show "bins (bin_no n) = xs @ ys" by (simp add: b w)
    show "skip_bit h c1 i \<longleftrightarrow> skip_bit h ?c i \<or> i = bin_no n \<and> i < 127" if "i < 128" for i
      using b skip_bit_frame [OF h D' that out] by auto
  qed (use w b in \<open>auto simp: c1_def\<close>)
  then show thesis using that ex out by blast
qed

lemma slab_link_ok:
  assumes sh: "shape h N m" and ok: "bins_ok h (cells m) bins F" and D: "insert k (dom F) \<subseteq> {1..<N}"
    and k: "F k = None" and n: "1 \<le> n" "n < 2 ^ 52"
    and sz: "\<And>j l. F j = Some l \<Longrightarrow> cells m (pg h j + slab_num_slabs) = of_nat l \<and> l < 2 ^ 52"
  obtains c' bins' where "slab_link h (pg h k) (of_nat n) m = Some (m\<lparr>cells := c'\<rparr>)"
    and "bins_ok h c' bins' (F(k \<mapsto> n))"
    and "\<And>a. a \<notin> link_cells h (insert k (dom F)) \<union> skip_cells h \<Longrightarrow> c' a = cells m a"
proof (cases "n \<le> 127")
  case True
  obtain m1 c' bins' where "raw_slab_link (slab_bin h (of_nat (bin_no n))) (pg h k) m = Some m1"
    "slab_skiplist_mark h (of_nat (bin_no n)) m1 = Some (m\<lparr>cells := c'\<rparr>)"
    "bins_ok h c' bins' (F(k \<mapsto> n))"
    "\<And>a. a \<notin> link_cells h (insert k (dom F)) \<union> skip_cells h \<Longrightarrow> c' a = cells m a"
    by (rule link_tail_ok [OF sh ok D k n(1) True]) blast
  then show thesis using True that [of c' bins'] by (simp add: slab_link_def slab_bin_idx_of_nat [OF n])
next
  case False
  then have "127 < n" by simp
  then obtain c' bins' where c': "raw_slab_link_large (slab_bin h 127) (pg h k) (of_nat n) m = Some (m\<lparr>cells := c'\<rparr>)"
    "bins_ok h c' bins' (F(k \<mapsto> n))"
    "\<And>a. a \<notin> link_cells h (insert k (dom F)) \<Longrightarrow> c' a = cells m a"
    using link_large_ok [OF sh ok D k _ n(2) sz] by blast
  have "\<not> of_nat n \<le> MAX_SEG_SLAB_SZ" unfolding slab_bin_idx_of_nat(2) [OF n] by (rule False)
  then have "slab_link h (pg h k) (of_nat n) m = raw_slab_link_large (slab_bin h 127) (pg h k) (of_nat n) m"
    by (simp add: slab_link_def NUM_SLAB_BINS_def Let_def)
  then show thesis using c' by (intro that [of c' bins']) simp_all
qed

subsection \<open>The number of slabs of a request\<close>

lemma unat_and_not_4095: "unat (x AND NOT 4095 :: u64) = 4096 * (unat x div 4096)"
proof -
  have m: "(4095 :: u64) = mask 12" by (simp add: mask_eq_exp_minus_1)
  have "x AND NOT 4095 = push_bit 12 (drop_bit 12 x)"
    unfolding m by (rule bit_eqI) (auto simp: bit_simps dest: bit_imp_le_length)
  also have "unat \<dots> = (unat x div 4096 * 4096) mod 2 ^ 64"
    by (simp add: push_bit_eq_mult drop_bit_eq_div unat_word_ariths unat_div mod_mult_left_eq)
  also have "\<dots> = unat x div 4096 * 4096"
    using unsigned_less [of x, where ?'a = nat] div_times_less_eq_dividend [of "unat x" 4096]
    by (intro mod_less) simp
  finally show ?thesis by (simp add: mult.commute)
qed

lemma unat_req_slabs: "unat (req_slabs_for_size sz) = unat (sz + 4111) div 4096"
proof -
  have "unat (ALIGN_UP (sz + 16) 4096) = 4096 * (unat (sz + 4111) div 4096)"
    using unat_and_not_4095 [of "sz + 4111"] by (simp add: ALIGN_UP_def add.commute)
  then show ?thesis by (simp add: req_slabs_for_size_def layout_simps unat_div)
qed

text \<open>C20: As long as adding the header and rounding up does not wrap around 64 bits,
  req_slabs_for_size returns the least number of 4096-byte slabs that holds the block and
  its 16-byte header.\<close>

theorem req_slabs_for_size_bounds:
  assumes "unat sz < 2 ^ 64 - 4111"
  shows "unat sz + 16 \<le> 4096 * unat (req_slabs_for_size sz)
    \<and> 4096 * unat (req_slabs_for_size sz) < unat sz + 16 + 4096"
proof -
  have "unat (sz + 4111) = unat sz + 4111" using assms by (simp add: unat_word_ariths)
  then show ?thesis
    using mult_div_mod_eq [of 4096 "unat (sz + 4111)"] mod_less_divisor [of 4096 "unat (sz + 4111)"]
    unfolding unat_req_slabs by linarith
qed

theorem req_slabs_for_size_bounds_witness:
  "unat (5000 :: u64) + 16 \<le> 4096 * unat (req_slabs_for_size 5000)
    \<and> 4096 * unat (req_slabs_for_size 5000) < unat (5000 :: u64) + 16 + 4096"
  by (rule req_slabs_for_size_bounds) simp

text \<open>C31: req_slabs_for_size returns 0 slabs exactly for the sizes whose rounding wraps around 64
  bits, so a request of almost 2^64 bytes asks the slab layer for no slab at all.\<close>

theorem req_slabs_for_size_wraps:
  "req_slabs_for_size sz = 0 \<longleftrightarrow> 2 ^ 64 - 4111 \<le> unat sz \<and> unat sz < 2 ^ 64 - 15"
proof -
  have "unat sz < 2 ^ 64" using unsigned_less [of sz] by simp
  then have "unat (sz + 4111) = (if unat sz < 2 ^ 64 - 4111 then unat sz + 4111 else unat sz + 4111 - 2 ^ 64)"
    by (simp add: unat_word_ariths mod_if)
  moreover have "req_slabs_for_size sz = 0 \<longleftrightarrow> unat (sz + 4111) < 4096"
    using unat_req_slabs [of sz] by (simp add: word_unat_eq_iff div_eq_0_iff)
  ultimately show ?thesis using \<open>unat sz < 2 ^ 64\<close> by auto
qed

end
