(* ===== verification/Arena.thy ===== *)
theory Arena
  imports Memory
begin

unbundle bit_operations_syntax

section \<open>Growing the arena: \<^verbatim>\<open>Heap::sbrk\<close> and the interface of \<^verbatim>\<open>mem_sbrk\<close>\<close>

text \<open>
  \<^verbatim>\<open>mm.c\<close> obtains memory from \<^verbatim>\<open>mem_sbrk\<close> of a header that is not part of the
  repository, so every operation that may grow the heap takes it as a parameter. The
  locale \<open>mem_source\<close> states what the allocator relies on; \<^verbatim>\<open>Heap::sbrk\<close> of
  \<^verbatim>\<open>src/src/heap_interface.cc\<close>, the repository's own arena, is modelled here and
  interprets it.
\<close>

type_synonym sbrk_fn = "u64 \<Rightarrow> memory \<Rightarrow> u64 \<times> memory"

subsection \<open>The \<^verbatim>\<open>Heap\<close> class\<close>

definition Heap_new :: "u64 \<Rightarrow> u64 \<Rightarrow> (u64 \<Rightarrow> u64) \<Rightarrow> memory" where
  "Heap_new start sz contents =
     \<lparr>cells = contents, arena_start = start, arena_end = start, arena_max = sz, heap_ptr = 0\<rparr>"

definition Heap_sbrk :: sbrk_fn where
  "Heap_sbrk increment m =
     (if sint increment < 0 then (0, m)
      else let old_heap_end = arena_end m in
        if arena_max m < (old_heap_end - arena_start m) + increment then (0, m)
        else (old_heap_end, m\<lparr>arena_end := old_heap_end + increment\<rparr>))"

definition Heap_Reset :: "memory \<Rightarrow> u64 \<times> memory" where
  "Heap_Reset m = (arena_start m, m\<lparr>arena_end := arena_start m\<rparr>)"

definition Heap_Size :: "memory \<Rightarrow> u64" where
  "Heap_Size m = arena_end m - arena_start m"

text \<open>
  The mapped region of a heap object: not at address 0, below the sign bit in size, not
  wrapping around the address space, and the break inside it.
\<close>

definition Heap_ok :: "memory \<Rightarrow> bool" where
  "Heap_ok m \<longleftrightarrow> arena_start m \<noteq> 0 \<and> unat (arena_max m) < 2 ^ 63
     \<and> unat (arena_start m) + unat (arena_max m) < 2 ^ 64
     \<and> arena_start m \<le> arena_end m
     \<and> unat (arena_end m) \<le> unat (arena_start m) + unat (arena_max m)"

definition Heap_room :: "u64 \<Rightarrow> memory \<Rightarrow> bool" where
  "Heap_room n m \<longleftrightarrow> unat (arena_end m) + unat n \<le> unat (arena_start m) + unat (arena_max m)"

lemma Heap_sbrk_grow:
  assumes "Heap_ok m" and "Heap_room n m"
  shows "Heap_sbrk n m = (arena_end m, m\<lparr>arena_end := arena_end m + n\<rparr>)"
proof -
  have used: "unat (arena_end m - arena_start m) = unat (arena_end m) - unat (arena_start m)"
    using assms(1) by (simp add: Heap_ok_def unat_sub)
  have n: "unat n < 2 ^ 63"
    using assms by (auto simp: Heap_ok_def Heap_room_def word_le_nat_alt)
  then have "\<not> sint n < 0" by (simp add: sint_negative_iff)
  moreover have "unat (arena_end m - arena_start m + n)
      = unat (arena_end m) - unat (arena_start m) + unat n"
    using assms n by (auto simp: unat_word_ariths used Heap_ok_def Heap_room_def word_le_nat_alt)
  then have "\<not> arena_max m < arena_end m - arena_start m + n"
    using assms by (auto simp: word_less_nat_alt Heap_ok_def Heap_room_def word_le_nat_alt)
  ultimately show ?thesis by (simp add: Heap_sbrk_def Let_def)
qed

lemma Heap_sbrk_refuse:
  assumes "Heap_ok m" and "\<not> Heap_room n m"
  shows "Heap_sbrk n m = (0, m)"
proof (cases "sint n < 0")
  case False
  have used: "unat (arena_end m - arena_start m) = unat (arena_end m) - unat (arena_start m)"
    using assms(1) by (simp add: Heap_ok_def unat_sub)
  have "unat n < 2 ^ 63" using False by (simp add: sint_negative_iff)
  then have "unat (arena_end m - arena_start m + n)
      = unat (arena_end m) - unat (arena_start m) + unat n"
    using assms by (auto simp: unat_word_ariths used Heap_ok_def word_le_nat_alt)
  then have "arena_max m < arena_end m - arena_start m + n"
    using assms by (auto simp: word_less_nat_alt Heap_ok_def Heap_room_def word_le_nat_alt)
  then show ?thesis by (simp add: Heap_sbrk_def Let_def)
qed (simp add: Heap_sbrk_def)

subsection \<open>What an allocator relies on\<close>

text \<open>
  \<open>src_ok\<close> is the provider's own state invariant and \<open>room n m\<close> says that the provider
  can grow the arena by \<open>n\<close> bytes. A successful call moves the break and returns the old
  one; a refused call changes nothing and does not return the break.
\<close>

locale mem_source =
  fixes sbrk :: "u64 \<Rightarrow> memory \<Rightarrow> u64 \<times> memory"
    and room :: "u64 \<Rightarrow> memory \<Rightarrow> bool"
    and src_ok :: "memory \<Rightarrow> bool"
  assumes sbrk_grow: "src_ok m \<Longrightarrow> room n m \<Longrightarrow>
      sbrk n m = (arena_end m, m\<lparr>arena_end := arena_end m + n\<rparr>)"
    and sbrk_refuse_state: "src_ok m \<Longrightarrow> \<not> room n m \<Longrightarrow> snd (sbrk n m) = m"
    and sbrk_refuse_value: "src_ok m \<Longrightarrow> \<not> room n m \<Longrightarrow> fst (sbrk n m) \<noteq> arena_end m"
    and room_no_wrap: "src_ok m \<Longrightarrow> room n m \<Longrightarrow> unat (arena_end m) + unat n < 2 ^ 64"
    and src_ok_grow: "src_ok m \<Longrightarrow> room n m \<Longrightarrow> src_ok (m\<lparr>arena_end := arena_end m + n\<rparr>)"
    and src_ok_cells: "src_ok (m\<lparr>cells := c\<rparr>) = src_ok m"
    and src_ok_heap_ptr: "src_ok (m\<lparr>heap_ptr := h\<rparr>) = src_ok m"
    and room_cells: "room n (m\<lparr>cells := c\<rparr>) = room n m"

interpretation hs: mem_source Heap_sbrk Heap_room Heap_ok
proof
  fix m n
  assume ok: "Heap_ok m"
  show "Heap_room n m \<Longrightarrow> Heap_sbrk n m = (arena_end m, m\<lparr>arena_end := arena_end m + n\<rparr>)"
    using ok by (rule Heap_sbrk_grow)
  show "\<not> Heap_room n m \<Longrightarrow> snd (Heap_sbrk n m) = m"
    using ok by (simp add: Heap_sbrk_refuse)
  show "\<not> Heap_room n m \<Longrightarrow> fst (Heap_sbrk n m) \<noteq> arena_end m"
    using ok by (auto simp: Heap_sbrk_refuse Heap_ok_def)
  assume room: "Heap_room n m"
  then show wrap: "unat (arena_end m) + unat n < 2 ^ 64"
    using ok by (auto simp: Heap_ok_def Heap_room_def)
  have "unat (arena_end m + n) = unat (arena_end m) + unat n"
    using wrap by (simp add: unat_word_ariths)
  then show "Heap_ok (m\<lparr>arena_end := arena_end m + n\<rparr>)"
    using ok room by (auto simp: Heap_ok_def Heap_room_def word_le_nat_alt)
qed (simp_all add: Heap_ok_def Heap_room_def)

end
