(* ===== verification/Slab_Heap.thy ===== *)
theory Slab_Heap
  imports Slab_Bins Arena
begin

unbundle bit_operations_syntax

section \<open>Allocating and freeing slabs\<close>

text \<open>
  \<^verbatim>\<open>mm_init\<close>, \<^verbatim>\<open>__int_take_slab\<close>, \<^verbatim>\<open>__int_alloc_slab\<close>,
  \<^verbatim>\<open>__int_free_remainder_slab\<close> and \<^verbatim>\<open>__int_free_slab\<close>: the layer that hands out runs of
  contiguous slabs and coalesces the runs that are given back.
\<close>

subsection \<open>The heap structure\<close>

definition heap_start :: "u64 \<Rightarrow> u64" where
  "heap_start h = h + ALIGN_UP sizeof_heap SLAB_SIZE"

definition heap_end :: "u64 \<Rightarrow> memory \<Rightarrow> u64 option" where
  "heap_end h m = load64 m (h + heap_heap_end)"

definition heap_set_flags :: "u64 \<Rightarrow> u32 \<Rightarrow> memory \<Rightarrow> memory option" where
  "heap_set_flags h bits m = do {
     flags \<leftarrow> load32 m (h + heap_flags);
     store32 m (h + heap_flags) (flags OR bits)
   }"

definition heap_and_flags :: "u64 \<Rightarrow> u32 \<Rightarrow> memory \<Rightarrow> memory option" where
  "heap_and_flags h msk m = do {
     flags \<leftarrow> load32 m (h + heap_flags);
     store32 m (h + heap_flags) (flags AND msk)
   }"

text \<open>The loop of \<^verbatim>\<open>mm_init\<close> over the bins, from bin \<open>i\<close>, for \<open>k\<close> bins.\<close>

primrec init_slab_bins :: "u64 \<Rightarrow> nat \<Rightarrow> nat \<Rightarrow> memory \<Rightarrow> memory option" where
  "init_slab_bins h i 0 m = Some m"
| "init_slab_bins h i (Suc k) m = do {
     let bin = slab_bin h (of_nat i);
     let start = slab_bin_start bin;
     m \<leftarrow> store64 m (bin + bin_head) start;
     m \<leftarrow> store64 m (bin + bin_tail) start;
     init_slab_bins h (Suc i) k m
   }"

text \<open>\<^verbatim>\<open>__builtin_memset\<close> of whole zero cells (both ends are 8-aligned).\<close>

primrec zero_cells :: "u64 \<Rightarrow> nat \<Rightarrow> memory \<Rightarrow> memory option" where
  "zero_cells p 0 m = Some m"
| "zero_cells p (Suc k) m = do {
     m \<leftarrow> store64 m p 0;
     zero_cells (p + 8) k m
   }"

definition mm_init :: "sbrk_fn \<Rightarrow> memory \<Rightarrow> (bool \<times> memory) option" where
  "mm_init sbrk m = do {
     let (h, m) = sbrk (ALIGN_UP sizeof_heap SLAB_SIZE) m;
     m \<leftarrow> init_slab_bins h 0 NUM_SLAB_BINS m;
     m \<leftarrow> zero_cells (h + heap_smallbins) (unat ((heap_heap_end - heap_smallbins) div 8)) m;
     m \<leftarrow> store64 m (h + heap_heap_end) (heap_start h);
     m \<leftarrow> store32 m (h + heap_flags) LAST_SLAB_ALLOC;
     Some (True, m\<lparr>heap_ptr := h\<rparr>)
   }"

subsection \<open>Taking slabs from a free region\<close>

text \<open>
  The code that splits a free region of \<open>s_size\<close> slabs after its first \<open>n_slabs\<close>, and
  the code that hands out the whole region, occur in \<^verbatim>\<open>__int_take_slab\<close> and three times
  each in \<^verbatim>\<open>__int_alloc_slab\<close>; \<open>link\<close> is \<^verbatim>\<open>slab_link\<close> or \<^verbatim>\<open>slab_link_small\<close>.
\<close>

definition split_remainder ::
  "(u64 \<Rightarrow> u64 \<Rightarrow> u64 \<Rightarrow> memory \<Rightarrow> memory option) \<Rightarrow> u64 \<Rightarrow> u64 \<Rightarrow> u64 \<Rightarrow> u64 \<Rightarrow> memory \<Rightarrow> memory option"
where
  "split_remainder link h s s_size n_slabs m = do {
     let rem = slab_plus s n_slabs;
     m \<leftarrow> store8 m (rem + slab_flags) SLAB_PREV_ALLOC_BIT;
     m \<leftarrow> link h rem (s_size - n_slabs) m;
     m \<leftarrow> store64 m (rem + slab_num_slabs) (s_size - n_slabs);
     store64 m (slab_plus s s_size - 8) (s_size - n_slabs)
   }"

definition take_whole :: "u64 \<Rightarrow> u64 \<Rightarrow> u64 \<Rightarrow> memory \<Rightarrow> memory option" where
  "take_whole h s s_size m = do {
     let next_slab = slab_plus s s_size;
     hend \<leftarrow> heap_end h m;
     if next_slab = hend then heap_set_flags h LAST_SLAB_ALLOC m
     else slab_set_flags next_slab SLAB_PREV_ALLOC_BIT m
   }"

definition int_take_slab :: "u64 \<Rightarrow> u64 \<Rightarrow> u64 \<Rightarrow> memory \<Rightarrow> memory option" where
  "int_take_slab h s n_slabs m = do {
     s_size \<leftarrow> load64 m (s + slab_num_slabs);
     _ \<leftarrow> malloc_assert (n_slabs \<le> s_size);
     m \<leftarrow> slab_unlink s m;
     if s_size = n_slabs then take_whole h s s_size m
     else split_remainder slab_link h s s_size n_slabs m
   }"

definition alloc_whole :: "u64 \<Rightarrow> u64 \<Rightarrow> u64 \<Rightarrow> memory \<Rightarrow> memory option" where
  "alloc_whole h s s_size m = do {
     m \<leftarrow> slab_unlink s m;
     m \<leftarrow> slab_set_flags s SLAB_ALLOC_BIT m;
     take_whole h s s_size m
   }"

definition alloc_split ::
  "(u64 \<Rightarrow> u64 \<Rightarrow> u64 \<Rightarrow> memory \<Rightarrow> memory option) \<Rightarrow> u64 \<Rightarrow> u64 \<Rightarrow> u64 \<Rightarrow> u64 \<Rightarrow> memory \<Rightarrow> memory option"
where
  "alloc_split link h s s_size n_slabs m = do {
     m \<leftarrow> slab_unlink s m;
     m \<leftarrow> slab_set_flags s SLAB_ALLOC_BIT m;
     split_remainder link h s s_size n_slabs m
   }"

subsection \<open>\<^verbatim>\<open>__int_alloc_slab\<close>\<close>

text \<open>
  The search through the skiplist, one iteration per unfolding. The result is the slab
  found, or \<open>None\<close> when the loop breaks at the end of the skiplist.
\<close>

partial_function (option) slab_skip_search ::
  "u64 \<Rightarrow> u64 \<Rightarrow> u8 \<Rightarrow> u8 \<Rightarrow> u32 \<Rightarrow> u32 \<Rightarrow> u32 \<Rightarrow> memory \<Rightarrow> (u64 option \<times> memory) option" where
  "slab_skip_search h n_slabs req_bin_idx skip_idx bin_offset skiplist msk m =
     (if skiplist = 0 then do {
        m \<leftarrow> store32 m (slab_skiplist h skip_idx) (msk OR skiplist);
        let skip_idx = skip_idx + 1;
        let bin_offset = bin_offset + 8 * 4;
        if skip_idx = of_nat SLAB_BINS_SKIPLIST_SZ then Some (None, m)
        else do {
          skiplist \<leftarrow> load32 m (slab_skiplist h skip_idx);
          slab_skip_search h n_slabs req_bin_idx skip_idx bin_offset skiplist 0 m
        }
      } else do {
        bit_idx \<leftarrow> builtin_ctz skiplist;
        let bin_idx = (ucast (bin_offset + ucast (of_nat bit_idx :: u8)) :: u8);
        let bin = slab_bin h bin_idx;
        s \<leftarrow> load64 m (bin + bin_head);
        let s_size = (ucast bin_idx + 1 :: u64);
        if s \<noteq> slab_bin_start bin then
          if bin_idx = req_bin_idx then do {
            m \<leftarrow> alloc_whole h s s_size m;
            Some (Some s, m)
          } else if n_slabs < s_size then do {
            m \<leftarrow> store32 m (slab_skiplist h skip_idx) (msk OR skiplist);
            m \<leftarrow> alloc_split slab_link_small h s s_size n_slabs m;
            Some (Some s, m)
          } else slab_skip_search h n_slabs req_bin_idx skip_idx bin_offset skiplist msk m
        else slab_skip_search h n_slabs req_bin_idx skip_idx bin_offset
               (skiplist AND (skiplist - 1)) msk m
      })"

declare slab_skip_search.simps [code]

text \<open>The search through the last bin for a region of at least \<open>n_slabs\<close> slabs.\<close>

partial_function (option) large_bin_search ::
  "u64 \<Rightarrow> u64 \<Rightarrow> u64 \<Rightarrow> u64 \<Rightarrow> memory \<Rightarrow> (u64 option \<times> memory) option" where
  "large_bin_search h n_slabs bin_start s m =
     (if s = bin_start then Some (None, m)
      else do {
        s_size \<leftarrow> load64 m (s + slab_num_slabs);
        if s_size = n_slabs then do {
          m \<leftarrow> alloc_whole h s s_size m;
          Some (Some s, m)
        } else if n_slabs < s_size then do {
          m \<leftarrow> alloc_split slab_link h s s_size n_slabs m;
          Some (Some s, m)
        } else do {
          s' \<leftarrow> load64 m (s + slab_next);
          large_bin_search h n_slabs bin_start s' m
        }
      })"

declare large_bin_search.simps [code]

definition slab_find :: "u64 \<Rightarrow> u64 \<Rightarrow> memory \<Rightarrow> (u64 option \<times> memory) option" where
  "slab_find h n_slabs m =
     (let last_bin = slab_bin h (of_nat (NUM_SLAB_BINS - 1)) in
      if n_slabs \<le> MAX_SEG_SLAB_SZ then do {
        let req_bin_idx = slab_bin_idx n_slabs;
        let skip_idx = slab_bin_skiplist_idx (ucast req_bin_idx);
        let bit_idx = slab_bin_skiplist_bit (ucast req_bin_idx);
        let bin_offset = (ucast skip_idx * (8 * 4) :: u32);
        skiplist \<leftarrow> load32 m (slab_skiplist h skip_idx);
        let msk = (push_bit (unat bit_idx) 1 - 1) AND skiplist;
        (found, m) \<leftarrow> slab_skip_search h n_slabs req_bin_idx skip_idx bin_offset
                         (skiplist XOR msk) msk m;
        case found of
          Some s \<Rightarrow> Some (Some s, m)
        | None \<Rightarrow> do {
            s \<leftarrow> load64 m (last_bin + bin_head);
            if s \<noteq> slab_bin_start last_bin then do {
              s_size \<leftarrow> load64 m (s + slab_num_slabs);
              m \<leftarrow> alloc_split slab_link h s s_size n_slabs m;
              Some (Some s, m)
            } else Some (None, m)
          }
      } else do {
        s \<leftarrow> load64 m (last_bin + bin_head);
        large_bin_search h n_slabs (slab_bin_start last_bin) s m
      })"

text \<open>The part that grows the heap when no free region fits.\<close>

definition slab_extend :: "sbrk_fn \<Rightarrow> u64 \<Rightarrow> u64 \<Rightarrow> memory \<Rightarrow> (u64 \<times> memory) option" where
  "slab_extend sbrk h n_slabs m = do {
     flags \<leftarrow> load32 m (h + heap_flags);
     hend \<leftarrow> heap_end h m;
     if flags AND LAST_SLAB_ALLOC = 0 then do {
       last \<leftarrow> prev_adj_slab hend m;
       m \<leftarrow> slab_unlink last m;
       s_size \<leftarrow> load64 m (last + slab_num_slabs);
       _ \<leftarrow> malloc_assert (s_size < n_slabs);
       let rem = n_slabs - s_size;
       let (ext, m) = sbrk (rem * SLAB_SIZE) m;
       hend \<leftarrow> heap_end h m;
       _ \<leftarrow> malloc_assert (ext = hend);
       m \<leftarrow> slab_set_flags last SLAB_ALLOC_BIT m;
       m \<leftarrow> store64 m (h + heap_heap_end) (slab_plus hend rem);
       m \<leftarrow> heap_set_flags h LAST_SLAB_ALLOC m;
       Some (last, m)
     } else do {
       let (ext, m) = sbrk (n_slabs * SLAB_SIZE) m;
       hend \<leftarrow> heap_end h m;
       _ \<leftarrow> malloc_assert (ext = hend);
       m \<leftarrow> store8 m (hend + slab_flags) (SLAB_ALLOC_BIT OR SLAB_PREV_ALLOC_BIT);
       m \<leftarrow> store64 m (h + heap_heap_end) (slab_plus hend n_slabs);
       m \<leftarrow> heap_set_flags h LAST_SLAB_ALLOC m;
       Some (hend, m)
     }
   }"

definition int_alloc_slab :: "sbrk_fn \<Rightarrow> u64 \<Rightarrow> u64 \<Rightarrow> memory \<Rightarrow> (u64 \<times> memory) option" where
  "int_alloc_slab sbrk h n_slabs m = do {
     (found, m) \<leftarrow> slab_find h n_slabs m;
     case found of
       Some s \<Rightarrow> Some (s, m)
     | None \<Rightarrow> slab_extend sbrk h n_slabs m
   }"

subsection \<open>Giving slabs back\<close>

text \<open>
  Both free functions look at the slab after the freed region in the same way; the
  result is the grown size and the end of the merged region. \<open>cleared\<close> is the mask the
  heap's flags are combined with (the two functions write it differently).
\<close>

definition merge_next :: "u32 \<Rightarrow> u64 \<Rightarrow> u64 \<Rightarrow> u64 \<Rightarrow> memory \<Rightarrow> (u64 \<times> u64 \<times> memory) option" where
  "merge_next cleared h next n_slabs m = do {
     hend \<leftarrow> heap_end h m;
     if next = hend then do {
       m \<leftarrow> heap_and_flags h cleared m;
       Some (n_slabs, next, m)
     } else do {
       free \<leftarrow> slab_is_free next m;
       if free then do {
         m \<leftarrow> slab_unlink next m;
         next_n_slabs \<leftarrow> load64 m (next + slab_num_slabs);
         Some (n_slabs + next_n_slabs, slab_plus next next_n_slabs, m)
       } else do {
         m \<leftarrow> slab_clear_flags next SLAB_PREV_ALLOC_BIT m;
         Some (n_slabs, next, m)
       }
     }
   }"

definition finish_free :: "u64 \<Rightarrow> u64 \<Rightarrow> u8 \<Rightarrow> u64 \<Rightarrow> u64 \<Rightarrow> memory \<Rightarrow> memory option" where
  "finish_free h s flags n_slabs next m = do {
     m \<leftarrow> slab_link h s n_slabs m;
     m \<leftarrow> store8 m (s + slab_flags) flags;
     m \<leftarrow> store64 m (s + slab_num_slabs) n_slabs;
     store64 m (next - 8) n_slabs
   }"

definition int_free_remainder_slab :: "u64 \<Rightarrow> u64 \<Rightarrow> u64 \<Rightarrow> memory \<Rightarrow> memory option" where
  "int_free_remainder_slab h s n_slabs m = do {
     flags \<leftarrow> load8 m (s + slab_flags);
     let next = slab_plus s n_slabs;
     let flags = flags AND NOT SLAB_ALLOC_BIT;
     (n_slabs, next, m) \<leftarrow> merge_next (ucast (NOT (ucast LAST_SLAB_ALLOC) :: u8)) h next n_slabs m;
     finish_free h s flags n_slabs next m
   }"

definition int_free_slab :: "u64 \<Rightarrow> u64 \<Rightarrow> u64 \<Rightarrow> memory \<Rightarrow> memory option" where
  "int_free_slab h s n_slabs m = do {
     flags \<leftarrow> load8 m (s + slab_flags);
     let next = slab_plus s n_slabs;
     (s, flags, n_slabs, m) \<leftarrow>
       (if flags AND SLAB_PREV_ALLOC_BIT = 0 then do {
          prev \<leftarrow> prev_adj_slab s m;
          m \<leftarrow> slab_unlink prev m;
          flags \<leftarrow> load8 m (prev + slab_flags);
          k \<leftarrow> load64 m (prev + slab_num_slabs);
          Some (prev, flags, n_slabs + k, m)
        } else do {
          flags \<leftarrow> load8 m (s + slab_flags);
          Some (s, flags AND NOT SLAB_ALLOC_BIT, n_slabs, m)
        });
     (n_slabs, next, m) \<leftarrow> merge_next (NOT LAST_SLAB_ALLOC) h next n_slabs m;
     finish_free h s flags n_slabs next m
   }"

end
