(* ===== verification/Medium.thy ===== *)
theory Medium
  imports Size_Class Slab_Heap
begin

unbundle bit_operations_syntax

section \<open>Medium and large blocks\<close>

text \<open>
  A large slab (a run of \<^verbatim>\<open>offset\<close> slabs) holds up to eight blocks in its first slab.
  The first word of the slab is a vector of byte offsets in units of 16: byte \<open>i\<close> is the
  start of block \<open>i\<close> (byte 0 is the flags, block 0 always starts at 16), 0 the end of the
  slab. \<^verbatim>\<open>block_alloc\<close> has a bit per block. Free blocks are in the medium bin of their
  size, a NULL-terminated list, with a skiplist over the 224 bins.
\<close>

subsection \<open>Medium bins\<close>

definition get_medium_bin :: "u64 \<Rightarrow> u64 \<Rightarrow> u64" where
  "get_medium_bin h sz = h + (heap_mediumbins + medium_bin_idx sz * 8)"

definition medium_bin_start :: "u64 \<Rightarrow> u64" where
  "medium_bin_start bin = bin - block_next"

definition med_skiplist :: "u64 \<Rightarrow> u8 \<Rightarrow> u64" where \<comment> \<open>\<open>&h->med_skiplist[skip_idx]\<close>\<close>
  "med_skiplist h skip_idx = h + (heap_med_skiplist + ucast skip_idx * 4)"

definition medium_bin_link :: "u64 \<Rightarrow> u64 \<Rightarrow> u64 \<Rightarrow> memory \<Rightarrow> memory option" where
  "medium_bin_link h b sz m = do {
     let list_head = get_medium_bin h sz;
     second \<leftarrow> load64 m list_head;
     m \<leftarrow> store64 m (b + block_next) second;
     m \<leftarrow> store64 m (b + block_prev) (medium_bin_start list_head);
     m \<leftarrow> (if second \<noteq> 0 then store64 m (second + block_prev) b else Some m);
     m \<leftarrow> store64 m list_head b;
     let bin_idx = (ucast ((sz - MIN_MEDIUM_BLOCK_SZ) div MALLOC_ALIGN) :: u32);
     let skip_idx = medium_bin_skiplist_idx bin_idx;
     let bit_idx = medium_bin_skiplist_bit bin_idx;
     w \<leftarrow> load32 m (med_skiplist h skip_idx);
     store32 m (med_skiplist h skip_idx) (w OR shl32 1 (unat bit_idx))
   }"

definition medium_bin_unlink :: "u64 \<Rightarrow> memory \<Rightarrow> memory option" where
  "medium_bin_unlink b m = do {
     next \<leftarrow> load64 m (b + block_next);
     prev \<leftarrow> load64 m (b + block_prev);
     m \<leftarrow> store64 m (prev + block_next) next;
     if next \<noteq> 0 then store64 m (next + block_prev) prev else Some m
   }"

subsection \<open>The offset vector\<close>

definition medium_bin_offsets :: "u64 \<Rightarrow> memory \<Rightarrow> u64 option" where
  "medium_bin_offsets s m = do {
     mem \<leftarrow> load64 m s;
     Some (set_lane 0 (ucast (LARGE_SLAB_HEADER_SIZE div MALLOC_ALIGN) :: u8) mem)
   }"

definition medium_bin_mem_to_offsets :: "u64 \<Rightarrow> u64" where
  "medium_bin_mem_to_offsets mem =
     (LARGE_SLAB_HEADER_SIZE div MALLOC_ALIGN) OR (0xffffffffffffff00 AND mem)"

definition medium_bin_get_offset :: "u64 \<Rightarrow> u32 \<Rightarrow> u64" where
  "medium_bin_get_offset block_offs idx =
     (shr64 block_offs (unat (idx * 8)) AND 0xff) * MALLOC_ALIGN"

definition medium_bin_get_adj_offset :: "u64 \<Rightarrow> u32 \<Rightarrow> u32" where
  "medium_bin_get_adj_offset block_offs idx =
     (let off = medium_bin_get_offset block_offs idx in
      if idx = 8 then ucast SLAB_SIZE
      else ucast (off OR push_bit SLAB_SIZE_SHIFT (of_bool (off = 0))))"

definition medium_bin_block_size :: "u64 \<Rightarrow> u8 \<Rightarrow> memory \<Rightarrow> u64 option" where
  "medium_bin_block_size s idx m = do {
     block_offs \<leftarrow> medium_bin_offsets s m;
     let offset = medium_bin_get_offset block_offs (ucast idx);
     let next_off = (if idx = 7 then 0 else medium_bin_get_offset block_offs (ucast idx + 1));
     if next_off = 0 then do {
       let offset = offset OR push_bit SLAB_SIZE_SHIFT (of_bool (offset = 0));
       block_alloc \<leftarrow> load8 m (s + slab_block_alloc);
       if idx \<noteq> 7 \<and> (ucast block_alloc :: u32) AND shl32 2 (unat idx) \<noteq> 0
       then Some (SLAB_SIZE - offset)
       else do {
         n \<leftarrow> large_slab_get_size s m;
         Some (n * SLAB_SIZE - offset)
       }
     } else Some (next_off - offset)
   }"

text \<open>The MMX intrinsics that compare the eight bytes of two words.\<close>

definition mm_set1_pi8 :: "u8 \<Rightarrow> u64" where
  "mm_set1_pi8 v = fold (\<lambda>i c. set_lane (8 * i) v c) [0..<8] 0"

definition mm_cmpeq_pi8 :: "u64 \<Rightarrow> u64 \<Rightarrow> u64" where
  "mm_cmpeq_pi8 a b = fold (\<lambda>i c. set_lane (8 * i)
      (if (get_lane (8 * i) a :: u8) = get_lane (8 * i) b then 0xff else 0 :: u8) c) [0..<8] 0"

definition medium_bin_find_block_pos :: "u64 \<Rightarrow> u64 \<Rightarrow> memory \<Rightarrow> u32 option" where
  "medium_bin_find_block_pos s b m = do {
     let offset = (ucast ((b - s) div MALLOC_ALIGN) :: u8);
     mem \<leftarrow> medium_bin_offsets s m;
     let si = mm_cmpeq_pi8 mem (mm_set1_pi8 offset);
     _ \<leftarrow> malloc_assert (si \<noteq> 0);
     n \<leftarrow> builtin_ctz si;
     Some (drop_bit 3 (of_nat n))
   }"

text \<open>
  \<^verbatim>\<open>MALLOC_ASSUME(after_idx < 7)\<close> makes a larger index undefined behaviour: \<open>None\<close>.
\<close>

definition keep_mask_after :: "u8 \<Rightarrow> u64" where
  "keep_mask_after after_idx = shl64 0x100 (unat (after_idx * 8)) - 1"

definition medium_bin_push_offset :: "u64 \<Rightarrow> u8 \<Rightarrow> u64 \<Rightarrow> memory \<Rightarrow> memory option" where
  "medium_bin_push_offset s after_idx offset m = do {
     _ \<leftarrow> malloc_assert (after_idx < 7);
     let shift_amt = after_idx * 8;
     mem \<leftarrow> load64 m s;
     let keep_mask = keep_mask_after after_idx;
     let move_mask = NOT keep_mask;
     let new_mem = (mem AND keep_mask) OR shl64 (push_bit (8 - 4) offset) (unat shift_amt)
       OR push_bit 8 (mem AND move_mask);
     store64 m s new_mem
   }"

definition medium_bin_append_offset :: "u64 \<Rightarrow> u8 \<Rightarrow> u64 \<Rightarrow> memory \<Rightarrow> memory option" where
  "medium_bin_append_offset s after_idx offset m = do {
     _ \<leftarrow> malloc_assert (after_idx < 7);
     let shift_amt = after_idx * 8;
     mem \<leftarrow> load64 m s;
     let keep_mask = keep_mask_after after_idx;
     store64 m s ((mem AND keep_mask) OR shl64 (push_bit (8 - 4) offset) (unat shift_amt))
   }"

definition medium_bin_split_block :: "u64 \<Rightarrow> u8 \<Rightarrow> u64 \<Rightarrow> memory \<Rightarrow> memory option" where
  "medium_bin_split_block s after_idx offset m = do {
     m \<leftarrow> medium_bin_push_offset s after_idx offset m;
     block_alloc \<leftarrow> load8 m (s + slab_block_alloc);
     let keep_mask = (ucast (shl32 2 (unat after_idx) - 1) :: u8);
     let block_alloc = (block_alloc AND keep_mask) OR push_bit 1 (block_alloc AND NOT keep_mask);
     store8 m (s + slab_block_alloc) block_alloc
   }"

definition medium_bin_remove_offset :: "u64 \<Rightarrow> u8 \<Rightarrow> memory \<Rightarrow> memory option" where
  "medium_bin_remove_offset s after_idx m = do {
     _ \<leftarrow> malloc_assert (after_idx < 7);
     mem \<leftarrow> load64 m s;
     let keep_mask = keep_mask_after after_idx;
     let move_mask = NOT keep_mask;
     m \<leftarrow> store64 m s ((mem AND keep_mask) OR (drop_bit 8 mem AND move_mask));
     block_alloc \<leftarrow> load8 m (s + slab_block_alloc);
     let bkeep_mask = (ucast (shl32 2 (unat after_idx) - 1) :: u8);
     let block_alloc = (block_alloc AND bkeep_mask) OR (drop_bit 1 block_alloc AND NOT bkeep_mask);
     store8 m (s + slab_block_alloc) block_alloc
   }"

subsection \<open>Freeing a block\<close>

text \<open>
  The part of \<^verbatim>\<open>medium_bin_free\<close> that decides whether the block after \<open>idx\<close> is free
  and, for a large block that hangs over the edge of its first slab, gives the slabs
  after the first one back. The result is \<open>is_next_free\<close> and the remaining \<open>n_slabs\<close>.
\<close>

definition next_alloc_clear :: "u16 \<Rightarrow> u8 \<Rightarrow> bool" where \<comment> \<open>\<open>!(alloc_bits & (4u << idx))\<close>\<close>
  "next_alloc_clear alloc_bits idx \<longleftrightarrow> (ucast alloc_bits :: u32) AND shl32 4 (unat idx) = 0"

definition next_offset_nonzero :: "u64 \<Rightarrow> u8 \<Rightarrow> bool" where
  "next_offset_nonzero mem idx \<longleftrightarrow> shr64 mem ((unat idx + 1) * 8) AND 0xff \<noteq> 0"

definition medium_free_next ::
  "u64 \<Rightarrow> u64 \<Rightarrow> u8 \<Rightarrow> u64 \<Rightarrow> u16 \<Rightarrow> memory \<Rightarrow> (bool \<times> u64 \<times> memory) option" where
  "medium_free_next h s idx mem alloc_bits m = do {
     let is_next_free = next_alloc_clear alloc_bits idx;
     n_slabs \<leftarrow> large_slab_get_size s m;
     if n_slabs = 1 then Some (is_next_free \<and> next_offset_nonzero mem idx, n_slabs, m)
     else do {
       let offsets_after = shr64 mem (8 * unat idx);
       if offsets_after = 0 \<or> drop_bit 8 offsets_after = 0 \<and> next_alloc_clear alloc_bits idx
       then do {
         m \<leftarrow> large_slab_set_size s 1 m;
         m \<leftarrow> int_free_remainder_slab h (slab_plus s 1) (n_slabs - 1) m;
         m \<leftarrow> slab_set_flags (slab_plus s 1) SLAB_PREV_ALLOC_BIT m;
         Some (False, 1, m)
       } else Some (is_next_free \<and> next_offset_nonzero mem idx, n_slabs, m)
     }
   }"

text \<open>The byte of the offset vector at \<open>i\<close>, in bytes of memory.\<close>

definition offs_at :: "u64 \<Rightarrow> nat \<Rightarrow> u64" where
  "offs_at offs n = (shr64 offs n AND 0xff) * MALLOC_ALIGN"

definition slab_size_if_0 :: "u64 \<Rightarrow> u64" where
  "slab_size_if_0 off = off OR push_bit SLAB_SIZE_SHIFT (of_bool (off = 0))"

text \<open>
  The part that unlinks the free neighbours and finds the bounds of the merged block.
\<close>

definition medium_free_range ::
  "u64 \<Rightarrow> u8 \<Rightarrow> u64 \<Rightarrow> bool \<Rightarrow> bool \<Rightarrow> memory \<Rightarrow> (u64 \<times> u64 \<times> memory) option" where
  "medium_free_range s idx offs is_prev_free is_next_free m = do {
     let i = unat idx;
     (start_offset, m) \<leftarrow>
       (if is_prev_free then do {
          let start_offset = offs_at offs (8 * i - 8);
          m \<leftarrow> medium_bin_unlink (s + start_offset) m;
          Some (start_offset, m)
        } else Some (offs_at offs (8 * i), m));
     (end_offset, m) \<leftarrow>
       (if is_next_free then do {
          let next_offset = (drop_bit 8 (shr64 offs (8 * i)) AND 0xff) * MALLOC_ALIGN;
          m \<leftarrow> medium_bin_unlink (s + next_offset) m;
          Some ((drop_bit 16 (shr64 offs (8 * i)) AND 0xff) * MALLOC_ALIGN, m)
        } else Some ((drop_bit 8 (shr64 offs (8 * i)) AND 0xff) * MALLOC_ALIGN, m));
     Some (slab_size_if_0 start_offset, slab_size_if_0 end_offset, m)
   }"

definition medium_bin_free :: "u64 \<Rightarrow> u64 \<Rightarrow> u8 \<Rightarrow> memory \<Rightarrow> memory option" where
  "medium_bin_free h s idx m = do {
     mem \<leftarrow> load64 m s;
     let i = unat idx;
     let keep_mask = shl64 0x100 (8 * i) - 1;
     let move_mask = NOT keep_mask;
     let alloc_keep_mask = (ucast (shl32 2 i - 1) :: u8);
     let alloc_move_mask = NOT alloc_keep_mask;
     let alloc_keep_mask = drop_bit 1 alloc_keep_mask;
     block_alloc \<leftarrow> load8 m (s + slab_block_alloc);
     let alloc_bits = (push_bit 1 (ucast block_alloc) OR 0x201 :: u16);
     let is_prev_free = ((ucast alloc_bits :: u32) AND shl32 1 i = 0);
     let keep_mask = drop_bit (8 * of_bool is_prev_free) keep_mask;
     let alloc_keep_mask = drop_bit (of_bool is_prev_free) alloc_keep_mask;
     (is_next_free, n_slabs, m) \<leftarrow> medium_free_next h s idx mem alloc_bits m;
     let move_mask = push_bit (8 * of_bool is_next_free) move_mask;
     let alloc_move_mask = push_bit (of_bool is_next_free) alloc_move_mask;
     let shift_amt = of_bool is_prev_free + of_bool is_next_free;
     let offs = medium_bin_mem_to_offsets mem;
     (start_offset, end_offset, m) \<leftarrow> medium_free_range s idx offs is_prev_free is_next_free m;
     let new_size = end_offset - start_offset;
     (start_offset, keep_mask, insert_free_block, m) \<leftarrow>
       (if new_size < MIN_MEDIUM_BLOCK_SZ then do {
          _ \<leftarrow> malloc_assert (idx > 0);
          let start_offset = offs_at offs (8 * i - 8);
          let keep_mask = drop_bit 8 keep_mask;
          if drop_bit (i - 1) block_alloc AND 1 = 0 then do {
            m \<leftarrow> medium_bin_unlink (s + start_offset) m;
            Some (start_offset, keep_mask, True, m)
          } else Some (start_offset, keep_mask, False, m)
        } else Some (start_offset, keep_mask, True, m));
     let mem = (mem AND keep_mask) OR drop_bit (8 * shift_amt) (mem AND move_mask);
     let block_alloc = (block_alloc AND alloc_keep_mask)
       OR drop_bit shift_amt (block_alloc AND alloc_move_mask);
     if block_alloc = 0 then int_free_slab h s n_slabs m
     else do {
       m \<leftarrow> (if insert_free_block
             then medium_bin_link h (s + start_offset) (end_offset - start_offset) m
             else Some m);
       m \<leftarrow> store64 m s mem;
       store8 m (s + slab_block_alloc) block_alloc
     }
   }"

subsection \<open>Finding a free medium block\<close>

text \<open>What is done with the block found: it is split, or taken as a whole.\<close>

definition take_medium_block :: "u64 \<Rightarrow> u64 \<Rightarrow> u64 \<Rightarrow> u64 \<Rightarrow> memory \<Rightarrow> memory option" where
  "take_medium_block h blk bin_idx sz m = do {
     m \<leftarrow> medium_bin_unlink blk m;
     let s = block_get_slab blk;
     pos \<leftarrow> medium_bin_find_block_pos s blk m;
     let block_pos = (ucast pos :: u8);
     let block_sz = medium_bin_idx_size bin_idx;
     let remainder = block_sz - sz;
     if MIN_MEDIUM_BLOCK_SZ \<le> remainder then do {
       let rem_blk = blk + sz;
       m \<leftarrow> medium_bin_link h rem_blk remainder m;
       m \<leftarrow> medium_bin_push_offset s block_pos (blk - s + sz) m;
       block_alloc \<leftarrow> load8 m (s + slab_block_alloc);
       let keep_mask = (ucast (shl32 1 (unat block_pos) - 1) :: u8);
       store8 m (s + slab_block_alloc) ((block_alloc AND keep_mask)
          OR ucast (shl32 1 (unat block_pos)) OR push_bit 1 (block_alloc AND NOT keep_mask))
     } else do {
       block_alloc \<leftarrow> load8 m (s + slab_block_alloc);
       store8 m (s + slab_block_alloc) (block_alloc OR ucast (shl32 1 (unat block_pos)))
     }
   }"

partial_function (option) medium_skip_search ::
  "u64 \<Rightarrow> u64 \<Rightarrow> u8 \<Rightarrow> u32 \<Rightarrow> u32 \<Rightarrow> u32 \<Rightarrow> memory \<Rightarrow> (u64 \<times> memory) option" where
  "medium_skip_search h sz skip_idx bin_offset skiplist msk m =
     (if skiplist = 0 then do {
        m \<leftarrow> store32 m (med_skiplist h skip_idx) (msk OR skiplist);
        let skip_idx = skip_idx + 1;
        let bin_offset = bin_offset + 8 * 4;
        if skip_idx = of_nat MEDIUMBINS_SKIPLIST_SZ then Some (0, m)
        else do {
          skiplist \<leftarrow> load32 m (med_skiplist h skip_idx);
          medium_skip_search h sz skip_idx bin_offset skiplist 0 m
        }
      } else do {
        n \<leftarrow> builtin_ctz skiplist;
        let bit_idx = (of_nat n :: u8);
        let bin_idx = (ucast (bin_offset + ucast bit_idx) :: u64);
        let list_head = h + (heap_mediumbins + bin_idx * 8);
        blk \<leftarrow> load64 m list_head;
        if blk \<noteq> 0 then do {
          m \<leftarrow> take_medium_block h blk bin_idx sz m;
          m \<leftarrow> store32 m (med_skiplist h skip_idx) (msk OR skiplist);
          Some (blk, m)
        } else medium_skip_search h sz skip_idx bin_offset (skiplist AND (skiplist - 1)) msk m
      })"

declare medium_skip_search.simps [code]

definition int_find_medium_block :: "u64 \<Rightarrow> u64 \<Rightarrow> memory \<Rightarrow> (u64 \<times> memory) option" where
  "int_find_medium_block h sz m = do {
     let bin_idx = medium_bin_idx sz;
     let skip_idx = medium_bin_skiplist_idx (ucast bin_idx);
     let bit_idx = medium_bin_skiplist_bit (ucast bin_idx);
     let bin_offset = (ucast skip_idx * (8 * 4) :: u32);
     skiplist \<leftarrow> load32 m (med_skiplist h skip_idx);
     let msk = (shl32 1 (unat bit_idx) - 1) AND skiplist;
     medium_skip_search h sz skip_idx bin_offset (skiplist XOR msk) msk m
   }"

subsection \<open>Initialising a large slab\<close>

definition int_slab_init_large_and_alloc ::
  "u64 \<Rightarrow> u64 \<Rightarrow> u64 \<Rightarrow> u64 \<Rightarrow> memory \<Rightarrow> (u64 \<times> memory) option" where
  "int_slab_init_large_and_alloc h s n_slabs sz m = do {
     m \<leftarrow> slab_clear_flags s SLAB_PACKED_BIT m;
     w \<leftarrow> load64 m s;
     let block_offs = w AND 0xff;
     let offset_val = n_slabs;
     _ \<leftarrow> malloc_assert (n_slabs < push_bit (64 - SLAB_SIZE_SHIFT) 1);
     (ptr, block_offs, offset_val, m) \<leftarrow>
       (if n_slabs = 1 then do {
          _ \<leftarrow> malloc_assert (sz \<le> MAX_MEDIUM_BLOCK_SZ);
          let free_offset = sz + LARGE_SLAB_HEADER_SIZE;
          let free_size = SLAB_SIZE - free_offset;
          (block_offs, m) \<leftarrow>
            (if MIN_MEDIUM_BLOCK_SZ \<le> free_size then do {
               let block_offs = block_offs OR push_bit 8 ((free_offset div MALLOC_ALIGN) AND 0xff);
               m \<leftarrow> medium_bin_link h (s + free_offset) free_size m;
               Some (block_offs, m)
             } else Some (block_offs, m));
          Some (s + LARGE_SLAB_HEADER_SIZE, block_offs, offset_val OR push_bit 56 1, m)
        } else do {
          _ \<leftarrow> malloc_assert (MIN_LARGE_BLOCK_SZ \<le> sz);
          let alloc_offset = SLAB_SIZE - (sz AND NOT SLAB_SIZE_MASK);
          let remainder_size = alloc_offset - LARGE_SLAB_HEADER_SIZE;
          if MIN_MEDIUM_BLOCK_SZ \<le> remainder_size then do {
            let rem_blk = s + LARGE_SLAB_HEADER_SIZE;
            m \<leftarrow> medium_bin_link h rem_blk remainder_size m;
            Some (s + alloc_offset, block_offs OR push_bit (8 - 4) (alloc_offset AND 0xff0),
              offset_val OR push_bit 56 2, m)
          } else
            Some (s + LARGE_SLAB_HEADER_SIZE, block_offs, offset_val OR push_bit 56 1, m)
        });
     m \<leftarrow> store64 m s block_offs;
     m \<leftarrow> store64 m (s + slab_offset) offset_val;
     Some (ptr, m)
   }"

definition int_large_block_free :: "u64 \<Rightarrow> u64 \<Rightarrow> u64 \<Rightarrow> memory \<Rightarrow> memory option" where
  "int_large_block_free h s ptr m = do {
     blk_idx \<leftarrow> medium_bin_find_block_pos s ptr m;
     medium_bin_free h s (ucast blk_idx) m
   }"

subsection \<open>A large block in the eighth slot\<close>

text \<open>
  The bit of \<^verbatim>\<open>alloc_bits\<close> that stands for the block after the eighth is always set, to
  keep the code from coalescing past the vector. The test for a large block that hangs
  over the end of the first slab uses the same bit: when such a block is the eighth of its
  slab, its free gives none of the slabs after the first back, and the slab keeps its size.
\<close>

lemma eighth_large_block_kept:
  fixes block_alloc :: u8
  assumes "large_slab_get_size s m = Some n" "n \<noteq> 1" "drop_bit 56 mem \<noteq> 0"
  shows "medium_free_next h s 7 mem (push_bit 1 (ucast block_alloc) OR 0x201) m = Some (False, n, m)"
proof -
  have bit9: "\<not> next_alloc_clear (push_bit 1 (ucast block_alloc) OR 0x201) 7"
  proof
    assume "next_alloc_clear (push_bit 1 (ucast block_alloc) OR 0x201) 7"
    then have "bit ((ucast (push_bit 1 (ucast block_alloc) OR 0x201 :: u16) :: u32) AND shl32 4 7) 9 = False"
      by (simp add: next_alloc_clear_def)
    then show False
      by (simp add: bit_simps shl32_def)
  qed
  have "shr64 mem (8 * unat (7::u8)) \<noteq> 0" using assms(3) by (simp add: shr64_def)
  then show ?thesis
    using assms bit9 by (simp add: medium_free_next_def)
qed

end
