(* ===== verification/Packed.thy ===== *)
theory Packed
  imports Size_Class Slab_Heap
begin

unbundle bit_operations_syntax

section \<open>Packed slabs: tiny blocks and the small bins\<close>

text \<open>
  A packed slab holds blocks of one tiny size class and a bitvector of the free ones:
  two levels for the classes 16, 32 and 48 (\<^verbatim>\<open>ps_f1\<close> says which 16-bit words of
  \<^verbatim>\<open>ps_f2\<close> are not zero), one word \<^verbatim>\<open>pl_f\<close> for the larger classes. A slab with a free
  block is in the small bin of its class, a NULL-terminated list.
\<close>

subsection \<open>Fields of a packed slab\<close>

definition packed_slab_sz_class :: "u64 \<Rightarrow> memory \<Rightarrow> u8 option" where
  "packed_slab_sz_class s m = load8 m (s + slab_sz_class)"

definition packed_slab_block_size :: "u64 \<Rightarrow> memory \<Rightarrow> u32 option" where
  "packed_slab_block_size s m = do {
     sz_class \<leftarrow> load8 m (s + slab_sz_class);
     Some (ucast MALLOC_ALIGN + ucast sz_class * ucast MALLOC_ALIGN)
   }"

definition packed_slab_is_empty :: "u64 \<Rightarrow> memory \<Rightarrow> bool option" where
  "packed_slab_is_empty s m = do {
     alloc_cnt \<leftarrow> load16 m (s + slab_alloc_cnt);
     Some (alloc_cnt = 0)
   }"

definition packed_slab_2lvl_is_full :: "u64 \<Rightarrow> memory \<Rightarrow> bool option" where
  "packed_slab_2lvl_is_full s m = do {
     ps_f1 \<leftarrow> load16 m (s + slab_ps_f1);
     Some (ps_f1 = 0)
   }"

definition packed_slab_is_full :: "u64 \<Rightarrow> memory \<Rightarrow> bool option" where
  "packed_slab_is_full s m = do {
     pl_f \<leftarrow> load64 m (s + slab_pl_f);
     Some (pl_f = 0)
   }"

definition ps_f2_word :: "u64 \<Rightarrow> u32 \<Rightarrow> u64" where \<comment> \<open>\<open>&s->ps_f2[i]\<close>\<close>
  "ps_f2_word s i = s + (slab_ps_f2 + ucast i * 2)"

subsection \<open>Block addresses\<close>

text \<open>
  The two-level functions come in one copy per class in C, produced by a macro or by
  hand; here \<open>header\<close> and \<open>n\<close> are the header and block size of the class.
\<close>

definition tiny_bitv_index_n :: "u64 \<Rightarrow> u32 \<Rightarrow> u64 \<Rightarrow> u64 \<Rightarrow> u8" where
  "tiny_bitv_index_n header n s ptr =
     (let offset = (ucast (ptr - s) :: u32) in ucast ((offset - ucast header) div n))"

definition tiny_block_ptr_n :: "u64 \<Rightarrow> u32 \<Rightarrow> u64 \<Rightarrow> u8 \<Rightarrow> u64" where
  "tiny_block_ptr_n header n s idx = s + header + ucast (ucast idx * n)"

definition tiny_bitv_index :: "u64 \<Rightarrow> u64 \<Rightarrow> memory \<Rightarrow> u8 option" where
  "tiny_bitv_index s ptr m = do {
     let offset = (ucast (ptr - s) :: u32);
     sz \<leftarrow> packed_slab_block_size s m;
     Some (ucast (offset div sz))
   }"

definition tiny_block_ptr :: "u64 \<Rightarrow> u32 \<Rightarrow> u8 \<Rightarrow> u64" where
  "tiny_block_ptr s sz idx = s + PACKED_SLAB_HEADER_SIZE + ucast (ucast idx * sz)"

subsection \<open>Small bins\<close>

definition small_bin :: "u64 \<Rightarrow> u8 \<Rightarrow> u64" where \<comment> \<open>\<open>&h->smallbins[bin_idx]\<close>\<close>
  "small_bin h bin_idx = h + (heap_smallbins + ucast bin_idx * 8)"

definition small_bin_start :: "u64 \<Rightarrow> u64" where
  "small_bin_start bin = bin - slab_next_p"

definition raw_small_bin_link :: "u64 \<Rightarrow> u64 \<Rightarrow> memory \<Rightarrow> memory option" where
  "raw_small_bin_link bin s m = do {
     next_p \<leftarrow> load64 m bin;
     let prev_p = small_bin_start bin;
     m \<leftarrow> store64 m (s + slab_prev_p) prev_p;
     m \<leftarrow> store64 m (s + slab_next_p) next_p;
     m \<leftarrow> store64 m bin s;
     if next_p \<noteq> 0 then store64 m (next_p + slab_prev_p) s else Some m
   }"

definition small_bin_link :: "u64 \<Rightarrow> u64 \<Rightarrow> u32 \<Rightarrow> memory \<Rightarrow> memory option" where
  "small_bin_link h s sz m = do {
     let bin_idx = packed_bin_idx sz;
     raw_small_bin_link (small_bin h bin_idx) s m
   }"

definition small_bin_unlink :: "u64 \<Rightarrow> memory \<Rightarrow> memory option" where
  "small_bin_unlink s m = do {
     next_p \<leftarrow> load64 m (s + slab_next_p);
     prev_p \<leftarrow> load64 m (s + slab_prev_p);
     m \<leftarrow> store64 m (prev_p + slab_next_p) next_p;
     if next_p \<noteq> 0 then store64 m (next_p + slab_prev_p) prev_p else Some m
   }"

subsection \<open>Allocating a block of a packed slab\<close>

text \<open>\<^verbatim>\<open>__DEFINE_PACKED_ALLOC_N\<close>.\<close>

definition packed_alloc_n :: "u64 \<Rightarrow> u32 \<Rightarrow> u64 \<Rightarrow> memory \<Rightarrow> (u64 \<times> memory) option" where
  "packed_alloc_n header n s m = do {
     l1_bitv \<leftarrow> load16 m (s + slab_ps_f1);
     l1_idx \<leftarrow> builtin_ctz l1_bitv;
     l2_bitv \<leftarrow> load16 m (ps_f2_word s (of_nat l1_idx));
     l2_idx \<leftarrow> builtin_ctz l2_bitv;
     let idx = (of_nat l1_idx * 16 + of_nat l2_idx :: u32);
     let l2_bitv = l2_bitv XOR push_bit l2_idx 1;
     let l1_bitv = l1_bitv XOR push_bit l1_idx (of_bool (l2_bitv = 0));
     alloc_cnt \<leftarrow> load16 m (s + slab_alloc_cnt);
     m \<leftarrow> store16 m (s + slab_alloc_cnt) (alloc_cnt + 1);
     m \<leftarrow> store16 m (ps_f2_word s (of_nat l1_idx)) l2_bitv;
     m \<leftarrow> store16 m (s + slab_ps_f1) l1_bitv;
     let offset = idx * n + ucast header;
     m \<leftarrow> (if l1_bitv = 0 then small_bin_unlink s m else Some m);
     Some (s + ucast offset, m)
   }"

definition packed_alloc_16 :: "u64 \<Rightarrow> memory \<Rightarrow> (u64 \<times> memory) option" where
  "packed_alloc_16 = packed_alloc_n PACKED_SLAB_16_HEADER_SIZE 16"
definition packed_alloc_32 :: "u64 \<Rightarrow> memory \<Rightarrow> (u64 \<times> memory) option" where
  "packed_alloc_32 = packed_alloc_n PACKED_SLAB_32_HEADER_SIZE 32"
definition packed_alloc_48 :: "u64 \<Rightarrow> memory \<Rightarrow> (u64 \<times> memory) option" where
  "packed_alloc_48 = packed_alloc_n PACKED_SLAB_48_HEADER_SIZE 48"

definition packed_alloc :: "u64 \<Rightarrow> u32 \<Rightarrow> memory \<Rightarrow> (u64 \<times> memory) option" where
  "packed_alloc s sz m = do {
     bitv \<leftarrow> load64 m (s + slab_pl_f);
     idx \<leftarrow> builtin_ctz bitv;
     let bitv = bitv XOR push_bit idx 1;
     m \<leftarrow> (if bitv = 0 then small_bin_unlink s m else Some m);
     alloc_cnt \<leftarrow> load16 m (s + slab_alloc_cnt);
     m \<leftarrow> store16 m (s + slab_alloc_cnt) (alloc_cnt + 1);
     m \<leftarrow> store64 m (s + slab_pl_f) bitv;
     let offset = (of_nat idx * sz + ucast PACKED_SLAB_HEADER_SIZE :: u32);
     Some (s + ucast offset, m)
   }"

subsection \<open>Freeing a block of a packed slab\<close>

text \<open>\<^verbatim>\<open>__DEFINE_PACKED_FREE_N\<close>.\<close>

definition packed_free_n :: "u64 \<Rightarrow> u32 \<Rightarrow> u64 \<Rightarrow> u64 \<Rightarrow> u64 \<Rightarrow> memory \<Rightarrow> memory option" where
  "packed_free_n header n h s ptr m = do {
     let idx = (ucast ((ptr - s - header) div ucast n) :: u32);
     let l1_idx = drop_bit 4 idx;
     let l2_idx = idx AND 0xf;
     l1_bitv \<leftarrow> load16 m (s + slab_ps_f1);
     l2_bitv \<leftarrow> load16 m (ps_f2_word s l1_idx);
     alloc_cnt \<leftarrow> load16 m (s + slab_alloc_cnt);
     let alloc_cnt = alloc_cnt - 1;
     m \<leftarrow> (if l1_bitv = 0 then small_bin_link h s n m else Some m);
     let l1_bitv = l1_bitv OR ucast (shl32 1 (unat l1_idx));
     let l2_bitv = l2_bitv OR ucast (shl32 1 (unat l2_idx));
     m \<leftarrow> store16 m (s + slab_alloc_cnt) alloc_cnt;
     m \<leftarrow> store16 m (ps_f2_word s l1_idx) l2_bitv;
     m \<leftarrow> store16 m (s + slab_ps_f1) l1_bitv;
     if alloc_cnt = 0 then do {
       m \<leftarrow> small_bin_unlink s m;
       int_free_slab h s 1 m
     } else Some m
   }"

definition packed_free_16 :: "u64 \<Rightarrow> u64 \<Rightarrow> u64 \<Rightarrow> memory \<Rightarrow> memory option" where
  "packed_free_16 = packed_free_n PACKED_SLAB_16_HEADER_SIZE 16"
definition packed_free_32 :: "u64 \<Rightarrow> u64 \<Rightarrow> u64 \<Rightarrow> memory \<Rightarrow> memory option" where
  "packed_free_32 = packed_free_n PACKED_SLAB_32_HEADER_SIZE 32"
definition packed_free_48 :: "u64 \<Rightarrow> u64 \<Rightarrow> u64 \<Rightarrow> memory \<Rightarrow> memory option" where
  "packed_free_48 = packed_free_n PACKED_SLAB_48_HEADER_SIZE 48"

definition packed_free :: "u64 \<Rightarrow> u64 \<Rightarrow> u64 \<Rightarrow> u8 \<Rightarrow> memory \<Rightarrow> memory option" where
  "packed_free h s ptr sz_class m = do {
     let sz = sz_class_to_size sz_class;
     let idx = (ucast ((ptr - s - PACKED_SLAB_HEADER_SIZE) div ucast sz) :: u32);
     alloc_cnt \<leftarrow> load16 m (s + slab_alloc_cnt);
     let alloc_cnt = alloc_cnt - 1;
     bitv \<leftarrow> load64 m (s + slab_pl_f);
     m \<leftarrow> (if bitv = 0 then small_bin_link h s sz m else Some m);
     let bitv = bitv OR shl64 1 (unat idx);
     m \<leftarrow> store16 m (s + slab_alloc_cnt) alloc_cnt;
     m \<leftarrow> store64 m (s + slab_pl_f) bitv;
     if alloc_cnt = 0 then do {
       m \<leftarrow> small_bin_unlink s m;
       int_free_slab h s 1 m
     } else Some m
   }"

subsection \<open>Initialising a packed slab\<close>

text \<open>The second-level words of the three small classes, by \<^verbatim>\<open>size\<close>.\<close>

definition init_lvl2 :: "u64 \<Rightarrow> u64 \<Rightarrow> memory \<Rightarrow> (u64 \<times> memory) option" where
  "init_lvl2 s sz m =
     (if sz = 16 then do {
        m \<leftarrow> store64 m (s + slab_ps_f2) 0xfffffffffffffffe;
        m \<leftarrow> store64 m (s + (slab_ps_f2 + 8)) 0xffffffffffffffff;
        m \<leftarrow> store64 m (s + (slab_ps_f2 + 16)) 0xffffffffffffffff;
        m \<leftarrow> store64 m (s + (slab_ps_f2 + 24))
               (shl64 1 (unat (64 - CEIL_DIV PACKED_SLAB_16_HEADER_SIZE 16)) - 1);
        Some (tiny_block_ptr_n PACKED_SLAB_16_HEADER_SIZE 16 s 0, m)
      } else if sz = 32 then do {
        m \<leftarrow> store64 m (s + slab_ps_f2) 0xfffffffffffffffe;
        m \<leftarrow> store64 m (s + (slab_ps_f2 + 8))
               (shl64 1 (unat (64 - CEIL_DIV PACKED_SLAB_32_HEADER_SIZE 32)) - 1);
        Some (tiny_block_ptr_n PACKED_SLAB_32_HEADER_SIZE 32 s 0, m)
      } else if sz = 48 then do {
        m \<leftarrow> store64 m (s + slab_ps_f2) 0xfffffffffffffffe;
        m \<leftarrow> store64 m (s + (slab_ps_f2 + 8))
               (shl64 1 (unat ((SLAB_SIZE - PACKED_SLAB_48_HEADER_SIZE) div 48 - 64)) - 1);
        Some (tiny_block_ptr_n PACKED_SLAB_48_HEADER_SIZE 48 s 0, m)
      } else None)" \<comment> \<open>\<^verbatim>\<open>__builtin_unreachable\<close>\<close>

definition f1_init_bitv :: "u16 list" where
  "f1_init_bitv = [0xffff, 0x00ff, 0x003f]"

definition int_slab_init_packed_and_alloc ::
  "u64 \<Rightarrow> u64 \<Rightarrow> u64 \<Rightarrow> memory \<Rightarrow> (u64 \<times> memory) option" where
  "int_slab_init_packed_and_alloc h s sz m = do {
     m \<leftarrow> slab_set_flags s SLAB_PACKED_BIT m;
     m \<leftarrow> store8 m (s + slab_sz_class) (size_to_sz_class (ucast sz));
     m \<leftarrow> store16 m (s + slab_alloc_cnt) 1;
     (ptr, m) \<leftarrow>
       (if sz \<le> PACKED_SLAB_2LVL_BITV_THRESH then do {
          let i = unat (sz div MALLOC_ALIGN - 1);
          if i < length f1_init_bitv then do {
            m \<leftarrow> store16 m (s + slab_ps_f1) (f1_init_bitv ! i);
            init_lvl2 s sz m
          } else None
        } else do {
          let n_elements = packed_slab_n_blocks (ucast sz);
          m \<leftarrow> store64 m (s + slab_pl_f) (shl64 1 (unat n_elements) - 2);
          Some (tiny_block_ptr s (ucast sz) 0, m)
        });
     m \<leftarrow> small_bin_link h s (ucast sz) m;
     Some (ptr, m)
   }"

subsection \<open>Finding and freeing tiny blocks\<close>

text \<open>A result pointer of 0 is NULL: no slab of the class has a free block.\<close>

definition int_find_tiny_block :: "u64 \<Rightarrow> u64 \<Rightarrow> memory \<Rightarrow> (u64 \<times> memory) option" where
  "int_find_tiny_block h sz m = do {
     _ \<leftarrow> malloc_assert (sz \<le> MAX_TINY_BLOCK_SZ);
     let bin_idx = packed_bin_idx (ucast sz);
     s \<leftarrow> load64 m (small_bin h bin_idx);
     if s \<noteq> 0 then
       if sz = 16 then packed_alloc_16 s m
       else if sz = 32 then packed_alloc_32 s m
       else if sz = 48 then packed_alloc_48 s m
       else packed_alloc s (ucast sz) m
     else Some (0, m)
   }"

definition packed_free_switch :: "u64 \<Rightarrow> u64 \<Rightarrow> u64 \<Rightarrow> u8 \<Rightarrow> memory \<Rightarrow> memory option" where
  "packed_free_switch h s ptr sz_class m =
     (if sz_class = 0 then packed_free_16 h s ptr m
      else if sz_class = 1 then packed_free_32 h s ptr m
      else if sz_class = 2 then packed_free_48 h s ptr m
      else packed_free h s ptr sz_class m)"

definition int_tiny_block_free :: "u64 \<Rightarrow> u64 \<Rightarrow> u64 \<Rightarrow> memory \<Rightarrow> memory option" where
  "int_tiny_block_free h s ptr m = do {
     sz_class \<leftarrow> packed_slab_sz_class s m;
     packed_free_switch h s ptr sz_class m
   }"

end
