(* ===== verification/Check_Heap.thy ===== *)
theory Check_Heap
  imports Medium Packed
begin

unbundle bit_operations_syntax

section \<open>\<^verbatim>\<open>mm_checkheap\<close>: the allocator's own consistency check\<close>

text \<open>
  \<^verbatim>\<open>mm_checkheap\<close>, as it is compiled with \<^verbatim>\<open>DEFINE_CHECKS\<close>, walks over all slabs of the
  arena and counts what every bin should hold, then walks over every bin. Each
  \<^verbatim>\<open>MALLOC_ASSERT\<close> is a \<open>malloc_assert\<close>, so \<open>None\<close> is a failed check (or an access
  outside the arena). The check reads the heap and never writes to it. Also the number of
  bytes in use that the debug printer computes, \<^verbatim>\<open>calc_slab_used_mem\<close>.
\<close>

subsection \<open>Loops, counters and population counts\<close>

primrec each :: "('a \<Rightarrow> unit option) \<Rightarrow> 'a list \<Rightarrow> unit option" where
  "each f [] = Some ()"
| "each f (x # xs) = do { _ \<leftarrow> f x; each f xs }"

lemma each_Some: "(\<And>x. x \<in> set xs \<Longrightarrow> f x = Some ()) \<Longrightarrow> each f xs = Some ()"
  by (induction xs) auto

record counts =
  free_slab_cnts :: "u32 list"
  smallbin_cnts :: "u32 list"
  mediumbin_cnts :: "u32 list"
  last_slab_is_alloc :: bool

definition init_counts :: counts where
  "init_counts = \<lparr>free_slab_cnts = replicate NUM_SLAB_BINS 0, smallbin_cnts = replicate NUM_SMALLBINS 0,
     mediumbin_cnts = replicate NUM_MEDIUMBINS 0, last_slab_is_alloc = True\<rparr>"

definition count_up :: "nat \<Rightarrow> u32 list \<Rightarrow> u32 list option" where \<comment> \<open>\<open>cnts[i]++\<close>\<close>
  "count_up i cnts = (if i < length cnts then Some (cnts[i := cnts ! i + 1]) else None)"

definition popcount64 :: "u64 \<Rightarrow> u32" where \<comment> \<open>\<^verbatim>\<open>__builtin_popcountl\<close>\<close>
  "popcount64 w = of_nat (length (filter (bit w) [0..<64]))"

text \<open>The sum of the population counts of the \<open>n\<close> 64-bit words from \<^verbatim>\<open>s->ps_f2\<close> on.\<close>

primrec count_words :: "u64 \<Rightarrow> nat \<Rightarrow> memory \<Rightarrow> u32 option" where
  "count_words s 0 m = Some 0"
| "count_words s (Suc n) m = do {
     cnt \<leftarrow> count_words s n m;
     bitv \<leftarrow> load64 m (s + (slab_ps_f2 + of_nat n * 8));
     Some (cnt + popcount64 bitv)
   }"

subsection \<open>One slab\<close>

text \<open>What every slab's successor says of it: \<open>next_adj == h->heap_end || (flag is set) = b\<close>.\<close>

definition check_next_flag :: "u64 \<Rightarrow> u64 \<Rightarrow> bool \<Rightarrow> memory \<Rightarrow> unit option" where
  "check_next_flag h s b m = do {
     next_adj \<leftarrow> next_adj_slab s m;
     e \<leftarrow> load64 m (h + heap_heap_end);
     if next_adj = e then Some ()
     else do {
       flags \<leftarrow> load8 m (next_adj + slab_flags);
       malloc_assert ((flags AND SLAB_PREV_ALLOC_BIT \<noteq> 0) = b)
     }
   }"

definition check_free_slab :: "u64 \<Rightarrow> u64 \<Rightarrow> counts \<Rightarrow> memory \<Rightarrow> counts option" where
  "check_free_slab h s c m = do {
     sz \<leftarrow> slab_get_size s m;
     _ \<leftarrow> malloc_assert (0 < sz);
     cnts \<leftarrow> count_up (unat (slab_bin_idx sz)) (free_slab_cnts c);
     num_slabs \<leftarrow> load64 m (s + slab_num_slabs);
     footer \<leftarrow> load64 m (slab_plus s num_slabs - 8);
     _ \<leftarrow> malloc_assert (num_slabs = footer);
     flags \<leftarrow> load8 m (s + slab_flags);
     _ \<leftarrow> malloc_assert (flags AND SLAB_PREV_ALLOC_BIT \<noteq> 0);
     _ \<leftarrow> check_next_flag h s False m;
     Some (c\<lparr>free_slab_cnts := cnts, last_slab_is_alloc := False\<rparr>)
   }"

text \<open>The first level of the bitvector is clear exactly where the second is 0.\<close>

definition check_levels :: "u64 \<Rightarrow> u64 \<Rightarrow> memory \<Rightarrow> unit option" where
  "check_levels s len m = each (\<lambda>i. do {
      ps_f1 \<leftarrow> load16 m (s + slab_ps_f1);
      ps_f2 \<leftarrow> load16 m (ps_f2_word s (of_nat i));
      malloc_assert ((drop_bit i ps_f1 AND 1 = 1) \<noteq> (ps_f2 = 0))
    }) [0..<unat (CEIL_DIV len 2)]"

definition check_2lvl :: "u64 \<Rightarrow> u64 \<Rightarrow> u64 \<Rightarrow> memory \<Rightarrow> (u32 \<times> bool) option" where
  "check_2lvl s len bits m = do {
     _ \<leftarrow> check_levels s len m;
     cnt \<leftarrow> count_words s (unat (CEIL_DIV len 8)) m;
     ps_f1 \<leftarrow> load16 m (s + slab_ps_f1);
     Some (ucast bits - cnt, ps_f1 \<noteq> 0)
   }"

text \<open>The number of allocated blocks of a packed slab, and whether it has a free one.\<close>

definition check_bitvector :: "u64 \<Rightarrow> u32 \<Rightarrow> memory \<Rightarrow> (u32 \<times> bool) option" where
  "check_bitvector s block_sz m =
     (if block_sz = 16 then check_2lvl s PACKED_SLAB_16_BITV_LEN PACKED_SLAB_16_BITV_BITS m
      else if block_sz = 32 then check_2lvl s PACKED_SLAB_32_BITV_LEN PACKED_SLAB_32_BITV_BITS m
      else if block_sz = 48 then do {
        (cnt, has_free_space) \<leftarrow> check_2lvl s PACKED_SLAB_48_BITV_LEN PACKED_SLAB_48_BITV_BITS m;
        w \<leftarrow> load64 m (s + (slab_ps_f2 + 8));
        _ \<leftarrow> malloc_assert (w AND NOT (shl64 1 (unat ((SLAB_SIZE - PACKED_SLAB_48_HEADER_SIZE) div 48 - 64)) - 1) = 0);
        Some (cnt, has_free_space)
      } else do {
        let n_blocks = packed_slab_n_blocks block_sz;
        let msk = NOT (shl64 1 (unat n_blocks) - 1);
        pl_f \<leftarrow> load64 m (s + slab_pl_f);
        _ \<leftarrow> malloc_assert (pl_f AND msk = 0);
        Some (n_blocks - popcount64 pl_f, pl_f \<noteq> 0)
      })"

definition check_packed_slab :: "u64 \<Rightarrow> u64 \<Rightarrow> counts \<Rightarrow> memory \<Rightarrow> counts option" where
  "check_packed_slab h s c m = do {
     block_sz \<leftarrow> packed_slab_block_size s m;
     _ \<leftarrow> check_next_flag h s True m;
     (cnt, has_free_space) \<leftarrow> check_bitvector s block_sz m;
     alloc_cnt \<leftarrow> load16 m (s + slab_alloc_cnt);
     _ \<leftarrow> malloc_assert (cnt = ucast alloc_cnt);
     cnts \<leftarrow> (if has_free_space then count_up (unat (packed_bin_idx block_sz)) (smallbin_cnts c)
              else Some (smallbin_cnts c));
     Some (c\<lparr>smallbin_cnts := cnts, last_slab_is_alloc := True\<rparr>)
   }"

text \<open>Large slabs: \<open>s->block_offs[i]\<close> and the start of block \<open>i\<close>.\<close>

definition block_off :: "u64 \<Rightarrow> nat \<Rightarrow> memory \<Rightarrow> u8 option" where
  "block_off s i m = (if i < 7 then load8 m (s + (slab_block_offs + of_nat i)) else None)"

definition block_start :: "u64 \<Rightarrow> nat \<Rightarrow> memory \<Rightarrow> u32 option" where
  "block_start s i m =
     (if i = 0 then Some (ucast LARGE_SLAB_HEADER_SIZE)
      else do { off \<leftarrow> block_off s (i - 1) m; Some (ucast off * ucast MALLOC_ALIGN) })"

definition u8_bit :: "u8 \<Rightarrow> nat \<Rightarrow> bool" where \<comment> \<open>\<open>(v >> i) & 1\<close>\<close>
  "u8_bit v i \<longleftrightarrow> drop_bit i v AND 1 = 1"

text \<open>The block that ends the offset vector: its slot is 0, or it is the eighth.\<close>

definition check_last_block :: "u64 \<Rightarrow> nat \<Rightarrow> u32 list \<Rightarrow> memory \<Rightarrow> u32 list option" where
  "check_last_block s idx cnts m = do {
     n_slabs \<leftarrow> large_slab_get_size s m;
     block_alloc \<leftarrow> load8 m (s + slab_block_alloc);
     _ \<leftarrow> malloc_assert (1 < n_slabs \<or> idx = 7 \<or> \<not> u8_bit block_alloc (idx + 1));
     _ \<leftarrow> malloc_assert (n_slabs = 1 \<or> u8_bit (block_alloc OR drop_bit 1 block_alloc) idx);
     cnts \<leftarrow> (if \<not> u8_bit block_alloc idx then do {
         offset \<leftarrow> block_start s idx m;
         if n_slabs = 1 \<or> (ucast block_alloc :: u32) AND shl32 2 idx \<noteq> 0 then do {
           let block_sz = ucast SLAB_SIZE - offset;
           count_up (unat (ucast (medium_bin_idx (ucast block_sz)) :: u32)) cnts
         } else do {
           _ \<leftarrow> malloc_assert (block_alloc AND ucast (NOT (shl32 2 idx - 1)) = 0);
           Some cnts
         }
       } else Some cnts);
     _ \<leftarrow> each (\<lambda>i. do { off \<leftarrow> block_off s i m; malloc_assert (off = 0) }) [idx + 1..<7];
     Some cnts
   }"

text \<open>
  The loop over \<open>idx\<close>: \<open>k\<close> is the number of iterations left, so the block looked at is
  \<open>8 - k\<close>.
\<close>

primrec check_blocks :: "u64 \<Rightarrow> nat \<Rightarrow> u32 list \<Rightarrow> memory \<Rightarrow> u32 list option" where
  "check_blocks s 0 cnts m = Some cnts"
| "check_blocks s (Suc k) cnts m = do {
     let idx = 7 - k;
     off \<leftarrow> (if idx = 7 then Some 0 else block_off s idx m);
     if off = 0 then check_last_block s idx cnts m
     else do {
       offset \<leftarrow> block_start s idx m;
       let next_off = ucast off * ucast MALLOC_ALIGN;
       _ \<leftarrow> malloc_assert (offset < next_off);
       block_alloc \<leftarrow> load8 m (s + slab_block_alloc);
       let adj_frees = NOT (block_alloc OR drop_bit 1 block_alloc);
       _ \<leftarrow> malloc_assert (\<not> u8_bit adj_frees idx);
       cnts \<leftarrow> (if \<not> u8_bit block_alloc idx
               then count_up (unat (ucast (medium_bin_idx (ucast (next_off - offset))) :: u32)) cnts
               else Some cnts);
       check_blocks s k cnts m
     }
   }"

definition check_large_slab :: "u64 \<Rightarrow> u64 \<Rightarrow> counts \<Rightarrow> memory \<Rightarrow> counts option" where
  "check_large_slab h s c m = do {
     _ \<leftarrow> check_next_flag h s True m;
     cnts \<leftarrow> check_blocks s 8 (mediumbin_cnts c) m;
     Some (c\<lparr>mediumbin_cnts := cnts, last_slab_is_alloc := True\<rparr>)
   }"

definition check_slab :: "u64 \<Rightarrow> u64 \<Rightarrow> counts \<Rightarrow> memory \<Rightarrow> counts option" where
  "check_slab h s c m = do {
     free \<leftarrow> slab_is_free s m;
     packed \<leftarrow> slab_is_packed s m;
     if free then check_free_slab h s c m
     else if packed then check_packed_slab h s c m
     else check_large_slab h s c m
   }"

partial_function (option) check_slabs :: "u64 \<Rightarrow> u64 \<Rightarrow> counts \<Rightarrow> memory \<Rightarrow> counts option" where
  "check_slabs h s c m = do {
     e \<leftarrow> heap_end h m;
     if s = e then Some c
     else do {
       c \<leftarrow> check_slab h s c m;
       s \<leftarrow> next_adj_slab s m;
       check_slabs h s c m
     }
   }"

declare check_slabs.simps [code]

subsection \<open>The bins\<close>

partial_function (option) check_slab_list ::
  "nat \<Rightarrow> u64 \<Rightarrow> u64 \<Rightarrow> u64 \<Rightarrow> u32 \<Rightarrow> memory \<Rightarrow> u32 option" where
  "check_slab_list bin_idx start prev_slab s cnt m =
     (if s = start then Some cnt
      else do {
        let cnt = cnt + 1;
        prev \<leftarrow> load64 m (s + slab_prev);
        _ \<leftarrow> malloc_assert (prev = prev_slab);
        free \<leftarrow> slab_is_free s m;
        _ \<leftarrow> malloc_assert free;
        num_slabs \<leftarrow> load64 m (s + slab_num_slabs);
        _ \<leftarrow> malloc_assert (unat (slab_bin_idx num_slabs) = bin_idx);
        _ \<leftarrow> (if bin_idx = NUM_SLAB_BINS - 1 \<and> prev_slab \<noteq> start then do {
            prev_num \<leftarrow> load64 m (prev_slab + slab_num_slabs);
            malloc_assert (prev_num \<le> num_slabs)
          } else Some ());
        _ \<leftarrow> malloc_assert (cnt < 1000000);
        next \<leftarrow> load64 m (s + slab_next);
        check_slab_list bin_idx start s next cnt m
      })"

declare check_slab_list.simps [code]

definition check_slab_bin :: "u64 \<Rightarrow> counts \<Rightarrow> memory \<Rightarrow> nat \<Rightarrow> unit option" where
  "check_slab_bin h c m bin_idx = do {
     let bin = slab_bin h (of_nat bin_idx);
     let start = slab_bin_start bin;
     hd \<leftarrow> load64 m (bin + bin_head);
     cnt \<leftarrow> check_slab_list bin_idx start start hd 0 m;
     _ \<leftarrow> malloc_assert (free_slab_cnts c ! bin_idx = cnt);
     let s_idx = slab_bin_skiplist_idx (of_nat bin_idx);
     let s_bit = slab_bin_skiplist_bit (of_nat bin_idx);
     w \<leftarrow> load32 m (slab_skiplist h s_idx);
     let marked = (drop_bit (unat s_bit) w AND 1 = 1);
     if bin_idx = NUM_SLAB_BINS - 1 then malloc_assert (\<not> marked)
     else malloc_assert (cnt = 0 \<or> marked)
   }"

definition small_slab_is_full :: "u64 \<Rightarrow> u32 \<Rightarrow> memory \<Rightarrow> bool option" where
  "small_slab_is_full s sz m =
     (if sz = 16 \<or> sz = 32 \<or> sz = 48 then packed_slab_2lvl_is_full s m else packed_slab_is_full s m)"

partial_function (option) check_small_list ::
  "nat \<Rightarrow> u64 \<Rightarrow> u64 \<Rightarrow> u32 \<Rightarrow> memory \<Rightarrow> u32 option" where
  "check_small_list bin_idx prev_slab s cnt m =
     (if s = 0 then Some cnt
      else do {
        let cnt = cnt + 1;
        prev_p \<leftarrow> load64 m (s + slab_prev_p);
        _ \<leftarrow> malloc_assert (prev_p = prev_slab);
        packed \<leftarrow> slab_is_packed s m;
        _ \<leftarrow> malloc_assert packed;
        block_sz \<leftarrow> packed_slab_block_size s m;
        _ \<leftarrow> malloc_assert (unat (packed_bin_idx block_sz) = bin_idx);
        sz_class \<leftarrow> load8 m (s + slab_sz_class);
        empty \<leftarrow> packed_slab_is_empty s m;
        _ \<leftarrow> malloc_assert (\<not> empty);
        full \<leftarrow> small_slab_is_full s (sz_class_to_size sz_class) m;
        _ \<leftarrow> malloc_assert (\<not> full);
        _ \<leftarrow> malloc_assert (cnt < 1000000);
        next_p \<leftarrow> load64 m (s + slab_next_p);
        check_small_list bin_idx s next_p cnt m
      })"

declare check_small_list.simps [code]

definition check_small_bin :: "u64 \<Rightarrow> counts \<Rightarrow> memory \<Rightarrow> nat \<Rightarrow> unit option" where
  "check_small_bin h c m bin_idx = do {
     let bin = small_bin h (of_nat bin_idx);
     s \<leftarrow> load64 m bin;
     cnt \<leftarrow> check_small_list bin_idx (small_bin_start bin) s 0 m;
     malloc_assert (smallbin_cnts c ! bin_idx = cnt)
   }"

partial_function (option) check_medium_list ::
  "nat \<Rightarrow> u64 \<Rightarrow> u64 \<Rightarrow> u32 \<Rightarrow> memory \<Rightarrow> u32 option" where
  "check_medium_list bin_idx prev_b b cnt m =
     (if b = 0 then Some cnt
      else do {
        let cnt = cnt + 1;
        prev \<leftarrow> load64 m (b + block_prev);
        _ \<leftarrow> malloc_assert (prev = prev_b);
        let s = block_get_slab b;
        pos \<leftarrow> medium_bin_find_block_pos s b m;
        sz \<leftarrow> medium_bin_block_size s (ucast pos) m;
        _ \<leftarrow> malloc_assert (unat (medium_bin_idx sz) = bin_idx);
        block_alloc \<leftarrow> load8 m (s + slab_block_alloc);
        _ \<leftarrow> malloc_assert (block_alloc \<noteq> 0);
        _ \<leftarrow> malloc_assert (cnt < 1000000);
        next \<leftarrow> load64 m (b + block_next);
        check_medium_list bin_idx b next cnt m
      })"

declare check_medium_list.simps [code]

definition check_medium_bin :: "u64 \<Rightarrow> counts \<Rightarrow> memory \<Rightarrow> nat \<Rightarrow> unit option" where
  "check_medium_bin h c m bin_idx = do {
     let bin = h + (heap_mediumbins + of_nat bin_idx * 8);
     b \<leftarrow> load64 m bin;
     cnt \<leftarrow> check_medium_list bin_idx (medium_bin_start bin) b 0 m;
     _ \<leftarrow> malloc_assert (mediumbin_cnts c ! bin_idx = cnt);
     let s_idx = medium_bin_skiplist_idx (of_nat bin_idx);
     let s_bit = medium_bin_skiplist_bit (of_nat bin_idx);
     w \<leftarrow> load32 m (med_skiplist h s_idx);
     malloc_assert (cnt = 0 \<or> drop_bit (unat s_bit) w AND 1 = 1)
   }"

subsection \<open>The whole heap\<close>

definition mm_checkheap :: "memory \<Rightarrow> bool option" where
  "mm_checkheap m = do {
     let h = heap_ptr m;
     c \<leftarrow> check_slabs h (heap_start h) init_counts m;
     flags \<leftarrow> load32 m (h + heap_flags);
     _ \<leftarrow> malloc_assert (last_slab_is_alloc c = (flags AND LAST_SLAB_ALLOC \<noteq> 0));
     _ \<leftarrow> each (check_slab_bin h c m) [0..<NUM_SLAB_BINS];
     _ \<leftarrow> each (check_small_bin h c m) [0..<NUM_SMALLBINS];
     _ \<leftarrow> each (check_medium_bin h c m) [0..<NUM_MEDIUMBINS];
     Some True
   }"

subsection \<open>The bytes in use of a slab\<close>

text \<open>The \<open>do ... while\<close> loop over the blocks of a large slab: \<open>k\<close> bounds the iterations left.\<close>

primrec used_blocks :: "u64 \<Rightarrow> u64 \<Rightarrow> nat \<Rightarrow> nat \<Rightarrow> u32 \<Rightarrow> u64 \<Rightarrow> memory \<Rightarrow> (u64 \<times> nat \<times> u32) option" where
  "used_blocks s n_slabs 0 i offset cnt m = Some (cnt, i, offset)"
| "used_blocks s n_slabs (Suc k) i offset cnt m = do {
     off \<leftarrow> load8 m (s + (slab_block_offs + of_nat i));
     let next_off = (ucast off * ucast MALLOC_ALIGN :: u32);
     block_alloc \<leftarrow> load8 m (s + slab_block_alloc);
     let alloc = u8_bit block_alloc i;
     let block_sz =
       (if i = 7 \<or> next_off = 0 then
          if i < 7 \<and> (ucast block_alloc :: u32) AND shl32 2 i \<noteq> 0 then ucast (ucast SLAB_SIZE - offset :: u32)
          else n_slabs * SLAB_SIZE - ucast offset
        else ucast (next_off - offset));
     let cnt = cnt + (if alloc then block_sz else 0);
     let offset = next_off;
     let i = i + 1;
     if i < 8 \<and> offset \<noteq> 0 then used_blocks s n_slabs k i offset cnt m
     else Some (cnt, i, offset)
   }"

definition calc_packed_used :: "u64 \<Rightarrow> u32 \<Rightarrow> memory \<Rightarrow> u32 option" where
  "calc_packed_used s block_sz m =
     (if block_sz = 16 then do {
        cnt \<leftarrow> count_words s (unat (CEIL_DIV PACKED_SLAB_16_BITV_LEN 8)) m;
        Some (ucast PACKED_SLAB_16_BITV_BITS - cnt)
      } else if block_sz = 32 then do {
        cnt \<leftarrow> count_words s (unat (CEIL_DIV PACKED_SLAB_32_BITV_LEN 8)) m;
        Some (ucast PACKED_SLAB_32_BITV_BITS - cnt)
      } else if block_sz = 48 then do {
        cnt \<leftarrow> count_words s (unat (CEIL_DIV PACKED_SLAB_48_BITV_LEN 8)) m;
        Some (ucast PACKED_SLAB_48_BITV_BITS - cnt)
      } else do {
        pl_f \<leftarrow> load64 m (s + slab_pl_f);
        Some (packed_slab_n_blocks block_sz - popcount64 pl_f)
      })"

definition calc_slab_used_mem :: "u64 \<Rightarrow> memory \<Rightarrow> u64 option" where
  "calc_slab_used_mem s m = do {
     free \<leftarrow> slab_is_free s m;
     packed \<leftarrow> slab_is_packed s m;
     if free then Some 0
     else if packed then do {
       sz \<leftarrow> packed_slab_block_size s m;
       cnt \<leftarrow> calc_packed_used s sz m;
       Some (ucast (cnt * sz))
     } else do {
       n_slabs \<leftarrow> large_slab_get_size s m;
       (cnt, i, offset) \<leftarrow> used_blocks s n_slabs 8 0 (ucast LARGE_SLAB_HEADER_SIZE) 0 m;
       block_alloc \<leftarrow> load8 m (s + slab_block_alloc);
       if 1 < n_slabs \<and> i < 7 \<and> offset = 0 \<and> (ucast block_alloc :: u32) AND shl32 1 i \<noteq> 0
       then Some (cnt + SLAB_SIZE * (n_slabs - 1))
       else Some cnt
     }
   }"

end
