(* ===== verification/Slab_Inv.thy ===== *)
theory Slab_Inv
  imports Slab_Heap
begin

unbundle bit_operations_syntax

section \<open>The invariant of the slab layer\<close>

text \<open>
  The arena after its header page is a sequence of regions: runs of free slabs and runs
  of used ones. \<open>lay\<close> says what the flags, sizes and footers in memory must be for a
  sequence of regions that starts at page \<open>k\<close>, where \<open>p\<close> tells whether the region before
  is used; no two free regions are adjacent. \<open>slab_inv\<close> adds the shape of the arena, the
  end pointer and the last-slab flag in the header, and the bins.
\<close>

subsection \<open>Regions\<close>

datatype region = Free nat | Used nat

primrec pages_of :: "region \<Rightarrow> nat" where
  "pages_of (Free n) = n"
| "pages_of (Used n) = n"

primrec is_used :: "region \<Rightarrow> bool" where
  "is_used (Free n) = False"
| "is_used (Used n) = True"

definition pages :: "region list \<Rightarrow> nat" where
  "pages rs = sum_list (map pages_of rs)"

definition last_used :: "bool \<Rightarrow> region list \<Rightarrow> bool" where
  "last_used p rs = (if rs = [] then p else is_used (last rs))"

fun free_map :: "nat \<Rightarrow> region list \<Rightarrow> nat \<rightharpoonup> nat" where
  "free_map k [] = Map.empty"
| "free_map k (Free n # rs) = (free_map (k + n) rs)(k \<mapsto> n)"
| "free_map k (Used n # rs) = free_map (k + n) rs"

fun used_map :: "nat \<Rightarrow> region list \<Rightarrow> nat \<rightharpoonup> nat" where
  "used_map k [] = Map.empty"
| "used_map k (Free n # rs) = used_map (k + n) rs"
| "used_map k (Used n # rs) = (used_map (k + n) rs)(k \<mapsto> n)"

lemma pages_simps [simp]:
  "pages [] = 0" "pages (r # rs) = pages_of r + pages rs" "pages (xs @ ys) = pages xs + pages ys"
  by (simp_all add: pages_def)

lemma last_used_simps [simp]:
  "last_used p [] = p" "last_used p (r # rs) = last_used (is_used r) rs"
  "last_used p (xs @ ys) = last_used (last_used p xs) ys"
  by (simp_all add: last_used_def)

subsection \<open>Layout in memory\<close>

fun lay :: "u64 \<Rightarrow> (u64 \<Rightarrow> u64) \<Rightarrow> nat \<Rightarrow> bool \<Rightarrow> region list \<Rightarrow> bool" where
  "lay h c k p [] = True"
| "lay h c k p (Free n # rs) = (p \<and> 0 < n \<and> \<not> bit (c (pg h k)) 0 \<and> bit (c (pg h k)) 1
     \<and> c (pg h k + 24) = of_nat n \<and> c (pg h (k + n - 1) + 4088) = of_nat n
     \<and> lay h c (k + n) False rs)"
| "lay h c k p (Used n # rs) = (0 < n \<and> bit (c (pg h k)) 0 \<and> (bit (c (pg h k)) 1 \<longleftrightarrow> p)
     \<and> lay h c (k + n) True rs)"

lemma lay_append:
  "lay h c k p (xs @ ys) \<longleftrightarrow> lay h c k p xs \<and> lay h c (k + pages xs) (last_used p xs) ys"
  by (induction h c k p xs rule: lay.induct) (auto simp: add.assoc)

text \<open>
  What the layout depends on: the two flag bits of the first cell of each region, and
  the size and the footer of the free ones.
\<close>

definition same_lay :: "u64 \<Rightarrow> nat \<Rightarrow> nat \<Rightarrow> (u64 \<Rightarrow> u64) \<Rightarrow> (u64 \<Rightarrow> u64) \<Rightarrow> bool" where
  "same_lay h a b c c' \<longleftrightarrow> (\<forall>j. a \<le> j \<and> j < b \<longrightarrow>
     (bit (c' (pg h j)) 0 = bit (c (pg h j)) 0) \<and> (bit (c' (pg h j)) 1 = bit (c (pg h j)) 1)
     \<and> c' (pg h j + 24) = c (pg h j + 24) \<and> c' (pg h j + 4088) = c (pg h j + 4088))"

lemma same_layD:
  assumes "same_lay h a b c c'" "a \<le> j" "j < b"
  shows "bit (c' (pg h j)) 0 = bit (c (pg h j)) 0" "bit (c' (pg h j)) 1 = bit (c (pg h j)) 1"
    "c' (pg h j + 24) = c (pg h j + 24)" "c' (pg h j + 4088) = c (pg h j + 4088)"
  using assms by (auto simp: same_lay_def)

lemma same_lay_mono: "same_lay h a b c c' \<Longrightarrow> a \<le> a' \<Longrightarrow> b' \<le> b \<Longrightarrow> same_lay h a' b' c c'"
  by (auto simp: same_lay_def)

lemma lay_frame:
  assumes "lay h c k p rs" "same_lay h k (k + pages rs) c c'"
  shows "lay h c' k p rs"
  using assms
proof (induction h c k p rs rule: lay.induct)
  case (2 h c k p n rs)
  have "same_lay h (k + n) (k + n + pages rs) c c'"
    by (rule same_lay_mono [OF "2.prems"(2)]) simp_all
  then have "lay h c' (k + n) False rs" using "2.prems"(1) "2.IH" by simp
  moreover have "0 < n" using "2.prems"(1) by simp
  ultimately show ?case
    using "2.prems"(1) same_layD [OF "2.prems"(2), of k] same_layD [OF "2.prems"(2), of "k + n - 1"]
    by simp
next
  case (3 h c k p n rs)
  have "same_lay h (k + n) (k + n + pages rs) c c'"
    by (rule same_lay_mono [OF "3.prems"(2)]) simp_all
  then have "lay h c' (k + n) True rs" using "3.prems"(1) "3.IH" by simp
  then show ?case
    using "3.prems"(1) same_layD [OF "3.prems"(2), of k] by simp
qed simp

lemma lay_pos: "lay h c k p rs \<Longrightarrow> r \<in> set rs \<Longrightarrow> 0 < pages_of r"
  by (induction h c k p rs rule: lay.induct) auto

text \<open>The region after a free one is used, and its flag says that a free one precedes.\<close>

lemma lay_after_free:
  assumes "lay h c k False rs" "rs \<noteq> []"
  obtains n rs' where "rs = Used n # rs'" "0 < n" "bit (c (pg h k)) 0" "\<not> bit (c (pg h k)) 1"
    "lay h c (k + n) True rs'"
proof (cases rs)
  case (Cons r rs')
  then obtain n where r: "r = Used n" using assms(1) by (cases r) simp_all
  show thesis by (rule that [of n rs']) (use assms(1) in \<open>simp_all add: Cons r\<close>)
qed (use assms(2) in simp)

lemma lay_set_prev:
  assumes "lay h c k (\<not> p) rs" "rs = [] \<or> (\<exists>n rs'. rs = Used n # rs')"
    and "rs \<noteq> [] \<Longrightarrow> bit (c' (pg h k)) 0 = bit (c (pg h k)) 0 \<and> bit (c' (pg h k)) 1 = p"
    and "rs \<noteq> [] \<Longrightarrow> same_lay h (k + 1) (k + pages rs) c c'"
  shows "lay h c' k p rs"
proof (cases rs)
  case (Cons r rs')
  then obtain n where r: "r = Used n" using assms(2) by auto
  have n: "0 < n" and b0: "bit (c (pg h k)) 0" and "lay h c (k + n) True rs'"
    using assms(1) unfolding Cons r lay.simps by blast+
  moreover have "same_lay h (k + n) (k + n + pages rs') c c'"
    using n by (intro same_lay_mono [OF assms(4)]) (simp_all add: Cons r)
  ultimately have "lay h c' (k + n) True rs'" by (blast intro: lay_frame)
  moreover have b: "bit (c' (pg h k)) 0 = bit (c (pg h k)) 0" "bit (c' (pg h k)) 1 = p"
    using assms(3) unfolding Cons by blast+
  ultimately show ?thesis using n b0 unfolding Cons r lay.simps by blast
qed simp

subsection \<open>The maps of free and used regions\<close>

lemma free_map_bounds: "free_map k rs j = Some n \<Longrightarrow> k \<le> j \<and> j + n \<le> k + pages rs"
proof (induction k rs rule: free_map.induct)
  case (2 k l rs)
  show ?case
  proof (cases "j = k")
    case False
    then have "free_map (k + l) rs j = Some n" using 2 by simp
    from "2.IH" [OF this] show ?thesis by simp
  qed (use 2 in simp)
next
  case (3 k l rs)
  then have "free_map (k + l) rs j = Some n" by simp
  from "3.IH" [OF this] show ?case by simp
qed simp

lemma used_map_bounds: "used_map k rs j = Some n \<Longrightarrow> k \<le> j \<and> j + n \<le> k + pages rs"
proof (induction k rs rule: used_map.induct)
  case (3 k l rs)
  show ?case
  proof (cases "j = k")
    case False
    then have "used_map (k + l) rs j = Some n" using 3 by simp
    from "3.IH" [OF this] show ?thesis by simp
  qed (use 3 in simp)
next
  case (2 k l rs)
  then have "used_map (k + l) rs j = Some n" by simp
  from "2.IH" [OF this] show ?case by simp
qed simp

lemma free_map_append:
  "free_map k (xs @ ys) = free_map (k + pages xs) ys ++ free_map k xs"
  by (induction k xs rule: free_map.induct) (auto simp: add.assoc map_add_def)

lemma used_map_append:
  "used_map k (xs @ ys) = used_map (k + pages xs) ys ++ used_map k xs"
  by (induction k xs rule: used_map.induct) (auto simp: add.assoc map_add_def)

subsection \<open>The invariant\<close>

definition end_ok :: "u64 \<Rightarrow> (u64 \<Rightarrow> u64) \<Rightarrow> region list \<Rightarrow> bool" where
  "end_ok h c rs \<longleftrightarrow> c (h + 4072) = pg h (1 + pages rs) \<and> (bit (c (h + 4080)) 0 \<longleftrightarrow> last_used True rs)"

definition slab_inv :: "u64 \<Rightarrow> region list \<Rightarrow> memory \<Rightarrow> bool" where
  "slab_inv h rs m \<longleftrightarrow> shape h (1 + pages rs) m \<and> lay h (cells m) 1 True rs \<and> end_ok h (cells m) rs
     \<and> (\<exists>bins. bins_ok h (cells m) bins (free_map 1 rs))"

text \<open>
  What a slab operation leaves alone, as seen by the code above it: the contents of the
  used regions \<open>U\<close> (but for the previous-allocated bit of their first slab) and the part
  of the header that belongs to the small and medium bins.
\<close>

definition kept :: "u64 \<Rightarrow> (nat \<rightharpoonup> nat) \<Rightarrow> (u64 \<Rightarrow> u64) \<Rightarrow> (u64 \<Rightarrow> u64) \<Rightarrow> bool" where
  "kept h U c c' \<longleftrightarrow>
     (\<forall>k n j d. U k = Some n \<longrightarrow> k \<le> j \<longrightarrow> j < k + n \<longrightarrow> d < 4096 \<longrightarrow> (j \<noteq> k \<or> d \<noteq> 0) \<longrightarrow>
        c' (pg h j + d) = c (pg h j + d))
   \<and> (\<forall>k n i. U k = Some n \<longrightarrow> i \<noteq> 1 \<longrightarrow> bit (c' (pg h k)) i = bit (c (pg h k)) i)
   \<and> (\<forall>d. 2048 \<le> d \<longrightarrow> d < 4072 \<longrightarrow> d \<noteq> 4024 \<longrightarrow> d \<noteq> 4032 \<longrightarrow> c' (h + d) = c (h + d))"

subsection \<open>Cells that no link or skiplist update touches\<close>

lemma header_plain:
  assumes h: "page_aligned h" and D: "D \<subseteq> {1..<2 ^ 52}" and d: "2048 \<le> d" "d < 4096" "d \<noteq> 4024" "d \<noteq> 4032"
  shows "h + d \<notin> link_cells h D \<union> skip_cells h"
proof -
  have "h + d \<noteq> h + of_nat i * 16" "h + d \<noteq> h + (of_nat i * 16 + 8)" if "i < 128" for i
    using small_bin_offsets(1,2) [OF that] d(1) by auto
  moreover have "h + d \<noteq> pg h k + 8" "h + d \<noteq> pg h k + 16" if "k \<in> D" for k
  proof -
    have "k < 2 ^ 52" "k \<noteq> 0" using that D by auto
    then show "h + d \<noteq> pg h k + 8" "h + d \<noteq> pg h k + 16" using h d(2) by (simp_all add: page_simps)
  qed
  ultimately show ?thesis
    using d(3,4) by (auto simp: link_cells_def nodes_def skip_cells_def bin_root_fields) (auto simp: layout_simps)
qed

lemma page_plain:
  assumes h: "page_aligned h" and D: "D \<subseteq> {1..<2 ^ 52}" and j: "1 \<le> j" "j < 2 ^ 52" and d: "d < 4096"
    and a: "j \<notin> D \<or> d \<noteq> 8 \<and> d \<noteq> 16"
  shows "pg h j + d \<notin> link_cells h D \<union> skip_cells h"
proof -
  have j0: "j \<noteq> 0" using j by simp
  have "pg h j + d \<noteq> h + of_nat i * 16" "pg h j + d \<noteq> h + (of_nat i * 16 + 8)" if "i < 128" for i
  proof -
    have o: "of_nat i * 16 < (4096 :: u64)" "of_nat i * 16 + 8 < (4096 :: u64)"
      by (rule less_trans [OF small_bin_offsets(1) [OF that]], simp)
        (rule less_trans [OF small_bin_offsets(2) [OF that]], simp)
    show "pg h j + d \<noteq> h + of_nat i * 16" "pg h j + d \<noteq> h + (of_nat i * 16 + 8)"
      using pg_eq_iffs(5) [OF h _ j(2) o(1) d] pg_eq_iffs(5) [OF h _ j(2) o(2) d] j0 j by auto
  qed
  moreover have "pg h j + d \<noteq> pg h k + 8" "pg h j + d \<noteq> pg h k + 16" if "k \<in> D" for k
  proof -
    have "k < 2 ^ 52" using that D by auto
    then show "pg h j + d \<noteq> pg h k + 8" "pg h j + d \<noteq> pg h k + 16"
      using h j(2) d a that by (auto simp: page_simps)
  qed
  moreover have "pg h j + d \<noteq> h + 4024" "pg h j + d \<noteq> h + 4032"
    using h j(2) d j0 by (simp_all add: page_simps)
  ultimately show ?thesis
    by (auto simp: link_cells_def nodes_def skip_cells_def bin_root_fields) (auto simp: layout_simps)
qed

lemma page_plain0:
  assumes "page_aligned h" "D \<subseteq> {1..<2 ^ 52}" "1 \<le> j" "j < 2 ^ 52"
  shows "pg h j \<notin> link_cells h D \<union> skip_cells h"
  using page_plain [OF assms, of 0] by simp

lemma bins_ok_upd:
  assumes "bins_ok h c bins F" "a \<notin> link_cells h (dom F) \<union> skip_cells h"
  shows "bins_ok h (c(a := v)) bins F"
  by (rule bins_ok_frame [OF assms(1)]) (use assms(2) in auto)

lemma pg_footer: "0 < j \<Longrightarrow> pg h j - 8 = pg h (j - 1) + 4088"
  by (cases j) (simp_all add: pg_def algebra_simps)

lemma slab_plus_pg: "slab_plus (pg h k) (of_nat n) = pg h (k + n)"
  by (simp add: slab_plus_def layout_simps pg_add)

subsection \<open>Flag updates\<close>

lemma bit_or_lane8:
  "bit (set_lane 0 (get_lane 0 x OR b :: u8) x) i \<longleftrightarrow> bit x i \<or> i < 8 \<and> bit b i"
  by (auto simp: bit_set_lane bit_or_iff bit_get_lane)

lemma bit_and_not_lane8:
  "bit (set_lane 0 (get_lane 0 x AND NOT b :: u8) x) i \<longleftrightarrow> bit x i \<and> \<not> (i < 8 \<and> bit b i)"
  by (auto simp: bit_set_lane bit_and_iff bit_not_iff bit_get_lane)

lemma bit_lane8: "bit (set_lane 0 (b :: u8) x) i \<longleftrightarrow> (if i < 8 then bit b i else bit x i)"
  by (simp add: bit_set_lane)

lemma bit_or_lane32:
  "bit (set_lane 0 (get_lane 0 x OR b :: u32) x) i \<longleftrightarrow> bit x i \<or> i < 32 \<and> bit b i"
  by (auto simp: bit_set_lane bit_or_iff bit_get_lane)

lemma bit_and_lane32:
  "bit (set_lane 0 (get_lane 0 x AND b :: u32) x) i \<longleftrightarrow> bit x i \<and> (i < 32 \<longrightarrow> bit b i)"
  by (auto simp: bit_set_lane bit_and_iff bit_get_lane)

lemma slab_set_flags_exec:
  assumes "page_aligned s" "valid_cell m s"
  shows "slab_set_flags s b m = Some (m\<lparr>cells := (cells m)(s := set_lane 0 (get_lane 0 (cells m s) OR b) (cells m s))\<rparr>)"
  using assms by (simp add: slab_set_flags_def layout_simps exec_simps)

lemma slab_clear_flags_exec:
  assumes "page_aligned s" "valid_cell m s"
  shows "slab_clear_flags s b m = Some (m\<lparr>cells := (cells m)(s := set_lane 0 (get_lane 0 (cells m s) AND NOT b) (cells m s))\<rparr>)"
  using assms by (simp add: slab_clear_flags_def layout_simps exec_simps)

lemma heap_set_flags_exec:
  assumes "page_aligned h" "valid_cell m (h + 4080)"
  shows "heap_set_flags h b m = Some (m\<lparr>cells := (cells m)
    (h + 4080 := set_lane 0 (get_lane 0 (cells m (h + 4080)) OR b) (cells m (h + 4080)))\<rparr>)"
  using assms by (simp add: heap_set_flags_def layout_simps exec_simps)

lemma heap_and_flags_exec:
  assumes "page_aligned h" "valid_cell m (h + 4080)"
  shows "heap_and_flags h b m = Some (m\<lparr>cells := (cells m)
    (h + 4080 := set_lane 0 (get_lane 0 (cells m (h + 4080)) AND b) (cells m (h + 4080)))\<rparr>)"
  using assms by (simp add: heap_and_flags_def layout_simps exec_simps)

lemma heap_end_exec:
  assumes "shape h N m"
  shows "heap_end h m = Some (cells m (h + 4072))"
  using shape_valid_header [OF assms, of 4072] by (simp add: heap_end_def layout_simps exec_simps)

subsection \<open>Splitting a region and taking a whole one\<close>

definition sizes_ok :: "u64 \<Rightarrow> (u64 \<Rightarrow> u64) \<Rightarrow> (nat \<rightharpoonup> nat) \<Rightarrow> bool" where
  "sizes_ok h c F \<longleftrightarrow> (\<forall>j l. F j = Some l \<longrightarrow> c (pg h j + 24) = of_nat l \<and> 1 \<le> l \<and> l < 2 ^ 52)"

text \<open>What the two linking functions have in common, for a region of \<open>r\<close> slabs.\<close>

definition links_ok ::
  "(u64 \<Rightarrow> u64 \<Rightarrow> u64 \<Rightarrow> memory \<Rightarrow> memory option) \<Rightarrow> u64 \<Rightarrow> nat \<Rightarrow> nat \<Rightarrow> bool" where
  "links_ok link h N r \<longleftrightarrow> (\<forall>m bins F k. shape h N m \<longrightarrow> bins_ok h (cells m) bins F \<longrightarrow>
     insert k (dom F) \<subseteq> {1..<N} \<longrightarrow> F k = None \<longrightarrow> sizes_ok h (cells m) F \<longrightarrow>
     (\<exists>c' bins'. link h (pg h k) (of_nat r) m = Some (m\<lparr>cells := c'\<rparr>)
        \<and> bins_ok h c' bins' (F(k \<mapsto> r))
        \<and> (\<forall>a. a \<notin> link_cells h (insert k (dom F)) \<union> skip_cells h \<longrightarrow> c' a = cells m a)))"

lemma slab_link_links:
  assumes "1 \<le> r" "r < 2 ^ 52"
  shows "links_ok slab_link h N r"
  unfolding links_ok_def
proof (intro allI impI)
  fix m bins F k
  assume a: "shape h N m" "bins_ok h (cells m) bins F" "insert k (dom F) \<subseteq> {1..<N}" "F k = None"
    "sizes_ok h (cells m) F"
  have sz: "cells m (pg h j + slab_num_slabs) = of_nat l \<and> l < 2 ^ 52" if "F j = Some l" for j l
    using a(5) that by (simp add: sizes_ok_def layout_simps)
  show "\<exists>c' bins'. slab_link h (pg h k) (of_nat r) m = Some (m\<lparr>cells := c'\<rparr>)
      \<and> bins_ok h c' bins' (F(k \<mapsto> r))
      \<and> (\<forall>a. a \<notin> link_cells h (insert k (dom F)) \<union> skip_cells h \<longrightarrow> c' a = cells m a)"
    by (rule slab_link_ok [OF a(1-4) assms sz]) blast+
qed

lemma slab_link_small_links:
  assumes "1 \<le> r" "r \<le> 127"
  shows "links_ok slab_link_small h N r"
  unfolding links_ok_def
proof (intro allI impI)
  fix m bins F k
  assume a: "shape h N m" "bins_ok h (cells m) bins F" "insert k (dom F) \<subseteq> {1..<N}" "F k = None"
    "sizes_ok h (cells m) F"
  show "\<exists>c' bins'. slab_link_small h (pg h k) (of_nat r) m = Some (m\<lparr>cells := c'\<rparr>)
      \<and> bins_ok h c' bins' (F(k \<mapsto> r))
      \<and> (\<forall>a. a \<notin> link_cells h (insert k (dom F)) \<union> skip_cells h \<longrightarrow> c' a = cells m a)"
    by (rule slab_link_small_ok [OF a(1-4) assms]) blast
qed

lemma links_okE:
  assumes "links_ok link h N r" "shape h N m" "bins_ok h (cells m) bins F"
    "insert k (dom F) \<subseteq> {1..<N}" "F k = None" "sizes_ok h (cells m) F"
  obtains c' bins' where "link h (pg h k) (of_nat r) m = Some (m\<lparr>cells := c'\<rparr>)"
    and "bins_ok h c' bins' (F(k \<mapsto> r))"
    and "\<And>a. a \<notin> link_cells h (insert k (dom F)) \<union> skip_cells h \<Longrightarrow> c' a = cells m a"
  using assms unfolding links_ok_def by blast

lemma sizes_ok_frame:
  assumes "sizes_ok h c F" "\<And>j. j \<in> dom F \<Longrightarrow> c' (pg h j + 24) = c (pg h j + 24)"
  shows "sizes_ok h c' F"
  using assms by (auto simp: sizes_ok_def domIff)

lemma link_cells_mono: "D \<subseteq> D' \<Longrightarrow> link_cells h D \<subseteq> link_cells h D'"
  unfolding link_cells_def nodes_def by blast

lemma split_remainder_ok:
  assumes sh: "shape h N m" and ok: "bins_ok h (cells m) bins F" and D: "dom F \<subseteq> {1..<N}"
    and sz: "sizes_ok h (cells m) F" and k: "1 \<le> k" and n: "n < s" and N: "k + s \<le> N"
    and K: "k + n \<notin> dom F" and link: "links_ok link h N (s - n)"
  shows "\<exists>c' bins'. split_remainder link h (pg h k) (of_nat s) (of_nat n) m = Some (m\<lparr>cells := c'\<rparr>)
    \<and> bins_ok h c' bins' (F(k + n \<mapsto> s - n))
    \<and> c' (pg h (k + n)) = set_lane 0 (2 :: u8) (cells m (pg h (k + n)))
    \<and> c' (pg h (k + n) + 24) = of_nat (s - n) \<and> c' (pg h (k + s - 1) + 4088) = of_nat (s - n)
    \<and> (\<forall>a. a \<notin> link_cells h (insert (k + n) (dom F)) \<union> skip_cells h
          \<union> {pg h (k + n), pg h (k + n) + 24, pg h (k + s - 1) + 4088} \<longrightarrow> c' a = cells m a)"
proof -
  let ?c = "cells m" and ?K = "k + n" and ?E = "k + s - 1"
  let ?D = "insert ?K (dom F)"
  have h: "page_aligned h" by (rule shape_aligned [OF sh])
  have KN: "?K < N" "?E < N" "?K < 2 ^ 52" "?E < 2 ^ 52" "1 \<le> ?K" "1 \<le> ?E"
    using n N k shape_bound [OF sh] by auto
  have DN: "?D \<subseteq> {1..<N}" using D KN by auto
  have D': "?D \<subseteq> {1..<2 ^ 52}" using DN shape_bound [OF sh] by fastforce
  have pl: "pg h ?K \<notin> link_cells h ?D \<union> skip_cells h" "pg h ?K + 24 \<notin> link_cells h ?D \<union> skip_cells h"
    "pg h ?E + 4088 \<notin> link_cells h ?D \<union> skip_cells h"
    using page_plain0 [OF h D'] page_plain [OF h D'] KN by simp_all
  have sub: "link_cells h (dom F) \<subseteq> link_cells h ?D" by (rule link_cells_mono) blast
  have ne: "pg h ?K \<noteq> pg h ?K + 24" "pg h ?K \<noteq> pg h ?E + 4088" "pg h ?K + 24 \<noteq> pg h ?E + 4088"
    using h KN by (simp_all add: page_simps)
  have v: "valid_cell m (pg h ?K)" "valid_cell m (pg h ?K + 24)" "valid_cell m (pg h ?E + 4088)"
    using shape_valid0 [OF sh] shape_valid [OF sh] KN by auto
  define c1 where "c1 = ?c(pg h ?K := set_lane 0 (2 :: u8) (?c (pg h ?K)))"
  have "bins_ok h c1 bins F" unfolding c1_def by (rule bins_ok_upd [OF ok]) (use pl sub in auto)
  moreover have "sizes_ok h c1 F"
    by (rule sizes_ok_frame [OF sz]) (use h KN D' in \<open>auto simp: c1_def page_simps\<close>)
  moreover have "shape h N (m\<lparr>cells := c1\<rparr>)" "F ?K = None" using sh K by auto
  ultimately have st: "shape h N (m\<lparr>cells := c1\<rparr>)" "bins_ok h (cells (m\<lparr>cells := c1\<rparr>)) bins F"
    "F ?K = None" "sizes_ok h (cells (m\<lparr>cells := c1\<rparr>)) F" by simp_all
  obtain c2 bins' where l: "link h (pg h ?K) (of_nat (s - n)) (m\<lparr>cells := c1\<rparr>) = Some (m\<lparr>cells := c2\<rparr>)"
    "bins_ok h c2 bins' (F(?K \<mapsto> s - n))" "\<And>a. a \<notin> link_cells h ?D \<union> skip_cells h \<Longrightarrow> c2 a = c1 a"
    by (rule links_okE [OF link st(1,2) DN st(3,4)]) auto
  define c' where "c' = c2(pg h ?K + 24 := of_nat (s - n), pg h ?E + 4088 := of_nat (s - n))"
  have dF: "dom (F(?K \<mapsto> s - n)) = ?D" by simp
  have "bins_ok h c' bins' (F(?K \<mapsto> s - n))"
    unfolding c'_def by (intro bins_ok_upd) (use l(2) pl dF in auto)
  moreover have "split_remainder link h (pg h k) (of_nat s) (of_nat n) m = Some (m\<lparr>cells := c'\<rparr>)"
    using v l(1) n h KN by (simp add: split_remainder_def slab_plus_pg layout_simps exec_simps
        pg_footer c1_def c'_def of_nat_diff)
  moreover have "c' (pg h ?K) = set_lane 0 (2 :: u8) (?c (pg h ?K))"
    using ne l(3) pl by (simp add: c'_def c1_def)
  moreover have "c' (pg h ?K + 24) = of_nat (s - n)" "c' (pg h ?E + 4088) = of_nat (s - n)"
    by (simp_all add: c'_def)
  moreover have "c' a = ?c a" if "a \<notin> link_cells h ?D \<union> skip_cells h \<union> {pg h ?K, pg h ?K + 24, pg h ?E + 4088}" for a
    using that l(3) [of a] by (simp add: c'_def c1_def)
  ultimately show ?thesis by blast
qed

text \<open>Marking the region before page \<open>e\<close> as used: in the next slab, or in the heap's flags.\<close>

definition mark_after :: "u64 \<Rightarrow> nat \<Rightarrow> nat \<Rightarrow> (u64 \<Rightarrow> u64) \<Rightarrow> u64 \<Rightarrow> u64" where
  "mark_after h N e c =
     (if e = N then c(h + 4080 := set_lane 0 (get_lane 0 (c (h + 4080)) OR (1 :: u32)) (c (h + 4080)))
      else c(pg h e := set_lane 0 (get_lane 0 (c (pg h e)) OR (2 :: u8)) (c (pg h e))))"

lemma take_whole_exec:
  assumes sh: "shape h N m" and E: "cells m (h + 4072) = pg h N" and k: "k + s \<le> N"
  shows "take_whole h (pg h k) (of_nat s) m = Some (m\<lparr>cells := mark_after h N (k + s) (cells m)\<rparr>)"
proof -
  have h: "page_aligned h" by (rule shape_aligned [OF sh])
  have "N < 2 ^ 52" using sh by (simp add: shape_def)
  then have eq: "pg h (k + s) = pg h N \<longleftrightarrow> k + s = N" using k by (intro pg_inj) auto
  have "valid_cell m (h + 4080)" by (rule shape_valid_header [OF sh]) simp_all
  moreover have "valid_cell m (pg h (k + s))" if "k + s \<noteq> N"
    using shape_valid0 [OF sh, of "k + s"] that k by simp
  ultimately show ?thesis
    using h by (simp add: take_whole_def slab_plus_pg heap_end_exec [OF sh] E eq mark_after_def
        heap_set_flags_exec slab_set_flags_exec layout_simps)
qed

lemma mark_after_props:
  assumes "page_aligned h" "e \<le> N" "N < 2 ^ 52" "0 < e"
  shows "a \<noteq> h + 4080 \<Longrightarrow> a \<noteq> pg h e \<Longrightarrow> mark_after h N e c a = c a"
    and "e \<noteq> N \<Longrightarrow> mark_after h N e c (h + 4080) = c (h + 4080)"
    and "e \<noteq> N \<Longrightarrow> bit (mark_after h N e c (pg h e)) i \<longleftrightarrow> bit (c (pg h e)) i \<or> i = 1"
    and "e = N \<Longrightarrow> mark_after h N e c (pg h e) = c (pg h e)"
    and "e = N \<Longrightarrow> bit (mark_after h N e c (h + 4080)) 0"
proof -
  have "e < 2 ^ 52" using assms by simp
  then have ne: "pg h e \<noteq> h + 4080" using assms by (simp add: page_simps)
  then show "e \<noteq> N \<Longrightarrow> bit (mark_after h N e c (pg h e)) i \<longleftrightarrow> bit (c (pg h e)) i \<or> i = 1"
    by (auto simp: mark_after_def bit_or_lane8 bit_2_iff)
  show "e = N \<Longrightarrow> bit (mark_after h N e c (h + 4080)) 0"
    by (simp add: mark_after_def bit_or_lane32)
  show "a \<noteq> h + 4080 \<Longrightarrow> a \<noteq> pg h e \<Longrightarrow> mark_after h N e c a = c a"
    by (simp add: mark_after_def)
  show "e \<noteq> N \<Longrightarrow> mark_after h N e c (h + 4080) = c (h + 4080)"
    "e = N \<Longrightarrow> mark_after h N e c (pg h e) = c (pg h e)"
    using ne by (simp_all add: mark_after_def)
qed

subsection \<open>Regions and maps\<close>

lemma lay_sizes:
  "lay h c k p rs \<Longrightarrow> free_map k rs j = Some l \<Longrightarrow> c (pg h j + 24) = of_nat l \<and> 1 \<le> l"
proof (induction h c k p rs rule: lay.induct)
  case (2 h c k p n rs)
  then show ?case by (cases "j = k") simp_all
qed simp_all

lemma lay_used_pos: "lay h c k p rs \<Longrightarrow> used_map k rs j = Some l \<Longrightarrow> 1 \<le> l"
proof (induction h c k p rs rule: lay.induct)
  case (3 h c k p n rs)
  then show ?case by (cases "j = k") simp_all
qed simp_all

lemma lay_pos_all: "lay h c k p rs \<Longrightarrow> \<forall>r\<in>set rs. 0 < pages_of r"
  using lay_pos by blast

lemma used_free_disjoint:
  assumes "used_map k rs i = Some n" "i \<le> j" "j < i + n" "\<forall>r\<in>set rs. 0 < pages_of r"
  shows "free_map k rs j = None"
  using assms
proof (induction k rs rule: free_map.induct)
  case (2 k l rs)
  have u: "used_map (k + l) rs i = Some n" using "2.prems"(1) by simp
  have "free_map (k + l) rs j = None" by (rule "2.IH" [OF u]) (use "2.prems" in simp_all)
  moreover have "j \<noteq> k" using used_map_bounds [OF u] "2.prems"(2,4) by auto
  ultimately show ?case by simp
next
  case (3 k l rs)
  show ?case
  proof (cases "i = k")
    case True
    then have "j < k + l" using "3.prems"(1,3) by simp
    then have "free_map (k + l) rs j \<noteq> Some x" for x using free_map_bounds [of "k + l" rs j x] by auto
    then show ?thesis by auto
  next
    case False
    then have u: "used_map (k + l) rs i = Some n" using "3.prems"(1) by simp
    show ?thesis using "3.IH" [OF u] "3.prems" by simp
  qed
qed simp

lemma free_map_dom:
  assumes "\<forall>r\<in>set rs. 0 < pages_of r" "1 \<le> k"
  shows "dom (free_map k rs) \<subseteq> {k..<k + pages rs}"
proof
  fix j assume "j \<in> dom (free_map k rs)"
  then obtain n where n: "free_map k rs j = Some n" by auto
  have "0 < n" using n assms(1)
  proof (induction k rs rule: free_map.induct)
    case (2 k l rs)
    then show ?case by (cases "j = k") simp_all
  qed simp_all
  then show "j \<in> {k..<k + pages rs}" using free_map_bounds [OF n] by simp
qed

text \<open>
  A sequence of regions around a middle part: \<open>outer\<close> is the map of the free regions of
  the two ends, where the second one starts at page \<open>e\<close>.
\<close>

definition outer :: "region list \<Rightarrow> nat \<Rightarrow> region list \<Rightarrow> nat \<rightharpoonup> nat" where
  "outer xs e ys = free_map e ys ++ free_map 1 xs"

definition outer_used :: "region list \<Rightarrow> nat \<Rightarrow> region list \<Rightarrow> nat \<rightharpoonup> nat" where
  "outer_used xs e ys = used_map e ys ++ used_map 1 xs"

lemma free_map_mid:
  assumes "\<forall>r\<in>set xs. 0 < pages_of r" and "k = 1 + pages xs"
  shows "free_map 1 (xs @ Free n # ys) = (outer xs (k + n) ys)(k \<mapsto> n)"
    and "free_map 1 (xs @ Used n # ys) = outer xs (k + n) ys"
    and "free_map 1 (xs @ Used n # Free l # ys) = (outer xs (k + n + l) ys)(k + n \<mapsto> l)"
    and "free_map 1 (xs @ ys) = outer xs k ys"
proof -
  have d: "k \<notin> dom (free_map 1 xs)" "k + n \<notin> dom (free_map 1 xs)"
    using free_map_dom [OF assms(1), of 1] assms(2) by auto
  show "free_map 1 (xs @ Free n # ys) = (outer xs (k + n) ys)(k \<mapsto> n)"
    "free_map 1 (xs @ Used n # ys) = outer xs (k + n) ys"
    "free_map 1 (xs @ Used n # Free l # ys) = (outer xs (k + n + l) ys)(k + n \<mapsto> l)"
    "free_map 1 (xs @ ys) = outer xs k ys"
    using d unfolding outer_def free_map_append assms(2) [symmetric] free_map.simps
    by (simp_all only: map_add_upd_left simp_thms)
qed

lemma used_map_mid:
  assumes "k = 1 + pages xs"
  shows "used_map 1 (xs @ Free n # ys) = outer_used xs (k + n) ys"
    and "used_map 1 (xs @ ys) = outer_used xs k ys"
  by (simp_all add: outer_used_def used_map_append assms)

lemma outer_dom:
  assumes "\<forall>r\<in>set (xs @ ys). 0 < pages_of r" and "1 + pages xs \<le> e"
  shows "dom (outer xs e ys) \<subseteq> {1..<1 + pages xs} \<union> {e..<e + pages ys}"
  using free_map_dom [of xs 1] free_map_dom [of ys e] assms by (auto simp: outer_def)

lemma outer_used_bounds:
  assumes "outer_used xs e ys j = Some n"
  shows "1 \<le> j \<and> j + n \<le> 1 + pages xs \<or> e \<le> j \<and> j + n \<le> e + pages ys"
  using assms used_map_bounds [of e ys j n] used_map_bounds [of 1 xs j n]
  by (auto simp: outer_used_def)

lemma outer_disjoint:
  assumes u: "outer_used xs e ys i = Some n" and j: "i \<le> j" "j < i + n"
    and pos: "\<forall>r\<in>set (xs @ ys). 0 < pages_of r" and e: "1 + pages xs \<le> e"
  shows "outer xs e ys j = None"
proof (cases "used_map 1 xs i")
  case (Some n')
  then have n: "used_map 1 xs i = Some n" using u by (simp add: outer_used_def)
  have "free_map 1 xs j = None" using used_free_disjoint [OF n j] pos by simp
  moreover have "j \<notin> dom (free_map e ys)"
    using free_map_dom [of ys e] pos used_map_bounds [OF n] j e by auto
  ultimately show ?thesis by (auto simp: outer_def)
next
  case None
  then have n: "used_map e ys i = Some n" using u by (simp add: outer_used_def map_add_Some_iff)
  have "free_map e ys j = None" using used_free_disjoint [OF n j] pos by simp
  moreover have "j \<notin> dom (free_map 1 xs)"
    using free_map_dom [of xs 1] pos used_map_bounds [OF n] j e by auto
  ultimately show ?thesis by (auto simp: outer_def)
qed

subsection \<open>Framing\<close>

text \<open>
  An operation changes link cells and skiplist cells, and the cells of a small set \<open>X\<close>.
\<close>

definition changes :: "u64 \<Rightarrow> nat set \<Rightarrow> u64 set \<Rightarrow> (u64 \<Rightarrow> u64) \<Rightarrow> (u64 \<Rightarrow> u64) \<Rightarrow> bool" where
  "changes h D X c c' \<longleftrightarrow> (\<forall>a. a \<notin> link_cells h D \<union> skip_cells h \<union> X \<longrightarrow> c' a = c a)"

lemma changes_refl [simp]: "changes h D X c c"
  by (simp add: changes_def)

lemma changes_trans:
  assumes "changes h D X c c1" "changes h D' X' c1 c2" "D \<subseteq> E" "D' \<subseteq> E" "X \<subseteq> Y" "X' \<subseteq> Y"
  shows "changes h E Y c c2"
  unfolding changes_def
proof (intro allI impI)
  fix a assume a: "a \<notin> link_cells h E \<union> skip_cells h \<union> Y"
  have "a \<notin> link_cells h D \<union> skip_cells h \<union> X" "a \<notin> link_cells h D' \<union> skip_cells h \<union> X'"
    using a link_cells_mono [OF assms(3), of h] link_cells_mono [OF assms(4), of h] assms(5,6) by blast+
  then show "c2 a = c a" using assms(1,2) by (simp add: changes_def)
qed

lemma changes_page:
  assumes "changes h D X c c'" "page_aligned h" "D \<subseteq> {1..<2 ^ 52}" "1 \<le> j" "j < 2 ^ 52" "d < 4096"
    and "j \<notin> D \<or> d \<noteq> 8 \<and> d \<noteq> 16" "pg h j + d \<notin> X"
  shows "c' (pg h j + d) = c (pg h j + d)"
  using assms(1,8) page_plain [OF assms(2-7)] unfolding changes_def by blast

lemma changes_page0:
  assumes "changes h D X c c'" "page_aligned h" "D \<subseteq> {1..<2 ^ 52}" "1 \<le> j" "j < 2 ^ 52" "pg h j \<notin> X"
  shows "c' (pg h j) = c (pg h j)"
  using assms(1,6) page_plain0 [OF assms(2-5)] unfolding changes_def by blast

lemma changes_header:
  assumes "changes h D X c c'" "page_aligned h" "D \<subseteq> {1..<2 ^ 52}"
    and "2048 \<le> d" "d < 4096" "d \<noteq> 4024" "d \<noteq> 4032" "h + d \<notin> X"
  shows "c' (h + d) = c (h + d)"
  using assms(1,8) header_plain [OF assms(2-7)] unfolding changes_def by blast

lemma changes_same_lay:
  assumes ch: "changes h D X c c'" and h: "page_aligned h" "D \<subseteq> {1..<2 ^ 52}" and a: "1 \<le> a" "b \<le> 2 ^ 52"
    and X: "\<And>j. a \<le> j \<Longrightarrow> j < b \<Longrightarrow> pg h j \<notin> X \<and> pg h j + 24 \<notin> X \<and> pg h j + 4088 \<notin> X"
  shows "same_lay h a b c c'"
  unfolding same_lay_def
proof (intro allI impI)
  fix j assume j: "a \<le> j \<and> j < b"
  then have b: "1 \<le> j" "j < 2 ^ 52" using a by auto
  have "c' (pg h j) = c (pg h j)" using changes_page0 [OF ch h b] X j by blast
  moreover have "c' (pg h j + 24) = c (pg h j + 24)" "c' (pg h j + 4088) = c (pg h j + 4088)"
    using changes_page [OF ch h b] X j by simp_all
  ultimately show "bit (c' (pg h j)) 0 = bit (c (pg h j)) 0 \<and> bit (c' (pg h j)) 1 = bit (c (pg h j)) 1
      \<and> c' (pg h j + 24) = c (pg h j + 24) \<and> c' (pg h j + 4088) = c (pg h j + 4088)" by simp
qed

lemma changes_kept:
  assumes ch: "changes h D X c c'" and h: "page_aligned h" "D \<subseteq> {1..<2 ^ 52}"
    and U: "\<And>k n j. U k = Some n \<Longrightarrow> k \<le> j \<Longrightarrow> j < k + n \<Longrightarrow> 1 \<le> j \<and> j < 2 ^ 52 \<and> j \<notin> D"
    and X: "\<And>k n j d. U k = Some n \<Longrightarrow> k \<le> j \<Longrightarrow> j < k + n \<Longrightarrow> d < 4096 \<Longrightarrow> j \<noteq> k \<or> d \<noteq> 0 \<Longrightarrow>
      pg h j + d \<notin> X"
    and bits: "\<And>k n i. U k = Some n \<Longrightarrow> pg h k \<in> X \<Longrightarrow> i \<noteq> 1 \<Longrightarrow> bit (c' (pg h k)) i = bit (c (pg h k)) i"
    and pos: "\<And>k n. U k = Some n \<Longrightarrow> 1 \<le> n"
    and hdr: "\<And>d. 2048 \<le> d \<Longrightarrow> d < 4072 \<Longrightarrow> h + d \<notin> X"
  shows "kept h U c c'"
  unfolding kept_def
proof (intro conjI allI impI)
  fix k n j :: nat and d :: u64
  assume a: "U k = Some n" "k \<le> j" "j < k + n" "d < 4096" "j \<noteq> k \<or> d \<noteq> 0"
  have "pg h j + d \<notin> X" by (rule X [OF a])
  then show "c' (pg h j + d) = c (pg h j + d)"
    using changes_page [OF ch h, of j d] U [OF a(1-3)] a(4) by blast
next
  fix k n i :: nat assume a: "U k = Some n" "i \<noteq> 1"
  have "1 \<le> k \<and> k < 2 ^ 52" using U [OF a(1), of k] pos [OF a(1)] by auto
  then show "bit (c' (pg h k)) i = bit (c (pg h k)) i"
    using changes_page0 [OF ch h, of k] bits [OF a(1) _ a(2)] by metis
next
  fix d :: u64 assume d: "2048 \<le> d" "d < 4072" "d \<noteq> 4024" "d \<noteq> 4032"
  have "d < 4096" using d(2) by (rule less_trans) simp
  then show "c' (h + d) = c (h + d)" using changes_header [OF ch h] d hdr by blast
qed

subsection \<open>Taking slabs out of a free region\<close>

text \<open>
  The state between the unlinking of the free region of \<open>s\<close> slabs at page \<open>1 + pages xs\<close>
  and the end of the operation: the bins hold the other regions, and of the rest only
  the flags of the region may have changed.
\<close>

definition mid_state :: "u64 \<Rightarrow> region list \<Rightarrow> nat \<Rightarrow> region list \<Rightarrow> memory \<Rightarrow> (u64 \<Rightarrow> u64) \<Rightarrow> bool" where
  "mid_state h xs s ys m c \<longleftrightarrow> (let k = 1 + pages xs; F = outer xs (k + s) ys in
     slab_inv h (xs @ Free s # ys) m \<and> (\<exists>bins. bins_ok h c bins F)
     \<and> changes h (insert k (dom F)) {pg h k} (cells m) c)"

lemma inv_facts:
  assumes inv: "slab_inv h (xs @ Free s # ys) m" and k: "k = 1 + pages xs" and N: "N = k + s + pages ys"
  shows "page_aligned h" "shape h N m" "N < 2 ^ 52" "0 < s" "lay h (cells m) 1 True xs"
    "lay h (cells m) (k + s) False ys" "\<forall>r\<in>set (xs @ ys). 0 < pages_of r"
    "bit (cells m (pg h k)) 1" "last_used True xs"
    "cells m (h + 4072) = pg h N" "bit (cells m (h + 4080)) 0 \<longleftrightarrow> last_used False ys"
    "dom (outer xs (k + s) ys) \<subseteq> {1..<k} \<union> {k + s..<N}" "sizes_ok h (cells m) (outer xs (k + s) ys)"
    "k \<notin> dom (outer xs (k + s) ys)"
    "\<exists>bins. bins_ok h (cells m) bins ((outer xs (k + s) ys)(k \<mapsto> s))"
    "used_map 1 (xs @ Free s # ys) = outer_used xs (k + s) ys"
proof -
  have e: "1 + pages (xs @ Free s # ys) = N" by (simp add: k N)
  have sh: "shape h N m" and ly: "lay h (cells m) 1 True (xs @ Free s # ys)"
    and en: "end_ok h (cells m) (xs @ Free s # ys)"
    and b: "\<exists>bins. bins_ok h (cells m) bins (free_map 1 (xs @ Free s # ys))"
    using inv unfolding slab_inv_def e by auto
  show "page_aligned h" "shape h N m" "N < 2 ^ 52" using sh by (simp_all add: shape_def)
  have l: "lay h (cells m) 1 True xs" "lay h (cells m) k (last_used True xs) (Free s # ys)"
    using ly unfolding lay_append k by auto
  then show s: "0 < s" and "lay h (cells m) 1 True xs" "lay h (cells m) (k + s) False ys"
    and "bit (cells m (pg h k)) 1" "last_used True xs" by simp_all
  have "\<forall>r\<in>set (xs @ Free s # ys). 0 < pages_of r" by (rule lay_pos_all [OF ly])
  then show pos: "\<forall>r\<in>set (xs @ ys). 0 < pages_of r" by simp
  show "cells m (h + 4072) = pg h N" "bit (cells m (h + 4080)) 0 \<longleftrightarrow> last_used False ys"
    using en by (simp_all add: end_ok_def k N add.assoc)
  show d: "dom (outer xs (k + s) ys) \<subseteq> {1..<k} \<union> {k + s..<N}"
    using outer_dom [OF pos, of "k + s"] k N by auto
  then show kd: "k \<notin> dom (outer xs (k + s) ys)" using s by auto
  have m: "free_map 1 (xs @ Free s # ys) = (outer xs (k + s) ys)(k \<mapsto> s)"
    by (rule free_map_mid) (use pos k in auto)
  show "\<exists>bins. bins_ok h (cells m) bins ((outer xs (k + s) ys)(k \<mapsto> s))" using b unfolding m .
  show "sizes_ok h (cells m) (outer xs (k + s) ys)"
    unfolding sizes_ok_def
  proof (intro allI impI)
    fix j l assume o: "outer xs (k + s) ys j = Some l"
    then have f: "free_map 1 (xs @ Free s # ys) j = Some l" using kd m by auto
    have "l < 2 ^ 52" using free_map_bounds [OF f] e sh by (simp add: shape_def)
    then show "cells m (pg h j + 24) = of_nat l \<and> 1 \<le> l \<and> l < 2 ^ 52" using lay_sizes [OF ly f] by simp
  qed
  show "used_map 1 (xs @ Free s # ys) = outer_used xs (k + s) ys"
    by (rule used_map_mid) (rule k)
qed

lemma unlink_mid:
  assumes inv: "slab_inv h (xs @ Free s # ys) m" and k: "k = 1 + pages xs"
  obtains c where "slab_unlink (pg h k) m = Some (m\<lparr>cells := c\<rparr>)" and "mid_state h xs s ys m c"
    and "\<And>d. d < 4096 \<Longrightarrow> d \<noteq> 8 \<Longrightarrow> d \<noteq> 16 \<Longrightarrow> c (pg h k + d) = cells m (pg h k + d)"
proof -
  let ?F = "outer xs (k + s) ys"
  define N where "N = k + s + pages ys"
  note f = inv_facts [OF inv k N_def]
  obtain bins where b: "bins_ok h (cells m) bins (?F(k \<mapsto> s))" using f(15) by blast
  have D: "dom (?F(k \<mapsto> s)) \<subseteq> {1..<N}" using f(4,12) k N_def by auto
  obtain c bins' where c: "slab_unlink (pg h k) m = Some (m\<lparr>cells := c\<rparr>)"
    "bins_ok h c bins' ((?F(k \<mapsto> s))(k := None))"
    "\<And>a. a \<notin> link_cells h (dom (?F(k \<mapsto> s))) \<Longrightarrow> c a = cells m a"
    by (rule slab_unlink_ok [OF f(2) b D, of k s]) (blast | simp)+
  have "(?F(k \<mapsto> s))(k := None) = ?F" using f(14) by (auto simp: domIff)
  moreover have ch: "changes h (insert k (dom ?F)) {} (cells m) c"
    using c(3) by (simp add: changes_def)
  then have "changes h (insert k (dom ?F)) {pg h k} (cells m) c"
    by (rule changes_trans [OF changes_refl [of h "{}" "{}"]]) auto
  ultimately have "mid_state h xs s ys m c"
    using c(2) inv unfolding mid_state_def Let_def k [symmetric] by metis
  moreover have "c (pg h k + d) = cells m (pg h k + d)" if "d < 4096" "d \<noteq> 8" "d \<noteq> 16" for d
  proof (rule changes_page [OF ch f(1)])
    show "insert k (dom ?F) \<subseteq> {1..<2 ^ 52}" using D f(3) by auto
    show "1 \<le> k" "k < 2 ^ 52" using k N_def f(3) by auto
  qed (use that in auto)
  ultimately show thesis using c(1) that by blast
qed

lemma cells_update:
  "cells (m\<lparr>cells := c\<rparr>) = c" "m\<lparr>cells := c, cells := c'\<rparr> = m\<lparr>cells := c'\<rparr>"
  by simp_all

lemma mid_facts:
  assumes mid: "mid_state h xs s ys m c" and k: "k = 1 + pages xs" and N: "N = k + s + pages ys"
  shows "slab_inv h (xs @ Free s # ys) m" "\<exists>bins. bins_ok h c bins (outer xs (k + s) ys)"
    "changes h (insert k (dom (outer xs (k + s) ys))) {pg h k} (cells m) c"
    "insert k (dom (outer xs (k + s) ys)) \<subseteq> {1..<2 ^ 52}" "sizes_ok h c (outer xs (k + s) ys)"
    "\<And>i n j. outer_used xs (k + s) ys i = Some n \<Longrightarrow> i \<le> j \<Longrightarrow> j < i + n \<Longrightarrow>
       1 \<le> j \<and> j < N \<and> (j < k \<or> k + s \<le> j) \<and> j \<notin> dom (outer xs (k + s) ys)"
    "\<And>i n. outer_used xs (k + s) ys i = Some n \<Longrightarrow> 1 \<le> n"
proof -
  let ?F = "outer xs (k + s) ys"
  show inv: "slab_inv h (xs @ Free s # ys) m" and "\<exists>bins. bins_ok h c bins ?F"
    and ch: "changes h (insert k (dom ?F)) {pg h k} (cells m) c"
    using mid unfolding mid_state_def Let_def k by auto
  note f = inv_facts [OF inv k N]
  show D: "insert k (dom ?F) \<subseteq> {1..<2 ^ 52}" using f(3,12) k N by auto
  show "sizes_ok h c ?F"
  proof (rule sizes_ok_frame [OF f(13)])
    fix j assume "j \<in> dom ?F"
    then have j: "1 \<le> j" "j < 2 ^ 52" using D by auto
    have "pg h j + 24 \<noteq> pg h k" using f(1) D j by (simp add: page_simps)
    then show "c (pg h j + 24) = cells m (pg h j + 24)" using changes_page [OF ch f(1) D j, of 24] by simp
  qed
  show "1 \<le> j \<and> j < N \<and> (j < k \<or> k + s \<le> j) \<and> j \<notin> dom ?F"
    if u: "outer_used xs (k + s) ys i = Some n" "i \<le> j" "j < i + n" for i n j
  proof -
    have "?F j = None" by (rule outer_disjoint [OF u f(7)]) (simp add: k)
    then show ?thesis using outer_used_bounds [OF u(1)] u(2,3) k N by auto
  qed
  show "1 \<le> n" if "outer_used xs (k + s) ys i = Some n" for i n
    using lay_used_pos [of h "cells m" 1 True "xs @ Free s # ys" i n] that f(16) inv
    by (simp add: slab_inv_def)
qed

text \<open>What a slab operation promises: the new regions, and that nothing else is touched.\<close>

definition slab_step :: "u64 \<Rightarrow> region list \<Rightarrow> region list \<Rightarrow> memory \<Rightarrow> memory \<Rightarrow> bool" where
  "slab_step h rs rs' m m' \<longleftrightarrow> slab_inv h rs' m' \<and> kept h (used_map 1 rs) (cells m) (cells m')
     \<and> m' = m\<lparr>cells := cells m'\<rparr>"

lemma split_mid:
  assumes mid: "mid_state h xs s ys m c" and k: "k = 1 + pages xs" and n: "0 < n" "n < s"
    and N: "N = k + s + pages ys" and link: "links_ok link h N (s - n)"
  obtains c' where "split_remainder link h (pg h k) (of_nat s) (of_nat n) (m\<lparr>cells := c\<rparr>) = Some (m\<lparr>cells := c'\<rparr>)"
    and "\<exists>bins. bins_ok h c' bins ((outer xs (k + s) ys)(k + n \<mapsto> s - n))"
    and "lay h c' 1 True xs" and "lay h c' (k + n) True (Free (s - n) # ys)"
    and "c' (h + 4072) = pg h N" and "bit (c' (h + 4080)) 0 \<longleftrightarrow> last_used False ys"
    and "c' (pg h k) = c (pg h k)" and "kept h (outer_used xs (k + s) ys) (cells m) c'"
proof -
  let ?F = "outer xs (k + s) ys" and ?K = "k + n" and ?E = "k + s - 1"
  note g = mid_facts [OF mid k N]
  note f = inv_facts [OF g(1) k N]
  have h: "page_aligned h" by (rule f(1))
  have num: "1 \<le> k" "?K < N" "k + s \<le> N" "1 \<le> ?K" "1 \<le> ?E" "?E < N" "N \<le> 2 ^ 52" using k n N f(3) by auto
  obtain bins where b: "bins_ok h c bins ?F" using g(2) by blast
  have sh: "shape h N (m\<lparr>cells := c\<rparr>)" using f(2) by simp
  have D: "dom ?F \<subseteq> {1..<N}" using f(12) k N by auto
  have K: "?K \<notin> dom ?F" using f(12) n by auto
  have "bins_ok h (cells (m\<lparr>cells := c\<rparr>)) bins ?F" "sizes_ok h (cells (m\<lparr>cells := c\<rparr>)) ?F"
    using b g(5) by simp_all
  from split_remainder_ok [OF sh this(1) D this(2) num(1) n(2) num(3) K link]
  obtain c' bins' where c': "split_remainder link h (pg h k) (of_nat s) (of_nat n) (m\<lparr>cells := c\<rparr>)
        = Some (m\<lparr>cells := c'\<rparr>)" "bins_ok h c' bins' (?F(?K \<mapsto> s - n))"
    "c' (pg h ?K) = set_lane 0 (2 :: u8) (c (pg h ?K))" "c' (pg h ?K + 24) = of_nat (s - n)"
    "c' (pg h ?E + 4088) = of_nat (s - n)"
    "\<And>a. a \<notin> link_cells h (insert ?K (dom ?F)) \<union> skip_cells h
          \<union> {pg h ?K, pg h ?K + 24, pg h ?E + 4088} \<Longrightarrow> c' a = c a"
    unfolding cells_update by blast
  let ?X = "{pg h ?K, pg h ?K + 24, pg h ?E + 4088}"
  let ?D = "insert k (insert ?K (dom ?F))" and ?Y = "insert (pg h k) ?X"
  have D': "?D \<subseteq> {1..<2 ^ 52}" using D num by auto
  have ch2: "changes h (insert ?K (dom ?F)) ?X c c'" using c'(6) by (simp add: changes_def)
  have ch: "changes h ?D ?Y (cells m) c'" by (rule changes_trans [OF g(3) ch2]) auto
  have s1: "same_lay h 1 k (cells m) c'"
    by (rule changes_same_lay [OF ch h D']) (use h num n in \<open>auto simp: page_simps\<close>)
  have s2: "same_lay h (k + s) N (cells m) c'"
    by (rule changes_same_lay [OF ch h D']) (use h num n in \<open>auto simp: page_simps\<close>)
  have "lay h c' 1 True xs" by (rule lay_frame [OF f(5)]) (use s1 k in simp)
  moreover have "lay h c' (k + s) False ys" by (rule lay_frame [OF f(6)]) (use s2 N in simp)
  then have "lay h c' ?K True (Free (s - n) # ys)"
    using n c'(3,4,5) by (simp add: bit_lane8 bit_2_iff)
  moreover have "c' (h + 4072) = cells m (h + 4072)" "c' (h + 4080) = cells m (h + 4080)"
    by (rule changes_header [OF ch h D']; use h num in \<open>auto simp: page_simps\<close>)+
  then have "c' (h + 4072) = pg h N" "bit (c' (h + 4080)) 0 \<longleftrightarrow> last_used False ys" using f(10,11) by simp_all
  moreover have "c' (pg h k) = c (pg h k)"
    by (rule changes_page0 [OF ch2 h]) (use D' h num n in \<open>auto simp: page_simps\<close>)
  moreover have "kept h (outer_used xs (k + s) ys) (cells m) c'"
  proof (rule changes_kept [OF ch h D'])
    fix i l j assume "outer_used xs (k + s) ys i = Some l" "i \<le> j" "j < i + l"
    from g(6) [OF this] show "1 \<le> j \<and> j < 2 ^ 52 \<and> j \<notin> ?D" using num n by auto
  next
    fix i l j d assume "outer_used xs (k + s) ys i = Some l" "i \<le> j" "j < i + l" and d: "d < (4096 :: u64)"
    from g(6) [OF this(1-3)] show "pg h j + d \<notin> ?Y" using num n h d by (auto simp: page_simps)
  next
    fix i l ia assume u: "outer_used xs (k + s) ys i = Some l" and x: "pg h i \<in> ?Y"
    have "1 \<le> l" by (rule g(7) [OF u])
    then have "pg h i \<notin> ?Y" using g(6) [OF u, of i] num n h by (auto simp: page_simps)
    with x show "bit (c' (pg h i)) ia = bit (cells m (pg h i)) ia" by blast
  next
    fix d :: u64 assume "d < 4072"
    then have "d < 4096" by (rule less_trans) simp
    then show "h + d \<notin> ?Y" using num h n by (auto simp: page_simps)
  qed (rule g(7))
  ultimately show thesis using that c'(1,2) by blast
qed

lemma whole_mid:
  assumes mid: "mid_state h xs s ys m c" and k: "k = 1 + pages xs" and N: "N = k + s + pages ys"
  obtains c' where "take_whole h (pg h k) (of_nat s) (m\<lparr>cells := c\<rparr>) = Some (m\<lparr>cells := c'\<rparr>)"
    and "\<exists>bins. bins_ok h c' bins (outer xs (k + s) ys)"
    and "lay h c' 1 True xs" and "lay h c' (k + s) True ys"
    and "c' (h + 4072) = pg h N" and "bit (c' (h + 4080)) 0 \<longleftrightarrow> last_used True ys"
    and "c' (pg h k) = c (pg h k)" and "kept h (outer_used xs (k + s) ys) (cells m) c'"
proof -
  let ?F = "outer xs (k + s) ys" and ?e = "k + s"
  note g = mid_facts [OF mid k N]
  note f = inv_facts [OF g(1) k N]
  have h: "page_aligned h" by (rule f(1))
  have num: "1 \<le> k" "?e \<le> N" "N < 2 ^ 52" "0 < ?e" "?e < 2 ^ 52" "k < 2 ^ 52" "k \<noteq> ?e"
    using k N f(3,4) by auto
  have D': "insert k (dom ?F) \<subseteq> {1..<2 ^ 52}" by (rule g(4))
  let ?X = "{pg h ?e, h + 4080}" and ?Y = "{pg h k, pg h ?e, h + 4080}"
  let ?c' = "mark_after h N ?e c"
  note ma = mark_after_props [OF h num(2,3,4)]
  have ch2: "changes h (insert k (dom ?F)) ?X c ?c'" unfolding changes_def using ma(1) by blast
  have ch: "changes h (insert k (dom ?F)) ?Y (cells m) ?c'" by (rule changes_trans [OF g(3) ch2]) auto
  have c0: "c (pg h ?e) = cells m (pg h ?e)"
    by (rule changes_page0 [OF g(3) h D']) (use num h in \<open>auto simp: page_simps\<close>)
  have c80: "c (h + 4080) = cells m (h + 4080)" "c (h + 4072) = cells m (h + 4072)"
    by (rule changes_header [OF g(3) h D']; use num h in \<open>auto simp: page_simps\<close>)+
  have s1: "same_lay h 1 k (cells m) ?c'"
    by (rule changes_same_lay [OF ch h D']) (use h num in \<open>auto simp: page_simps\<close>)
  have s2: "same_lay h (?e + 1) N (cells m) ?c'"
    by (rule changes_same_lay [OF ch h D']) (use h num in \<open>auto simp: page_simps\<close>)
  have E: "c (h + 4072) = pg h N" using c80 f(10) by simp
  have "take_whole h (pg h k) (of_nat s) (m\<lparr>cells := c\<rparr>) = Some (m\<lparr>cells := ?c'\<rparr>)"
    using take_whole_exec [of h N "m\<lparr>cells := c\<rparr>" k s] f(2) E num(2) by simp
  moreover obtain bins where b: "bins_ok h c bins ?F" using g(2) by blast
  have "a \<notin> ?X" if "a \<in> link_cells h (dom ?F) \<union> skip_cells h" for a
  proof -
    have D2: "dom ?F \<subseteq> {1..<2 ^ 52}" using D' by auto
    show ?thesis using page_plain0 [OF h D2, of ?e] header_plain [OF h D2, of 4080] num that by auto
  qed
  then have "bins_ok h ?c' bins ?F" by (intro bins_ok_frame [OF b] ma(1)) auto
  moreover have "lay h ?c' 1 True xs" by (rule lay_frame [OF f(5)]) (use s1 k in simp)
  moreover have "lay h ?c' ?e True ys"
  proof (rule lay_set_prev [where c = "cells m"])
    show "lay h (cells m) ?e (\<not> True) ys" using f(6) by simp
    show "ys = [] \<or> (\<exists>n rs'. ys = Used n # rs')" using lay_after_free [OF f(6)] by blast
    assume ne: "ys \<noteq> []"
    show "same_lay h (?e + 1) (?e + pages ys) (cells m) ?c'" using s2 N by simp
    have "0 < pages ys" using lay_after_free [OF f(6) ne] by fastforce
    then have "?e \<noteq> N" using N by simp
    then show "bit (?c' (pg h ?e)) 0 = bit (cells m (pg h ?e)) 0 \<and> bit (?c' (pg h ?e)) 1 = True"
      using ma(3) [of c] c0 by simp
  qed
  moreover have "?c' (h + 4072) = pg h N"
  proof -
    have "h + 4072 \<noteq> pg h ?e" using h num by (simp add: page_simps)
    then show ?thesis using ma(1) [of "h + 4072" c] E by simp
  qed
  moreover have "bit (?c' (h + 4080)) 0 \<longleftrightarrow> last_used True ys"
  proof (cases "?e = N")
    case True
    then have "ys = []" using N f(7) by (cases ys) auto
    then show ?thesis using ma(5) [OF True, of c] by simp
  next
    case False
    then have "ys \<noteq> []" using N by auto
    then show ?thesis using ma(2) [OF False, of c] c80 f(11) by (simp add: last_used_def)
  qed
  moreover have "?c' (pg h k) = c (pg h k)"
    by (rule ma(1)) (use h num in \<open>auto simp: page_simps\<close>)
  moreover have "kept h (outer_used xs ?e ys) (cells m) ?c'"
  proof (rule changes_kept [OF ch h D'])
    fix i l j assume "outer_used xs ?e ys i = Some l" "i \<le> j" "j < i + l"
    from g(6) [OF this] show "1 \<le> j \<and> j < 2 ^ 52 \<and> j \<notin> insert k (dom ?F)" using num N f(4) by auto
  next
    fix i l j d assume u: "outer_used xs ?e ys i = Some l" and j: "i \<le> j" "j < i + l"
      and d: "d < (4096 :: u64)" and nz: "j \<noteq> i \<or> d \<noteq> 0"
    have jd: "j \<noteq> ?e \<or> d \<noteq> 0"
    proof -
      have "j \<noteq> ?e" if "i \<noteq> j"
      proof
        assume e: "j = ?e"
        then have "i \<le> ?e - 1" "?e - 1 < i + l" using j that by auto
        from g(6) [OF u this] show False using f(4) by auto
      qed
      then show ?thesis using nz by auto
    qed
    from g(6) [OF u j] show "pg h j + d \<notin> ?Y" using num h d jd f(4) by (auto simp: page_simps)
  next
    fix i l ia :: nat assume u: "outer_used xs ?e ys i = Some l" and x: "pg h i \<in> ?Y" and ia: "ia \<noteq> 1"
    have i: "1 \<le> i" "i < 2 ^ 52" "i \<noteq> k" using g(6) [OF u, of i] g(7) [OF u] num f(4) by auto
    then have "pg h i = pg h ?e" using x num h by (auto simp: page_simps)
    then show "bit (?c' (pg h i)) ia = bit (cells m (pg h i)) ia"
      using ma(3,4) [of c] c0 ia by (cases "?e = N") auto
  next
    fix d :: u64 assume "d < 4072" "2048 \<le> d"
    moreover have "d < 4096" using \<open>d < 4072\<close> by (rule less_trans) simp
    ultimately show "h + d \<notin> ?Y" using num h by (auto simp: page_simps)
  qed (rule g(7))
  ultimately show thesis using that by blast
qed

subsection \<open>Taking slabs\<close>

lemma pages_mid: "pages (xs @ Used n # Free (s - n) # ys) = pages (xs @ Free s # ys)" if "n < s"
  using that by simp

lemma unlink_mid0:
  assumes "slab_inv h (xs @ Free s # ys) m" and "k = 1 + pages xs"
  obtains c where "slab_unlink (pg h k) m = Some (m\<lparr>cells := c\<rparr>)" and "mid_state h xs s ys m c"
    and "c (pg h k) = cells m (pg h k)"
proof -
  obtain c where c: "slab_unlink (pg h k) m = Some (m\<lparr>cells := c\<rparr>)" "mid_state h xs s ys m c"
    "\<And>d. d < 4096 \<Longrightarrow> d \<noteq> 8 \<Longrightarrow> d \<noteq> 16 \<Longrightarrow> c (pg h k + d) = cells m (pg h k + d)"
    by (rule unlink_mid [OF assms]) blast
  have "c (pg h k) = cells m (pg h k)" using c(3) [of 0] by simp
  with c(1,2) show thesis by (rule that)
qed

text \<open>Marking the unlinked region as allocated keeps the state between the two steps.\<close>

lemma alloc_flag_mid:
  assumes mid: "mid_state h xs s ys m c" and k: "k = 1 + pages xs"
    and c: "c (pg h k) = cells m (pg h k)"
  obtains c' where "slab_set_flags (pg h k) SLAB_ALLOC_BIT (m\<lparr>cells := c\<rparr>) = Some (m\<lparr>cells := c'\<rparr>)"
    and "mid_state h xs s ys m c'" and "bit (c' (pg h k)) 0" and "bit (c' (pg h k)) 1"
proof -
  define N where "N = k + s + pages ys"
  note g = mid_facts [OF mid k N_def]
  note f = inv_facts [OF g(1) k N_def]
  let ?F = "outer xs (k + s) ys"
  define c' where "c' = c(pg h k := set_lane 0 (get_lane 0 (c (pg h k)) OR (1 :: u8)) (c (pg h k)))"
  have kN: "1 \<le> k" "k < N" "k < 2 ^ 52" using k N_def f(3,4) by auto
  have "pg h k \<notin> link_cells h (dom ?F) \<union> skip_cells h"
    by (rule page_plain0 [OF f(1)]) (use kN g(4) in auto)
  then have "\<exists>bins. bins_ok h c' bins ?F" using g(2) unfolding c'_def by (blast intro: bins_ok_upd)
  moreover have "changes h (insert k (dom ?F)) {pg h k} c c'" by (simp add: changes_def c'_def)
  then have "changes h (insert k (dom ?F)) {pg h k} (cells m) c'" by (rule changes_trans [OF g(3)]) auto
  ultimately have "mid_state h xs s ys m c'"
    using g(1) unfolding mid_state_def Let_def k [symmetric] by blast
  moreover have "slab_set_flags (pg h k) SLAB_ALLOC_BIT (m\<lparr>cells := c\<rparr>) = Some (m\<lparr>cells := c'\<rparr>)"
    using shape_valid0 [OF f(2) kN(2)] f(1) by (simp add: slab_set_flags_exec layout_simps c'_def)
  moreover have "bit (c' (pg h k)) 0" "bit (c' (pg h k)) 1"
    using f(8) c by (simp_all add: c'_def bit_or_lane8)
  ultimately show thesis using that by blast
qed

lemma alloc_split_ok:
  assumes inv: "slab_inv h (xs @ Free s # ys) m" and k: "k = 1 + pages xs" and n: "0 < n" "n < s"
    and link: "links_ok link h (k + s + pages ys) (s - n)"
  obtains m' where "alloc_split link h (pg h k) (of_nat s) (of_nat n) m = Some m'"
    and "slab_step h (xs @ Free s # ys) (xs @ Used n # Free (s - n) # ys) m m'"
proof -
  define N where "N = k + s + pages ys"
  note f = inv_facts [OF inv k N_def]
  obtain c where u: "slab_unlink (pg h k) m = Some (m\<lparr>cells := c\<rparr>)" "mid_state h xs s ys m c"
    "c (pg h k) = cells m (pg h k)"
    by (rule unlink_mid0 [OF inv k])
  obtain c2 where a: "slab_set_flags (pg h k) SLAB_ALLOC_BIT (m\<lparr>cells := c\<rparr>) = Some (m\<lparr>cells := c2\<rparr>)"
    "mid_state h xs s ys m c2" "bit (c2 (pg h k)) 0" "bit (c2 (pg h k)) 1"
    by (rule alloc_flag_mid [OF u(2) k u(3)])
  obtain c' where s: "split_remainder link h (pg h k) (of_nat s) (of_nat n) (m\<lparr>cells := c2\<rparr>) = Some (m\<lparr>cells := c'\<rparr>)"
    "\<exists>bins. bins_ok h c' bins ((outer xs (k + s) ys)(k + n \<mapsto> s - n))"
    "lay h c' 1 True xs" "lay h c' (k + n) True (Free (s - n) # ys)"
    "c' (h + 4072) = pg h N" "bit (c' (h + 4080)) 0 \<longleftrightarrow> last_used False ys"
    "c' (pg h k) = c2 (pg h k)" "kept h (outer_used xs (k + s) ys) (cells m) c'"
    by (rule split_mid [OF a(2) k n N_def link [folded N_def]])
  let ?rs = "xs @ Used n # Free (s - n) # ys"
  have N: "1 + pages ?rs = N" using n(2) by (simp add: k N_def)
  have "k + n + (s - n) = k + s" using n(2) by simp
  then have "free_map 1 ?rs = (outer xs (k + s) ys)(k + n \<mapsto> s - n)"
    using free_map_mid(3) [of xs k n "s - n" ys] f(7) k by simp
  then have "slab_inv h ?rs (m\<lparr>cells := c'\<rparr>)"
    using s a f(2,9) n N k by (simp add: slab_inv_def lay_append end_ok_def)
  then have "slab_step h (xs @ Free s # ys) ?rs m (m\<lparr>cells := c'\<rparr>)"
    using s(8) f(16) by (simp add: slab_step_def)
  moreover have "alloc_split link h (pg h k) (of_nat s) (of_nat n) m = Some (m\<lparr>cells := c'\<rparr>)"
    using u(1) a(1) s(1) by (simp add: alloc_split_def)
  ultimately show thesis using that by blast
qed

lemma alloc_whole_ok:
  assumes inv: "slab_inv h (xs @ Free s # ys) m" and k: "k = 1 + pages xs"
  obtains m' where "alloc_whole h (pg h k) (of_nat s) m = Some m'"
    and "slab_step h (xs @ Free s # ys) (xs @ Used s # ys) m m'"
proof -
  define N where "N = k + s + pages ys"
  note f = inv_facts [OF inv k N_def]
  obtain c where u: "slab_unlink (pg h k) m = Some (m\<lparr>cells := c\<rparr>)" "mid_state h xs s ys m c"
    "c (pg h k) = cells m (pg h k)"
    by (rule unlink_mid0 [OF inv k])
  obtain c2 where a: "slab_set_flags (pg h k) SLAB_ALLOC_BIT (m\<lparr>cells := c\<rparr>) = Some (m\<lparr>cells := c2\<rparr>)"
    "mid_state h xs s ys m c2" "bit (c2 (pg h k)) 0" "bit (c2 (pg h k)) 1"
    by (rule alloc_flag_mid [OF u(2) k u(3)])
  obtain c' where s: "take_whole h (pg h k) (of_nat s) (m\<lparr>cells := c2\<rparr>) = Some (m\<lparr>cells := c'\<rparr>)"
    "\<exists>bins. bins_ok h c' bins (outer xs (k + s) ys)"
    "lay h c' 1 True xs" "lay h c' (k + s) True ys"
    "c' (h + 4072) = pg h N" "bit (c' (h + 4080)) 0 \<longleftrightarrow> last_used True ys"
    "c' (pg h k) = c2 (pg h k)" "kept h (outer_used xs (k + s) ys) (cells m) c'"
    by (rule whole_mid [OF a(2) k N_def])
  let ?rs = "xs @ Used s # ys"
  have N: "1 + pages ?rs = N" by (simp add: k N_def)
  have "free_map 1 ?rs = outer xs (k + s) ys" by (rule free_map_mid) (use f(7) k in auto)
  then have "slab_inv h ?rs (m\<lparr>cells := c'\<rparr>)"
    using s a f(2,4,9) N k by (simp add: slab_inv_def lay_append end_ok_def)
  then have "slab_step h (xs @ Free s # ys) ?rs m (m\<lparr>cells := c'\<rparr>)"
    using s(8) f(16) by (simp add: slab_step_def)
  moreover have "alloc_whole h (pg h k) (of_nat s) m = Some (m\<lparr>cells := c'\<rparr>)"
    using u(1) a(1) s(1) by (simp add: alloc_whole_def)
  ultimately show thesis using that by blast
qed

lemma clear_lowest_bit:
  fixes w :: "'a::len word"
  assumes b: "bit w b" and low: "\<And>j. j < b \<Longrightarrow> \<not> bit w j"
  shows "bit (w AND (w - 1)) x \<longleftrightarrow> bit w x \<and> x \<noteq> b"
proof -
  define p where "p = (push_bit b 1 :: 'a word)"
  define u where "u = w AND NOT p"
  have len: "b < LENGTH('a)" using b by (rule bit_imp_le_length)
  have bp: "bit p i \<longleftrightarrow> i = b" for i
    using len by (auto simp: p_def bit_push_bit_iff bit_1_iff simp del: push_bit_of_1)
  have bu: "bit u i \<longleftrightarrow> bit w i \<and> i \<noteq> b" for i
    by (auto simp: u_def bit_and_iff bit_not_iff bp dest: bit_imp_le_length)
  have "u AND p = 0" by (rule bit_eqI) (auto simp: bit_and_iff bu bp)
  then have "u + p = u OR p" by (rule disjunctive_add_eq_or)
  also have "\<dots> = w" by (rule bit_eqI) (use b in \<open>auto simp: bit_or_iff bu bp\<close>)
  finally have "w - 1 = u + mask b" by (auto simp: p_def mask_eq_exp_minus_1 push_bit_eq_mult)
  moreover have "u AND mask b = 0" by (rule bit_eqI) (use low in \<open>auto simp: bit_and_iff bit_mask_iff bu\<close>)
  then have "u + mask b = u OR mask b" by (rule disjunctive_add_eq_or)
  ultimately show ?thesis
    using low by (auto simp: bit_and_iff bit_or_iff bit_mask_iff bu)
qed

subsection \<open>Writing the skiplist\<close>

lemma skip_word_lane:
  fixes i j :: nat
  shows "(j div 32 = i) \<longleftrightarrow> j div 64 = i div 2 \<and> 32 * (i mod 2) \<le> j mod 64 \<and> j mod 64 < 32 * (i mod 2) + 32"
proof -
  have d: "j div 64 = j div 32 div 2" by (simp add: div_mult2_eq [symmetric])
  have m: "j mod 64 = 32 * (j div 32 mod 2) + j mod 32" using mod_mult2_eq [of j 32 2] by simp
  have "j div 32 = i \<longleftrightarrow> j div 32 div 2 = i div 2 \<and> j div 32 mod 2 = i mod 2"
    by (metis div_mult_mod_eq)
  moreover have "j div 32 mod 2 = i mod 2 \<longleftrightarrow> 32 * (i mod 2) \<le> j mod 64 \<and> j mod 64 < 32 * (i mod 2) + 32"
    unfolding m using mod_less_divisor [of 32 j] mod_less_divisor [of 2 i] mod_less_divisor [of 2 "j div 32"]
    by (auto simp: less_Suc_eq numeral_2_eq_2 simp del: mod_less_divisor)
  ultimately show ?thesis unfolding d by blast
qed

abbreviation skip_cell :: "u64 \<Rightarrow> nat \<Rightarrow> u64" where
  "skip_cell h i \<equiv> h + (4024 + of_nat (i div 2) * 8)"

definition skip_word :: "u64 \<Rightarrow> (u64 \<Rightarrow> u64) \<Rightarrow> nat \<Rightarrow> u32" where
  "skip_word h c i = get_lane (32 * (i mod 2)) (c (skip_cell h i))"

lemma bit_skip_word:
  assumes "j < 128"
  shows "bit (skip_word h c (j div 32)) (j mod 32) \<longleftrightarrow> skip_bit h c j"
  by (simp add: skip_bit_lane [OF assms] skip_word_def div_mult2_eq [symmetric])

lemma skip_access:
  assumes sh: "shape h N m" and i: "i < 4"
  shows "load32 m (slab_skiplist h (of_nat i)) = Some (skip_word h (cells m) i)"
    and "store32 m (slab_skiplist h (of_nat i)) w = Some (m\<lparr>cells := (cells m)
      (skip_cell h i := set_lane (32 * (i mod 2)) w (cells m (skip_cell h i)))\<rparr>)"
proof -
  have h: "page_aligned h" by (rule shape_aligned [OF sh])
  have "32 * i < 128" using i by simp
  note w = skiplist_word [OF h this, simplified]
  have d: "32 * i div 64 = i div 2" using div_mult_mult1 [of 32 i 2] by simp
  have "i div 2 = 0 \<or> i div 2 = 1" using i by auto
  then have v: "valid_cell m (skip_cell h i)" by (auto intro!: shape_valid_header [OF sh])
  show "load32 m (slab_skiplist h (of_nat i)) = Some (skip_word h (cells m) i)"
    and "store32 m (slab_skiplist h (of_nat i)) w = Some (m\<lparr>cells := (cells m)
      (skip_cell h i := set_lane (32 * (i mod 2)) w (cells m (skip_cell h i)))\<rparr>)"
    using v w h by (simp_all add: d load_lane_page store_lane_page skip_word_def ac_simps)
qed

lemma skip_store_bits:
  assumes i: "i < 4" and j: "j < 128"
    and c': "c' = c(skip_cell h i := set_lane (32 * (i mod 2)) (w :: u32) (c (skip_cell h i)))"
  shows "skip_bit h c' j \<longleftrightarrow> (if j div 32 = i then bit w (j mod 32) else skip_bit h c j)"
proof (cases "j div 64 = i div 2")
  case False
  have "j div 64 = 0 \<or> j div 64 = 1" "i div 2 = 0 \<or> i div 2 = 1" using i j by auto
  then have "skip_cell h i \<noteq> h + (4024 + of_nat (j div 64) * 8)" using False by auto
  moreover have "j div 32 \<noteq> i" using False skip_word_lane [of j i] by blast
  ultimately show ?thesis by (simp add: skip_bit_def c')
next
  case True
  have len: "32 * (i mod 2) + LENGTH(32) \<le> 64" using mod_less_divisor [of 2 i] by simp
  have m: "j mod 64 - 32 * (i mod 2) = j mod 32" if "j div 32 = i"
    using mod_mult2_eq [of j 32 2] that by simp
  have "skip_bit h c' j \<longleftrightarrow> bit (set_lane (32 * (i mod 2)) w (c (skip_cell h i))) (j mod 64)"
    by (simp add: skip_bit_def c' True)
  also have "\<dots> \<longleftrightarrow> (if j div 32 = i then bit w (j mod 32) else bit (c (skip_cell h i)) (j mod 64))"
    unfolding bit_set_lane [OF len] using m skip_word_lane [of j i] True by auto
  finally show ?thesis by (simp add: skip_bit_def True)
qed

lemma bins_ok_skip:
  assumes ok: "bins_ok h c bins F"
    and frame: "\<And>a. a \<in> link_cells h (dom F) \<Longrightarrow> c' a = c a"
    and skip: "\<And>j. j < 127 \<Longrightarrow> bins j \<noteq> [] \<Longrightarrow> skip_bit h c' j" "\<not> skip_bit h c' 127"
  shows "bins_ok h c' bins F"
proof -
  have "ring slab_nx slab_pv c' (bin_root h i) (map (pg h) (bins i))" if "i < 128" for i
  proof (rule slab_links.ring_frame [OF bins_okD(1) [OF ok that]])
    fix u assume "u \<in> ring_nodes h bins i"
    then have "u \<in> nodes h (dom F)" using ring_nodes_subset [OF ok that] by blast
    then show "c' (slab_nx u) = c (slab_nx u) \<and> c' (slab_pv u) = c (slab_pv u)"
      using frame by (auto simp: link_cells_def)
  qed
  then show ?thesis using ok skip by (simp add: bins_ok_def)
qed

lemma kept_refl [simp]: "kept h U c c"
  by (simp add: kept_def)

lemma kept_trans: "kept h U c c1 \<Longrightarrow> kept h U c1 c2 \<Longrightarrow> kept h U c c2"
  unfolding kept_def by simp

lemma slab_step_trans:
  assumes "slab_step h rs rs m m1" "slab_step h rs rs' m1 m2"
  shows "slab_step h rs rs' m m2"
proof -
  have m: "m2 = m1\<lparr>cells := cells m2\<rparr>" "m1 = m\<lparr>cells := cells m1\<rparr>" using assms by (simp_all add: slab_step_def)
  have "m2 = m\<lparr>cells := cells m2\<rparr>" by (subst m(1), subst m(2)) simp
  then show ?thesis using assms kept_trans unfolding slab_step_def by blast
qed

lemma slab_step_refl [simp]: "slab_inv h rs m \<Longrightarrow> slab_step h rs rs m m"
  by (simp add: slab_step_def)

lemma used_page:
  assumes "slab_inv h rs m" "used_map 1 rs k = Some n" "k \<le> j" "j < k + n"
  shows "1 \<le> j" "j < 1 + pages rs" "j \<notin> dom (free_map 1 rs)" "1 \<le> n"
proof -
  have l: "lay h (cells m) 1 True rs" using assms(1) by (simp add: slab_inv_def)
  show "1 \<le> j" "j < 1 + pages rs" using used_map_bounds [OF assms(2)] assms(3,4) by auto
  show "j \<notin> dom (free_map 1 rs)" using used_free_disjoint [OF assms(2-4) lay_pos_all [OF l]] by auto
  show "1 \<le> n" by (rule lay_used_pos [OF l assms(2)])
qed

lemma skip_change_step:
  assumes inv: "slab_inv h rs m" and ch: "changes h {} {} (cells m) c'"
    and bins: "\<exists>bins. bins_ok h c' bins (free_map 1 rs)"
  shows "slab_step h rs rs m (m\<lparr>cells := c'\<rparr>)"
proof -
  define N where "N = 1 + pages rs"
  have sh: "shape h N m" and ly: "lay h (cells m) 1 True rs" and en: "end_ok h (cells m) rs"
    using inv by (simp_all add: slab_inv_def N_def)
  have h: "page_aligned h" "N < 2 ^ 52" using sh by (simp_all add: shape_def)
  have "same_lay h 1 N (cells m) c'"
    by (rule changes_same_lay [OF ch h(1)]) (use h in auto)
  then have "lay h c' 1 True rs" using lay_frame [OF ly] by (simp add: N_def)
  moreover have "c' (h + 4072) = cells m (h + 4072)" "c' (h + 4080) = cells m (h + 4080)"
    by (rule changes_header [OF ch h(1)]; simp)+
  then have "end_ok h c' rs" using en by (simp add: end_ok_def)
  moreover have "kept h (used_map 1 rs) (cells m) c'"
  proof (rule changes_kept [OF ch h(1)])
    fix k n j assume u: "used_map 1 rs k = Some n" "k \<le> j" "j < k + n"
    show "1 \<le> j \<and> j < 2 ^ 52 \<and> j \<notin> {}" using used_page(1,2) [OF inv u] h(2) by (simp add: N_def)
  next
    fix k n assume "used_map 1 rs k = Some n"
    then show "1 \<le> n" by (rule lay_used_pos [OF ly])
  qed simp_all
  ultimately show ?thesis using bins sh by (simp add: slab_step_def slab_inv_def N_def)
qed

text \<open>A free region of \<open>l\<close> slabs is in bin \<open>bin_no l\<close>; what a skiplist word must say about it.\<close>

definition has_free :: "region list \<Rightarrow> nat \<Rightarrow> bool" where
  "has_free rs l \<longleftrightarrow> Free l \<in> set rs"

lemma free_map_split:
  "free_map j rs k = Some l \<Longrightarrow> \<exists>xs ys. rs = xs @ Free l # ys \<and> k = j + pages xs"
proof (induction j rs rule: free_map.induct)
  case (2 j n rs)
  show ?case
  proof (cases "k = j")
    case True
    then show ?thesis using "2.prems" by (intro exI [of _ "[]"] exI [of _ rs]) simp
  next
    case False
    then obtain xs ys where "rs = xs @ Free l # ys" "k = j + n + pages xs" using 2 by auto
    then show ?thesis by (intro exI [of _ "Free n # xs"] exI [of _ ys]) simp
  qed
next
  case (3 j n rs)
  then obtain xs ys where "rs = xs @ Free l # ys" "k = j + n + pages xs" by auto
  then show ?case by (intro exI [of _ "Used n # xs"] exI [of _ ys]) simp
qed simp

lemma has_free_map:
  assumes "\<forall>r\<in>set rs. 0 < pages_of r"
  shows "has_free rs l \<longleftrightarrow> (\<exists>k. free_map 1 rs k = Some l)"
proof
  assume "has_free rs l"
  then obtain xs ys where rs: "rs = xs @ Free l # ys" by (auto simp: has_free_def dest: split_list)
  then have "free_map 1 rs (1 + pages xs) = Some l"
    using free_map_mid(1) [of xs "1 + pages xs" l ys] assms by simp
  then show "\<exists>k. free_map 1 rs k = Some l" by blast
next
  assume "\<exists>k. free_map 1 rs k = Some l"
  then show "has_free rs l" using free_map_split [of 1 rs] by (force simp: has_free_def)
qed

lemma skip_store_ok:
  assumes inv: "slab_inv h rs m" and i: "i < 4"
    and cover: "\<And>l. has_free rs l \<Longrightarrow> l \<le> 127 \<Longrightarrow> (l - 1) div 32 = i \<Longrightarrow> bit w ((l - 1) mod 32)"
    and last: "i = 3 \<Longrightarrow> \<not> bit w 31"
  obtains m' where "store32 m (slab_skiplist h (of_nat i)) w = Some m'" and "slab_step h rs rs m m'"
    and "\<And>j. j < 4 \<Longrightarrow> j \<noteq> i \<Longrightarrow> skip_word h (cells m') j = skip_word h (cells m) j"
proof -
  define N where "N = 1 + pages rs"
  have sh: "shape h N m" and ly: "lay h (cells m) 1 True rs" using inv by (simp_all add: slab_inv_def N_def)
  have h: "page_aligned h" "N < 2 ^ 52" using sh by (simp_all add: shape_def)
  obtain bins where ok: "bins_ok h (cells m) bins (free_map 1 rs)" using inv by (auto simp: slab_inv_def)
  define c' where "c' = (cells m)(skip_cell h i := set_lane (32 * (i mod 2)) w (cells m (skip_cell h i)))"
  have st: "store32 m (slab_skiplist h (of_nat i)) w = Some (m\<lparr>cells := c'\<rparr>)"
    unfolding c'_def by (rule skip_access(2) [OF sh i])
  have bits: "skip_bit h c' j \<longleftrightarrow> (if j div 32 = i then bit w (j mod 32) else skip_bit h (cells m) j)"
    if "j < 128" for j by (rule skip_store_bits [OF i that c'_def])
  have "i div 2 = 0 \<or> i div 2 = 1" using i by auto
  then have sc: "skip_cell h i \<in> skip_cells h" by (auto simp: skip_cells_def)
  then have ch: "changes h {} {} (cells m) c'" by (auto simp: changes_def c'_def)
  have pos: "\<forall>r\<in>set rs. 0 < pages_of r" by (rule lay_pos_all [OF ly])
  have D: "dom (free_map 1 rs) \<subseteq> {1..<2 ^ 52}" using free_map_dom [OF pos, of 1] h(2) by (force simp: N_def)
  have "bins_ok h c' bins (free_map 1 rs)"
  proof (rule bins_ok_skip [OF ok])
    show "c' a = cells m a" if "a \<in> link_cells h (dom (free_map 1 rs))" for a
      using that sc skip_cells_not_link [OF h(1) D] by (auto simp: c'_def)
    show "skip_bit h c' j" if j: "j < 127" "bins j \<noteq> []" for j
    proof (cases "j div 32 = i")
      case True
      obtain k where "k \<in> set (bins j)" using j(2) by (cases "bins j") auto
      then obtain l where l: "free_map 1 rs k = Some l" "bin_no l = j"
        using bins_okD(2) [OF ok, of j] j(1) by auto
      then have "l \<le> 127" "l - 1 = j" using j(1) by (auto simp: bin_no_def)
      moreover have "has_free rs l" using l(1) has_free_map [OF pos] by blast
      ultimately have "bit w (j mod 32)" using cover [of l] True by auto
      then show ?thesis using bits [of j] True j(1) by simp
    next
      case False
      then show ?thesis using bits [of j] j ok by (simp add: bins_ok_def)
    qed
    show "\<not> skip_bit h c' 127" using bits [of 127] last ok by (auto simp: bins_ok_def)
  qed
  then have "slab_step h rs rs m (m\<lparr>cells := c'\<rparr>)" using skip_change_step [OF inv ch] by blast
  moreover have "skip_word h c' j = skip_word h (cells m) j" if "j < 4" "j \<noteq> i" for j
  proof (rule bit_eqI)
    fix b assume "possible_bit TYPE(32 word) b"
    then have b: "b < 32" by simp
    have e: "(32 * j + b) div 32 = j" "(32 * j + b) mod 32 = b" "32 * j + b < 128" using b that(1) by auto
    show "bit (skip_word h c' j) b \<longleftrightarrow> bit (skip_word h (cells m) j) b"
      using bit_skip_word [OF e(3), of h c'] bit_skip_word [OF e(3), of h "cells m"] bits [OF e(3)] that(2) e
      by simp
  qed
  ultimately show thesis using st that [of "m\<lparr>cells := c'\<rparr>"] by simp
qed

subsection \<open>Searching the bins\<close>

text \<open>
  \<open>taken n rs rs' k\<close>: the first \<open>n\<close> slabs of a free region at page \<open>k\<close> became used.
\<close>

definition taken :: "nat \<Rightarrow> region list \<Rightarrow> region list \<Rightarrow> nat \<Rightarrow> bool" where
  "taken n rs rs' k \<longleftrightarrow> (\<exists>xs s ys. rs = xs @ Free s # ys \<and> n \<le> s \<and> k = 1 + pages xs
     \<and> rs' = xs @ Used n # (if s = n then ys else Free (s - n) # ys))"

lemma inv_basic:
  assumes "slab_inv h rs m"
  shows "page_aligned h" "shape h (1 + pages rs) m" "1 + pages rs < 2 ^ 52"
    "lay h (cells m) 1 True rs" "\<forall>r\<in>set rs. 0 < pages_of r"
    "dom (free_map 1 rs) \<subseteq> {1..<1 + pages rs}" "dom (free_map 1 rs) \<subseteq> {1..<2 ^ 52}"
proof -
  show s: "shape h (1 + pages rs) m" and l: "lay h (cells m) 1 True rs"
    using assms by (simp_all add: slab_inv_def)
  show "page_aligned h" and b: "1 + pages rs < 2 ^ 52" using s by (simp_all add: shape_def)
  show p: "\<forall>r\<in>set rs. 0 < pages_of r" by (rule lay_pos_all [OF l])
  show d: "dom (free_map 1 rs) \<subseteq> {1..<1 + pages rs}" by (rule free_map_dom [OF p]) simp
  then show "dom (free_map 1 rs) \<subseteq> {1..<2 ^ 52}" using b by force
qed

lemma inv_skip_word:
  assumes inv: "slab_inv h rs m" and j: "j < 4"
  shows "has_free rs l \<Longrightarrow> l \<le> 127 \<Longrightarrow> (l - 1) div 32 = j \<Longrightarrow> bit (skip_word h (cells m) j) ((l - 1) mod 32)"
    and "bit (skip_word h (cells m) j) b \<Longrightarrow> b < 32 \<and> 32 * j + b < 127"
proof -
  obtain bins where ok: "bins_ok h (cells m) bins (free_map 1 rs)" using inv by (auto simp: slab_inv_def)
  show "bit (skip_word h (cells m) j) ((l - 1) mod 32)" if l: "has_free rs l" "l \<le> 127" "(l - 1) div 32 = j"
  proof -
    obtain k where k: "free_map 1 rs k = Some l" using has_free_map [OF inv_basic(5) [OF inv]] l(1) by auto
    have "0 < l" using l(1) inv_basic(5) [OF inv] by (auto simp: has_free_def)
    then have b: "bin_no l = l - 1" "l - 1 < 127" using l(2) by (auto simp: bin_no_def)
    have "bins (l - 1) \<noteq> []" using bins_ok_mem [OF ok k] by (auto simp: b)
    then have "skip_bit h (cells m) (l - 1)" using ok b(2) by (simp add: bins_ok_def)
    then show ?thesis using bit_skip_word [of "l - 1" h "cells m"] b(2) l(3) by simp
  qed
  show "b < 32 \<and> 32 * j + b < 127" if b: "bit (skip_word h (cells m) j) b"
  proof -
    have b32: "b < 32" using bit_imp_le_length [OF b] by simp
    then have e: "(32 * j + b) div 32 = j" "(32 * j + b) mod 32 = b" "32 * j + b < 128" using j by auto
    have "skip_bit h (cells m) (32 * j + b)" using bit_skip_word [OF e(3), of h "cells m"] b e by simp
    then have "32 * j + b \<noteq> 127" using ok by (auto simp: bins_ok_def)
    then show ?thesis using b32 e(3) by simp
  qed
qed

lemma bin_head_cases:
  assumes inv: "slab_inv h rs m" and j: "j < 128"
  obtains "load64 m (slab_bin h (of_nat j) + bin_head) = Some (bin_root h j)"
      and "\<And>l. has_free rs l \<Longrightarrow> bin_no l \<noteq> j"
    | xs l ys where "load64 m (slab_bin h (of_nat j) + bin_head) = Some (pg h (1 + pages xs))"
      and "pg h (1 + pages xs) \<noteq> bin_root h j" and "rs = xs @ Free l # ys" and "bin_no l = j" and "0 < l"
proof -
  note f = inv_basic [OF inv]
  obtain bins where ok: "bins_ok h (cells m) bins (free_map 1 rs)" using inv by (auto simp: slab_inv_def)
  have "bin_root h j \<in> nodes h (dom (free_map 1 rs))" using j by (auto simp: nodes_def)
  then have v: "valid_cell m (slab_nx (bin_root h j))" by (rule valid_link_cells [OF f(2,6)])
  have rg: "ring slab_nx slab_pv (cells m) (bin_root h j) (map (pg h) (bins j))" by (rule bins_okD(1) [OF ok j])
  have hd: "cells m (slab_nx (bin_root h j)) = hd (map (pg h) (bins j) @ [bin_root h j])"
    using rg unfolding ring_def by (blast dest: seg_head_next)
  have ld: "load64 m (slab_bin h (of_nat j) + bin_head) = Some (hd (map (pg h) (bins j) @ [bin_root h j]))"
    using v hd by (simp add: slab_bin_fields(3) [OF j] load64_valid)
  show thesis
  proof (cases "bins j")
    case Nil
    then show thesis using that(1) ld has_free_map [OF f(5)] bins_okD(2) [OF ok j] by auto
  next
    case (Cons k ks)
    then obtain l where l: "free_map 1 rs k = Some l" "bin_no l = j" using bins_okD(2) [OF ok j] by auto
    obtain xs ys where rs: "rs = xs @ Free l # ys" "k = 1 + pages xs" using free_map_split [OF l(1)] by auto
    have "k \<in> {1..<2 ^ 52}" using l(1) f(7) by auto
    then have "pg h k \<noteq> bin_root h j" using bin_root_not_page [OF f(1) _ _ j, of k] by auto
    moreover have "0 < l" using f(5) rs(1) by auto
    ultimately show thesis using that(2) [of xs l ys] ld Cons rs l by simp
  qed
qed

definition search_result ::
  "u64 \<Rightarrow> nat \<Rightarrow> region list \<Rightarrow> memory \<Rightarrow> nat set \<Rightarrow> (u64 option \<times> memory) option \<Rightarrow> bool" where
  "search_result h n rs m L res \<longleftrightarrow>
     (\<exists>m' k rs'. res = Some (Some (pg h k), m') \<and> taken n rs rs' k \<and> slab_step h rs rs' m m')
   \<or> (\<exists>m'. res = Some (None, m') \<and> slab_step h rs rs m m' \<and> (\<forall>l\<in>L. \<not> has_free rs l))"

lemma search_result_trans:
  assumes "slab_step h rs rs m m1" "search_result h n rs m1 L res"
  shows "search_result h n rs m L res"
  using assms(2) slab_step_trans [OF assms(1)] unfolding search_result_def by blast

lemma card_clear_lowest:
  fixes w :: "'a::len word"
  assumes "bit w b" "\<And>j. j < b \<Longrightarrow> \<not> bit w j"
  shows "card {x. bit (w AND (w - 1)) x} < card {x. bit w x}"
proof (rule psubset_card_mono)
  show "finite {x. bit w x}" by (rule finite_subset [of _ "{..<LENGTH('a)}"]) (auto dest: bit_imp_le_length)
  show "{x. bit (w AND (w - 1)) x} \<subset> {x. bit w x}"
    using clear_lowest_bit [OF assms] assms(1) by blast
qed

lemma card_bits_le: "card {x. bit (w :: u32) x} \<le> 32"
proof -
  have "{x. bit w x} \<subseteq> {..<32}" by (auto dest: bit_imp_le_length)
  then have "card {x. bit w x} \<le> card {..<32 :: nat}" by (rule card_mono [rotated]) simp
  then show ?thesis by simp
qed

lemma search_bin_idx:
  assumes "b < 32" "i < 4"
  shows "(ucast (of_nat (32 * i) + ucast (of_nat b :: u8) :: u32) :: u8) = of_nat (32 * i + b)"
    and "(ucast (of_nat (32 * i + b) :: u8) + 1 :: u64) = of_nat (32 * i + b + 1)"
proof -
  have b: "(ucast (of_nat b :: u8) :: u32) = of_nat b"
    by (rule unsigned_word_eqI [where ?'a = nat])
      (use assms in \<open>simp add: unsigned_ucast_eq unat_of_nat take_bit_eq_mod\<close>)
  show "(ucast (of_nat (32 * i) + ucast (of_nat b :: u8) :: u32) :: u8) = of_nat (32 * i + b)"
    unfolding b of_nat_add [symmetric]
    by (rule unsigned_word_eqI [where ?'a = nat])
      (use assms in \<open>simp add: unsigned_ucast_eq unat_of_nat take_bit_eq_mod del: of_nat_add\<close>)
  have "(ucast (of_nat (32 * i + b) :: u8) :: u64) = of_nat (32 * i + b)"
    by (rule unsigned_word_eqI [where ?'a = nat])
      (use assms in \<open>simp add: unsigned_ucast_eq unat_of_nat take_bit_eq_mod del: of_nat_add\<close>)
  then show "(ucast (of_nat (32 * i + b) :: u8) + 1 :: u64) = of_nat (32 * i + b + 1)" by simp
qed

text \<open>
  What the search knows in word \<open>i\<close> with the bits \<open>sk\<close> still to try and \<open>msk\<close> to be kept:
  every bin of a free region that could fit is still ahead.
\<close>

definition search_inv :: "nat \<Rightarrow> region list \<Rightarrow> nat \<Rightarrow> u32 \<Rightarrow> u32 \<Rightarrow> bool" where
  "search_inv n rs i sk msk \<longleftrightarrow> i < 4 \<and> (n - 1) div 32 \<le> i
     \<and> (\<forall>b. bit sk b \<longrightarrow> n - 1 \<le> 32 * i + b \<and> 32 * i + b < 127)
     \<and> (\<forall>b. bit msk b \<longrightarrow> 32 * i + b < n - 1 \<and> 32 * i + b < 127)
     \<and> (\<forall>l. has_free rs l \<longrightarrow> l \<le> 127 \<longrightarrow> (l - 1) div 32 = i \<longrightarrow> bit (msk OR sk) ((l - 1) mod 32))
     \<and> (\<forall>l. has_free rs l \<longrightarrow> n \<le> l \<longrightarrow> l \<le> 127 \<longrightarrow> i \<le> (l - 1) div 32)"

lemma search_write_back:
  assumes inv: "slab_inv h rs m" and s: "search_inv n rs i sk msk"
  obtains m' where "store32 m (slab_skiplist h (of_nat i)) (msk OR sk) = Some m'" and "slab_step h rs rs m m'"
    and "\<And>j. j < 4 \<Longrightarrow> j \<noteq> i \<Longrightarrow> skip_word h (cells m') j = skip_word h (cells m) j"
proof -
  have i: "i < 4" using s by (simp add: search_inv_def)
  have l: "\<not> bit (msk OR sk) 31" if "i = 3"
    using s that by (auto simp: search_inv_def bit_or_iff)
  show thesis
    by (rule skip_store_ok [OF inv i _ l]) (use s that in \<open>auto simp: search_inv_def\<close>)
qed

lemma search_next_word:
  assumes inv: "slab_inv h rs m" and s: "search_inv n rs i 0 msk" and i: "i + 1 < 4"
  shows "search_inv n rs (i + 1) (skip_word h (cells m) (i + 1)) 0"
proof -
  note w = inv_skip_word [OF inv i]
  have lo: "n - 1 < 32 * (i + 1)" using s by (auto simp: search_inv_def)
  have nx: "i + 1 \<le> (l - 1) div 32" if l: "has_free rs l" "n \<le> l" "l \<le> 127" for l
  proof -
    have "i \<le> (l - 1) div 32" using s l by (simp add: search_inv_def)
    moreover have "(l - 1) div 32 \<noteq> i"
    proof
      assume e: "(l - 1) div 32 = i"
      then have "bit msk ((l - 1) mod 32)" using s l by (auto simp: search_inv_def)
      then have "32 * i + (l - 1) mod 32 < n - 1" using s by (simp add: search_inv_def)
      moreover have "32 * i + (l - 1) mod 32 = l - 1" using e mult_div_mod_eq [of 32 "l - 1"] by simp
      ultimately show False using l(2) by simp
    qed
    ultimately show ?thesis by simp
  qed
  show ?thesis
    unfolding search_inv_def using i lo w nx by auto
qed

lemma search_clear:
  assumes s: "search_inv n rs i sk msk" and b: "bit sk b" and low: "\<And>j. j < b \<Longrightarrow> \<not> bit sk j"
    and no: "\<And>l. has_free rs l \<Longrightarrow> bin_no l \<noteq> 32 * i + b"
    and pos: "\<forall>r\<in>set rs. 0 < pages_of r"
  shows "search_inv n rs i (sk AND (sk - 1)) msk"
proof -
  note c = clear_lowest_bit [OF b low]
  have ne: "(l - 1) mod 32 \<noteq> b" if l: "has_free rs l" "l \<le> 127" "(l - 1) div 32 = i" for l
  proof
    assume "(l - 1) mod 32 = b"
    then have "l - 1 = 32 * i + b" using l(3) mult_div_mod_eq [of 32 "l - 1"] by simp
    moreover have "0 < l" using l(1) pos by (auto simp: has_free_def)
    then have "bin_no l = l - 1" using l(2) by (simp add: bin_no_def)
    ultimately show False using no [OF l(1)] by simp
  qed
  show ?thesis using s ne unfolding search_inv_def bit_or_iff by (auto simp: c)
qed

lemma taken_whole: "k = 1 + pages xs \<Longrightarrow> taken s (xs @ Free s # ys) (xs @ Used s # ys) k"
  by (auto simp: taken_def)

lemma taken_split:
  "n < s \<Longrightarrow> k = 1 + pages xs \<Longrightarrow> taken n (xs @ Free s # ys) (xs @ Used n # Free (s - n) # ys) k"
  unfolding taken_def by (intro exI [of _ xs] exI [of _ s] exI [of _ ys]) simp

lemma of_nat_u8_eq: "a < 256 \<Longrightarrow> b < 256 \<Longrightarrow> (of_nat a :: u8) = of_nat b \<longleftrightarrow> a = b"
  by (simp add: word_of_nat_eq_iff take_bit_eq_mod)

lemma of_nat_u64_less: "a < 2 ^ 52 \<Longrightarrow> b < 2 ^ 52 \<Longrightarrow> (of_nat a < (of_nat b :: u64)) = (a < b)"
  by (simp add: word_less_nat_alt unat_of_nat)

lemma of_nat_u64_eq: "a < 2 ^ 52 \<Longrightarrow> b < 2 ^ 52 \<Longrightarrow> (of_nat a = (of_nat b :: u64)) = (a = b)"
  by (simp add: word_of_nat_eq_iff take_bit_eq_mod)

lemma slab_skip_search_ok:
  assumes "slab_inv h rs m" and n: "1 \<le> n" "n \<le> 127" and "search_inv n rs i sk msk"
  shows "search_result h n rs m {n..127}
    (slab_skip_search h (of_nat n) (of_nat (n - 1)) (of_nat i) (of_nat (32 * i)) sk msk m)"
  using assms(1,4)
proof (induction "(4 - i) * 40 + card {x. bit sk x}" arbitrary: i sk msk m rule: less_induct)
  case less
  note inv = less.prems(1) and s = less.prems(2)
  have i: "i < 4" using s by (simp add: search_inv_def)
  show ?case
  proof (cases "sk = 0")
    case True
    obtain m1 where m1: "store32 m (slab_skiplist h (of_nat i)) (msk OR sk) = Some m1" "slab_step h rs rs m m1"
      by (rule search_write_back [OF inv s])
    have inv1: "slab_inv h rs m1" using m1(2) by (simp add: slab_step_def)
    have i1: "of_nat i + 1 = (of_nat (i + 1) :: u8)" "of_nat (32 * i) + 32 = (of_nat (32 * (i + 1)) :: u32)"
      by simp_all
    have i4: "(of_nat (i + 1) = (4 :: u8)) = (i + 1 = 4)" using of_nat_u8_eq [of "i + 1" 4] i by simp
    show ?thesis
    proof (cases "i + 1 = 4")
      case last: True
      have e: "l < n \<or> 127 < l" if l: "has_free rs l" for l
      proof (rule ccontr)
        assume "\<not> (l < n \<or> 127 < l)"
        then have b: "i \<le> (l - 1) div 32" "n \<le> l" "l \<le> 127" using s l by (auto simp: search_inv_def)
        then have q: "(l - 1) div 32 = i" using last by auto
        then have "bit msk ((l - 1) mod 32)" using s l b(3) True by (auto simp: search_inv_def)
        then have "32 * i + (l - 1) mod 32 < n - 1" using s by (simp add: search_inv_def)
        then show False using q b(2) mult_div_mod_eq [of 32 "l - 1"] by simp
      qed
      have "slab_skip_search h (of_nat n) (of_nat (n - 1)) (of_nat i) (of_nat (32 * i)) sk msk m = Some (None, m1)"
        using m1(1) i4 last by (subst slab_skip_search.simps) (simp add: True i1 layout_simps)
      moreover have "\<forall>l\<in>{n..127}. \<not> has_free rs l" using e by fastforce
      ultimately show ?thesis using m1(2) unfolding search_result_def by blast
    next
      case False
      then have i': "i + 1 < 4" using i by simp
      note s' = search_next_word [OF inv1 s [unfolded True] i']
      have "(4 - (i + 1)) * 40 + card {x. bit (skip_word h (cells m1) (i + 1)) x} < (4 - i) * 40 + card {x. bit sk x}"
        using card_bits_le [of "skip_word h (cells m1) (i + 1)"] i' by simp
      note IH = less.hyps [OF this inv1 s']
      have "slab_skip_search h (of_nat n) (of_nat (n - 1)) (of_nat i) (of_nat (32 * i)) sk msk m
          = slab_skip_search h (of_nat n) (of_nat (n - 1)) (of_nat (i + 1)) (of_nat (32 * (i + 1)))
              (skip_word h (cells m1) (i + 1)) 0 m1"
        using m1(1) skip_access(1) [OF inv_basic(2) [OF inv1] i'] i4 False
        by (subst slab_skip_search.simps) (simp only: True i1 layout_simps, simp add: True add.commute)
      then show ?thesis using search_result_trans [OF m1(2) IH] by simp
    qed
  next
    case False
    obtain b where b: "builtin_ctz sk = Some b" "b < LENGTH(32)" "bit sk b" "\<And>j. j < b \<Longrightarrow> \<not> bit sk j"
      by (rule builtin_ctz_Some [OF False]) blast
    then have b32: "b < 32" by simp
    let ?j = "32 * i + b"
    have j: "n - 1 \<le> ?j" "?j < 127" using s b(3) by (auto simp: search_inv_def)
    note ix = search_bin_idx [OF b32 i]
    have "?j < 128" using j by simp
    with inv show ?thesis
    proof (cases rule: bin_head_cases)
      case 1
      note s' = search_clear [OF s b(3,4) 1(2) inv_basic(5) [OF inv]]
      have "(4 - i) * 40 + card {x. bit (sk AND (sk - 1)) x} < (4 - i) * 40 + card {x. bit sk x}"
        using card_clear_lowest [OF b(3,4)] by simp
      note IH = less.hyps [OF this inv s']
      have "slab_skip_search h (of_nat n) (of_nat (n - 1)) (of_nat i) (of_nat (32 * i)) sk msk m
          = slab_skip_search h (of_nat n) (of_nat (n - 1)) (of_nat i) (of_nat (32 * i)) (sk AND (sk - 1)) msk m"
        using 1(1) slab_bin_fields(1) [OF \<open>?j < 128\<close>] False
        by (subst slab_skip_search.simps) (simp only: b(1) ix bind.bind_lunit Let_def, simp)
      then show ?thesis using IH by simp
    next
      case (2 xs l ys)
      have l: "l = ?j + 1" using 2(4,5) j(2) by (auto simp: bin_no_def min_def split: if_splits)
      let ?k = "1 + pages xs"
      have req: "(of_nat ?j = (of_nat (n - 1) :: u8)) = (l = n)"
        using of_nat_u8_eq [of ?j "n - 1"] j n l by auto
      have gt: "(of_nat n < (of_nat l :: u64)) = (n < l)"
        using of_nat_u64_less [of n l] n j(2) l by simp
      have step: "slab_skip_search h (of_nat n) (of_nat (n - 1)) (of_nat i) (of_nat (32 * i)) sk msk m
          = (if l = n then do { m \<leftarrow> alloc_whole h (pg h ?k) (of_nat l) m; Some (Some (pg h ?k), m) }
             else do {
               m \<leftarrow> store32 m (slab_skiplist h (of_nat i)) (msk OR sk);
               m \<leftarrow> alloc_split slab_link_small h (pg h ?k) (of_nat l) (of_nat n) m;
               Some (Some (pg h ?k), m) })"
      proof -
        define J where "J = ?j"
        have J: "J < 128" "load64 m (slab_bin h (of_nat J) + bin_head) = Some (pg h ?k)"
          "pg h ?k \<noteq> bin_root h J" "of_nat J = (of_nat (n - 1) :: u8) \<longleftrightarrow> l = n" "l \<noteq> n \<Longrightarrow> n < l"
          using 2(1,2) j req l n unfolding J_def by auto
        have ix': "(ucast (of_nat (32 * i) + ucast (of_nat b :: u8) :: u32) :: u8) = of_nat J"
          "(ucast (of_nat J :: u8) + 1 :: u64) = of_nat l" using ix l by (simp_all only: J_def)
        show ?thesis
          by (subst slab_skip_search.simps)
            (simp only: b(1) ix' bind.bind_lunit Let_def J(2,3,4) slab_bin_fields(1) [OF J(1)] False
              if_False gt, cases "l = n", simp, use J(5) in simp)
      qed
      show ?thesis
      proof (cases "l = n")
        case True
        obtain m' where m': "alloc_whole h (pg h ?k) (of_nat l) m = Some m'"
          "slab_step h (xs @ Free l # ys) (xs @ Used l # ys) m m'"
          using alloc_whole_ok [of h xs l ys m ?k] inv 2(3) by auto
        then show ?thesis unfolding step search_result_def using True 2(3) taken_whole [of ?k xs l ys] by auto
      next
        case ne: False
        then have nl: "n < l" using j(1) l n by simp
        obtain m1 where m1: "store32 m (slab_skiplist h (of_nat i)) (msk OR sk) = Some m1" "slab_step h rs rs m m1"
          by (rule search_write_back [OF inv s])
        have inv1: "slab_inv h (xs @ Free l # ys) m1" using m1(2) 2(3) by (simp add: slab_step_def)
        have lk: "links_ok slab_link_small h (?k + l + pages ys) (l - n)"
          by (rule slab_link_small_links) (use nl j(2) l n in auto)
        obtain m' where m': "alloc_split slab_link_small h (pg h ?k) (of_nat l) (of_nat n) m1 = Some m'"
          "slab_step h (xs @ Free l # ys) (xs @ Used n # Free (l - n) # ys) m1 m'"
          using alloc_split_ok [OF inv1 refl _ nl lk] n by auto
        have "search_result h n rs m1 {n..127} (Some (Some (pg h ?k), m'))"
          unfolding search_result_def using m'(2) 2(3) taken_split [OF nl, of ?k xs ys] by auto
        then show ?thesis
          unfolding step using ne m1(1) m'(1) search_result_trans [OF m1(2)] by simp
      qed
    qed
  qed
qed

lemma free_size:
  assumes inv: "slab_inv h rs m" and l: "free_map 1 rs k = Some l"
  shows "load64 m (pg h k + slab_num_slabs) = Some (of_nat l)" "1 \<le> l" "l < 2 ^ 52"
    "pg h k + slab_num_slabs = pg h k + 24"
proof -
  note f = inv_basic [OF inv]
  have c: "cells m (pg h k + 24) = of_nat l \<and> 1 \<le> l" by (rule lay_sizes [OF f(4) l])
  have b: "1 \<le> k" "k + l \<le> 1 + pages rs" using free_map_bounds [OF l] by auto
  show "1 \<le> l" "l < 2 ^ 52" using c b f(3) by auto
  have "valid_cell m (pg h k + 24)" by (rule shape_valid [OF f(2)]) (use b c in auto)
  then show "load64 m (pg h k + slab_num_slabs) = Some (of_nat l)" using c by (simp add: layout_simps load64_valid)
  show "pg h k + slab_num_slabs = pg h k + 24" by (simp add: layout_simps)
qed

lemma large_bin_search_ok:
  assumes inv: "slab_inv h rs m" and ok: "bins_ok h (cells m) bins (free_map 1 rs)"
    and n: "127 < n" "n < 2 ^ 52" and b: "bins 127 = zs @ rest" and small: "\<And>j. j \<in> set zs \<Longrightarrow> the (free_map 1 rs j) < n"
  shows "search_result h n rs m {n..}
    (large_bin_search h (of_nat n) (bin_root h 127) (hd (map (pg h) rest @ [bin_root h 127])) m)"
  using b small
proof (induction rest arbitrary: zs)
  case Nil
  have "\<not> has_free rs l" if "n \<le> l" for l
  proof
    assume "has_free rs l"
    then obtain k where k: "free_map 1 rs k = Some l" using has_free_map [OF inv_basic(5) [OF inv]] by auto
    have "bin_no l = 127" using that n(1) by (simp add: bin_no_def)
    then have "k \<in> set zs" using bins_ok_mem [OF ok k] Nil.prems(1) by simp
    then show False using Nil.prems(2) [of k] k that by simp
  qed
  then show ?case using inv by (auto simp: large_bin_search.simps search_result_def)
next
  case (Cons k rest)
  let ?root = "bin_root h 127"
  have kin: "k \<in> set (bins 127)" using Cons.prems(1) by simp
  then obtain l where l: "free_map 1 rs k = Some l" using bins_okD(2) [OF ok, of 127] by auto
  obtain xs ys where rs: "rs = xs @ Free l # ys" "k = 1 + pages xs" using free_map_split [OF l] by auto
  note sz = free_size [OF inv l]
  have kb: "k \<in> {1..<2 ^ 52}" using l inv_basic(7) [OF inv] by auto
  have nr: "pg h k \<noteq> ?root" using bin_root_not_page [OF inv_basic(1) [OF inv] _ _, of k 127] kb by auto
  have cmp: "(of_nat l = (of_nat n :: u64)) = (l = n)" "(of_nat n < (of_nat l :: u64)) = (n < l)"
    using sz(3) n(2) of_nat_u64_eq [of l n] of_nat_u64_less [of n l] by auto
  have hdk: "hd (map (pg h) (k # rest) @ [?root]) = pg h k" by simp
  show ?case
  proof (cases "n \<le> l")
    case False
    have rg: "ring slab_nx slab_pv (cells m) ?root (map (pg h) zs @ pg h k # map (pg h) rest)"
      using bins_okD(1) [OF ok, of 127] Cons.prems(1) by simp
    have nx: "cells m (slab_nx (pg h k)) = hd (map (pg h) rest @ [?root])"
      using rg unfolding ring_def seg_append by (blast dest: seg_head_next)
    have "pg h k \<in> nodes h (dom (free_map 1 rs))" using l by (auto simp: nodes_def)
    then have v: "valid_cell m (slab_nx (pg h k))" by (rule valid_link_cells [OF inv_basic(2,6) [OF inv]])
    have "search_result h n rs m {n..} (large_bin_search h (of_nat n) ?root (hd (map (pg h) rest @ [?root])) m)"
      by (rule Cons.IH [of "zs @ [k]"]) (use Cons.prems False l in auto)
    moreover have "large_bin_search h (of_nat n) ?root (pg h k) m
        = large_bin_search h (of_nat n) ?root (hd (map (pg h) rest @ [?root])) m"
      using nr sz(1) False cmp v nx
      by (subst large_bin_search.simps) (simp add: load64_valid)
    ultimately show ?thesis unfolding hdk by simp
  next
    case True
    show ?thesis
    proof (cases "l = n")
      case True
      obtain m' where m': "alloc_whole h (pg h k) (of_nat l) m = Some m'"
        "slab_step h (xs @ Free l # ys) (xs @ Used l # ys) m m'"
        using alloc_whole_ok [of h xs l ys m k] inv rs by auto
      then show ?thesis unfolding hdk using nr sz(1) cmp True rs taken_whole [of k xs l ys]
        by (subst large_bin_search.simps) (auto simp: search_result_def)
    next
      case False
      then have nl: "n < l" using \<open>n \<le> l\<close> by simp
      have lk: "links_ok slab_link h (k + l + pages ys) (l - n)"
        by (rule slab_link_links) (use nl sz(3) in auto)
      obtain m' where m': "alloc_split slab_link h (pg h k) (of_nat l) (of_nat n) m = Some m'"
        "slab_step h (xs @ Free l # ys) (xs @ Used n # Free (l - n) # ys) m m'"
        using alloc_split_ok [of h xs l ys m k n, OF _ rs(2) _ nl lk] inv rs(1) n(1) by auto
      then show ?thesis unfolding hdk using nr sz(1) cmp False nl rs taken_split [OF nl rs(2), of ys]
        by (subst large_bin_search.simps) (auto simp: search_result_def)
    qed
  qed
qed

lemma first_search_inv:
  assumes inv: "slab_inv h rs m" and n: "1 \<le> n" "n \<le> 127" and i: "i = (n - 1) div 32"
    and msk: "msk = (push_bit ((n - 1) mod 32) 1 - 1) AND skip_word h (cells m) i"
  shows "search_inv n rs i (skip_word h (cells m) i XOR msk) msk"
proof -
  let ?w = "skip_word h (cells m) i" and ?q = "(n - 1) mod 32"
  have i4: "i < 4" using n i by auto
  note w = inv_skip_word [OF inv i4]
  have "push_bit ?q 1 - 1 = (mask ?q :: u32)" by (simp add: mask_eq_exp_minus_1 push_bit_eq_mult)
  then have bm: "bit msk b \<longleftrightarrow> b < ?q \<and> bit ?w b" for b
    unfolding msk by (auto simp: bit_and_iff bit_mask_iff dest: bit_imp_le_length)
  have bs: "bit (?w XOR msk) b \<longleftrightarrow> ?q \<le> b \<and> bit ?w b" for b by (auto simp: bit_xor_iff bm)
  have bo: "bit (msk OR (?w XOR msk)) b \<longleftrightarrow> bit ?w b" for b by (auto simp: bit_or_iff bs bm)
  have q: "32 * i + ?q = n - 1" using mult_div_mod_eq [of 32 "n - 1"] i by simp
  show ?thesis
    unfolding search_inv_def bo
  proof (intro conjI allI impI)
    show "i < 4" "(n - 1) div 32 \<le> i" using i4 i by simp_all
    fix b
    show "n - 1 \<le> 32 * i + b" "32 * i + b < 127" if "bit (?w XOR msk) b"
      using that w(2) q by (auto simp: bs)
    show "32 * i + b < n - 1" "32 * i + b < 127" if "bit msk b"
      using that w(2) q by (auto simp: bm)
  next
    fix l assume "has_free rs l" "l \<le> 127" "(l - 1) div 32 = i"
    then show "bit ?w ((l - 1) mod 32)" by (rule w(1))
  next
    fix l assume "n \<le> l"
    then show "i \<le> (l - 1) div 32" unfolding i by (intro div_le_mono) simp
  qed
qed

lemma search_result_mono:
  assumes "search_result h n rs m L res" and "\<And>l. l \<in> L' \<Longrightarrow> l \<notin> L \<Longrightarrow> \<not> has_free rs l"
  shows "search_result h n rs m L' res"
  using assms unfolding search_result_def by blast

lemma search_resultE:
  assumes "search_result h n rs m L res"
  obtains m' k rs' where "res = Some (Some (pg h k), m')" "taken n rs rs' k" "slab_step h rs rs' m m'"
    | m' where "res = Some (None, m')" "slab_step h rs rs m m'" "\<And>l. l \<in> L \<Longrightarrow> \<not> has_free rs l"
  using assms unfolding search_result_def by blast

lemma u32_of_u8: "k < 256 \<Longrightarrow> (ucast (of_nat k :: u8) :: u32) = of_nat k"
  by (rule unsigned_word_eqI [where ?'a = nat])
    (simp add: unsigned_ucast_eq unat_of_nat take_bit_eq_mod)

lemma skip_idx_bit:
  assumes "1 \<le> n" "n \<le> 127"
  shows "slab_bin_skiplist_idx (ucast (of_nat (n - 1) :: u8)) = of_nat ((n - 1) div 32)"
    and "unat (slab_bin_skiplist_bit (ucast (of_nat (n - 1) :: u8))) = (n - 1) mod 32"
    and "slab_bin_idx (of_nat n) = of_nat (n - 1)"
    and "(ucast (of_nat ((n - 1) div 32) :: u8) * (8 * 4) :: u32) = of_nat (32 * ((n - 1) div 32))"
proof -
  have b: "bin_no n = n - 1" using assms by (simp add: bin_no_def)
  show i: "slab_bin_idx (of_nat n) = of_nat (n - 1)" using slab_bin_idx_of_nat(1) [of n] assms b by simp
  have u: "(ucast (of_nat (n - 1) :: u8) :: u32) = of_nat (n - 1)"
    by (rule u32_of_u8) (use assms in simp)
  have n1: "n - 1 < 128" using assms by simp
  note w = skiplist_word(1,2) [of 0, OF _ n1]
  show "slab_bin_skiplist_idx (ucast (of_nat (n - 1) :: u8)) = of_nat ((n - 1) div 32)"
    unfolding u by (rule w(1)) (simp add: page_aligned_def)
  have "slab_bin_skiplist_bit (ucast (of_nat (n - 1) :: u8)) = of_nat ((n - 1) mod 32)"
    unfolding u by (rule w(2)) (simp add: page_aligned_def)
  moreover have "(n - 1) mod 32 < 256" using mod_less_divisor [of 32 "n - 1"] by linarith
  ultimately show "unat (slab_bin_skiplist_bit (ucast (of_nat (n - 1) :: u8))) = (n - 1) mod 32"
    by (simp add: unat_of_nat)
  have "(n - 1) div 32 < 4" using assms by auto
  then show "(ucast (of_nat ((n - 1) div 32) :: u8) * (8 * 4) :: u32) = of_nat (32 * ((n - 1) div 32))"
    by (intro unsigned_word_eqI [where ?'a = nat])
      (simp add: unsigned_ucast_eq unat_of_nat take_bit_eq_mod unat_word_ariths del: of_nat_mult)
qed

lemma slab_find_ok:
  assumes inv: "slab_inv h rs m" and n: "1 \<le> n" "n < 2 ^ 52"
  shows "search_result h n rs m {n..} (slab_find h (of_nat n) m)"
proof (cases "n \<le> 127")
  case True
  let ?i = "(n - 1) div 32"
  have i: "?i < 4" using n True by auto
  note ix = skip_idx_bit [OF n(1) True]
  let ?w = "skip_word h (cells m) ?i"
  define msk where "msk = (push_bit ((n - 1) mod 32) 1 - 1) AND ?w"
  note s = first_search_inv [OF inv n(1) True refl msk_def]
  note sr = slab_skip_search_ok [OF inv n(1) True s]
  have le: "of_nat n \<le> MAX_SEG_SLAB_SZ" using slab_bin_idx_of_nat(2) [of n] n True by simp
  have n127: "(128 :: nat) - 1 = 127" by simp
  have eq: "slab_find h (of_nat n) m = do {
      (found, m) \<leftarrow> slab_skip_search h (of_nat n) (of_nat (n - 1)) (of_nat ?i) (of_nat (32 * ?i)) (?w XOR msk) msk m;
      case found of Some s \<Rightarrow> Some (Some s, m)
      | None \<Rightarrow> do {
          s \<leftarrow> load64 m (slab_bin h (of_nat 127) + bin_head);
          if s \<noteq> slab_bin_start (slab_bin h (of_nat 127)) then do {
            s_size \<leftarrow> load64 m (s + slab_num_slabs);
            m \<leftarrow> alloc_split slab_link h s s_size (of_nat n) m;
            Some (Some s, m)
          } else Some (None, m)
        } }"
    unfolding slab_find_def Let_def ix skip_access(1) [OF inv_basic(2) [OF inv] i] bind.bind_lunit
      msk_def [symmetric] NUM_SLAB_BINS_def by (simp only: le if_True n127)
  from sr show ?thesis
  proof (cases rule: search_resultE)
    case (1 m' k rs')
    then have "slab_find h (of_nat n) m = Some (Some (pg h k), m')" unfolding eq by simp
    then show ?thesis using 1 unfolding search_result_def by blast
  next
    case (2 m1)
    have inv1: "slab_inv h rs m1" using 2(2) by (simp add: slab_step_def)
    have "(127 :: nat) < 128" by simp
    with inv1 have "search_result h n rs m1 {n..} (slab_find h (of_nat n) m)"
    proof (cases rule: bin_head_cases)
      case 1
      have "slab_find h (of_nat n) m = Some (None, m1)"
        unfolding eq 2(1) using 1(1) slab_bin_fields(1) [of 127 h] by simp
      moreover have "\<not> has_free rs l" if "n \<le> l" for l
        using 2(3) [of l] 1(2) [of l] that by (cases "l \<le> 127") (auto simp: bin_no_def)
      ultimately show ?thesis using inv1 unfolding search_result_def by auto
    next
      case hd: (2 xs l ys)
      let ?k = "1 + pages xs"
      have "free_map 1 rs ?k = Some l"
        using free_map_mid(1) [of xs ?k l ys] inv_basic(5) [OF inv] hd(3) by simp
      note sz = free_size [OF inv1 this]
      have "127 < l" using hd(4) by (auto simp: bin_no_def min_def split: if_splits)
      then have nl: "n < l" using True by simp
      have lk: "links_ok slab_link h (?k + l + pages ys) (l - n)"
        by (rule slab_link_links) (use nl sz(3) in auto)
      obtain m' where m': "alloc_split slab_link h (pg h ?k) (of_nat l) (of_nat n) m1 = Some m'"
        "slab_step h (xs @ Free l # ys) (xs @ Used n # Free (l - n) # ys) m1 m'"
        using alloc_split_ok [of h xs l ys m1 ?k n, OF _ refl _ nl lk] inv1 hd(3) n(1) by auto
      have "slab_find h (of_nat n) m = Some (Some (pg h ?k), m')"
        unfolding eq 2(1) using hd(1,2) slab_bin_fields(1) [of 127 h] sz(1) m'(1) by simp
      then show ?thesis using m'(2) hd(3) taken_split [OF nl, of ?k xs ys] unfolding search_result_def by auto
    qed
    then show ?thesis by (rule search_result_trans [OF 2(2)])
  qed
next
  case False
  obtain bins where ok: "bins_ok h (cells m) bins (free_map 1 rs)" using inv by (auto simp: slab_inv_def)
  have gt: "\<not> of_nat n \<le> MAX_SEG_SLAB_SZ" using slab_bin_idx_of_nat(2) [of n] n False by simp
  have rg: "ring slab_nx slab_pv (cells m) (bin_root h 127) (map (pg h) (bins 127))"
    by (rule bins_okD(1) [OF ok]) simp
  have hd: "cells m (slab_nx (bin_root h 127)) = hd (map (pg h) (bins 127) @ [bin_root h 127])"
    using rg unfolding ring_def by (blast dest: seg_head_next)
  have "bin_root h 127 \<in> nodes h (dom (free_map 1 rs))" by (auto simp: nodes_def)
  then have v: "valid_cell m (slab_nx (bin_root h 127))" by (rule valid_link_cells [OF inv_basic(2,6) [OF inv]])
  have "slab_find h (of_nat n) m = large_bin_search h (of_nat n) (bin_root h 127)
      (hd (map (pg h) (bins 127) @ [bin_root h 127])) m"
    using gt v hd slab_bin_fields(1,3) [of 127 h] by (simp add: slab_find_def NUM_SLAB_BINS_def load64_valid)
  then show ?thesis using large_bin_search_ok [OF inv ok _ n(2), of "[]" "bins 127"] False by simp
qed

end
