(* ===== verification/Slab_Alloc.thy ===== *)
theory Slab_Alloc
  imports Slab_Inv
begin

unbundle bit_operations_syntax

section \<open>Allocating and growing slabs\<close>

text \<open>
  The slab layer over any source of memory that behaves like \<^verbatim>\<open>sbrk\<close> (locale
  \<^verbatim>\<open>mem_source\<close>): growing the heap at its end, and \<^verbatim>\<open>__int_alloc_slab\<close>.
\<close>

subsection \<open>Growing the heap\<close>

definition slab_grow :: "u64 \<Rightarrow> region list \<Rightarrow> region list \<Rightarrow> memory \<Rightarrow> memory \<Rightarrow> bool" where
  "slab_grow h rs rs' m m' \<longleftrightarrow> slab_inv h rs' m' \<and> kept h (used_map 1 rs) (cells m) (cells m')
     \<and> m' = m\<lparr>cells := cells m', arena_end := pg h (1 + pages rs')\<rparr>"

lemma last_flag: "(get_lane 0 x AND (1 :: u32) = 0) \<longleftrightarrow> \<not> bit x 0"
proof -
  have "get_lane 0 x AND (1 :: u32) = 0 \<longleftrightarrow> \<not> bit (get_lane 0 x :: u32) 0"
    by (simp add: and_one_eq bit_0 even_iff_mod_2_eq_zero)
  then show ?thesis by (simp add: bit_get_lane)
qed

lemma changes_updI: "(\<And>a. a \<notin> X \<Longrightarrow> c' a = c a) \<Longrightarrow> changes h D X c c'"
  by (simp add: changes_def)

lemma arena_end_page:
  assumes "shape h N m" "unat (arena_end m) + unat (of_nat n * 4096 :: u64) < 2 ^ 64" "n < 2 ^ 52"
  shows "shape h (N + n) (m\<lparr>arena_end := arena_end m + of_nat n * 4096\<rparr>)"
    and "arena_end m + of_nat n * 4096 = pg h (N + n)" "arena_end m = pg h N"
proof -
  have e: "arena_end m = pg h N" using assms(1) by (simp add: shape_def)
  have "unat (pg h N) = unat h + 4096 * N" using assms(1) by (intro unat_pg) (simp add: shape_def)
  then have "unat h + 4096 * (N + n) < 2 ^ 64"
    using assms(2) unat_of_nat_page [OF assms(3)] e by simp
  then show "shape h (N + n) (m\<lparr>arena_end := arena_end m + of_nat n * 4096\<rparr>)"
    using assms(1) e by (simp add: shape_def pg_add)
  show "arena_end m + of_nat n * 4096 = pg h (N + n)" "arena_end m = pg h N" by (simp_all add: e pg_add)
qed

text \<open>The header cells after growing to \<open>N'\<close> pages with a used region at the end.\<close>

definition grown :: "u64 \<Rightarrow> nat \<Rightarrow> (u64 \<Rightarrow> u64) \<Rightarrow> u64 \<Rightarrow> u64" where
  "grown h N' c = c(h + 4072 := pg h N',
     h + 4080 := set_lane 0 (get_lane 0 (c (h + 4080)) OR (1 :: u32)) (c (h + 4080)))"

lemma grown_props:
  "grown h N' c (h + 4072) = pg h N'" "bit (grown h N' c (h + 4080)) 0"
  "a \<noteq> h + 4072 \<Longrightarrow> a \<noteq> h + 4080 \<Longrightarrow> grown h N' c a = c a"
  by (simp_all add: grown_def bit_or_lane32)

text \<open>Both ways to grow put a used region of \<open>n\<close> slabs at the end.\<close>

lemma grow_ok:
  assumes inv: "slab_inv h (xs @ zs) m" and k: "k = 1 + pages xs" and n: "1 \<le> n"
    and zs: "zs = [] \<or> (\<exists>s. zs = [Free s] \<and> s < n)" and prev: "last_used True xs"
    and sh: "shape h (k + n) m'" and bins: "\<exists>bins. bins_ok h c bins (free_map 1 xs)"
    and D: "insert k D \<subseteq> {1..<k + n}" "D \<subseteq> dom (free_map 1 xs)"
    and ch: "changes h (insert k D) {pg h k} (cells m) c"
    and fl: "bit (c (pg h k)) 0" "bit (c (pg h k)) 1"
    and m': "m' = m\<lparr>cells := grown h (k + n) c, arena_end := pg h (k + n)\<rparr>"
  shows "slab_grow h (xs @ zs) (xs @ [Used n]) m m'"
proof -
  let ?c' = "grown h (k + n) c" and ?Y = "{pg h k, h + 4072, h + 4080}"
  note f = inv_basic [OF inv]
  have h: "page_aligned h" by (rule f(1))
  have b52: "k + n < 2 ^ 52" using sh by (simp add: shape_def)
  have D': "insert k D \<subseteq> {1..<2 ^ 52}" using D b52 by fastforce
  have k1: "1 \<le> k" "k < 2 ^ 52" using k b52 by auto
  have ch': "changes h (insert k D) ?Y (cells m) ?c'"
    by (rule changes_trans [OF ch changes_updI [where D = "{}" and X = "{h + 4072, h + 4080}"]])
      (auto simp: grown_props(3))
  have ck: "?c' (pg h k) = c (pg h k)"
    by (rule grown_props(3)) (use h k1 in \<open>auto simp: page_simps\<close>)
  have "same_lay h 1 (1 + pages xs) (cells m) ?c'"
    unfolding k [symmetric]
    by (rule changes_same_lay [OF ch' h D']) (use h k1 in \<open>auto simp: page_simps\<close>)
  moreover have lxs: "lay h (cells m) 1 True xs" using f(4) by (simp add: lay_append)
  ultimately have "lay h ?c' 1 True xs" by (blast intro: lay_frame)
  then have "lay h ?c' 1 True (xs @ [Used n])" using fl ck prev n k by (simp add: lay_append)
  moreover have pos: "\<forall>r\<in>set xs. 0 < pages_of r" by (rule lay_pos_all [OF lxs])
  have F: "free_map 1 (xs @ [Used n]) = free_map 1 xs"
    using free_map_mid(2) [OF pos k, of n "[]"] by (simp add: outer_def)
  have D2: "dom (free_map 1 xs) \<subseteq> {1..<2 ^ 52}" using free_map_dom [OF pos, of 1] k b52 by force
  obtain bins where b: "bins_ok h c bins (free_map 1 xs)" using assms(7) by blast
  have "bins_ok h ?c' bins (free_map 1 xs)"
    unfolding grown_def by (intro bins_ok_upd b; rule header_plain [OF h D2]; simp)
  moreover have "kept h (used_map 1 (xs @ zs)) (cells m) ?c'"
  proof -
    have U: "used_map 1 (xs @ zs) = used_map 1 xs" using zs by (auto simp: used_map_append)
    have u: "1 \<le> j \<and> j < k \<and> j \<notin> D" if "used_map 1 xs i = Some l" "i \<le> j" "j < i + l" for i l j
      using used_map_bounds [OF that(1)] used_free_disjoint [OF that pos] that k D(2) by auto
    have p: "1 \<le> l" if "used_map 1 xs i = Some l" for i l using lay_used_pos [OF lxs that] .
    show ?thesis
      unfolding U
    proof (rule changes_kept [OF ch' h D'])
      fix i l j assume "used_map 1 xs i = Some l" "i \<le> j" "j < i + l"
      from u [OF this] show "1 \<le> j \<and> j < 2 ^ 52 \<and> j \<notin> insert k D" using k1 by auto
    next
      fix i l j d assume "used_map 1 xs i = Some l" "i \<le> j" "j < i + l" and d: "d < (4096 :: u64)"
      from u [OF this(1-3)] show "pg h j + d \<notin> ?Y" using k1 h d by (auto simp: page_simps)
    next
      fix i l ia assume a: "used_map 1 xs i = Some l" and x: "pg h i \<in> ?Y"
      have "pg h i \<notin> ?Y" using u [OF a, of i] p [OF a] k1 h by (auto simp: page_simps)
      with x show "bit (?c' (pg h i)) ia = bit (cells m (pg h i)) ia" by blast
    next
      fix d :: u64 assume "d < 4072"
      moreover from this have "d < 4096" by (rule less_trans) simp
      ultimately show "h + d \<notin> ?Y" using k1 h by (auto simp: page_simps)
    qed (rule p)
  qed
  ultimately show ?thesis
    using sh k m' F by (auto simp: slab_grow_def slab_inv_def end_ok_def grown_props)
qed

lemma flags_exec:
  assumes "shape h N m"
  shows "load32 m (h + heap_flags) = Some (get_lane 0 (cells m (h + 4080)))"
  using shape_valid_header [OF assms, of 4080] shape_aligned [OF assms]
  by (simp add: layout_simps load_lane_page)

lemma of_nat_u64_nz: "n < 2 ^ 52 \<Longrightarrow> of_nat n * SLAB_SIZE = (of_nat n * 4096 :: u64)"
  by (simp add: layout_simps)

lemma sizes_before_end:
  assumes "slab_inv h (xs @ [Free s]) m" and "k = 1 + pages xs"
  shows "0 < s" "cells m (pg h (k + s - 1) + 4088) = of_nat s" "cells m (pg h k + 24) = of_nat s"
    "1 + pages (xs @ [Free s]) = k + s"
proof -
  have "lay h (cells m) k (last_used True xs) [Free s]"
    using inv_basic(4) [OF assms(1)] unfolding lay_append assms(2) by blast
  then show "0 < s" "cells m (pg h (k + s - 1) + 4088) = of_nat s" "cells m (pg h k + 24) = of_nat s" by simp_all
  show "1 + pages (xs @ [Free s]) = k + s" by (simp add: assms(2))
qed

context mem_source
begin

lemma slab_extend_used:
  assumes inv: "slab_inv h rs m" and last: "last_used True rs" and src: "src_ok m"
    and room: "room (of_nat n * 4096) m" and n: "1 \<le> n" "n < 2 ^ 52"
  shows "\<exists>m'. slab_extend sbrk h (of_nat n) m = Some (pg h (1 + pages rs), m')
    \<and> slab_grow h rs (rs @ [Used n]) m m'"
proof -
  define N where "N = 1 + pages rs"
  note f = inv_basic [OF inv]
  have sh: "shape h N m" and h: "page_aligned h" and N: "N < 2 ^ 52" "1 \<le> N" using f by (simp_all add: N_def)
  obtain bins where b: "bins_ok h (cells m) bins (free_map 1 rs)" using inv by (auto simp: slab_inv_def)
  define m1 where "m1 = m\<lparr>arena_end := arena_end m + of_nat n * 4096\<rparr>"
  note ae = arena_end_page [OF sh room_no_wrap [OF src room] n(2)]
  have sh1: "shape h (N + n) m1" unfolding m1_def by (rule ae(1))
  have e: "cells m (h + 4072) = pg h N" "bit (cells m (h + 4080)) 0"
    using inv last by (simp_all add: slab_inv_def end_ok_def N_def)
  define c where "c = (cells m)(pg h N := set_lane 0 (3 :: u8) (cells m (pg h N)))"
  define m' where "m' = m\<lparr>cells := grown h (N + n) c, arena_end := pg h (N + n)\<rparr>"
  have ne: "pg h N \<noteq> h + 4072" "pg h N \<noteq> h + 4080" using h N by (simp_all add: page_simps)
  have v: "valid_cell m1 (pg h N)" "valid_cell m1 (h + 4072)" "valid_cell m1 (h + 4080)"
    using shape_valid0 [OF sh1, of N] n(1) shape_valid_header [OF sh1, of 4072] shape_valid_header [OF sh1, of 4080]
    by simp_all
  have c1: "cells m1 = cells m" by (simp add: m1_def)
  have sb: "sbrk (of_nat n * 4096) m = (pg h N, m1)" unfolding m1_def using sbrk_grow [OF src room] ae(3) by simp
  have "slab_extend sbrk h (of_nat n) m = Some (pg h N, m')"
    using v e sb ne h sh1 flags_exec [OF sh] heap_end_exec [OF sh] heap_end_exec [OF sh1] slab_plus_pg [of h N n]
      heap_set_flags_exec [OF h]
    by (simp add: slab_extend_def last_flag of_nat_u64_nz [OF n(2)] exec_simps c1 layout_simps
        m'_def c_def grown_def ae(2)) (simp add: m1_def ae(2))
  moreover have "slab_grow h (rs @ []) (rs @ [Used n]) m m'"
  proof (rule grow_ok [OF _ N_def n(1) disjI1 [OF refl] last])
    have "pg h N \<notin> link_cells h (dom (free_map 1 rs)) \<union> skip_cells h"
      by (rule page_plain0 [OF h f(7) N(2,1)])
    with b have "bins_ok h c bins (free_map 1 rs)" unfolding c_def by (rule bins_ok_upd)
    then show "\<exists>bins. bins_ok h c bins (free_map 1 rs)" by blast
    show "slab_inv h (rs @ []) m" using inv by simp
    show "shape h (N + n) m'" using sh1 by (simp add: shape_def m'_def m1_def)
    show "changes h (insert N {}) {pg h N} (cells m) c" by (simp add: changes_def c_def)
    show "bit (c (pg h N)) 0" "bit (c (pg h N)) 1" by (simp_all add: c_def bit_lane8)
  qed (use N n m'_def in auto)
  ultimately show ?thesis by (auto simp: N_def)
qed

lemma slab_extend_free:
  assumes inv: "slab_inv h (xs @ [Free s]) m" and k: "k = 1 + pages xs" and src: "src_ok m"
    and sn: "s < n" and room: "room (of_nat (n - s) * 4096) m" and n: "n < 2 ^ 52"
  shows "\<exists>m'. slab_extend sbrk h (of_nat n) m = Some (pg h k, m')
    \<and> slab_grow h (xs @ [Free s]) (xs @ [Used n]) m m'"
proof -
  define N r where "N = k + s" and "r = n - s"
  note z = sizes_before_end [OF inv k]
  have Np: "N = k + s + pages []" by (simp add: N_def)
  note g0 = inv_facts [OF inv k Np]
  have h: "page_aligned h" and sh: "shape h N m" and N: "N < 2 ^ 52" by (rule g0(1) g0(2) g0(3))+
  obtain c where u: "slab_unlink (pg h k) m = Some (m\<lparr>cells := c\<rparr>)" "mid_state h xs s [] m c"
    "\<And>d. d < 4096 \<Longrightarrow> d \<noteq> 8 \<Longrightarrow> d \<noteq> 16 \<Longrightarrow> c (pg h k + d) = cells m (pg h k + d)"
    by (rule unlink_mid [OF inv k]) blast
  note g = mid_facts [OF u(2) k Np]
  define m0 where "m0 = m\<lparr>cells := c\<rparr>"
  define m1 where "m1 = m0\<lparr>arena_end := arena_end m0 + of_nat r * 4096\<rparr>"
  have src0: "src_ok m0" "room (of_nat r * 4096) m0"
    using src room by (simp_all add: m0_def src_ok_cells room_cells r_def)
  have sh0: "shape h N m0" using sh by (simp add: m0_def)
  have r: "r < 2 ^ 52" "N + r = k + n" using n sn by (simp_all add: r_def N_def)
  note ae = arena_end_page [OF sh0 room_no_wrap [OF src0] r(1)]
  have sh1: "shape h (N + r) m1" unfolding m1_def by (rule ae(1))
  have D': "insert k (dom (outer xs (k + s) [])) \<subseteq> {1..<2 ^ 52}" by (rule g(4))
  have kN: "1 \<le> k" "k < N" "k < 2 ^ 52" "0 < N" using k z(1) N by (simp_all add: N_def)
  have cc: "c (pg h k) = cells m (pg h k)" "c (pg h k + 24) = of_nat s" using u(3) [of 0] u(3) [of 24] z(3) by simp_all
  have hd: "c (h + 4072) = pg h N" "c (h + 4080) = cells m (h + 4080)"
    using changes_header [OF g(3) h D', of 4072] changes_header [OF g(3) h D', of 4080] g0(10) h kN
    by (simp_all add: page_simps)
  define c2 where "c2 = c(pg h k := set_lane 0 (get_lane 0 (c (pg h k)) OR (1 :: u8)) (c (pg h k)))"
  define m' where "m' = m\<lparr>cells := grown h (N + r) c2, arena_end := pg h (N + r)\<rparr>"
  have ne: "pg h k \<noteq> h + 4072" "pg h k \<noteq> h + 4080" using h kN by (simp_all add: page_simps)
  have v: "valid_cell m (pg h (N - 1) + 4088)" "valid_cell m0 (pg h k + 24)"
    "valid_cell m1 (pg h k)" "valid_cell m1 (h + 4072)" "valid_cell m1 (h + 4080)"
    using shape_valid [OF sh, of "N - 1" 4088] shape_valid [OF sh0, of k 24] shape_valid0 [OF sh1, of k] kN
      shape_valid_header [OF sh1, of 4072] shape_valid_header [OF sh1, of 4080] by simp_all
  have fl: "\<not> bit (cells m (h + 4080)) 0" using g0(11) by simp
  have sb: "sbrk (of_nat r * 4096) m0 = (pg h N, m1)" unfolding m1_def using sbrk_grow [OF src0] ae(3) by simp
  have lt: "(of_nat s < (of_nat n :: u64))" "(of_nat n - of_nat s :: u64) = of_nat r"
    using of_nat_u64_less [of s n] sn n by (simp_all add: r_def of_nat_diff)
  have foot: "prev_adj_slab (pg h N) m = Some (pg h k)"
  proof -
    have "pg h k + of_nat s * 4096 = pg h N" by (simp add: N_def pg_add)
    then have "pg h N - of_nat s * 4096 = pg h k" by (simp add: algebra_simps)
    moreover have "load64 m (pg h N - 8) = Some (of_nat s)"
      using v(1) z(2) kN(4) by (simp add: pg_footer load64_valid N_def)
    ultimately show ?thesis by (simp add: prev_adj_slab_def layout_simps)
  qed
  have c1: "cells m1 = c" by (simp add: m1_def m0_def)
  have ae2: "arena_end m + of_nat r * 4096 = pg h (N + r)" using ae(2) by (simp add: m0_def)
  have "(of_nat n * 4096 - of_nat s * 4096 :: u64) = of_nat r * 4096"
    unfolding lt(2) [symmetric] by (simp add: algebra_simps)
  then have sb': "sbrk (of_nat n * 4096 - of_nat s * 4096) (m\<lparr>cells := c\<rparr>) = (pg h N, m1)"
    using sb by (simp only: m0_def)
  have "slab_extend sbrk h (of_nat n) m = Some (pg h k, m')"
    using v [unfolded m0_def] fl sb' ne h hd g0(10) flags_exec [OF sh] heap_end_exec [OF sh] heap_end_exec [OF sh1]
      slab_plus_pg [of h N r] heap_set_flags_exec [OF h] slab_set_flags_exec [OF pg_aligned [OF h]] foot u(1) lt cc
    unfolding slab_extend_def
    by (simp add: last_flag exec_simps c1 layout_simps m'_def c2_def grown_def)
      (simp add: m1_def ae2 m0_def)
  moreover have "slab_grow h (xs @ [Free s]) (xs @ [Used n]) m m'"
  proof (rule grow_ok [OF inv k])
    have o: "free_map 1 xs = outer xs (k + s) []" by (simp add: outer_def)
    obtain bins where b: "bins_ok h c bins (free_map 1 xs)" using g(2) unfolding o by blast
    have "pg h k \<notin> link_cells h (dom (free_map 1 xs)) \<union> skip_cells h"
      by (rule page_plain0 [OF h]) (use D' o kN in auto)
    with b have "bins_ok h c2 bins (free_map 1 xs)" unfolding c2_def by (rule bins_ok_upd)
    then show "\<exists>bins. bins_ok h c2 bins (free_map 1 xs)" by blast
    show "shape h (k + n) m'" using sh1 r by (simp add: shape_def m'_def m1_def m0_def)
    show "changes h (insert k (dom (free_map 1 xs))) {pg h k} (cells m) c2"
      by (rule changes_trans [OF g(3) changes_updI [where X = "{pg h k}" and D = "{}"]]) (auto simp: c2_def o [symmetric])
    show "bit (c2 (pg h k)) 0" "bit (c2 (pg h k)) 1" using g0(8) cc by (simp_all add: c2_def bit_or_lane8)
    show "insert k (dom (free_map 1 xs)) \<subseteq> {1..<k + n}"
      using g0(12) kN sn unfolding o N_def by force
  qed (use g0(9) sn r in \<open>auto simp: m'_def\<close>)
  ultimately show ?thesis by blast
qed

end

subsection \<open>\<^verbatim>\<open>__int_alloc_slab\<close>\<close>

definition last_free :: "region list \<Rightarrow> nat" where
  "last_free rs = (if rs = [] then 0 else case last rs of Free s \<Rightarrow> s | Used s \<Rightarrow> 0)"

text \<open>No used region of \<open>U\<close> meets the \<open>n\<close> pages from \<open>k\<close> on.\<close>

definition fresh :: "(nat \<rightharpoonup> nat) \<Rightarrow> nat \<Rightarrow> nat \<Rightarrow> bool" where
  "fresh U k n \<longleftrightarrow> (\<forall>i l. U i = Some l \<longrightarrow> i + l \<le> k \<or> k + n \<le> i)"

lemma used_map_pos:
  assumes "\<forall>r\<in>set rs. 0 < pages_of r" "used_map k rs j = Some l"
  shows "0 < l"
  using assms
proof (induction k rs rule: used_map.induct)
  case (3 k n rs)
  then show ?case by (cases "j = k") simp_all
qed simp_all

lemma outer_used_fresh:
  assumes "k = 1 + pages xs" "k + n \<le> e"
  shows "fresh (outer_used xs e ys) k n"
  unfolding fresh_def using outer_used_bounds [of xs e ys] assms by fastforce

lemma outer_used_upd:
  assumes pos: "\<forall>r\<in>set xs. 0 < pages_of r" and k: "k = 1 + pages xs"
  shows "used_map 1 (xs @ Used n # ys) = (outer_used xs (k + n) ys)(k \<mapsto> n)"
proof -
  have "used_map 1 xs k = None"
  proof (cases "used_map 1 xs k")
    case (Some l)
    then show ?thesis using used_map_bounds [OF Some] used_map_pos [OF pos Some] k by simp
  qed simp
  then have "k \<notin> dom (used_map 1 xs)" by auto
  then show ?thesis
    unfolding outer_used_def used_map_append k [symmetric] used_map.simps by (rule map_add_upd_left)
qed

lemma taken_props:
  assumes t: "taken n rs rs' k" and pos: "\<forall>r\<in>set rs. 0 < pages_of r"
  shows "pages rs' = pages rs" "used_map 1 rs' = (used_map 1 rs)(k \<mapsto> n)" "fresh (used_map 1 rs) k n"
    "\<exists>l\<ge>n. has_free rs l"
proof -
  obtain xs s ys where x: "rs = xs @ Free s # ys" "n \<le> s" "k = 1 + pages xs"
    "rs' = xs @ Used n # (if s = n then ys else Free (s - n) # ys)" using t by (auto simp: taken_def)
  have u: "used_map 1 rs = outer_used xs (k + s) ys" unfolding x(1) by (rule used_map_mid) (rule x(3))
  have p: "\<forall>r\<in>set xs. 0 < pages_of r" using pos x(1) by simp
  show "pages rs' = pages rs" using x by simp
  show "fresh (used_map 1 rs) k n" unfolding u by (rule outer_used_fresh [OF x(3)]) (use x(2) in simp)
  have "outer_used xs (k + n) (if s = n then ys else Free (s - n) # ys) = outer_used xs (k + s) ys"
    using x(2) by (simp add: outer_used_def)
  then show "used_map 1 rs' = (used_map 1 rs)(k \<mapsto> n)"
    unfolding u x(4) by (subst outer_used_upd [OF p x(3)]) simp
  show "\<exists>l\<ge>n. has_free rs l" using x(1,2) by (auto simp: has_free_def)
qed

lemma slab_step_grow: "slab_step h rs rs' m m' \<Longrightarrow> slab_grow h rs rs' m m'"
proof -
  assume s: "slab_step h rs rs' m m'"
  then have "arena_end m' = pg h (1 + pages rs')" by (simp add: slab_step_def slab_inv_def shape_def)
  moreover have "m' = m\<lparr>cells := cells m'\<rparr>" using s by (simp add: slab_step_def)
  ultimately have "m' = m\<lparr>cells := cells m', arena_end := pg h (1 + pages rs')\<rparr>"
    by (metis memory.surjective memory.update_convs(1,3))
  then show ?thesis using s by (simp add: slab_step_def slab_grow_def)
qed

lemma step_grow_trans:
  assumes "slab_step h rs rs m m1" "slab_grow h rs rs' m1 m2"
  shows "slab_grow h rs rs' m m2"
proof -
  have a: "m1 = m\<lparr>cells := cells m1\<rparr>" "m2 = m1\<lparr>cells := cells m2, arena_end := pg h (1 + pages rs')\<rparr>"
    using assms by (simp_all add: slab_step_def slab_grow_def)
  have "m2 = m\<lparr>cells := cells m2, arena_end := pg h (1 + pages rs')\<rparr>" by (subst a(2), subst a(1)) simp
  then show ?thesis using assms kept_trans unfolding slab_step_def slab_grow_def by blast
qed

lemma no_adjacent_last:
  assumes "slab_inv h rs m" "\<not> last_used True rs"
  obtains xs s where "rs = xs @ [Free s]"
proof (cases rs rule: rev_cases)
  case (snoc xs r)
  then show thesis using assms(2) that by (cases r) auto
qed (use assms(2) in simp)

context mem_source
begin

lemma src_ok_step: "slab_step h rs rs' m m' \<Longrightarrow> src_ok m' = src_ok m \<and> room n m' = room n m"
proof -
  assume "slab_step h rs rs' m m'"
  then have "m' = m\<lparr>cells := cells m'\<rparr>" by (simp add: slab_step_def)
  then show ?thesis by (metis src_ok_cells room_cells)
qed

theorem int_alloc_slab_ok:
  assumes inv: "slab_inv h rs m" and src: "src_ok m" and n: "1 \<le> n" "n < 2 ^ 52"
    and room: "\<forall>l\<ge>n. \<not> has_free rs l \<Longrightarrow> room (of_nat (n - last_free rs) * 4096) m"
  shows "\<exists>m' k rs'. int_alloc_slab sbrk h (of_nat n) m = Some (pg h k, m') \<and> slab_grow h rs rs' m m'
    \<and> used_map 1 rs' = (used_map 1 rs)(k \<mapsto> n) \<and> fresh (used_map 1 rs) k n
    \<and> pages rs' = pages rs + (if \<exists>l\<ge>n. has_free rs l then 0 else n - last_free rs)"
proof -
  note f = inv_basic [OF inv]
  from slab_find_ok [OF inv n] show ?thesis
  proof (cases rule: search_resultE)
    case (1 m' k rs')
    have "int_alloc_slab sbrk h (of_nat n) m = Some (pg h k, m')" by (simp add: int_alloc_slab_def 1(1))
    then show ?thesis using taken_props [OF 1(2) f(5)] slab_step_grow [OF 1(3)] by auto
  next
    case (2 m1)
    have no: "\<forall>l\<ge>n. \<not> has_free rs l" using 2(3) by simp
    have inv1: "slab_inv h rs m1" and src1: "src_ok m1"
      and room1: "room (of_nat (n - last_free rs) * 4096) m1"
      using 2(2) src room [OF no] src_ok_step [OF 2(2)] by (simp_all add: slab_step_def)
    have eq: "int_alloc_slab sbrk h (of_nat n) m = slab_extend sbrk h (of_nat n) m1"
      by (simp add: int_alloc_slab_def 2(1))
    show ?thesis
    proof (cases "last_used True rs")
      case True
      have "last_free rs = 0" using True by (auto simp: last_free_def last_used_def split: region.split)
      then obtain m' where m': "slab_extend sbrk h (of_nat n) m1 = Some (pg h (1 + pages rs), m')"
        "slab_grow h rs (rs @ [Used n]) m1 m'"
        using slab_extend_used [OF inv1 True src1 _ n] room1 by auto
      have "used_map 1 (rs @ [Used n]) = (used_map 1 rs)(1 + pages rs \<mapsto> n)"
        using outer_used_upd [OF f(5) refl, of n "[]"] by (simp add: outer_used_def)
      moreover have "fresh (used_map 1 rs) (1 + pages rs) n"
        using outer_used_fresh [of "1 + pages rs" rs n "1 + pages rs + n" "[]"] by (simp add: outer_used_def)
      moreover have "pages (rs @ [Used n]) = pages rs + (if \<exists>l\<ge>n. has_free rs l then 0 else n - last_free rs)"
        using no \<open>last_free rs = 0\<close> by auto
      ultimately show ?thesis using m' step_grow_trans [OF 2(2) m'(2)] unfolding eq by blast
    next
      case False
      obtain xs s where rs: "rs = xs @ [Free s]" by (rule no_adjacent_last [OF inv False])
      have s: "last_free rs = s" "s < n"
        using no by (simp add: rs last_free_def, cases "n \<le> s", auto simp: rs has_free_def)
      obtain m' where m': "slab_extend sbrk h (of_nat n) m1 = Some (pg h (1 + pages xs), m')"
        "slab_grow h rs (xs @ [Used n]) m1 m'"
        using slab_extend_free [OF inv1 [unfolded rs] refl src1 s(2) _ n(2)] room1 s(1) rs by auto
      have p: "\<forall>r\<in>set xs. 0 < pages_of r" using f(5) rs by simp
      have u: "used_map 1 rs = used_map 1 xs" by (simp add: rs used_map_append)
      have "used_map 1 (xs @ [Used n]) = (used_map 1 rs)(1 + pages xs \<mapsto> n)"
        using outer_used_upd [OF p refl, of n "[]"] u by (simp add: outer_used_def)
      moreover have "fresh (used_map 1 rs) (1 + pages xs) n"
        using outer_used_fresh [of "1 + pages xs" xs n "1 + pages xs + n" "[]"] u by (simp add: outer_used_def)
      moreover have "pages (xs @ [Used n]) = pages rs + (if \<exists>l\<ge>n. has_free rs l then 0 else n - last_free rs)"
        using no s rs by auto
      ultimately show ?thesis using m' step_grow_trans [OF 2(2) m'(2)] unfolding eq by blast
    qed
  qed
qed

text \<open>The provider's invariant survives an allocation.\<close>

lemma src_ok_alloc:
  assumes src: "src_ok m" and sh: "shape h N m" and g: "slab_grow h rs rs' m m'"
    and pg: "1 + pages rs' = N + r" and room: "0 < r \<Longrightarrow> room (of_nat r * 4096) m"
  shows "src_ok m'"
proof -
  have e: "arena_end m = pg h N" using sh by (simp add: shape_def)
  have m': "m' = (m\<lparr>arena_end := pg h N + of_nat r * 4096\<rparr>)\<lparr>cells := cells m'\<rparr>"
  proof -
    have "m' = m\<lparr>cells := cells m', arena_end := pg h (1 + pages rs')\<rparr>" using g by (simp add: slab_grow_def)
    moreover have "m\<lparr>cells := c, arena_end := x\<rparr> = m\<lparr>arena_end := x, cells := c\<rparr>" for c x by (cases m) simp
    ultimately show ?thesis by (metis pg pg_add)
  qed
  have "src_ok (m\<lparr>arena_end := pg h N + of_nat r * 4096\<rparr>)"
  proof (cases "r = 0")
    case False
    then show ?thesis using src_ok_grow [OF src room] e by simp
  next
    case True
    then have "m\<lparr>arena_end := pg h N + of_nat r * 4096\<rparr> = m" using e by simp
    then show ?thesis using src by simp
  qed
  then show ?thesis by (subst m') (simp only: src_ok_cells)
qed

end

subsection \<open>\<^verbatim>\<open>mm_init\<close>\<close>

definition bin_cells :: "u64 \<Rightarrow> nat set \<Rightarrow> u64 set" where
  "bin_cells h J = (\<lambda>j. slab_nx (bin_root h j)) ` J \<union> (\<lambda>j. slab_pv (bin_root h j)) ` J"

lemma bin_cells_sep:
  assumes "page_aligned h" "j < 128" "l < 128"
  shows "slab_nx (bin_root h j) \<noteq> slab_pv (bin_root h l)"
proof -
  have "bin_root h j \<in> nodes h {}" "bin_root h l \<in> nodes h {}" using assms by (auto simp: nodes_def)
  then show ?thesis by (rule sep_nodesD [OF nodes_sep [OF assms(1)], rotated]) simp
qed

lemma bin_cells_fresh:
  assumes h: "page_aligned h" and i: "i < 128" and J: "i \<notin> J" "J \<subseteq> {..<128}"
  shows "slab_nx (bin_root h i) \<notin> bin_cells h J" "slab_pv (bin_root h i) \<notin> bin_cells h J"
proof -
  have n: "bin_root h i \<noteq> bin_root h j" if "j \<in> J" for j
    using bin_root_inj [of i j h] i J that by auto
  have "slab_nx (bin_root h i) \<noteq> slab_nx (bin_root h j) \<and> slab_pv (bin_root h i) \<noteq> slab_pv (bin_root h j)
    \<and> slab_nx (bin_root h i) \<noteq> slab_pv (bin_root h j) \<and> slab_nx (bin_root h j) \<noteq> slab_pv (bin_root h i)"
    if "j \<in> J" for j
  proof -
    have j: "j < 128" using that J by auto
    show ?thesis using n [OF that] bin_cells_sep [OF h i j] bin_cells_sep [OF h j i] by simp
  qed
  note * = this
  show "slab_nx (bin_root h i) \<notin> bin_cells h J" "slab_pv (bin_root h i) \<notin> bin_cells h J"
    unfolding bin_cells_def using * by (blast dest: sym)+
qed

lemma init_slab_bins_ok:
  assumes "shape h N m" "i + k \<le> 128"
  shows "\<exists>c. init_slab_bins h i k m = Some (m\<lparr>cells := c\<rparr>)
    \<and> (\<forall>j. i \<le> j \<and> j < i + k \<longrightarrow> c (slab_nx (bin_root h j)) = bin_root h j \<and> c (slab_pv (bin_root h j)) = bin_root h j)
    \<and> (\<forall>a. a \<notin> bin_cells h {i..<i + k} \<longrightarrow> c a = cells m a)"
  using assms
proof (induction k arbitrary: i m)
  case 0
  then show ?case by (intro exI [of _ "cells m"]) auto
next
  case (Suc k)
  have h: "page_aligned h" by (rule shape_aligned [OF Suc.prems(1)])
  have i: "i < 128" using Suc.prems(2) by simp
  let ?r = "bin_root h i"
  have "?r \<in> nodes h {}" using i by (auto simp: nodes_def)
  then have v: "valid_cell m (slab_nx ?r)" "valid_cell m (slab_pv ?r)"
    using valid_link_cells [OF Suc.prems(1), of "{}"] by simp_all
  define m1 where "m1 = m\<lparr>cells := (cells m)(slab_nx ?r := ?r, slab_pv ?r := ?r)\<rparr>"
  have sh1: "shape h N m1" using Suc.prems(1) by (simp add: m1_def)
  have b: "Suc i + k \<le> 128" using Suc.prems(2) by simp
  obtain c where c: "init_slab_bins h (Suc i) k m1 = Some (m1\<lparr>cells := c\<rparr>)"
    "\<And>j. Suc i \<le> j \<Longrightarrow> j < Suc i + k \<Longrightarrow> c (slab_nx (bin_root h j)) = bin_root h j \<and> c (slab_pv (bin_root h j)) = bin_root h j"
    "\<And>a. a \<notin> bin_cells h {Suc i..<Suc i + k} \<Longrightarrow> c a = cells m1 a"
    using Suc.IH [OF sh1 b] by blast
  have "init_slab_bins h i (Suc k) m = Some (m\<lparr>cells := c\<rparr>)"
    using v c(1) slab_bin_fields [OF i, of h] by (simp add: exec_simps m1_def)
  moreover have "c (slab_nx (bin_root h j)) = bin_root h j \<and> c (slab_pv (bin_root h j)) = bin_root h j"
    if "i \<le> j" "j < i + Suc k" for j
  proof (cases "j = i")
    case True
    have "slab_nx ?r \<notin> bin_cells h {Suc i..<Suc i + k}" "slab_pv ?r \<notin> bin_cells h {Suc i..<Suc i + k}"
      by (rule bin_cells_fresh [OF h i]; use Suc.prems(2) in force)+
    then show ?thesis using c(3) True bin_cells_sep [OF h i i] by (simp add: m1_def)
  qed (use c(2) that in simp)
  moreover have "c a = cells m a" if "a \<notin> bin_cells h {i..<i + Suc k}" for a
  proof -
    have "a \<notin> bin_cells h {Suc i..<Suc i + k}" "a \<noteq> slab_nx ?r" "a \<noteq> slab_pv ?r"
      using that by (auto simp: bin_cells_def)
    then show ?thesis using c(3) by (simp add: m1_def)
  qed
  ultimately show ?case by blast
qed

lemma zero_cells_ok:
  assumes "shape h N m" "d + 8 * k \<le> 4096" "8 dvd d"
  shows "\<exists>c. zero_cells (h + of_nat d) k m = Some (m\<lparr>cells := c\<rparr>)
    \<and> (\<forall>j<k. c (h + of_nat (d + 8 * j)) = 0)
    \<and> (\<forall>a. (\<forall>j<k. a \<noteq> h + of_nat (d + 8 * j)) \<longrightarrow> c a = cells m a)"
  using assms
proof (induction k arbitrary: d m)
  case 0
  then show ?case by (intro exI [of _ "cells m"]) simp
next
  case (Suc k)
  have d: "(of_nat d :: u64) < 4096" "(of_nat d :: u64) AND 7 = 0"
  proof -
    show "(of_nat d :: u64) < 4096" using Suc.prems(2) by (simp add: word_less_nat_alt unat_of_nat)
    have "(of_nat d :: u64) AND 7 = take_bit 3 (of_nat d)" by (simp add: take_bit_eq_mask mask_eq_exp_minus_1)
    then have "unat ((of_nat d :: u64) AND 7) = take_bit 3 (unat (of_nat d :: u64))" by (simp only: unsigned_take_bit_eq)
    also have "\<dots> = d mod 8" using Suc.prems(2) by (simp add: unat_of_nat take_bit_eq_mod)
    finally show "(of_nat d :: u64) AND 7 = 0" using Suc.prems(3) by (simp add: unat_eq_zero)
  qed
  have v: "valid_cell m (h + of_nat d)" by (rule shape_valid_header [OF Suc.prems(1) d])
  define m1 where "m1 = m\<lparr>cells := (cells m)(h + of_nat d := 0)\<rparr>"
  have p: "shape h N m1" "d + 8 + 8 * k \<le> 4096" "8 dvd d + 8" using Suc.prems by (simp_all add: m1_def)
  obtain c where c: "zero_cells (h + of_nat (d + 8)) k m1 = Some (m1\<lparr>cells := c\<rparr>)"
    "\<And>j. j < k \<Longrightarrow> c (h + of_nat (d + 8 + 8 * j)) = 0"
    "\<And>a. (\<And>j. j < k \<Longrightarrow> a \<noteq> h + of_nat (d + 8 + 8 * j)) \<Longrightarrow> c a = cells m1 a"
    using Suc.IH [OF p] by blast
  have "zero_cells (h + of_nat d) (Suc k) m = Some (m\<lparr>cells := c\<rparr>)"
    using v c(1) by (simp add: exec_simps m1_def add.assoc)
  moreover have "c (h + of_nat (d + 8 * j)) = 0" if "j < Suc k" for j
  proof (cases j)
    case 0
    have "(of_nat d :: u64) \<noteq> of_nat (d + 8 + 8 * i)" if "i < k" for i
    proof -
      have "d < 2 ^ 52" "d + 8 + 8 * i < 2 ^ 52" using p(2) that by auto
      from of_nat_u64_eq [OF this] show ?thesis by simp
    qed
    then have "c (h + of_nat d) = cells m1 (h + of_nat d)" by (intro c(3)) (simp del: of_nat_add)
    then show ?thesis using 0 by (simp add: m1_def)
  next
    case (Suc i)
    then show ?thesis using c(2) [of i] that by (simp add: algebra_simps)
  qed
  moreover have "c a = cells m a" if a: "\<forall>j<Suc k. a \<noteq> h + of_nat (d + 8 * j)" for a
  proof -
    have "a \<noteq> h + of_nat (d + 8 + 8 * j)" if "j < k" for j
      using a [rule_format, of "Suc j"] that by (simp add: algebra_simps)
    then have "c a = cells m1 a" by (rule c(3))
    moreover have "a \<noteq> h + of_nat d" using a [rule_format, of 0] by simp
    ultimately show ?thesis by (simp add: m1_def)
  qed
  ultimately show ?case by blast
qed

context mem_source
begin

lemma mm_init_ok:
  assumes src: "src_ok m" "room 4096 m" and h: "page_aligned h" "arena_start m = h" "arena_end m = h"
  shows "\<exists>m'. mm_init sbrk m = Some (True, m') \<and> heap_ptr m' = h \<and> slab_inv h [] m'
    \<and> m' = m\<lparr>cells := cells m', arena_end := h + 4096, heap_ptr := h\<rparr>
    \<and> (\<forall>i<253. cells m' (h + of_nat (2048 + 8 * i)) = 0)"
proof -
  define m1 where "m1 = m\<lparr>arena_end := h + 4096\<rparr>"
  have sb: "sbrk 4096 m = (h, m1)" using sbrk_grow [OF src] h(3) by (simp add: m1_def)
  have "unat h + 4096 < 2 ^ 64" using room_no_wrap [OF src] h(3) by simp
  then have sh1: "shape h 1 m1" using h by (simp add: shape_def m1_def pg_def)
  obtain c where c: "init_slab_bins h 0 128 m1 = Some (m1\<lparr>cells := c\<rparr>)"
    "\<And>j. j < 128 \<Longrightarrow> c (slab_nx (bin_root h j)) = bin_root h j \<and> c (slab_pv (bin_root h j)) = bin_root h j"
    using init_slab_bins_ok [OF sh1, of 0 128] by auto
  have sh2: "shape h 1 (m1\<lparr>cells := c\<rparr>)" using sh1 by simp
  obtain c2 where c2: "zero_cells (h + of_nat 2048) 253 (m1\<lparr>cells := c\<rparr>) = Some (m1\<lparr>cells := c2\<rparr>)"
    "\<And>i. i < 253 \<Longrightarrow> c2 (h + of_nat (2048 + 8 * i)) = 0"
    "\<And>a. (\<And>i. i < 253 \<Longrightarrow> a \<noteq> h + of_nat (2048 + 8 * i)) \<Longrightarrow> c2 a = c a"
    using zero_cells_ok [OF sh2, of 2048 253] by auto
  have "valid_cell m1 (h + 4072)" "valid_cell m1 (h + 4080)"
    using shape_valid_header [OF sh1, of 4072] shape_valid_header [OF sh1, of 4080] by simp_all
  note v = this
  define c3 where "c3 = c2(h + 4072 := h + 4096, h + 4080 := set_lane 0 (1 :: u32) (c2 (h + 4080)))"
  define m' where "m' = m\<lparr>cells := c3, arena_end := h + 4096, heap_ptr := h\<rparr>"
  have hs: "heap_start h = h + 4096" by (simp add: heap_start_def ALIGN_UP_def layout_simps)
  have up: "ALIGN_UP sizeof_heap SLAB_SIZE = 4096" by (simp add: ALIGN_UP_def layout_simps)
  have "mm_init sbrk m = Some (True, m')"
    using sb c(1) c2(1) v h(1) unfolding mm_init_def up
    by (simp add: layout_simps exec_simps) (simp add: m'_def c3_def m1_def hs)
  moreover have keep: "c3 (h + d) = c (h + d)" if "d < 2048" for d
  proof -
    have d: "unat d < 2048" using that by (simp add: word_less_nat_alt)
    have "h + d \<noteq> h + of_nat (2048 + 8 * i)" if "i < 253" for i
    proof
      assume "h + d = h + of_nat (2048 + 8 * i)"
      then have "unat d = unat (of_nat (2048 + 8 * i) :: u64)" by (simp only: add_left_cancel)
      moreover have "unat (of_nat (2048 + 8 * i) :: u64) = 2048 + 8 * i" using that by (simp only: unat_of_nat) simp
      ultimately show False using d by linarith
    qed
    then have "c2 (h + d) = c (h + d)" by (rule c2(3))
    moreover have "d \<noteq> 4072" "d \<noteq> 4080" using that by auto
    ultimately show ?thesis by (simp add: c3_def)
  qed
  moreover have z: "c3 (h + of_nat (2048 + 8 * i)) = 0" if "i < 253" for i
  proof -
    have "unat (of_nat (2048 + 8 * i) :: u64) = 2048 + 8 * i" using that by (simp only: unat_of_nat) simp
    then have "(of_nat (2048 + 8 * i) :: u64) \<noteq> 4072" "(of_nat (2048 + 8 * i) :: u64) \<noteq> 4080"
      using that by auto
    then show ?thesis using c2(2) [OF that] by (simp add: c3_def del: of_nat_add of_nat_mult)
  qed
  moreover have "slab_inv h [] m'"
  proof -
    have "ring slab_nx slab_pv c3 (bin_root h i) []" if "i < 128" for i
      using c(2) [OF that] keep small_bin_offsets(1,2) [OF that] bin_root_fields [OF that, of h]
      by (simp add: ring_def)
    moreover have "\<not> skip_bit h c3 i" if "i < 128" for i
    proof -
      have "i div 64 = 0 \<or> i div 64 = 1" using that by linarith
      then show ?thesis using z [of 247] z [of 248] by (auto simp: skip_bit_def)
    qed
    ultimately have "bins_ok h c3 (\<lambda>_. []) (free_map 1 [])" by (simp add: bins_ok_def)
    then have "\<exists>bins. bins_ok h (cells m') bins (free_map 1 [])" unfolding m'_def by auto
    then show ?thesis
      using sh1 by (auto simp: slab_inv_def end_ok_def shape_def m'_def m1_def c3_def pg_def bit_set_lane)
  qed
  ultimately show ?thesis by (intro exI [of _ m']) (simp add: m'_def)
qed

end

subsection \<open>When the arena cannot grow\<close>

text \<open>
  A request that \<^verbatim>\<open>sbrk\<close> answers with anything else than the end of the arena. What else it does
  with the arena is open; the cells keep their contents.
\<close>

definition disagrees :: "sbrk_fn \<Rightarrow> u64 \<Rightarrow> memory \<Rightarrow> bool" where
  "disagrees sbrk k m \<longleftrightarrow> (\<forall>c. fst (sbrk k (m\<lparr>cells := c\<rparr>)) \<noteq> arena_end m \<and> cells (snd (sbrk k (m\<lparr>cells := c\<rparr>))) = c)"

lemma disagreesD:
  assumes "disagrees sbrk k m" "sbrk k (m\<lparr>cells := c\<rparr>) = (ext, mx)"
  shows "ext \<noteq> arena_end m" "cells mx = c"
  using assms unfolding disagrees_def by (metis fst_conv, metis snd_conv)

lemma disagreesD0:
  assumes "disagrees sbrk k m" "sbrk k m = (ext, mx)"
  shows "ext \<noteq> arena_end m" "cells mx = cells m"
  using disagreesD [of sbrk k m "cells m" ext mx] assms by simp_all

lemma disagrees_cells: "disagrees sbrk k (m\<lparr>cells := c\<rparr>) = disagrees sbrk k m"
  by (simp add: disagrees_def)

text \<open>Then the assertion after the call fails.\<close>

lemma heap_end_grown: "cells mx = c \<Longrightarrow> heap_end h mx = None \<or> heap_end h mx = Some (c (h + 4072))"
  by (simp add: heap_end_def layout_simps load64_def)

lemma slab_extend_assert_used:
  assumes inv: "slab_inv h rs m" and last: "last_used True rs" and sb: "disagrees sbrk (of_nat n * 4096) m"
  shows "slab_extend sbrk h (of_nat n) m = None"
proof -
  note f = inv_basic [OF inv]
  have e: "cells m (h + 4072) = pg h (1 + pages rs)" "bit (cells m (h + 4080)) 0"
    using inv last by (simp_all add: slab_inv_def end_ok_def)
  obtain ext mx where s: "sbrk (of_nat n * 4096) m = (ext, mx)" by (metis surj_pair)
  have "ext \<noteq> pg h (1 + pages rs)" "heap_end h mx = None \<or> heap_end h mx = Some (pg h (1 + pages rs))"
    using disagreesD0 [OF sb s] heap_end_grown [of mx "cells m" h] f(2) e(1) by (simp_all add: shape_def)
  then show ?thesis
    using e s flags_exec [OF f(2)] heap_end_exec [OF f(2)]
    by (auto simp: slab_extend_def last_flag layout_simps malloc_assert_def)
qed

lemma slab_extend_assert_free:
  assumes inv: "slab_inv h (xs @ [Free s]) m" and k: "k = 1 + pages xs" 
    and sn: "s < n" and dis: "disagrees sbrk (of_nat (n - s) * 4096) m" and n: "n < 2 ^ 52"
  shows "slab_extend sbrk h (of_nat n) m = None"
proof -
  define N where "N = k + s"
  note z = sizes_before_end [OF inv k]
  have Np: "N = k + s + pages []" by (simp add: N_def)
  note g0 = inv_facts [OF inv k Np]
  have h: "page_aligned h" and sh: "shape h N m" by (rule g0(1) g0(2))+
  obtain c where u: "slab_unlink (pg h k) m = Some (m\<lparr>cells := c\<rparr>)" "mid_state h xs s [] m c"
    "\<And>d. d < 4096 \<Longrightarrow> d \<noteq> 8 \<Longrightarrow> d \<noteq> 16 \<Longrightarrow> c (pg h k + d) = cells m (pg h k + d)"
    by (rule unlink_mid [OF inv k]) blast
  note g = mid_facts [OF u(2) k Np]
  define m0 where "m0 = m\<lparr>cells := c\<rparr>"
  obtain ext mx where sb: "sbrk (of_nat (n - s) * 4096) m0 = (ext, mx)" by (metis surj_pair)
  have dd: "ext \<noteq> pg h N" "cells mx = c"
    using disagreesD [OF dis sb [unfolded m0_def]] sh by (simp_all add: shape_def)
  have kN: "1 \<le> k" "k < N" "k < 2 ^ 52" "0 < N" using k z(1) g0(3) by (simp_all add: N_def)
  have "h + d \<noteq> pg h k" if "d < 4096" for d using that kN h by (simp add: page_simps)
  then have hd: "c (h + 4072) = pg h N" using g0(10) changes_header [OF g(3) h g(4), of 4072] by simp
  have hx: "heap_end h mx = None \<or> heap_end h mx = Some (pg h N)" using heap_end_grown [OF dd(2), of h] hd by simp
  have sh0: "shape h N m0" using sh by (simp add: m0_def)
  have v: "valid_cell m (pg h (N - 1) + 4088)" "valid_cell m0 (pg h k + 24)"
    using shape_valid [OF sh, of "N - 1" 4088] shape_valid [OF sh0, of k 24] kN by simp_all
  have lt: "of_nat s < (of_nat n :: u64)" "(of_nat n * 4096 - of_nat s * 4096 :: u64) = of_nat (n - s) * 4096"
    using of_nat_u64_less [of s n] sn n by (simp_all add: of_nat_diff algebra_simps)
  have foot: "prev_adj_slab (pg h N) m = Some (pg h k)"
  proof -
    have "pg h k + of_nat s * 4096 = pg h N" by (simp add: N_def pg_add)
    then have "pg h N - of_nat s * 4096 = pg h k" by (simp add: algebra_simps)
    moreover have "load64 m (pg h N - 8) = Some (of_nat s)"
      using v(1) z(2) kN(4) by (simp add: pg_footer load64_valid N_def)
    ultimately show ?thesis by (simp add: prev_adj_slab_def layout_simps)
  qed
  have c24: "c (pg h k + 24) = of_nat s" using u(3) [of 24] z(3) by simp
  have fl: "\<not> bit (cells m (h + 4080)) 0" using g0(11) by simp
  have ex: "(case sbrk (of_nat n * 4096 - of_nat s * 4096) (m\<lparr>cells := c\<rparr>) of (e, mx) \<Rightarrow> f e mx) = f ext mx" for f :: "_ \<Rightarrow> _ \<Rightarrow> 'a"
    using sb lt(2) by (simp add: m0_def)
  show ?thesis
    using v [unfolded m0_def] fl hd hx dd(1) flags_exec [OF sh] heap_end_exec [OF sh] foot u(1) lt(1) c24 g0(10)
    unfolding slab_extend_def
    by (auto simp: last_flag exec_simps layout_simps ex malloc_assert_def Let_def)
qed

lemma int_alloc_slab_assert:
  assumes inv: "slab_inv h rs m" and n: "1 \<le> n" "n < 2 ^ 52"
    and no: "\<forall>l\<ge>n. \<not> has_free rs l" and dis: "disagrees sbrk (of_nat (n - last_free rs) * 4096) m"
  obtains m1 where "slab_find h (of_nat n) m = Some (None, m1)" "slab_inv h rs m1"
    "slab_extend sbrk h (of_nat n) m1 = None"
  using slab_find_ok [OF inv n]
proof (cases rule: search_resultE)
  case (1 m' k rs')
  then show thesis using taken_props(4) [OF 1(2) inv_basic(5) [OF inv]] no by blast
next
  case (2 m1)
  have inv1: "slab_inv h rs m1" and m1: "m1 = m\<lparr>cells := cells m1\<rparr>" using 2(2) by (simp_all add: slab_step_def)
  have dis1: "disagrees sbrk (of_nat (n - last_free rs) * 4096) m1"
    using dis disagrees_cells [where m = m and c = "cells m1"] m1 by metis
  have "slab_extend sbrk h (of_nat n) m1 = None"
  proof (cases "last_used True rs")
    case True
    have "last_free rs = 0" using True by (auto simp: last_free_def last_used_def split: region.split)
    then show ?thesis using slab_extend_assert_used [OF inv1 True] dis1 by simp
  next
    case False
    obtain xs s where rs: "rs = xs @ [Free s]" by (rule no_adjacent_last [OF inv False])
    have s: "last_free rs = s" "s < n"
      using no by (simp add: rs last_free_def, cases "n \<le> s", auto simp: rs has_free_def)
    then show ?thesis using slab_extend_assert_free [OF inv1 [unfolded rs] refl s(2) _ n(2)] dis1 by simp
  qed
  then show thesis using that 2(1) inv1 by blast
qed

context mem_source
begin

lemma refuse_disagrees:
  assumes src: "src_ok m" and room: "\<not> room k m"
  shows "disagrees sbrk k m"
  unfolding disagrees_def
proof
  fix c
  have s: "src_ok (m\<lparr>cells := c\<rparr>)" "\<not> room k (m\<lparr>cells := c\<rparr>)" using src room by (simp_all add: src_ok_cells room_cells)
  show "fst (sbrk k (m\<lparr>cells := c\<rparr>)) \<noteq> arena_end m \<and> cells (snd (sbrk k (m\<lparr>cells := c\<rparr>))) = c"
    using sbrk_refuse_state [OF s] sbrk_refuse_value [OF s] by simp
qed

lemma int_alloc_slab_refuse:
  assumes inv: "slab_inv h rs m" and src: "src_ok m" and n: "1 \<le> n" "n < 2 ^ 52"
    and no: "\<forall>l\<ge>n. \<not> has_free rs l" and room: "\<not> room (of_nat (n - last_free rs) * 4096) m"
  shows "int_alloc_slab sbrk h (of_nat n) m = None"
  by (rule int_alloc_slab_assert [OF inv n no refuse_disagrees [OF src room]]) (simp add: int_alloc_slab_def)

end

end
