(* ===== verification/Slab_Free.thy ===== *)
theory Slab_Free
  imports Slab_Alloc
begin

unbundle bit_operations_syntax

section \<open>Giving slabs back\<close>

text \<open>
  \<^verbatim>\<open>__int_free_slab\<close>, \<^verbatim>\<open>__int_free_remainder_slab\<close> and \<^verbatim>\<open>__int_take_slab\<close>: a run
  of slabs in limbo merges with the free regions on both sides, and a used region grows
  into the free one after it.
\<close>

subsection \<open>Pages in limbo\<close>

text \<open>
  While a run of pages is given back there is a state in which \<open>n\<close> pages after the regions
  \<open>xs\<close> belong to no region. \<open>p\<close> says whether the regions \<open>ys\<close> after them still take the
  limbo for allocated.
\<close>

definition limbo :: "u64 \<Rightarrow> bool \<Rightarrow> region list \<Rightarrow> nat \<Rightarrow> region list \<Rightarrow> memory \<Rightarrow> bool" where
  "limbo h p xs n ys m \<longleftrightarrow> (let k = 1 + pages xs; N = k + n + pages ys in
     shape h N m \<and> 0 < n \<and> last_used True xs \<and> lay h (cells m) 1 True xs
     \<and> lay h (cells m) (k + n) p ys \<and> cells m (h + 4072) = pg h N
     \<and> (bit (cells m (h + 4080)) 0 \<longleftrightarrow> last_used p ys)
     \<and> (\<exists>bins. bins_ok h (cells m) bins (outer xs (k + n) ys)))"

definition quiet :: "u64 \<Rightarrow> (nat \<rightharpoonup> nat) \<Rightarrow> memory \<Rightarrow> memory \<Rightarrow> bool" where
  "quiet h U m m' \<longleftrightarrow> kept h U (cells m) (cells m') \<and> m' = m\<lparr>cells := cells m'\<rparr>"

lemma quiet_trans: "quiet h U m m1 \<Longrightarrow> quiet h U m1 m2 \<Longrightarrow> quiet h U m m2"
  unfolding quiet_def by (metis kept_trans cells_update)

lemma quiet_refl [simp]: "quiet h U m m"
  by (simp add: quiet_def)

lemma kept_map_le:
  assumes "kept h U c c'" and "V \<subseteq>\<^sub>m U"
  shows "kept h V c c'"
proof -
  have "U k = Some n" if "V k = Some n" for k n using assms(2) that by (auto simp: map_le_def dom_def)
  with assms(1) show ?thesis unfolding kept_def by blast
qed

lemma limbo_facts:
  assumes "limbo h p xs n ys m" and k: "k = 1 + pages xs" and N: "N = k + n + pages ys"
  shows "page_aligned h" "shape h N m" "N < 2 ^ 52" "0 < n" "lay h (cells m) 1 True xs"
    "lay h (cells m) (k + n) p ys" "\<forall>r\<in>set (xs @ ys). 0 < pages_of r" "last_used True xs"
    "cells m (h + 4072) = pg h N" "bit (cells m (h + 4080)) 0 \<longleftrightarrow> last_used p ys"
    "dom (outer xs (k + n) ys) \<subseteq> {1..<k} \<union> {k + n..<N}" "sizes_ok h (cells m) (outer xs (k + n) ys)"
    "dom (outer xs (k + n) ys) \<subseteq> {1..<2 ^ 52}"
    "\<exists>bins. bins_ok h (cells m) bins (outer xs (k + n) ys)"
proof -
  note l = assms(1) [unfolded limbo_def Let_def, folded k, folded N]
  show "page_aligned h" "shape h N m" and N52: "N < 2 ^ 52" and "0 < n" and lx: "lay h (cells m) 1 True xs"
    and ly: "lay h (cells m) (k + n) p ys" and "last_used True xs"
    "cells m (h + 4072) = pg h N" "bit (cells m (h + 4080)) 0 \<longleftrightarrow> last_used p ys"
    "\<exists>bins. bins_ok h (cells m) bins (outer xs (k + n) ys)"
    using l by (auto simp: shape_def)
  show pos: "\<forall>r\<in>set (xs @ ys). 0 < pages_of r" using lay_pos [OF lx] lay_pos [OF ly] by auto
  have "dom (outer xs (k + n) ys) \<subseteq> {1..<1 + pages xs} \<union> {k + n..<k + n + pages ys}"
    by (rule outer_dom [OF pos]) (simp add: k)
  then show d: "dom (outer xs (k + n) ys) \<subseteq> {1..<k} \<union> {k + n..<N}" using k N by simp
  show "dom (outer xs (k + n) ys) \<subseteq> {1..<2 ^ 52}"
  proof
    fix j assume "j \<in> dom (outer xs (k + n) ys)"
    then have "j \<in> {1..<k} \<union> {k + n..<N}" using d by (rule subsetD [rotated])
    then show "j \<in> {1..<2 ^ 52}" using N52 k N by auto
  qed
  show "sizes_ok h (cells m) (outer xs (k + n) ys)"
    unfolding sizes_ok_def
  proof (intro allI impI)
    fix j l assume o: "outer xs (k + n) ys j = Some l"
    then have "free_map 1 xs j = Some l \<or> free_map (k + n) ys j = Some l" by (auto simp: outer_def map_add_Some_iff)
    then have "cells m (pg h j + 24) = of_nat l \<and> 1 \<le> l \<and> j + l \<le> N"
      using lay_sizes [OF lx] lay_sizes [OF ly] free_map_bounds k N by fastforce
    then show "cells m (pg h j + 24) = of_nat l \<and> 1 \<le> l \<and> l < 2 ^ 52" using N52 by auto
  qed
qed

lemma limbo_used:
  assumes "limbo h p xs n ys m" and k: "k = 1 + pages xs" and N: "N = k + n + pages ys"
    and "outer_used xs (k + n) ys i = Some l"
  shows "i \<le> j \<Longrightarrow> j < i + l \<Longrightarrow> 1 \<le> j \<and> j < N \<and> (j < k \<or> k + n \<le> j) \<and> j \<notin> dom (outer xs (k + n) ys)"
    and "1 \<le> l"
proof -
  note f = limbo_facts [OF assms(1-3)]
  show "1 \<le> j \<and> j < N \<and> (j < k \<or> k + n \<le> j) \<and> j \<notin> dom (outer xs (k + n) ys)" if j: "i \<le> j" "j < i + l"
    using outer_used_bounds [OF assms(4)] outer_disjoint [OF assms(4) j f(7)] j k N by auto
  have "used_map 1 xs i = Some l \<or> used_map (k + n) ys i = Some l"
    using assms(4) by (auto simp: outer_used_def map_add_Some_iff)
  then show "1 \<le> l" using lay_used_pos [OF f(5)] lay_used_pos [OF f(6)] by auto
qed

text \<open>A change of link cells and of a few cells in the limbo, the next slab's flags or the heap's keeps the rest.\<close>

lemma limbo_quiet:
  assumes li: "limbo h p xs n ys m" and k: "k = 1 + pages xs"
    and ch: "changes h D X (cells m) c'"
    and D: "D \<subseteq> {k..<k + n} \<union> dom (outer xs (k + n) ys)"
    and X: "\<And>a. a \<in> X \<Longrightarrow> a = h + 4080 \<or> a = pg h (k + n)
      \<or> (\<exists>j d. k \<le> j \<and> j < k + n \<and> d < 4096 \<and> a = pg h j + d)"
    and bits: "\<And>i. pg h (k + n) \<in> X \<Longrightarrow> i \<noteq> 1 \<Longrightarrow> bit (c' (pg h (k + n))) i = bit (cells m (pg h (k + n))) i"
  shows "quiet h (outer_used xs (k + n) ys) m (m\<lparr>cells := c'\<rparr>)"
proof -
  define N where "N = k + n + pages ys"
  note f = limbo_facts [OF li k N_def] and u = limbo_used [OF li k N_def]
  have h: "page_aligned h" and N52: "N < 2 ^ 52" by (rule f(1) f(3))+
  have D': "D \<subseteq> {1..<2 ^ 52}"
  proof
    fix j assume "j \<in> D"
    then have "j \<in> {k..<k + n} \<or> j \<in> dom (outer xs (k + n) ys)" using D by blast
    then show "j \<in> {1..<2 ^ 52}" using f(13) k N52 N_def by (auto dest: subsetD)
  qed
  have k52: "1 \<le> k" "k + n < 2 ^ 52" using k N52 N_def by auto
  have "kept h (outer_used xs (k + n) ys) (cells m) c'"
  proof (rule changes_kept [OF ch h D'])
    fix i l j assume a: "outer_used xs (k + n) ys i = Some l" "i \<le> j" "j < i + l"
    note b = u(1) [OF a]
    have nD: "j \<notin> D" using b D by auto
    then show "1 \<le> j \<and> j < 2 ^ 52 \<and> j \<notin> D" using b N52 by simp
    fix d :: u64 assume d: "d < 4096" "j \<noteq> i \<or> d \<noteq> 0"
    show "pg h j + d \<notin> X"
    proof
      assume "pg h j + d \<in> X"
      from X [OF this] consider "pg h j + d = h + 4080" | "pg h j + d = pg h (k + n)"
        | j' d' where "k \<le> j'" "j' < k + n" "d' < 4096" "pg h j + d = pg h j' + d'" by blast
      then show False
      proof cases
        case 1
        then show ?thesis using b d h N52 by (simp add: page_simps)
      next
        case 2
        then have e: "j = k + n" "d = 0" using b d h N52 k52 by (simp_all add: page_simps)
        then have "i < k + n" "k + n < i + l" using d a by auto
        then have "i \<le> k + n - 1" "k + n - 1 < i + l" by linarith+
        from u(1) [OF a(1) this] show ?thesis using f(4) k by linarith
      next
        case 3
        then have "j = j'" using b d h N52 k52 by (simp add: page_simps)
        then show ?thesis using b 3 by simp
      qed
    qed
  next
    fix i l ia assume a: "outer_used xs (k + n) ys i = Some l" and x: "pg h i \<in> X" and ia: "ia \<noteq> (1 :: nat)"
    have b: "1 \<le> i" "i < N" "i < k \<or> k + n \<le> i" using u(1) [OF a, of i] u(2) [OF a] by auto
    from X [OF x] consider "pg h i = h + 4080" | "pg h i = pg h (k + n)"
      | j' d' where "k \<le> j'" "j' < k + n" "d' < 4096" "pg h i = pg h j' + d'" by blast
    then show "bit (c' (pg h i)) ia = bit (cells m (pg h i)) ia"
    proof cases
      case 1
      then show ?thesis using b h N52 by (simp add: page_simps)
    next
      case 2
      with x bits [OF _ ia] show ?thesis by simp
    next
      case 3
      then show ?thesis using b h N52 k52 by (simp add: page_simps)
    qed
  next
    fix d :: u64 assume d: "2048 \<le> d" "d < 4072"
    then have d': "d < 4096" by (auto intro: less_trans)
    show "h + d \<notin> X"
    proof
      assume "h + d \<in> X"
      from X [OF this] consider "h + d = h + 4080" | "h + d = pg h (k + n)"
        | j' d' where "k \<le> j'" "j' < k + n" "d' < 4096" "h + d = pg h j' + d'" by blast
      then show False
      proof cases
        case 1
        then show ?thesis using d by simp
      next
        case 2
        then show ?thesis using d' h k52 by (simp add: page_simps)
      next
        case 3
        then show ?thesis using d' h k52 by (simp add: page_simps)
      qed
    qed
  qed (rule u(2))
  then show ?thesis by (simp add: quiet_def)
qed

fun merge_after :: "nat \<Rightarrow> region list \<Rightarrow> nat \<times> region list" where
  "merge_after n (Free q # ys) = (n + q, ys)"
| "merge_after n ys = (n, ys)"

lemma slab_is_free_exec:
  assumes "page_aligned s" "valid_cell m s"
  shows "slab_is_free s m = Some (\<not> bit (cells m s) 0)"
proof -
  have "get_lane 0 x AND (1 :: u8) = 0 \<longleftrightarrow> \<not> bit x 0" for x
  proof -
    have "get_lane 0 x AND (1 :: u8) = 0 \<longleftrightarrow> \<not> bit (get_lane 0 x :: u8) 0"
      by (simp add: and_one_eq bit_0 even_iff_mod_2_eq_zero)
    then show ?thesis by (simp add: bit_get_lane)
  qed
  then show ?thesis using assms by (simp add: slab_is_free_def layout_simps exec_simps)
qed

text \<open>The three cases of the slab after the limbo.\<close>

lemma merge_next_end:
  assumes li: "limbo h True xs n [] m" and k: "k = 1 + pages xs" and msk: "\<not> bit msk 0"
  obtains m' where "merge_next msk h (pg h (k + n)) (of_nat n) m = Some (of_nat n, pg h (k + n), m')"
    and "limbo h False xs n [] m'" and "quiet h (outer_used xs (k + n) []) m m'"
    and "cells m' (pg h k) = cells m (pg h k)"
proof -
  have N: "k + n = k + n + pages []" by simp
  note f = limbo_facts [OF li k N]
  have h: "page_aligned h" and sh: "shape h (k + n) m" by (rule f(1) f(2))+
  have v: "valid_cell m (h + 4080)" using shape_valid_header [OF sh, of 4080] by simp
  define c where "c = (cells m)(h + 4080 := set_lane 0 (get_lane 0 (cells m (h + 4080)) AND msk) (cells m (h + 4080)))"
  have e: "merge_next msk h (pg h (k + n)) (of_nat n) m = Some (of_nat n, pg h (k + n), m\<lparr>cells := c\<rparr>)"
    using heap_end_exec [OF sh] heap_and_flags_exec [OF h v] f(9) by (simp add: merge_next_def c_def)
  have ch: "changes h {} {h + 4080} (cells m) c" by (simp add: changes_def c_def)
  have k52: "1 \<le> k" "k + n < 2 ^ 52" using f(3) k by auto
  have "same_lay h 1 (1 + pages xs) (cells m) c"
    by (rule changes_same_lay [OF ch h]) (use k52 k h in \<open>auto simp: page_simps\<close>)
  with f(5) have lx: "lay h c 1 True xs" by (blast intro: lay_frame)
  have "h + 4080 \<notin> link_cells h (dom (outer xs (k + n) [])) \<union> skip_cells h"
    by (rule header_plain [OF h f(13)]) simp_all
  then have b: "\<exists>bins. bins_ok h c bins (outer xs (k + n) [])" using f(14) unfolding c_def by (blast intro: bins_ok_upd)
  show thesis
  proof (rule that [OF e])
    show "limbo h False xs n [] (m\<lparr>cells := c\<rparr>)"
      using f(2,4,8,9) lx b k msk by (simp add: limbo_def Let_def) (simp add: c_def bit_and_lane32)
    show "quiet h (outer_used xs (k + n) []) m (m\<lparr>cells := c\<rparr>)"
      by (rule limbo_quiet [OF li k ch]) (use h k52 in \<open>auto simp: page_simps\<close>)
    show "cells (m\<lparr>cells := c\<rparr>) (pg h k) = cells m (pg h k)"
      using h k52 by (simp add: c_def page_simps)
  qed
qed

lemma merge_next_used:
  assumes li: "limbo h True xs n (Used q # ys) m" and k: "k = 1 + pages xs"
  obtains m' where "merge_next msk h (pg h (k + n)) (of_nat n) m = Some (of_nat n, pg h (k + n), m')"
    and "limbo h False xs n (Used q # ys) m'" and "quiet h (outer_used xs (k + n) (Used q # ys)) m m'"
    and "cells m' (pg h k) = cells m (pg h k)"
proof -
  define N where "N = k + n + pages (Used q # ys)"
  let ?zs = "Used q # ys"
  note f = limbo_facts [OF li k N_def]
  have h: "page_aligned h" and sh: "shape h N m" by (rule f(1) f(2))+
  have q: "0 < q" and "bit (cells m (pg h (k + n))) 0" "bit (cells m (pg h (k + n))) 1"
    and ly: "lay h (cells m) (k + n + q) True ys" using f(6) by simp_all
  note bt = this(2,3)
  have kn: "k + n < N" and k52: "1 \<le> k" "N < 2 ^ 52" using q f(3) k by (simp_all add: N_def)
  have v: "valid_cell m (pg h (k + n))" by (rule shape_valid0 [OF sh kn])
  define c where "c = (cells m)(pg h (k + n) := set_lane 0 (get_lane 0 (cells m (pg h (k + n))) AND NOT (2 :: u8)) (cells m (pg h (k + n))))"
  have ne: "pg h (k + n) \<noteq> pg h N" using kn k52 by (simp add: pg_inj)
  have e: "merge_next msk h (pg h (k + n)) (of_nat n) m = Some (of_nat n, pg h (k + n), m\<lparr>cells := c\<rparr>)"
    using heap_end_exec [OF sh] slab_is_free_exec [OF pg_aligned [OF h] v] slab_clear_flags_exec [OF pg_aligned [OF h] v] f(9) ne bt
    by (simp add: merge_next_def c_def layout_simps)
  have ch: "changes h {} {pg h (k + n)} (cells m) c" by (simp add: changes_def c_def)
  have cb: "bit (c (pg h (k + n))) i \<longleftrightarrow> bit (cells m (pg h (k + n))) i \<and> i \<noteq> 1" for i
    unfolding c_def fun_upd_same bit_and_not_lane8 by (auto simp: bit_2_iff)
  have "same_lay h 1 (1 + pages xs) (cells m) c"
    by (rule changes_same_lay [OF ch h]) (use k52 kn k h f(4) in \<open>auto simp: page_simps\<close>)
  with f(5) have lx: "lay h c 1 True xs" by (blast intro: lay_frame)
  have "same_lay h (k + n + q) (k + n + q + pages ys) (cells m) c"
    by (rule changes_same_lay [OF ch h]) (use k52 kn q h N_def in \<open>auto simp: page_simps\<close>)
  with ly have ly': "lay h c (k + n + q) True ys" by (blast intro: lay_frame)
  have "pg h (k + n) \<notin> link_cells h (dom (outer xs (k + n) ?zs)) \<union> skip_cells h"
    by (rule page_plain0 [OF h f(13)]) (use k52 kn in auto)
  then have b: "\<exists>bins. bins_ok h c bins (outer xs (k + n) ?zs)" using f(14) unfolding c_def by (blast intro: bins_ok_upd)
  have hd: "c (h + 4072) = cells m (h + 4072)" "c (h + 4080) = cells m (h + 4080)"
    using h k52 kn by (simp_all add: c_def page_simps)
  show thesis
  proof (rule that [OF e])
    show "limbo h False xs n ?zs (m\<lparr>cells := c\<rparr>)"
      using f(2,4,8,9,10) lx ly' b k q cb bt hd by (simp add: limbo_def Let_def N_def)
    show "quiet h (outer_used xs (k + n) ?zs) m (m\<lparr>cells := c\<rparr>)"
      by (rule limbo_quiet [OF li k ch]) (auto simp: cb)
    show "cells (m\<lparr>cells := c\<rparr>) (pg h k) = cells m (pg h k)"
      using h k52 f(4) kn by (simp add: c_def page_simps)
  qed
qed

lemma outer_free:
  assumes "k = 1 + pages xs" "0 < n" "0 < q"
  shows "outer xs (k + n) (Free q # ys) (k + n) = Some q"
    and "(outer xs (k + n) (Free q # ys))(k + n := None) = outer xs (k + n + q) ys"
    and "outer_used xs (k + n) (Free q # ys) = outer_used xs (k + (n + q)) ys"
proof -
  have a: "free_map 1 xs (k + n) = None"
    using free_map_bounds [of 1 xs "k + n"] assms(1,2) by (cases "free_map 1 xs (k + n)") auto
  have b: "free_map (k + n + q) ys (k + n) = None"
    using free_map_bounds [of "k + n + q" ys "k + n"] assms(3) by (cases "free_map (k + n + q) ys (k + n)") auto
  show "outer xs (k + n) (Free q # ys) (k + n) = Some q" using a by (simp add: outer_def map_add_def)
  show "(outer xs (k + n) (Free q # ys))(k + n := None) = outer xs (k + n + q) ys"
    using a b by (auto simp: outer_def map_add_def fun_eq_iff split: option.split)
  show "outer_used xs (k + n) (Free q # ys) = outer_used xs (k + (n + q)) ys"
    by (simp add: outer_used_def add.assoc)
qed

lemma merge_next_free:
  assumes li: "limbo h True xs n (Free q # ys) m" and k: "k = 1 + pages xs"
  obtains m' where "merge_next msk h (pg h (k + n)) (of_nat n) m = Some (of_nat (n + q), pg h (k + (n + q)), m')"
    and "limbo h False xs (n + q) ys m'" and "quiet h (outer_used xs (k + n) (Free q # ys)) m m'"
    and "cells m' (pg h k) = cells m (pg h k)"
proof -
  define N where "N = k + n + pages (Free q # ys)"
  let ?F = "outer xs (k + n) (Free q # ys)"
  note f = limbo_facts [OF li k N_def]
  have h: "page_aligned h" and sh: "shape h N m" by (rule f(1) f(2))+
  have q: "0 < q" and bt: "\<not> bit (cells m (pg h (k + n))) 0" and sz: "cells m (pg h (k + n) + 24) = of_nat q"
    and ly: "lay h (cells m) (k + n + q) False ys" using f(6) by simp_all
  note o = outer_free [OF k f(4) q, of ys]
  have kn: "k + n < N" and k52: "1 \<le> k" "N < 2 ^ 52" using q f(3) k by (simp_all add: N_def)
  have v: "valid_cell m (pg h (k + n))" "valid_cell m (pg h (k + n) + 24)"
    using shape_valid0 [OF sh kn] shape_valid [OF sh kn, of 24] by simp_all
  have ne: "pg h (k + n) \<noteq> pg h N" using kn k52 by (simp add: pg_inj)
  obtain bins where b: "bins_ok h (cells m) bins ?F" using f(14) by blast
  have D: "dom ?F \<subseteq> {1..<N}" using f(11) k52(1) kn by fastforce
  obtain c bins' where c: "slab_unlink (pg h (k + n)) m = Some (m\<lparr>cells := c\<rparr>)"
    "bins_ok h c bins' (?F(k + n := None))" "\<And>a. a \<notin> link_cells h (dom ?F) \<Longrightarrow> c a = cells m a"
    by (rule slab_unlink_ok [OF sh b D o(1)]) blast
  have ch: "changes h (dom ?F) {} (cells m) c" using c(3) by (simp add: changes_def)
  have D': "dom ?F \<subseteq> {1..<2 ^ 52}" by (rule f(13))
  have c24: "c (pg h (k + n) + 24) = of_nat q"
    using changes_page [OF ch h D', of "k + n" 24] sz k52 kn by simp
  have "slab_plus (pg h (k + n)) (of_nat q) = pg h (k + (n + q))" using slab_plus_pg [of h "k + n" q] by (simp add: add.assoc)
  then have e: "merge_next msk h (pg h (k + n)) (of_nat n) m
      = Some (of_nat (n + q), pg h (k + (n + q)), m\<lparr>cells := c\<rparr>)"
    using heap_end_exec [OF sh] slab_is_free_exec [OF pg_aligned [OF h] v(1)] f(9) ne bt c(1) c24 v(2)
    by (simp add: merge_next_def layout_simps load64_valid)
  have "same_lay h 1 (1 + pages xs) (cells m) c"
    by (rule changes_same_lay [OF ch h D']) (use k52 kn k in auto)
  with f(5) have lx: "lay h c 1 True xs" by (blast intro: lay_frame)
  have "same_lay h (k + n + q) (k + n + q + pages ys) (cells m) c"
    by (rule changes_same_lay [OF ch h D']) (use k52 N_def in auto)
  with ly have ly': "lay h c (k + n + q) False ys" by (blast intro: lay_frame)
  have hd: "c (h + 4072) = cells m (h + 4072)" "c (h + 4080) = cells m (h + 4080)"
    using changes_header [OF ch h D', of 4072] changes_header [OF ch h D', of 4080] by simp_all
  have b': "\<exists>bins. bins_ok h c bins (outer xs (k + (n + q)) ys)" using c(2) o(2) by (auto simp: add.assoc)
  show thesis
  proof (rule that [OF e])
    show "limbo h False xs (n + q) ys (m\<lparr>cells := c\<rparr>)"
      using f(2,4,8,9,10) lx ly' b' k q hd by (simp add: limbo_def Let_def N_def add.assoc)
    show "quiet h (outer_used xs (k + n) (Free q # ys)) m (m\<lparr>cells := c\<rparr>)"
      by (rule limbo_quiet [OF li k ch]) auto
    show "cells (m\<lparr>cells := c\<rparr>) (pg h k) = cells m (pg h k)"
      using changes_page0 [OF ch h D', of k] k52 kn by simp
  qed
qed

lemma merge_next_ok:
  assumes li: "limbo h True xs n ys m" and k: "k = 1 + pages xs" and msk: "\<not> bit msk 0"
    and mg: "merge_after n ys = (n', ys')"
  obtains m' where "merge_next msk h (pg h (k + n)) (of_nat n) m = Some (of_nat n', pg h (k + n'), m')"
    and "limbo h False xs n' ys' m'" and "quiet h (outer_used xs (k + n) ys) m m'"
    and "cells m' (pg h k) = cells m (pg h k)"
    and "outer_used xs (k + n) ys = outer_used xs (k + n') ys'"
proof (cases ys)
  case Nil
  then have *: "n' = n" "ys' = []" using mg by simp_all
  show thesis
    by (rule merge_next_end [OF li [unfolded Nil] k msk]) (rule that, unfold Nil *, assumption+, rule refl)
next
  case (Cons r rs)
  show thesis
  proof (cases r)
    case (Used q)
    then have *: "n' = n" "ys' = Used q # rs" using mg Cons by simp_all
    show thesis
      by (rule merge_next_used [OF li [unfolded Cons Used] k]) (rule that, unfold Cons Used *, assumption+, rule refl)
  next
    case (Free q)
    then have *: "n' = n + q" "ys' = rs" using mg Cons by simp_all
    have pos: "0 < n" "0 < q" using limbo_facts(4,7) [OF li k refl] Cons Free by auto
    show thesis
      by (rule merge_next_free [OF li [unfolded Cons Free] k])
        (rule that, unfold Cons Free * outer_free(3) [OF k pos], assumption+, rule refl)
  qed
qed

lemma finish_free_ok:
  assumes li: "limbo h False xs n ys m" and k: "k = 1 + pages xs"
    and fl: "\<not> bit flags 0" "bit flags 1"
  obtains m' where "finish_free h (pg h k) flags (of_nat n) (pg h (k + n)) m = Some m'"
    and "slab_inv h (xs @ Free n # ys) m'" and "quiet h (outer_used xs (k + n) ys) m m'"
proof -
  define N where "N = k + n + pages ys"
  let ?F = "outer xs (k + n) ys"
  note f = limbo_facts [OF li k N_def]
  have h: "page_aligned h" and sh: "shape h N m" and n: "0 < n" by (rule f(1) f(2) f(4))+
  have k52: "1 \<le> k" "k + n \<le> N" "N < 2 ^ 52" "k < N" using f(3) k n by (simp_all add: N_def)
  obtain bins where b: "bins_ok h (cells m) bins ?F" using f(14) by blast
  have D: "insert k (dom ?F) \<subseteq> {1..<N}" using f(11) k52 by fastforce
  have D': "insert k (dom ?F) \<subseteq> {1..<2 ^ 52}" using D k52 by fastforce
  have kF: "k \<notin> dom ?F" using f(11) n by fastforce
  then have kN: "?F k = None" by (simp add: domIff)
  have n52: "1 \<le> n" "n < 2 ^ 52" using n k52 by auto
  obtain c bins' where c: "slab_link h (pg h k) (of_nat n) m = Some (m\<lparr>cells := c\<rparr>)"
    "bins_ok h c bins' (?F(k \<mapsto> n))"
    "\<And>a. a \<notin> link_cells h (insert k (dom ?F)) \<union> skip_cells h \<Longrightarrow> c a = cells m a"
    by (rule links_okE [OF slab_link_links [OF n52] sh b D kN f(12)]) blast
  have foot: "pg h (k + n) - 8 = pg h (k + n - 1) + 4088" using n by (intro pg_footer) simp
  have v: "valid_cell m (pg h k)" "valid_cell m (pg h k + 24)" "valid_cell m (pg h (k + n - 1) + 4088)"
    using shape_valid0 [OF sh, of k] shape_valid [OF sh, of k 24] shape_valid [OF sh, of "k + n - 1" 4088] k52 n by simp_all
  let ?X = "{pg h k, pg h k + 24, pg h (k + n - 1) + 4088}"
  define c' where "c' = c(pg h k := set_lane 0 flags (c (pg h k)), pg h k + 24 := of_nat n,
    pg h (k + n - 1) + 4088 := of_nat n)"
  have e: "finish_free h (pg h k) flags (of_nat n) (pg h (k + n)) m = Some (m\<lparr>cells := c'\<rparr>)"
    using c(1) v h by (simp add: finish_free_def layout_simps exec_simps foot c'_def)
  have ch: "changes h (insert k (dom ?F)) ?X (cells m) c'"
    using c(3) by (simp add: changes_def c'_def)
  have e1: "k + n - 1 < 2 ^ 52" "1 \<le> k + n - 1" using k52 n by auto
  have "same_lay h 1 (1 + pages xs) (cells m) c'"
    by (rule changes_same_lay [OF ch h D']) (use k52 k h n e1 in \<open>auto simp: page_simps\<close>)
  with f(5) have lx: "lay h c' 1 True xs" by (blast intro: lay_frame)
  have "same_lay h (k + n) (k + n + pages ys) (cells m) c'"
    by (rule changes_same_lay [OF ch h D']) (use k52 N_def h n e1 in \<open>auto simp: page_simps\<close>)
  with f(6) have ly: "lay h c' (k + n) False ys" by (blast intro: lay_frame)
  have "h + d \<notin> ?X" if "d < 4096" for d
  proof -
    have "\<not> k + n \<le> Suc 0" using k52(1) n by simp
    then show ?thesis using that k52 h e1 by (simp add: page_simps)
  qed
  then have hd: "c' (h + 4072) = cells m (h + 4072)" "c' (h + 4080) = cells m (h + 4080)"
    by (intro changes_header [OF ch h D']; simp)+
  have c'k: "c' (pg h k) = set_lane 0 flags (c (pg h k))" "c' (pg h k + 24) = of_nat n"
    "c' (pg h (k + n - 1) + 4088) = of_nat n"
    using k52 h e1 by (simp_all add: c'_def page_simps)
  have pl: "pg h k \<notin> link_cells h (insert k (dom ?F)) \<union> skip_cells h"
    "pg h k + 24 \<notin> link_cells h (insert k (dom ?F)) \<union> skip_cells h"
    "pg h (k + n - 1) + 4088 \<notin> link_cells h (insert k (dom ?F)) \<union> skip_cells h"
    using page_plain0 [OF h D', of k] page_plain [OF h D', of k 24] page_plain [OF h D' e1(2,1), of 4088] k52
    by simp_all
  have "bins_ok h c' bins' (?F(k \<mapsto> n))" unfolding c'_def by (intro bins_ok_upd c(2)) (use pl in simp_all)
  moreover have "free_map 1 (xs @ Free n # ys) = ?F(k \<mapsto> n)"
    using f(7) k by (intro free_map_mid(1)) auto
  ultimately have b': "\<exists>bins. bins_ok h c' bins (free_map 1 (xs @ Free n # ys))" by auto
  show thesis
  proof (rule that [OF e])
    show "slab_inv h (xs @ Free n # ys) (m\<lparr>cells := c'\<rparr>)"
      using sh lx ly hd f(8,9,10) n c'k b' fl k
      by (simp add: slab_inv_def end_ok_def lay_append N_def add.assoc bit_lane8)
    show "quiet h (outer_used xs (k + n) ys) m (m\<lparr>cells := c'\<rparr>)"
    proof (rule limbo_quiet [OF li k ch])
      show "insert k (dom ?F) \<subseteq> {k..<k + n} \<union> dom ?F" using n by auto
      show "a = h + 4080 \<or> a = pg h (k + n) \<or> (\<exists>j d. k \<le> j \<and> j < k + n \<and> d < 4096 \<and> a = pg h j + d)"
        if "a \<in> ?X" for a
        using that n by (elim insertE emptyE) (intro disjI2 exI [of _ k] exI [of _ "k + n - 1"], force)+
      show "bit (c' (pg h (k + n))) i = bit (cells m (pg h (k + n))) i" if "pg h (k + n) \<in> ?X" for i
        using that h k52 n e1 by (simp add: page_simps)
    qed
  qed
qed

subsection \<open>The regions after a run is given back\<close>

text \<open>
  \<open>n\<close> slabs between the regions \<open>xs\<close> and \<open>ys\<close> become free: they merge with a free region
  on either side.
\<close>

definition give_back :: "region list \<Rightarrow> nat \<Rightarrow> region list \<Rightarrow> region list" where
  "give_back xs n ys = (let (n', ys') = merge_after n ys in
     if xs = [] then Free n' # ys'
     else case last xs of Free p \<Rightarrow> butlast xs @ Free (p + n') # ys' | Used _ \<Rightarrow> xs @ Free n' # ys')"

lemma give_back_simps:
  assumes "merge_after n ys = (n', ys')"
  shows "last_used True xs \<Longrightarrow> give_back xs n ys = xs @ Free n' # ys'"
    and "give_back (xs @ [Free p]) n ys = xs @ Free (p + n') # ys'"
proof -
  show "give_back xs n ys = xs @ Free n' # ys'" if "last_used True xs"
    using that assms by (cases xs rule: rev_cases) (auto simp: give_back_def split: region.splits)
  show "give_back (xs @ [Free p]) n ys = xs @ Free (p + n') # ys'"
    using assms by (simp add: give_back_def)
qed

lemma merge_after_add: "merge_after n ys = (n', ys') \<Longrightarrow> merge_after (p + n) ys = (p + n', ys')"
  by (induction n ys rule: merge_after.induct) auto

lemma limbo_release:
  assumes inv: "slab_inv h (xs @ Used n # ys) m" and last: "last_used True xs"
  shows "limbo h True xs n ys m"
proof -
  note f = inv_basic [OF inv]
  have "lay h (cells m) 1 True xs" "0 < n" "lay h (cells m) (1 + pages xs + n) True ys"
    using f(4) by (simp_all add: lay_append)
  moreover have "\<forall>r\<in>set xs. 0 < pages_of r" using f(5) by simp
  then have "free_map 1 (xs @ Used n # ys) = outer xs (1 + pages xs + n) ys" by (rule free_map_mid(2)) simp
  ultimately show ?thesis
    using inv last unfolding limbo_def Let_def slab_inv_def end_ok_def by (simp add: add.assoc)
qed

lemma limbo_tail:
  assumes inv: "slab_inv h (xs @ Used (a + n) # ys) m" and "0 < a" "0 < n"
  shows "limbo h True (xs @ [Used a]) n ys m"
proof -
  note f = inv_basic [OF inv]
  have "lay h (cells m) 1 True (xs @ [Used a])" "lay h (cells m) (1 + pages xs + a + n) True ys"
    using f(4) assms(2) by (simp_all add: lay_append add.assoc)
  moreover have "\<forall>r\<in>set xs. 0 < pages_of r" using f(5) by simp
  then have "free_map 1 (xs @ Used (a + n) # ys) = outer xs (1 + pages xs + (a + n)) ys" by (rule free_map_mid(2)) simp
  moreover have "outer (xs @ [Used a]) e ys = outer xs e ys" for e
    by (simp add: outer_def free_map_append)
  ultimately show ?thesis
    using inv assms(3) unfolding limbo_def Let_def slab_inv_def end_ok_def by (simp add: add.assoc)
qed

lemma limbo_prev:
  assumes inv: "slab_inv h (xs @ Free p # Used n # ys) m" and k: "k = 1 + pages xs"
  obtains m' where "prev_adj_slab (pg h (k + p)) m = Some (pg h k)" and "slab_unlink (pg h k) m = Some m'"
    and "limbo h True xs (p + n) ys m'" and "quiet h (outer_used xs (k + (p + n)) ys) m m'"
    and "cells m' (pg h k) = cells m (pg h k)" and "cells m' (pg h k + 24) = of_nat p"
    and "\<not> bit (cells m (pg h k)) 0" and "bit (cells m (pg h k)) 1" and "\<not> bit (cells m (pg h (k + p))) 1"
proof -
  define N where "N = k + p + pages (Used n # ys)"
  let ?zs = "Used n # ys"
  note g = inv_facts [OF inv k N_def]
  have h: "page_aligned h" and sh: "shape h N m" and p: "0 < p" by (rule g(1,2,4))+
  obtain c where c: "slab_unlink (pg h k) m = Some (m\<lparr>cells := c\<rparr>)" "mid_state h xs p ?zs m c"
    "\<And>d. d < 4096 \<Longrightarrow> d \<noteq> 8 \<Longrightarrow> d \<noteq> 16 \<Longrightarrow> c (pg h k + d) = cells m (pg h k + d)"
    by (rule unlink_mid [OF inv k]) blast
  note f = mid_facts [OF c(2) k N_def]
  have o: "outer xs (k + p) ?zs = outer xs (k + (p + n)) ys" "outer_used xs (k + (p + n)) ys \<subseteq>\<^sub>m outer_used xs (k + p) ?zs"
  proof -
    show "outer xs (k + p) ?zs = outer xs (k + (p + n)) ys" by (simp add: outer_def add.assoc)
    have "used_map (k + p + n) ys \<subseteq>\<^sub>m (used_map (k + p + n) ys)(k + p \<mapsto> n)"
      using used_map_bounds [of "k + p + n" ys "k + p"] inv_basic(5) [OF inv]
      by (auto simp: map_le_def dom_def)
    then show "outer_used xs (k + (p + n)) ys \<subseteq>\<^sub>m outer_used xs (k + p) ?zs"
      by (auto simp: outer_used_def add.assoc map_le_def map_add_def dom_def split: option.splits)
  qed
  have k52: "1 \<le> k" "k + p + n \<le> N" "N < 2 ^ 52" "k < N" using g(3) k p by (simp_all add: N_def)
  have lay_mid: "lay h (cells m) k True (Free p # ?zs)"
    using inv_basic(4) [OF inv] g(9) by (simp add: lay_append k)
  then have fl: "\<not> bit (cells m (pg h k)) 0" "bit (cells m (pg h k)) 1" "cells m (pg h k + 24) = of_nat p"
    "cells m (pg h (k + p - 1) + 4088) = of_nat p" "\<not> bit (cells m (pg h (k + p))) 1" "0 < n"
    "lay h (cells m) (k + p + n) True ys" by simp_all
  have D: "insert k (dom (outer xs (k + p) ?zs)) \<subseteq> {1..<2 ^ 52}" by (rule f(4))
  have lx: "lay h c 1 True xs"
  proof -
    have "same_lay h 1 (1 + pages xs) (cells m) c"
      by (rule changes_same_lay [OF f(3) h D]) (use k52 k h in \<open>auto simp: page_simps\<close>)
    then show ?thesis using g(5) by (blast intro: lay_frame)
  qed
  have ly: "lay h c (k + p + n) True ys"
  proof -
    have "same_lay h (k + p + n) (k + p + n + pages ys) (cells m) c"
      by (rule changes_same_lay [OF f(3) h D]) (use k52 k h p N_def in \<open>auto simp: page_simps\<close>)
    then show ?thesis using fl(7) by (blast intro: lay_frame)
  qed
  have "h + d \<noteq> pg h k" if "d < 4096" for d using that k52 h by (simp add: page_simps)
  then have hd: "c (h + 4072) = cells m (h + 4072)" "c (h + 4080) = cells m (h + 4080)"
    by (intro changes_header [OF f(3) h D]; simp)+
  have v: "valid_cell m (pg h (k + p - 1) + 4088)"
    using shape_valid [OF sh, of "k + p - 1" 4088] k52 fl(6) by simp
  have foot: "prev_adj_slab (pg h (k + p)) m = Some (pg h k)"
  proof -
    have "pg h k + of_nat p * 4096 = pg h (k + p)" by (simp add: pg_add)
    then have "pg h (k + p) - of_nat p * 4096 = pg h k" by (simp add: algebra_simps)
    moreover have "load64 m (pg h (k + p) - 8) = Some (of_nat p)"
      using v fl(4) p by (simp add: pg_footer load64_valid)
    ultimately show ?thesis by (simp add: prev_adj_slab_def layout_simps)
  qed
  show thesis
  proof (rule that [OF foot c(1)])
    show "limbo h True xs (p + n) ys (m\<lparr>cells := c\<rparr>)"
      using sh lx ly hd g(9,10,11) p f(2) k unfolding limbo_def Let_def o(1)
      by (simp add: N_def add.assoc)
    have "kept h (outer_used xs (k + p) ?zs) (cells m) c"
    proof (rule changes_kept [OF f(3) h D])
      fix i l j assume a: "outer_used xs (k + p) ?zs i = Some l" "i \<le> j" "j < i + l"
      note b = f(6) [OF a]
      show "1 \<le> j \<and> j < 2 ^ 52 \<and> j \<notin> insert k (dom (outer xs (k + p) ?zs))" using b k52 p by auto
      fix d :: u64 assume "d < 4096"
      then show "pg h j + d \<notin> {pg h k}" using b k52 p h by (auto simp: page_simps)
    next
      fix i l ia assume a: "outer_used xs (k + p) ?zs i = Some l" "pg h i \<in> {pg h k}"
      then have "i \<noteq> k" "i < N" using f(6) [OF a(1), of i] f(7) [OF a(1)] p by auto
      then show "bit (c (pg h i)) ia = bit (cells m (pg h i)) ia" using a(2) k52 by (simp add: pg_inj)
    next
      fix d :: u64 assume d: "2048 \<le> d" "d < 4072"
      have "d < 4096" by (rule less_trans [OF d(2)]) simp
      then show "h + d \<notin> {pg h k}" using h k52 by (simp add: page_simps)
    qed (rule f(7))
    then show "quiet h (outer_used xs (k + (p + n)) ys) m (m\<lparr>cells := c\<rparr>)"
      using o(2) by (auto simp: quiet_def intro: kept_map_le)
    show "cells (m\<lparr>cells := c\<rparr>) (pg h k) = cells m (pg h k)" using c(3) [of 0] by simp
    show "cells (m\<lparr>cells := c\<rparr>) (pg h k + 24) = of_nat p" using c(3) [of 24] fl(3) by simp
  qed (use fl in simp_all)
qed

subsection \<open>\<^verbatim>\<open>__int_free_slab\<close>, \<^verbatim>\<open>__int_free_remainder_slab\<close> and \<^verbatim>\<open>__int_take_slab\<close>\<close>

lemma flag_tests:
  "(get_lane 0 x AND (2 :: u8) = 0) \<longleftrightarrow> \<not> bit x 1"
  "bit (get_lane 0 x :: u8) 0 \<longleftrightarrow> bit x 0" "bit (get_lane 0 x :: u8) 1 \<longleftrightarrow> bit x 1"
  "\<not> bit (get_lane 0 x AND NOT (1 :: u8)) 0" "bit (get_lane 0 x AND NOT (1 :: u8)) 1 \<longleftrightarrow> bit x 1"
proof -
  have "(w AND 2 = 0) \<longleftrightarrow> \<not> bit w 1" for w :: u8
    unfolding bit_eq_iff [of _ 0] bit_and_iff bit_2_iff by (auto simp: possible_bit_def dest!: spec [of _ "Suc 0"])
  then show "(get_lane 0 x AND (2 :: u8) = 0) \<longleftrightarrow> \<not> bit x 1" by (simp add: bit_get_lane)
qed (simp_all only: bit_and_iff bit_not_iff bit_get_lane bit_1_iff, simp_all)

lemma free_flags_exec:
  assumes "page_aligned s" "valid_cell m s"
  shows "load8 m (s + slab_flags) = Some (get_lane 0 (cells m s))"
  using assms by (simp add: layout_simps exec_simps)

lemma clear_masks: "\<not> bit (NOT LAST_SLAB_ALLOC) 0" "\<not> bit (ucast (NOT (ucast LAST_SLAB_ALLOC) :: u8) :: u32) 0"
  by (simp_all add: layout_simps bit_not_iff bit_ucast_iff)

lemma limbo_finish:
  assumes li: "limbo h True xs n ys m" and k: "k = 1 + pages xs" and msk: "\<not> bit msk 0"
    and mg: "merge_after n ys = (n', ys')" and fl: "\<not> bit flags 0" "bit flags 1"
  obtains m' where "do { (n1, next, mx) \<leftarrow> merge_next msk h (pg h (k + n)) (of_nat n) m;
      finish_free h (pg h k) flags n1 next mx } = Some m'"
    and "slab_inv h (xs @ Free n' # ys') m'" and "quiet h (outer_used xs (k + n) ys) m m'"
    and "outer_used xs (k + n) ys = used_map 1 (xs @ Free n' # ys')"
proof -
  obtain m1 where m1: "merge_next msk h (pg h (k + n)) (of_nat n) m = Some (of_nat n', pg h (k + n'), m1)"
    "limbo h False xs n' ys' m1" "quiet h (outer_used xs (k + n) ys) m m1"
    "outer_used xs (k + n) ys = outer_used xs (k + n') ys'"
    by (rule merge_next_ok [OF li k msk mg]) blast
  obtain m2 where m2: "finish_free h (pg h k) flags (of_nat n') (pg h (k + n')) m1 = Some m2"
    "slab_inv h (xs @ Free n' # ys') m2" "quiet h (outer_used xs (k + n') ys') m1 m2"
    by (rule finish_free_ok [OF m1(2) k fl])
  have "do { (n1, next, mx) \<leftarrow> merge_next msk h (pg h (k + n)) (of_nat n) m;
      finish_free h (pg h k) flags n1 next mx } = Some m2"
    using m1(1) m2(1) by simp
  moreover have "quiet h (outer_used xs (k + n) ys) m m2" using m1(3,4) m2(3) by (metis quiet_trans)
  ultimately show thesis using that m2(2) m1(4) used_map_mid(1) [OF k] by metis
qed

lemma int_free_slab_ok:
  assumes inv: "slab_inv h (xs @ Used n # ys) m" and k: "k = 1 + pages xs"
  obtains m' where "int_free_slab h (pg h k) (of_nat n) m = Some m'"
    and "slab_inv h (give_back xs n ys) m'" and "quiet h (used_map 1 (give_back xs n ys)) m m'"
proof -
  note f = inv_basic [OF inv]
  have h: "page_aligned h" and sh: "shape h (1 + pages (xs @ Used n # ys)) m" by (rule f(1,2))+
  have ly: "lay h (cells m) k (last_used True xs) (Used n # ys)" using f(4) by (simp add: lay_append k)
  then have b: "0 < n" "bit (cells m (pg h k)) 0" "bit (cells m (pg h k)) 1 \<longleftrightarrow> last_used True xs" by simp_all
  have v: "valid_cell m (pg h k)" using b(1) by (intro shape_valid0 [OF sh]) (simp add: k)
  note ld = free_flags_exec [OF pg_aligned [OF h] v]
  obtain n' ys' where mg: "merge_after n ys = (n', ys')" by fastforce
  show thesis
  proof (cases "last_used True xs")
    case True
    have fl: "\<not> bit (get_lane 0 (cells m (pg h k)) AND NOT (1 :: u8)) 0" "bit (get_lane 0 (cells m (pg h k)) AND NOT (1 :: u8)) 1"
      using b(3) True flag_tests(4,5) by blast+
    obtain m' where m': "do { (n1, next, mx) \<leftarrow> merge_next (NOT LAST_SLAB_ALLOC) h (pg h (k + n)) (of_nat n) m;
        finish_free h (pg h k) (get_lane 0 (cells m (pg h k)) AND NOT (1 :: u8)) n1 next mx } = Some m'"
      "slab_inv h (xs @ Free n' # ys') m'" "quiet h (outer_used xs (k + n) ys) m m'"
      "outer_used xs (k + n) ys = used_map 1 (xs @ Free n' # ys')"
      by (rule limbo_finish [OF limbo_release [OF inv True] k clear_masks(1) mg fl])
    show thesis
    proof (rule that)
      show "int_free_slab h (pg h k) (of_nat n) m = Some m'"
        unfolding m'(1) [symmetric] using ld b True flag_tests(1) [of "cells m (pg h k)"] slab_plus_pg [of h k n]
        by (simp add: int_free_slab_def SLAB_PREV_ALLOC_BIT_def SLAB_ALLOC_BIT_def)
    qed (use m' give_back_simps(1) [OF mg True] in simp_all)
  next
    case False
    then obtain xs0 p where xs: "xs = xs0 @ [Free p]"
    proof (cases xs rule: rev_cases)
      case (snoc ys r)
      then show thesis using False that by (cases r) auto
    qed simp
    define k0 where "k0 = 1 + pages xs0"
    have kp: "k = k0 + p" by (simp add: k k0_def xs)
    have inv': "slab_inv h (xs0 @ Free p # Used n # ys) m" using inv by (simp add: xs)
    obtain m1 where m1: "prev_adj_slab (pg h (k0 + p)) m = Some (pg h k0)" "slab_unlink (pg h k0) m = Some m1"
      "limbo h True xs0 (p + n) ys m1" "quiet h (outer_used xs0 (k0 + (p + n)) ys) m m1"
      "cells m1 (pg h k0) = cells m (pg h k0)" "cells m1 (pg h k0 + 24) = of_nat p"
      "\<not> bit (cells m (pg h k0)) 0" "bit (cells m (pg h k0)) 1" "\<not> bit (cells m (pg h (k0 + p))) 1"
      by (rule limbo_prev [OF inv' k0_def])
    have mg': "merge_after (p + n) ys = (p + n', ys')" by (rule merge_after_add [OF mg])
    have fl: "\<not> bit (get_lane 0 (cells m (pg h k0)) :: u8) 0" "bit (get_lane 0 (cells m (pg h k0)) :: u8) 1"
      using m1(7,8) flag_tests(2,3) by blast+
    obtain m' where m': "do { (n1, next, mx) \<leftarrow> merge_next (NOT LAST_SLAB_ALLOC) h (pg h (k0 + (p + n))) (of_nat (p + n)) m1;
        finish_free h (pg h k0) (get_lane 0 (cells m (pg h k0)) :: u8) n1 next mx } = Some m'"
      "slab_inv h (xs0 @ Free (p + n') # ys') m'" "quiet h (outer_used xs0 (k0 + (p + n)) ys) m1 m'"
      "outer_used xs0 (k0 + (p + n)) ys = used_map 1 (xs0 @ Free (p + n') # ys')"
      by (rule limbo_finish [OF m1(3) k0_def clear_masks(1) mg' fl])
    have sh1: "shape h (k0 + (p + n) + pages ys) m1" using limbo_facts(2) [OF m1(3) k0_def refl] .
    have v1: "valid_cell m1 (pg h k0)" "valid_cell m1 (pg h k0 + 24)"
      using shape_valid0 [OF sh1, of k0] shape_valid [OF sh1, of k0 24] b(1) by simp_all
    note ld1 = free_flags_exec [OF pg_aligned [OF h] v1(1)]
    show thesis
    proof (rule that)
      show "int_free_slab h (pg h k) (of_nat n) m = Some m'"
      proof -
        have a: "pg h k0 + slab_num_slabs = pg h k0 + 24" "(of_nat n + of_nat p :: u64) = of_nat (p + n)"
          "slab_plus (pg h (k0 + p)) (of_nat n) = pg h (k0 + (p + n))"
          using slab_plus_pg [of h "k0 + p" n] by (simp_all add: layout_simps add.assoc)
        show ?thesis
          unfolding m'(1) [symmetric]
          using ld [unfolded kp] ld1 m1(1,2,5,6,9) v1 flag_tests(1) [of "cells m (pg h (k0 + p))"]
          by (simp add: kp int_free_slab_def SLAB_PREV_ALLOC_BIT_def a load64_valid del: of_nat_add)
      qed
      have "give_back xs n ys = xs0 @ Free (p + n') # ys'" unfolding xs by (rule give_back_simps(2) [OF mg])
      then show "slab_inv h (give_back xs n ys) m'" "quiet h (used_map 1 (give_back xs n ys)) m m'"
        using m' m1(4) quiet_trans by metis+
    qed
  qed
qed

text \<open>
  The caller has set the previous-allocated bit of the first slab of the tail (or the slab
  still carries it).
\<close>

lemma int_free_remainder_slab_ok:
  assumes inv: "slab_inv h (xs @ Used (a + n) # ys) m" and a: "0 < a" "0 < n" and k: "k = 1 + pages xs + a"
    and bit: "bit (cells m (pg h k)) 1" and mg: "merge_after n ys = (n', ys')"
  obtains m' where "int_free_remainder_slab h (pg h k) (of_nat n) m = Some m'"
    and "slab_inv h (xs @ Used a # Free n' # ys') m'" and "quiet h (used_map 1 (xs @ Used a # Free n' # ys')) m m'"
proof -
  note f = inv_basic [OF inv]
  have h: "page_aligned h" and sh: "shape h (1 + pages (xs @ Used (a + n) # ys)) m" by (rule f(1,2))+
  have v: "valid_cell m (pg h k)" using a by (intro shape_valid0 [OF sh]) (simp add: k)
  note ld = free_flags_exec [OF pg_aligned [OF h] v]
  have k': "k = 1 + pages (xs @ [Used a])" by (simp add: k)
  have fl: "\<not> bit (get_lane 0 (cells m (pg h k)) AND NOT (1 :: u8)) 0" "bit (get_lane 0 (cells m (pg h k)) AND NOT (1 :: u8)) 1"
    using bit flag_tests(4,5) by blast+
  obtain m' where m': "do { (n1, next, mx) \<leftarrow> merge_next (ucast (NOT (ucast LAST_SLAB_ALLOC) :: u8)) h (pg h (k + n)) (of_nat n) m;
      finish_free h (pg h k) (get_lane 0 (cells m (pg h k)) AND NOT (1 :: u8)) n1 next mx } = Some m'"
    "slab_inv h ((xs @ [Used a]) @ Free n' # ys') m'" "quiet h (outer_used (xs @ [Used a]) (k + n) ys) m m'"
    "outer_used (xs @ [Used a]) (k + n) ys = used_map 1 ((xs @ [Used a]) @ Free n' # ys')"
    by (rule limbo_finish [OF limbo_tail [OF inv a] k' clear_masks(2) mg fl])
  show thesis
  proof (rule that)
    show "int_free_remainder_slab h (pg h k) (of_nat n) m = Some m'"
      unfolding m'(1) [symmetric] using ld slab_plus_pg [of h k n]
      by (simp add: int_free_remainder_slab_def SLAB_ALLOC_BIT_def)
  qed (use m' in simp_all)
qed

lemma finish_free_prev:
  assumes fin: "finish_free h s (F OR 2) n next m = Some m'" and s: "page_aligned s" and ne: "next - 8 \<noteq> s"
  obtains m'' where "finish_free h s F n next m = Some m''" and "slab_set_flags s 2 m'' = Some m'"
proof -
  obtain m1 where l: "slab_link h s n m = Some m1" using fin by (auto simp: finish_free_def split: Option.bind_splits)
  have z: "s + 24 \<noteq> s" by simp
  have lane: "set_lane 0 (get_lane 0 (set_lane 0 F x) OR 2 :: u8) (set_lane 0 F x) = set_lane 0 (F OR 2 :: u8) x" for x
    by (rule bit_eqI) (auto simp: bit_set_lane bit_get_lane bit_or_iff)
  obtain x1 x2 where x: "store8 m1 s (F OR 2) = Some x1" "store64 x1 (s + 24) n = Some x2" "store64 x2 (next - 8) n = Some m'"
    using fin unfolding finish_free_def l by (auto simp: layout_simps split: Option.bind_splits)
  have v1: "valid_cell m1 s"
    using x(1) page_offset_and [OF s, of 0] by (auto simp: store_lane_def load64_def split: if_splits)
  then have e1: "x1 = m1\<lparr>cells := (cells m1)(s := set_lane 0 (F OR 2) (cells m1 s))\<rparr>" using x(1) s by (simp add: exec_simps)
  then have v: "valid_cell m1 s" "valid_cell m1 (s + 24)" "valid_cell m1 (next - 8)"
    using v1 x(2,3) by (auto simp: store64_def split: if_splits)
  define m'' where "m'' = m1\<lparr>cells := (cells m1)(s := set_lane 0 F (cells m1 s), s + 24 := n, next - 8 := n)\<rparr>"
  have e: "finish_free h s F n next m = Some m''"
    using v s by (simp add: finish_free_def l layout_simps exec_simps m''_def)
  have "m' = m1\<lparr>cells := (cells m1)(s := set_lane 0 (F OR 2) (cells m1 s), s + 24 := n, next - 8 := n)\<rparr>"
    using fin v s by (simp add: finish_free_def l layout_simps exec_simps)
  moreover have "slab_set_flags s 2 m'' = Some (m1\<lparr>cells := (cells m1)(s := set_lane 0 (F OR 2) (cells m1 s), s + 24 := n, next - 8 := n)\<rparr>)"
    using slab_set_flags_exec [OF s, of m'' 2] v(1) z ne by (auto simp: m''_def lane fun_upd_twist)
  ultimately show thesis using that e by metis
qed

text \<open>
  The tail of a block that the client used: the flags of its first slab are the client's
  bytes, and the caller sets the previous-allocated bit after the call.
\<close>

lemma free_tail_then_prev_ok:
  assumes inv: "slab_inv h (xs @ Used (a + n) # ys) m" and a: "0 < a" "0 < n" and k: "k = 1 + pages xs + a"
    and mg: "merge_after n ys = (n', ys')"
  obtains m1 m' where "int_free_remainder_slab h (pg h k) (of_nat n) m = Some m1" "slab_set_flags (pg h k) 2 m1 = Some m'"
    and "slab_inv h (xs @ Used a # Free n' # ys') m'" and "quiet h (used_map 1 (xs @ Used a # Free n' # ys')) m m'"
proof -
  note f = inv_basic [OF inv]
  have h: "page_aligned h" and sh: "shape h (1 + pages (xs @ Used (a + n) # ys)) m" by (rule f(1,2))+
  have v: "valid_cell m (pg h k)" using a by (intro shape_valid0 [OF sh]) (simp add: k)
  note ld = free_flags_exec [OF pg_aligned [OF h] v]
  let ?xs = "xs @ [Used a]"
  have k': "k = 1 + pages ?xs" by (simp add: k)
  let ?F = "get_lane 0 (cells m (pg h k)) AND NOT (1 :: u8)"
  have fl: "\<not> bit (?F OR 2) 0" "bit (?F OR 2) 1" by (simp_all add: bit_simps)
  obtain m1 where m1: "merge_next (ucast (NOT (ucast LAST_SLAB_ALLOC) :: u8)) h (pg h (k + n)) (of_nat n) m = Some (of_nat n', pg h (k + n'), m1)"
    "limbo h False ?xs n' ys' m1" "quiet h (outer_used ?xs (k + n) ys) m m1"
    "outer_used ?xs (k + n) ys = outer_used ?xs (k + n') ys'"
    by (rule merge_next_ok [OF limbo_tail [OF inv a] k' clear_masks(2) mg]) blast
  obtain m' where m': "finish_free h (pg h k) (?F OR 2) (of_nat n') (pg h (k + n')) m1 = Some m'"
    "slab_inv h (?xs @ Free n' # ys') m'" "quiet h (outer_used ?xs (k + n') ys') m1 m'"
    by (rule finish_free_ok [OF m1(2) k' fl])
  note g = limbo_facts [OF m1(2) k' refl]
  have foot: "pg h (k + n') - 8 = pg h (k + n' - 1) + 4088" using g(4) by (intro pg_footer) simp
  have "pg h (k + n') - 8 \<noteq> pg h k"
    unfolding foot using g(3,4) pg_offset_eq_iff [OF h, of "k + n' - 1" k 4088 0] by auto
  then obtain m2 where m2: "finish_free h (pg h k) ?F (of_nat n') (pg h (k + n')) m1 = Some m2" "slab_set_flags (pg h k) 2 m2 = Some m'"
    by (rule finish_free_prev [OF m'(1) pg_aligned [OF h]])
  show thesis
  proof (rule that [OF _ m2(2)])
    show "int_free_remainder_slab h (pg h k) (of_nat n) m = Some m2"
      using ld slab_plus_pg [of h k n] m1(1) m2(1)
      by (simp add: int_free_remainder_slab_def SLAB_ALLOC_BIT_def)
    show "slab_inv h (xs @ Used a # Free n' # ys') m'" using m'(2) by simp
    show "quiet h (used_map 1 (xs @ Used a # Free n' # ys')) m m'"
      using quiet_trans [OF m1(3)] m'(3) m1(4) used_map_mid(1) [OF k', of n' ys'] by simp
  qed
qed
lemma lay_grow_used:
  assumes "lay h c 1 True (xs @ [Used a])" "lay h c (1 + pages xs + a + n) True zs"
  shows "lay h c 1 True (xs @ Used (a + n) # zs)"
  using assms by (simp add: lay_append add.assoc)

lemma outer_snoc_used: "outer (xs @ [Used a]) e ys = outer xs e ys"
  by (simp add: outer_def free_map_append)

lemma int_take_slab_ok:
  assumes inv: "slab_inv h (xs @ Used a # Free s # ys) m" and n: "0 < n" "n \<le> s" and k: "k = 1 + pages xs + a"
  obtains m' where "int_take_slab h (pg h k) (of_nat n) m = Some m'"
    and "slab_inv h (xs @ Used (a + n) # (if s = n then ys else Free (s - n) # ys)) m'"
    and "quiet h (used_map 1 (xs @ Used a # Free s # ys)) m m'"
proof -
  let ?xs = "xs @ [Used a]"
  define N where "N = k + s + pages ys"
  have inv': "slab_inv h (?xs @ Free s # ys) m" and k': "k = 1 + pages ?xs" using inv by (simp_all add: k)
  note g = inv_facts [OF inv' k' N_def]
  have a: "0 < a" and pos: "\<forall>r\<in>set xs. 0 < pages_of r" using g(7) by auto
  obtain c where u: "slab_unlink (pg h k) m = Some (m\<lparr>cells := c\<rparr>)" "mid_state h ?xs s ys m c"
    by (rule unlink_mid0 [OF inv' k']) blast
  have fm: "free_map 1 (?xs @ Free s # ys) k = Some s"
    using free_map_mid(1) [OF _ k', of s ys] g(7) by simp
  note fz = free_size [OF inv' fm]
  have sh: "shape h N m" by (rule g(2))
  have um: "used_map 1 (xs @ Used a # Free s # ys) = outer_used ?xs (k + s) ys"
    using g(16) by simp
  have s52: "s < 2 ^ 52" "n < 2 ^ 52" using fz(3) n by simp_all
  have le: "(of_nat n :: u64) \<le> of_nat s" using of_nat_u64_less [OF s52] n(2) by (simp add: not_less [symmetric])
  show thesis
  proof (cases "s = n")
    case True
    obtain c' where c': "take_whole h (pg h k) (of_nat s) (m\<lparr>cells := c\<rparr>) = Some (m\<lparr>cells := c'\<rparr>)"
      "\<exists>bins. bins_ok h c' bins (outer ?xs (k + s) ys)" "lay h c' 1 True ?xs" "lay h c' (k + s) True ys"
      "c' (h + 4072) = pg h N" "bit (c' (h + 4080)) 0 \<longleftrightarrow> last_used True ys"
      "kept h (outer_used ?xs (k + s) ys) (cells m) c'"
      by (rule whole_mid [OF u(2) k' N_def]) blast
    show thesis
    proof (rule that)
      show "int_take_slab h (pg h k) (of_nat n) m = Some (m\<lparr>cells := c'\<rparr>)"
        using fz(1) u(1) c'(1) True by (simp add: int_take_slab_def exec_simps)
      have "free_map 1 (xs @ Used (a + s) # ys) = outer ?xs (k + s) ys"
        unfolding outer_snoc_used using free_map_mid(2) [OF pos refl, of "a + s" ys] by (simp add: k add.assoc)
      moreover have "lay h c' 1 True (xs @ Used (a + s) # ys)" using c'(3,4) by (intro lay_grow_used) (simp_all add: k)
      ultimately show "slab_inv h (xs @ Used (a + n) # (if s = n then ys else Free (s - n) # ys)) (m\<lparr>cells := c'\<rparr>)"
        using sh c' True by (simp add: slab_inv_def end_ok_def N_def k add.assoc)
      show "quiet h (used_map 1 (xs @ Used a # Free s # ys)) m (m\<lparr>cells := c'\<rparr>)"
        using c'(7) um by (simp add: quiet_def)
    qed
  next
    case False
    then have ns: "n < s" using n(2) by simp
    have r: "1 \<le> s - n" "s - n < 2 ^ 52" using ns s52 by simp_all
    obtain c' where c': "split_remainder slab_link h (pg h k) (of_nat s) (of_nat n) (m\<lparr>cells := c\<rparr>) = Some (m\<lparr>cells := c'\<rparr>)"
      "\<exists>bins. bins_ok h c' bins ((outer ?xs (k + s) ys)(k + n \<mapsto> s - n))"
      "lay h c' 1 True ?xs" "lay h c' (k + n) True (Free (s - n) # ys)"
      "c' (h + 4072) = pg h N" "bit (c' (h + 4080)) 0 \<longleftrightarrow> last_used False ys"
      "kept h (outer_used ?xs (k + s) ys) (cells m) c'"
      by (rule split_mid [OF u(2) k' n(1) ns N_def slab_link_links [OF r]]) blast
    have ne: "(of_nat s :: u64) \<noteq> of_nat n" using of_nat_u64_eq [OF s52] False by simp
    show thesis
    proof (rule that)
      show "int_take_slab h (pg h k) (of_nat n) m = Some (m\<lparr>cells := c'\<rparr>)"
        using fz(1) u(1) c'(1) ne le by (simp add: int_take_slab_def exec_simps)
      have "free_map 1 (xs @ Used (a + n) # Free (s - n) # ys) = (outer ?xs (k + s) ys)(k + n \<mapsto> s - n)"
        unfolding outer_snoc_used using free_map_mid(3) [OF pos refl, of "a + n" "s - n" ys] ns by (simp add: k add.assoc)
      moreover have "lay h c' 1 True (xs @ Used (a + n) # Free (s - n) # ys)"
        using c'(3,4) by (intro lay_grow_used) (simp_all only: k)
      ultimately show "slab_inv h (xs @ Used (a + n) # (if s = n then ys else Free (s - n) # ys)) (m\<lparr>cells := c'\<rparr>)"
        using sh c' ns by (simp add: slab_inv_def end_ok_def N_def k add.assoc del: lay.simps)
      show "quiet h (used_map 1 (xs @ Used a # Free s # ys)) m (m\<lparr>cells := c'\<rparr>)"
        using c'(7) um by (simp add: quiet_def)
    qed
  qed
qed

end
