(* ===== verification/Slab_Machine.thy ===== *)
theory Slab_Machine
  imports Slab_Free
begin

unbundle bit_operations_syntax

section \<open>The slab layer as a state machine\<close>

text \<open>
  A client of the slab layer owns runs of slabs: \<open>live\<close> maps the address of a run to its
  length. It obtains runs, gives them back, gives back their tails, grows them in place and
  writes into them, in any order.
\<close>

type_synonym runs = "u64 \<rightharpoonup> nat"

text \<open>The runs of a map from page numbers to lengths, by address.\<close>

definition run_at :: "u64 \<Rightarrow> (nat \<rightharpoonup> nat) \<Rightarrow> runs" where
  "run_at h U a = (let k = unat (a - h) div 4096 in if a = pg h k then U k else None)"

lemma run_at_pg [simp]: "k < 2 ^ 52 \<Longrightarrow> run_at h U (pg h k) = U k"
  using unat_of_nat_page [of k] by (simp add: run_at_def pg_def)

lemma run_at_SomeE:
  assumes "run_at h U a = Some n"
  obtains k where "a = pg h k" "k < 2 ^ 52" "U k = Some n"
proof -
  define k where "k = unat (a - h) div 4096"
  have "unat (a - h) < 2 ^ 64" using unsigned_less [of "a - h"] by simp
  then have "k < 2 ^ 52" by (simp add: k_def)
  moreover have "a = pg h k" "U k = Some n" using assms by (auto simp: run_at_def k_def Let_def split: if_splits)
  ultimately show thesis using that by blast
qed

lemma run_at_upd:
  assumes "k < 2 ^ 52"
  shows "run_at h (U(k := v)) = (run_at h U)(pg h k := v)"
proof
  fix a
  show "run_at h (U(k := v)) a = ((run_at h U)(pg h k := v)) a"
  proof (cases "a = pg h k")
    case False
    then show ?thesis by (auto simp: run_at_def Let_def)
  qed (use assms in simp)
qed

subsection \<open>The moves\<close>

inductive slab_move :: "u64 \<Rightarrow> memory \<times> runs \<Rightarrow> memory \<times> runs \<Rightarrow> bool" for h where
  alloc: "1 \<le> n \<Longrightarrow> n < 2 ^ 52 \<Longrightarrow> int_alloc_slab Heap_sbrk h (of_nat n) m = Some (s, m') \<Longrightarrow>
    slab_move h (m, live) (m', live(s \<mapsto> n))"
| give_back: "live s = Some n \<Longrightarrow> int_free_slab h s (of_nat n) m = Some m' \<Longrightarrow>
    slab_move h (m, live) (m', live(s := None))"
| give_tail: "live s = Some (a + n) \<Longrightarrow> 0 < a \<Longrightarrow> 0 < n \<Longrightarrow> bit (cells m (slab_plus s (of_nat a))) 1 \<Longrightarrow>
    int_free_remainder_slab h (slab_plus s (of_nat a)) (of_nat n) m = Some m' \<Longrightarrow>
    slab_move h (m, live) (m', live(s \<mapsto> a))"
| take_next: "live s = Some a \<Longrightarrow> 0 < n \<Longrightarrow> n < 2 ^ 52 \<Longrightarrow> slab_is_free (slab_plus s (of_nat a)) m = Some True \<Longrightarrow>
    int_take_slab h (slab_plus s (of_nat a)) (of_nat n) m = Some m' \<Longrightarrow>
    slab_move h (m, live) (m', live(s \<mapsto> a + n))"
| put: "live s = Some n \<Longrightarrow> k < n \<Longrightarrow> d < 4096 \<Longrightarrow>
    k = 0 \<and> d = 0 \<longrightarrow> (bit v 0 \<longleftrightarrow> bit (cells m s) 0) \<and> (bit v 1 \<longleftrightarrow> bit (cells m s) 1) \<Longrightarrow>
    store64 m (slab_plus s (of_nat k) + d) v = Some m' \<Longrightarrow>
    slab_move h (m, live) (m', live)"

inductive slab_reachable :: "u64 \<Rightarrow> memory \<times> runs \<Rightarrow> bool" for h where
  init: "Heap_ok m \<Longrightarrow> Heap_room 4096 m \<Longrightarrow> page_aligned h \<Longrightarrow> arena_start m = h \<Longrightarrow> arena_end m = h \<Longrightarrow>
    mm_init Heap_sbrk m = Some (r, m') \<Longrightarrow> slab_reachable h (m', Map.empty)"
| step: "slab_reachable h st \<Longrightarrow> slab_move h st st' \<Longrightarrow> slab_reachable h st'"

inductive_cases slab_moveE: "slab_move h (m, live) (m', live')"

definition disjoint_run :: "runs \<Rightarrow> u64 \<Rightarrow> nat \<Rightarrow> bool" where
  "disjoint_run live s n \<longleftrightarrow> (\<forall>t l. live t = Some l \<longrightarrow> unat t + 4096 * l \<le> unat s \<or> unat s + 4096 * n \<le> unat t)"

subsection \<open>The invariant\<close>

definition slab_good :: "u64 \<Rightarrow> memory \<times> runs \<Rightarrow> bool" where
  "slab_good h st \<longleftrightarrow> Heap_ok (fst st) \<and> (\<exists>rs. slab_inv h rs (fst st) \<and> snd st = run_at h (used_map 1 rs))"

lemma slab_goodI: "Heap_ok m \<Longrightarrow> slab_inv h rs m \<Longrightarrow> live = run_at h (used_map 1 rs) \<Longrightarrow> slab_good h (m, live)"
  by (auto simp: slab_good_def)

lemma slab_goodE:
  assumes "slab_good h (m, live)"
  obtains rs where "Heap_ok m" "slab_inv h rs m" "live = run_at h (used_map 1 rs)"
  using assms by (auto simp: slab_good_def)

lemma used_map_split:
  "used_map j rs k = Some l \<Longrightarrow> \<exists>xs ys. rs = xs @ Used l # ys \<and> k = j + pages xs"
proof (induction j rs rule: used_map.induct)
  case (2 j n rs)
  then have "used_map (j + n) rs k = Some l" by simp
  from "2.IH" [OF this] obtain xs ys where "rs = xs @ Used l # ys" "k = j + n + pages xs" by blast
  then show ?case by (intro exI [of _ "Free n # xs"] exI [of _ ys]) simp
next
  case (3 j n rs)
  show ?case
  proof (cases "k = j")
    case True
    then show ?thesis using 3 by (intro exI [of _ "[]"] exI [of _ rs]) simp
  next
    case False
    then have "used_map (j + n) rs k = Some l" using 3 by simp
    from "3.IH" [OF this] obtain xs ys where "rs = xs @ Used l # ys" "k = j + n + pages xs" by blast
    then show ?thesis by (intro exI [of _ "Used n # xs"] exI [of _ ys]) simp
  qed
qed simp

text \<open>A live run is a used region.\<close>

lemma live_region:
  assumes "slab_inv h rs m" "run_at h (used_map 1 rs) s = Some n"
  obtains xs ys k where "rs = xs @ Used n # ys" "k = 1 + pages xs" "s = pg h k" "k + n < 2 ^ 52" "0 < n"
    "page_aligned h" "unat s = unat h + 4096 * k"
proof -
  note f = inv_basic [OF assms(1)]
  obtain k where k: "s = pg h k" "used_map 1 rs k = Some n" by (rule run_at_SomeE [OF assms(2)])
  obtain xs ys where x: "rs = xs @ Used n # ys" "k = 1 + pages xs" using used_map_split [OF k(2)] by blast
  have "0 < n" using f(5) x(1) by simp
  moreover have "k + n < 2 ^ 52" using f(3) x by simp
  moreover have "unat (pg h k) = unat h + 4096 * k"
    using f(2) x by (intro unat_pg) (simp add: shape_def)
  ultimately show thesis using that x k(1) f(1) by blast
qed

subsection \<open>Every move keeps the invariant\<close>

lemma put_inv:
  assumes inv: "slab_inv h (xs @ Used n # ys) m" and k: "k = 1 + pages xs" and j: "j < n" and d: "d < 4096"
    and bits: "j = 0 \<and> d = 0 \<Longrightarrow> (bit v 0 \<longleftrightarrow> bit (cells m (pg h k)) 0) \<and> (bit v 1 \<longleftrightarrow> bit (cells m (pg h k)) 1)"
  shows "slab_inv h (xs @ Used n # ys) (m\<lparr>cells := (cells m)(pg h (k + j) + d := v)\<rparr>)"
proof -
  let ?rs = "xs @ Used n # ys"
  define c where "c = (cells m)(pg h (k + j) + d := v)"
  note f = inv_basic [OF inv]
  have h: "page_aligned h" by (rule f(1))
  have b52: "1 \<le> k" "k + n < 2 ^ 52" "k + j < 2 ^ 52" "1 + pages ?rs < 2 ^ 52" using f(3) k j by simp_all
  have ch: "changes h {} {pg h (k + j) + d} (cells m) c" by (simp add: changes_def c_def)
  have l: "lay h (cells m) 1 True xs" "0 < n" "bit (cells m (pg h k)) 0" "bit (cells m (pg h k)) 1 \<longleftrightarrow> last_used True xs"
    "lay h (cells m) (k + n) True ys"
    using f(4) by (simp_all add: lay_append k)
  have "same_lay h 1 (1 + pages xs) (cells m) c"
    by (rule changes_same_lay [OF ch h]) (use b52 k h d in \<open>auto simp: page_simps\<close>)
  with l(1) have lx: "lay h c 1 True xs" by (blast intro: lay_frame)
  have "same_lay h (k + n) (k + n + pages ys) (cells m) c"
    by (rule changes_same_lay [OF ch h]) (use b52 k h d j in \<open>auto simp: page_simps\<close>)
  with l(5) have ly: "lay h c (k + n) True ys" by (blast intro: lay_frame)
  have ck: "bit (c (pg h k)) 0 \<longleftrightarrow> bit (cells m (pg h k)) 0" "bit (c (pg h k)) 1 \<longleftrightarrow> bit (cells m (pg h k)) 1"
  proof -
    have "pg h k = pg h (k + j) + d \<longleftrightarrow> j = 0 \<and> d = 0" using h d b52 by (auto simp: page_simps)
    then show "bit (c (pg h k)) 0 \<longleftrightarrow> bit (cells m (pg h k)) 0" "bit (c (pg h k)) 1 \<longleftrightarrow> bit (cells m (pg h k)) 1"
      using bits by (auto simp: c_def)
  qed
  have "h + e \<notin> {pg h (k + j) + d}" if "e < 4096" for e using that h d b52 by (simp add: page_simps)
  then have hd: "c (h + 4072) = cells m (h + 4072)" "c (h + 4080) = cells m (h + 4080)"
    by (intro changes_header [OF ch h]; simp)+
  have "used_map 1 ?rs k = Some n" using outer_used_upd [of xs k n ys] f(5) k by simp
  then have nD: "k + j \<notin> dom (free_map 1 ?rs)" using used_page(3) [OF inv, of k n "k + j"] j by simp
  have "pg h (k + j) + d \<notin> link_cells h (dom (free_map 1 ?rs)) \<union> skip_cells h"
    by (rule page_plain [OF h f(7)]) (use b52 d nD in auto)
  then have "\<exists>bins. bins_ok h c bins (free_map 1 ?rs)"
    using inv unfolding slab_inv_def c_def by (blast intro: bins_ok_upd)
  moreover have "lay h c 1 True ?rs" using lx ly l ck k by (simp add: lay_append)
  ultimately show ?thesis
    using f(2) inv hd unfolding c_def [symmetric] by (simp add: slab_inv_def end_ok_def)
qed

lemma Heap_ok_cells: "Heap_ok (m\<lparr>cells := c\<rparr>) = Heap_ok m"
  by (rule hs.src_ok_cells)

lemma quiet_Heap_ok: "quiet h U m m' \<Longrightarrow> Heap_ok m' = Heap_ok m"
  unfolding quiet_def by (metis Heap_ok_cells)

lemma last_freeE:
  assumes "\<not> last_used True xs"
  obtains ys s where "xs = ys @ [Free s]"
proof (cases xs rule: rev_cases)
  case (snoc ys r)
  then show thesis using assms that by (cases r) auto
qed (use assms in simp)

lemma give_back_maps:
  assumes inv: "slab_inv h (xs @ Used n # ys) m" and k: "k = 1 + pages xs"
  shows "used_map 1 (give_back xs n ys) = (used_map 1 (xs @ Used n # ys))(k := None)"
proof -
  note f = inv_basic [OF inv]
  have p: "\<forall>r\<in>set xs. 0 < pages_of r" and py: "\<forall>r\<in>set ys. 0 < pages_of r" and n: "0 < n" using f(5) by simp_all
  obtain n' ys' where mg: "merge_after n ys = (n', ys')" by fastforce
  have o: "outer_used xs (k + n) ys k = None"
  proof (cases "outer_used xs (k + n) ys k")
    case (Some l)
    have "used_map 1 xs k = Some l \<or> used_map (k + n) ys k = Some l"
      using Some by (auto simp: outer_used_def map_add_Some_iff)
    then have "0 < l" using used_map_pos [OF p] used_map_pos [OF py] by blast
    then show ?thesis using outer_used_bounds [OF Some] k n by simp
  qed simp
  have "outer_used xs (k + n) ys = outer_used xs (k + n') ys'"
    using mg by (cases "(n, ys)" rule: merge_after.cases) (auto simp: outer_used_def add.assoc)
  moreover have "used_map 1 (give_back xs n ys) = outer_used xs (k + n') ys'"
  proof (cases "last_used True xs")
    case True
    then show ?thesis using give_back_simps(1) [OF mg True] used_map_mid(1) [OF k] by simp
  next
    case False
    then obtain xs0 q where xs: "xs = xs0 @ [Free q]" by (rule last_freeE)
    define k0 where "k0 = 1 + pages xs0"
    have "used_map 1 (xs0 @ Free (q + n') # ys') = outer_used xs0 (k0 + (q + n')) ys'"
      by (rule used_map_mid(1)) (rule k0_def)
    moreover have "outer_used xs e zs = outer_used xs0 e zs" for e zs
      by (simp add: xs outer_used_def used_map_append)
    moreover have "give_back xs n ys = xs0 @ Free (q + n') # ys'" unfolding xs by (rule give_back_simps(2) [OF mg])
    ultimately show ?thesis by (simp add: k xs k0_def add.assoc)
  qed
  ultimately show ?thesis
    using outer_used_upd [OF p k, of n ys] o by (auto simp: fun_upd_idem)
qed

lemma tail_maps:
  assumes inv: "slab_inv h (xs @ Used (a + n) # ys) m" and k: "k = 1 + pages xs" and a: "0 < a"
    and mg: "merge_after n ys = (n', ys')"
  shows "used_map 1 (xs @ Used a # Free n' # ys') = (used_map 1 (xs @ Used (a + n) # ys))(k \<mapsto> a)"
proof -
  have p: "\<forall>r\<in>set xs. 0 < pages_of r" using inv_basic(5) [OF inv] by simp
  have "outer_used xs (k + a) (Free n' # ys') = outer_used xs (k + (a + n)) ys"
    using mg by (cases "(n, ys)" rule: merge_after.cases) (auto simp: outer_used_def add.assoc)
  then show ?thesis
    using outer_used_upd [OF p k, of a "Free n' # ys'"] outer_used_upd [OF p k, of "a + n" ys] by simp
qed

lemma take_maps:
  assumes inv: "slab_inv h (xs @ Used a # Free s # ys) m" and k: "k = 1 + pages xs" and n: "n \<le> s"
  shows "used_map 1 (xs @ Used (a + n) # (if s = n then ys else Free (s - n) # ys))
    = (used_map 1 (xs @ Used a # Free s # ys))(k \<mapsto> a + n)"
proof -
  have p: "\<forall>r\<in>set xs. 0 < pages_of r" using inv_basic(5) [OF inv] by simp
  have "outer_used xs (k + (a + n)) (if s = n then ys else Free (s - n) # ys) = outer_used xs (k + a) (Free s # ys)"
    using n by (auto simp: outer_used_def add.assoc)
  then show ?thesis
    using outer_used_upd [OF p k, of a "Free s # ys"]
      outer_used_upd [OF p k, of "a + n" "if s = n then ys else Free (s - n) # ys"] by simp
qed

text \<open>\<^verbatim>\<open>slab_is_free\<close> on the slab after a used region finds a free region.\<close>

lemma next_free_region:
  assumes inv: "slab_inv h (xs @ Used a # ys) m" and k: "k = 1 + pages xs"
    and free: "slab_is_free (pg h (k + a)) m = Some True"
  obtains s zs where "ys = Free s # zs"
proof (cases ys)
  case Nil
  have sh: "shape h (k + a) m" using inv_basic(2) [OF inv] by (simp add: Nil k)
  then have "\<not> valid_cell m (pg h (k + a))" by (simp add: valid_cell_def shape_def)
  moreover have "pg h (k + a) AND NOT 7 = pg h (k + a)"
    using page_offset_and(2) [OF pg_aligned, of h 0 "k + a"] inv_basic(1) [OF inv] by simp
  ultimately show thesis using free by (simp add: slab_is_free_def layout_simps load_lane_def load64_def)
next
  case (Cons r zs)
  show thesis
  proof (cases r)
    case (Used q)
    have "bit (cells m (pg h (k + a))) 0" "0 < q" using inv_basic(4) [OF inv] by (simp_all add: lay_append k Cons Used)
    moreover have "valid_cell m (pg h (k + a))"
      using shape_valid0 [OF inv_basic(2) [OF inv], of "k + a"] calculation(2) by (simp add: Cons Used k)
    ultimately show thesis using free slab_is_free_exec [OF pg_aligned [OF inv_basic(1) [OF inv]]] by simp
  next
    case (Free s)
    then show thesis using that Cons by simp
  qed
qed

text \<open>A run of pages that meets no used region meets no live run.\<close>

lemma live_pages:
  assumes inv: "slab_inv h rs m" and t: "run_at h (used_map 1 rs) t = Some l"
  obtains i where "t = pg h i" "used_map 1 rs i = Some l" "unat t = unat h + 4096 * i" "i + l \<le> 1 + pages rs"
    "1 \<le> i" "0 < l" "i < 2 ^ 52"
proof -
  obtain i where i: "t = pg h i" "i < 2 ^ 52" "used_map 1 rs i = Some l" using t by (rule run_at_SomeE)
  have b: "1 \<le> i \<and> i + l \<le> 1 + pages rs" by (rule used_map_bounds [OF i(3)])
  have "0 < l" by (rule used_map_pos [OF inv_basic(5) [OF inv] i(3)])
  moreover have "unat (pg h i) = unat h + 4096 * i"
    using b inv_basic(2) [OF inv] by (intro unat_pg) (simp add: shape_def)
  ultimately show thesis using that i b by blast
qed

lemma fresh_disjoint:
  assumes inv: "slab_inv h rs m" and fr: "fresh (used_map 1 rs) k n" and k: "unat h + 4096 * k < 2 ^ 64"
  shows "disjoint_run (run_at h (used_map 1 rs)) (pg h k) n"
  unfolding disjoint_run_def
proof (intro allI impI)
  fix t l assume "run_at h (used_map 1 rs) t = Some l"
  then obtain i where i: "used_map 1 rs i = Some l" "unat t = unat h + 4096 * i"
    by (rule live_pages [OF inv]) blast
  moreover have "unat (pg h k) = unat h + 4096 * k" by (rule unat_pg [OF k])
  moreover have "i + l \<le> k \<or> k + n \<le> i" using fr i(1) by (auto simp: fresh_def)
  ultimately show "unat t + 4096 * l \<le> unat (pg h k) \<or> unat (pg h k) + 4096 * n \<le> unat t" by auto
qed

text \<open>The contents of runs, but for the bit of the first slab that belongs to the slab layer.\<close>

definition keeps_runs :: "runs \<Rightarrow> memory \<Rightarrow> memory \<Rightarrow> bool" where
  "keeps_runs live m m' \<longleftrightarrow> (\<forall>s n. live s = Some n \<longrightarrow>
     (\<forall>k d. k < n \<longrightarrow> d < 4096 \<longrightarrow> k \<noteq> 0 \<or> d \<noteq> 0 \<longrightarrow>
        cells m' (slab_plus s (of_nat k) + d) = cells m (slab_plus s (of_nat k) + d))
   \<and> (\<forall>i. i \<noteq> 1 \<longrightarrow> bit (cells m' s) i = bit (cells m s) i))"

definition common_runs :: "runs \<Rightarrow> runs \<Rightarrow> runs" where
  "common_runs live live' s = (case (live s, live' s) of (Some a, Some b) \<Rightarrow> Some (min a b) | _ \<Rightarrow> None)"

lemma kept_runs:
  assumes "kept h U (cells m) (cells m')"
  shows "keeps_runs (run_at h U) m m'"
  unfolding keeps_runs_def
proof (intro allI impI)
  fix s n assume "run_at h U s = Some n"
  then obtain k where k: "s = pg h k" "U k = Some n" by (rule run_at_SomeE)
  then show "(\<forall>i d. i < n \<longrightarrow> d < 4096 \<longrightarrow> i \<noteq> 0 \<or> d \<noteq> 0 \<longrightarrow>
        cells m' (slab_plus s (of_nat i) + d) = cells m (slab_plus s (of_nat i) + d))
   \<and> (\<forall>i. i \<noteq> 1 \<longrightarrow> bit (cells m' s) i = bit (cells m s) i)"
    using assms by (simp add: slab_plus_pg kept_def)
qed

lemma keeps_runs_mono:
  assumes "keeps_runs U m m'" "\<And>s b. V s = Some b \<Longrightarrow> \<exists>a\<ge>b. U s = Some a"
  shows "keeps_runs V m m'"
  unfolding keeps_runs_def
proof (intro allI impI)
  fix s b assume "V s = Some b"
  then obtain a where a: "b \<le> a" "U s = Some a" using assms(2) by blast
  then show "(\<forall>k d. k < b \<longrightarrow> d < 4096 \<longrightarrow> k \<noteq> 0 \<or> d \<noteq> 0 \<longrightarrow>
        cells m' (slab_plus s (of_nat k) + d) = cells m (slab_plus s (of_nat k) + d))
   \<and> (\<forall>i. i \<noteq> 1 \<longrightarrow> bit (cells m' s) i = bit (cells m s) i)"
    using assms(1) unfolding keeps_runs_def by (meson less_le_trans)
qed

lemma common_runs_le:
  "common_runs live live' s = Some b \<Longrightarrow> \<exists>a\<ge>b. live s = Some a"
  "common_runs live live' s = Some b \<Longrightarrow> \<exists>a\<ge>b. live' s = Some a"
  by (auto simp: common_runs_def split: option.splits)

text \<open>What a call does to a good state.\<close>

definition good_move :: "u64 \<Rightarrow> memory \<Rightarrow> runs \<Rightarrow> memory \<Rightarrow> runs \<Rightarrow> bool" where
  "good_move h m live m' live' \<longleftrightarrow> slab_good h (m', live') \<and> keeps_runs (common_runs live live') m m'"

lemma alloc_good:
  assumes good: "slab_good h (m, live)" and n: "1 \<le> n" "n < 2 ^ 52"
    and a: "int_alloc_slab Heap_sbrk h (of_nat n) m = Some (s, m')"
  shows "good_move h m live m' (live(s \<mapsto> n))" and "live s = None"
proof -
  obtain rs where g: "Heap_ok m" "slab_inv h rs m" "live = run_at h (used_map 1 rs)" using good by (rule slab_goodE)
  note f = inv_basic [OF g(2)]
  have room: "Heap_room (of_nat (n - last_free rs) * 4096) m" if "\<forall>l\<ge>n. \<not> has_free rs l"
    using hs.int_alloc_slab_refuse [OF g(2,1) n that] a by auto
  obtain m1 k rs' where r: "int_alloc_slab Heap_sbrk h (of_nat n) m = Some (pg h k, m1)" "slab_grow h rs rs' m m1"
    "used_map 1 rs' = (used_map 1 rs)(k \<mapsto> n)" "fresh (used_map 1 rs) k n"
    "pages rs' = pages rs + (if \<exists>l\<ge>n. has_free rs l then 0 else n - last_free rs)"
    using hs.int_alloc_slab_ok [OF g(2,1) n room] by blast
  have s: "s = pg h k" "m1 = m'" using a r(1) by simp_all
  have inv': "slab_inv h rs' m'" "kept h (used_map 1 rs) (cells m) (cells m')" using r(2) s by (simp_all add: slab_grow_def)
  have kb: "1 \<le> k \<and> k + n \<le> 1 + pages rs'" by (rule used_map_bounds) (simp only: r(3) fun_upd_same)
  have k52: "k < 2 ^ 52" using kb inv_basic(3) [OF inv'(1)] by simp
  have ok': "Heap_ok m'"
  proof (cases "\<exists>l\<ge>n. has_free rs l")
    case True
    show ?thesis by (rule hs.src_ok_alloc [OF g(1) f(2) r(2) [unfolded s], of 0]) (use True r(5) in simp_all)
  next
    case False
    show ?thesis
      by (rule hs.src_ok_alloc [OF g(1) f(2) r(2) [unfolded s], of "n - last_free rs"]) (use False r(5) room in auto)
  qed
  have live': "live(s \<mapsto> n) = run_at h (used_map 1 rs')" unfolding g(3) s(1) r(3) run_at_upd [OF k52] by (rule refl)
  have "used_map 1 rs k = None"
  proof (cases "used_map 1 rs k")
    case (Some l)
    then show ?thesis using r(4) [unfolded fresh_def, rule_format, OF Some] used_map_pos [OF f(5) Some] n by auto
  qed simp
  then show "live s = None" unfolding g(3) s(1) run_at_pg [OF k52] .
  have "keeps_runs (common_runs live (live(s \<mapsto> n))) m m'"
    by (rule keeps_runs_mono [OF kept_runs [OF inv'(2)]]) (rule common_runs_le(1) [where live = live, unfolded g(3)], simp add: g(3))
  then show "good_move h m live m' (live(s \<mapsto> n))"
    using slab_goodI [OF ok' inv'(1) live'] by (simp add: good_move_def)
qed

lemma give_back_good:
  assumes good: "slab_good h (m, live)" and s: "live s = Some n"
  obtains m' where "int_free_slab h s (of_nat n) m = Some m'" and "good_move h m live m' (live(s := None))"
proof -
  obtain rs where g: "Heap_ok m" "slab_inv h rs m" "live = run_at h (used_map 1 rs)" using good by (rule slab_goodE)
  obtain xs ys k where x: "rs = xs @ Used n # ys" "k = 1 + pages xs" "s = pg h k" "k + n < 2 ^ 52"
    by (rule live_region [OF g(2) s [unfolded g(3)]])
  obtain m' where m': "int_free_slab h (pg h k) (of_nat n) m = Some m'" "slab_inv h (give_back xs n ys) m'"
    "quiet h (used_map 1 (give_back xs n ys)) m m'"
    by (rule int_free_slab_ok [OF g(2) [unfolded x(1)] x(2)])
  have live': "live(s := None) = run_at h (used_map 1 (give_back xs n ys))"
    using give_back_maps [OF g(2) [unfolded x(1)] x(2)] x(4) by (simp add: g(3) x(1,3) run_at_upd)
  have "Heap_ok m'" using quiet_Heap_ok [OF m'(3)] g(1) by simp
  moreover have "keeps_runs (common_runs live (live(s := None))) m m'"
  proof (rule keeps_runs_mono)
    show "keeps_runs (live(s := None)) m m'" unfolding live' by (rule kept_runs) (use m'(3) in \<open>simp add: quiet_def\<close>)
  qed (rule common_runs_le(2))
  ultimately show thesis
    using that m'(1) slab_goodI [OF _ m'(2) live'] by (simp add: good_move_def x(3))
qed

lemma give_tail_good:
  assumes good: "slab_good h (m, live)" and s: "live s = Some (a + n)" "0 < a" "0 < n"
    and bit: "bit (cells m (slab_plus s (of_nat a))) 1"
  obtains m' where "int_free_remainder_slab h (slab_plus s (of_nat a)) (of_nat n) m = Some m'"
    and "good_move h m live m' (live(s \<mapsto> a))"
proof -
  obtain rs where g: "Heap_ok m" "slab_inv h rs m" "live = run_at h (used_map 1 rs)" using good by (rule slab_goodE)
  obtain xs ys k where x: "rs = xs @ Used (a + n) # ys" "k = 1 + pages xs" "s = pg h k" "k + (a + n) < 2 ^ 52"
    by (rule live_region [OF g(2) s(1) [unfolded g(3)]])
  obtain n' ys' where mg: "merge_after n ys = (n', ys')" by fastforce
  have p: "slab_plus s (of_nat a) = pg h (k + a)" "k + a = 1 + pages xs + a" by (simp_all add: x slab_plus_pg)
  obtain m' where m': "int_free_remainder_slab h (pg h (k + a)) (of_nat n) m = Some m'"
    "slab_inv h (xs @ Used a # Free n' # ys') m'" "quiet h (used_map 1 (xs @ Used a # Free n' # ys')) m m'"
    by (rule int_free_remainder_slab_ok [OF g(2) [unfolded x(1)] s(2,3) p(2) bit [unfolded p(1)] mg])
  have live': "live(s \<mapsto> a) = run_at h (used_map 1 (xs @ Used a # Free n' # ys'))"
    using tail_maps [OF g(2) [unfolded x(1)] x(2) s(2) mg] x(4) by (simp add: g(3) x(1,3) run_at_upd)
  have "Heap_ok m'" using quiet_Heap_ok [OF m'(3)] g(1) by simp
  moreover have "keeps_runs (common_runs live (live(s \<mapsto> a))) m m'"
  proof (rule keeps_runs_mono)
    show "keeps_runs (live(s \<mapsto> a)) m m'" unfolding live' by (rule kept_runs) (use m'(3) in \<open>simp add: quiet_def\<close>)
  qed (rule common_runs_le(2))
  ultimately show thesis
    using that m'(1) slab_goodI [OF _ m'(2) live'] by (simp add: good_move_def p(1))
qed

lemma take_next_good:
  assumes good: "slab_good h (m, live)" and s: "live s = Some a" and n: "0 < n" "n < 2 ^ 52"
    and free: "slab_is_free (slab_plus s (of_nat a)) m = Some True"
    and t: "int_take_slab h (slab_plus s (of_nat a)) (of_nat n) m = Some m'"
  shows "good_move h m live m' (live(s \<mapsto> a + n))"
proof -
  obtain rs where g: "Heap_ok m" "slab_inv h rs m" "live = run_at h (used_map 1 rs)" using good by (rule slab_goodE)
  obtain xs ys k where x: "rs = xs @ Used a # ys" "k = 1 + pages xs" "s = pg h k" "k + a < 2 ^ 52"
    by (rule live_region [OF g(2) s [unfolded g(3)]])
  have p: "slab_plus s (of_nat a) = pg h (k + a)" "k + a = 1 + pages xs + a" by (simp_all add: x slab_plus_pg)
  obtain l zs where ys: "ys = Free l # zs"
    by (rule next_free_region [OF g(2) [unfolded x(1)] x(2) free [unfolded p(1)]])
  note inv = g(2) [unfolded x(1) ys]
  have "free_map 1 ((xs @ [Used a]) @ Free l # zs) (k + a) = Some l"
    using free_map_mid(1) [of "xs @ [Used a]" "k + a" l zs] inv_basic(5) [OF inv] x(2) by auto
  then have fz: "load64 m (pg h (k + a) + slab_num_slabs) = Some (of_nat l)" "l < 2 ^ 52"
    using free_size [OF inv, of "k + a" l] by simp_all
  have "of_nat n \<le> (of_nat l :: u64)"
    using t fz(1) by (auto simp: int_take_slab_def p(1) malloc_assert_def split: if_splits)
  then have nl: "n \<le> l" using of_nat_u64_less [OF fz(2) n(2)] by (simp add: not_less [symmetric])
  let ?rs = "xs @ Used (a + n) # (if l = n then zs else Free (l - n) # zs)"
  obtain m1 where m1: "int_take_slab h (pg h (k + a)) (of_nat n) m = Some m1" "slab_inv h ?rs m1"
    "quiet h (used_map 1 (xs @ Used a # Free l # zs)) m m1"
    by (rule int_take_slab_ok [OF inv n(1) nl p(2)])
  have m': "m' = m1" using t m1(1) p(1) by simp
  have live': "live(s \<mapsto> a + n) = run_at h (used_map 1 ?rs)"
    using take_maps [OF inv x(2) nl] x(4) by (simp add: g(3) x(1,3) ys run_at_upd)
  have "keeps_runs (common_runs live (live(s \<mapsto> a + n))) m m'"
  proof (rule keeps_runs_mono)
    show "keeps_runs live m m'"
      unfolding g(3) x(1) ys by (rule kept_runs) (use m1(3) in \<open>simp add: quiet_def m'\<close>)
  qed (rule common_runs_le(1))
  moreover have "Heap_ok m'" using quiet_Heap_ok [OF m1(3)] g(1) m' by simp
  ultimately show ?thesis
    using slab_goodI [OF _ m1(2) live'] m' by (simp add: good_move_def)
qed

lemma put_good:
  assumes good: "slab_good h (m, live)" and s: "live s = Some n" and k: "k < n" and d: "d < 4096"
    and bits: "k = 0 \<and> d = 0 \<longrightarrow> (bit v 0 \<longleftrightarrow> bit (cells m s) 0) \<and> (bit v 1 \<longleftrightarrow> bit (cells m s) 1)"
    and p: "store64 m (slab_plus s (of_nat k) + d) v = Some m'"
  shows "slab_good h (m', live)"
proof -
  obtain rs where g: "Heap_ok m" "slab_inv h rs m" "live = run_at h (used_map 1 rs)" using good by (rule slab_goodE)
  obtain xs ys j where x: "rs = xs @ Used n # ys" "j = 1 + pages xs" "s = pg h j"
    by (rule live_region [OF g(2) s [unfolded g(3)]])
  have m': "m' = m\<lparr>cells := (cells m)(pg h (j + k) + d := v)\<rparr>"
    using p by (simp add: store64_def x(3) slab_plus_pg split: if_splits)
  have "slab_inv h (xs @ Used n # ys) m'"
    unfolding m' by (rule put_inv [OF g(2) [unfolded x(1)] x(2) k d]) (use bits x(3) in auto)
  moreover have "Heap_ok m'" using g(1) by (simp add: m' Heap_ok_cells)
  ultimately show ?thesis using g(3) x(1) by (auto intro: slab_goodI)
qed

lemma slab_move_good:
  assumes "slab_good h (m, live)" and "slab_move h (m, live) (m', live')"
  shows "slab_good h (m', live')" and "live' \<noteq> live \<Longrightarrow> keeps_runs (common_runs live live') m m'"
proof -
  have "slab_good h (m', live') \<and> (live' \<noteq> live \<longrightarrow> keeps_runs (common_runs live live') m m')"
    using assms(2)
  proof (rule slab_moveE)
    fix n s
    assume "live' = live(s \<mapsto> n)" "Suc 0 \<le> n" "n < 4503599627370496" "int_alloc_slab Heap_sbrk h (of_nat n) m = Some (s, m')"
    then show ?thesis using alloc_good(1) [OF assms(1), of n s m'] by (simp add: good_move_def)
  next
    fix s n
    assume a: "live' = live(s := None)" "live s = Some n" "int_free_slab h s (of_nat n) m = Some m'"
    obtain m1 where "int_free_slab h s (of_nat n) m = Some m1" "good_move h m live m1 (live(s := None))"
      by (rule give_back_good [OF assms(1) a(2)])
    then show ?thesis using a by (simp add: good_move_def)
  next
    fix s b n
    assume a: "live' = live(s \<mapsto> b)" "live s = Some (b + n)" "0 < b" "0 < n"
      "bit (cells m (slab_plus s (of_nat b))) (Suc 0)"
      "int_free_remainder_slab h (slab_plus s (of_nat b)) (of_nat n) m = Some m'"
    obtain m1 where "int_free_remainder_slab h (slab_plus s (of_nat b)) (of_nat n) m = Some m1"
      "good_move h m live m1 (live(s \<mapsto> b))"
      by (rule give_tail_good [OF assms(1) a(2-4)]) (use a(5) in simp_all)
    then show ?thesis using a by (simp add: good_move_def)
  next
    fix s b n
    assume "live' = live(s \<mapsto> b + n)" "live s = Some b" "0 < n" "n < 4503599627370496"
      "slab_is_free (slab_plus s (of_nat b)) m = Some True"
      "int_take_slab h (slab_plus s (of_nat b)) (of_nat n) m = Some m'"
    then show ?thesis using take_next_good [OF assms(1), of s b n m'] by (simp add: good_move_def)
  next
    fix s n k v and d :: u64
    assume "live' = live" "live s = Some n" "k < n" "d < 4096"
      "k = 0 \<and> d = 0 \<longrightarrow> bit v 0 = bit (cells m s) 0 \<and> bit v (Suc 0) = bit (cells m s) (Suc 0)"
      "store64 m (slab_plus s (of_nat k) + d) v = Some m'"
    then show ?thesis using put_good [OF assms(1), of s n k d v m'] by simp
  qed
  then show "slab_good h (m', live')" "live' \<noteq> live \<Longrightarrow> keeps_runs (common_runs live live') m m'"
    by blast+
qed

lemma slab_reachable_good: "slab_reachable h st \<Longrightarrow> slab_good h st"
proof (induction rule: slab_reachable.induct)
  case (init m r m')
  obtain m1 where m1: "mm_init Heap_sbrk m = Some (True, m1)" "slab_inv h [] m1"
    "m1 = m\<lparr>cells := cells m1, arena_end := h + 4096, heap_ptr := h\<rparr>"
    using hs.mm_init_ok [OF init(1-5)] by blast
  have "m1 = (m\<lparr>arena_end := arena_end m + 4096\<rparr>)\<lparr>cells := cells m1, heap_ptr := h\<rparr>"
    by (subst m1(3)) (cases m, simp add: init(5) [symmetric])
  then have "Heap_ok m1" using hs.src_ok_grow [OF init(1,2)] by (metis hs.src_ok_cells hs.src_ok_heap_ptr)
  moreover have "Map.empty = run_at h (used_map 1 [])" by (simp add: run_at_def fun_eq_iff)
  ultimately show ?case using slab_goodI [OF _ m1(2)] m1(1) init(6) by simp
next
  case (step st st')
  then show ?case using slab_move_good(1) by (metis surj_pair)
qed

text \<open>The live runs lie in the arena, behind the header, and do not overlap.\<close>

lemma good_disjoint:
  assumes "slab_good h (m, live)" and "live s = Some n"
  shows "0 < n \<and> page_aligned s \<and> unat h + 4096 \<le> unat s \<and> unat s + 4096 * n \<le> unat (arena_end m)
    \<and> disjoint_run (live(s := None)) s n"
proof -
  obtain rs where g: "slab_inv h rs m" "live = run_at h (used_map 1 rs)"
    by (rule slab_goodE [OF assms(1)])
  note f = inv_basic [OF g(1)]
  obtain xs ys k where x: "rs = xs @ Used n # ys" "k = 1 + pages xs" "s = pg h k" "k + n < 2 ^ 52" "0 < n"
    "unat s = unat h + 4096 * k"
    by (rule live_region [OF g(1) assms(2) [unfolded g(2)]])
  have "arena_end m = pg h (1 + pages rs)" "unat h + 4096 * (1 + pages rs) < 2 ^ 64" using f(2) by (simp_all add: shape_def)
  then have "unat (arena_end m) = unat h + 4096 * (1 + pages rs)" by (simp add: unat_pg)
  moreover have "disjoint_run (live(s := None)) s n"
    unfolding disjoint_run_def
  proof (intro allI impI)
    fix t j assume "(live(s := None)) t = Some j"
    then have ts: "t \<noteq> s" "live t = Some j" by (auto split: if_splits)
    obtain i where i: "t = pg h i" "used_map 1 rs i = Some j" "unat t = unat h + 4096 * i"
      using ts(2) unfolding g(2) by (rule live_pages [OF g(1)]) blast
    have "i \<noteq> k" using i(1) ts(1) x(3) by auto
    then have "outer_used xs (k + n) ys i = Some j"
      using i(2) outer_used_upd [of xs k n ys] f(5) x(1,2) by auto
    from outer_used_bounds [OF this] have "i + j \<le> k \<or> k + n \<le> i" using x(2) by auto
    then show "unat t + 4096 * j \<le> unat s \<or> unat s + 4096 * n \<le> unat t" unfolding i(3) x(6) by auto
  qed
  ultimately show ?thesis using x f(1) by (simp add: pg_aligned)
qed

subsection \<open>The abstract machine\<close>

text \<open>
  The calls with their arguments and results, and what each one does to the runs and their
  contents: the abstract state maps the address of a run to the list of its cells, without
  the bit of the first cell that belongs to the slab layer.
\<close>

datatype slab_call =
    Obtain nat u64  \<comment> \<open>\<^verbatim>\<open>__int_alloc_slab\<close>: the number of slabs and the result\<close>
  | Release u64  \<comment> \<open>\<^verbatim>\<open>__int_free_slab\<close>\<close>
  | Shrink u64 nat nat  \<comment> \<open>\<^verbatim>\<open>__int_free_remainder_slab\<close>: the slabs that are kept and given back\<close>
  | Extend u64 nat nat  \<comment> \<open>\<^verbatim>\<open>__int_take_slab\<close>: the slabs that were there and that are added\<close>
  | Put u64 nat u64 u64  \<comment> \<open>a store of the owner: run, slab, offset and value\<close>

inductive slab_call_step :: "u64 \<Rightarrow> slab_call \<Rightarrow> memory \<times> runs \<Rightarrow> memory \<times> runs \<Rightarrow> bool" for h where
  obtain_step: "1 \<le> n \<Longrightarrow> n < 2 ^ 52 \<Longrightarrow> int_alloc_slab Heap_sbrk h (of_nat n) m = Some (s, m') \<Longrightarrow>
    slab_call_step h (Obtain n s) (m, live) (m', live(s \<mapsto> n))"
| release_step: "live s = Some n \<Longrightarrow> int_free_slab h s (of_nat n) m = Some m' \<Longrightarrow>
    slab_call_step h (Release s) (m, live) (m', live(s := None))"
| shrink_step: "live s = Some (a + n) \<Longrightarrow> 0 < a \<Longrightarrow> 0 < n \<Longrightarrow> bit (cells m (slab_plus s (of_nat a))) 1 \<Longrightarrow>
    int_free_remainder_slab h (slab_plus s (of_nat a)) (of_nat n) m = Some m' \<Longrightarrow>
    slab_call_step h (Shrink s a n) (m, live) (m', live(s \<mapsto> a))"
| extend_step: "live s = Some a \<Longrightarrow> 0 < n \<Longrightarrow> n < 2 ^ 52 \<Longrightarrow> slab_is_free (slab_plus s (of_nat a)) m = Some True \<Longrightarrow>
    int_take_slab h (slab_plus s (of_nat a)) (of_nat n) m = Some m' \<Longrightarrow>
    slab_call_step h (Extend s a n) (m, live) (m', live(s \<mapsto> a + n))"
| put_step: "live s = Some n \<Longrightarrow> k < n \<Longrightarrow> d < 4096 \<Longrightarrow>
    k = 0 \<and> d = 0 \<longrightarrow> (bit v 0 \<longleftrightarrow> bit (cells m s) 0) \<and> (bit v 1 \<longleftrightarrow> bit (cells m s) 1) \<Longrightarrow>
    store64 m (slab_plus s (of_nat k) + d) v = Some m' \<Longrightarrow>
    slab_call_step h (Put s k d v) (m, live) (m', live)"

lemma slab_call_moves: "slab_move h st st' \<longleftrightarrow> (\<exists>c. slab_call_step h c st st')"
proof
  assume "slab_move h st st'"
  then show "\<exists>c. slab_call_step h c st st'" by cases (blast intro: slab_call_step.intros)+
next
  assume "\<exists>c. slab_call_step h c st st'"
  then obtain c where "slab_call_step h c st st'" ..
  then show "slab_move h st st'" by cases (blast intro: slab_move.intros)+
qed

type_synonym run_store = "u64 \<rightharpoonup> u64 list"

definition apart_run :: "run_store \<Rightarrow> u64 \<Rightarrow> nat \<Rightarrow> bool" where
  "apart_run R s n \<longleftrightarrow> (\<forall>t cs. R t = Some cs \<longrightarrow> unat t + 8 * length cs \<le> unat s \<or> unat s + 4096 * n \<le> unat t)"

text \<open>A cell as its owner sees it.\<close>

definition own_cell :: "nat \<Rightarrow> u64 \<Rightarrow> u64" where
  "own_cell i v = (if i = 0 then v AND NOT 2 else v)"

fun run_spec :: "slab_call \<Rightarrow> run_store \<Rightarrow> run_store \<Rightarrow> bool" where
  "run_spec (Obtain n s) R R' \<longleftrightarrow> page_aligned s \<and> R s = None \<and> apart_run R s n
     \<and> (\<exists>cs. length cs = 512 * n \<and> R' = R(s \<mapsto> cs))"
| "run_spec (Release s) R R' \<longleftrightarrow> R s \<noteq> None \<and> R' = R(s := None)"
| "run_spec (Shrink s a n) R R' \<longleftrightarrow> (\<exists>cs. R s = Some cs \<and> length cs = 512 * (a + n) \<and> R' = R(s \<mapsto> take (512 * a) cs))"
| "run_spec (Extend s a n) R R' \<longleftrightarrow> apart_run (R(s := None)) s (a + n)
     \<and> (\<exists>cs ds. R s = Some cs \<and> length cs = 512 * a \<and> length ds = 512 * n \<and> R' = R(s \<mapsto> cs @ ds))"
| "run_spec (Put s k d v) R R' \<longleftrightarrow> (\<exists>cs. R s = Some cs \<and> 512 * k + unat d div 8 < length cs
     \<and> R' = R(s \<mapsto> cs[512 * k + unat d div 8 := own_cell (512 * k + unat d div 8) v]))"

definition run_cell :: "memory \<Rightarrow> u64 \<Rightarrow> nat \<Rightarrow> u64" where
  "run_cell m s i = own_cell i (cells m (s + of_nat (8 * i)))"

definition runs_of :: "memory \<Rightarrow> runs \<Rightarrow> run_store" where
  "runs_of m live s = map_option (\<lambda>n. map (run_cell m s) [0..<512 * n]) (live s)"

lemma slab_plus_of_nat: "slab_plus s (of_nat k) = s + of_nat k * 4096"
  using slab_plus_pg [of s 0 k] by (simp add: pg_def)

lemma run_address: "s + of_nat (8 * i) = slab_plus s (of_nat (i div 512)) + of_nat (8 * (i mod 512))"
proof -
  have "8 * i = 8 * (512 * (i div 512) + i mod 512)" by (simp only: mult_div_mod_eq)
  then have "8 * i = 4096 * (i div 512) + 8 * (i mod 512)" by (simp only: distrib_left mult.assoc [symmetric])
  then have "of_nat (8 * i) = (of_nat (4096 * (i div 512) + 8 * (i mod 512)) :: u64)" by metis
  then show ?thesis by (simp add: slab_plus_of_nat mult.commute)
qed

lemma keeps_run_cell:
  assumes "keeps_runs U m m'" "U s = Some n" "i < 512 * n"
  shows "run_cell m' s i = run_cell m s i"
proof (cases "i = 0")
  case True
  have "bit (cells m' s) j = bit (cells m s) j" if "j \<noteq> 1" for j
    using assms(1,2) that unfolding keeps_runs_def by blast
  then have "cells m' s AND NOT 2 = cells m s AND NOT 2"
    by (intro bit_eqI) (auto simp: bit_simps)
  then show ?thesis using True by (simp add: run_cell_def own_cell_def)
next
  case False
  have u8: "unat (of_nat (8 * (i mod 512)) :: u64) = 8 * (i mod 512)"
  proof -
    have "8 * (i mod 512) < 8 * 512" by (intro mult_less_mono2) simp_all
    then show ?thesis by (subst unat_of_nat, intro mod_less) simp
  qed
  have "i mod 512 < 512" by simp
  then have "8 * (i mod 512) < 4096" by linarith
  then have "of_nat (8 * (i mod 512)) < (4096 :: u64)" by (simp only: word_less_nat_alt u8) simp
  moreover have "i div 512 \<noteq> 0 \<or> of_nat (8 * (i mod 512)) \<noteq> (0 :: u64)"
  proof (rule ccontr)
    assume c: "\<not> (i div 512 \<noteq> 0 \<or> of_nat (8 * (i mod 512)) \<noteq> (0 :: u64))"
    then have "8 * (i mod 512) = 0" using u8 by simp
    then have "i mod 512 = 0" "i div 512 = 0" using c by simp_all
    then show False using False by (metis div_eq_0_iff mod_less mod_self zero_neq_numeral)
  qed
  moreover have "i div 512 < n" using assms(3) by simp
  ultimately have "cells m' (s + of_nat (8 * i)) = cells m (s + of_nat (8 * i))"
    using assms(1,2) unfolding run_address [of s i] keeps_runs_def by blast
  then show ?thesis by (simp add: run_cell_def)
qed

lemma runs_of_None [simp]: "runs_of m live s = None \<longleftrightarrow> live s = None"
  by (simp add: runs_of_def)

lemma runs_of_upd: "live t = live' t \<Longrightarrow> keeps_runs (common_runs live live') m m' \<Longrightarrow> runs_of m' live' t = runs_of m live t"
  using keeps_run_cell [of "common_runs live live'" m m' t]
  by (cases "live' t") (auto simp: runs_of_def common_runs_def)

lemma runs_of_Some: "runs_of m live t = Some cs \<longleftrightarrow> (\<exists>l. live t = Some l \<and> cs = map (run_cell m t) [0..<512 * l])"
  by (auto simp: runs_of_def)

lemma apart_runs: "apart_run (runs_of m live) s n \<longleftrightarrow> disjoint_run live s n"
proof
  assume a: "apart_run (runs_of m live) s n"
  show "disjoint_run live s n"
    unfolding disjoint_run_def
  proof (intro allI impI)
    fix t l assume "live t = Some l"
    then have "runs_of m live t = Some (map (run_cell m t) [0..<512 * l])" by (simp add: runs_of_Some)
    then show "unat t + 4096 * l \<le> unat s \<or> unat s + 4096 * n \<le> unat t" using a unfolding apart_run_def by fastforce
  qed
next
  assume d: "disjoint_run live s n"
  show "apart_run (runs_of m live) s n"
    unfolding apart_run_def
  proof (intro allI impI)
    fix t cs assume "runs_of m live t = Some cs"
    then obtain l where "live t = Some l" "8 * length cs = 4096 * l" by (auto simp: runs_of_Some)
    then show "unat t + 8 * length cs \<le> unat s \<or> unat s + 4096 * n \<le> unat t" using d unfolding disjoint_run_def by auto
  qed
qed

lemma runs_of_del: "(runs_of m live)(s := None) = runs_of m (live(s := None))"
  by (auto simp: runs_of_def)

text \<open>A store into a run changes this cell of this run only.\<close>

lemma put_runs:
  assumes good: "slab_good h (m, live)" and s: "live s = Some n" and k: "k < n" and d: "d < 4096"
    and p: "store64 m (slab_plus s (of_nat k) + d) v = Some m'"
  shows "run_spec (Put s k d v) (runs_of m live) (runs_of m' live)"
proof -
  note l = good_disjoint [OF good s]
  define j where "j = 512 * k + unat d div 8"
  have lt: "unat (arena_end m) < 2 ^ 64" by (rule unsigned_less [THEN less_le_trans]) simp
  have h8: "page_aligned h" using good by (auto simp: slab_good_def dest: inv_basic(1))
  have ps: "page_aligned s" using l by blast
  have al: "(slab_plus s (of_nat k) + d) AND 7 = 0" and m': "m' = m\<lparr>cells := (cells m)(slab_plus s (of_nat k) + d := v)\<rparr>"
    using p by (auto simp: store64_def valid_cell_def split: if_splits)
  have ud: "unat d < 4096" using d by (simp add: word_less_nat_alt)
  have d8: "unat d = 8 * (unat d div 8)"
  proof -
    have "page_aligned (slab_plus s (of_nat k))" using pg_aligned [OF ps, of k] slab_plus_pg [of s 0 k] by simp
    then have "d AND 7 = 0" using al page_offset_and(1) [OF _ d] by simp
    then have "take_bit 3 d = 0" by (simp add: take_bit_eq_mask mask_eq_exp_minus_1)
    then have "unat (take_bit 3 d) = 0" by simp
    then have "unat d mod 8 = 0" by (simp only: unsigned_take_bit_eq) (simp add: take_bit_eq_mod)
    then show ?thesis by (simp add: mod_0_imp_dvd)
  qed
  have a: "slab_plus s (of_nat k) + d = s + of_nat (8 * j)"
  proof -
    have "d = of_nat (8 * (unat d div 8))" using d8 by (metis of_nat_unat ucast_id)
    moreover have "of_nat (8 * j) = (of_nat k * 4096 + of_nat (8 * (unat d div 8)) :: u64)" by (simp add: j_def)
    ultimately show ?thesis by (simp add: slab_plus_of_nat)
  qed
  have jn: "j < 512 * n" using k ud by (simp add: j_def)
  have un: "unat (t + of_nat (8 * i)) = unat t + 8 * i" if "live t = Some q" "i < 512 * q" for t i q
  proof -
    have "unat t + 4096 * q < 2 ^ 64" using good_disjoint [OF good that(1)] lt by simp
    then have "unat t + 8 * i < 2 ^ 64" using that(2) by simp
    then show ?thesis by (simp add: unat_word_ariths unat_of_nat)
  qed
  have c: "run_cell m' t i = (if t = s \<and> i = j then own_cell j v else run_cell m t i)" if t: "live t = Some q" "i < 512 * q" for t i q
  proof (cases "t + of_nat (8 * i) = s + of_nat (8 * j)")
    case True
    then have e: "unat t + 8 * i = unat s + 8 * j" using un [OF t] un [OF s jn] by simp
    have "t = s"
    proof (rule ccontr)
      assume "t \<noteq> s"
      then have "(live(s := None)) t = Some q" using t(1) by simp
      then have "unat t + 4096 * q \<le> unat s \<or> unat s + 4096 * n \<le> unat t" using l unfolding disjoint_run_def by blast
      then show False using e t(2) jn by auto
    qed
    then show ?thesis using e True by (simp add: run_cell_def m' a)
  next
    case False
    then show ?thesis by (auto simp: run_cell_def m' a)
  qed
  have "runs_of m' live = (runs_of m live)(s \<mapsto> (map (run_cell m s) [0..<512 * n])[j := own_cell j v])"
  proof
    fix t
    show "runs_of m' live t = ((runs_of m live)(s \<mapsto> (map (run_cell m s) [0..<512 * n])[j := own_cell j v])) t"
    proof (cases "live t")
      case (Some q)
      then show ?thesis using c [OF Some] s
        by (auto simp: runs_of_def intro!: nth_equalityI simp: nth_list_update)
    qed (use s in \<open>auto simp: runs_of_def\<close>)
  qed
  then show ?thesis using s jn by (simp add: runs_of_def flip: j_def)
qed

lemma good_move_others:
  assumes "good_move h m live m' live'" "\<And>t. t \<noteq> s \<Longrightarrow> live' t = live t"
  shows "runs_of m' live' = (runs_of m live)(s := runs_of m' live' s)"
  using assms runs_of_upd [of live _ live' m m'] by (auto simp: good_move_def)

lemma slab_call_refines:
  assumes good: "slab_good h (m, live)" and c: "slab_call_step h c (m, live) (m', live')"
  shows "run_spec c (runs_of m live) (runs_of m' live')"
  using c
proof cases
  case (obtain_step n s)
  note a = alloc_good [OF good obtain_step(3-5)]
  have g: "slab_good h (m', live(s \<mapsto> n))" using a(1) by (simp add: good_move_def)
  have e: "live(s := None) = live" using a(2) by (simp add: fun_upd_idem)
  have "page_aligned s" "disjoint_run live s n" using good_disjoint [OF g, of s n] by (simp_all add: e)
  moreover have "runs_of m' (live(s \<mapsto> n)) = (runs_of m live)(s := runs_of m' (live(s \<mapsto> n)) s)"
    by (rule good_move_others [OF a(1)]) simp
  moreover have "runs_of m' (live(s \<mapsto> n)) s = Some (map (run_cell m' s) [0..<512 * n])" by (simp add: runs_of_def)
  ultimately show ?thesis
    unfolding obtain_step(1,2) run_spec.simps apart_runs using a(2)
    by (intro conjI exI [of _ "map (run_cell m' s) [0..<512 * n]"]) simp_all
next
  case (release_step s n)
  obtain m1 where "int_free_slab h s (of_nat n) m = Some m1" and g: "good_move h m live m1 (live(s := None))"
    by (rule give_back_good [OF good release_step(3)])
  then have m1: "m1 = m'" using release_step(4) by simp
  have "runs_of m' (live(s := None)) = (runs_of m live)(s := runs_of m' (live(s := None)) s)"
    by (rule good_move_others [OF g [unfolded m1]]) simp
  then show ?thesis using release_step by (simp add: runs_of_def)
next
  case (shrink_step s a n)
  obtain m1 where "int_free_remainder_slab h (slab_plus s (of_nat a)) (of_nat n) m = Some m1"
    and g: "good_move h m live m1 (live(s \<mapsto> a))"
    by (rule give_tail_good [OF good shrink_step(3-6)])
  then have m1: "m1 = m'" using shrink_step(7) by simp
  note g = g [unfolded m1]
  have o: "runs_of m' (live(s \<mapsto> a)) = (runs_of m live)(s := runs_of m' (live(s \<mapsto> a)) s)"
    by (rule good_move_others [OF g]) simp
  have "runs_of m' (live(s \<mapsto> a)) s = Some (take (512 * a) (map (run_cell m s) [0..<512 * (a + n)]))"
    using keeps_run_cell [of "common_runs live (live(s \<mapsto> a))" m m' s a] g shrink_step(3)
    by (auto simp: runs_of_def good_move_def common_runs_def take_map take_upt)
  with o show ?thesis using shrink_step(1-3) by (auto simp: runs_of_def)
next
  case (extend_step s a n)
  note g = take_next_good [OF good extend_step(3-7)]
  have o: "runs_of m' (live(s \<mapsto> a + n)) = (runs_of m live)(s := runs_of m' (live(s \<mapsto> a + n)) s)"
    by (rule good_move_others [OF g]) simp
  have "runs_of m' (live(s \<mapsto> a + n)) s = Some (map (run_cell m s) [0..<512 * a] @ map (run_cell m' s) [512 * a..<512 * (a + n)])"
    using keeps_run_cell [of "common_runs live (live(s \<mapsto> a + n))" m m' s a] g extend_step(3)
      upt_add_eq_append [of 0 "512 * a" "512 * n"]
    by (simp add: runs_of_def good_move_def common_runs_def algebra_simps)
  moreover have "slab_good h (m', live(s \<mapsto> a + n))" using g by (simp add: good_move_def)
  then have "disjoint_run (live(s := None)) s (a + n)" using good_disjoint [of h m' "live(s \<mapsto> a + n)" s] by simp
  ultimately have "\<exists>ds. length ds = 512 * n \<and> runs_of m' (live(s \<mapsto> a + n)) = (runs_of m live)(s \<mapsto> map (run_cell m s) [0..<512 * a] @ ds)
      \<and> disjoint_run (live(s := None)) s (a + n)"
    using o by (intro exI [of _ "map (run_cell m' s) [512 * a..<512 * (a + n)]"]) simp
  then show ?thesis
    unfolding extend_step(1,2) run_spec.simps runs_of_del apart_runs using extend_step(3) by (auto simp: runs_of_Some)
next
  case (put_step s n k d v)
  then show ?thesis using put_runs [OF good put_step(3-5,7)] by simp
qed

subsection \<open>A concrete run\<close>

text \<open>A 1 MB arena at address 4096, after \<^verbatim>\<open>mm_init\<close> and after an allocation of two slabs.\<close>

definition heap0 :: memory where
  "heap0 = snd (the (mm_init Heap_sbrk (Heap_new 4096 (2 ^ 20) (\<lambda>_. 0))))"

definition heap1 :: memory where
  "heap1 = snd (the (int_alloc_slab Heap_sbrk 4096 (of_nat 2) heap0))"

lemma heap_new_ok:
  fixes m defines "m \<equiv> Heap_new 4096 (2 ^ 20) (\<lambda>_. 0)"
  shows "Heap_ok m" "Heap_room 4096 m" "page_aligned (4096 :: u64)" "arena_start m = 4096" "arena_end m = 4096"
  by (simp_all add: m_def Heap_new_def Heap_ok_def Heap_room_def page_aligned_def)

lemma heap0_facts:
  "mm_init Heap_sbrk (Heap_new 4096 (2 ^ 20) (\<lambda>_. 0)) = Some (True, heap0)" "slab_inv 4096 [] heap0"
  "arena_end heap0 = 8192" "arena_start heap0 = 4096" "arena_max heap0 = 2 ^ 20" "Heap_ok heap0"
  "slab_reachable 4096 (heap0, Map.empty)"
proof -
  let ?m = "Heap_new 4096 (2 ^ 20) (\<lambda>_. 0)"
  obtain m1 where m1: "mm_init Heap_sbrk ?m = Some (True, m1)" "slab_inv 4096 [] m1"
    "m1 = ?m\<lparr>cells := cells m1, arena_end := 4096 + 4096, heap_ptr := 4096\<rparr>"
    using hs.mm_init_ok [OF heap_new_ok] by blast
  then have e: "heap0 = m1" by (simp add: heap0_def)
  show a: "mm_init Heap_sbrk ?m = Some (True, heap0)" "slab_inv 4096 [] heap0" using m1 e by simp_all
  show b: "arena_end heap0 = 8192" "arena_start heap0 = 4096" "arena_max heap0 = 2 ^ 20"
    unfolding e by (subst m1(3), simp add: Heap_new_def)+
  then show "Heap_ok heap0" by (simp add: Heap_ok_def)
  show "slab_reachable 4096 (heap0, Map.empty)" by (rule init [OF heap_new_ok a(1)])
qed

lemma heap0_room: "n < 255 \<Longrightarrow> Heap_room (of_nat n * 4096) heap0"
  using unat_of_nat_page [of n] by (simp add: Heap_room_def heap0_facts)

lemma heap1_facts:
  "int_alloc_slab Heap_sbrk 4096 (of_nat 2) heap0 = Some (8192, heap1)"
  "slab_reachable 4096 (heap1, [8192 \<mapsto> 2])" "Heap_ok heap1" "arena_end heap1 = 16384"
  "slab_inv 4096 [Used 2] heap1"
proof -
  obtain m k rs where r: "int_alloc_slab Heap_sbrk 4096 (of_nat 2) heap0 = Some (pg 4096 k, m)"
    "slab_grow 4096 [] rs heap0 m" "used_map 1 rs = (used_map 1 [])(k \<mapsto> 2)" "pages rs = 2"
    using hs.int_alloc_slab_ok [OF heap0_facts(2,6), of 2] heap0_room [of 2]
    by (auto simp: has_free_def last_free_def)
  have m: "m = heap1" using r(1) by (simp add: heap1_def)
  have "used_map 1 rs k = Some 2" by (simp only: r(3) fun_upd_same)
  then have k: "k = 1" using used_map_bounds [of 1 rs k 2] r(4) by simp
  obtain xs ys where rs: "rs = xs @ Used 2 # ys" using used_map_split [of 1 rs k 2] r(3) by auto
  have inv: "slab_inv 4096 rs heap1" using r(2) m by (simp add: slab_grow_def)
  have "\<forall>r\<in>set rs. 0 < pages_of r" by (rule inv_basic(5) [OF inv])
  then have "xs = []" "ys = []" using r(4) by (cases xs; simp add: rs; cases ys; simp add: rs)+
  then show "slab_inv 4096 [Used 2] heap1" using inv rs by simp
  show a: "int_alloc_slab Heap_sbrk 4096 (of_nat 2) heap0 = Some (8192, heap1)" using r(1) m k by (simp add: pg_def)
  have "slab_move 4096 (heap0, Map.empty) (heap1, [8192 \<mapsto> 2])" by (rule alloc [OF _ _ a]) simp_all
  then show b: "slab_reachable 4096 (heap1, [8192 \<mapsto> 2])" by (rule step [OF heap0_facts(7)])
  then show "Heap_ok heap1" using slab_reachable_good by (auto simp: slab_good_def)
  show "arena_end heap1 = 16384" using inv_basic(2) [OF inv] r(4) by (simp add: shape_def pg_def)
qed

definition heap2 :: memory where
  "heap2 = snd (the (int_alloc_slab Heap_sbrk 4096 (of_nat 1) heap1))"

lemma heap1_props: "arena_start heap1 = 4096" "arena_max heap1 = 2 ^ 20"
proof -
  have "arena_start heap1 = arena_start heap0 \<and> arena_max heap1 = arena_max heap0"
    using hs.int_alloc_slab_ok [OF heap0_facts(2,6), of 2] heap0_room [of 2] heap1_facts(1)
    by (auto simp: has_free_def last_free_def slab_grow_def) (metis memory.select_convs(2,4) memory.surjective memory.update_convs(1,3))+
  then show "arena_start heap1 = 4096" "arena_max heap1 = 2 ^ 20" by (simp_all add: heap0_facts)
qed

lemma heap1_room: "n < 250 \<Longrightarrow> Heap_room (of_nat n * 4096) heap1"
  using unat_of_nat_page [of n] by (simp add: Heap_room_def heap1_facts(4) heap1_props)

lemma heap2_facts: "int_alloc_slab Heap_sbrk 4096 (of_nat 1) heap1 = Some (16384, heap2)"
proof -
  obtain m k rs where r: "int_alloc_slab Heap_sbrk 4096 (of_nat 1) heap1 = Some (pg 4096 k, m)"
    "used_map 1 rs = (used_map 1 [Used 2])(k \<mapsto> 1)" "pages rs = 3" "fresh (used_map 1 [Used 2]) k 1"
    using hs.int_alloc_slab_ok [OF heap1_facts(5,3), of 1] heap1_room [of 1]
    by (auto simp: has_free_def last_free_def)
  have "used_map 1 rs k = Some 1" by (simp only: r(2) fun_upd_same)
  then have "1 \<le> k \<and> k + 1 \<le> 4" using used_map_bounds [of 1 rs k 1] r(3) by simp
  moreover have "1 + 2 \<le> k \<or> k + 1 \<le> 1" using r(4) [unfolded fresh_def, rule_format, of 1 2] by simp
  ultimately have "k = 3" by linarith
  then show ?thesis using r(1) by (simp add: heap2_def pg_def)
qed

subsection \<open>Properties\<close>

text \<open>C12: In every reachable state the arena is a sequence of free and used regions described by
  the boundary tags, the bins hold exactly the free regions, the live runs are exactly the
  used regions, and no two free regions are adjacent.\<close>

theorem slab_reachable_invariant:
  assumes "slab_reachable h (m, live)"
  shows "\<exists>rs. slab_inv h rs m \<and> live = run_at h (used_map 1 rs)
    \<and> (\<nexists>xs a b ys. rs = xs @ Free a # Free b # ys)"
proof -
  obtain rs where g: "slab_inv h rs m" "live = run_at h (used_map 1 rs)"
    by (rule slab_goodE [OF slab_reachable_good [OF assms]])
  then show ?thesis using inv_basic(4) [OF g(1)] by (intro exI [of _ rs]) (auto simp: lay_append)
qed

theorem slab_reachable_invariant_witness:
  "\<exists>rs. slab_inv 4096 rs heap1 \<and> [8192 \<mapsto> 2] = run_at 4096 (used_map 1 rs)
    \<and> (\<nexists>xs a b ys. rs = xs @ Free a # Free b # ys)"
  by (rule slab_reachable_invariant [OF heap1_facts(2)])

text \<open>C9: In every state that mm_init and any interleaving of allocations, frees, shrinks, in-
  place extensions and client writes can reach, every live run of slabs is page-aligned,
  lies after the heap header and inside the arena, and overlaps no other live run.\<close>

theorem slab_runs_disjoint:
  assumes "slab_reachable h (m, live)" and "live s = Some n"
  shows "0 < n \<and> page_aligned s \<and> unat h + 4096 \<le> unat s \<and> unat s + 4096 * n \<le> unat (arena_end m)
    \<and> disjoint_run (live(s := None)) s n"
  by (rule good_disjoint [OF slab_reachable_good [OF assms(1)] assms(2)])

theorem slab_runs_disjoint_witness:
  "0 < (2 :: nat) \<and> page_aligned (8192 :: u64) \<and> unat (4096 :: u64) + 4096 \<le> unat (8192 :: u64)
    \<and> unat (8192 :: u64) + 4096 * 2 \<le> unat (arena_end heap1)
    \<and> disjoint_run (([8192 \<mapsto> 2] :: runs)(8192 := None)) 8192 2"
  by (rule slab_runs_disjoint [OF heap1_facts(2)]) simp

text \<open>C11: The slab layer refines an abstract store of runs: whatever the bins, skiplist, boundary
  tags and arena look like, in a reachable state __int_alloc_slab adds a page-aligned run
  of the requested length at an address where no run was and that overlaps none,
  __int_free_slab removes exactly its run, __int_free_remainder_slab cuts the run to its
  first slabs, __int_take_slab appends slabs that overlap no run, and a store of the owner
  changes one cell; every other run, and the part of this run that stays, keeps its
  contents (up to the previous-allocated bit of a run's first cell).\<close>

theorem slab_calls_refine_runs:
  assumes "slab_reachable h (m, live)" and "slab_call_step h c (m, live) (m', live')"
  shows "run_spec c (runs_of m live) (runs_of m' live')"
  by (rule slab_call_refines [OF slab_reachable_good [OF assms(1)] assms(2)])

theorem slab_calls_refine_runs_witness:
  "run_spec (Obtain 1 16384) (runs_of heap1 [8192 \<mapsto> 2]) (runs_of heap2 [8192 \<mapsto> 2, 16384 \<mapsto> 1])"
  by (rule slab_calls_refine_runs [OF heap1_facts(2)], rule obtain_step [OF _ _ heap2_facts]) simp_all

text \<open>C10: No allocation, free, shrink or extension of slabs changes a byte of any other live run,
  nor of the part of a run its owner keeps, except for the previous-allocated bit in a
  run's first slab.\<close>

theorem slab_calls_keep_contents:
  assumes "slab_reachable h (m, live)" and "slab_move h (m, live) (m', live')" and "live' \<noteq> live"
  shows "keeps_runs (common_runs live live') m m'"
  by (rule slab_move_good(2) [OF slab_reachable_good [OF assms(1)] assms(2,3)])

theorem slab_calls_keep_contents_witness:
  "keeps_runs (common_runs [8192 \<mapsto> 2] ([8192 \<mapsto> 2, 16384 \<mapsto> 1])) heap1 heap2"
  by (rule slab_calls_keep_contents [OF heap1_facts(2)], rule alloc [OF _ _ heap2_facts]) (auto simp: fun_eq_iff)

lemma Heap_room_less:
  assumes "Heap_room (of_nat a * 4096) m" "b \<le> a" "a < 2 ^ 52"
  shows "Heap_room (of_nat b * 4096) m"
  using assms unat_of_nat_page [of a] unat_of_nat_page [of b] by (simp add: Heap_room_def)

text \<open>C14: In a reachable state an allocation of n slabs always succeeds while the arena can still
  grow by n slabs, with a run that meets no live one: the skiplist and large-bin searches
  end.\<close>

theorem slab_alloc_total:
  assumes "slab_reachable h (m, live)" and "1 \<le> n" and "n < 2 ^ 52" and "Heap_room (of_nat n * 4096) m"
  shows "\<exists>s m'. int_alloc_slab Heap_sbrk h (of_nat n) m = Some (s, m') \<and> live s = None \<and> disjoint_run live s n
    \<and> slab_reachable h (m', live(s \<mapsto> n))"
proof -
  note good = slab_reachable_good [OF assms(1)]
  obtain rs where g: "Heap_ok m" "slab_inv h rs m" "live = run_at h (used_map 1 rs)"
    by (rule slab_goodE [OF good])
  have "Heap_room (of_nat (n - last_free rs) * 4096) m" by (rule Heap_room_less [OF assms(4) _ assms(3)]) simp
  then obtain k m' where k: "int_alloc_slab Heap_sbrk h (of_nat n) m = Some (pg h k, m')"
    "fresh (used_map 1 rs) k n" "\<exists>rs'. slab_inv h rs' m' \<and> used_map 1 rs' = (used_map 1 rs)(k \<mapsto> n)"
    using hs.int_alloc_slab_ok [OF g(2,1) assms(2,3)] by (auto simp: slab_grow_def)
  have none: "live (pg h k) = None" by (rule alloc_good(2) [OF good assms(2,3) k(1)])
  obtain rs' where rs': "slab_inv h rs' m'" "used_map 1 rs' k = Some n" using k(3) by auto
  have "unat h + 4096 * k < 2 ^ 64"
    using used_map_bounds [OF rs'(2)] inv_basic(2) [OF rs'(1)] by (auto simp: shape_def)
  then have "disjoint_run live (pg h k) n" unfolding g(3) by (rule fresh_disjoint [OF g(2) k(2)])
  moreover have "slab_reachable h (m', live(pg h k \<mapsto> n))"
    by (rule step [OF assms(1)]) (rule alloc [OF assms(2,3) k(1)])
  ultimately show ?thesis using k(1) none by blast
qed

theorem slab_alloc_total_witness:
  "\<exists>s m'. int_alloc_slab Heap_sbrk 4096 (of_nat 5) heap1 = Some (s, m') \<and> ([8192 \<mapsto> 2] :: runs) s = None
    \<and> disjoint_run [8192 \<mapsto> 2] s 5 \<and> slab_reachable 4096 (m', [8192 \<mapsto> 2, s \<mapsto> 5])"
  by (rule slab_alloc_total [OF heap1_facts(2)]) (use heap1_room [of 5] in simp_all)

text \<open>C13: In a reachable state the free of any live run returns (no assertion fails, no access
  leaves the arena) and the state stays reachable.\<close>

theorem slab_free_total:
  assumes "slab_reachable h (m, live)" and "live s = Some n"
  shows "\<exists>m'. int_free_slab h s (of_nat n) m = Some m' \<and> slab_reachable h (m', live(s := None))"
proof -
  obtain m' where m': "int_free_slab h s (of_nat n) m = Some m'"
    by (rule give_back_good [OF slab_reachable_good [OF assms(1)] assms(2)])
  have "slab_reachable h (m', live(s := None))"
    by (rule step [OF assms(1)], rule slab_move.give_back, rule assms(2), rule m')
  then show ?thesis using m' by blast
qed

theorem slab_free_total_witness:
  "\<exists>m'. int_free_slab 4096 8192 (of_nat 2) heap1 = Some m' \<and> slab_reachable 4096 (m', ([8192 \<mapsto> 2] :: runs)(8192 := None))"
  by (rule slab_free_total [OF heap1_facts(2)]) simp

text \<open>C19: mm_init on an empty arena establishes the slab invariant with no region, makes every
  small and medium bin and the medium skiplist empty, and records the heap's address.\<close>

theorem mm_init_ready:
  assumes "Heap_ok m" "Heap_room 4096 m" "page_aligned h" "arena_start m = h" "arena_end m = h"
  shows "\<exists>m'. mm_init Heap_sbrk m = Some (True, m') \<and> heap_ptr m' = h \<and> slab_inv h [] m'
    \<and> arena_end m' = h + 4096 \<and> (\<forall>i<253. cells m' (h + of_nat (2048 + 8 * i)) = 0)"
proof -
  obtain m' where m': "mm_init Heap_sbrk m = Some (True, m')" "heap_ptr m' = h" "slab_inv h [] m'"
    "m' = m\<lparr>cells := cells m', arena_end := h + 4096, heap_ptr := h\<rparr>"
    "\<forall>i<253. cells m' (h + of_nat (2048 + 8 * i)) = 0"
    using hs.mm_init_ok [OF assms] by blast
  moreover have "arena_end m' = h + 4096" by (subst m'(4)) simp
  ultimately show ?thesis by blast
qed

theorem mm_init_ready_witness:
  "\<exists>m'. mm_init Heap_sbrk (Heap_new 4096 (2 ^ 20) (\<lambda>_. 0)) = Some (True, m') \<and> heap_ptr m' = 4096 \<and> slab_inv 4096 [] m'
    \<and> arena_end m' = 4096 + 4096 \<and> (\<forall>i<253. cells m' (4096 + of_nat (2048 + 8 * i)) = 0)"
  by (rule mm_init_ready [OF heap_new_ok])

text \<open>C15: The search for a free region returns for every size, finds a region exactly when some
  free region is large enough, and then has taken the first n slabs of one.\<close>

theorem slab_find_decides:
  assumes "slab_inv h rs m" and "1 \<le> n" and "n < 2 ^ 52"
  shows "\<exists>r m'. slab_find h (of_nat n) m = Some (r, m') \<and> (r = None \<longleftrightarrow> (\<forall>l\<ge>n. \<not> has_free rs l))
    \<and> (\<forall>s. r = Some s \<longrightarrow> (\<exists>k rs'. s = pg h k \<and> taken n rs rs' k \<and> slab_inv h rs' m'))"
  using slab_find_ok [OF assms]
proof (cases rule: search_resultE)
  case (1 m' k rs')
  then show ?thesis using taken_props(4) [OF 1(2) inv_basic(5) [OF assms(1)]] by (auto simp: slab_step_def)
next
  case (2 m')
  then show ?thesis by auto
qed

theorem slab_find_decides_witness:
  "\<exists>r m'. slab_find 4096 (of_nat 3) heap1 = Some (r, m') \<and> (r = None \<longleftrightarrow> (\<forall>l\<ge>3. \<not> has_free [Used 2] l))
    \<and> (\<forall>s. r = Some s \<longrightarrow> (\<exists>k rs'. s = pg 4096 k \<and> taken 3 [Used 2] rs' k \<and> slab_inv 4096 rs' m'))"
  by (rule slab_find_decides [OF heap1_facts(5)]) simp_all

text \<open>C16: An allocation reuses a free region without growing the arena whenever one fits;
  otherwise it grows the arena by exactly what the free region at its end lacks. All used
  regions keep their contents.\<close>

theorem int_alloc_slab_spec:
  assumes "slab_inv h rs m" and "Heap_ok m" and "1 \<le> n" and "n < 2 ^ 52"
    and "(\<forall>l\<ge>n. \<not> has_free rs l) \<longrightarrow> Heap_room (of_nat (n - last_free rs) * 4096) m"
  shows "\<exists>m' k rs'. int_alloc_slab Heap_sbrk h (of_nat n) m = Some (pg h k, m') \<and> slab_inv h rs' m'
    \<and> used_map 1 rs' = (used_map 1 rs)(k \<mapsto> n) \<and> fresh (used_map 1 rs) k n
    \<and> pages rs' = pages rs + (if \<exists>l\<ge>n. has_free rs l then 0 else n - last_free rs)
    \<and> kept h (used_map 1 rs) (cells m) (cells m')"
  using hs.int_alloc_slab_ok [OF assms(1,2,3,4)] assms(5) unfolding slab_grow_def by blast

theorem int_alloc_slab_spec_witness:
  "\<exists>m' k rs'. int_alloc_slab Heap_sbrk 4096 (of_nat 3) heap1 = Some (pg 4096 k, m') \<and> slab_inv 4096 rs' m'
    \<and> used_map 1 rs' = (used_map 1 [Used 2])(k \<mapsto> 3) \<and> fresh (used_map 1 [Used 2]) k 3
    \<and> pages rs' = pages [Used 2] + (if \<exists>l\<ge>3. has_free [Used 2] l then 0 else 3 - last_free [Used 2])
    \<and> kept 4096 (used_map 1 [Used 2]) (cells heap1) (cells m')"
  by (rule int_alloc_slab_spec [OF heap1_facts(5,3)]) (use heap1_room [of 3] in \<open>simp_all add: last_free_def\<close>)

text \<open>C18: When no free region fits and sbrk answers the request for the missing slabs with
  anything else than the end of the arena, __int_alloc_slab neither returns a run nor
  NULL: the search ends without a region, and the assertion that compares the answer with
  the end of the arena fails. This holds for every such sbrk, also for one that has grown
  the arena, so that no access after the assertion could fail; Heap::sbrk without room is
  an instance.\<close>

theorem int_alloc_slab_checks_end:
  assumes "slab_inv h rs m" and "1 \<le> n" and "n < 2 ^ 52"
    and "\<forall>l\<ge>n. \<not> has_free rs l" and "disagrees sbrk (of_nat (n - last_free rs) * 4096) m"
  shows "\<exists>m1. slab_find h (of_nat n) m = Some (None, m1) \<and> slab_inv h rs m1
    \<and> slab_extend sbrk h (of_nat n) m1 = None \<and> int_alloc_slab sbrk h (of_nat n) m = None"
  by (rule int_alloc_slab_assert [OF assms]) (simp add: int_alloc_slab_def)

text \<open>A source that leaves a gap of 16 bytes behind what it hands out, and one without room.\<close>

definition gap_sbrk :: sbrk_fn where
  "gap_sbrk k m = (arena_end m + 16, m\<lparr>arena_end := arena_end m + 16 + k\<rparr>)"

theorem int_alloc_slab_checks_end_witness:
  "(\<exists>m1. slab_find 4096 (of_nat 3) heap1 = Some (None, m1) \<and> slab_inv 4096 [Used 2] m1
      \<and> slab_extend gap_sbrk 4096 (of_nat 3) m1 = None \<and> int_alloc_slab gap_sbrk 4096 (of_nat 3) heap1 = None)
   \<and> int_alloc_slab Heap_sbrk 4096 (of_nat 300) heap0 = None"
proof
  have "disagrees gap_sbrk k m" for k m by (simp add: disagrees_def gap_sbrk_def)
  then show "\<exists>m1. slab_find 4096 (of_nat 3) heap1 = Some (None, m1) \<and> slab_inv 4096 [Used 2] m1
      \<and> slab_extend gap_sbrk 4096 (of_nat 3) m1 = None \<and> int_alloc_slab gap_sbrk 4096 (of_nat 3) heap1 = None"
    by (intro int_alloc_slab_checks_end [OF heap1_facts(5)]) (simp_all add: has_free_def)
  have "disagrees Heap_sbrk (of_nat (300 - last_free []) * 4096) heap0"
    by (rule hs.refuse_disagrees [OF heap0_facts(6)]) (simp add: last_free_def Heap_room_def heap0_facts)
  then have "\<exists>m1. slab_find 4096 (of_nat 300) heap0 = Some (None, m1) \<and> slab_inv 4096 [] m1
      \<and> slab_extend Heap_sbrk 4096 (of_nat 300) m1 = None \<and> int_alloc_slab Heap_sbrk 4096 (of_nat 300) heap0 = None"
    by (intro int_alloc_slab_checks_end [OF heap0_facts(2)]) (simp_all add: has_free_def)
  then show "int_alloc_slab Heap_sbrk 4096 (of_nat 300) heap0 = None" by blast
qed

text \<open>C17: Freeing a used region merges it with the free regions on both sides into one, in the
  bins and in the boundary tags, and keeps every other used region.\<close>

theorem int_free_slab_coalesces:
  assumes "slab_inv h (xs @ Used n # ys) m"
  shows "\<exists>m'. int_free_slab h (pg h (1 + pages xs)) (of_nat n) m = Some m'
    \<and> slab_inv h (give_back xs n ys) m' \<and> kept h (used_map 1 (give_back xs n ys)) (cells m) (cells m')"
proof -
  obtain m' where "int_free_slab h (pg h (1 + pages xs)) (of_nat n) m = Some m'"
    "slab_inv h (give_back xs n ys) m'" "quiet h (used_map 1 (give_back xs n ys)) m m'"
    by (rule int_free_slab_ok [OF assms refl])
  then show ?thesis by (auto simp: quiet_def)
qed

theorem int_free_slab_coalesces_witness:
  "\<exists>m'. int_free_slab 4096 (pg 4096 (1 + pages [])) (of_nat 2) heap1 = Some m'
    \<and> slab_inv 4096 (give_back [] 2 []) m' \<and> kept 4096 (used_map 1 (give_back [] 2 [])) (cells heap1) (cells m')"
  by (rule int_free_slab_coalesces) (use heap1_facts(5) in simp)

end
