(* ===== verification/Slab_Client.thy ===== *)
theory Slab_Client
  imports Slab_Machine
begin

unbundle bit_operations_syntax

section \<open>The memory that the slab layer leaves to its clients\<close>

text \<open>
  The layers above the slabs write into the used regions and into the part of the header
  that holds the small and medium bins. Such writes do not concern the slab layer, as long
  as they keep the two flag bits in the first cell of each region.
\<close>

definition client_cells :: "u64 \<Rightarrow> (nat \<rightharpoonup> nat) \<Rightarrow> u64 set" where
  "client_cells h U = {pg h j + d | k n j d. U k = Some n \<and> k \<le> j \<and> j < k + n \<and> d < 4096}
     \<union> {h + d | d. 2048 \<le> d \<and> d < 4072 \<and> d \<noteq> 4024 \<and> d \<noteq> 4032}"

definition client_change :: "u64 \<Rightarrow> (nat \<rightharpoonup> nat) \<Rightarrow> (u64 \<Rightarrow> u64) \<Rightarrow> (u64 \<Rightarrow> u64) \<Rightarrow> bool" where
  "client_change h U c c' \<longleftrightarrow> (\<forall>a. a \<notin> client_cells h U \<longrightarrow> c' a = c a)
     \<and> (\<forall>k\<in>dom U. bit (c' (pg h k)) 0 = bit (c (pg h k)) 0 \<and> bit (c' (pg h k)) 1 = bit (c (pg h k)) 1)"

lemma client_change_refl [simp]: "client_change h U c c"
  by (simp add: client_change_def)

lemma client_change_trans:
  "client_change h U c c1 \<Longrightarrow> client_change h U c1 c2 \<Longrightarrow> client_change h U c c2"
  by (simp add: client_change_def)

lemma client_page: "U k = Some n \<Longrightarrow> k \<le> j \<Longrightarrow> j < k + n \<Longrightarrow> d < 4096 \<Longrightarrow> pg h j + d \<in> client_cells h U"
  by (auto simp: client_cells_def)

lemma client_page0: "U k = Some n \<Longrightarrow> k \<le> j \<Longrightarrow> j < k + n \<Longrightarrow> pg h j \<in> client_cells h U"
  using client_page [of U k n j 0 h] by simp

lemma client_header: "2048 \<le> d \<Longrightarrow> d < 4072 \<Longrightarrow> d \<noteq> 4024 \<Longrightarrow> d \<noteq> 4032 \<Longrightarrow> h + d \<in> client_cells h U"
  by (auto simp: client_cells_def)

lemma used_free_pages:
  assumes "used_map k rs i = Some n" "free_map k rs j = Some l" "\<forall>r\<in>set rs. 0 < pages_of r"
  shows "i + n \<le> j \<or> j + l \<le> i"
  using assms
proof (induction k rs rule: free_map.induct)
  case (2 k q rs)
  have u: "used_map (k + q) rs i = Some n" using "2.prems"(1) by simp
  show ?case
  proof (cases "j = k")
    case True
    then show ?thesis using "2.prems"(2) used_map_bounds [OF u] by simp
  next
    case False
    then show ?thesis using "2.IH" [OF u] "2.prems"(2,3) by simp
  qed
next
  case (3 k q rs)
  have f: "free_map (k + q) rs j = Some l" using "3.prems"(2) by simp
  show ?case
  proof (cases "i = k")
    case True
    then show ?thesis using "3.prems"(1) free_map_bounds [OF f] by simp
  next
    case False
    then show ?thesis using "3.IH" [OF _ f] "3.prems"(1,3) by simp
  qed
qed simp

lemma lay_client:
  assumes "lay h c k p rs"
    and "\<And>j n. free_map k rs j = Some n \<Longrightarrow> c' (pg h j) = c (pg h j) \<and> c' (pg h j + 24) = c (pg h j + 24)
      \<and> c' (pg h (j + n - 1) + 4088) = c (pg h (j + n - 1) + 4088)"
    and "\<And>j. j \<in> dom (used_map k rs) \<Longrightarrow> bit (c' (pg h j)) 0 = bit (c (pg h j)) 0 \<and> bit (c' (pg h j)) 1 = bit (c (pg h j)) 1"
  shows "lay h c' k p rs"
  using assms
proof (induction h c k p rs rule: lay.induct)
  case (2 h c k p n rs)
  have n: "0 < n" and l: "lay h c (k + n) False rs" using "2.prems"(1) by simp_all
  have ne: "j \<noteq> k" if "free_map (k + n) rs j = Some l" for j l using free_map_bounds [OF that] n by auto
  have "lay h c' (k + n) False rs"
    by (rule "2.IH" [OF l]) (use "2.prems"(2,3) ne in \<open>simp_all\<close>)
  moreover have "c' (pg h k) = c (pg h k) \<and> c' (pg h k + 24) = c (pg h k + 24)
      \<and> c' (pg h (k + n - 1) + 4088) = c (pg h (k + n - 1) + 4088)"
    by (rule "2.prems"(2)) simp
  ultimately show ?case using "2.prems"(1) by simp
next
  case (3 h c k p n rs)
  have n: "0 < n" and l: "lay h c (k + n) True rs" using "3.prems"(1) by simp_all
  have "lay h c' (k + n) True rs"
  proof (rule "3.IH" [OF l])
    show "bit (c' (pg h j)) 0 = bit (c (pg h j)) 0 \<and> bit (c' (pg h j)) 1 = bit (c (pg h j)) 1"
      if "j \<in> dom (used_map (k + n) rs)" for j
      by (rule "3.prems"(3)) (use that in auto)
  qed (use "3.prems"(2) in simp)
  moreover have "bit (c' (pg h k)) 0 = bit (c (pg h k)) 0 \<and> bit (c' (pg h k)) 1 = bit (c (pg h k)) 1"
    by (rule "3.prems"(3)) auto
  ultimately show ?case using "3.prems"(1) by simp
qed simp

text \<open>A cell of a page outside the used regions, or of the rest of the header, is not a client's.\<close>

lemma not_client:
  assumes h: "page_aligned h" and U: "\<And>k n. U k = Some n \<Longrightarrow> 1 \<le> k \<and> k + n \<le> 2 ^ 52"
    and j: "j < 2 ^ 52" "1 \<le> j" "\<And>k n. U k = Some n \<Longrightarrow> j < k \<or> k + n \<le> j" and d: "d < 4096"
  shows "pg h j + d \<notin> client_cells h U"
proof
  assume "pg h j + d \<in> client_cells h U"
  then consider (page) k n i e where "pg h j + d = pg h i + e" "U k = Some n" "k \<le> i" "i < k + n" "e < 4096"
    | (header) e where "pg h j + d = h + e" "e < 4072" by (auto simp: client_cells_def)
  then show False
  proof cases
    case page
    have i: "i < 2 ^ 52" using U [OF page(2)] page(4) by simp
    have "j = i" using pg_offset_eq_iff [OF h j(1) i d page(5)] page(1) by simp
    then show False using j(3) [OF page(2)] page(3,4) by simp
  next
    case header
    have "e < 4096" using header(2) by (rule less_trans) simp
    then have "j = 0" using header(1) pg_offset_eq_iff [OF h j(1) _ d, of 0 e] by simp
    then show False using j(2) by simp
  qed
qed

lemma not_client_header:
  assumes h: "page_aligned h" and U: "\<And>k n. U k = Some n \<Longrightarrow> 1 \<le> k \<and> k + n \<le> 2 ^ 52"
    and d: "d < 4096" "d < 2048 \<or> 4072 \<le> d \<or> d = 4024 \<or> d = 4032"
  shows "h + d \<notin> client_cells h U"
proof
  assume "h + d \<in> client_cells h U"
  then consider (page) k n i e where "h + d = pg h i + e" "U k = Some n" "k \<le> i" "i < k + n" "e < 4096"
    | (header) e where "h + d = h + e" "2048 \<le> e" "e < 4072" "e \<noteq> 4024" "e \<noteq> 4032"
    by (auto simp: client_cells_def)
  then show False
  proof cases
    case page
    have i: "i < 2 ^ 52" using U [OF page(2)] page(4) by simp
    have "i = 0" using pg_eq_iffs(4) [OF h i i d(1) page(5)] page(1) by simp
    then show False using U [OF page(2)] page(3) by simp
  next
    case header
    then show False using d(2) by auto
  qed
qed

lemma used_map_range:
  assumes "slab_inv h rs m" "used_map 1 rs k = Some n"
  shows "1 \<le> k \<and> k + n \<le> 2 ^ 52 \<and> k + n \<le> 1 + pages rs \<and> 0 < n"
  using used_map_bounds [OF assms(2)] inv_basic(3) [OF assms(1)] used_map_pos [OF inv_basic(5) [OF assms(1)] assms(2)] by simp

lemma slab_inv_client:
  assumes inv: "slab_inv h rs m" and ch: "client_change h (used_map 1 rs) (cells m) c'"
  shows "slab_inv h rs (m\<lparr>cells := c'\<rparr>)"
proof -
  note f = inv_basic [OF inv]
  have U: "1 \<le> k \<and> k + n \<le> 2 ^ 52" if "used_map 1 rs k = Some n" for k n
    using used_map_range [OF inv that] by simp
  have out: "c' a = cells m a" if "a \<notin> client_cells h (used_map 1 rs)" for a
    using ch that by (simp add: client_change_def)
  have free: "c' (pg h (j + i) + d) = cells m (pg h (j + i) + d)"
    if F: "free_map 1 rs j = Some n" and i: "i < n" and d: "d < 4096" for j n i d
  proof (rule out, rule not_client [OF f(1) U _ _ _ d])
    show "j + i < 2 ^ 52" "1 \<le> j + i" using free_map_bounds [OF F] f(3) i by simp_all
    show "j + i < k \<or> k + l \<le> j + i" if "used_map 1 rs k = Some l" for k l
      using used_free_pages [OF that F f(5)] i by auto
  qed
  have pos: "0 < n" if "free_map 1 rs j = Some n" for j n
    using lay_sizes [OF f(4) that] by simp
  have "lay h c' 1 True rs"
  proof (rule lay_client [OF f(4)])
    fix j n assume F: "free_map 1 rs j = Some n"
    have n: "0 < n" by (rule pos [OF F])
    show "c' (pg h j) = cells m (pg h j) \<and> c' (pg h j + 24) = cells m (pg h j + 24)
        \<and> c' (pg h (j + n - 1) + 4088) = cells m (pg h (j + n - 1) + 4088)"
      using free [OF F n, of 0] free [OF F n, of 24] free [OF F, of "n - 1" 4088] n by simp
  qed (use ch in \<open>simp add: client_change_def\<close>)
  moreover have "c' (h + 4072) = cells m (h + 4072)" "c' (h + 4080) = cells m (h + 4080)"
    using out [OF not_client_header [OF f(1) U, where d = 4072]] out [OF not_client_header [OF f(1) U, where d = 4080]] by simp_all
  moreover have "\<exists>bins. bins_ok h c' bins (free_map 1 rs)"
  proof -
    obtain bins where b: "bins_ok h (cells m) bins (free_map 1 rs)" using inv by (auto simp: slab_inv_def)
    have "bins_ok h c' bins (free_map 1 rs)"
    proof (rule bins_ok_frame [OF b])
      fix a assume "a \<in> link_cells h (dom (free_map 1 rs)) \<union> skip_cells h"
      then consider (node) k where "k \<in> dom (free_map 1 rs)" "a = pg h k + 8 \<or> a = pg h k + 16"
        | (root) i where "i < 128" "a = h + of_nat i * 16 \<or> a = h + (of_nat i * 16 + 8)"
        | (skip) "a = h + 4024 \<or> a = h + 4032"
        by (auto simp: link_cells_def nodes_def skip_cells_def bin_root_fields layout_simps)
      then show "c' a = cells m a"
      proof cases
        case node
        then obtain n where F: "free_map 1 rs k = Some n" by auto
        show ?thesis using free [OF F pos [OF F], of 8] free [OF F pos [OF F], of 16] node(2) by auto
      next
        case root
        have b: "of_nat i * 16 < (2048 :: u64)" "of_nat i * 16 + 8 < (2048 :: u64)"
          by (rule small_bin_offsets [OF root(1)])+
        have "d < 2048 \<Longrightarrow> d < (4096 :: u64)" for d by (erule less_trans) simp
        then have "c' (h + d) = cells m (h + d)" if "d < 2048" for d
          using out not_client_header [OF f(1) U, where d = d] that by blast
        then show ?thesis using root(2) b by blast
      next
        case skip
        then show ?thesis
          using out [OF not_client_header [OF f(1) U, where d = 4024]] out [OF not_client_header [OF f(1) U, where d = 4032]] by auto
      qed
    qed
    then show ?thesis by blast
  qed
  ultimately show ?thesis using inv by (simp add: slab_inv_def end_ok_def)
qed

end
