(* ===== verification/Malloc.thy ===== *)
theory Malloc
  imports Packed Medium
begin

unbundle bit_operations_syntax

section \<open>\<^verbatim>\<open>malloc\<close>, \<^verbatim>\<open>free\<close> and \<^verbatim>\<open>calloc\<close>\<close>

text \<open>
  The entry points. The global \<^verbatim>\<open>heap\<close> is the field \<open>heap_ptr\<close> of the state; the
  result pointer 0 is NULL. The debug checks and prints of the C code are compiled out in
  its default configuration and are not modelled here.
\<close>

definition int_malloc :: "sbrk_fn \<Rightarrow> u64 \<Rightarrow> u64 \<Rightarrow> memory \<Rightarrow> (u64 \<times> memory) option" where
  "int_malloc sbrk h sz m = do {
     (ptr, sz, m) \<leftarrow>
       (if is_tiny_block_size sz then do {
          let sz = (ucast (adj_tiny_size (ucast sz)) :: u64);
          (ptr, m) \<leftarrow> int_find_tiny_block h sz m;
          Some (ptr, sz, m)
        } else if is_medium_block_size sz then do {
          (ptr, m) \<leftarrow> int_find_medium_block h sz m;
          Some (ptr, sz, m)
        } else Some (0, sz, m));
     if ptr \<noteq> 0 then Some (ptr, m)
     else do {
       let n_slabs = req_slabs_for_size sz;
       (s, m) \<leftarrow> int_alloc_slab sbrk h n_slabs m;
       if s = 0 then Some (0, m)
       else if is_tiny_block_size sz then int_slab_init_packed_and_alloc h s sz m
       else int_slab_init_large_and_alloc h s n_slabs sz m
     }
   }"

definition mm_malloc :: "sbrk_fn \<Rightarrow> u64 \<Rightarrow> memory \<Rightarrow> (u64 \<times> memory) option" where
  "mm_malloc sbrk sz m = do {
     let h = heap_ptr m;
     _ \<leftarrow> malloc_assert (h \<noteq> 0);
     let esize = ALIGN_UP sz MALLOC_ALIGN;
     if esize = 0 then Some (0, m) else int_malloc sbrk h esize m
   }"

definition int_free :: "u64 \<Rightarrow> u64 \<Rightarrow> memory \<Rightarrow> memory option" where
  "int_free h ptr m = do {
     let s = ptr_get_slab ptr;
     alloc \<leftarrow> slab_is_alloc s m;
     _ \<leftarrow> malloc_assert alloc;
     packed \<leftarrow> slab_is_packed s m;
     if packed then int_tiny_block_free h s ptr m else int_large_block_free h s ptr m
   }"

definition mm_free :: "u64 \<Rightarrow> memory \<Rightarrow> memory option" where
  "mm_free ptr m = do {
     let h = heap_ptr m;
     if ptr = 0 then Some m
     else do {
       _ \<leftarrow> malloc_assert (h \<noteq> 0);
       int_free h ptr m
     }
   }"

definition mm_calloc :: "sbrk_fn \<Rightarrow> u64 \<Rightarrow> u64 \<Rightarrow> memory \<Rightarrow> (u64 \<times> memory) option" where
  "mm_calloc sbrk nmemb sz m = do {
     let h = heap_ptr m;
     _ \<leftarrow> malloc_assert (h \<noteq> 0);
     let sz = nmemb * sz;
     let esize = ALIGN_UP sz MALLOC_ALIGN;
     if esize = 0 then Some (0, m)
     else do {
       (ptr, m) \<leftarrow> int_malloc sbrk h esize m;
       m \<leftarrow> mem_set ptr 0 (unat sz) m;
       Some (ptr, m)
     }
   }"

end
