(* ===== verification/Small_Bins.thy ===== *)
theory Small_Bins
  imports Slab_Client Malloc
begin

unbundle bit_operations_syntax

section \<open>The small bins\<close>

text \<open>
  The 23 NULL-terminated bins of packed slabs that have a free block. \<open>B\<close> maps the page
  of every such slab to its bin, \<open>bins i\<close> is the \<open>i\<close>th list from its head on.
\<close>

abbreviation small_nx :: "u64 \<Rightarrow> u64" where "small_nx s \<equiv> s + slab_next_p"
abbreviation small_pv :: "u64 \<Rightarrow> u64" where "small_pv s \<equiv> s + slab_prev_p"

interpretation small_links: link_fields small_nx small_pv
  by unfold_locales simp_all

definition small_root :: "u64 \<Rightarrow> nat \<Rightarrow> u64" where
  "small_root h i = small_bin_start (small_bin h (of_nat i))"

definition small_ok :: "u64 \<Rightarrow> (u64 \<Rightarrow> u64) \<Rightarrow> (nat \<Rightarrow> nat list) \<Rightarrow> (nat \<rightharpoonup> nat) \<Rightarrow> bool" where
  "small_ok h c bins B \<longleftrightarrow> ran B \<subseteq> {..<23} \<and> (\<forall>i<23. chain small_nx small_pv c (small_root h i) (map (pg h) (bins i))
     \<and> distinct (bins i) \<and> set (bins i) = {k. B k = Some i})"

definition small_cells :: "u64 \<Rightarrow> nat set \<Rightarrow> u64 set" where
  "small_cells h D = (\<lambda>i. h + (2048 + of_nat i * 8)) ` {..<23} \<union> (\<lambda>k. pg h k + 8) ` D \<union> (\<lambda>k. pg h k + 16) ` D"

lemma small_root_nx: "i < 23 \<Longrightarrow> small_nx (small_root h i) = h + (2048 + of_nat i * 8)"
proof -
  assume "i < 23"
  then have "(ucast (of_nat i :: u8) :: u64) = of_nat i"
    by (intro unsigned_word_eqI) (simp add: unsigned_ucast_eq unsigned_of_nat take_bit_nat_eq_self)
  then show ?thesis
    by (simp add: small_root_def small_bin_start_def small_bin_def layout_simps algebra_simps)
qed

lemma small_offsets:
  assumes "i < 23"
  shows "unat (2048 + of_nat i * 8 :: u64) = 2048 + 8 * i" "2048 + of_nat i * 8 < (4096 :: u64)"
    "(2048 + of_nat i * 8 :: u64) AND 7 = 0" "2048 \<le> (2048 + of_nat i * 8 :: u64)"
    "2048 + of_nat i * 8 < (2232 :: u64)"
proof -
  show u: "unat (2048 + of_nat i * 8 :: u64) = 2048 + 8 * i" using assms by (simp add: unat_word_ariths unat_of_nat)
  show "2048 + of_nat i * 8 < (4096 :: u64)" "2048 \<le> (2048 + of_nat i * 8 :: u64)" "2048 + of_nat i * 8 < (2232 :: u64)"
    using assms by (simp_all add: word_less_nat_alt word_le_nat_alt u)
  have a: "w AND 7 = 0 \<longleftrightarrow> unat w mod 8 = 0" for w :: u64
  proof -
    have "w AND 7 = take_bit 3 w" by (simp add: take_bit_eq_mask mask_eq_exp_minus_1)
    then have "unat (w AND 7) = unat w mod 8" by (simp only: unsigned_take_bit_eq) (simp add: take_bit_eq_mod)
    then show ?thesis by (metis unat_0 unat_eq_zero)
  qed
  show "(2048 + of_nat i * 8 :: u64) AND 7 = 0" unfolding a u by presburger
qed

text \<open>Root cells and page cells are all different.\<close>

lemma small_sep:
  assumes h: "page_aligned h" and k: "k < 2 ^ 52" "1 \<le> k" and i: "i < 23" and d: "d < 4096"
  shows "pg h k + d \<noteq> h + (2048 + of_nat i * 8)"
  using pg_eq_iffs(5) [OF h k(1) k(1) small_offsets(2) [OF i] d] k(2) by simp

lemma small_root_eq: "i < 23 \<Longrightarrow> j < 23 \<Longrightarrow> h + (2048 + of_nat i * 8) = h + (2048 + of_nat j * 8 :: u64) \<longleftrightarrow> i = j"
  using small_offsets(1) [of i] small_offsets(1) [of j] by (metis add_left_cancel add_left_imp_eq mult_cancel1 zero_neq_numeral)

lemma small_ok_frame:
  assumes ok: "small_ok h c bins B" and fr: "\<And>a. a \<in> small_cells h (dom B) \<Longrightarrow> c' a = c a"
  shows "small_ok h c' bins B"
proof -
  have "chain small_nx small_pv c' (small_root h i) (map (pg h) (bins i))" if i: "i < 23" for i
  proof (rule chain_frame)
    show "chain small_nx small_pv c (small_root h i) (map (pg h) (bins i))" using ok i by (simp add: small_ok_def)
    have l: "set (bins i) \<subseteq> dom B" using ok i by (auto simp: small_ok_def)
    fix u assume "u \<in> set (small_root h i # map (pg h) (bins i))"
    then consider "u = small_root h i" | k where "k \<in> dom B" "u = pg h k" using l by fastforce
    then show "c' (small_nx u) = c (small_nx u)"
    proof cases
      case 1
      then show ?thesis using fr i small_root_nx [OF i] by (auto simp: small_cells_def)
    next
      case 2
      then show ?thesis using fr by (auto simp: small_cells_def layout_simps)
    qed
  next
    fix v assume "v \<in> set (map (pg h) (bins i))"
    then obtain k where "k \<in> dom B" "v = pg h k" using ok i by (auto simp: small_ok_def)
    then show "c' (small_pv v) = c (small_pv v)" using fr by (auto simp: small_cells_def layout_simps)
  qed
  then show ?thesis using ok by (simp add: small_ok_def)
qed

text \<open>Changing one list.\<close>

lemma small_ok_update:
  assumes ok: "small_ok h c bins B" and h: "page_aligned h" and D: "dom B \<subseteq> {1..<2 ^ 52}" and b: "b < 23"
    and new: "chain small_nx small_pv c' (small_root h b) (map (pg h) xs)" "distinct xs"
    and B': "set xs = {k. B' k = Some b}" "\<And>k j. j \<noteq> b \<Longrightarrow> B' k = Some j \<longleftrightarrow> B k = Some j"
    and K: "\<And>k j. k \<in> K \<Longrightarrow> B k = Some j \<Longrightarrow> j = b" "K \<subseteq> {1..<2 ^ 52}"
    and out: "\<And>a. a \<noteq> h + (2048 + of_nat b * 8) \<Longrightarrow> a \<notin> (\<lambda>k. pg h k + 8) ` K \<union> (\<lambda>k. pg h k + 16) ` K \<Longrightarrow> c' a = c a"
  shows "small_ok h c' (bins(b := xs)) B'"
proof -
  have "chain small_nx small_pv c' (small_root h i) (map (pg h) (bins i))" if i: "i < 23" "i \<noteq> b" for i
  proof (rule chain_frame)
    show "chain small_nx small_pv c (small_root h i) (map (pg h) (bins i))" using ok i by (simp add: small_ok_def)
    have root: "c' (small_nx (small_root h i)) = c (small_nx (small_root h i))"
    proof (unfold small_root_nx [OF i(1)], rule out)
      show "h + (2048 + of_nat i * 8) \<noteq> h + (2048 + of_nat b * 8)" using small_root_eq [OF i(1) b] i(2) by simp
      have "h + (2048 + of_nat i * 8) \<noteq> pg h k + 8 \<and> h + (2048 + of_nat i * 8) \<noteq> pg h k + 16" if "k \<in> K" for k
      proof -
        have k: "k < 2 ^ 52" "1 \<le> k" using that K(2) by auto
        have "pg h k + 8 \<noteq> h + (2048 + of_nat i * 8)" by (rule small_sep [OF h k i(1)]) simp
        moreover have "pg h k + 16 \<noteq> h + (2048 + of_nat i * 8)" by (rule small_sep [OF h k i(1)]) simp
        ultimately show ?thesis by (simp only: eq_commute [of "h + _"]) simp
      qed
      then show "h + (2048 + of_nat i * 8) \<notin> (\<lambda>k. pg h k + 8) ` K \<union> (\<lambda>k. pg h k + 16) ` K" by blast
    qed
    have page: "c' (pg h k + d) = c (pg h k + d)" if k: "k \<in> set (bins i)" and d: "d < 4096" for k d
    proof -
      have Bk: "B k = Some i" using ok i k by (auto simp: small_ok_def)
      then have kK: "k \<notin> K" "k < 2 ^ 52" "1 \<le> k" using K(1) i(2) D by auto
      show ?thesis
      proof (rule out)
        show "pg h k + d \<noteq> h + (2048 + of_nat b * 8)" by (rule small_sep [OF h kK(2,3) b d])
        have "pg h k + d \<noteq> pg h j + 8 \<and> pg h k + d \<noteq> pg h j + 16" if "j \<in> K" for j
        proof -
          have "j < 2 ^ 52" "j \<noteq> k" using that K(2) kK(1) by auto
          then show ?thesis using pg_offset_eq_iff [OF h kK(2) _ d, of j] by simp
        qed
        then show "pg h k + d \<notin> (\<lambda>k. pg h k + 8) ` K \<union> (\<lambda>k. pg h k + 16) ` K" by auto
      qed
    qed
    show "c' (small_nx u) = c (small_nx u)" if "u \<in> set (small_root h i # map (pg h) (bins i))" for u
      using that root page [of _ 8] by (auto simp: layout_simps)
    show "c' (small_pv v) = c (small_pv v)" if "v \<in> set (map (pg h) (bins i))" for v
      using that page [of _ 16] by (auto simp: layout_simps)
  qed
  moreover have "ran B' \<subseteq> {..<23}"
  proof
    fix i assume "i \<in> ran B'"
    then obtain k where "B' k = Some i" by (auto simp: ran_def)
    then show "i \<in> {..<23}" using B'(2) [of i k] ok b by (cases "i = b") (auto simp: small_ok_def ran_def)
  qed
  ultimately show ?thesis using ok new B' by (auto simp: small_ok_def)
qed


subsection \<open>Linking and unlinking a slab\<close>

lemma small_members:
  assumes ok: "small_ok h c bins B" and k: "B k = Some b"
  obtains xs ys where "b < 23" "bins b = xs @ k # ys" "k \<notin> set (xs @ ys)"
    and "chain small_nx small_pv c (small_root h b) (map (pg h) xs @ pg h k # map (pg h) ys)"
proof -
  have b: "b < 23" using ok k by (auto simp: small_ok_def ran_def)
  then have "k \<in> set (bins b)" "distinct (bins b)" using ok k by (auto simp: small_ok_def)
  then obtain xs ys where x: "bins b = xs @ k # ys" by (meson split_list)
  then have "k \<notin> set (xs @ ys)" using \<open>distinct (bins b)\<close> by simp
  moreover have "chain small_nx small_pv c (small_root h b) (map (pg h) xs @ pg h k # map (pg h) ys)"
  proof -
    have "chain small_nx small_pv c (small_root h b) (map (pg h) (bins b))" using ok b by (simp add: small_ok_def)
    then show ?thesis by (simp only: x map_append list.map)
  qed
  ultimately show thesis using that b x by blast
qed

lemma root_not_page:
  assumes "page_aligned h" "i < 23" "k < 2 ^ 52" "1 \<le> k"
  shows "small_root h i \<noteq> pg h k"
proof
  assume "small_root h i = pg h k"
  then have "small_nx (small_root h i) = pg h k + 8" by (simp add: layout_simps)
  then have "pg h k + 8 = h + (2048 + of_nat i * 8)" by (simp only: small_root_nx [OF assms(2)])
  moreover have "pg h k + 8 \<noteq> h + (2048 + of_nat i * 8)" by (rule small_sep [OF assms(1,3,4,2)]) simp
  ultimately show False by blast
qed

text \<open>The cells that a relinking of bin \<open>b\<close> may change.\<close>

definition small_bin_cells :: "u64 \<Rightarrow> nat \<Rightarrow> nat set \<Rightarrow> u64 set" where
  "small_bin_cells h b K = {h + (2048 + of_nat b * 8)} \<union> (\<lambda>k. pg h k + 8) ` K \<union> (\<lambda>k. pg h k + 16) ` K"

lemma small_bin_unlink_ok:
  assumes sh: "shape h N m" and ok: "small_ok h (cells m) bins B" and D: "dom B \<subseteq> {1..<N}" and k: "B k = Some b"
  obtains c' bins' where "small_bin_unlink (pg h k) m = Some (m\<lparr>cells := c'\<rparr>)"
    and "small_ok h c' bins' (B(k := None))"
    and "\<And>a. a \<notin> small_bin_cells h b {j. B j = Some b} \<Longrightarrow> c' a = cells m a"
proof -
  let ?c = "cells m" and ?r = "small_root h b" and ?K = "{j. B j = Some b}"
  have h: "page_aligned h" by (rule shape_aligned [OF sh])
  have D': "dom B \<subseteq> {1..<2 ^ 52}" using D shape_bound [OF sh] by fastforce
  obtain xs ys where b: "b < 23" and x: "bins b = xs @ k # ys" "k \<notin> set (xs @ ys)"
    and ch: "chain small_nx small_pv ?c ?r (map (pg h) xs @ pg h k # map (pg h) ys)"
    by (rule small_members [OF ok k])
  define p where "p = last (?r # map (pg h) xs)"
  define n where "n = (case map (pg h) ys of [] \<Rightarrow> 0 | y # _ \<Rightarrow> y)"
  have K: "?K = set (xs @ k # ys)"
  proof -
    have "set (bins b) = ?K" using ok b by (simp add: small_ok_def)
    then show ?thesis by (simp only: x(1))
  qed
  have K1: "?K \<subseteq> {1..<N}" using D by auto
  have dx: "distinct (xs @ k # ys)" using ok b x(1) by (metis small_ok_def)
  have inj: "pg h i = pg h j \<longleftrightarrow> i = j" if "i \<in> ?K" "j \<in> ?K" for i j
    using that D' by (intro pg_inj) auto
  have rne: "?r \<noteq> pg h i" if "i \<in> ?K" for i
    using that D' by (intro root_not_page [OF h b]) auto
  have dist: "distinct (?r # map (pg h) xs @ pg h k # map (pg h) ys)"
  proof -
    have "inj_on (pg h) (set (xs @ k # ys))" unfolding K [symmetric] by (intro inj_onI) (use inj in blast)
    then have "distinct (map (pg h) (xs @ k # ys))" using dx by (simp only: distinct_map simp_thms)
    moreover have "?r \<notin> pg h ` set (xs @ k # ys)" using rne unfolding K by blast
    moreover have "map (pg h) xs @ pg h k # map (pg h) ys = map (pg h) (xs @ k # ys)" by simp
    ultimately show ?thesis by (simp only: distinct.simps set_map simp_thms)
  qed
  have sg: "seg small_nx small_pv ?c ?r (map (pg h) xs) (pg h k)" and cy: "chain small_nx small_pv ?c (pg h k) (map (pg h) ys)"
    using ch unfolding chain_append by blast+
  have nx: "?c (small_nx (pg h k)) = n" using chain_head [OF cy] by (simp only: n_def)
  have pv: "?c (small_pv (pg h k)) = p" using seg_last_prev [OF sg] by (simp only: p_def)
  define c' where "c' = (if n \<noteq> 0 then ?c(small_nx p := n, small_pv n := p) else ?c(small_nx p := n))"
  have pK: "p = ?r \<or> p \<in> pg h ` ?K"
  proof -
    have "p \<in> set (?r # map (pg h) xs)" unfolding p_def by (rule last_in_set) simp
    then show ?thesis unfolding K by auto
  qed
  have nK: "n = 0 \<or> n \<in> pg h ` ?K" unfolding K n_def by (cases ys) auto
  have z: "pg h i \<noteq> 0" if "i \<in> ?K" for i
  proof -
    have "pg h i \<in> set (map (pg h) xs @ pg h k # map (pg h) ys)" using that unfolding K by auto
    then show ?thesis using chain_nonnull [OF ch] by metis
  qed
  have nys: "ys \<noteq> [] \<Longrightarrow> n \<noteq> 0" unfolding n_def using z unfolding K by (cases ys) auto
  have addr: "small_nx p \<in> small_bin_cells h b ?K" "n \<noteq> 0 \<Longrightarrow> small_pv n \<in> small_bin_cells h b ?K"
    using pK nK small_root_nx [OF b, of h] by (auto simp: small_bin_cells_def layout_simps)
  have out: "c' a = ?c a" if "a \<notin> small_bin_cells h b ?K" for a
    using that addr by (auto simp: c'_def)
  have nxpv: "small_nx u \<noteq> small_pv v" if uK: "u = ?r \<or> u \<in> pg h ` ?K" and vK: "v \<in> pg h ` ?K" for u v
  proof -
    obtain j where j: "j \<in> ?K" "v = pg h j" using vK by auto
    have jb: "j < 2 ^ 52" "1 \<le> j" using j(1) D' by auto
    from uK show ?thesis
    proof
      assume u: "u = ?r"
      have "pg h j + 16 \<noteq> h + (2048 + of_nat b * 8)" by (rule small_sep [OF h jb b]) simp
      then show ?thesis unfolding u small_root_nx [OF b] using j(2) by (simp add: layout_simps eq_commute)
    next
      assume "u \<in> pg h ` ?K"
      then obtain i where "i \<in> ?K" "u = pg h i" by auto
      then have "i < 2 ^ 52" "u = pg h i" using D' by auto
      then show ?thesis using pg_offset_eq_iff [OF h _ jb(1), of i 8 16] j(2) by (simp add: layout_simps)
    qed
  qed
  have ys': "map (pg h) ys \<noteq> [] \<longleftrightarrow> ys \<noteq> []" by simp
  have "chain small_nx small_pv c' ?r (map (pg h) xs @ map (pg h) ys)"
  proof (rule small_links.chain_remove [OF ch p_def n_def dist])
    show "c' (small_nx p) = n"
      using nxpv [of p n] pK nK by (auto simp: c'_def)
    show "c' (small_pv n) = p" if "map (pg h) ys \<noteq> []"
      using nys that by (simp add: c'_def)
    show "c' (small_nx u) = ?c (small_nx u)" if "u \<in> set (?r # map (pg h) xs @ map (pg h) ys)" "u \<noteq> p" for u
    proof -
      have "u = ?r \<or> u \<in> pg h ` ?K" using that(1) unfolding K by auto
      then show ?thesis using that(2) nxpv [of u n] nK by (auto simp: c'_def)
    qed
    show "c' (small_pv v) = ?c (small_pv v)" if "v \<in> set (map (pg h) xs @ map (pg h) ys)" "v \<noteq> n" for v
    proof -
      have "v \<in> pg h ` ?K" using that(1) unfolding K by auto
      then show ?thesis using that(2) nxpv [of p v, THEN not_sym] pK by (auto simp: c'_def)
    qed
  qed
  then have new: "chain small_nx small_pv c' ?r (map (pg h) (xs @ ys))" by simp
  have "small_ok h c' (bins(b := xs @ ys)) (B(k := None))"
  proof (rule small_ok_update [OF ok h D' b new])
    show "distinct (xs @ ys)" using dx by simp
    show "set (xs @ ys) = {ka. (B(k := None)) ka = Some b}" using K x(2) by auto
    show "(B(k := None)) i = Some j \<longleftrightarrow> B i = Some j" if "j \<noteq> b" for i j using that k by auto
    show "j = b" if "i \<in> ?K" "B i = Some j" for i j using that by simp
    show "?K \<subseteq> {1..<2 ^ 52}" using D' by auto
    show "c' a = ?c a" if "a \<noteq> h + (2048 + of_nat b * 8)" "a \<notin> (\<lambda>k. pg h k + 8) ` ?K \<union> (\<lambda>k. pg h k + 16) ` ?K" for a
      by (rule out) (use that in \<open>simp add: small_bin_cells_def\<close>)
  qed
  moreover have "small_bin_unlink (pg h k) m = Some (m\<lparr>cells := c'\<rparr>)"
  proof -
    have vk: "valid_cell m (pg h i + 8)" "valid_cell m (pg h i + 16)" if "i \<in> ?K" for i
      using shape_valid [OF sh, of i 8] shape_valid [OF sh, of i 16] that K1 by auto
    have vr: "valid_cell m (h + (2048 + of_nat b * 8))"
      by (rule shape_valid_header [OF sh small_offsets(2,3) [OF b]])
    have "valid_cell m (small_nx ?r)" using vr by (simp only: small_root_nx [OF b])
    then have "valid_cell m (small_nx p)" using pK vk(1) by (auto simp: slab_next_p_def)
    moreover have "n \<noteq> 0 \<Longrightarrow> valid_cell m (small_pv n)" using nK vk(2) by (auto simp: layout_simps)
    moreover have "k \<in> ?K" using k by simp
    ultimately show ?thesis
      using vk nx pv by (simp add: small_bin_unlink_def load64_valid store64_valid c'_def layout_simps)
  qed
  ultimately show thesis using that out by blast
qed


lemma small_bin_link_ok:
  assumes sh: "shape h N m" and ok: "small_ok h (cells m) bins B" and D: "dom B \<subseteq> {1..<N}"
    and k: "B k = None" "1 \<le> k" "k < N" and b: "packed_bin_idx sz = of_nat b" "b < 23"
  obtains c' bins' where "small_bin_link h (pg h k) sz m = Some (m\<lparr>cells := c'\<rparr>)"
    and "small_ok h c' bins' (B(k \<mapsto> b))"
    and "\<And>a. a \<notin> small_bin_cells h b (insert k {j. B j = Some b}) \<Longrightarrow> c' a = cells m a"
proof -
  let ?c = "cells m" and ?r = "small_root h b" and ?K = "{j. B j = Some b}" and ?s = "pg h k"
  let ?L = "insert k ?K"
  have h: "page_aligned h" by (rule shape_aligned [OF sh])
  have L: "?L \<subseteq> {1..<N}" "?L \<subseteq> {1..<2 ^ 52}" using D k shape_bound [OF sh] by fastforce+
  have D': "dom B \<subseteq> {1..<2 ^ 52}" using D shape_bound [OF sh] by fastforce
  have x: "chain small_nx small_pv ?c ?r (map (pg h) (bins b))" "distinct (bins b)" and K: "set (bins b) = ?K"
    using ok b(2) by (simp_all add: small_ok_def)
  define n where "n = (case map (pg h) (bins b) of [] \<Rightarrow> 0 | y # _ \<Rightarrow> y)"
  have nx: "?c (small_nx ?r) = n" using chain_head [OF x(1)] by (simp only: n_def)
  have inj: "pg h i = pg h j \<longleftrightarrow> i = j" if "i \<in> ?L" "j \<in> ?L" for i j
    using that L(2) by (intro pg_inj) auto
  have rne: "?r \<noteq> pg h i" if "i \<in> ?L" for i
    using that L(2) by (intro root_not_page [OF h b(2)]) auto
  have nK: "n = 0 \<or> n \<in> pg h ` ?K" unfolding K [symmetric] n_def by (cases "bins b") auto
  have z: "?s \<noteq> 0"
  proof -
    have "unat (pg h k) = unat h + 4096 * k" using sh k(3) by (intro unat_pg) (simp add: shape_def)
    then show ?thesis using k(2) by auto
  qed
  define c1 where "c1 = ?c(small_pv ?s := ?r, small_nx ?s := n, small_nx ?r := ?s)"
  define c' where "c' = (if n \<noteq> 0 then c1(small_pv n := ?s) else c1)"
  have addr: "small_pv ?s \<in> small_bin_cells h b ?L" "small_nx ?s \<in> small_bin_cells h b ?L"
    "small_nx ?r \<in> small_bin_cells h b ?L" "n \<noteq> 0 \<Longrightarrow> small_pv n \<in> small_bin_cells h b ?L"
    using nK small_root_nx [OF b(2), of h] by (auto simp: small_bin_cells_def layout_simps)
  have out: "c' a = ?c a" if a: "a \<notin> small_bin_cells h b ?L" for a
  proof -
    have "a \<noteq> small_pv ?s" "a \<noteq> small_nx ?s" "a \<noteq> small_nx ?r" "n \<noteq> 0 \<Longrightarrow> a \<noteq> small_pv n"
      using a addr by blast+
    then show ?thesis by (simp add: c'_def c1_def)
  qed
  have nxpv: "small_nx u \<noteq> small_pv v" if uK: "u = ?r \<or> u \<in> pg h ` ?L" and vK: "v \<in> pg h ` ?L" for u v
  proof -
    obtain j where j: "j \<in> ?L" "v = pg h j" using vK by auto
    have jb: "j < 2 ^ 52" "1 \<le> j" using j(1) L(2) by auto
    from uK show ?thesis
    proof
      assume u: "u = ?r"
      have "pg h j + 16 \<noteq> h + (2048 + of_nat b * 8)" by (rule small_sep [OF h jb b(2)]) simp
      then show ?thesis unfolding u small_root_nx [OF b(2)] using j(2) by (simp add: layout_simps eq_commute)
    next
      assume "u \<in> pg h ` ?L"
      then obtain i where "i \<in> ?L" "u = pg h i" by auto
      then have "i < 2 ^ 52" "u = pg h i" using L(2) by auto
      then show ?thesis using pg_offset_eq_iff [OF h _ jb(1), of i 8 16] j(2) by (simp add: layout_simps)
    qed
  qed
  have rs: "?r \<noteq> ?s" and kK: "k \<notin> ?K" using rne k(1) by auto
  have sK: "?s \<notin> pg h ` ?K" using inj kK by auto
  have sn: "?s \<noteq> n" using nK sK z by auto
  have rK: "?r \<notin> pg h ` ?K" using rne by auto
  have sL: "?s \<in> pg h ` ?L" and nL: "n \<noteq> 0 \<Longrightarrow> n \<in> pg h ` ?L" using nK by auto
  have sep1: "small_nx ?s \<noteq> small_pv ?s" "small_nx ?r \<noteq> small_pv ?s"
    by (rule nxpv [OF disjI2 [OF sL] sL], rule nxpv [OF disjI1 [OF refl] sL])
  have sep2: "small_nx ?s \<noteq> small_pv n" "small_nx ?r \<noteq> small_pv n" if "n \<noteq> 0"
    by (rule nxpv [OF disjI2 [OF sL] nL [OF that]], rule nxpv [OF disjI1 [OF refl] nL [OF that]])
  have "chain small_nx small_pv c' ?r (?s # map (pg h) (bins b))"
  proof (rule small_links.chain_push [OF x(1) n_def])
    show "?s \<notin> set (?r # map (pg h) (bins b))" using rs sK K by auto
    show "?s \<noteq> 0" by (rule z)
    have "inj_on (pg h) ?K" by (intro inj_onI) (use inj in blast)
    then show "distinct (?r # map (pg h) (bins b))" using x(2) rK K by (simp add: distinct_map)
    show "c' (small_nx ?s) = n" "c' (small_pv ?s) = ?r" "c' (small_nx ?r) = ?s"
      using sep1 sep2 rs sn by (auto simp: c'_def c1_def)
    show "c' (small_pv n) = ?s" if "map (pg h) (bins b) \<noteq> []"
    proof -
      have "n \<in> set (map (pg h) (bins b))" using that unfolding n_def by (cases "bins b") auto
      then have "n \<noteq> 0" using chain_nonnull [OF x(1)] by metis
      then show ?thesis by (simp add: c'_def)
    qed
    show "c' (small_nx u) = ?c (small_nx u)" if "u \<in> set (map (pg h) (bins b))" for u
    proof -
      have u: "u \<in> pg h ` ?K" using that K by auto
      then have uL: "u \<in> pg h ` ?L" by blast
      have "small_nx u \<noteq> small_pv ?s" by (rule nxpv [OF disjI2 [OF uL] sL])
      moreover have "n \<noteq> 0 \<Longrightarrow> small_nx u \<noteq> small_pv n" by (rule nxpv [OF disjI2 [OF uL] nL])
      moreover have "u \<noteq> ?s" "u \<noteq> ?r" using u sK rK by metis+
      ultimately show ?thesis by (auto simp: c'_def c1_def)
    qed
    show "c' (small_pv v) = ?c (small_pv v)" if "v \<in> set (map (pg h) (bins b))" "v \<noteq> n" for v
    proof -
      have v: "v \<in> pg h ` ?K" using that(1) K by auto
      then have vL: "v \<in> pg h ` ?L" by blast
      have "small_nx ?s \<noteq> small_pv v" by (rule nxpv [OF disjI2 [OF sL] vL])
      moreover have "small_nx ?r \<noteq> small_pv v" by (rule nxpv [OF disjI1 [OF refl] vL])
      moreover have "v \<noteq> ?s" using v sK by metis
      ultimately show ?thesis using that(2) by (auto simp: c'_def c1_def)
    qed
  qed
  then have new: "chain small_nx small_pv c' ?r (map (pg h) (k # bins b))" by simp
  have "small_ok h c' (bins(b := k # bins b)) (B(k \<mapsto> b))"
  proof (rule small_ok_update [OF ok h D' b(2) new])
    show "distinct (k # bins b)" using x(2) K kK by simp
    show "set (k # bins b) = {ka. (B(k \<mapsto> b)) ka = Some b}" using K by auto
    show "(B(k \<mapsto> b)) i = Some j \<longleftrightarrow> B i = Some j" if "j \<noteq> b" for i j using that k(1) by auto
    show "j = b" if "i \<in> ?L" "B i = Some j" for i j using that k(1) by auto
    show "?L \<subseteq> {1..<2 ^ 52}" by (rule L(2))
    show "c' a = ?c a" if "a \<noteq> h + (2048 + of_nat b * 8)" "a \<notin> (\<lambda>k. pg h k + 8) ` ?L \<union> (\<lambda>k. pg h k + 16) ` ?L" for a
      by (rule out) (use that in \<open>auto simp: small_bin_cells_def\<close>)
  qed
  moreover have "small_bin_link h ?s sz m = Some (m\<lparr>cells := c'\<rparr>)"
  proof -
    have vk: "valid_cell m (pg h i + 8)" "valid_cell m (pg h i + 16)" if "i \<in> ?L" for i
      using shape_valid [OF sh, of i 8] shape_valid [OF sh, of i 16] that L(1) by auto
    have vr: "valid_cell m (h + (2048 + of_nat b * 8))"
      by (rule shape_valid_header [OF sh small_offsets(2,3) [OF b(2)]])
    have root: "small_bin h (of_nat b) = small_nx ?r" "small_bin_start (small_nx ?r) = ?r"
      by (simp_all add: small_root_def small_bin_start_def)
    have vb: "valid_cell m (small_nx ?r)" using vr by (simp only: small_root_nx [OF b(2)])
    have vs: "valid_cell m (small_pv ?s)" "valid_cell m (small_nx ?s)" using vk by (simp_all add: layout_simps)
    have "n \<noteq> 0 \<Longrightarrow> valid_cell m (small_pv n)" using nK vk(2) by (auto simp: slab_prev_p_def)
    then show ?thesis
      using vb vs nx
      by (simp add: small_bin_link_def Let_def b(1) raw_small_bin_link_def root load64_valid store64_valid c'_def c1_def del: fun_upd_apply)
  qed
  ultimately show thesis using that out by blast
qed

end
