(* ===== verification/Tiny_Block.thy ===== *)
theory Tiny_Block
  imports Small_Bins
begin

unbundle bit_operations_syntax

section \<open>The blocks of a packed slab\<close>

text \<open>
  A packed slab of class \<open>sz\<close> is \<open>nblk sz\<close> blocks after a header of \<open>hdr sz\<close> bytes. The
  bitvector of both kinds of slab is a sequence of bits from offset 24 on, a set bit for
  each free block; \<open>packed_at\<close> relates the header to the set \<open>A\<close> of allocated blocks.
\<close>

definition hdr :: "u32 \<Rightarrow> nat" where
  "hdr sz = (if sz = 16 then 64 else if sz \<le> 48 then 48 else 32)"

definition nblk :: "u32 \<Rightarrow> nat" where
  "nblk sz = (4096 - hdr sz) div unat sz"

definition blk :: "u64 \<Rightarrow> u32 \<Rightarrow> nat \<Rightarrow> u64" where
  "blk s sz i = s + of_nat (hdr sz + i * unat sz)"

definition bit_cells :: "u32 \<Rightarrow> nat" where \<comment> \<open>the number of cells of the bitvector\<close>
  "bit_cells sz = (if sz = 16 then 4 else if sz \<le> 48 then 2 else 1)"

definition bitv_cell :: "u64 \<Rightarrow> nat \<Rightarrow> u64" where
  "bitv_cell s j = s + (24 + of_nat j * 8)"

definition free_bit :: "(u64 \<Rightarrow> u64) \<Rightarrow> u64 \<Rightarrow> nat \<Rightarrow> bool" where
  "free_bit c s i \<longleftrightarrow> bit (c (bitv_cell s (i div 64))) (i mod 64)"

definition packed_at :: "(u64 \<Rightarrow> u64) \<Rightarrow> u64 \<Rightarrow> u32 \<Rightarrow> nat set \<Rightarrow> bool" where
  "packed_at c s sz A \<longleftrightarrow> A \<subseteq> {..<nblk sz} \<and> bit (c s) 2 \<and> get_lane 8 (c s) = size_to_sz_class sz
     \<and> get_lane 16 (c s) = (of_nat (card A) :: u16)
     \<and> (\<forall>i<64 * bit_cells sz. free_bit c s i \<longleftrightarrow> i < nblk sz \<and> i \<notin> A)
     \<and> (sz \<le> 48 \<longrightarrow> (\<forall>j<16. bit (get_lane 32 (c s) :: u16) j \<longleftrightarrow> (\<exists>i<nblk sz. i div 16 = j \<and> i \<notin> A)))"

subsection \<open>Facts about the classes\<close>

lemma class_facts:
  assumes "sz \<in> set tiny_classes"
  shows "hdr sz + nblk sz * unat sz \<le> 4096" "nblk sz \<le> 64 * bit_cells sz" "8 \<le> nblk sz" "nblk sz \<le> 252"
    "24 + 8 * bit_cells sz \<le> hdr sz" "16 dvd hdr sz" "16 dvd unat sz" "16 \<le> unat sz" "unat sz \<le> 496"
    "sz \<le> 48 \<longleftrightarrow> sz = 16 \<or> sz = 32 \<or> sz = 48" "48 < sz \<Longrightarrow> packed_slab_n_blocks sz = of_nat (nblk sz)"
    "packed_bin_idx sz < 23" "sz_class_to_size (size_to_sz_class sz) = sz"
    "size_to_sz_class sz = 0 \<longleftrightarrow> sz = 16" "size_to_sz_class sz = 1 \<longleftrightarrow> sz = 32" "size_to_sz_class sz = 2 \<longleftrightarrow> sz = 48"
proof -
  have "list_all (\<lambda>sz. hdr sz + nblk sz * unat sz \<le> 4096 \<and> nblk sz \<le> 64 * bit_cells sz \<and> 8 \<le> nblk sz \<and> nblk sz \<le> 252) tiny_classes"
    "list_all (\<lambda>sz. 24 + 8 * bit_cells sz \<le> hdr sz \<and> hdr sz mod 16 = 0 \<and> unat sz mod 16 = 0 \<and> 16 \<le> unat sz \<and> unat sz \<le> 496) tiny_classes"
    "list_all (\<lambda>sz. sz \<le> 48 \<longleftrightarrow> sz = 16 \<or> sz = 32 \<or> sz = 48) tiny_classes"
    by (simp_all add: tiny_classes_def hdr_def nblk_def bit_cells_def)
  then show "hdr sz + nblk sz * unat sz \<le> 4096" "nblk sz \<le> 64 * bit_cells sz" "8 \<le> nblk sz" "nblk sz \<le> 252"
    "24 + 8 * bit_cells sz \<le> hdr sz" "16 dvd hdr sz" "16 dvd unat sz" "16 \<le> unat sz" "unat sz \<le> 496"
    "sz \<le> 48 \<longleftrightarrow> sz = 16 \<or> sz = 32 \<or> sz = 48"
    using assms by (auto simp only: list_all_iff mod_0_imp_dvd)
  have "list_all (\<lambda>sz. 48 < sz \<longrightarrow> packed_slab_n_blocks sz = of_nat (nblk sz)) tiny_classes"
    by (simp add: tiny_classes_def packed_slab_n_blocks_def nblk_def hdr_def layout_simps)
  then show "48 < sz \<Longrightarrow> packed_slab_n_blocks sz = of_nat (nblk sz)" using assms by (auto simp only: list_all_iff)
  have "list_all (\<lambda>sz. packed_bin_idx sz < 23) tiny_classes"
    by (simp add: tiny_classes_def packed_bin_idx_def layout_simps)
  then show "packed_bin_idx sz < 23" using assms by (auto simp only: list_all_iff)
  have "list_all (\<lambda>sz. sz_class_to_size (size_to_sz_class sz) = sz \<and> (size_to_sz_class sz = 0 \<longleftrightarrow> sz = 16)
      \<and> (size_to_sz_class sz = 1 \<longleftrightarrow> sz = 32) \<and> (size_to_sz_class sz = 2 \<longleftrightarrow> sz = 48)) tiny_classes"
    by (simp add: tiny_classes_def sz_class_to_size_def size_to_sz_class_def layout_simps)
  then show "sz_class_to_size (size_to_sz_class sz) = sz"
    "size_to_sz_class sz = 0 \<longleftrightarrow> sz = 16" "size_to_sz_class sz = 1 \<longleftrightarrow> sz = 32" "size_to_sz_class sz = 2 \<longleftrightarrow> sz = 48"
    using assms by (auto simp only: list_all_iff)
qed

text \<open>The offset of a block in its page.\<close>

lemma blk_offset:
  assumes "sz \<in> set tiny_classes" "i < nblk sz"
  shows "hdr sz + i * unat sz + unat sz \<le> 4096" "unat (of_nat (hdr sz + i * unat sz) :: u64) = hdr sz + i * unat sz"
    "of_nat (hdr sz + i * unat sz) < (4096 :: u64)"
proof -
  note f = class_facts [OF assms(1)]
  have "(i + 1) * unat sz \<le> nblk sz * unat sz" using assms(2) by (intro mult_le_mono1) simp
  then show a: "hdr sz + i * unat sz + unat sz \<le> 4096" using f(1) by simp
  show u: "unat (of_nat (hdr sz + i * unat sz) :: u64) = hdr sz + i * unat sz"
    using a by (simp only: unat_of_nat) simp
  show "of_nat (hdr sz + i * unat sz) < (4096 :: u64)"
    using a f(8) unfolding word_less_nat_alt u by simp
qed

lemma blk_page: "page_aligned s \<Longrightarrow> sz \<in> set tiny_classes \<Longrightarrow> i < nblk sz \<Longrightarrow> blk s sz i AND - 4096 = s"
  unfolding blk_def by (rule page_of_offset [OF _ blk_offset(3)])

text \<open>From a block's address back to its index.\<close>

lemma blk_index:
  assumes "sz \<in> set tiny_classes" "i < nblk sz"
  shows "(blk s sz i - s - of_nat (hdr sz)) div ucast sz = of_nat i"
    "(ucast ((blk s sz i - s - of_nat (hdr sz)) div ucast sz) :: u32) = of_nat i"
proof -
  note f = class_facts [OF assms(1)] and o = blk_offset [OF assms]
  have d: "blk s sz i - s - of_nat (hdr sz) = of_nat (i * unat sz)" by (simp add: blk_def)
  have i: "i < 2 ^ 32" "i < 2 ^ 64" using assms(2) f(4) by simp_all
  have u: "unat (of_nat (i * unat sz) :: u64) = i * unat sz" using o(1) by (simp only: unat_of_nat) simp
  have "unat (ucast sz :: u64) = unat sz" using f(9) by (simp add: unsigned_ucast_eq take_bit_nat_eq_self)
  then have "unat ((of_nat (i * unat sz) :: u64) div ucast sz) = i" using f(8) by (simp only: unat_div_distrib u) simp
  then show e: "(blk s sz i - s - of_nat (hdr sz)) div ucast sz = of_nat i"
    using i unfolding d by (metis word_of_nat_eq_iff of_nat_unat ucast_id)
  show "(ucast ((blk s sz i - s - of_nat (hdr sz)) div ucast sz) :: u32) = of_nat i"
    unfolding e using i by (intro unsigned_word_eqI) (simp add: unsigned_ucast_eq unsigned_of_nat take_bit_nat_eq_self)
qed


subsection \<open>The bitvector\<close>

text \<open>What the header says depends on few cells, and not on the previous-allocated bit.\<close>

lemma get_lane_cong:
  "(\<And>i. k \<le> i \<Longrightarrow> i < k + LENGTH('b) \<Longrightarrow> bit x i = bit y i) \<Longrightarrow> (get_lane k x :: 'b::len word) = get_lane k y"
  by (rule bit_eqI) (auto simp: bit_get_lane)

lemma packed_at_frame:
  assumes "packed_at c s sz A" "\<And>i. 2 \<le> i \<Longrightarrow> bit (c' s) i = bit (c s) i"
    and "\<And>j. j < bit_cells sz \<Longrightarrow> c' (bitv_cell s j) = c (bitv_cell s j)"
  shows "packed_at c' s sz A"
proof -
  have "free_bit c' s i = free_bit c s i" if "i < 64 * bit_cells sz" for i
  proof -
    have "i div 64 < bit_cells sz" using that by (simp add: less_mult_imp_div_less mult.commute)
    then show ?thesis by (simp add: free_bit_def assms(3))
  qed
  moreover have "(get_lane 8 (c' s) :: u8) = get_lane 8 (c s)" "(get_lane 16 (c' s) :: u16) = get_lane 16 (c s)"
    "(get_lane 32 (c' s) :: u16) = get_lane 32 (c s)"
    by (rule get_lane_cong, rule assms(2), simp)+
  ultimately show ?thesis using assms(1,2) by (simp add: packed_at_def)
qed

text \<open>A 16-bit word of the bitvector is a lane of its cell.\<close>

lemma bitv_word_addr:
  assumes "j < 16"
  shows "(slab_ps_f2 + ucast (of_nat j :: u32) * 2 :: u64) < 4096"
    "(slab_ps_f2 + ucast (of_nat j :: u32) * 2 :: u64) AND - 8 = 24 + of_nat (j div 4) * 8"
    "8 * unat ((slab_ps_f2 + ucast (of_nat j :: u32) * 2 :: u64) AND 7) = 16 * (j mod 4)"
proof -
  have "list_all (\<lambda>j. (slab_ps_f2 + ucast (of_nat j :: u32) * 2 :: u64) < 4096
      \<and> (slab_ps_f2 + ucast (of_nat j :: u32) * 2 :: u64) AND - 8 = 24 + of_nat (j div 4) * 8
      \<and> 8 * unat ((slab_ps_f2 + ucast (of_nat j :: u32) * 2 :: u64) AND 7) = 16 * (j mod 4)) [0..<16]"
    by (simp add: upt_rec layout_simps)
  then have "(slab_ps_f2 + ucast (of_nat j :: u32) * 2 :: u64) < 4096
      \<and> (slab_ps_f2 + ucast (of_nat j :: u32) * 2 :: u64) AND - 8 = 24 + of_nat (j div 4) * 8
      \<and> 8 * unat ((slab_ps_f2 + ucast (of_nat j :: u32) * 2 :: u64) AND 7) = 16 * (j mod 4)"
    using assms by (simp only: list_all_iff set_upt) auto
  then show "(slab_ps_f2 + ucast (of_nat j :: u32) * 2 :: u64) < 4096"
    "(slab_ps_f2 + ucast (of_nat j :: u32) * 2 :: u64) AND - 8 = 24 + of_nat (j div 4) * 8"
    "8 * unat ((slab_ps_f2 + ucast (of_nat j :: u32) * 2 :: u64) AND 7) = 16 * (j mod 4)" by blast+
qed

lemma bitv_word_exec:
  assumes "page_aligned s" "j < 16" "valid_cell m (bitv_cell s (j div 4))"
  shows "load16 m (ps_f2_word s (of_nat j)) = Some (get_lane (16 * (j mod 4)) (cells m (bitv_cell s (j div 4))))"
    "store16 m (ps_f2_word s (of_nat j)) v = Some (m\<lparr>cells := (cells m)(bitv_cell s (j div 4) :=
       set_lane (16 * (j mod 4)) v (cells m (bitv_cell s (j div 4))))\<rparr>)"
  unfolding ps_f2_word_def
  by (subst load_lane_page [OF assms(1) bitv_word_addr(1) [OF assms(2)]];
      insert assms(3); simp only: bitv_word_addr(2,3) [OF assms(2)] bitv_cell_def)
    (subst store_lane_page [OF assms(1) bitv_word_addr(1) [OF assms(2)]];
      insert assms(3); simp only: bitv_word_addr(2,3) [OF assms(2)] bitv_cell_def)

lemma word_bit_index:
  fixes b j :: nat
  assumes "b < 16"
  shows "(16 * j + b) div 64 = j div 4" "(16 * j + b) mod 64 = 16 * (j mod 4) + b"
proof -
  have "j mod 4 < 4" by simp
  then have "16 * (j mod 4) + b < 64" using assms by linarith
  moreover have e: "16 * j + b = 64 * (j div 4) + (16 * (j mod 4) + b)"
    using div_mult_mod_eq [of j 4] by linarith
  ultimately show "(16 * j + b) div 64 = j div 4" "(16 * j + b) mod 64 = 16 * (j mod 4) + b"
    by (simp_all only: e div_mult_self4 mod_mult_self4) simp_all
qed

lemma word_bit_range:
  fixes j :: nat
  shows "16 * (j mod 4) + 16 \<le> 64"
proof -
  have "j mod 4 < 4" by simp
  then show ?thesis by linarith
qed

lemma bitv_word_bit:
  assumes "b < 16"
  shows "bit (get_lane (16 * (j mod 4)) (c (bitv_cell s (j div 4))) :: u16) b \<longleftrightarrow> free_bit c s (16 * j + b)"
  using assms word_bit_index [OF assms, of j] by (simp add: free_bit_def bit_get_lane)

lemma bitv_word_set:
  assumes v: "\<And>b. b < 16 \<Longrightarrow> bit (v :: u16) b \<longleftrightarrow> (if b = b0 then x else free_bit c s (16 * j + b))" and j: "j < 16" "b0 < 16"
    and c': "c' (bitv_cell s (j div 4)) = set_lane (16 * (j mod 4)) v (c (bitv_cell s (j div 4)))"
      "\<And>i. i < 4 \<Longrightarrow> i \<noteq> j div 4 \<Longrightarrow> c' (bitv_cell s i) = c (bitv_cell s i)"
    and i: "i < 256"
  shows "free_bit c' s i \<longleftrightarrow> (if i = 16 * j + b0 then x else free_bit c s i)"
proof (cases "i div 16 = j")
  case True
  define n where "n = i mod 16"
  have n: "n < 16" "i = 16 * j + n" using True by (auto simp: n_def)
  have "free_bit c' s i \<longleftrightarrow> bit v n"
    using n word_bit_index [OF n(1), of j] word_bit_range [of j] by (simp add: free_bit_def c'(1) bit_set_lane)
  then show ?thesis using v [OF n(1)] n(2) by simp
next
  case False
  define b where "b = i mod 16"
  define k where "k = i div 16"
  have b: "b < 16" "i = 16 * k + b" "k \<noteq> j" using False by (auto simp: b_def k_def)
  have ne: "i \<noteq> 16 * j + b0" using False j(2) by auto
  show ?thesis
  proof (cases "k div 4 = j div 4")
    case True
    then have "k mod 4 \<noteq> j mod 4" using b(3) div_mult_mod_eq [of j 4] div_mult_mod_eq [of k 4] by metis
    then have "\<not> (16 * (j mod 4) \<le> 16 * (k mod 4) + b \<and> 16 * (k mod 4) + b < 16 * (j mod 4) + 16)"
      using b(1) by linarith
    then show ?thesis
      using ne True word_bit_index [OF b(1), of k] word_bit_range [of j]
      by (auto simp add: free_bit_def b(2) c'(1) bit_set_lane)
  next
    case False
    then show ?thesis using ne c'(2) [of "k div 4"] word_bit_index [OF b(1), of k] i b(2) by (simp add: free_bit_def)
  qed
qed


lemma word_in_bitv:
  assumes "sz \<in> set tiny_classes" "i < nblk sz" "n < 16"
  shows "16 * (i div 16) + n < 64 * bit_cells sz"
proof -
  have "16 * (i div 16) \<le> i" by simp
  then have "16 * (i div 16) < 16 * (4 * bit_cells sz)" using class_facts(2) [OF assms(1)] assms(2) by linarith
  then have "i div 16 < 4 * bit_cells sz" by simp
  then show ?thesis using assms(3) by linarith
qed

text \<open>Allocating or freeing block \<open>i\<close> turns \<open>A\<close> into \<open>A'\<close>.\<close>

lemma packed_at_set:
  assumes pk: "packed_at c s sz A" and sz: "sz \<in> set tiny_classes" and i: "i < nblk sz"
    and A': "A' \<subseteq> {..<nblk sz}" "\<And>j. j \<noteq> i \<Longrightarrow> j \<in> A' \<longleftrightarrow> j \<in> A"
    and fb: "\<And>j. j < 64 * bit_cells sz \<Longrightarrow> free_bit c' s j \<longleftrightarrow> (if j = i then i \<notin> A' else free_bit c s j)"
    and ln: "bit (c' s) 2" "(get_lane 8 (c' s) :: u8) = get_lane 8 (c s)" "get_lane 16 (c' s) = (of_nat (card A') :: u16)"
    and f1: "\<And>j. sz \<le> 48 \<Longrightarrow> j < 16 \<Longrightarrow> bit (get_lane 32 (c' s) :: u16) j
      \<longleftrightarrow> (if j = i div 16 then \<exists>n<16. free_bit c' s (16 * j + n) else bit (get_lane 32 (c s) :: u16) j)"
  shows "packed_at c' s sz A'"
proof -
  have new: "free_bit c' s j \<longleftrightarrow> j < nblk sz \<and> j \<notin> A'" if j: "j < 64 * bit_cells sz" for j
  proof (cases "j = i")
    case True
    then show ?thesis using fb [OF j] i by simp
  next
    case False
    then show ?thesis using fb [OF j] pk j A'(2) by (simp add: packed_at_def)
  qed
  have "bit (get_lane 32 (c' s) :: u16) j \<longleftrightarrow> (\<exists>k<nblk sz. k div 16 = j \<and> k \<notin> A')" if s48: "sz \<le> 48" and j: "j < 16" for j
  proof (cases "j = i div 16")
    case True
    have "bit (get_lane 32 (c' s) :: u16) j \<longleftrightarrow> (\<exists>n<16. 16 * j + n < nblk sz \<and> 16 * j + n \<notin> A')"
      using f1 [OF s48 j] True new word_in_bitv [OF sz i] by auto
    also have "\<dots> \<longleftrightarrow> (\<exists>k<nblk sz. k div 16 = j \<and> k \<notin> A')"
    proof
      assume "\<exists>n<16. 16 * j + n < nblk sz \<and> 16 * j + n \<notin> A'"
      then obtain n where "n < 16" "16 * j + n < nblk sz" "16 * j + n \<notin> A'" by blast
      then show "\<exists>k<nblk sz. k div 16 = j \<and> k \<notin> A'" by (intro exI [of _ "16 * j + n"]) simp
    next
      assume "\<exists>k<nblk sz. k div 16 = j \<and> k \<notin> A'"
      then obtain k where "k < nblk sz" "k div 16 = j" "k \<notin> A'" by blast
      then show "\<exists>n<16. 16 * j + n < nblk sz \<and> 16 * j + n \<notin> A'" by (intro exI [of _ "k mod 16"]) auto
    qed
    finally show ?thesis .
  next
    case False
    then have "bit (get_lane 32 (c' s) :: u16) j \<longleftrightarrow> (\<exists>k<nblk sz. k div 16 = j \<and> k \<notin> A)"
      using f1 [OF s48 j] pk s48 j by (simp add: packed_at_def)
    then show ?thesis using A'(2) False by metis
  qed
  then show ?thesis using new A'(1) ln pk by (simp add: packed_at_def)
qed

lemma packed_card: "packed_at c s sz A \<Longrightarrow> finite A \<and> card A \<le> nblk sz"
  unfolding packed_at_def using card_mono [of "{..<nblk sz}" A] by (auto intro: finite_subset)

subsection \<open>Allocating a block\<close>

text \<open>The cells of the header that the bitvector operations write.\<close>

definition header_cells :: "u64 \<Rightarrow> u32 \<Rightarrow> u64 set" where
  "header_cells s sz = insert s (bitv_cell s ` {..<bit_cells sz})"

lemma bitv_cell_page: "bitv_cell s j = s + (24 + of_nat j * 8)"
  by (simp add: bitv_cell_def)

lemma bitv_cell_inj:
  assumes "i < 4" "j < 4"
  shows "bitv_cell s i = bitv_cell s j \<longleftrightarrow> i = j" "bitv_cell s i \<noteq> s" "s \<noteq> bitv_cell s i"
    "bitv_cell s i \<noteq> s + 8" "bitv_cell s i \<noteq> s + 16"
proof -
  have "list_all (\<lambda>i. list_all (\<lambda>j. (24 + of_nat i * 8 :: u64) = 24 + of_nat j * 8 \<longleftrightarrow> i = j) [0..<4]
      \<and> 24 + of_nat i * 8 \<noteq> (0 :: u64) \<and> 24 + of_nat i * 8 \<noteq> (8 :: u64) \<and> 24 + of_nat i * 8 \<noteq> (16 :: u64)) [0..<4]"
    by (simp add: upt_rec)
  then have "((24 + of_nat i * 8 :: u64) = 24 + of_nat j * 8 \<longleftrightarrow> i = j) \<and> 24 + of_nat i * 8 \<noteq> (0 :: u64)
      \<and> 24 + of_nat i * 8 \<noteq> (8 :: u64) \<and> 24 + of_nat i * 8 \<noteq> (16 :: u64)"
    using assms by (simp only: list_all_iff set_upt) auto
  then show "bitv_cell s i = bitv_cell s j \<longleftrightarrow> i = j" "bitv_cell s i \<noteq> s" "s \<noteq> bitv_cell s i"
    "bitv_cell s i \<noteq> s + 8" "bitv_cell s i \<noteq> s + 16"
    unfolding bitv_cell_def by (simp_all add: eq_commute [of s])
qed

lemma bit_cells_le: "bit_cells sz \<le> 4"
  by (simp add: bit_cells_def)

end
