(* ===== verification/Tiny_Ops.thy ===== *)
theory Tiny_Ops
  imports Tiny_Block
begin

unbundle bit_operations_syntax

section \<open>Allocating and freeing tiny blocks\<close>

lemma packed_full_f1:
  assumes "packed_at c s sz A" "sz \<in> set tiny_classes" "sz \<le> 48"
  shows "(get_lane 32 (c s) :: u16) = 0 \<longleftrightarrow> A = {..<nblk sz}"
proof -
  have "nblk sz \<le> 252" by (rule class_facts [OF assms(2)])
  then have b: "i < nblk sz \<Longrightarrow> i div 16 < 16" for i by linarith
  have "(get_lane 32 (c s) :: u16) = 0 \<longleftrightarrow> (\<forall>j<16. \<not> bit (get_lane 32 (c s) :: u16) j)"
    by (auto simp: bit_eq_iff bit_get_lane)
  also have "\<dots> \<longleftrightarrow> (\<forall>i<nblk sz. i \<in> A)"
  proof -
    have "bit (get_lane 32 (c s) :: u16) j \<longleftrightarrow> (\<exists>i<nblk sz. i div 16 = j \<and> i \<notin> A)" if "j < 16" for j
      using assms(1,3) that by (simp add: packed_at_def)
    then show ?thesis using b by metis
  qed
  also have "\<dots> \<longleftrightarrow> A = {..<nblk sz}" using assms(1) by (auto simp: packed_at_def)
  finally show ?thesis .
qed

lemma packed_full_pl:
  assumes "packed_at c s sz A" "sz \<in> set tiny_classes" "48 < sz"
  shows "c (bitv_cell s 0) = 0 \<longleftrightarrow> A = {..<nblk sz}"
proof -
  have "bit_cells sz = 1" using assms(3) by (auto simp: bit_cells_def)
  moreover have "sz \<noteq> 16" using assms(3) by auto
  ultimately have f: "bit (c (bitv_cell s 0)) i \<longleftrightarrow> i < nblk sz \<and> i \<notin> A" if "i < 64" for i
    using assms(1) that by (auto simp: packed_at_def free_bit_def)
  have "nblk sz \<le> 64" using class_facts(2) [OF assms(2)] \<open>bit_cells sz = 1\<close> by simp
  moreover have "c (bitv_cell s 0) = 0 \<longleftrightarrow> (\<forall>i<64. \<not> bit (c (bitv_cell s 0)) i)"
    by (auto simp: bit_eq_iff dest: bit_imp_le_length)
  ultimately show ?thesis using f assms(1) by (auto simp: packed_at_def)
qed

lemma packed_empty:
  assumes "packed_at c s sz A" "sz \<in> set tiny_classes"
  shows "(of_nat (card A) :: u16) = 0 \<longleftrightarrow> A = {}"
proof -
  have "finite A" "card A < 2 ^ 16" using packed_card [OF assms(1)] class_facts(4) [OF assms(2)] by auto
  moreover have "65536 dvd n \<longleftrightarrow> n = 0" if "n < 65536" for n :: nat using that by (auto dest: dvd_imp_le)
  ultimately show ?thesis by (simp add: word_of_nat_eq_0_iff)
qed

lemma of_nat_blk:
  assumes "sz \<in> set tiny_classes" "i < nblk sz"
  shows "s + ucast (of_nat i * sz + of_nat (hdr sz) :: u32) = blk s sz i"
proof -
  have o: "hdr sz + i * unat sz + unat sz \<le> 4096" by (rule blk_offset(1) [OF assms])
  have "(of_nat i * sz + of_nat (hdr sz) :: u32) = of_nat (hdr sz + i * unat sz)" by simp
  moreover have "(ucast (of_nat (hdr sz + i * unat sz) :: u32) :: u64) = of_nat (hdr sz + i * unat sz)"
    using o by (intro unsigned_word_eqI) (simp only: unsigned_ucast_eq unsigned_of_nat, simp add: take_bit_nat_eq_self)
  ultimately show ?thesis by (simp only: blk_def)
qed

lemma free_ctz:
  assumes "w \<noteq> (0 :: 'a :: len word)"
  obtains b where "builtin_ctz w = Some b" "b < LENGTH('a)" "bit w b"
  using builtin_ctz_Some [OF assms] by metis

lemma bit_xor_1: "b < LENGTH('a) \<Longrightarrow> bit (w XOR push_bit b 1 :: 'a::len word) i \<longleftrightarrow> (if i = b then \<not> bit w i else bit w i)"
  by (auto simp: bit_xor_iff bit_push_bit_iff bit_1_iff simp del: push_bit_of_1 dest: bit_imp_le_length)

text \<open>The two-level classes: everything but the unlinking of a slab that is now full.\<close>

lemma packed_alloc_n_exec:
  assumes pk: "packed_at (cells m) s sz A" and sz: "sz \<in> set tiny_classes" "sz \<le> 48" and s: "page_aligned s"
    and v: "valid_cell m s" "\<And>j. j < bit_cells sz \<Longrightarrow> valid_cell m (bitv_cell s j)" and A: "A \<noteq> {..<nblk sz}"
  obtains i c1 where "i < nblk sz" "i \<notin> A" "packed_at c1 s sz (insert i A)"
    and "packed_alloc_n (of_nat (hdr sz)) sz s m = do {
        m \<leftarrow> (if insert i A = {..<nblk sz} then small_bin_unlink s (m\<lparr>cells := c1\<rparr>) else Some (m\<lparr>cells := c1\<rparr>));
        Some (blk s sz i, m) }"
    and "\<And>a. a \<notin> header_cells s sz \<Longrightarrow> c1 a = cells m a" "bit (c1 s) 0 = bit (cells m s) 0" "bit (c1 s) 1 = bit (cells m s) 1"
proof -
  let ?c = "cells m"
  define f1 where "f1 = (get_lane 32 (?c s) :: u16)"
  have "f1 \<noteq> 0" using packed_full_f1 [OF pk sz] A by (simp add: f1_def)
  then obtain j where j: "builtin_ctz f1 = Some j" "j < 16" "bit f1 j" by (rule free_ctz) simp
  then obtain i0 where i0: "i0 < nblk sz" "i0 div 16 = j" "i0 \<notin> A"
    using pk sz(2) by (auto simp: packed_at_def f1_def)
  have inb: "16 * j + n < 64 * bit_cells sz" if "n < 16" for n
    using word_in_bitv [OF sz(1) i0(1) that] i0(2) by simp
  have bc: "bit_cells sz \<le> 4" by (rule bit_cells_le)
  have j4: "j div 4 < bit_cells sz" using inb [of 0] by linarith
  define w where "w = (get_lane (16 * (j mod 4)) (?c (bitv_cell s (j div 4))) :: u16)"
  have wb: "bit w n \<longleftrightarrow> free_bit ?c s (16 * j + n)" if "n < 16" for n
    unfolding w_def by (rule bitv_word_bit [OF that])
  have fb: "free_bit ?c s i \<longleftrightarrow> i < nblk sz \<and> i \<notin> A" if "i < 64 * bit_cells sz" for i
    using pk that by (simp add: packed_at_def)
  have e0: "16 * j + i0 mod 16 = i0" using i0(2) by (simp add: mult.commute [of 16] div_mult_mod_eq flip: i0(2))
  have "bit w (i0 mod 16)" using wb [of "i0 mod 16"] fb [of i0] inb [of "i0 mod 16"] i0 by (simp add: e0)
  then have "w \<noteq> 0" by auto
  then obtain b where b: "builtin_ctz w = Some b" "b < 16" "bit w b" by (rule free_ctz) simp
  define i where "i = 16 * j + b"
  have i: "i < nblk sz" "i \<notin> A" using wb [OF b(2)] b(3) fb [OF inb [OF b(2)]] by (simp_all add: i_def)
  define w' where "w' = w XOR push_bit b 1"
  define f1' where "f1' = f1 XOR push_bit j (of_bool (w' = 0))"
  define s' where "s' = set_lane 32 f1' (set_lane 16 (get_lane 16 (?c s) + 1 :: u16) (?c s))"
  define c1 where "c1 = ?c(bitv_cell s (j div 4) := set_lane (16 * (j mod 4)) w' (?c (bitv_cell s (j div 4))), s := s')"
  have sep: "bitv_cell s n \<noteq> s" "s \<noteq> bitv_cell s n" if "n < 4" for n using bitv_cell_inj [OF that that] by auto
  have c1s: "c1 s = s'" by (simp add: c1_def)
  have new: "free_bit c1 s k \<longleftrightarrow> (if k = i then False else free_bit ?c s k)" if k: "k < 256" for k
  proof (unfold i_def, rule bitv_word_set [where v = w'])
    show "bit w' n \<longleftrightarrow> (if n = b then False else free_bit ?c s (16 * j + n))" if "n < 16" for n
      using b(2,3) wb [OF that] by (auto simp: w'_def bit_xor_1 simp del: push_bit_of_1)
    show "c1 (bitv_cell s (j div 4)) = set_lane (16 * (j mod 4)) w' (?c (bitv_cell s (j div 4)))"
      using sep [of "j div 4"] j4 bc by (simp add: c1_def)
    show "c1 (bitv_cell s n) = ?c (bitv_cell s n)" if "n < 4" "n \<noteq> j div 4" for n
      using sep [OF that(1)] bitv_cell_inj(1) [OF that(1), of "j div 4" s] that(2) j4 bc by (simp add: c1_def)
  qed (use j(2) b(2) k in auto)
  have w0: "w' = 0 \<longleftrightarrow> \<not> (\<exists>n<16. free_bit c1 s (16 * j + n))"
  proof -
    have "bit w' n \<longleftrightarrow> free_bit c1 s (16 * j + n)" if "n < 16" for n
      using new [of "16 * j + n"] j(2) that b(2,3) wb [OF that] by (auto simp: w'_def bit_xor_1 i_def simp del: push_bit_of_1)
    then show ?thesis by (auto simp: bit_eq_iff dest: bit_imp_le_length)
  qed
  have lanes: "bit s' n = bit (?c s) n" if "n < 16" for n
    using that by (simp add: s'_def bit_set_lane)
  have cnt: "get_lane 16 s' = (get_lane 16 (?c s) + 1 :: u16)" and l32: "get_lane 32 s' = f1'"
    by (simp_all add: s'_def lane_simps)
  have pk1: "packed_at c1 s sz (insert i A)"
  proof (rule packed_at_set [OF pk sz(1) i(1)])
    show "insert i A \<subseteq> {..<nblk sz}" using pk i by (auto simp: packed_at_def)
    show "free_bit c1 s k \<longleftrightarrow> (if k = i then i \<notin> insert i A else free_bit ?c s k)" if "k < 64 * bit_cells sz" for k
      using new [of k] that bc by auto
    show "bit (c1 s) 2" using pk lanes [of 2] by (simp add: c1s packed_at_def)
    show "(get_lane 8 (c1 s) :: u8) = get_lane 8 (?c s)" unfolding c1s by (rule get_lane_cong) (use lanes in simp)
    show "get_lane 16 (c1 s) = (of_nat (card (insert i A)) :: u16)"
      using pk packed_card [OF pk] i(2) by (simp add: c1s cnt packed_at_def)
    show "bit (get_lane 32 (c1 s) :: u16) n \<longleftrightarrow>
        (if n = i div 16 then \<exists>k<16. free_bit c1 s (16 * n + k) else bit (get_lane 32 (?c s) :: u16) n)" if "n < 16" for n
    proof -
      have "i div 16 = j" using b(2) by (simp add: i_def)
      moreover have "bit (push_bit j (of_bool (w' = 0)) :: u16) n \<longleftrightarrow> w' = 0 \<and> n = j"
        using j(2) by (auto simp: bit_push_bit_iff bit_1_iff simp del: push_bit_of_1)
      ultimately show ?thesis using w0 j(3) by (auto simp: c1s l32 f1'_def bit_xor_iff f1_def)
    qed
  qed auto
  have f0: "f1' = 0 \<longleftrightarrow> insert i A = {..<nblk sz}"
    using packed_full_f1 [OF pk1 sz] by (simp add: c1s l32)
  have idx: "(of_nat j * 16 + of_nat b :: u32) = of_nat i" by (simp add: i_def mult.commute)
  have hd: "(ucast (of_nat (hdr sz) :: u64) :: u32) = of_nat (hdr sz)"
    by (intro unsigned_word_eqI) (simp add: unsigned_ucast_eq unsigned_of_nat take_bit_nat_eq_self hdr_def)
  have vj: "valid_cell m (bitv_cell s (j div 4))" using v(2) [OF j4] .
  have ex: "packed_alloc_n (of_nat (hdr sz)) sz s m = do {
        m \<leftarrow> (if insert i A = {..<nblk sz} then small_bin_unlink s (m\<lparr>cells := c1\<rparr>) else Some (m\<lparr>cells := c1\<rparr>));
        Some (blk s sz i, m) }"
  proof -
    let ?b = "bitv_cell s (j div 4)"
    let ?m1 = "m\<lparr>cells := ?c(s := set_lane 16 (get_lane 16 (?c s) + 1 :: u16) (?c s))\<rparr>"
    let ?m2 = "m\<lparr>cells := (cells ?m1)(?b := set_lane (16 * (j mod 4)) w' (?c ?b))\<rparr>"
    have sb: "?b \<noteq> s" using sep(1) [OF less_le_trans [OF j4 bc]] .
    have l: "load16 m (s + slab_ps_f1) = Some f1" "load16 m (s + slab_alloc_cnt) = Some (get_lane 16 (?c s))"
      using s v(1) by (simp_all add: exec_simps layout_simps f1_def)
    have w: "load16 m (ps_f2_word s (of_nat j)) = Some w"
      using bitv_word_exec(1) [OF s j(2) vj] by (simp add: w_def)
    have s1: "store16 m (s + slab_alloc_cnt) (get_lane 16 (?c s) + 1) = Some ?m1"
      using s v(1) by (simp add: exec_simps layout_simps)
    have "valid_cell ?m1 ?b" using vj by simp
    then have s2: "store16 ?m1 (ps_f2_word s (of_nat j)) w' = Some ?m2"
      using bitv_word_exec(2) [OF s j(2), of ?m1 w'] sb by simp
    have s3: "store16 ?m2 (s + slab_ps_f1) f1' = Some (m\<lparr>cells := c1\<rparr>)"
      using s v(1) sb by (simp add: exec_simps layout_simps c1_def s'_def fun_upd_twist)
    show ?thesis
      unfolding packed_alloc_n_def Let_def
      by (simp only: l bind.bind_lunit j(1) w b(1) w'_def [symmetric] f1'_def [symmetric] s1 s2 s3 f0 idx hd
          of_nat_blk [OF sz(1) i(1)])
  qed
  show thesis
  proof (rule that [OF i pk1 ex])
    show "c1 a = ?c a" if "a \<notin> header_cells s sz" for a
      using that j4 by (auto simp: c1_def header_cells_def)
    show "bit (c1 s) 0 = bit (?c s) 0" "bit (c1 s) 1 = bit (?c s) 1" using lanes by (simp_all add: c1s)
  qed
qed


text \<open>The other classes: here the slab is unlinked before the header is written.\<close>

lemma bitv_one:
  assumes "sz \<in> set tiny_classes" "48 < sz"
  shows "bit_cells sz = 1" "\<not> sz \<le> 48" "nblk sz \<le> 64" "hdr sz = 32" "sz \<noteq> 16" "sz \<noteq> 32" "sz \<noteq> 48"
proof -
  show a: "\<not> sz \<le> 48" "sz \<noteq> 16" "sz \<noteq> 32" "sz \<noteq> 48" using assms(2) by auto
  show b: "bit_cells sz = 1" and "hdr sz = 32" using a by (simp_all add: bit_cells_def hdr_def)
  show "nblk sz \<le> 64" using class_facts(2) [OF assms(1)] b by simp
qed

lemma free_bit_0: "i < 64 \<Longrightarrow> free_bit c s i \<longleftrightarrow> bit (c (bitv_cell s 0)) i"
  by (simp add: free_bit_def)

lemma packed_alloc_exec:
  assumes pk: "packed_at (cells m) s sz A" and sz: "sz \<in> set tiny_classes" "48 < sz" and s: "page_aligned s"
    and v: "valid_cell m s" "valid_cell m (bitv_cell s 0)" and A: "A \<noteq> {..<nblk sz}"
  obtains i x y where "i < nblk sz" "i \<notin> A"
    and "\<And>c2. c2 s = cells m s \<Longrightarrow> c2 (bitv_cell s 0) = cells m (bitv_cell s 0) \<Longrightarrow>
      packed_at (c2(s := x, bitv_cell s 0 := y)) s sz (insert i A)"
    and "bit x 0 = bit (cells m s) 0" "bit x 1 = bit (cells m s) 1"
    and "\<And>c2. (if insert i A = {..<nblk sz} then small_bin_unlink s m else Some m) = Some (m\<lparr>cells := c2\<rparr>) \<Longrightarrow>
      c2 s = cells m s \<Longrightarrow> c2 (bitv_cell s 0) = cells m (bitv_cell s 0) \<Longrightarrow>
      packed_alloc s sz m = Some (blk s sz i, m\<lparr>cells := c2(s := x, bitv_cell s 0 := y)\<rparr>)"
proof -
  let ?c = "cells m" and ?b = "bitv_cell s 0"
  note b1 = bitv_one [OF sz]
  define w where "w = ?c ?b"
  have "w \<noteq> 0" using packed_full_pl [OF pk sz] A by (simp add: w_def)
  then obtain i where ctz: "builtin_ctz w = Some i" and i64: "i < 64" and wi: "bit w i" by (rule free_ctz) simp
  have fb: "bit w k \<longleftrightarrow> k < nblk sz \<and> k \<notin> A" if "k < 64" for k
    using pk that b1(1) by (simp add: packed_at_def free_bit_0 w_def)
  have i: "i < nblk sz" "i \<notin> A" using fb [OF i64] wi by simp_all
  define y where "y = w XOR push_bit i 1"
  define x where "x = set_lane 16 (get_lane 16 (?c s) + 1 :: u16) (?c s)"
  have lanes: "bit x n = bit (?c s) n" if "n < 16" for n using that by (simp add: x_def bit_set_lane)
  have sb: "?b \<noteq> s" "s \<noteq> ?b" using bitv_cell_inj [of 0 0 s] by auto
  have pk1: "packed_at (c2(s := x, ?b := y)) s sz (insert i A)" if c2: "c2 s = ?c s" "c2 ?b = ?c ?b" for c2
  proof (rule packed_at_set [OF pk sz(1) i(1)])
    let ?c1 = "c2(s := x, ?b := y)"
    show "insert i A \<subseteq> {..<nblk sz}" using pk i by (auto simp: packed_at_def)
    show "free_bit ?c1 s k \<longleftrightarrow> (if k = i then i \<notin> insert i A else free_bit ?c s k)" if "k < 64 * bit_cells sz" for k
      using that wi i64 by (simp add: b1(1) free_bit_0 y_def bit_xor_1 w_def del: push_bit_of_1)
    show "bit (?c1 s) 2" using pk lanes [of 2] sb by (simp add: packed_at_def)
    show "(get_lane 8 (?c1 s) :: u8) = get_lane 8 (?c s)" by (rule get_lane_cong) (use lanes sb in simp)
    show "get_lane 16 (?c1 s) = (of_nat (card (insert i A)) :: u16)"
      using pk packed_card [OF pk] i(2) sb by (simp add: x_def lane_simps packed_at_def)
  qed (use b1(2) in auto)
  have y0: "y = 0 \<longleftrightarrow> insert i A = {..<nblk sz}"
    using packed_full_pl [OF pk1 [OF refl refl] sz] by simp
  have hd: "(ucast PACKED_SLAB_HEADER_SIZE :: u32) = of_nat (hdr sz)" by (simp add: b1(4) layout_simps)
  have l: "load64 m (s + slab_pl_f) = Some w"
    using v(2) by (simp add: exec_simps layout_simps w_def bitv_cell_def)
  have ex: "packed_alloc s sz m = Some (blk s sz i, m\<lparr>cells := c2(s := x, ?b := y)\<rparr>)"
    if u: "(if insert i A = {..<nblk sz} then small_bin_unlink s m else Some m) = Some (m\<lparr>cells := c2\<rparr>)"
      and c2: "c2 s = ?c s" "c2 ?b = ?c ?b" for c2
  proof -
    let ?m1 = "m\<lparr>cells := c2(s := x)\<rparr>"
    have l2: "load16 (m\<lparr>cells := c2\<rparr>) (s + slab_alloc_cnt) = Some (get_lane 16 (?c s))"
      using s v(1) c2 by (simp add: exec_simps layout_simps)
    have s1: "store16 (m\<lparr>cells := c2\<rparr>) (s + slab_alloc_cnt) (get_lane 16 (?c s) + 1) = Some ?m1"
      using s v(1) c2 by (simp add: exec_simps layout_simps x_def)
    have s2: "store64 ?m1 (s + slab_pl_f) y = Some (m\<lparr>cells := c2(s := x, ?b := y)\<rparr>)"
      using v(2) by (simp add: exec_simps layout_simps bitv_cell_def)
    show ?thesis
      unfolding packed_alloc_def Let_def
      by (simp only: l bind.bind_lunit ctz y_def [symmetric] y0 u l2 s1 s2 hd of_nat_blk [OF sz(1) i(1)])
  qed
  show thesis
  proof (rule that [OF i pk1 _ _ ex])
    show "bit x 0 = bit (?c s) 0" "bit x 1 = bit (?c s) 1" using lanes by simp_all
  qed
qed

subsection \<open>Freeing a block\<close>

text \<open>
  Freeing links the slab first when it was full; then the header is written. What remains
  is the release of a slab that is now empty.
\<close>

definition free_tail :: "u64 \<Rightarrow> u64 \<Rightarrow> nat set \<Rightarrow> memory \<Rightarrow> memory option" where
  "free_tail h s A m = (if A = {} then do { m \<leftarrow> small_bin_unlink s m; int_free_slab h s 1 m } else Some m)"

lemma packed_free_n_exec:
  assumes pk: "packed_at (cells m) s sz A" and sz: "sz \<in> set tiny_classes" "sz \<le> 48" and s: "page_aligned s"
    and v: "valid_cell m s" "\<And>j. j < bit_cells sz \<Longrightarrow> valid_cell m (bitv_cell s j)" and i: "i \<in> A"
    and u: "(if A = {..<nblk sz} then small_bin_link h s sz m else Some m) = Some (m\<lparr>cells := c2\<rparr>)"
    and c2: "\<And>a. a \<in> header_cells s sz \<Longrightarrow> c2 a = cells m a"
  obtains c1 where "packed_free_n (of_nat (hdr sz)) sz h s (blk s sz i) m = free_tail h s (A - {i}) (m\<lparr>cells := c1\<rparr>)"
    and "packed_at c1 s sz (A - {i})" "\<And>a. a \<notin> header_cells s sz \<Longrightarrow> c1 a = c2 a"
    and "bit (c1 s) 0 = bit (cells m s) 0" "bit (c1 s) 1 = bit (cells m s) 1"
proof -
  let ?c = "cells m"
  have iN: "i < nblk sz" using pk i by (auto simp: packed_at_def)
  have n252: "nblk sz \<le> 252" by (rule class_facts [OF sz(1)])
  define j where "j = i div 16"
  define b where "b = i mod 16"
  have j: "j < 16" "b < 16" "i = 16 * j + b" using iN n252 by (auto simp: j_def b_def)
  have bc: "bit_cells sz \<le> 4" by (rule bit_cells_le)
  have inb: "16 * j + n < 64 * bit_cells sz" if "n < 16" for n
    unfolding j_def by (rule word_in_bitv [OF sz(1) iN that])
  have j4: "j div 4 < bit_cells sz" using inb [of 0] by linarith
  have fin: "finite A" using packed_card [OF pk] by simp
  define f1 where "f1 = (get_lane 32 (?c s) :: u16)"
  define w where "w = (get_lane (16 * (j mod 4)) (?c (bitv_cell s (j div 4))) :: u16)"
  have wb: "bit w n \<longleftrightarrow> free_bit ?c s (16 * j + n)" if "n < 16" for n
    unfolding w_def by (rule bitv_word_bit [OF that])
  define w' where "w' = w OR push_bit b 1"
  define f1' where "f1' = f1 OR push_bit j 1"
  define s' where "s' = set_lane 32 f1' (set_lane 16 (get_lane 16 (?c s) - 1 :: u16) (?c s))"
  define c1 where "c1 = c2(bitv_cell s (j div 4) := set_lane (16 * (j mod 4)) w' (?c (bitv_cell s (j div 4))), s := s')"
  have sb: "bitv_cell s (j div 4) \<noteq> s" using bitv_cell_inj(2) j4 bc by (metis less_le_trans)
  have sep: "s \<noteq> bitv_cell s n" if "n < 4" for n using bitv_cell_inj [OF that that] by auto
  have hc: "c2 s = ?c s" "n < bit_cells sz \<Longrightarrow> c2 (bitv_cell s n) = ?c (bitv_cell s n)" for n
    using c2 by (auto simp: header_cells_def)
  have c1s: "c1 s = s'" by (simp add: c1_def)
  have bp: "bit (push_bit n 1 :: u16) k \<longleftrightarrow> k = n" if "n < 16" for n k
    using that by (auto simp: bit_push_bit_iff bit_1_iff simp del: push_bit_of_1)
  have new: "free_bit c1 s k \<longleftrightarrow> (if k = i then True else free_bit ?c s k)" if k: "k < 64 * bit_cells sz" for k
  proof -
    have "free_bit c1 s k \<longleftrightarrow> (if k = 16 * j + b then True else free_bit c2 s k)"
    proof (rule bitv_word_set [where v = w'])
      have f: "free_bit c2 s (16 * j + n) = free_bit ?c s (16 * j + n)" if "n < 16" for n
      proof -
        have "(16 * j + n) div 64 < bit_cells sz" using inb [OF that] by (simp add: less_mult_imp_div_less mult.commute)
        then show ?thesis by (simp add: free_bit_def hc)
      qed
      show "bit w' n \<longleftrightarrow> (if n = b then True else free_bit c2 s (16 * j + n))" if "n < 16" for n
        using wb [OF that] f [OF that] bp [OF j(2), of n] by (simp add: w'_def bit_or_iff del: push_bit_of_1)
      show "c1 (bitv_cell s (j div 4)) = set_lane (16 * (j mod 4)) w' (c2 (bitv_cell s (j div 4)))"
        using sb hc(2) [OF j4] by (simp add: c1_def)
      show "c1 (bitv_cell s n) = c2 (bitv_cell s n)" if "n < 4" "n \<noteq> j div 4" for n
        using sep [OF that(1)] bitv_cell_inj(1) [OF that(1), of "j div 4" s] that(2) j4 bc by (simp add: c1_def)
    qed (use j k bc in auto)
    moreover have "k div 64 < bit_cells sz" using k by (simp add: less_mult_imp_div_less mult.commute)
    ultimately show ?thesis using j(3) by (simp add: free_bit_def hc)
  qed
  have lanes: "bit s' n = bit (?c s) n" if "n < 16" for n
    using that by (simp add: s'_def bit_set_lane)
  have cnt: "get_lane 16 s' = (get_lane 16 (?c s) - 1 :: u16)" and l32: "get_lane 32 s' = f1'"
    by (simp_all add: s'_def lane_simps)
  have cd: "(of_nat (card A) :: u16) - 1 = of_nat (card (A - {i}))"
  proof -
    have "card A = Suc (card (A - {i}))" using i fin by (metis card.remove)
    then show ?thesis by simp
  qed
  have pk1: "packed_at c1 s sz (A - {i})"
  proof (rule packed_at_set [OF pk sz(1) iN])
    show "A - {i} \<subseteq> {..<nblk sz}" using pk by (auto simp: packed_at_def)
    show "free_bit c1 s k \<longleftrightarrow> (if k = i then i \<notin> A - {i} else free_bit ?c s k)" if "k < 64 * bit_cells sz" for k
      using new [OF that] by auto
    show "bit (c1 s) 2" using pk lanes [of 2] by (simp add: c1s packed_at_def)
    show "(get_lane 8 (c1 s) :: u8) = get_lane 8 (?c s)" unfolding c1s by (rule get_lane_cong) (use lanes in simp)
    show "get_lane 16 (c1 s) = (of_nat (card (A - {i})) :: u16)"
      using pk cd by (simp add: c1s cnt packed_at_def)
    show "bit (get_lane 32 (c1 s) :: u16) n \<longleftrightarrow>
        (if n = i div 16 then \<exists>k<16. free_bit c1 s (16 * n + k) else bit (get_lane 32 (?c s) :: u16) n)" if "n < 16" for n
    proof -
      have "\<exists>k<16. free_bit c1 s (16 * j + k)" using new [OF inb [OF j(2)]] j by auto
      then show ?thesis using bp [OF j(1), of n] by (auto simp: c1s l32 f1'_def bit_or_iff f1_def j_def simp del: push_bit_of_1)
    qed
  qed auto
  have a0: "get_lane 16 (?c s) - 1 = (0 :: u16) \<longleftrightarrow> A - {i} = {}"
    using packed_empty [OF pk1 sz(1)] pk cd by (simp add: packed_at_def)
  have f0: "f1 = 0 \<longleftrightarrow> A = {..<nblk sz}" using packed_full_f1 [OF pk sz] by (simp add: f1_def)
  show thesis
  proof (rule that [OF _ pk1])
    show "c1 a = c2 a" if "a \<notin> header_cells s sz" for a
      using that j4 by (auto simp: c1_def header_cells_def)
    show "bit (c1 s) 0 = bit (?c s) 0" "bit (c1 s) 1 = bit (?c s) 1" using lanes by (simp_all add: c1s)
    show "packed_free_n (of_nat (hdr sz)) sz h s (blk s sz i) m = free_tail h s (A - {i}) (m\<lparr>cells := c1\<rparr>)"
    proof -
      let ?b = "bitv_cell s (j div 4)"
      let ?m1 = "m\<lparr>cells := c2(s := set_lane 16 (get_lane 16 (?c s) - 1 :: u16) (?c s))\<rparr>"
      let ?m2 = "m\<lparr>cells := (cells ?m1)(?b := set_lane (16 * (j mod 4)) w' (?c ?b))\<rparr>"
      have vj: "valid_cell m ?b" using v(2) [OF j4] .
      have i32: "unat (of_nat i :: u32) = i" using iN n252 by (simp add: unat_of_nat take_bit_nat_eq_self)
      have x1: "drop_bit 4 (of_nat i :: u32) = of_nat j"
        using i32 j(1) unfolding word_unat_eq_iff by (simp add: drop_bit_eq_div unat_div_distrib j_def unsigned_of_nat take_bit_nat_eq_self)
      have x2: "unat (of_nat i AND 0xf :: u32) = b"
      proof -
        have "(0xf :: u32) = mask 4" by (simp add: mask_eq_exp_minus_1)
        then have "unat (of_nat i AND 0xf :: u32) = unat (take_bit 4 (of_nat i :: u32))" by (simp only: take_bit_eq_mask)
        also have "\<dots> = take_bit 4 i" by (simp only: unsigned_take_bit_eq i32)
        finally show ?thesis by (simp add: take_bit_eq_mod b_def)
      qed
      have x3: "unat (of_nat j :: u32) = j" using j(1) by (simp add: unat_of_nat take_bit_nat_eq_self)
      have sh: "(ucast (shl32 1 n) :: u16) = push_bit n 1" if "n < 16" for n
        using that by (intro bit_eqI) (auto simp: shl32_def bit_unsigned_iff bit_push_bit_iff bit_1_iff simp del: push_bit_of_1)
      have l: "load16 m (s + slab_ps_f1) = Some f1" "load16 m (s + slab_alloc_cnt) = Some (get_lane 16 (?c s))"
        using s v(1) by (simp_all add: exec_simps layout_simps f1_def)
      have w: "load16 m (ps_f2_word s (of_nat j)) = Some w"
        using bitv_word_exec(1) [OF s j(1) vj] by (simp add: w_def)
      have s1: "store16 (m\<lparr>cells := c2\<rparr>) (s + slab_alloc_cnt) (get_lane 16 (?c s) - 1) = Some ?m1"
        using s v(1) hc(1) by (simp add: exec_simps layout_simps)
      have "valid_cell ?m1 ?b" using vj by simp
      then have s2: "store16 ?m1 (ps_f2_word s (of_nat j)) w' = Some ?m2"
        using bitv_word_exec(2) [OF s j(1), of ?m1 w'] sb hc(2) [OF j4] by simp
      have s3: "store16 ?m2 (s + slab_ps_f1) f1' = Some (m\<lparr>cells := c1\<rparr>)"
        using s v(1) sb by (simp add: exec_simps layout_simps c1_def s'_def fun_upd_twist)
      show ?thesis
        unfolding packed_free_n_def Let_def blk_index(2) [OF sz(1) iN]
        by (simp only: x1 x2 x3 l bind.bind_lunit w f0 u sh [OF j(1)] sh [OF j(2)] w'_def [symmetric] f1'_def [symmetric]
            s1 s2 s3 a0 free_tail_def)
    qed
  qed
qed

lemma card_dec: "i \<in> A \<Longrightarrow> finite A \<Longrightarrow> (of_nat (card A) :: u16) - 1 = of_nat (card (A - {i}))"
proof -
  assume "i \<in> A" "finite A"
  then have "card A = Suc (card (A - {i}))" by (metis card.remove)
  then show ?thesis by simp
qed

lemma packed_free_exec:
  assumes pk: "packed_at (cells m) s sz A" and sz: "sz \<in> set tiny_classes" "48 < sz" and s: "page_aligned s"
    and v: "valid_cell m s" "valid_cell m (bitv_cell s 0)" and i: "i \<in> A"
    and u: "(if A = {..<nblk sz} then small_bin_link h s sz m else Some m) = Some (m\<lparr>cells := c2\<rparr>)"
    and c2: "\<And>a. a \<in> header_cells s sz \<Longrightarrow> c2 a = cells m a"
  obtains c1 where "packed_free h s (blk s sz i) (size_to_sz_class sz) m = free_tail h s (A - {i}) (m\<lparr>cells := c1\<rparr>)"
    and "packed_at c1 s sz (A - {i})" "\<And>a. a \<notin> header_cells s sz \<Longrightarrow> c1 a = c2 a"
    and "bit (c1 s) 0 = bit (cells m s) 0" "bit (c1 s) 1 = bit (cells m s) 1"
proof -
  let ?c = "cells m" and ?b = "bitv_cell s 0"
  note b1 = bitv_one [OF sz]
  have iN: "i < nblk sz" using pk i by (auto simp: packed_at_def)
  have i64: "i < 64" using iN b1(3) by simp
  have fin: "finite A" using packed_card [OF pk] by simp
  define w where "w = ?c ?b"
  define y where "y = w OR push_bit i 1"
  define x where "x = set_lane 16 (get_lane 16 (?c s) - 1 :: u16) (?c s)"
  define c1 where "c1 = c2(s := x, ?b := y)"
  have lanes: "bit x n = bit (?c s) n" if "n < 16" for n using that by (simp add: x_def bit_set_lane)
  have sb: "?b \<noteq> s" "s \<noteq> ?b" using bitv_cell_inj [of 0 0 s] by auto
  have c1s: "c1 s = x" "c1 ?b = y" using sb by (simp_all add: c1_def)
  have hc: "c2 s = ?c s" "c2 ?b = ?c ?b" using c2 b1(1) by (auto simp: header_cells_def)
  have bp: "bit (push_bit i 1 :: u64) k \<longleftrightarrow> k = i" for k
    using i64 by (auto simp: bit_push_bit_iff bit_1_iff simp del: push_bit_of_1)
  have pk1: "packed_at c1 s sz (A - {i})"
  proof (rule packed_at_set [OF pk sz(1) iN])
    show "A - {i} \<subseteq> {..<nblk sz}" using pk by (auto simp: packed_at_def)
    show "free_bit c1 s k \<longleftrightarrow> (if k = i then i \<notin> A - {i} else free_bit ?c s k)" if "k < 64 * bit_cells sz" for k
      using that i64 by (simp add: b1(1) free_bit_0 c1s y_def bit_or_iff bp w_def del: push_bit_of_1)
    show "bit (c1 s) 2" using pk lanes [of 2] by (simp add: c1s packed_at_def)
    show "(get_lane 8 (c1 s) :: u8) = get_lane 8 (?c s)" unfolding c1s by (rule get_lane_cong) (use lanes in simp)
    show "get_lane 16 (c1 s) = (of_nat (card (A - {i})) :: u16)"
      using pk card_dec [OF i fin] by (simp add: c1s x_def lane_simps packed_at_def)
  qed (use b1(2) in auto)
  have a0: "get_lane 16 (?c s) - 1 = (0 :: u16) \<longleftrightarrow> A - {i} = {}"
    using packed_empty [OF pk1 sz(1)] pk card_dec [OF i fin] by (simp add: packed_at_def)
  have w0: "w = 0 \<longleftrightarrow> A = {..<nblk sz}" using packed_full_pl [OF pk sz] by (simp add: w_def)
  have ex: "packed_free h s (blk s sz i) (size_to_sz_class sz) m = free_tail h s (A - {i}) (m\<lparr>cells := c1\<rparr>)"
  proof -
    let ?m1 = "m\<lparr>cells := c2(s := x)\<rparr>"
    have hd: "PACKED_SLAB_HEADER_SIZE = of_nat (hdr sz)" by (simp add: b1(4) layout_simps)
    have i32: "unat (of_nat i :: u32) = i" using i64 by (simp add: unat_of_nat take_bit_nat_eq_self)
    have sh: "shl64 1 i = push_bit i 1" using i64 by (simp add: shl64_def del: push_bit_of_1)
    have l: "load64 m (s + slab_pl_f) = Some w" "load16 m (s + slab_alloc_cnt) = Some (get_lane 16 (?c s))"
      using s v by (simp_all add: exec_simps layout_simps w_def bitv_cell_def)
    have s1: "store16 (m\<lparr>cells := c2\<rparr>) (s + slab_alloc_cnt) (get_lane 16 (?c s) - 1) = Some ?m1"
      using s v(1) hc by (simp add: exec_simps layout_simps x_def)
    have s2: "store64 ?m1 (s + slab_pl_f) y = Some (m\<lparr>cells := c1\<rparr>)"
      using v(2) by (simp add: exec_simps layout_simps bitv_cell_def c1_def)
    show ?thesis
      unfolding packed_free_def Let_def class_facts(13) [OF sz(1)] hd blk_index(2) [OF sz(1) iN] i32 sh y_def [symmetric]
      by (simp only: l bind.bind_lunit w0 u y_def [symmetric] s1 s2 a0 free_tail_def)
  qed
  show thesis
  proof (rule that [OF ex pk1])
    show "c1 a = c2 a" if "a \<notin> header_cells s sz" for a
      using that b1(1) by (auto simp: c1_def header_cells_def)
    show "bit (c1 s) 0 = bit (?c s) 0" "bit (c1 s) 1 = bit (?c s) 1" using lanes by (simp_all add: c1s)
  qed
qed

end
