(* ===== verification/Tiny_Init.thy ===== *)
theory Tiny_Init
  imports Tiny_Ops
begin

unbundle bit_operations_syntax

section \<open>A new packed slab\<close>

text \<open>The bitvector of a slab whose first block is allocated.\<close>

definition init_word :: "u32 \<Rightarrow> nat \<Rightarrow> u64" where
  "init_word sz j = mask (nblk sz - 64 * j) AND NOT (of_bool (j = 0))"

lemma bit_init_word: "b < 64 \<Longrightarrow> bit (init_word sz j) b \<longleftrightarrow> 64 * j + b < nblk sz \<and> 64 * j + b \<noteq> 0"
  by (auto simp: init_word_def bit_and_iff bit_not_iff bit_mask_iff bit_1_iff)

lemma init_words:
  "init_word 16 0 = 0xfffffffffffffffe" "init_word 16 (Suc 0) = 0xffffffffffffffff" "init_word 16 2 = 0xffffffffffffffff"
  "init_word 16 3 = shl64 1 (unat (64 - CEIL_DIV PACKED_SLAB_16_HEADER_SIZE 16)) - 1"
  "init_word 32 0 = 0xfffffffffffffffe"
  "init_word 32 (Suc 0) = shl64 1 (unat (64 - CEIL_DIV PACKED_SLAB_32_HEADER_SIZE 32)) - 1"
  "init_word 48 0 = 0xfffffffffffffffe"
  "init_word 48 (Suc 0) = shl64 1 (unat ((SLAB_SIZE - PACKED_SLAB_48_HEADER_SIZE) div 48 - 64)) - 1"
  by (simp_all add: init_word_def nblk_def hdr_def shl64_def CEIL_DIV_def layout_simps mask_eq_exp_minus_1)

lemma init_word_pl:
  assumes "sz \<in> set tiny_classes" "48 < sz"
  shows "shl64 1 (unat (packed_slab_n_blocks sz)) - 2 = init_word sz 0"
proof -
  have "list_all (\<lambda>sz. 48 < sz \<longrightarrow> shl64 1 (unat (packed_slab_n_blocks sz)) - 2 = init_word sz 0) tiny_classes"
    by (simp add: tiny_classes_def init_word_def nblk_def hdr_def shl64_def packed_slab_n_blocks_def layout_simps
        mask_eq_exp_minus_1)
  then show ?thesis using assms by (simp add: list_all_iff)
qed

lemma init_f1:
  assumes "sz \<in> set tiny_classes" "sz \<le> 48" "j < 16"
  shows "bit (f1_init_bitv ! unat (ucast sz div MALLOC_ALIGN - 1)) j \<longleftrightarrow> 16 * j + 1 < nblk sz"
    "nblk sz mod 16 \<noteq> 1" "unat (ucast sz div MALLOC_ALIGN - 1) < length f1_init_bitv"
proof -
  have "list_all (\<lambda>sz. sz \<le> 48 \<longrightarrow> list_all (\<lambda>j. bit (f1_init_bitv ! unat (ucast sz div MALLOC_ALIGN - 1)) j
      \<longleftrightarrow> 16 * j + 1 < nblk sz) [0..<16] \<and> nblk sz mod 16 \<noteq> 1 \<and> unat (ucast sz div MALLOC_ALIGN - 1) < length f1_init_bitv) tiny_classes"
    by (simp add: tiny_classes_def f1_init_bitv_def nblk_def hdr_def layout_simps upt_rec)
  then show "bit (f1_init_bitv ! unat (ucast sz div MALLOC_ALIGN - 1)) j \<longleftrightarrow> 16 * j + 1 < nblk sz"
    "nblk sz mod 16 \<noteq> 1" "unat (ucast sz div MALLOC_ALIGN - 1) < length f1_init_bitv"
    using assms by (simp_all add: list_all_iff)
qed

lemma packed_at_init:
  assumes sz: "sz \<in> set tiny_classes"
    and w: "\<And>j. j < bit_cells sz \<Longrightarrow> c (bitv_cell s j) = init_word sz j"
    and l: "bit (c s) 2" "get_lane 8 (c s) = size_to_sz_class sz" "get_lane 16 (c s) = (1 :: u16)"
    and f1: "sz \<le> 48 \<Longrightarrow> get_lane 32 (c s) = f1_init_bitv ! unat (ucast sz div MALLOC_ALIGN - 1)"
  shows "packed_at c s sz {0}"
  unfolding packed_at_def
proof (intro conjI allI impI)
  have n8: "8 \<le> nblk sz" by (rule class_facts [OF sz])
  then show "{0} \<subseteq> {..<nblk sz}" by auto
  show "get_lane 16 (c s) = (of_nat (card {0 :: nat}) :: u16)" using l(3) by simp
  fix i assume "i < 64 * bit_cells sz"
  then have "i div 64 < bit_cells sz" by (simp add: less_mult_imp_div_less mult.commute)
  then have "free_bit c s i \<longleftrightarrow> 64 * (i div 64) + i mod 64 < nblk sz \<and> 64 * (i div 64) + i mod 64 \<noteq> 0"
    unfolding free_bit_def by (simp only: w bit_init_word mod_less_divisor zero_less_numeral)
  then show "free_bit c s i = (i < nblk sz \<and> i \<notin> {0})" by (simp only: mult_div_mod_eq) simp
next
  fix j :: nat
  assume a: "sz \<le> 48" "j < 16"
  have "(\<exists>i<nblk sz. i div 16 = j \<and> i \<notin> {0}) \<longleftrightarrow> 16 * j + 1 < nblk sz"
  proof
    assume "\<exists>i<nblk sz. i div 16 = j \<and> i \<notin> {0}"
    then obtain i where i: "i < nblk sz" "i div 16 = j" "i \<noteq> 0" by blast
    show "16 * j + 1 < nblk sz"
    proof (rule ccontr)
      assume "\<not> 16 * j + 1 < nblk sz"
      then have "nblk sz = 16 * j + 1" using i by linarith
      then have "nblk sz mod 16 = 1" by simp
      then show False using init_f1(2) [OF sz a] by simp
    qed
  next
    assume "16 * j + 1 < nblk sz"
    then show "\<exists>i<nblk sz. i div 16 = j \<and> i \<notin> {0}" by (intro exI [of _ "16 * j + 1"]) simp
  qed
  then show "bit (get_lane 32 (c s) :: u16) j = (\<exists>i<nblk sz. i div 16 = j \<and> i \<notin> {0})"
    using init_f1(1) [OF sz a] f1 [OF a(1)] by simp
qed (use l in simp_all)


lemma class_value:
  assumes "sz \<in> set tiny_classes" "sz \<le> 48"
  shows "sz = 16 \<or> sz = 32 \<or> sz = 48"
  using class_facts(10) [OF assms(1)] assms(2) by blast

lemma class_u64:
  assumes "sz \<in> set tiny_classes"
  shows "(ucast (ucast sz :: u64) :: u32) = sz" "(ucast sz :: u64) \<le> PACKED_SLAB_2LVL_BITV_THRESH \<longleftrightarrow> sz \<le> 48"
    "(ucast sz :: u64) = 16 \<longleftrightarrow> sz = 16" "(ucast sz :: u64) = 32 \<longleftrightarrow> sz = 32" "(ucast sz :: u64) = 48 \<longleftrightarrow> sz = 48"
    "(ucast sz :: u64) \<le> MAX_TINY_BLOCK_SZ"
proof -
  have "list_all (\<lambda>sz. (ucast (ucast sz :: u64) :: u32) = sz \<and> ((ucast sz :: u64) \<le> PACKED_SLAB_2LVL_BITV_THRESH \<longleftrightarrow> sz \<le> 48)
    \<and> ((ucast sz :: u64) = 16 \<longleftrightarrow> sz = 16) \<and> ((ucast sz :: u64) = 32 \<longleftrightarrow> sz = 32) \<and> ((ucast sz :: u64) = 48 \<longleftrightarrow> sz = 48)
    \<and> (ucast sz :: u64) \<le> MAX_TINY_BLOCK_SZ) tiny_classes"
    by (simp add: tiny_classes_def layout_simps)
  then show "(ucast (ucast sz :: u64) :: u32) = sz" "(ucast sz :: u64) \<le> PACKED_SLAB_2LVL_BITV_THRESH \<longleftrightarrow> sz \<le> 48"
    "(ucast sz :: u64) = 16 \<longleftrightarrow> sz = 16" "(ucast sz :: u64) = 32 \<longleftrightarrow> sz = 32" "(ucast sz :: u64) = 48 \<longleftrightarrow> sz = 48"
    "(ucast sz :: u64) \<le> MAX_TINY_BLOCK_SZ"
    using assms by (simp_all add: list_all_iff)
qed

text \<open>The header words are written before the slab goes into its bin.\<close>

lemma blk_0: "blk s sz 0 = s + of_nat (hdr sz)"
  by (simp add: blk_def)

lemma init_lvl2_exec:
  assumes sz: "sz \<in> set tiny_classes" "sz \<le> 48" and v: "\<And>j. j < bit_cells sz \<Longrightarrow> valid_cell m (bitv_cell s j)"
  obtains c1 where "init_lvl2 s (ucast sz) m = Some (blk s sz 0, m\<lparr>cells := c1\<rparr>)"
    and "\<And>j. j < bit_cells sz \<Longrightarrow> c1 (bitv_cell s j) = init_word sz j" "\<And>a. a \<notin> bitv_cell s ` {..<bit_cells sz} \<Longrightarrow> c1 a = cells m a"
proof -
  let ?b = "bitv_cell s"
  define c1 where "c1 = (if sz = 16 then (cells m)(?b 0 := init_word 16 0, ?b 1 := init_word 16 1, ?b 2 := init_word 16 2, ?b 3 := init_word 16 3)
    else (cells m)(?b 0 := init_word sz 0, ?b 1 := init_word sz 1))"
  have neq: "i < 4 \<Longrightarrow> j < 4 \<Longrightarrow> i \<noteq> j \<Longrightarrow> ?b i \<noteq> ?b j" for i j using bitv_cell_inj(1) by blast
  have B: "?b 0 = s + 24" "?b 1 = s + 32" "?b (Suc 0) = s + 32" "?b 2 = s + 40" "?b 3 = s + 48" by (simp_all add: bitv_cell_def)
  have b0: "tiny_block_ptr_n (of_nat (hdr sz)) sz s 0 = blk s sz 0" by (simp add: tiny_block_ptr_n_def blk_def)
  from class_value [OF sz] have "init_lvl2 s (ucast sz) m = Some (blk s sz 0, m\<lparr>cells := c1\<rparr>)"
  proof (elim disjE)
    assume e: "sz = 16"
    have v4: "valid_cell m (?b 0)" "valid_cell m (?b 1)" "valid_cell m (?b 2)" "valid_cell m (?b 3)"
      using v by (simp_all add: e bit_cells_def)
    have "PACKED_SLAB_16_HEADER_SIZE = of_nat (hdr 16)" by (simp add: hdr_def layout_simps)
    moreover have "init_word 16 2 = init_word 16 (Suc 0)" by (simp only: init_words)
    ultimately show ?thesis
      using v4 b0 unfolding B
      by (simp add: init_lvl2_def e init_words [symmetric] exec_simps slab_ps_f2_def c1_def B)
  next
    assume e: "sz = 32"
    have v4: "valid_cell m (?b 0)" "valid_cell m (?b 1)" using v by (simp_all add: e bit_cells_def)
    have "PACKED_SLAB_32_HEADER_SIZE = of_nat (hdr 32)" by (simp add: hdr_def layout_simps)
    moreover have "init_word 16 0 = init_word 32 0" by (simp only: init_words)
    ultimately show ?thesis
      using v4 b0 unfolding B
      by (simp add: init_lvl2_def e init_words [symmetric] exec_simps slab_ps_f2_def c1_def B)
  next
    assume e: "sz = 48"
    have v4: "valid_cell m (?b 0)" "valid_cell m (?b 1)" using v by (simp_all add: e bit_cells_def)
    have "PACKED_SLAB_48_HEADER_SIZE = of_nat (hdr 48)" by (simp add: hdr_def layout_simps)
    moreover have "init_word 16 0 = init_word 48 0" by (simp only: init_words)
    ultimately show ?thesis
      using v4 b0 unfolding B
      by (simp add: init_lvl2_def e init_words [symmetric] exec_simps slab_ps_f2_def c1_def B)
  qed
  moreover have "c1 (?b j) = init_word sz j" if "j < bit_cells sz" for j
  proof (cases "sz = 16")
    case True
    then have "j = 0 \<or> j = 1 \<or> j = 2 \<or> j = 3" using that by (auto simp: bit_cells_def)
    then show ?thesis using neq by (auto simp: c1_def True)
  next
    case False
    then have "j = 0 \<or> j = 1" using that sz by (auto simp: bit_cells_def split: if_splits)
    then show ?thesis using neq [of 0 1] by (auto simp: c1_def False)
  qed
  moreover have "c1 a = cells m a" if "a \<notin> ?b ` {..<bit_cells sz}" for a
  proof (cases "sz = 16")
    case True
    then have "a \<noteq> ?b 0" "a \<noteq> ?b 1" "a \<noteq> ?b 2" "a \<noteq> ?b 3" using that by (auto simp: bit_cells_def)
    then show ?thesis by (simp add: c1_def)
  next
    case False
    then have "a \<noteq> ?b 0" "a \<noteq> ?b 1" using that sz by (auto simp: bit_cells_def)
    then show ?thesis by (simp add: c1_def False)
  qed
  ultimately show thesis by (rule that)
qed

lemma packed_init_exec:
  assumes sz: "sz \<in> set tiny_classes" and s: "page_aligned s"
    and v: "valid_cell m s" "\<And>j. j < bit_cells sz \<Longrightarrow> valid_cell m (bitv_cell s j)"
  obtains c1 where "int_slab_init_packed_and_alloc h s (ucast sz) m = do {
      m \<leftarrow> small_bin_link h s sz (m\<lparr>cells := c1\<rparr>);
      Some (blk s sz 0, m) }"
    and "packed_at c1 s sz {0}" "\<And>a. a \<notin> header_cells s sz \<Longrightarrow> c1 a = cells m a"
    and "bit (c1 s) 0 = bit (cells m s) 0" "bit (c1 s) 1 = bit (cells m s) 1"
proof -
  let ?c = "cells m" and ?b = "bitv_cell s"
  note u = class_u64 [OF sz]
  define s1 where "s1 = set_lane 16 (1 :: u16) (set_lane 8 (size_to_sz_class sz) (set_lane 0 (get_lane 0 (?c s) OR SLAB_PACKED_BIT) (?c s)))"
  have st: "slab_set_flags s SLAB_PACKED_BIT m \<bind> (\<lambda>m. store8 m (s + slab_sz_class) (size_to_sz_class sz) \<bind>
      (\<lambda>m. store16 m (s + slab_alloc_cnt) 1 \<bind> f)) = f (m\<lparr>cells := ?c(s := s1)\<rparr>)" for f :: "memory \<Rightarrow> 'b option"
    using s v(1) by (simp add: slab_set_flags_exec exec_simps layout_simps s1_def)
  have bits: "bit s1 0 = bit (?c s) 0" "bit s1 1 = bit (?c s) 1" "bit s1 2"
    by (simp_all add: s1_def bit_set_lane bit_or_iff bit_get_lane layout_simps bit_numeral_rec)
  have cls: "get_lane 8 s1 = size_to_sz_class sz" "get_lane 16 s1 = (1 :: u16)"
    by (simp_all add: s1_def lane_simps)
  have sb: "?b j \<noteq> s" if "j < bit_cells sz" for j
    using bitv_cell_inj(2) [of j 0 s] that bit_cells_le [of sz] by simp
  show thesis
  proof (cases "sz \<le> 48")
    case True
    define f1 where "f1 = f1_init_bitv ! unat (ucast sz div MALLOC_ALIGN - 1)"
    define s2 where "s2 = set_lane 32 f1 s1"
    let ?m2 = "m\<lparr>cells := ?c(s := s2)\<rparr>"
    have v2: "\<And>j. j < bit_cells sz \<Longrightarrow> valid_cell ?m2 (?b j)" using v(2) by simp
    obtain c1 where c1: "init_lvl2 s (ucast sz) ?m2 = Some (blk s sz 0, ?m2\<lparr>cells := c1\<rparr>)"
      "\<And>j. j < bit_cells sz \<Longrightarrow> c1 (?b j) = init_word sz j" "\<And>a. a \<notin> ?b ` {..<bit_cells sz} \<Longrightarrow> c1 a = cells ?m2 a"
      using init_lvl2_exec [OF sz True v2] by blast
    have "s \<notin> ?b ` {..<bit_cells sz}" using sb by (metis imageE lessThan_iff)
    then have c1s: "c1 s = s2" using c1(3) [of s] by simp
    have st2: "store16 (m\<lparr>cells := ?c(s := s1)\<rparr>) (s + slab_ps_f1) f1 = Some ?m2"
      using s v(1) by (simp add: exec_simps layout_simps s2_def)
    have i3: "unat (ucast sz div MALLOC_ALIGN - 1) < length f1_init_bitv" by (rule init_f1(3) [OF sz True, of 0]) simp
    have ex: "int_slab_init_packed_and_alloc h s (ucast sz) m = do {
      m \<leftarrow> small_bin_link h s sz (m\<lparr>cells := c1\<rparr>); Some (blk s sz 0, m) }"
      unfolding int_slab_init_packed_and_alloc_def u(1) st
      using True i3 by (simp only: u(2) if_True Let_def f1_def [symmetric] st2 bind.bind_lunit c1(1) split) simp
    show thesis
    proof (rule that [OF ex])
      show "packed_at c1 s sz {0}"
      proof (rule packed_at_init [OF sz c1(2)])
        show "bit (c1 s) 2" "get_lane 8 (c1 s) = size_to_sz_class sz" "get_lane 16 (c1 s) = (1 :: u16)"
          "get_lane 32 (c1 s) = f1_init_bitv ! unat (ucast sz div MALLOC_ALIGN - 1)"
          using bits cls by (simp_all add: c1s s2_def lane_simps bit_set_lane f1_def)
      qed
      show "c1 a = ?c a" if "a \<notin> header_cells s sz" for a
        using that c1(3) [of a] by (simp add: header_cells_def)
      show "bit (c1 s) 0 = bit (?c s) 0" "bit (c1 s) 1 = bit (?c s) 1"
        using bits by (simp_all add: c1s s2_def bit_set_lane)
    qed
  next
    case False
    have b1: "bit_cells sz = 1" "hdr sz = 32" and sz48: "48 < sz" using bitv_one [OF sz] False by auto
    define c1 where "c1 = ?c(s := s1, ?b 0 := init_word sz 0)"
    have c1s: "c1 s = s1" using sb [of 0] b1 by (simp add: c1_def)
    have st2: "store64 (m\<lparr>cells := ?c(s := s1)\<rparr>) (s + slab_pl_f) (init_word sz 0) = Some (m\<lparr>cells := c1\<rparr>)"
      using v(2) [of 0] b1(1) by (simp add: exec_simps layout_simps c1_def bitv_cell_def)
    have p: "tiny_block_ptr s sz 0 = blk s sz 0" by (simp add: tiny_block_ptr_def blk_def b1 layout_simps)
    have ex: "int_slab_init_packed_and_alloc h s (ucast sz) m = do {
      m \<leftarrow> small_bin_link h s sz (m\<lparr>cells := c1\<rparr>); Some (blk s sz 0, m) }"
      unfolding int_slab_init_packed_and_alloc_def u(1) st
      using False by (simp only: u(2) if_False Let_def init_word_pl [OF sz sz48] st2 bind.bind_lunit p split)
    show thesis
    proof (rule that [OF ex])
      show "packed_at c1 s sz {0}"
      proof (rule packed_at_init [OF sz])
        show "c1 (?b j) = init_word sz j" if "j < bit_cells sz" for j using that b1(1) by (simp add: c1_def)
        show "bit (c1 s) 2" "get_lane 8 (c1 s) = size_to_sz_class sz" "get_lane 16 (c1 s) = (1 :: u16)"
          using bits cls by (simp_all add: c1s)
      qed (use False in simp)
      show "c1 a = ?c a" if "a \<notin> header_cells s sz" for a
        using that b1(1) by (auto simp: header_cells_def c1_def)
      show "bit (c1 s) 0 = bit (?c s) 0" "bit (c1 s) 1 = bit (?c s) 1" using bits by (simp_all add: c1s)
    qed
  qed
qed

end
