(* ===== verification/Tiny_Heap.thy ===== *)
theory Tiny_Heap
  imports Tiny_Init
begin

unbundle bit_operations_syntax

section \<open>All packed slabs of a heap\<close>

text \<open>
  \<open>T\<close> maps the page of every packed slab to its class and the set of its allocated blocks.
  A packed slab is a used region of one page with at least one allocated block, and it is
  in the small bin of its class exactly when it also has a free one.
\<close>

type_synonym packed_map = "nat \<rightharpoonup> u32 \<times> nat set"

definition tiny_bin :: "packed_map \<Rightarrow> nat \<rightharpoonup> nat" where
  "tiny_bin T k = (case T k of Some (sz, A) \<Rightarrow> if A = {..<nblk sz} then None else Some (unat (packed_bin_idx sz)) | None \<Rightarrow> None)"

definition slabs_ok :: "u64 \<Rightarrow> packed_map \<Rightarrow> (u64 \<Rightarrow> u64) \<Rightarrow> bool" where
  "slabs_ok h T c \<longleftrightarrow> (\<forall>k sz A. T k = Some (sz, A) \<longrightarrow> sz \<in> set tiny_classes \<and> packed_at c (pg h k) sz A)"

definition packed_ok :: "u64 \<Rightarrow> packed_map \<Rightarrow> (nat \<rightharpoonup> nat) \<Rightarrow> (u64 \<Rightarrow> u64) \<Rightarrow> bool" where
  "packed_ok h T U c \<longleftrightarrow> slabs_ok h T c \<and> (\<forall>k sz A. T k = Some (sz, A) \<longrightarrow> A \<noteq> {} \<and> U k = Some 1)
     \<and> (\<exists>bins. small_ok h c bins (tiny_bin T))"

text \<open>The cells that belong to the packed layer, for the classes \<open>C\<close> of the pages.\<close>

definition packed_cells :: "u64 \<Rightarrow> (nat \<rightharpoonup> u32) \<Rightarrow> u64 set" where
  "packed_cells h C = (\<lambda>i. h + (2048 + of_nat i * 8)) ` {..<23}
     \<union> {pg h k + d | k sz d. C k = Some sz \<and> d < of_nat (hdr sz)}"

definition classes :: "packed_map \<Rightarrow> nat \<rightharpoonup> u32" where
  "classes T k = map_option fst (T k)"

definition packed_change :: "u64 \<Rightarrow> (nat \<rightharpoonup> u32) \<Rightarrow> (u64 \<Rightarrow> u64) \<Rightarrow> (u64 \<Rightarrow> u64) \<Rightarrow> bool" where
  "packed_change h C c c' \<longleftrightarrow> (\<forall>a. a \<notin> packed_cells h C \<longrightarrow> c' a = c a)
     \<and> (\<forall>k\<in>dom C. bit (c' (pg h k)) 0 = bit (c (pg h k)) 0 \<and> bit (c' (pg h k)) 1 = bit (c (pg h k)) 1)"

lemma packed_change_trans:
  "packed_change h C c c1 \<Longrightarrow> packed_change h C c1 c2 \<Longrightarrow> packed_change h C c c2"
  by (simp add: packed_change_def)

lemma tiny_bin_dom: "tiny_bin T k = Some b \<Longrightarrow> k \<in> dom T"
  by (auto simp: tiny_bin_def split: option.splits)

lemma bin_idx_of_nat:
  assumes "sz \<in> set tiny_classes"
  shows "packed_bin_idx sz = of_nat (unat (packed_bin_idx sz))" "unat (packed_bin_idx sz) < 23"
  using class_facts(12) [OF assms] by (simp_all add: word_less_nat_alt)

text \<open>Header offsets.\<close>

lemma hdr_bounds: "48 \<le> hdr sz \<or> hdr sz = 32" "hdr sz \<le> 64"
  by (simp_all add: hdr_def)

lemma hdr_less:
  "(d :: u64) < 32 \<Longrightarrow> d < of_nat (hdr sz)" "d < of_nat (hdr sz) \<Longrightarrow> d < 64"
proof -
  have "list_all (\<lambda>n :: nat. (32 :: u64) \<le> of_nat n \<and> of_nat n \<le> (64 :: u64)) [64, 48, 32]" by simp
  moreover have "hdr sz \<in> set [64, 48, 32]" by (simp add: hdr_def)
  ultimately have "(32 :: u64) \<le> of_nat (hdr sz)" "of_nat (hdr sz) \<le> (64 :: u64)" by (simp_all only: list_all_iff)
  then show "(d :: u64) < 32 \<Longrightarrow> d < of_nat (hdr sz)" "d < of_nat (hdr sz) \<Longrightarrow> d < 64" by (meson less_le_trans)+
qed

lemma bitv_cell_offset:
  assumes "sz \<in> set tiny_classes" "j < bit_cells sz"
  shows "24 + of_nat j * 8 < (of_nat (hdr sz) :: u64)"
proof -
  have j: "24 + 8 * bit_cells sz \<le> hdr sz" by (rule class_facts [OF assms(1)])
  have h: "hdr sz \<le> 64" by (rule hdr_bounds)
  have "unat (of_nat (24 + j * 8) :: u64) = 24 + j * 8" "unat (of_nat (hdr sz) :: u64) = hdr sz"
    using j h assms(2) by (simp only: unat_of_nat; simp)+
  moreover have "24 + j * 8 < hdr sz" using j assms(2) by linarith
  ultimately have "(of_nat (24 + j * 8) :: u64) < of_nat (hdr sz)" by (simp only: word_less_nat_alt)
  then show ?thesis by simp
qed

lemma header_cellE:
  assumes "a \<in> header_cells s sz" "sz \<in> set tiny_classes"
  obtains d where "a = s + d" "d < of_nat (hdr sz)" "d \<noteq> 8" "d \<noteq> 16" "d < 4096"
proof -
  from assms(1) consider "a = s" | j where "j < bit_cells sz" "a = bitv_cell s j" by (auto simp: header_cells_def)
  then show thesis
  proof cases
    case 1
    then show thesis using that [of 0] hdr_less(1) [of 0] by simp
  next
    case 2
    have d: "24 + of_nat j * 8 < (of_nat (hdr sz) :: u64)" by (rule bitv_cell_offset [OF assms(2) 2(1)])
    have "j < 4" using 2(1) bit_cells_le [of sz] by simp
    from bitv_cell_inj [OF this this, of s] have "24 + of_nat j * 8 \<noteq> (8 :: u64)" "24 + of_nat j * 8 \<noteq> (16 :: u64)"
      by (simp_all add: bitv_cell_def)
    moreover have "24 + of_nat j * 8 < (4096 :: u64)" using hdr_less(2) [OF d] by (rule less_trans) simp
    ultimately show thesis using that [of "24 + of_nat j * 8"] d 2(2) by (simp add: bitv_cell_def)
  qed
qed

lemma small_cellsE:
  assumes "a \<in> small_cells h D"
  obtains (root) i where "i < 23" "a = h + (2048 + of_nat i * 8)" | (page) j where "j \<in> D" "a = pg h j + 8 \<or> a = pg h j + 16"
  using assms unfolding small_cells_def by blast

lemma header_cells_sep:
  assumes h: "page_aligned h" and k: "1 \<le> k" "k < 2 ^ 52" and a: "a \<in> header_cells (pg h k) sz" "sz \<in> set tiny_classes"
  shows "D \<subseteq> {1..<2 ^ 52} \<Longrightarrow> a \<notin> small_cells h D"
    and "j < 2 ^ 52 \<Longrightarrow> j \<noteq> k \<Longrightarrow> e < 4096 \<Longrightarrow> a \<noteq> pg h j + e"
proof -
  obtain d where d: "a = pg h k + d" "d \<noteq> 8" "d \<noteq> 16" "d < 4096" by (rule header_cellE [OF a])
  show "a \<notin> small_cells h D" if D: "D \<subseteq> {1..<2 ^ 52}"
  proof
    assume "a \<in> small_cells h D"
    then show False
    proof (cases rule: small_cellsE)
      case (root i)
      then show False using small_sep [OF h k(2,1) root(1) d(4)] d(1) root(2) by argo
    next
      case (page j)
      have "j < 2 ^ 52" using page(1) D by auto
      then show False
        using d page(2) pg_offset_eq_iff [OF h k(2) _ d(4), of j 8] pg_offset_eq_iff [OF h k(2) _ d(4), of j 16] by auto
    qed
  qed
  show "a \<noteq> pg h j + e" if "j < 2 ^ 52" "j \<noteq> k" "e < 4096"
    using pg_offset_eq_iff [OF h k(2) that(1) d(4) that(3)] that(2) d(1) by simp
qed

lemma small_cells_packed:
  assumes "a \<in> small_cells h D" "D \<subseteq> dom C"
  shows "a \<in> packed_cells h C"
proof -
  from assms(1) show ?thesis
  proof (cases rule: small_cellsE)
    case root
    then show ?thesis by (simp add: packed_cells_def)
  next
    case (page j)
    obtain sz where 2: "C j = Some sz" "a = pg h j + 8 \<or> a = pg h j + 16" using page assms(2) by auto
    have "(8 :: u64) < of_nat (hdr sz)" "(16 :: u64) < of_nat (hdr sz)" by (rule hdr_less(1), simp)+
    then show ?thesis using 2 unfolding packed_cells_def by blast
  qed
qed

lemma header_cells_packed:
  assumes "a \<in> header_cells (pg h k) sz" "sz \<in> set tiny_classes" "C k = Some sz"
  shows "a \<in> packed_cells h C"
proof -
  obtain d where "a = pg h k + d" "d < of_nat (hdr sz)" by (rule header_cellE [OF assms(1,2)])
  then show ?thesis using assms(3) unfolding packed_cells_def by blast
qed

lemma page_start_packed:
  assumes "page_aligned h" "dom C \<subseteq> {1..<2 ^ 52}" "k < 2 ^ 52" "1 \<le> k" "pg h k \<in> packed_cells h C"
  shows "k \<in> dom C"
proof -
  from assms(5) consider i where "i < 23" "pg h k = h + (2048 + of_nat i * 8)"
    | j sz d where "C j = Some sz" "d < of_nat (hdr sz)" "pg h k = pg h j + d" unfolding packed_cells_def by blast
  then show ?thesis
  proof cases
    case 1
    then show ?thesis using small_sep [OF assms(1,3,4) 1(1), of 0] by simp
  next
    case 2
    have d: "d < 4096" using hdr_less(2) [OF 2(2)] by (rule less_trans) simp
    have j: "j < 2 ^ 52" using assms(2) 2(1) by auto
    have "pg h k + 0 = pg h j + d" using 2(3) by simp
    then have "k = j" using pg_offset_eq_iff [OF assms(1,3) j _ d, of 0] by simp
    then show ?thesis using 2(1) by auto
  qed
qed

text \<open>What the packed layer writes is among the cells that the slab layer leaves to it.\<close>

lemma packed_change_client:
  assumes ch: "packed_change h C c c'" and h: "page_aligned h" and C: "\<And>k. k \<in> dom C \<Longrightarrow> U k = Some 1"
    and U: "\<And>k n. U k = Some n \<Longrightarrow> 1 \<le> k \<and> k < 2 ^ 52"
  shows "client_change h U c c'"
  unfolding client_change_def
proof (intro conjI allI impI ballI)
  fix a assume a: "a \<notin> client_cells h U"
  have "a \<notin> packed_cells h C"
  proof
    assume "a \<in> packed_cells h C"
    then consider i where "i < 23" "a = h + (2048 + of_nat i * 8)"
      | j sz d where "C j = Some sz" "d < of_nat (hdr sz)" "a = pg h j + d" unfolding packed_cells_def by blast
    then show False
    proof cases
      case 1
      note o = small_offsets [OF 1(1)]
      have "2048 + of_nat i * 8 < (4072 :: u64)" "2048 + of_nat i * 8 \<noteq> (4024 :: u64)" "2048 + of_nat i * 8 \<noteq> (4032 :: u64)"
        using o(5) by (auto intro: less_trans)
      then show False using a 1(2) client_header [OF o(4)] by blast
    next
      case 2
      have "d < 4096" using hdr_less(2) [OF 2(2)] by (rule less_trans) simp
      moreover have "U j = Some 1" using C 2(1) by blast
      ultimately show False using a 2(3) client_page [of U j 1 j d h] by simp
    qed
  qed
  then show "c' a = c a" using ch by (simp add: packed_change_def)
next
  have D: "dom C \<subseteq> {1..<2 ^ 52}" using C U by fastforce
  fix k assume "k \<in> dom U"
  then have k: "1 \<le> k" "k < 2 ^ 52" using U by auto
  have "k \<in> dom C \<or> c' (pg h k) = c (pg h k)"
    using ch page_start_packed [OF h D k(2,1)] by (auto simp: packed_change_def)
  then show "bit (c' (pg h k)) 0 = bit (c (pg h k)) 0" "bit (c' (pg h k)) 1 = bit (c (pg h k)) 1"
    using ch by (auto simp: packed_change_def)
qed

end
