(* ===== verification/Tiny_Step.thy ===== *)
theory Tiny_Step
  imports Tiny_Heap
begin

unbundle bit_operations_syntax

section \<open>Steps of a packed slab in its heap\<close>

definition block_step ::
  "u64 \<Rightarrow> packed_map \<Rightarrow> nat \<Rightarrow> u32 \<Rightarrow> nat set \<Rightarrow> (u64 \<Rightarrow> u64) \<Rightarrow> (u64 \<Rightarrow> u64) \<Rightarrow> bool" where
  "block_step h T k sz A c c' \<longleftrightarrow> packed_at c' (pg h k) sz A
     \<and> (\<exists>bins. small_ok h c' bins (tiny_bin (T(k \<mapsto> (sz, A)))))
     \<and> (\<forall>a. a \<notin> header_cells (pg h k) sz \<union> small_cells h (insert k (dom T)) \<longrightarrow> c' a = c a)
     \<and> (bit (c' (pg h k)) 0 = bit (c (pg h k)) 0) \<and> (bit (c' (pg h k)) 1 = bit (c (pg h k)) 1)"

lemma tiny_bin_upd:
  "tiny_bin (T(k \<mapsto> (sz, A))) = (tiny_bin T)(k := if A = {..<nblk sz} then None else Some (unat (packed_bin_idx sz)))"
  by (simp add: tiny_bin_def fun_eq_iff)

lemma classes_upd: "classes (T(k \<mapsto> (sz, A))) = (classes T)(k \<mapsto> sz)"
  by (simp add: classes_def fun_eq_iff)

lemma dom_classes [simp]: "dom (classes T) = dom T"
  by (auto simp: classes_def)

lemma slabs_okD: "slabs_ok h T c \<Longrightarrow> T k = Some (sz, A) \<Longrightarrow> sz \<in> set tiny_classes \<and> packed_at c (pg h k) sz A"
  by (simp add: slabs_ok_def)

lemma packed_at_same:
  assumes "packed_at c s sz A" "\<And>a. a \<in> header_cells s sz \<Longrightarrow> c' a = c a"
  shows "packed_at c' s sz A"
  by (rule packed_at_frame [OF assms(1)]) (auto simp: assms(2) header_cells_def)

lemma header_cells_start: "s \<in> header_cells s sz"
  by (simp add: header_cells_def)

lemma block_step_ok:
  assumes st: "block_step h T k sz A c c'" and ok: "slabs_ok h T c" and h: "page_aligned h"
    and D: "dom T \<subseteq> {1..<2 ^ 52}" and k: "1 \<le> k" "k < 2 ^ 52" and sz: "sz \<in> set tiny_classes"
  shows "slabs_ok h (T(k \<mapsto> (sz, A))) c'" and "packed_change h (classes (T(k \<mapsto> (sz, A)))) c c'"
proof -
  let ?D = "insert k (dom T)"
  have D': "?D \<subseteq> {1..<2 ^ 52}" using D k by auto
  have out: "c' a = c a" if "a \<notin> header_cells (pg h k) sz" "a \<notin> small_cells h ?D" for a
    using st that by (simp add: block_step_def)
  have other: "c' a = c a" if j: "T j = Some (sj, B)" "j \<noteq> k" and a: "a \<in> header_cells (pg h j) sj" for j sj B a
  proof (rule out)
    have jb: "1 \<le> j" "j < 2 ^ 52" using D j(1) by auto
    have sj: "sj \<in> set tiny_classes" using slabs_okD [OF ok j(1)] by simp
    obtain e where e: "a = pg h j + e" "e < 4096" by (rule header_cellE [OF a sj])
    show "a \<notin> header_cells (pg h k) sz" using header_cells_sep(2) [OF h k _ sz jb(2) j(2) e(2)] e(1) by blast
    show "a \<notin> small_cells h ?D" by (rule header_cells_sep(1) [OF h jb a sj D'])
  qed
  show "slabs_ok h (T(k \<mapsto> (sz, A))) c'"
    unfolding slabs_ok_def
  proof (intro allI impI)
    fix j sj B assume T: "(T(k \<mapsto> (sz, A))) j = Some (sj, B)"
    show "sj \<in> set tiny_classes \<and> packed_at c' (pg h j) sj B"
    proof (cases "j = k")
      case True
      then show ?thesis using T st sz by (simp add: block_step_def)
    next
      case False
      then have Tj: "T j = Some (sj, B)" using T by simp
      note o = slabs_okD [OF ok Tj]
      have "packed_at c' (pg h j) sj B" by (rule packed_at_same [OF conjunct2 [OF o]]) (rule other [OF Tj False])
      then show ?thesis using o by blast
    qed
  qed
  let ?C = "classes (T(k \<mapsto> (sz, A)))"
  show "packed_change h ?C c c'"
    unfolding packed_change_def
  proof (intro conjI allI impI ballI)
    fix a assume a: "a \<notin> packed_cells h ?C"
    show "c' a = c a"
    proof (rule out)
      show "a \<notin> header_cells (pg h k) sz" using header_cells_packed [OF _ sz, of a h k ?C] a by (auto simp: classes_upd)
      show "a \<notin> small_cells h ?D" using small_cells_packed [of a h ?D ?C] a by auto
    qed
  next
    fix j assume j: "j \<in> dom ?C"
    have "(bit (c' (pg h j)) 0 = bit (c (pg h j)) 0) \<and> (bit (c' (pg h j)) 1 = bit (c (pg h j)) 1)"
    proof (cases "j = k")
      case True
      then show ?thesis using st by (simp add: block_step_def)
    next
      case False
      then obtain sj B where "T j = Some (sj, B)" using j by auto
      then have "c' (pg h j) = c (pg h j)" by (rule other [OF _ False header_cells_start])
      then show ?thesis by simp
    qed
    then show "bit (c' (pg h j)) 0 = bit (c (pg h j)) 0" "bit (c' (pg h j)) 1 = bit (c (pg h j)) 1" by blast+
  qed
qed

lemma small_bin_cells_sub:
  assumes "b < 23" "K \<subseteq> D"
  shows "small_bin_cells h b K \<subseteq> small_cells h D"
proof -
  have "h + (2048 + of_nat b * 8) \<in> (\<lambda>i. h + (2048 + of_nat i * 8)) ` {..<23}" using assms(1) by blast
  moreover have "(\<lambda>k. pg h k + 8) ` K \<subseteq> (\<lambda>k. pg h k + 8) ` D" "(\<lambda>k. pg h k + 16) ` K \<subseteq> (\<lambda>k. pg h k + 16) ` D"
    using assms(2) by (intro image_mono; assumption)+
  ultimately show ?thesis unfolding small_bin_cells_def small_cells_def by blast
qed

text \<open>Header writes do not disturb the small bins, and relinking does not disturb headers.\<close>

lemma small_ok_header:
  assumes ok: "small_ok h c bins B" and h: "page_aligned h" and k: "1 \<le> k" "k < 2 ^ 52" and sz: "sz \<in> set tiny_classes"
    and B: "dom B \<subseteq> {1..<2 ^ 52}" and fr: "\<And>a. a \<notin> header_cells (pg h k) sz \<Longrightarrow> c' a = c a"
  shows "small_ok h c' bins B"
proof (rule small_ok_frame [OF ok])
  fix a assume a: "a \<in> small_cells h (dom B)"
  then show "c' a = c a" using header_cells_sep(1) [OF h k _ sz B] fr by blast
qed

lemma header_relink:
  assumes h: "page_aligned h" and k: "1 \<le> k" "k < 2 ^ 52" and sz: "sz \<in> set tiny_classes" and b: "b < 23"
    and K: "K \<subseteq> {1..<2 ^ 52}" and fr: "\<And>a. a \<notin> small_bin_cells h b K \<Longrightarrow> c' a = c a" and a: "a \<in> header_cells (pg h k) sz"
  shows "c' a = c a"
  using header_cells_sep(1) [OF h k a sz K] small_bin_cells_sub [OF b subset_refl, of h K] fr by blast

lemma header_valid:
  assumes "shape h N m" "k < N" "sz \<in> set tiny_classes"
  shows "valid_cell m (pg h k)" "j < bit_cells sz \<Longrightarrow> valid_cell m (bitv_cell (pg h k) j)"
proof -
  show "valid_cell m (pg h k)" by (rule shape_valid0 [OF assms(1,2)])
  assume j: "j < bit_cells sz"
  then have "j < 4" using bit_cells_le [of sz] by simp
  have "list_all (\<lambda>j. (24 + of_nat j * 8) AND 7 = (0 :: u64) \<and> 24 + of_nat j * 8 < (4096 :: u64)) [0..<4]"
    by (simp add: upt_rec)
  then have "(24 + of_nat j * 8) AND 7 = (0 :: u64) \<and> 24 + of_nat j * 8 < (4096 :: u64)"
    using \<open>j < 4\<close> by (simp only: list_all_iff set_upt) auto
  then show "valid_cell m (bitv_cell (pg h k) j)"
    unfolding bitv_cell_def using shape_valid [OF assms(1,2)] by blast
qed

subsection \<open>Allocation from a slab with a free block\<close>

definition alloc_switch :: "u64 \<Rightarrow> u32 \<Rightarrow> memory \<Rightarrow> (u64 \<times> memory) option" where
  "alloc_switch s sz m = (if sz = 16 then packed_alloc_16 s m else if sz = 32 then packed_alloc_32 s m
     else if sz = 48 then packed_alloc_48 s m else packed_alloc s sz m)"

lemma alloc_switch_n:
  assumes "sz \<in> set tiny_classes" "sz \<le> 48"
  shows "alloc_switch s sz = packed_alloc_n (of_nat (hdr sz)) sz s"
  using class_value [OF assms]
  by (auto simp: alloc_switch_def hdr_def packed_alloc_16_def packed_alloc_32_def packed_alloc_48_def layout_simps fun_eq_iff)

lemma alloc_switch_pl: "48 < sz \<Longrightarrow> alloc_switch s sz = packed_alloc s sz"
  by (auto simp: alloc_switch_def fun_eq_iff)

lemma alloc_switch_ok:
  assumes sh: "shape h N m" and ok: "slabs_ok h T (cells m)" and bok: "small_ok h (cells m) bins (tiny_bin T)"
    and D: "dom T \<subseteq> {1..<N}" and k: "T k = Some (sz, A)" and A: "A \<noteq> {..<nblk sz}"
  obtains i c' where "i < nblk sz" "i \<notin> A" "alloc_switch (pg h k) sz m = Some (blk (pg h k) sz i, m\<lparr>cells := c'\<rparr>)"
    and "block_step h T k sz (insert i A) (cells m) c'"
proof -
  let ?c = "cells m" and ?s = "pg h k" and ?B = "tiny_bin T" and ?b = "unat (packed_bin_idx sz)"
  let ?K = "{j. ?B j = Some ?b}"
  have h: "page_aligned h" by (rule shape_aligned [OF sh])
  have s: "page_aligned ?s" using h by simp
  have kN: "1 \<le> k" "k < N" using k D by auto
  have k52: "k < 2 ^ 52" by (rule shape_bound [OF sh kN(2)])
  have sz: "sz \<in> set tiny_classes" and pk: "packed_at ?c ?s sz A" using slabs_okD [OF ok k] by simp_all
  have DB: "dom ?B \<subseteq> dom T" using tiny_bin_dom by blast
  have B: "dom ?B \<subseteq> {1..<N}" using DB D by blast
  have D52: "dom T \<subseteq> {1..<2 ^ 52}"
  proof
    fix j assume "j \<in> dom T"
    then have "1 \<le> j" "j < N" using D by auto
    then show "j \<in> {1..<2 ^ 52}" using shape_bound [OF sh] by simp
  qed
  have B52: "dom ?B \<subseteq> {1..<2 ^ 52}" and K52: "?K \<subseteq> {1..<2 ^ 52}" using DB D52 by auto
  have b: "?b < 23" by (rule bin_idx_of_nat(2) [OF sz])
  have Bk: "?B k = Some ?b" using k A by (simp add: tiny_bin_def)
  have KD: "?K \<subseteq> insert k (dom T)" using tiny_bin_dom by fastforce
  note v = header_valid [OF sh kN(2) sz]
  have start: "?s \<in> header_cells ?s sz" by (rule header_cells_start)
  have Bi: "tiny_bin (T(k \<mapsto> (sz, insert i A))) = (if insert i A = {..<nblk sz} then ?B(k := None) else ?B)" for i
    using Bk by (simp add: tiny_bin_upd fun_upd_idem)
  show thesis
  proof (cases "sz \<le> 48")
    case True
    obtain i c1 where i: "i < nblk sz" "i \<notin> A" "packed_at c1 ?s sz (insert i A)"
      and ex: "packed_alloc_n (of_nat (hdr sz)) sz ?s m = do {
        m \<leftarrow> (if insert i A = {..<nblk sz} then small_bin_unlink ?s (m\<lparr>cells := c1\<rparr>) else Some (m\<lparr>cells := c1\<rparr>));
        Some (blk ?s sz i, m) }"
      and c1: "\<And>a. a \<notin> header_cells ?s sz \<Longrightarrow> c1 a = ?c a" "bit (c1 ?s) 0 = bit (?c ?s) 0" "bit (c1 ?s) 1 = bit (?c ?s) 1"
      by (rule packed_alloc_n_exec [OF pk sz True s v A], assumption) (rule that; assumption)
    have bok1: "small_ok h c1 bins ?B" by (rule small_ok_header [OF bok h kN(1) k52 sz B52 c1(1)])
    show thesis
    proof (cases "insert i A = {..<nblk sz}")
      case full: True
      have sh1: "shape h N (m\<lparr>cells := c1\<rparr>)" using sh by simp
      have bok1': "small_ok h (cells (m\<lparr>cells := c1\<rparr>)) bins ?B" using bok1 by simp
      obtain c' bins' where u: "small_bin_unlink ?s (m\<lparr>cells := c1\<rparr>) = Some (m\<lparr>cells := c1\<rparr>\<lparr>cells := c'\<rparr>)"
        "small_ok h c' bins' (?B(k := None))" and out: "\<And>a. a \<notin> small_bin_cells h ?b ?K \<Longrightarrow> c' a = cells (m\<lparr>cells := c1\<rparr>) a"
        by (rule small_bin_unlink_ok [OF sh1 bok1' B Bk]) blast
      have out1: "c' a = c1 a" if "a \<notin> small_bin_cells h ?b ?K" for a using out [OF that] by simp
      have hd: "c' a = c1 a" if "a \<in> header_cells ?s sz" for a
        by (rule header_relink [OF h kN(1) k52 sz b K52 out1 that])
      have "block_step h T k sz (insert i A) ?c c'"
        unfolding block_step_def
      proof (intro conjI allI impI)
        show "packed_at c' ?s sz (insert i A)" by (rule packed_at_same [OF i(3) hd])
        show "\<exists>bins. small_ok h c' bins (tiny_bin (T(k \<mapsto> (sz, insert i A))))" using u(2) unfolding Bi if_P [OF full] by blast
        show "c' a = ?c a" if "a \<notin> header_cells ?s sz \<union> small_cells h (insert k (dom T))" for a
          using that out1 [of a] c1(1) [of a] small_bin_cells_sub [OF b KD, of h] by auto
      qed (use hd [OF start] c1 in simp_all)
      moreover have "alloc_switch ?s sz m = Some (blk ?s sz i, m\<lparr>cells := c'\<rparr>)"
        using full u(1) by (simp add: alloc_switch_n [OF sz True] ex)
      ultimately show thesis using that i by blast
    next
      case False
      have "block_step h T k sz (insert i A) ?c c1"
        unfolding block_step_def Bi if_not_P [OF False] using i(3) bok1 c1 by blast
      moreover have "alloc_switch ?s sz m = Some (blk ?s sz i, m\<lparr>cells := c1\<rparr>)"
        using False by (simp add: alloc_switch_n [OF sz True] ex)
      ultimately show thesis using that i by blast
    qed
  next
    case False
    then have s48: "48 < sz" by simp
    note b1 = bitv_one [OF sz s48]
    have v0: "valid_cell m (bitv_cell ?s 0)" using v(2) [of 0] b1(1) by simp
    have b0: "bitv_cell ?s 0 \<in> header_cells ?s sz" using b1(1) by (auto simp: header_cells_def)
    obtain i x y where i: "i < nblk sz" "i \<notin> A"
      and pk1: "\<And>c2. c2 ?s = ?c ?s \<Longrightarrow> c2 (bitv_cell ?s 0) = ?c (bitv_cell ?s 0) \<Longrightarrow>
        packed_at (c2(?s := x, bitv_cell ?s 0 := y)) ?s sz (insert i A)"
      and bits: "bit x 0 = bit (?c ?s) 0" "bit x 1 = bit (?c ?s) 1"
      and ex: "\<And>c2. (if insert i A = {..<nblk sz} then small_bin_unlink ?s m else Some m) = Some (m\<lparr>cells := c2\<rparr>) \<Longrightarrow>
        c2 ?s = ?c ?s \<Longrightarrow> c2 (bitv_cell ?s 0) = ?c (bitv_cell ?s 0) \<Longrightarrow>
        packed_alloc ?s sz m = Some (blk ?s sz i, m\<lparr>cells := c2(?s := x, bitv_cell ?s 0 := y)\<rparr>)"
      by (rule packed_alloc_exec [OF pk sz s48 s v(1) v0 A]) (rule that; assumption)
    obtain c2 bins' where u: "(if insert i A = {..<nblk sz} then small_bin_unlink ?s m else Some m) = Some (m\<lparr>cells := c2\<rparr>)"
      "small_ok h c2 bins' (tiny_bin (T(k \<mapsto> (sz, insert i A))))"
      and out: "\<And>a. a \<notin> small_bin_cells h ?b ?K \<Longrightarrow> c2 a = ?c a"
    proof (cases "insert i A = {..<nblk sz}")
      case True
      obtain c2 bins' where "small_bin_unlink ?s m = Some (m\<lparr>cells := c2\<rparr>)"
        "small_ok h c2 bins' (?B(k := None))" "\<And>a. a \<notin> small_bin_cells h ?b ?K \<Longrightarrow> c2 a = ?c a"
        by (rule small_bin_unlink_ok [OF sh bok B Bk]) blast
      then show thesis using that [of c2 bins'] unfolding Bi if_P [OF True] by blast
    next
      case False
      then show thesis using that [of ?c bins] bok unfolding Bi if_not_P [OF False] by (simp add: cells_update)
    qed
    have hd: "c2 a = ?c a" if "a \<in> header_cells ?s sz" for a
      by (rule header_relink [OF h kN(1) k52 sz b K52 out that])
    note e2 = hd [OF start] hd [OF b0]
    let ?c' = "c2(?s := x, bitv_cell ?s 0 := y)"
    have "block_step h T k sz (insert i A) ?c ?c'"
      unfolding block_step_def
    proof (intro conjI allI impI)
      show "packed_at ?c' ?s sz (insert i A)" by (rule pk1 [OF e2])
      have dB: "dom (tiny_bin (T(k \<mapsto> (sz, insert i A)))) \<subseteq> {1..<2 ^ 52}"
        using B52 unfolding Bi by (auto split: if_splits)
      have "small_ok h ?c' bins' (tiny_bin (T(k \<mapsto> (sz, insert i A))))"
        by (rule small_ok_header [OF u(2) h kN(1) k52 sz dB]) (use start b0 in auto)
      then show "\<exists>bins. small_ok h ?c' bins (tiny_bin (T(k \<mapsto> (sz, insert i A))))" by blast
      show "?c' a = ?c a" if "a \<notin> header_cells ?s sz \<union> small_cells h (insert k (dom T))" for a
        using that start b0 out [of a] small_bin_cells_sub [OF b KD, of h] by auto
      have "?s \<noteq> bitv_cell ?s 0" using bitv_cell_inj(3) [of 0 0 ?s] by simp
      then show "bit (?c' ?s) 0 = bit (?c ?s) 0" "bit (?c' ?s) 1 = bit (?c ?s) 1" using bits by simp_all
    qed
    moreover have "alloc_switch ?s sz m = Some (blk ?s sz i, m\<lparr>cells := ?c'\<rparr>)"
      unfolding alloc_switch_pl [OF s48] by (rule ex [OF u(1) e2])
    ultimately show thesis using that i by blast
  qed
qed

subsection \<open>Freeing a block, and a new slab\<close>

lemma free_switch_n:
  assumes "sz \<in> set tiny_classes" "sz \<le> 48"
  shows "packed_free_switch h s p (size_to_sz_class sz) = packed_free_n (of_nat (hdr sz)) sz h s p"
proof -
  have "size_to_sz_class 16 = 0" "size_to_sz_class 32 = 1" "size_to_sz_class 48 = 2"
    by (simp_all add: size_to_sz_class_def layout_simps)
  then show ?thesis
    using class_value [OF assms]
    by (auto simp: packed_free_switch_def hdr_def packed_free_16_def packed_free_32_def packed_free_48_def layout_simps fun_eq_iff)
qed

lemma free_switch_pl:
  assumes "sz \<in> set tiny_classes" "48 < sz"
  shows "packed_free_switch h s p (size_to_sz_class sz) = packed_free h s p (size_to_sz_class sz)"
proof -
  have "size_to_sz_class sz \<noteq> 0" "size_to_sz_class sz \<noteq> 1" "size_to_sz_class sz \<noteq> 2"
    using class_facts(14-16) [OF assms(1)] bitv_one(5-7) [OF assms] by simp_all
  then show ?thesis by (simp add: packed_free_switch_def fun_eq_iff)
qed

text \<open>Both kinds of slab are linked first when they were full.\<close>

lemma free_switch_ok:
  assumes sh: "shape h N m" and ok: "slabs_ok h T (cells m)" and bok: "small_ok h (cells m) bins (tiny_bin T)"
    and D: "dom T \<subseteq> {1..<N}" and k: "T k = Some (sz, A)" and i: "i \<in> A"
  obtains c' where "packed_free_switch h (pg h k) (blk (pg h k) sz i) (size_to_sz_class sz) m
      = free_tail h (pg h k) (A - {i}) (m\<lparr>cells := c'\<rparr>)"
    and "block_step h T k sz (A - {i}) (cells m) c'"
proof -
  let ?c = "cells m" and ?s = "pg h k" and ?B = "tiny_bin T" and ?b = "unat (packed_bin_idx sz)"
  let ?K = "insert k {j. ?B j = Some ?b}"
  have h: "page_aligned h" by (rule shape_aligned [OF sh])
  have s: "page_aligned ?s" using h by simp
  have kN: "1 \<le> k" "k < N" using k D by auto
  have k52: "k < 2 ^ 52" by (rule shape_bound [OF sh kN(2)])
  have sz: "sz \<in> set tiny_classes" and pk: "packed_at ?c ?s sz A" using slabs_okD [OF ok k] by simp_all
  have DB: "dom ?B \<subseteq> dom T" using tiny_bin_dom by blast
  have B: "dom ?B \<subseteq> {1..<N}" using DB D by blast
  have D52: "dom T \<subseteq> {1..<2 ^ 52}"
  proof
    fix j assume "j \<in> dom T"
    then have "1 \<le> j" "j < N" using D by auto
    then show "j \<in> {1..<2 ^ 52}" using shape_bound [OF sh] by simp
  qed
  have K52: "?K \<subseteq> {1..<2 ^ 52}" using DB D52 kN k52 by auto
  have b: "packed_bin_idx sz = of_nat ?b" "?b < 23" by (rule bin_idx_of_nat [OF sz])+
  have KD: "?K \<subseteq> insert k (dom T)" using tiny_bin_dom by fastforce
  note v = header_valid [OF sh kN(2) sz]
  have start: "?s \<in> header_cells ?s sz" by (rule header_cells_start)
  have iN: "i < nblk sz" using pk i by (auto simp: packed_at_def)
  then have ne: "A - {i} \<noteq> {..<nblk sz}" by blast
  have B': "tiny_bin (T(k \<mapsto> (sz, A - {i}))) = ?B(k \<mapsto> ?b)" unfolding tiny_bin_upd if_not_P [OF ne] ..
  obtain c2 bins' where u: "(if A = {..<nblk sz} then small_bin_link h ?s sz m else Some m) = Some (m\<lparr>cells := c2\<rparr>)"
    "small_ok h c2 bins' (?B(k \<mapsto> ?b))" and out: "\<And>a. a \<notin> small_bin_cells h ?b ?K \<Longrightarrow> c2 a = ?c a"
  proof (cases "A = {..<nblk sz}")
    case True
    then have "?B k = None" using k by (simp add: tiny_bin_def)
    then obtain c2 bins' where "small_bin_link h ?s sz m = Some (m\<lparr>cells := c2\<rparr>)"
      "small_ok h c2 bins' (?B(k \<mapsto> ?b))" "\<And>a. a \<notin> small_bin_cells h ?b ?K \<Longrightarrow> c2 a = ?c a"
      by (rule small_bin_link_ok [OF sh bok B _ kN b]) (rule that; assumption)
    then show thesis using that [of c2 bins'] unfolding if_P [OF True] by blast
  next
    case False
    then have "?B k = Some ?b" using k by (simp add: tiny_bin_def)
    then have "?B(k \<mapsto> ?b) = ?B" by (simp add: fun_upd_idem)
    then show thesis using that [of ?c bins] bok unfolding if_not_P [OF False] by (simp add: cells_update)
  qed
  have hd: "c2 a = ?c a" if "a \<in> header_cells ?s sz" for a
    by (rule header_relink [OF h kN(1) k52 sz b(2) K52 out that])
  have step: "block_step h T k sz (A - {i}) ?c c1"
    if pk1: "packed_at c1 ?s sz (A - {i})" and c1: "\<And>a. a \<notin> header_cells ?s sz \<Longrightarrow> c1 a = c2 a"
      and bits: "bit (c1 ?s) 0 = bit (?c ?s) 0" "bit (c1 ?s) 1 = bit (?c ?s) 1" for c1
    unfolding block_step_def
  proof (intro conjI allI impI)
    have "dom (?B(k \<mapsto> ?b)) \<subseteq> {1..<2 ^ 52}" using DB D52 kN k52 by auto
    then have "small_ok h c1 bins' (?B(k \<mapsto> ?b))" by (rule small_ok_header [OF u(2) h kN(1) k52 sz _ c1])
    then show "\<exists>bins. small_ok h c1 bins (tiny_bin (T(k \<mapsto> (sz, A - {i}))))" unfolding B' by blast
    show "c1 a = ?c a" if "a \<notin> header_cells ?s sz \<union> small_cells h (insert k (dom T))" for a
      using that c1 [of a] out [of a] small_bin_cells_sub [OF b(2) KD, of h] by auto
  qed (use pk1 bits in simp_all)
  show thesis
  proof (cases "sz \<le> 48")
    case True
    obtain c1 where "packed_free_n (of_nat (hdr sz)) sz h ?s (blk ?s sz i) m = free_tail h ?s (A - {i}) (m\<lparr>cells := c1\<rparr>)"
      and c1: "packed_at c1 ?s sz (A - {i})" "\<And>a. a \<notin> header_cells ?s sz \<Longrightarrow> c1 a = c2 a"
        "bit (c1 ?s) 0 = bit (?c ?s) 0" "bit (c1 ?s) 1 = bit (?c ?s) 1"
      by (rule packed_free_n_exec [OF pk sz True s v i u(1) hd], assumption, assumption) (rule that; assumption)
    then show thesis using that [OF _ step [OF c1]] unfolding free_switch_n [OF sz True] by blast
  next
    case False
    then have s48: "48 < sz" by simp
    have v0: "valid_cell m (bitv_cell ?s 0)" using v(2) [of 0] bitv_one(1) [OF sz s48] by simp
    obtain c1 where "packed_free h ?s (blk ?s sz i) (size_to_sz_class sz) m = free_tail h ?s (A - {i}) (m\<lparr>cells := c1\<rparr>)"
      and c1: "packed_at c1 ?s sz (A - {i})" "\<And>a. a \<notin> header_cells ?s sz \<Longrightarrow> c1 a = c2 a"
        "bit (c1 ?s) 0 = bit (?c ?s) 0" "bit (c1 ?s) 1 = bit (?c ?s) 1"
      by (rule packed_free_exec [OF pk sz s48 s v(1) v0 i u(1) hd], assumption) (rule that; assumption)
    then show thesis using that [OF _ step [OF c1]] unfolding free_switch_pl [OF sz s48] by blast
  qed
qed

text \<open>A fresh slab becomes a packed slab with its first block allocated.\<close>

lemma packed_init_ok:
  assumes sh: "shape h N m" and bok: "small_ok h (cells m) bins (tiny_bin T)"
    and D: "dom T \<subseteq> {1..<N}" and k: "T k = None" "1 \<le> k" "k < N" and sz: "sz \<in> set tiny_classes"
  obtains c' where "int_slab_init_packed_and_alloc h (pg h k) (ucast sz) m = Some (blk (pg h k) sz 0, m\<lparr>cells := c'\<rparr>)"
    and "block_step h T k sz {0} (cells m) c'"
proof -
  let ?c = "cells m" and ?s = "pg h k" and ?B = "tiny_bin T" and ?b = "unat (packed_bin_idx sz)"
  let ?K = "insert k {j. ?B j = Some ?b}"
  have h: "page_aligned h" by (rule shape_aligned [OF sh])
  have s: "page_aligned ?s" using h by simp
  have k52: "k < 2 ^ 52" by (rule shape_bound [OF sh k(3)])
  have DB: "dom ?B \<subseteq> dom T" using tiny_bin_dom by blast
  have B: "dom ?B \<subseteq> {1..<N}" using DB D by blast
  have B52: "dom ?B \<subseteq> {1..<2 ^ 52}"
  proof
    fix j assume "j \<in> dom ?B"
    then have "1 \<le> j" "j < N" using B by auto
    then show "j \<in> {1..<2 ^ 52}" using shape_bound [OF sh] by simp
  qed
  have K52: "?K \<subseteq> {1..<2 ^ 52}" using B52 k k52 by auto
  have b: "packed_bin_idx sz = of_nat ?b" "?b < 23" by (rule bin_idx_of_nat [OF sz])+
  have KD: "?K \<subseteq> insert k (dom T)" using tiny_bin_dom by fastforce
  have n8: "8 \<le> nblk sz" by (rule class_facts [OF sz])
  have "1 \<in> {..<nblk sz}" using n8 by simp
  then have ne: "{0} \<noteq> {..<nblk sz}" by (metis singletonD zero_neq_one)
  have B': "tiny_bin (T(k \<mapsto> (sz, {0}))) = ?B(k \<mapsto> ?b)" unfolding tiny_bin_upd if_not_P [OF ne] ..
  obtain c1 where ex: "int_slab_init_packed_and_alloc h ?s (ucast sz) m = do {
      m \<leftarrow> small_bin_link h ?s sz (m\<lparr>cells := c1\<rparr>); Some (blk ?s sz 0, m) }"
    and c1: "packed_at c1 ?s sz {0}" "\<And>a. a \<notin> header_cells ?s sz \<Longrightarrow> c1 a = ?c a"
      "bit (c1 ?s) 0 = bit (?c ?s) 0" "bit (c1 ?s) 1 = bit (?c ?s) 1"
    by (rule packed_init_exec [OF sz s header_valid [OF sh k(3) sz]], assumption) (rule that; assumption)
  have bok1: "small_ok h c1 bins ?B" by (rule small_ok_header [OF bok h k(2) k52 sz B52 c1(2)])
  have sh1: "shape h N (m\<lparr>cells := c1\<rparr>)" using sh by simp
  have bok1': "small_ok h (cells (m\<lparr>cells := c1\<rparr>)) bins ?B" using bok1 by simp
  have Bk: "?B k = None" using k(1) by (simp add: tiny_bin_def)
  obtain c' bins' where u: "small_bin_link h ?s sz (m\<lparr>cells := c1\<rparr>) = Some (m\<lparr>cells := c1\<rparr>\<lparr>cells := c'\<rparr>)"
    "small_ok h c' bins' (?B(k \<mapsto> ?b))" and out: "\<And>a. a \<notin> small_bin_cells h ?b ?K \<Longrightarrow> c' a = cells (m\<lparr>cells := c1\<rparr>) a"
    by (rule small_bin_link_ok [OF sh1 bok1' B Bk k(2,3) b]) (rule that; assumption)
  have out1: "c' a = c1 a" if "a \<notin> small_bin_cells h ?b ?K" for a using out [OF that] by simp
  have hd: "c' a = c1 a" if "a \<in> header_cells ?s sz" for a
    by (rule header_relink [OF h k(2) k52 sz b(2) K52 out1 that])
  have "block_step h T k sz {0} ?c c'"
    unfolding block_step_def
  proof (intro conjI allI impI)
    show "packed_at c' ?s sz {0}" by (rule packed_at_same [OF c1(1) hd])
    show "\<exists>bins. small_ok h c' bins (tiny_bin (T(k \<mapsto> (sz, {0}))))" using u(2) unfolding B' by blast
    show "c' a = ?c a" if "a \<notin> header_cells ?s sz \<union> small_cells h (insert k (dom T))" for a
      using that out1 [of a] c1(2) [of a] small_bin_cells_sub [OF b(2) KD, of h] by auto
  qed (use hd [OF header_cells_start] c1 in simp_all)
  moreover have "int_slab_init_packed_and_alloc h ?s (ucast sz) m = Some (blk ?s sz 0, m\<lparr>cells := c'\<rparr>)"
    using u(1) by (simp add: ex)
  ultimately show thesis using that by blast
qed

end
