(* ===== verification/Tiny_Malloc.thy ===== *)
theory Tiny_Malloc
  imports Tiny_Step
begin

unbundle bit_operations_syntax

section \<open>\<^verbatim>\<open>malloc\<close> and \<^verbatim>\<open>free\<close> of tiny blocks\<close>

subsection \<open>What the layers keep for each other\<close>

text \<open>The cells of used regions that hold no header of the packed layer.\<close>

definition user_cell :: "u64 \<Rightarrow> packed_map \<Rightarrow> (nat \<rightharpoonup> nat) \<Rightarrow> u64 \<Rightarrow> bool" where
  "user_cell h T U a \<longleftrightarrow> (\<exists>k n j d. U k = Some n \<and> k \<le> j \<and> j < k + n \<and> d < 4096 \<and> a = pg h j + d
     \<and> (case T k of Some (sz, A) \<Rightarrow> of_nat (hdr sz) \<le> d | None \<Rightarrow> j \<noteq> k \<or> d \<noteq> 0))"

definition spares :: "u64 \<Rightarrow> packed_map \<Rightarrow> (nat \<rightharpoonup> nat) \<Rightarrow> (u64 \<Rightarrow> u64) \<Rightarrow> (u64 \<Rightarrow> u64) \<Rightarrow> bool" where
  "spares h T U c c' \<longleftrightarrow> (\<forall>a. user_cell h T U a \<longrightarrow> c' a = c a)
     \<and> (\<forall>k. U k \<noteq> None \<longrightarrow> T k = None \<longrightarrow> (\<forall>i. i \<noteq> 1 \<longrightarrow> bit (c' (pg h k)) i = bit (c (pg h k)) i))
     \<and> (\<forall>d. 2232 \<le> d \<longrightarrow> d < 4072 \<longrightarrow> d \<noteq> 4024 \<longrightarrow> d \<noteq> 4032 \<longrightarrow> c' (h + d) = c (h + d))"

lemma spares_refl [simp]: "spares h T U c c"
  by (simp add: spares_def)

lemma spares_trans: "spares h T U c c1 \<Longrightarrow> spares h T U c1 c2 \<Longrightarrow> spares h T U c c2"
  by (simp add: spares_def)

lemma user_cellI:
  "U k = Some n \<Longrightarrow> k \<le> j \<Longrightarrow> j < k + n \<Longrightarrow> d < 4096 \<Longrightarrow>
    (case T k of Some (sz, A) \<Rightarrow> of_nat (hdr sz) \<le> d | None \<Rightarrow> j \<noteq> k \<or> d \<noteq> 0) \<Longrightarrow> user_cell h T U (pg h j + d)"
  unfolding user_cell_def by blast

lemma user_cellE:
  assumes "user_cell h T U a"
  obtains k n j d where "U k = Some n" "k \<le> j" "j < k + n" "d < 4096" "a = pg h j + d"
    "case T k of Some (sz, A) \<Rightarrow> of_nat (hdr sz) \<le> d | None \<Rightarrow> j \<noteq> k \<or> d \<noteq> 0"
  using assms unfolding user_cell_def by blast

lemma kept_spares:
  assumes "kept h U c c'" "\<And>k sz A. T k = Some (sz, A) \<Longrightarrow> U k = Some 1"
  shows "spares h T U c c'"
  unfolding spares_def
proof (intro conjI allI impI)
  fix a assume "user_cell h T U a"
  then obtain k n j d where u: "U k = Some n" "k \<le> j" "j < k + n" "d < 4096" "a = pg h j + d"
    and t: "case T k of Some (sz, A) \<Rightarrow> of_nat (hdr sz) \<le> d | None \<Rightarrow> j \<noteq> k \<or> d \<noteq> 0" by (rule user_cellE)
  have "j \<noteq> k \<or> d \<noteq> 0"
  proof (cases "T k")
    case (Some v)
    have "(0 :: u64) < of_nat (hdr (fst v))" by (rule hdr_less(1)) simp
    then show ?thesis using t Some by (cases v) auto
  qed (use t in simp)
  then show "c' a = c a" using assms(1) u by (simp add: kept_def)
next
  fix k i assume "U k \<noteq> None" "i \<noteq> (1 :: nat)"
  then show "bit (c' (pg h k)) i = bit (c (pg h k)) i" using assms(1) by (auto simp: kept_def)
next
  fix d :: u64 assume d: "2232 \<le> d" "d < 4072" "d \<noteq> 4024" "d \<noteq> 4032"
  have "2048 \<le> d" by (rule order_trans [OF _ d(1)]) simp
  then show "c' (h + d) = c (h + d)" using assms(1) d unfolding kept_def by blast
qed

text \<open>The pages of different regions do not meet.\<close>

definition apart :: "(nat \<rightharpoonup> nat) \<Rightarrow> bool" where
  "apart U \<longleftrightarrow> (\<forall>k n. U k = Some n \<longrightarrow> 1 \<le> k \<and> 0 < n \<and> k + n < 2 ^ 52)
     \<and> (\<forall>k n j l. U k = Some n \<longrightarrow> U j = Some l \<longrightarrow> k \<noteq> j \<longrightarrow> k + n \<le> j \<or> j + l \<le> k)"

lemma used_map_apart:
  assumes "\<forall>r\<in>set rs. 0 < pages_of r" "used_map k rs i = Some n" "used_map k rs j = Some l" "i \<noteq> j"
  shows "i + n \<le> j \<or> j + l \<le> i"
  using assms
proof (induction k rs rule: used_map.induct)
  case (3 k q rs)
  consider "i = k" | "j = k" | "i \<noteq> k" "j \<noteq> k" by blast
  then show ?case
  proof cases
    case 1
    then have "used_map (k + q) rs j = Some l" "n = q" using "3.prems" by simp_all
    then show ?thesis using used_map_bounds [of "k + q" rs j l] 1 by simp
  next
    case 2
    then have "used_map (k + q) rs i = Some n" "l = q" using "3.prems" by simp_all
    then show ?thesis using used_map_bounds [of "k + q" rs i n] 2 by simp
  next
    case 3
    then show ?thesis using "3.IH" "3.prems" by simp
  qed
qed simp_all

lemma apart_used:
  assumes inv: "slab_inv h rs m"
  shows "apart (used_map 1 rs)"
  unfolding apart_def
proof (intro conjI allI impI)
  fix k n assume u: "used_map 1 rs k = Some n"
  have "1 \<le> k \<and> k + n \<le> 1 + pages rs \<and> 0 < n" using used_map_range [OF inv u] by blast
  then show "1 \<le> k" "0 < n" "k + n < 2 ^ 52" using inv_basic(3) [OF inv] by simp_all
next
  fix k n j l assume "used_map 1 rs k = Some n" "used_map 1 rs j = Some l" "k \<noteq> j"
  then show "k + n \<le> j \<or> j + l \<le> k" by (rule used_map_apart [OF inv_basic(5) [OF inv]])
qed

lemma packed_change_spares:
  assumes ch: "packed_change h C c c'" and h: "page_aligned h" and U: "apart U"
    and T: "\<And>k sz A. T k = Some (sz, A) \<Longrightarrow> U k = Some 1"
    and C: "\<And>k sz. C k = Some sz \<Longrightarrow> (\<exists>A. T k = Some (sz, A)) \<or> (k < 2 ^ 52 \<and> 1 \<le> k \<and> (\<forall>i n. U i = Some n \<longrightarrow> k < i \<or> i + n \<le> k))"
  shows "spares h T U c c'"
proof -
  have C52: "1 \<le> k \<and> k < 2 ^ 52" if "C k = Some sz" for k sz
  proof -
    from C [OF that] show ?thesis
    proof
      assume "\<exists>A. T k = Some (sz, A)"
      then obtain A where "U k = Some 1" using T by blast
      then have "1 \<le> k \<and> k + 1 < 2 ^ 52" using U unfolding apart_def by blast
      then show ?thesis by linarith
    qed blast
  qed
  have out: "a \<notin> packed_cells h C" if a: "a = pg h j + d" "d < 4096" "j < 2 ^ 52" "1 \<le> j"
    and C: "\<And>sz. C j = Some sz \<Longrightarrow> of_nat (hdr sz) \<le> d" for a j d
  proof
    assume "a \<in> packed_cells h C"
    then consider i where "i < 23" "a = h + (2048 + of_nat i * 8)"
      | i sz e where "C i = Some sz" "e < of_nat (hdr sz)" "a = pg h i + e" unfolding packed_cells_def by blast
    then show False
    proof cases
      case 1
      then show False using small_sep [OF h a(3,4) 1(1) a(2)] a(1) by argo
    next
      case 2
      have e: "e < 4096" using hdr_less(2) [OF 2(2)] by (rule less_trans) simp
      have i: "i < 2 ^ 52" using C52 [OF 2(1)] by simp
      have "j = i \<and> d = e" using pg_offset_eq_iff [OF h a(3) i a(2) e] a(1) 2(3) by argo
      then show False using C [of sz] 2 by auto
    qed
  qed
  show ?thesis
    unfolding spares_def
  proof (intro conjI allI impI)
    fix a assume "user_cell h T U a"
    then obtain k n j d where u: "U k = Some n" "k \<le> j" "j < k + n" "d < 4096" "a = pg h j + d"
      and t: "case T k of Some (sz, A) \<Rightarrow> of_nat (hdr sz) \<le> d | None \<Rightarrow> j \<noteq> k \<or> d \<noteq> 0" by (rule user_cellE)
    have kb: "1 \<le> k" "k + n < 2 ^ 52" using U u(1) unfolding apart_def by blast+
    have "a \<notin> packed_cells h C"
    proof (rule out [OF u(5,4)])
      show "j < 2 ^ 52" "1 \<le> j" using kb u(2,3) by simp_all
      fix sz assume "C j = Some sz"
      from C [OF this] show "of_nat (hdr sz) \<le> d"
      proof
        assume "\<exists>A. T j = Some (sz, A)"
        then obtain A where A: "T j = Some (sz, A)" by blast
        then have "U j = Some 1" by (rule T)
        then have "j = k \<or> j + 1 \<le> k \<or> k + n \<le> j" using U u(1) unfolding apart_def by blast
        then have "j = k" using u(2,3) by linarith
        then show ?thesis using t A by simp
      next
        assume "j < 2 ^ 52 \<and> 1 \<le> j \<and> (\<forall>i n. U i = Some n \<longrightarrow> j < i \<or> i + n \<le> j)"
        then have "j < k \<or> k + n \<le> j" using u(1) by blast
        then show ?thesis using u(2,3) by linarith
      qed
    qed
    then show "c' a = c a" using ch by (simp add: packed_change_def)
  next
    fix k and i :: nat assume u: "U k \<noteq> None" "T k = None"
    then obtain n where n: "U k = Some n" by blast
    have kb: "1 \<le> k" "0 < n" "k + n < 2 ^ 52" using U n unfolding apart_def by blast+
    have "pg h k \<notin> packed_cells h C"
    proof (rule out [of _ k 0])
      fix sz assume "C k = Some sz"
      from C [OF this] have "\<forall>i n. U i = Some n \<longrightarrow> k < i \<or> i + n \<le> k" using u(2) by simp
      then have "k < k \<or> k + n \<le> k" using n by blast
      then show "of_nat (hdr sz) \<le> (0 :: u64)" using kb(2) by simp
    qed (use kb in simp_all)
    then show "bit (c' (pg h k)) i = bit (c (pg h k)) i" using ch by (simp add: packed_change_def)
  next
    fix d :: u64 assume d: "2232 \<le> d" "d < 4072" "d \<noteq> 4024" "d \<noteq> 4032"
    have d': "d < 4096" by (rule less_trans [OF d(2)]) simp
    have "h + d \<notin> packed_cells h C"
    proof
      assume "h + d \<in> packed_cells h C"
      then consider i where "i < 23" "h + d = h + (2048 + of_nat i * 8)"
        | i sz e where "C i = Some sz" "e < of_nat (hdr sz)" "h + d = pg h i + e" unfolding packed_cells_def by blast
      then show False
      proof cases
        case 1
        then have "d < 2232" using small_offsets(5) [OF 1(1)] by simp
        then show False using d(1) by simp
      next
        case 2
        have "e < 4096" using hdr_less(2) [OF 2(2)] by (rule less_trans) simp
        then show False using pg_eq_iffs(5) [OF h _ _ d', of i i e] C52 [OF 2(1)] 2(3) by auto
      qed
    qed
    then show "c' (h + d) = c (h + d)" using ch by (simp add: packed_change_def)
  qed
qed

lemma packed_ok_frame:
  assumes ok: "packed_ok h T U c"
    and page: "\<And>k sz A d. T k = Some (sz, A) \<Longrightarrow> d < 4096 \<Longrightarrow> d \<noteq> 0 \<Longrightarrow> c' (pg h k + d) = c (pg h k + d)"
    and bits: "\<And>k sz A i. T k = Some (sz, A) \<Longrightarrow> 2 \<le> i \<Longrightarrow> bit (c' (pg h k)) i = bit (c (pg h k)) i"
    and header: "\<And>d. 2048 \<le> d \<Longrightarrow> d < 2232 \<Longrightarrow> c' (h + d) = c (h + d)"
    and U': "\<And>k sz A. T k = Some (sz, A) \<Longrightarrow> U' k = Some 1"
  shows "packed_ok h T U' c'"
proof -
  have Tk: "sz \<in> set tiny_classes" "packed_at c (pg h k) sz A" "A \<noteq> {}" if "T k = Some (sz, A)" for k sz A
    using ok that by (auto simp: packed_ok_def slabs_ok_def)
  have "packed_at c' (pg h k) sz A" if T: "T k = Some (sz, A)" for k sz A
  proof (rule packed_at_frame [OF Tk(2) [OF T]])
    show "bit (c' (pg h k)) i = bit (c (pg h k)) i" if "2 \<le> i" for i by (rule bits [OF T that])
    fix j assume j: "j < bit_cells sz"
    have d: "24 + of_nat j * 8 < (of_nat (hdr sz) :: u64)" by (rule bitv_cell_offset [OF Tk(1) [OF T] j])
    have "j < 4" using j bit_cells_le [of sz] by simp
    from bitv_cell_inj(2) [OF this this, of "pg h k"] have "24 + of_nat j * 8 \<noteq> (0 :: u64)" by (simp add: bitv_cell_def)
    moreover have "24 + of_nat j * 8 < (4096 :: u64)" using hdr_less(2) [OF d] by (rule less_trans) simp
    ultimately show "c' (bitv_cell (pg h k) j) = c (bitv_cell (pg h k) j)"
      unfolding bitv_cell_def by (intro page [OF T])
  qed
  moreover obtain bins where b: "small_ok h c bins (tiny_bin T)" using ok by (auto simp: packed_ok_def)
  have "small_ok h c' bins (tiny_bin T)"
  proof (rule small_ok_frame [OF b])
    fix a assume "a \<in> small_cells h (dom (tiny_bin T))"
    then show "c' a = c a"
    proof (cases rule: small_cellsE)
      case (root i)
      then show ?thesis using header small_offsets(4,5) [OF root(1)] by simp
    next
      case (page j)
      then obtain sz A where "T j = Some (sz, A)" using tiny_bin_dom by (metis domD prod.exhaust domIff)
      then show ?thesis using page(2) assms(2) by auto
    qed
  qed
  ultimately show ?thesis using Tk U' unfolding packed_ok_def slabs_ok_def by blast
qed

lemma packed_ok_kept:
  assumes ok: "packed_ok h T U c" and kp: "kept h U c c'"
    and U': "\<And>k sz A. T k = Some (sz, A) \<Longrightarrow> U' k = Some 1"
  shows "packed_ok h T U' c'"
proof (rule packed_ok_frame [OF ok _ _ _ U'])
  have U: "U k = Some 1" if "T k = Some (sz, A)" for k sz A using ok that by (auto simp: packed_ok_def)
  show "c' (pg h k + d) = c (pg h k + d)" if "T k = Some (sz, A)" "d < 4096" "d \<noteq> 0" for k sz A d
    using kp U [OF that(1)] that(2,3) by (simp add: kept_def)
  show "bit (c' (pg h k)) i = bit (c (pg h k)) i" if "T k = Some (sz, A)" "2 \<le> i" for k sz A i
    using kp U [OF that(1)] that(2) by (simp add: kept_def)
  show "c' (h + d) = c (h + d)" if d: "2048 \<le> d" "d < 2232" for d
  proof -
    have "d < 4072" "d \<noteq> 4024" "d \<noteq> 4032" using d(2) by (auto intro: less_trans)
    then show ?thesis using kp d(1) unfolding kept_def by blast
  qed
qed

subsection \<open>The invariant of the heap\<close>

definition heap_inv :: "u64 \<Rightarrow> region list \<Rightarrow> packed_map \<Rightarrow> memory \<Rightarrow> bool" where
  "heap_inv h rs T m \<longleftrightarrow> slab_inv h rs m \<and> packed_ok h T (used_map 1 rs) (cells m)"

lemma packed_okD:
  assumes "packed_ok h T U c" "T k = Some (sz, A)"
  shows "sz \<in> set tiny_classes" "packed_at c (pg h k) sz A" "A \<noteq> {}" "U k = Some 1"
  using assms by (auto simp: packed_ok_def slabs_ok_def)

lemma heap_inv_dom:
  assumes "heap_inv h rs T m"
  shows "dom T \<subseteq> {1..<1 + pages rs}" "dom T \<subseteq> {1..<2 ^ 52}"
proof -
  have "1 \<le> k \<and> k < 1 + pages rs \<and> k < 2 ^ 52" if k: "k \<in> dom T" for k
  proof -
    obtain sz A where "T k = Some (sz, A)" using k by auto
    then have "used_map 1 rs k = Some 1" using assms packed_okD(4) by (auto simp: heap_inv_def)
    then show ?thesis using used_map_range [of h rs m k 1] assms inv_basic(3) [of h rs m] by (auto simp: heap_inv_def)
  qed
  then show "dom T \<subseteq> {1..<1 + pages rs}" "dom T \<subseteq> {1..<2 ^ 52}" by (meson atLeastLessThan_iff subsetI)+
qed

lemma block_step_heap:
  assumes inv: "heap_inv h rs T m" and st: "block_step h T k sz A (cells m) c'" and k: "used_map 1 rs k = Some 1"
    and sz: "sz \<in> set tiny_classes" and A: "A \<noteq> {}"
  shows "heap_inv h rs (T(k \<mapsto> (sz, A))) (m\<lparr>cells := c'\<rparr>)" "packed_change h (classes (T(k \<mapsto> (sz, A)))) (cells m) c'"
proof -
  let ?T = "T(k \<mapsto> (sz, A))" and ?U = "used_map 1 rs"
  have sl: "slab_inv h rs m" and ok: "packed_ok h T ?U (cells m)" using inv by (simp_all add: heap_inv_def)
  have h: "page_aligned h" by (rule inv_basic [OF sl])
  have kb: "1 \<le> k" "k < 2 ^ 52" using used_map_range [OF sl k] by simp_all
  have so: "slabs_ok h T (cells m)" using ok by (simp add: packed_ok_def)
  note r = block_step_ok [OF st so h heap_inv_dom(2) [OF inv] kb sz]
  have U: "?U j = Some 1" if "j \<in> dom ?T" for j
  proof (cases "j = k")
    case False
    then have "j \<in> dom T" using that by simp
    then obtain s B where "T j = Some (s, B)" by auto
    then show ?thesis by (rule packed_okD(4) [OF ok])
  qed (use k in simp)
  have "client_change h ?U (cells m) c'"
  proof (rule packed_change_client [OF r(2) h])
    show "?U j = Some 1" if "j \<in> dom (classes ?T)" for j using U that by simp
    show "1 \<le> j \<and> j < 2 ^ 52" if "?U j = Some n" for j n using used_map_range [OF sl that] by simp
  qed
  then have "slab_inv h rs (m\<lparr>cells := c'\<rparr>)" by (rule slab_inv_client [OF sl])
  moreover have "packed_ok h ?T ?U c'"
    unfolding packed_ok_def
  proof (intro conjI allI impI)
    show "slabs_ok h ?T c'" by (rule r(1))
    show "\<exists>bins. small_ok h c' bins (tiny_bin ?T)" using st by (simp add: block_step_def)
    fix j s B assume t: "?T j = Some (s, B)"
    then show "B \<noteq> {}" using packed_okD(3) [OF ok] A by (cases "j = k") auto
    show "?U j = Some 1" using U t by blast
  qed
  ultimately show "heap_inv h rs ?T (m\<lparr>cells := c'\<rparr>)" by (simp add: heap_inv_def)
  show "packed_change h (classes ?T) (cells m) c'" by (rule r(2))
qed

lemma block_step_spares:
  assumes inv: "heap_inv h rs T m" and st: "block_step h T k sz A (cells m) c'" and k: "T k = Some (sz, B)" and A: "A \<noteq> {}"
  shows "spares h T (used_map 1 rs) (cells m) c'"
proof -
  have sl: "slab_inv h rs m" and ok: "packed_ok h T (used_map 1 rs) (cells m)" using inv by (simp_all add: heap_inv_def)
  show ?thesis
  proof (rule packed_change_spares [OF block_step_heap(2) [OF inv st packed_okD(4,1) [OF ok k] A] inv_basic(1) [OF sl] apart_used [OF sl]])
    show "used_map 1 rs j = Some 1" if "T j = Some (s, B)" for j s B by (rule packed_okD(4) [OF ok that])
    show "(\<exists>A. T j = Some (s, A)) \<or> (j < 2 ^ 52 \<and> 1 \<le> j \<and> (\<forall>i n. used_map 1 rs i = Some n \<longrightarrow> j < i \<or> i + n \<le> j))"
      if "classes (T(k \<mapsto> (sz, A))) j = Some s" for j s
      using that k by (cases "j = k") (auto simp: classes_def)
  qed
qed

subsection \<open>Finding a block\<close>

lemma pg_nonnull:
  assumes "shape h N m" "1 \<le> k" "k < N"
  shows "pg h k \<noteq> 0"
proof -
  have "unat (pg h k) = unat h + 4096 * k" using assms by (intro unat_pg) (simp add: shape_def)
  then show ?thesis using assms(2) by auto
qed

lemma find_tiny_ok:
  assumes inv: "heap_inv h rs T m" and sz: "sz \<in> set tiny_classes"
  shows "(int_find_tiny_block h (ucast sz) m = Some (0, m) \<and> (\<forall>k A. T k = Some (sz, A) \<longrightarrow> A = {..<nblk sz}))
    \<or> (\<exists>k A i c'. T k = Some (sz, A) \<and> i < nblk sz \<and> i \<notin> A
        \<and> int_find_tiny_block h (ucast sz) m = Some (blk (pg h k) sz i, m\<lparr>cells := c'\<rparr>)
        \<and> block_step h T k sz (insert i A) (cells m) c')"
proof -
  have sl: "slab_inv h rs m" and ok: "packed_ok h T (used_map 1 rs) (cells m)" using inv by (simp_all add: heap_inv_def)
  have sh: "shape h (1 + pages rs) m" by (rule inv_basic [OF sl])
  let ?b = "unat (packed_bin_idx sz)"
  have b: "packed_bin_idx sz = of_nat ?b" "?b < 23" by (rule bin_idx_of_nat [OF sz])+
  note u = class_u64 [OF sz]
  obtain bins where bok: "small_ok h (cells m) bins (tiny_bin T)" using ok by (auto simp: packed_ok_def)
  have root: "small_bin h (packed_bin_idx sz) = h + (2048 + of_nat ?b * 8)"
  proof -
    have "(ucast (of_nat ?b :: u8) :: u64) = of_nat ?b"
      using b(2) by (intro unsigned_word_eqI) (simp add: unsigned_ucast_eq unsigned_of_nat take_bit_nat_eq_self)
    then show ?thesis unfolding small_bin_def b(1) [symmetric] by (metis b(1) heap_offsets(1))
  qed
  have ch: "chain small_nx small_pv (cells m) (small_root h ?b) (map (pg h) (bins ?b))"
    and set: "set (bins ?b) = {k. tiny_bin T k = Some ?b}" using bok b(2) by (simp_all add: small_ok_def)
  have hd: "cells m (h + (2048 + of_nat ?b * 8)) = (case map (pg h) (bins ?b) of [] \<Rightarrow> 0 | y # _ \<Rightarrow> y)"
    using chain_head [OF ch] by (simp only: small_root_nx [OF b(2)])
  have v: "valid_cell m (h + (2048 + of_nat ?b * 8))" by (rule shape_valid_header [OF sh small_offsets(2,3) [OF b(2)]])
  have ex: "int_find_tiny_block h (ucast sz) m = (if cells m (h + (2048 + of_nat ?b * 8)) \<noteq> 0
      then alloc_switch (cells m (h + (2048 + of_nat ?b * 8))) sz m else Some (0, m))"
    using v by (simp add: int_find_tiny_block_def u malloc_assert_True root load64_valid alloc_switch_def)
  have bin: "tiny_bin T k = Some ?b \<longleftrightarrow> (\<exists>A. T k = Some (sz, A) \<and> A \<noteq> {..<nblk sz})" for k
  proof (cases "T k")
    case (Some v)
    obtain s A where T: "T k = Some (s, A)" using Some by (cases v) auto
    have "unat (packed_bin_idx s) = ?b \<longleftrightarrow> s = sz"
      using packed_bin_idx_inj [OF packed_okD(1) [OF ok T] sz] by (simp add: word_unat_eq_iff)
    then show ?thesis using T by (auto simp: tiny_bin_def)
  qed (simp add: tiny_bin_def)
  show ?thesis
  proof (cases "bins ?b")
    case Nil
    then have "int_find_tiny_block h (ucast sz) m = Some (0, m)" using ex hd by simp
    moreover have "A = {..<nblk sz}" if "T k = Some (sz, A)" for k A
      using bin [of k] that set Nil by auto
    ultimately show ?thesis by blast
  next
    case (Cons k ks)
    then obtain A where k: "T k = Some (sz, A)" "A \<noteq> {..<nblk sz}" using bin [of k] set by auto
    have D: "dom T \<subseteq> {1..<1 + pages rs}" by (rule heap_inv_dom [OF inv])
    then have "pg h k \<noteq> 0" using k(1) pg_nonnull [OF sh] by (metis atLeastLessThan_iff domI subsetD)
    then have e: "int_find_tiny_block h (ucast sz) m = alloc_switch (pg h k) sz m" using ex hd Cons by simp
    have so: "slabs_ok h T (cells m)" using ok by (simp add: packed_ok_def)
    show ?thesis
    proof (rule alloc_switch_ok [OF sh so bok D k])
      fix i c' assume "i < nblk sz" "i \<notin> A" "alloc_switch (pg h k) sz m = Some (blk (pg h k) sz i, m\<lparr>cells := c'\<rparr>)"
        "block_step h T k sz (insert i A) (cells m) c'"
      then show ?thesis unfolding e using k(1) by blast
    qed
  qed
qed

subsection \<open>\<^verbatim>\<open>malloc\<close>\<close>

lemma tiny_request:
  assumes "0 < n" "n \<le> 496"
  defines "e \<equiv> ALIGN_UP n MALLOC_ALIGN"
  shows "n \<le> e" "e \<noteq> 0" "is_tiny_block_size e" "(16 :: u32) \<le> ucast e" "ucast e \<le> (496 :: u32)" "ucast e AND 15 = (0 :: u32)"
    "unat (ucast e :: u32) = unat e"
proof -
  have n: "1 \<le> unat n" "unat n \<le> 496" using assms(1,2) unfolding word_less_nat_alt word_le_nat_alt by simp_all
  have "e = (n + 15) AND NOT 15" by (simp add: e_def ALIGN_UP_def MALLOC_ALIGN_def add.commute)
  moreover have "unat (n + 15) = unat n + 15" using n(2) by (simp add: unat_word_ariths)
  ultimately have e: "unat e = 16 * ((unat n + 15) div 16)" by (simp only: unat_and_not_15)
  define q where "q = (unat n + 15) div 16"
  have q: "1 \<le> q" "q < 32" "unat n \<le> 16 * q"
    unfolding q_def using n div_le_mono [of 16 "unat n + 15" 16]
      less_mult_imp_div_less [of "unat n + 15" 32 16] div_mult_mod_eq [of "unat n + 15" 16] mod_less_divisor [of 16 "unat n + 15"]
    by linarith+
  have b: "unat n \<le> unat e" "unat e \<le> 496" "16 \<le> unat e" using q unfolding e q_def [symmetric] by linarith+
  show "n \<le> e" "e \<noteq> 0" "is_tiny_block_size e"
    using b by (auto simp: word_le_nat_alt is_tiny_block_size_def layout_simps)
  show u: "unat (ucast e :: u32) = unat e" using b by (simp add: unsigned_ucast_eq take_bit_nat_eq_self)
  show "(16 :: u32) \<le> ucast e" "ucast e \<le> (496 :: u32)" using b by (simp_all add: word_le_nat_alt u)
  show "ucast e AND 15 = (0 :: u32)" unfolding and_15_dvd u e by simp
qed

definition tiny_class :: "u64 \<Rightarrow> u32" where \<comment> \<open>the class that serves a request\<close>
  "tiny_class n = adj_tiny_size (ucast (ALIGN_UP n MALLOC_ALIGN))"

lemma tiny_class_props:
  assumes "0 < n" "n \<le> 496"
  shows "tiny_class n \<in> set tiny_classes" "unat n \<le> unat (tiny_class n)"
proof -
  note r = tiny_request [OF assms]
  note a = adj_tiny_size_props [OF r(4-6)]
  show "tiny_class n \<in> set tiny_classes" using a(1) by (simp add: tiny_class_def)
  have "unat n \<le> unat (ALIGN_UP n MALLOC_ALIGN)" using r(1) by (simp add: word_le_nat_alt)
  also have "\<dots> \<le> unat (tiny_class n)" using a(2) by (simp add: tiny_class_def word_le_nat_alt r(7))
  finally show "unat n \<le> unat (tiny_class n)" .
qed

lemma class_one_slab:
  assumes "sz \<in> set tiny_classes"
  shows "req_slabs_for_size (ucast sz) = of_nat 1" "is_tiny_block_size (ucast sz)"
proof -
  have le: "unat sz \<le> 496" by (rule class_facts [OF assms])
  then have u: "unat (ucast sz :: u64) = unat sz" by (simp add: unsigned_ucast_eq take_bit_nat_eq_self)
  then have "unat (ucast sz + 4111 :: u64) = unat sz + 4111" using le by (simp add: unat_word_ariths)
  then have "unat (req_slabs_for_size (ucast sz)) = 1" unfolding unat_req_slabs using le by simp
  then show "req_slabs_for_size (ucast sz) = of_nat 1" by (simp add: word_unat_eq_iff)
  show "is_tiny_block_size (ucast sz)" using le by (simp add: is_tiny_block_size_def layout_simps word_le_nat_alt u)
qed

text \<open>\<^verbatim>\<open>malloc\<close> of a tiny size, in terms of the search and the slab layer.\<close>

lemma mm_malloc_tiny:
  assumes "0 < n" "n \<le> 496" "heap_ptr m = h" "h \<noteq> 0"
  shows "mm_malloc Heap_sbrk n m = do {
     (ptr, m) \<leftarrow> int_find_tiny_block h (ucast (tiny_class n)) m;
     if ptr \<noteq> 0 then Some (ptr, m)
     else do {
       (s, m) \<leftarrow> int_alloc_slab Heap_sbrk h (of_nat 1) m;
       if s = 0 then Some (0, m) else int_slab_init_packed_and_alloc h s (ucast (tiny_class n)) m } }"
proof -
  note r = tiny_request [OF assms(1,2)] and c = class_one_slab [OF tiny_class_props(1) [OF assms(1,2)]]
  show ?thesis
    unfolding mm_malloc_def int_malloc_def Let_def assms(3)
    using r(2,3) assms(4)
    by (simp only: malloc_assert_True bind.bind_lunit if_False if_True tiny_class_def [symmetric] not_False_eq_True)
      (auto simp: c Let_def split: Option.bind_splits)
qed

text \<open>A block is found, or a slab is obtained and becomes a packed slab.\<close>

lemma blk_nonnull:
  assumes "shape h N m" "1 \<le> k" "k < N" "sz \<in> set tiny_classes" "i < nblk sz"
  shows "unat (blk (pg h k) sz i) = unat h + 4096 * k + (hdr sz + i * unat sz)" "blk (pg h k) sz i \<noteq> 0"
proof -
  note o = blk_offset [OF assms(4,5)]
  have "unat h + 4096 * N < 2 ^ 64" using assms(1) by (simp add: shape_def)
  moreover have "4096 * Suc k \<le> 4096 * N" using assms(3) by simp
  ultimately have top: "unat h + 4096 * Suc k < 2 ^ 64" by linarith
  show u: "unat (blk (pg h k) sz i) = unat h + 4096 * k + (hdr sz + i * unat sz)"
    unfolding blk_def unat_pg_offset [OF top o(3)] o(2) by (rule refl)
  show "blk (pg h k) sz i \<noteq> 0"
  proof
    assume "blk (pg h k) sz i = 0"
    then show False using u assms(2) by simp
  qed
qed

lemma heap_nonnull: "slab_inv h rs m \<Longrightarrow> Heap_ok m \<Longrightarrow> h \<noteq> 0"
  using inv_basic(2) [of h rs m] by (auto simp: shape_def Heap_ok_def)

lemma tiny_malloc_ok:
  assumes inv: "heap_inv h rs T m" and src: "Heap_ok m" and hp: "heap_ptr m = h" and n: "0 < n" "n \<le> 496"
    and room: "(\<forall>k A. T k = Some (tiny_class n, A) \<longrightarrow> A = {..<nblk (tiny_class n)}) \<Longrightarrow> \<forall>l\<ge>1. \<not> has_free rs l \<Longrightarrow>
      Heap_room (of_nat (1 - last_free rs) * 4096) m"
  defines "sz \<equiv> tiny_class n"
  obtains k i A rs' m' where "mm_malloc Heap_sbrk n m = Some (blk (pg h k) sz i, m')"
    and "heap_inv h rs' (T(k \<mapsto> (sz, insert i A))) m'" "Heap_ok m'" "heap_ptr m' = h" "i < nblk sz" "i \<notin> A"
    and "T k = Some (sz, A) \<or> T k = None \<and> used_map 1 rs k = None \<and> A = {}"
    and "spares h T (used_map 1 rs) (cells m) (cells m')" "used_map 1 rs' = (used_map 1 rs)(k \<mapsto> 1)"
    and "(\<exists>j B. T j = Some (sz, B) \<and> B \<noteq> {..<nblk sz}) \<or> (\<exists>l\<ge>1. has_free rs l) \<longrightarrow> arena_end m' = arena_end m"
    and "pages rs \<le> pages rs'" "pages rs' \<le> pages rs + 1" "arena_max m' = arena_max m"
proof -
  have sl: "slab_inv h rs m" and ok: "packed_ok h T (used_map 1 rs) (cells m)" using inv by (simp_all add: heap_inv_def)
  have sz: "sz \<in> set tiny_classes" unfolding sz_def by (rule tiny_class_props [OF n])
  have sh: "shape h (1 + pages rs) m" and h: "page_aligned h" by (rule inv_basic [OF sl])+
  have D: "dom T \<subseteq> {1..<1 + pages rs}" by (rule heap_inv_dom [OF inv])
  note ex = mm_malloc_tiny [OF n hp heap_nonnull [OF sl src], folded sz_def]
  from find_tiny_ok [OF inv sz] show thesis
  proof (elim disjE conjE exE)
    fix k A i c' assume k: "T k = Some (sz, A)" "i < nblk sz" "i \<notin> A"
      and f: "int_find_tiny_block h (ucast sz) m = Some (blk (pg h k) sz i, m\<lparr>cells := c'\<rparr>)"
      and st: "block_step h T k sz (insert i A) (cells m) c'"
    have kN: "1 \<le> k" "k < 1 + pages rs" using k(1) D by auto
    have nz: "blk (pg h k) sz i \<noteq> 0" by (rule blk_nonnull [OF sh kN sz k(2)])
    have U: "used_map 1 rs k = Some 1" by (rule packed_okD(4) [OF ok k(1)])
    show thesis
    proof (rule that)
      show "mm_malloc Heap_sbrk n m = Some (blk (pg h k) sz i, m\<lparr>cells := c'\<rparr>)" using f nz by (simp add: ex)
      show "heap_inv h rs (T(k \<mapsto> (sz, insert i A))) (m\<lparr>cells := c'\<rparr>)" by (rule block_step_heap [OF inv st U sz]) simp
      show "spares h T (used_map 1 rs) (cells m) (cells (m\<lparr>cells := c'\<rparr>))"
        using block_step_spares [OF inv st k(1)] by simp
      show "used_map 1 rs = (used_map 1 rs)(k \<mapsto> 1)" using U by (simp add: fun_upd_idem)
    qed (use k src hp in \<open>simp_all add: Heap_ok_cells\<close>)
  next
    assume f: "int_find_tiny_block h (ucast sz) m = Some (0, m)" and full: "\<forall>k A. T k = Some (sz, A) \<longrightarrow> A = {..<nblk sz}"
    have full': "\<forall>k A. T k = Some (tiny_class n, A) \<longrightarrow> A = {..<nblk (tiny_class n)}" using full by (simp add: sz_def)
    obtain m1 k rs1 where r: "int_alloc_slab Heap_sbrk h (of_nat 1) m = Some (pg h k, m1)" "slab_grow h rs rs1 m m1"
      "used_map 1 rs1 = (used_map 1 rs)(k \<mapsto> 1)" "fresh (used_map 1 rs) k 1" "pages rs1 = pages rs + (if \<exists>l\<ge>1. has_free rs l then 0 else 1 - last_free rs)"
      using hs.int_alloc_slab_ok [OF sl src _ _ room [OF full']] by auto
    have sl1: "slab_inv h rs1 m1" and kp: "kept h (used_map 1 rs) (cells m) (cells m1)"
      and m1: "m1 = m\<lparr>cells := cells m1, arena_end := pg h (1 + pages rs1)\<rparr>"
      using r(2) by (simp_all add: slab_grow_def)
    have hp1: "heap_ptr m1 = h" by (subst m1) (simp add: hp)
    have good: "slab_good h (m, run_at h (used_map 1 rs))" by (rule slab_goodI [OF src sl refl])
    have "slab_good h (m1, (run_at h (used_map 1 rs))(pg h k \<mapsto> 1))"
      using alloc_good(1) [OF good _ _ r(1)] by (simp add: good_move_def)
    then have src1: "Heap_ok m1" by (auto simp: slab_good_def)
    have U1: "used_map 1 rs1 k = Some 1" by (simp only: r(3) fun_upd_same)
    have kN: "1 \<le> k" "k < 1 + pages rs1" using used_map_range [OF sl1 U1] by simp_all
    have Uk: "used_map 1 rs k = None"
    proof (cases "used_map 1 rs k")
      case (Some l)
      have "0 < l" using used_map_range [OF sl Some] by simp
      moreover have "k + l \<le> k \<or> k + 1 \<le> k" using r(4) Some unfolding fresh_def by blast
      ultimately show ?thesis by simp
    qed
    have Tk: "T k = None"
    proof (cases "T k")
      case (Some v)
      then have "used_map 1 rs k = Some 1" using packed_okD(4) [OF ok, of k "fst v" "snd v"] by simp
      then show ?thesis using Uk by simp
    qed
    have ok1: "packed_ok h T (used_map 1 rs1) (cells m1)"
    proof (rule packed_ok_kept [OF ok kp])
      show "used_map 1 rs1 j = Some 1" if "T j = Some (s, B)" for j s B
        using packed_okD(4) [OF ok that] Tk that unfolding r(3) by (cases "j = k") auto
    qed
    then have inv1: "heap_inv h rs1 T m1" using sl1 by (simp add: heap_inv_def)
    have sh1: "shape h (1 + pages rs1) m1" by (rule inv_basic [OF sl1])
    have D1: "dom T \<subseteq> {1..<1 + pages rs1}" by (rule heap_inv_dom [OF inv1])
    obtain bins where bok: "small_ok h (cells m1) bins (tiny_bin T)" using ok1 by (auto simp: packed_ok_def)
    obtain c' where i: "int_slab_init_packed_and_alloc h (pg h k) (ucast sz) m1 = Some (blk (pg h k) sz 0, m1\<lparr>cells := c'\<rparr>)"
      "block_step h T k sz {0} (cells m1) c'"
      by (rule packed_init_ok [OF sh1 bok D1 Tk kN sz])
    have nz: "pg h k \<noteq> 0" by (rule pg_nonnull [OF sh1 kN])
    note bs = block_step_heap [OF inv1 i(2) U1 sz]
    have sp: "spares h T (used_map 1 rs) (cells m1) c'"
    proof (rule packed_change_spares [OF bs(2) h apart_used [OF sl]])
      show "used_map 1 rs j = Some 1" if "T j = Some (s, B)" for j s B by (rule packed_okD(4) [OF ok that])
      show "(\<exists>A. T j = Some (s, A)) \<or> (j < 2 ^ 52 \<and> 1 \<le> j \<and> (\<forall>i n. used_map 1 rs i = Some n \<longrightarrow> j < i \<or> i + n \<le> j))"
        if "classes (T(k \<mapsto> (sz, {0}))) j = Some s" for j s
      proof (cases "j = k")
        case True
        have "\<forall>i n. used_map 1 rs i = Some n \<longrightarrow> k < i \<or> i + n \<le> k" using r(4) unfolding fresh_def by (metis Suc_eq_plus1 Suc_le_eq)
        then show ?thesis using True kN shape_bound [OF sh1 kN(2)] by simp
      next
        case False
        then show ?thesis using that by (auto simp: classes_def)
      qed
    qed simp
    show thesis
    proof (rule that)
      show "mm_malloc Heap_sbrk n m = Some (blk (pg h k) sz 0, m1\<lparr>cells := c'\<rparr>)" using f r(1) nz i(1) by (simp add: ex)
      show "heap_inv h rs1 (T(k \<mapsto> (sz, insert 0 {}))) (m1\<lparr>cells := c'\<rparr>)" by (rule bs) simp
      show "0 < nblk sz" using class_facts(3) [OF sz] by simp
      show "spares h T (used_map 1 rs) (cells m) (cells (m1\<lparr>cells := c'\<rparr>))"
        using spares_trans [OF kept_spares [OF kp packed_okD(4) [OF ok]] sp] by simp
      have "arena_end m1 = arena_end m" if "\<exists>l\<ge>1. has_free rs l"
      proof -
        have "pages rs1 = pages rs" using r(5) that by simp
        then show ?thesis using sh sh1 by (simp add: shape_def)
      qed
      then show "(\<exists>j B. T j = Some (sz, B) \<and> B \<noteq> {..<nblk sz}) \<or> (\<exists>l\<ge>1. has_free rs l)
          \<longrightarrow> arena_end (m1\<lparr>cells := c'\<rparr>) = arena_end m"
        using full by auto
      show "pages rs \<le> pages rs1" "pages rs1 \<le> pages rs + 1" using r(5) by simp_all
      have "arena_max m1 = arena_max m" by (subst m1) simp
      then show "arena_max (m1\<lparr>cells := c'\<rparr>) = arena_max m" by simp
    qed (use src1 hp1 Tk Uk r(3) in \<open>simp_all add: Heap_ok_cells\<close>)
  qed
qed

lemma tiny_malloc_refuse:
  assumes inv: "heap_inv h rs T m" and src: "Heap_ok m" and hp: "heap_ptr m = h" and n: "0 < n" "n \<le> 496"
    and full: "\<forall>k A. T k = Some (tiny_class n, A) \<longrightarrow> A = {..<nblk (tiny_class n)}" and nf: "\<forall>l\<ge>1. \<not> has_free rs l"
    and room: "\<not> Heap_room (of_nat (1 - last_free rs) * 4096) m"
  shows "mm_malloc Heap_sbrk n m = None"
proof -
  have sl: "slab_inv h rs m" using inv by (simp add: heap_inv_def)
  have "int_find_tiny_block h (ucast (tiny_class n)) m = Some (0, m)"
    using find_tiny_ok [OF inv tiny_class_props(1) [OF n]] full by blast
  moreover have "int_alloc_slab Heap_sbrk h (of_nat 1) m = None"
    by (rule hs.int_alloc_slab_refuse [OF sl src _ _ nf room]) simp_all
  ultimately show ?thesis by (simp add: mm_malloc_tiny [OF n hp heap_nonnull [OF sl src]])
qed

end
