(* ===== verification/Tiny_Free.thy ===== *)
theory Tiny_Free
  imports Tiny_Malloc
begin

unbundle bit_operations_syntax

section \<open>\<^verbatim>\<open>free\<close> of a tiny block\<close>

lemma blk_get_slab:
  assumes "page_aligned s" "sz \<in> set tiny_classes" "i < nblk sz"
  shows "ptr_get_slab (blk s sz i) = s"
proof -
  note o = blk_offset [OF assms(2,3)]
  have h32: "32 \<le> hdr sz" using hdr_bounds(1) [of sz] by auto
  define d where "d = hdr sz + i * unat sz - 16"
  have d: "hdr sz + i * unat sz = d + 16" using h32 by (simp add: d_def)
  have "unat (of_nat d :: u64) = d" using o(1) d by (simp only: unat_of_nat) simp
  then have "of_nat d < (4096 :: u64)" using o(1) d class_facts(8) [OF assms(2)] by (simp add: word_less_nat_alt)
  moreover have "blk s sz i - MALLOC_ALIGN = s + of_nat d" by (simp add: blk_def d MALLOC_ALIGN_def)
  ultimately show ?thesis
    using page_of_offset [OF assms(1)] by (simp add: ptr_get_slab_def ALIGN_DOWN_def layout_simps)
qed

lemma lay_used_bit:
  assumes "lay h c k p rs" "used_map k rs j = Some n"
  shows "bit (c (pg h j)) 0"
proof -
  obtain xs ys where x: "rs = xs @ Used n # ys" "j = k + pages xs" using used_map_split [OF assms(2)] by blast
  then show ?thesis using assms(1) by (simp add: lay_append)
qed

lemma page_flags:
  assumes "valid_cell m s" "page_aligned s"
  shows "slab_is_alloc s m = Some (bit (cells m s) 0)" "slab_is_packed s m = Some (bit (cells m s) 2)"
    "packed_slab_sz_class s m = Some (get_lane 8 (cells m s))"
proof -
  have b: "get_lane 0 x AND (1 :: u8) \<noteq> 0 \<longleftrightarrow> bit x 0" "get_lane 0 x AND (4 :: u8) \<noteq> 0 \<longleftrightarrow> bit x 2" for x :: u64
  proof -
    have bp: "bit (push_bit n 1 :: u8) j \<longleftrightarrow> j = n" if "n < 8" for n j
      using that by (auto simp: bit_push_bit_iff bit_1_iff simp del: push_bit_of_1)
    have nz: "get_lane 0 x AND (push_bit n 1 :: u8) \<noteq> 0 \<longleftrightarrow> bit x n" if n: "n < 8" for n
    proof -
      have bj: "bit (get_lane 0 x AND (push_bit n 1 :: u8)) j \<longleftrightarrow> j = n \<and> bit x n" for j
        using n unfolding bit_and_iff bp [OF n] by (auto simp: bit_get_lane)
      show ?thesis
      proof
        assume "get_lane 0 x AND (push_bit n 1 :: u8) \<noteq> 0"
        then obtain j where "bit (get_lane 0 x AND (push_bit n 1 :: u8)) j" by (metis bit_eqI bit_0_eq bot_apply bot_bool_def)
        then show "bit x n" unfolding bj by blast
      next
        assume "bit x n"
        then have "bit (get_lane 0 x AND (push_bit n 1 :: u8)) n" unfolding bj by blast
        then show "get_lane 0 x AND (push_bit n 1 :: u8) \<noteq> 0" by (metis bit_0_eq bot_apply bot_bool_def)
      qed
    qed
    show "get_lane 0 x AND (1 :: u8) \<noteq> 0 \<longleftrightarrow> bit x 0" using nz [of 0] by simp
    show "get_lane 0 x AND (4 :: u8) \<noteq> 0 \<longleftrightarrow> bit x 2" using nz [of 2] by simp
  qed
  show "slab_is_alloc s m = Some (bit (cells m s) 0)" "slab_is_packed s m = Some (bit (cells m s) 2)"
    "packed_slab_sz_class s m = Some (get_lane 8 (cells m s))"
    using assms by (simp_all only: slab_is_alloc_def slab_is_packed_def packed_slab_sz_class_def slab_flags_def
        SLAB_ALLOC_BIT_def SLAB_PACKED_BIT_def add_0_right load_lane_page0 bind.bind_lunit b)
      (simp add: exec_simps layout_simps)
qed

lemma mm_free_tiny:
  assumes inv: "heap_inv h rs T m" and src: "Heap_ok m" and hp: "heap_ptr m = h" and k: "T k = Some (sz, A)" and i: "i < nblk sz"
  shows "mm_free (blk (pg h k) sz i) m = packed_free_switch h (pg h k) (blk (pg h k) sz i) (size_to_sz_class sz) m"
proof -
  have sl: "slab_inv h rs m" and ok: "packed_ok h T (used_map 1 rs) (cells m)" using inv by (simp_all add: heap_inv_def)
  note t = packed_okD [OF ok k]
  have sh: "shape h (1 + pages rs) m" and h: "page_aligned h" and ly: "lay h (cells m) 1 True rs" by (rule inv_basic [OF sl])+
  have kN: "1 \<le> k" "k < 1 + pages rs" using used_map_range [OF sl t(4)] by simp_all
  have s: "page_aligned (pg h k)" using h by simp
  have b: "bit (cells m (pg h k)) 0" "bit (cells m (pg h k)) 2" "get_lane 8 (cells m (pg h k)) = size_to_sz_class sz"
    using lay_used_bit [OF ly t(4)] t(2) by (simp_all add: packed_at_def)
  have "h \<noteq> 0" by (rule heap_nonnull [OF sl src])
  then show ?thesis
    using blk_nonnull(2) [OF sh kN t(1) i]
    by (simp add: mm_free_def Let_def hp int_free_def blk_get_slab [OF s t(1) i] page_flags [OF shape_valid0 [OF sh kN(2)] s] b
        malloc_assert_True int_tiny_block_free_def)
qed

text \<open>A slab whose last block was freed leaves its bin and goes back to the slab layer.\<close>

lemma apart_less: "apart U \<Longrightarrow> (\<And>k n. V k = Some n \<Longrightarrow> U k = Some n) \<Longrightarrow> apart V"
  unfolding apart_def by blast

lemma give_back_has_free:
  assumes "0 < n"
  shows "\<exists>l\<ge>n. has_free (give_back xs n ys) l"
proof -
  obtain n' ys' where mg: "merge_after n ys = (n', ys')" by fastforce
  then have n': "n \<le> n'" by (cases "(n, ys)" rule: merge_after.cases) auto
  show ?thesis
  proof (cases "last_used True xs")
    case True
    then show ?thesis using n' by (auto simp: give_back_simps(1) [OF mg] has_free_def)
  next
    case False
    then obtain zs q where "xs = zs @ [Free q]" by (rule last_freeE)
    then have "has_free (give_back xs n ys) (q + n')" by (simp add: give_back_simps(2) [OF mg] has_free_def)
    then show ?thesis using n' by (meson le_add2 le_trans)
  qed
qed

lemma release_slab:
  assumes inv: "heap_inv h rs T m" and k: "T k = Some (sz, A)" and st: "block_step h T k sz {} (cells m) c1"
  obtains m' rs' where "free_tail h (pg h k) {} (m\<lparr>cells := c1\<rparr>) = Some m'" "heap_inv h rs' (T(k := None)) m'"
    and "used_map 1 rs' = (used_map 1 rs)(k := None)" "m' = m\<lparr>cells := cells m'\<rparr>"
    and "spares h (T(k := None)) ((used_map 1 rs)(k := None)) (cells m) (cells m')" "\<exists>l\<ge>1. has_free rs' l"
proof -
  let ?U = "used_map 1 rs" and ?TE = "T(k \<mapsto> (sz, {}))" and ?T = "T(k := None)" and ?m1 = "m\<lparr>cells := c1\<rparr>"
  let ?U' = "?U(k := None)" and ?b = "unat (packed_bin_idx sz)" and ?C = "classes (T(k \<mapsto> (sz, {})))"
  have sl: "slab_inv h rs m" and ok: "packed_ok h T ?U (cells m)" using inv by (simp_all add: heap_inv_def)
  note t = packed_okD [OF ok k]
  have sh: "shape h (1 + pages rs) m" and h: "page_aligned h" by (rule inv_basic [OF sl])+
  have kN: "1 \<le> k" "k < 1 + pages rs" using used_map_range [OF sl t(4)] by simp_all
  have k52: "k < 2 ^ 52" by (rule shape_bound [OF sh kN(2)])
  have so: "slabs_ok h T (cells m)" using ok by (simp add: packed_ok_def)
  note bs = block_step_ok [OF st so h heap_inv_dom(2) [OF inv] kN(1) k52 t(1)]
  have domT: "dom ?TE = dom T" using k by auto
  have domC: "dom ?C = dom T" by (simp only: dom_classes domT)
  have n8: "8 \<le> nblk sz" by (rule class_facts [OF t(1)])
  then have "0 \<in> {..<nblk sz}" by simp
  then have ne: "{} \<noteq> {..<nblk sz}" by blast
  have B0: "tiny_bin ?TE = (tiny_bin T)(k \<mapsto> ?b)" unfolding tiny_bin_upd if_not_P [OF ne] ..
  have Bk: "tiny_bin ?TE k = Some ?b" by (simp add: B0)
  have B1: "(tiny_bin ?TE)(k := None) = tiny_bin ?T" by (simp add: tiny_bin_def fun_eq_iff)
  obtain bins where bok: "small_ok h c1 bins (tiny_bin ?TE)" using st by (auto simp: block_step_def)
  have sh1: "shape h (1 + pages rs) ?m1" using sh by simp
  have bok1: "small_ok h (cells ?m1) bins (tiny_bin ?TE)" using bok by simp
  have DB: "dom (tiny_bin ?TE) \<subseteq> dom T" using tiny_bin_dom domT by blast
  have D: "dom (tiny_bin ?TE) \<subseteq> {1..<1 + pages rs}" using DB heap_inv_dom(1) [OF inv] by blast
  let ?K = "{j. tiny_bin ?TE j = Some ?b}"
  have KD: "?K \<subseteq> dom T" using DB by blast
  have K52: "?K \<subseteq> {1..<2 ^ 52}" using KD heap_inv_dom(2) [OF inv] by blast
  obtain c2 bins' where u: "small_bin_unlink (pg h k) ?m1 = Some (?m1\<lparr>cells := c2\<rparr>)" "small_ok h c2 bins' ((tiny_bin ?TE)(k := None))"
    and out: "\<And>a. a \<notin> small_bin_cells h ?b ?K \<Longrightarrow> c2 a = cells ?m1 a"
    by (rule small_bin_unlink_ok [OF sh1 bok1 D Bk]) (rule that; assumption)
  have out1: "c2 a = c1 a" if "a \<notin> small_bin_cells h ?b ?K" for a using out [OF that] by simp
  have b23: "?b < 23" by (rule bin_idx_of_nat(2) [OF t(1)])
  have hd: "c2 a = c1 a" if "?TE j = Some (s, B)" "a \<in> header_cells (pg h j) s" for j s B a
  proof -
    have j: "1 \<le> j" "j < 2 ^ 52" using heap_inv_dom(2) [OF inv] that(1) domT by (metis atLeastLessThan_iff domI subsetD)+
    have "s \<in> set tiny_classes" using slabs_okD [OF bs(1) that(1)] by simp
    then show ?thesis by (rule header_relink [OF h j _ b23 K52 out1 that(2)])
  qed
  have "packed_change h ?C c1 c2"
    unfolding packed_change_def
  proof (intro conjI allI impI ballI)
    fix a assume a: "a \<notin> packed_cells h ?C"
    have "?K \<subseteq> dom ?C" using KD domT by simp
    then have "a \<notin> small_bin_cells h ?b ?K"
      using small_cells_packed [of a h ?K ?C] a small_bin_cells_sub [OF b23 subset_refl, of h ?K] by blast
    then show "c2 a = c1 a" by (rule out1)
  next
    fix j assume "j \<in> dom ?C"
    then obtain s B where "?TE j = Some (s, B)" by (metis dom_classes domD prod.exhaust)
    then have "c2 (pg h j) = c1 (pg h j)" by (rule hd [OF _ header_cells_start])
    then show "bit (c2 (pg h j)) 0 = bit (c1 (pg h j)) 0" "bit (c2 (pg h j)) 1 = bit (c1 (pg h j)) 1" by simp_all
  qed
  with bs(2) have ch: "packed_change h ?C (cells m) c2" by (rule packed_change_trans)
  have TU: "?U j = Some 1" if "j \<in> dom T" for j using packed_okD(4) [OF ok] that by (metis domD prod.exhaust)
  have "client_change h ?U (cells m) c2"
  proof (rule packed_change_client [OF ch h])
    show "?U j = Some 1" if "j \<in> dom ?C" for j using that unfolding domC by (rule TU)
    show "1 \<le> j \<and> j < 2 ^ 52" if "?U j = Some n" for j n using used_map_range [OF sl that] by simp
  qed
  then have sl2: "slab_inv h rs (m\<lparr>cells := c2\<rparr>)" by (rule slab_inv_client [OF sl])
  obtain xs ys where x: "rs = xs @ Used 1 # ys" "k = 1 + pages xs" using used_map_split [OF t(4)] by blast
  obtain m' where f: "int_free_slab h (pg h k) (of_nat 1) (m\<lparr>cells := c2\<rparr>) = Some m'"
    "slab_inv h (give_back xs 1 ys) m'" "quiet h (used_map 1 (give_back xs 1 ys)) (m\<lparr>cells := c2\<rparr>) m'"
    by (rule int_free_slab_ok [OF sl2 [unfolded x(1)] x(2)])
  have U': "used_map 1 (give_back xs 1 ys) = ?U'" using give_back_maps [OF sl [unfolded x(1)] x(2)] x(1) by simp
  have kp: "kept h ?U' c2 (cells m')" using f(3) unfolding quiet_def U' by simp
  have TU': "?U' j = Some 1" if "?T j = Some (s, B)" for j s B
    using packed_okD(4) [OF ok, of j s B] that by (cases "j = k") simp_all
  have ok2: "packed_ok h ?T ?U' c2"
    unfolding packed_ok_def
  proof (intro conjI allI impI)
    show "slabs_ok h ?T c2"
      unfolding slabs_ok_def
    proof (intro allI impI)
      fix j s B assume "?T j = Some (s, B)"
      then have T0: "?TE j = Some (s, B)" by (cases "j = k") simp_all
      have sj: "s \<in> set tiny_classes" "packed_at c1 (pg h j) s B" using slabs_okD [OF bs(1) T0] by simp_all
      have "packed_at c2 (pg h j) s B" by (rule packed_at_same [OF sj(2) hd [OF T0]])
      then show "s \<in> set tiny_classes \<and> packed_at c2 (pg h j) s B" using sj by blast
    qed
    show "\<exists>bins. small_ok h c2 bins (tiny_bin ?T)" using u(2) unfolding B1 by blast
    fix j s B assume T: "?T j = Some (s, B)"
    show "B \<noteq> {}" using packed_okD(3) [OF ok, of j s B] T by (cases "j = k") simp_all
    show "?U' j = Some 1" by (rule TU' [OF T])
  qed
  show thesis
  proof (rule that)
    show "free_tail h (pg h k) {} ?m1 = Some m'" using u(1) f(1) by (simp add: free_tail_def)
    have "packed_ok h ?T ?U' (cells m')" by (rule packed_ok_kept [OF ok2 kp]) (rule TU')
    then show "heap_inv h (give_back xs 1 ys) ?T m'" unfolding heap_inv_def U' using f(2) by blast
    show "used_map 1 (give_back xs 1 ys) = ?U'" by (rule U')
    show "\<exists>l\<ge>1. has_free (give_back xs 1 ys) l" by (rule give_back_has_free) simp
    have "m' = (m\<lparr>cells := c2\<rparr>)\<lparr>cells := cells m'\<rparr>" using f(3) unfolding quiet_def by blast
    then show "m' = m\<lparr>cells := cells m'\<rparr>" by simp
    have ap: "apart ?U'" by (rule apart_less [OF apart_used [OF sl]]) (simp split: if_splits)
    have "spares h ?T ?U' (cells m) c2"
    proof (rule packed_change_spares [OF ch h ap TU'])
      show "(\<exists>A. ?T j = Some (s, A)) \<or> (j < 2 ^ 52 \<and> 1 \<le> j \<and> (\<forall>i n. ?U' i = Some n \<longrightarrow> j < i \<or> i + n \<le> j))"
        if C: "?C j = Some s" for j s
      proof (cases "j = k")
        case True
        have "k < i \<or> i + n \<le> k" if "?U' i = Some n" for i n
        proof -
          have "?U i = Some n" "k \<noteq> i" using that by (simp_all split: if_splits)
          then have "k + 1 \<le> i \<or> i + n \<le> k" using apart_used [OF sl] t(4) unfolding apart_def by blast
          then show ?thesis by linarith
        qed
        then show ?thesis using True kN k52 by blast
      next
        case False
        then show ?thesis using C by (auto simp: classes_def)
      qed
    qed
    moreover have "spares h ?T ?U' c2 (cells m')" by (rule kept_spares [OF kp TU'])
    ultimately show "spares h ?T ?U' (cells m) (cells m')" by (rule spares_trans)
  qed
qed

definition drop_block :: "packed_map \<Rightarrow> nat \<Rightarrow> u32 \<Rightarrow> nat set \<Rightarrow> packed_map" where
  "drop_block T k sz A = (if A = {} then T(k := None) else T(k \<mapsto> (sz, A)))"

lemma tiny_free_ok:
  assumes inv: "heap_inv h rs T m" and src: "Heap_ok m" and hp: "heap_ptr m = h" and k: "T k = Some (sz, A)" and i: "i \<in> A"
  defines "T' \<equiv> drop_block T k sz (A - {i})"
  obtains rs' m' where "mm_free (blk (pg h k) sz i) m = Some m'" "heap_inv h rs' T' m'" "Heap_ok m'" "heap_ptr m' = h"
    and "used_map 1 rs' = (if A = {i} then (used_map 1 rs)(k := None) else used_map 1 rs)"
    and "spares h T' (used_map 1 rs') (cells m) (cells m')" "m' = m\<lparr>cells := cells m'\<rparr>"
    and "A = {i} \<longrightarrow> (\<exists>l\<ge>1. has_free rs' l)"
proof -
  have sl: "slab_inv h rs m" and ok: "packed_ok h T (used_map 1 rs) (cells m)" using inv by (simp_all add: heap_inv_def)
  note t = packed_okD [OF ok k]
  have sh: "shape h (1 + pages rs) m" by (rule inv_basic [OF sl])
  have so: "slabs_ok h T (cells m)" using ok by (simp add: packed_ok_def)
  have iN: "i < nblk sz" using t(2) i by (auto simp: packed_at_def)
  obtain bins where bok: "small_ok h (cells m) bins (tiny_bin T)" using ok by (auto simp: packed_ok_def)
  obtain c1 where f: "packed_free_switch h (pg h k) (blk (pg h k) sz i) (size_to_sz_class sz) m
      = free_tail h (pg h k) (A - {i}) (m\<lparr>cells := c1\<rparr>)" and st: "block_step h T k sz (A - {i}) (cells m) c1"
    by (rule free_switch_ok [OF sh so bok heap_inv_dom(1) [OF inv] k i])
  note ex = mm_free_tiny [OF inv src hp k iN, unfolded f]
  show thesis
  proof (cases "A - {i} = {}")
    case True
    then have Ai: "A = {i}" using i by blast
    obtain m' rs' where r: "free_tail h (pg h k) {} (m\<lparr>cells := c1\<rparr>) = Some m'" "heap_inv h rs' (T(k := None)) m'"
      "used_map 1 rs' = (used_map 1 rs)(k := None)" "m' = m\<lparr>cells := cells m'\<rparr>"
      "spares h (T(k := None)) ((used_map 1 rs)(k := None)) (cells m) (cells m')" "\<exists>l\<ge>1. has_free rs' l"
      by (rule release_slab [OF inv k st [unfolded True]])
    have T': "T' = T(k := None)" by (simp add: T'_def drop_block_def True)
    have "Heap_ok m'" "heap_ptr m' = h" by (subst r(4), simp add: Heap_ok_cells src hp)+
    then show thesis using that [of m' rs'] ex r unfolding T' by (simp add: Ai)
  next
    case False
    have T': "T' = T(k \<mapsto> (sz, A - {i}))" unfolding T'_def drop_block_def if_not_P [OF False] ..
    have U: "(if A = {i} then (used_map 1 rs)(k := None) else used_map 1 rs) = used_map 1 rs" using False by auto
    note bs = block_step_heap [OF inv st t(4,1) False]
    have sp: "spares h T' (used_map 1 rs) (cells m) c1"
    proof (rule packed_change_spares [OF bs(2) inv_basic(1) [OF sl] apart_used [OF sl]])
      show "used_map 1 rs j = Some 1" if "T' j = Some (s, B)" for j s B
        using that t(4) packed_okD(4) [OF ok, of j s B] by (cases "j = k") (simp_all add: T')
      show "(\<exists>A. T' j = Some (s, A)) \<or> (j < 2 ^ 52 \<and> 1 \<le> j \<and> (\<forall>i n. used_map 1 rs i = Some n \<longrightarrow> j < i \<or> i + n \<le> j))"
        if "classes (T(k \<mapsto> (sz, A - {i}))) j = Some s" for j s
        using that by (auto simp: classes_def T')
    qed
    show thesis
    proof (rule that)
      show "mm_free (blk (pg h k) sz i) m = Some (m\<lparr>cells := c1\<rparr>)" unfolding ex free_tail_def if_not_P [OF False] ..
      show "heap_inv h rs T' (m\<lparr>cells := c1\<rparr>)" using bs(1) unfolding T' .
      show "A = {i} \<longrightarrow> (\<exists>l\<ge>1. has_free rs l)" using False by auto
      show "used_map 1 rs = (if A = {i} then (used_map 1 rs)(k := None) else used_map 1 rs)" unfolding U ..
    qed (use src hp sp in \<open>simp_all add: Heap_ok_cells\<close>)
  qed
qed

end
