(* ===== verification/Tiny_Machine.thy ===== *)
theory Tiny_Machine
  imports Tiny_Free
begin

unbundle bit_operations_syntax

section \<open>Tiny blocks as a state machine\<close>

text \<open>
  A client of \<^verbatim>\<open>malloc\<close> and \<^verbatim>\<open>free\<close> with requests of at most 496 bytes: \<open>live\<close> maps
  the address of every block it owns to the number of bytes it may use there. It
  allocates, frees and writes into its blocks in any order.
\<close>

type_synonym blocks = "u64 \<rightharpoonup> nat"

inductive tiny_move :: "memory \<times> blocks \<Rightarrow> memory \<times> blocks \<Rightarrow> bool" where
  malloc: "0 < n \<Longrightarrow> n \<le> 496 \<Longrightarrow> mm_malloc Heap_sbrk n m = Some (p, m') \<Longrightarrow>
    tiny_move (m, live) (m', live(p \<mapsto> unat (tiny_class n)))"
| free: "live p = Some l \<Longrightarrow> mm_free p m = Some m' \<Longrightarrow> tiny_move (m, live) (m', live(p := None))"
| put: "live p = Some l \<Longrightarrow> d < l \<Longrightarrow> store8 m (p + of_nat d) v = Some m' \<Longrightarrow> tiny_move (m, live) (m', live)"

inductive tiny_reachable :: "u64 \<Rightarrow> memory \<times> blocks \<Rightarrow> bool" for h where
  init: "Heap_ok m \<Longrightarrow> Heap_room 4096 m \<Longrightarrow> page_aligned h \<Longrightarrow> arena_start m = h \<Longrightarrow> arena_end m = h \<Longrightarrow>
    mm_init Heap_sbrk m = Some (r, m') \<Longrightarrow> tiny_reachable h (m', Map.empty)"
| step: "tiny_reachable h st \<Longrightarrow> tiny_move st st' \<Longrightarrow> tiny_reachable h st'"

inductive_cases tiny_moveE: "tiny_move (m, live) (m', live')"

definition disjoint_block :: "blocks \<Rightarrow> u64 \<Rightarrow> nat \<Rightarrow> bool" where
  "disjoint_block live p l \<longleftrightarrow> (\<forall>q k. live q = Some k \<longrightarrow> unat q + k \<le> unat p \<or> unat p + l \<le> unat q)"

subsection \<open>The blocks of the packed slabs\<close>

definition blocks_of :: "u64 \<Rightarrow> packed_map \<Rightarrow> (u64 \<times> nat) set" where
  "blocks_of h T = {(blk (pg h k) sz i, unat sz) | k sz A i. T k = Some (sz, A) \<and> i \<in> A}"

text \<open>With tiny blocks only, every used region is a packed slab and the medium bins are empty.\<close>

definition all_packed :: "(nat \<rightharpoonup> nat) \<Rightarrow> packed_map \<Rightarrow> bool" where
  "all_packed U T \<longleftrightarrow> U = (\<lambda>k. map_option (\<lambda>_. 1) (T k))"

definition no_medium :: "u64 \<Rightarrow> (u64 \<Rightarrow> u64) \<Rightarrow> bool" where
  "no_medium h c \<longleftrightarrow> (\<forall>i<224. c (h + of_nat (2232 + 8 * i)) = 0)"

definition tiny_inv :: "u64 \<Rightarrow> region list \<Rightarrow> packed_map \<Rightarrow> memory \<times> blocks \<Rightarrow> bool" where
  "tiny_inv h rs T st \<longleftrightarrow> heap_inv h rs T (fst st) \<and> Heap_ok (fst st) \<and> heap_ptr (fst st) = h
     \<and> (\<forall>p l. snd st p = Some l \<longleftrightarrow> (p, l) \<in> blocks_of h T)
     \<and> all_packed (used_map 1 rs) T \<and> no_medium h (cells (fst st))"

lemma medium_head_offset:
  assumes "i < 224"
  shows "2232 \<le> (of_nat (2232 + 8 * i) :: u64)" "(of_nat (2232 + 8 * i) :: u64) < 4024" "(of_nat (2232 + 8 * i) :: u64) AND 7 = 0"
proof -
  have u: "unat (of_nat (2232 + 8 * i) :: u64) = 2232 + 8 * i" using assms by (simp only: unat_of_nat) simp
  show "2232 \<le> (of_nat (2232 + 8 * i) :: u64)" "(of_nat (2232 + 8 * i) :: u64) < 4024"
    using assms by (simp_all only: word_le_nat_alt word_less_nat_alt u) simp_all
  have "(of_nat (2232 + 8 * i) :: u64) AND 7 = take_bit 3 (of_nat (2232 + 8 * i))" by (simp add: take_bit_eq_mask mask_eq_exp_minus_1)
  then have "unat ((of_nat (2232 + 8 * i) :: u64) AND 7) = (2232 + 8 * i) mod 8"
    by (simp only: unsigned_take_bit_eq u) (simp add: take_bit_eq_mod)
  then show "(of_nat (2232 + 8 * i) :: u64) AND 7 = 0" by (simp add: unat_eq_zero)
qed

lemma no_medium_spares: "no_medium h c \<Longrightarrow> spares h T U c c' \<Longrightarrow> no_medium h c'"
proof -
  assume n: "no_medium h c" and s: "spares h T U c c'"
  have "c' (h + of_nat (2232 + 8 * i)) = c (h + of_nat (2232 + 8 * i))" if i: "i < 224" for i
  proof -
    note o = medium_head_offset(1,2) [OF i]
    have "d < 4072 \<and> d \<noteq> 4024 \<and> d \<noteq> 4032" if "d < 4024" for d :: u64 using that by (auto intro: less_trans)
    from this [OF o(2)] show ?thesis using s o(1) unfolding spares_def by blast
  qed
  then show ?thesis using n unfolding no_medium_def by simp
qed

lemma tiny_invD:
  assumes "tiny_inv h rs T (m, live)"
  shows "heap_inv h rs T m" "Heap_ok m" "heap_ptr m = h" "live p = Some l \<longleftrightarrow> (p, l) \<in> blocks_of h T"
    "all_packed (used_map 1 rs) T" "no_medium h (cells m)"
  using assms by (simp_all add: tiny_inv_def)

lemma blocks_ofE:
  assumes "(p, l) \<in> blocks_of h T"
  obtains k sz A i where "T k = Some (sz, A)" "i \<in> A" "p = blk (pg h k) sz i" "l = unat sz"
  using assms unfolding blocks_of_def by blast

text \<open>Where a block lies.\<close>

lemma block_place:
  assumes inv: "heap_inv h rs T m" and k: "T k = Some (sz, A)" and i: "i < nblk sz"
  defines "p \<equiv> blk (pg h k) sz i"
  shows "unat p = unat h + 4096 * k + (hdr sz + i * unat sz)" "p \<noteq> 0" "unat p + unat sz \<le> unat h + 4096 * k + 4096"
    "1 \<le> k" "k < 1 + pages rs" "16 dvd unat p" "sz \<in> set tiny_classes" "unat p + unat sz \<le> unat (arena_end m)"
    "32 \<le> hdr sz"
proof -
  have sl: "slab_inv h rs m" and ok: "packed_ok h T (used_map 1 rs) (cells m)" using inv by (simp_all add: heap_inv_def)
  note t = packed_okD [OF ok k]
  have sh: "shape h (1 + pages rs) m" and h: "page_aligned h" by (rule inv_basic [OF sl])+
  show sz: "sz \<in> set tiny_classes" by (rule t(1))
  show kN: "1 \<le> k" "k < 1 + pages rs" using used_map_range [OF sl t(4)] by simp_all
  show u: "unat p = unat h + 4096 * k + (hdr sz + i * unat sz)" and "p \<noteq> 0"
    unfolding p_def by (rule blk_nonnull [OF sh kN t(1) i])+
  show e: "unat p + unat sz \<le> unat h + 4096 * k + 4096" using blk_offset(1) [OF sz i] unfolding u by linarith
  have "16 dvd unat h"
  proof -
    have "take_bit 12 (unat h) = unat (take_bit 12 h)" by (simp only: unsigned_take_bit_eq)
    then have "unat h mod 4096 = 0" using h by (simp add: page_aligned_def take_bit_eq_mod)
    then have "4096 dvd unat h" by (rule mod_0_imp_dvd)
    then show ?thesis by (rule dvd_trans [rotated]) simp
  qed
  moreover have "16 dvd hdr sz" "16 dvd unat sz" by (rule class_facts [OF sz])+
  ultimately show "16 dvd unat p" unfolding u by simp
  show "32 \<le> hdr sz" using hdr_bounds(1) [of sz] by auto
  have "unat (arena_end m) = unat h + 4096 * (1 + pages rs)" using sh by (simp add: shape_def unat_pg)
  moreover have "4096 * k + 4096 \<le> 4096 * (1 + pages rs)" using kN(2) by simp
  ultimately show "unat p + unat sz \<le> unat (arena_end m)" using e by linarith
qed

lemma blocks_apart:
  assumes inv: "heap_inv h rs T m" and k: "T k = Some (sz, A)" "i < nblk sz" and j: "T j = Some (s, B)" "n < nblk s"
    and ne: "k \<noteq> j \<or> i \<noteq> n"
  shows "unat (blk (pg h k) sz i) + unat sz \<le> unat (blk (pg h j) s n) \<or> unat (blk (pg h j) s n) + unat s \<le> unat (blk (pg h k) sz i)"
proof -
  note p = block_place [OF inv k] and q = block_place [OF inv j]
  consider "k < j" | "j < k" | "k = j" "i < n" | "k = j" "n < i" using ne by linarith
  then show ?thesis
  proof cases
    case 1
    then have "4096 * k + 4096 \<le> 4096 * j" by simp
    then show ?thesis using p(3) q(1) by linarith
  next
    case 2
    then have "4096 * j + 4096 \<le> 4096 * k" by simp
    then show ?thesis using q(3) p(1) by linarith
  next
    case 3
    then have s: "s = sz" using k j by simp
    have "(i + 1) * unat sz \<le> n * unat sz" using 3 by (intro mult_le_mono1) simp
    then have "i * unat sz + unat sz \<le> n * unat sz" by simp
    then show ?thesis unfolding p(1) q(1) using 3 s by simp
  next
    case 4
    then have s: "s = sz" using k j by simp
    have "(n + 1) * unat sz \<le> i * unat sz" using 4 by (intro mult_le_mono1) simp
    then have "n * unat sz + unat sz \<le> i * unat sz" by simp
    then show ?thesis unfolding p(1) q(1) using 4 s by simp
  qed
qed

lemma blocks_inj:
  assumes inv: "heap_inv h rs T m" and k: "T k = Some (sz, A)" "i < nblk sz" and j: "T j = Some (s, B)" "n < nblk s"
    and eq: "blk (pg h k) sz i = blk (pg h j) s n"
  shows "k = j \<and> i = n"
proof (rule ccontr)
  assume "\<not> (k = j \<and> i = n)"
  then have "unat sz = 0 \<or> unat s = 0" using blocks_apart [OF inv k j] eq by auto
  then show False
    using class_facts(8) [OF block_place(7) [OF inv k]] class_facts(8) [OF block_place(7) [OF inv j]] by simp
qed

lemma allocated_index:
  assumes "heap_inv h rs T m" "T k = Some (sz, A)" "i \<in> A"
  shows "i < nblk sz"
  using assms packed_okD(2) [of h T "used_map 1 rs" "cells m" k sz A] by (auto simp: heap_inv_def packed_at_def)

lemma heap_inv_used: "heap_inv h rs T m \<Longrightarrow> T k = Some (sz, A) \<Longrightarrow> used_map 1 rs k = Some 1"
  unfolding heap_inv_def by (blast intro: packed_okD(4))

lemma blocks_of_insert:
  assumes "T k = Some (sz, A) \<or> T k = None \<and> A = {}"
  shows "blocks_of h (T(k \<mapsto> (sz, insert i A))) = insert (blk (pg h k) sz i, unat sz) (blocks_of h T)"
proof (intro set_eqI iffI; clarify)
  fix p l assume m: "(p, l) \<in> blocks_of h (T(k \<mapsto> (sz, insert i A)))" and n: "(p, l) \<notin> blocks_of h T"
  from m obtain j s B n where b: "(T(k \<mapsto> (sz, insert i A))) j = Some (s, B)" "n \<in> B" "p = blk (pg h j) s n" "l = unat s"
    by (rule blocks_ofE)
  show "p = blk (pg h k) sz i \<and> l = unat sz"
  proof (cases "j = k \<and> n = i")
    case True
    then show ?thesis using b by simp
  next
    case False
    have "\<exists>B'. T j = Some (s, B') \<and> n \<in> B'"
    proof (cases "j = k")
      case True
      then have "s = sz" "n \<in> A" using b False by auto
      then show ?thesis using assms True by auto
    qed (use b in simp)
    then have "(p, l) \<in> blocks_of h T" unfolding blocks_of_def using b(3,4) by blast
    then show ?thesis using n by blast
  qed
next
  fix p l assume "(p, l) \<in> insert (blk (pg h k) sz i, unat sz) (blocks_of h T)"
  then show "(p, l) \<in> blocks_of h (T(k \<mapsto> (sz, insert i A)))"
  proof
    assume "(p, l) = (blk (pg h k) sz i, unat sz)"
    then show ?thesis unfolding blocks_of_def by force
  next
    assume "(p, l) \<in> blocks_of h T"
    then obtain j s B n where b: "T j = Some (s, B)" "n \<in> B" "p = blk (pg h j) s n" "l = unat s" by (rule blocks_ofE)
    have "\<exists>B'. (T(k \<mapsto> (sz, insert i A))) j = Some (s, B') \<and> n \<in> B'" using b(1,2) assms by (cases "j = k") auto
    then show ?thesis unfolding blocks_of_def using b(3,4) by blast
  qed
qed

lemma blocks_of_remove:
  assumes inv: "heap_inv h rs T m" and k: "T k = Some (sz, A)" and i: "i \<in> A"
  shows "blocks_of h (drop_block T k sz (A - {i})) = blocks_of h T - {(blk (pg h k) sz i, unat sz)}"
proof (rule set_eqI, rule iffI)
  have iN: "i < nblk sz" by (rule allocated_index [OF inv k i])
  have drop: "(\<exists>B. drop_block T k sz (A - {i}) j = Some (s, B) \<and> n \<in> B) \<longleftrightarrow> (\<exists>B. T j = Some (s, B) \<and> n \<in> B \<and> (j \<noteq> k \<or> n \<noteq> i))" for j s n
    using k by (cases "j = k") (auto simp: drop_block_def)
  fix x
  show "x \<in> blocks_of h T - {(blk (pg h k) sz i, unat sz)}" if m: "x \<in> blocks_of h (drop_block T k sz (A - {i}))"
  proof -
    obtain p l where x: "x = (p, l)" by fastforce
    from m [unfolded x] obtain j s B n where b: "drop_block T k sz (A - {i}) j = Some (s, B)" "n \<in> B" "p = blk (pg h j) s n" "l = unat s"
      by (rule blocks_ofE)
    obtain B' where B': "T j = Some (s, B')" "n \<in> B'" "j \<noteq> k \<or> n \<noteq> i" using drop b(1,2) by blast
    have "p \<noteq> blk (pg h k) sz i"
      using blocks_inj [OF inv B'(1) allocated_index [OF inv B'(1,2)] k iN] B'(3) b(3) by argo
    moreover have "(p, l) \<in> blocks_of h T" unfolding blocks_of_def using B' b(3,4) by blast
    ultimately show ?thesis by (simp add: x)
  qed
  show "x \<in> blocks_of h (drop_block T k sz (A - {i}))" if m: "x \<in> blocks_of h T - {(blk (pg h k) sz i, unat sz)}"
  proof -
    obtain p l where x: "x = (p, l)" by fastforce
    have pl: "(p, l) \<in> blocks_of h T" and ne: "\<not> (p = blk (pg h k) sz i \<and> l = unat sz)" using m x by simp_all
    from pl obtain j s B n where b: "T j = Some (s, B)" "n \<in> B" "p = blk (pg h j) s n" "l = unat s" by (rule blocks_ofE)
    then have "j \<noteq> k \<or> n \<noteq> i" using ne k by auto
    then obtain B' where "drop_block T k sz (A - {i}) j = Some (s, B')" "n \<in> B'" using drop b(1,2) by blast
    then show ?thesis unfolding blocks_of_def x using b(3,4) by blast
  qed
qed

subsection \<open>The contents of blocks\<close>

definition keeps_blocks :: "blocks \<Rightarrow> memory \<Rightarrow> memory \<Rightarrow> bool" where
  "keeps_blocks live m m' \<longleftrightarrow> (\<forall>p l d. live p = Some l \<longrightarrow> d < l \<longrightarrow> load8 m' (p + of_nat d) = load8 m (p + of_nat d))"

text \<open>A byte of a block is a lane of a cell behind the slab's header.\<close>

lemma block_byte:
  assumes inv: "heap_inv h rs T m" and k: "T k = Some (sz, A)" and i: "i < nblk sz" and d: "d < unat sz"
  obtains e where "blk (pg h k) sz i + of_nat d = pg h k + e" "e < 4096" "of_nat (hdr sz) \<le> e AND - 8" "e AND - 8 < 4096"
    "valid_cell m (pg h k + (e AND - 8))"
proof -
  have sl: "slab_inv h rs m" using inv by (simp add: heap_inv_def)
  note pl = block_place [OF inv k i]
  have sh: "shape h (1 + pages rs) m" by (rule inv_basic [OF sl])
  define x where "x = hdr sz + i * unat sz + d"
  define e where "e = (of_nat x :: u64)"
  have x: "x < 4096" "hdr sz \<le> x" using blk_offset(1) [OF pl(7) i] d by (simp_all add: x_def)
  have u: "unat e = x" using x(1) unfolding e_def by (simp only: unat_of_nat) simp
  have e1: "blk (pg h k) sz i + of_nat d = pg h k + e" by (simp add: blk_def e_def x_def algebra_simps)
  have e2: "e < 4096" using x(1) by (simp add: word_less_nat_alt u)
  have c: "unat (e AND - 8) = 8 * (x div 8)" by (simp only: unat_and_not_7 u)
  have le: "8 * (x div 8) \<le> x" by simp
  then have e4: "e AND - 8 < 4096" using x(1) by (simp add: word_less_nat_alt c)
  have "16 dvd hdr sz" by (rule class_facts [OF pl(7)])
  then have "hdr sz = 8 * (hdr sz div 8)" by (metis dvd_mult_div_cancel dvd_trans dvd_triv_left numeral_times_numeral semiring_norm(13) semiring_norm(12) mult.commute)
  then have "hdr sz \<le> 8 * (x div 8)" using x(2) div_le_mono [OF x(2), of 8] by linarith
  moreover have "unat (of_nat (hdr sz) :: u64) = hdr sz" using hdr_bounds(2) [of sz] by (simp only: unat_of_nat) simp
  ultimately have e3: "of_nat (hdr sz) \<le> e AND - 8" by (simp only: word_le_nat_alt c)
  have "(e AND - 8) AND 7 = (0 :: u64)" by (rule bit_eqI) (auto simp: bit_simps)
  then have "valid_cell m (pg h k + (e AND - 8))" by (rule shape_valid [OF sh pl(5) e4])
  then show thesis by (rule that [OF e1 e2 e3 e4])
qed

lemma block_load:
  assumes inv: "heap_inv h rs T m" and k: "T k = Some (sz, A)" and i: "i < nblk sz" and d: "d < unat sz"
    and v: "\<And>a. valid_cell m a \<Longrightarrow> valid_cell m' a" and sp: "spares h V W (cells m) (cells m')"
    and V: "V k = Some (sz, B)" "W k = Some 1"
  shows "load8 m' (blk (pg h k) sz i + of_nat d) = load8 m (blk (pg h k) sz i + of_nat d)"
proof -
  have h: "page_aligned (pg h k)" using inv inv_basic(1) by (auto simp: heap_inv_def)
  obtain e where e: "blk (pg h k) sz i + of_nat d = pg h k + e" "e < 4096" "of_nat (hdr sz) \<le> e AND - 8" "e AND - 8 < 4096"
    "valid_cell m (pg h k + (e AND - 8))" by (rule block_byte [OF inv k i d])
  have "user_cell h V W (pg h k + (e AND - 8))" 
    by (rule user_cellI [where T = V and U = W and k = k and n = 1]) (use e V in simp_all)
  then have c: "cells m' (pg h k + (e AND - 8)) = cells m (pg h k + (e AND - 8))" using sp by (simp add: spares_def)
  show ?thesis unfolding e(1) load_lane_page [OF h e(2,5)] load_lane_page [OF h e(2) v [OF e(5)]] c by (rule refl)
qed

subsection \<open>Every move keeps the invariant\<close>

lemma malloc_good:
  assumes inv: "tiny_inv h rs T (m, live)" and n: "0 < n" "n \<le> 496"
    and room: "(\<forall>k A. T k = Some (tiny_class n, A) \<longrightarrow> A = {..<nblk (tiny_class n)}) \<Longrightarrow> \<forall>l\<ge>1. \<not> has_free rs l \<Longrightarrow>
      Heap_room (of_nat (1 - last_free rs) * 4096) m"
  defines "l \<equiv> unat (tiny_class n)"
  obtains p m' rs' T' where "mm_malloc Heap_sbrk n m = Some (p, m')" "tiny_inv h rs' T' (m', live(p \<mapsto> l))"
    and "keeps_blocks live m m'" "live p = None" "p \<noteq> 0" "16 dvd unat p" "disjoint_block live p l"
    and "(\<exists>j B. T j = Some (tiny_class n, B) \<and> B \<noteq> {..<nblk (tiny_class n)}) \<or> (\<exists>l\<ge>1. has_free rs l) \<longrightarrow> arena_end m' = arena_end m"
    and "unat (arena_end m') \<le> unat (arena_end m) + 4096" "arena_max m' = arena_max m" "arena_start m' = arena_start m"
proof -
  let ?sz = "tiny_class n"
  note g = tiny_invD [OF inv]
  obtain k i A rs' m' where r: "mm_malloc Heap_sbrk n m = Some (blk (pg h k) ?sz i, m')"
    "heap_inv h rs' (T(k \<mapsto> (?sz, insert i A))) m'" "Heap_ok m'" "heap_ptr m' = h" "i < nblk ?sz" "i \<notin> A"
    "T k = Some (?sz, A) \<or> T k = None \<and> used_map 1 rs k = None \<and> A = {}"
    "spares h T (used_map 1 rs) (cells m) (cells m')" "used_map 1 rs' = (used_map 1 rs)(k \<mapsto> 1)"
    "(\<exists>j B. T j = Some (?sz, B) \<and> B \<noteq> {..<nblk ?sz}) \<or> (\<exists>l\<ge>1. has_free rs l) \<longrightarrow> arena_end m' = arena_end m"
    "pages rs \<le> pages rs'" "pages rs' \<le> pages rs + 1" "arena_max m' = arena_max m"
    by (rule tiny_malloc_ok [OF g(1-3) n room])
  let ?p = "blk (pg h k) ?sz i" and ?T = "T(k \<mapsto> (?sz, insert i A))"
  have Tk: "?T k = Some (?sz, insert i A)" by simp
  note pl = block_place [OF r(2) Tk r(5)]
  have A: "T k = Some (?sz, A) \<or> T k = None \<and> A = {}" using r(7) by blast
  have B: "blocks_of h ?T = insert (?p, l) (blocks_of h T)" unfolding l_def by (rule blocks_of_insert) (rule A)
  have lift: "\<exists>B'. ?T j = Some (s, B') \<and> (j \<noteq> k \<or> b \<noteq> i)" if "T j = Some (s, B)" "b \<in> B" for j s B b
    using that A r(6) by (cases "j = k") auto
  have fresh: "unat q + x \<le> unat ?p \<or> unat ?p + l \<le> unat q" "q \<noteq> ?p" if qx: "(q, x) \<in> blocks_of h T" for q x
  proof -
    from qx obtain j s B b where b: "T j = Some (s, B)" "b \<in> B" "q = blk (pg h j) s b" "x = unat s" by (rule blocks_ofE)
    obtain B' where B': "?T j = Some (s, B')" "j \<noteq> k \<or> b \<noteq> i" using lift [OF b(1,2)] by blast
    have bN: "b < nblk s" by (rule allocated_index [OF g(1) b(1,2)])
    show "unat q + x \<le> unat ?p \<or> unat ?p + l \<le> unat q"
      using blocks_apart [OF r(2) B'(1) bN Tk r(5) B'(2)] unfolding b(3,4) l_def by blast
    show "q \<noteq> ?p" using blocks_inj [OF r(2) B'(1) bN Tk r(5)] B'(2) unfolding b(3) by argo
  qed
  have sl: "slab_inv h rs m" "slab_inv h rs' m'" using g(1) r(2) by (simp_all add: heap_inv_def)
  have ends: "unat (arena_end m) = unat h + 4096 * (1 + pages rs)" "unat (arena_end m') = unat h + 4096 * (1 + pages rs')"
    "arena_start m' = arena_start m"
    using inv_basic(2) [OF sl(1)] inv_basic(2) [OF sl(2)] by (simp_all add: shape_def unat_pg)
  have none: "live ?p = None" using fresh(2) g(4) by (cases "live ?p") auto
  have dj: "disjoint_block live ?p l" unfolding disjoint_block_def using fresh(1) g(4) by blast
  have "tiny_inv h rs' ?T (m', live(?p \<mapsto> l))"
    unfolding tiny_inv_def
  proof (intro conjI allI)
    show "(snd (m', live(?p \<mapsto> l)) q = Some x) = ((q, x) \<in> blocks_of h ?T)" for q x
      unfolding B using g(4) [of q x] none by (cases "q = ?p") auto
    show "all_packed (used_map 1 rs') ?T" using g(5) unfolding r(9) all_packed_def by (auto simp: fun_eq_iff)
    show "no_medium h (cells (fst (m', live(?p \<mapsto> l))))" using no_medium_spares [OF g(6) r(8)] by simp
  qed (use r in simp_all)
  moreover have "keeps_blocks live m m'"
    unfolding keeps_blocks_def
  proof (intro allI impI)
    fix q x d assume q: "live q = Some x" "d < x"
    then have "(q, x) \<in> blocks_of h T" using g(4) by blast
    then obtain j s B b where b: "T j = Some (s, B)" "b \<in> B" "q = blk (pg h j) s b" "x = unat s" by (rule blocks_ofE)
    have bN: "b < nblk s" by (rule allocated_index [OF g(1) b(1,2)])
    have U: "used_map 1 rs j = Some 1" by (rule heap_inv_used [where T = T]) (rule g(1), rule b(1))
    have v: "valid_cell m' a" if "valid_cell m a" for a
      using that ends r(11) by (simp add: valid_cell_def)
    show "load8 m' (q + of_nat d) = load8 m (q + of_nat d)"
      unfolding b(3) by (rule block_load [OF g(1) b(1) bN _ v r(8) b(1) U]) (use q b(4) in simp_all)
  qed
  moreover have "unat (arena_end m') \<le> unat (arena_end m) + 4096" using ends(1,2) r(12) by simp
  ultimately show thesis using that r(1,10,13) none pl(2,6) dj ends(3) by blast
qed

lemma free_good:
  assumes inv: "tiny_inv h rs T (m, live)" and p: "live p = Some l"
  obtains m' rs' T' k sz A i where "mm_free p m = Some m'" "tiny_inv h rs' T' (m', live(p := None))"
    and "keeps_blocks (live(p := None)) m m'" "arena_end m' = arena_end m"
    and "T k = Some (sz, A)" "i \<in> A" "p = blk (pg h k) sz i" "l = unat sz" "T' = drop_block T k sz (A - {i})"
    and "A = {i} \<longrightarrow> (\<exists>l\<ge>1. has_free rs' l)"
proof -
  note g = tiny_invD [OF inv]
  have "(p, l) \<in> blocks_of h T" using p g(4) by blast
  then obtain k sz A i where b: "T k = Some (sz, A)" "i \<in> A" "p = blk (pg h k) sz i" "l = unat sz" by (rule blocks_ofE)
  let ?T = "drop_block T k sz (A - {i})"
  obtain rs' m' where r: "mm_free (blk (pg h k) sz i) m = Some m'" "heap_inv h rs' ?T m'" "Heap_ok m'" "heap_ptr m' = h"
    "used_map 1 rs' = (if A = {i} then (used_map 1 rs)(k := None) else used_map 1 rs)"
    "spares h ?T (used_map 1 rs') (cells m) (cells m')" "m' = m\<lparr>cells := cells m'\<rparr>"
    "A = {i} \<longrightarrow> (\<exists>l\<ge>1. has_free rs' l)"
    by (rule tiny_free_ok [OF g(1-3) b(1,2)])
  have B: "blocks_of h ?T = blocks_of h T - {(p, l)}" unfolding b(3,4) by (rule blocks_of_remove [OF g(1) b(1,2)])
  have good: "tiny_inv h rs' ?T (m', live(p := None))"
    unfolding tiny_inv_def
  proof (intro conjI allI)
    show "(snd (m', live(p := None)) q = Some x) = ((q, x) \<in> blocks_of h ?T)" for q x
      unfolding B using g(4) [of q x] g(4) [of p x] p by (cases "q = p") auto
    have e: "A - {i} = {} \<longleftrightarrow> A = {i}" using b(2) by blast
    show "all_packed (used_map 1 rs') ?T" using g(5) b(1) unfolding r(5) all_packed_def drop_block_def e by (auto simp: fun_eq_iff)
    show "no_medium h (cells (fst (m', live(p := None))))" using no_medium_spares [OF g(6) r(6)] by simp
  qed (use r in simp_all)
  moreover have "keeps_blocks (live(p := None)) m m'"
    unfolding keeps_blocks_def
  proof (intro allI impI)
    fix q x d assume q: "(live(p := None)) q = Some x" "d < x"
    have qT: "(q, x) \<in> blocks_of h T" using q(1) g(4) by (auto split: if_splits)
    have qT': "(q, x) \<in> blocks_of h ?T" using q(1) tiny_invD(4) [OF good] by blast
    from qT' obtain j s B' n where b': "?T j = Some (s, B')" "n \<in> B'" "q = blk (pg h j) s n" "x = unat s" by (rule blocks_ofE)
    obtain B where B: "T j = Some (s, B)" "n \<in> B"
      using b' b(1) by (cases "j = k") (auto simp: drop_block_def split: if_splits)
    have nN: "n < nblk s" by (rule allocated_index [OF g(1) B])
    have U: "used_map 1 rs' j = Some 1" by (rule heap_inv_used [OF r(2)]) (rule b'(1))
    have v: "valid_cell m' a" if "valid_cell m a" for a
      by (subst r(7)) (use that in simp)
    show "load8 m' (q + of_nat d) = load8 m (q + of_nat d)"
      unfolding b'(3) by (rule block_load [OF g(1) B(1) nN _ v r(6) b'(1) U]) (use q b'(4) in simp_all)
  qed
  moreover have "arena_end m' = arena_end m" by (subst r(7)) simp
  ultimately show thesis using that r(1,8) b by blast
qed

text \<open>A client's write goes into a cell that belongs to no layer.\<close>

lemma put_tiny:
  assumes inv: "tiny_inv h rs T (m, live)" and p: "live p = Some l" and d: "d < l" and st: "store8 m (p + of_nat d) v = Some m'"
  shows "tiny_inv h rs T (m', live)"
proof -
  note g = tiny_invD [OF inv]
  have sl: "slab_inv h rs m" and ok: "packed_ok h T (used_map 1 rs) (cells m)" using g(1) by (simp_all add: heap_inv_def)
  have h: "page_aligned h" by (rule inv_basic [OF sl])
  have "(p, l) \<in> blocks_of h T" using p g(4) by blast
  then obtain k sz A i where b: "T k = Some (sz, A)" "i \<in> A" "p = blk (pg h k) sz i" "l = unat sz" by (rule blocks_ofE)
  have iN: "i < nblk sz" by (rule allocated_index [OF g(1) b(1,2)])
  have ds: "d < unat sz" using d b(4) by simp
  obtain e where e: "blk (pg h k) sz i + of_nat d = pg h k + e" "e < 4096" "of_nat (hdr sz) \<le> e AND - 8" "e AND - 8 < 4096"
    "valid_cell m (pg h k + (e AND - 8))" by (rule block_byte [OF g(1) b(1) iN ds])
  let ?a = "pg h k + (e AND - 8)"
  define x where "x = set_lane (8 * unat (e AND 7)) v (cells m ?a)"
  have m': "m' = m\<lparr>cells := (cells m)(?a := x)\<rparr>"
    using st unfolding b(3) e(1) store_lane_page [OF pg_aligned [OF h] e(2,5)] by (simp add: x_def)
  have U: "used_map 1 rs k = Some 1" by (rule heap_inv_used [OF g(1) b(1)])
  have kb: "1 \<le> k" "k < 2 ^ 52" using used_map_range [OF sl U] by simp_all
  have z: "e AND - 8 \<noteq> 0"
  proof
    assume "e AND - 8 = 0"
    moreover have "(0 :: u64) < of_nat (hdr sz)" by (rule hdr_less(1)) simp
    ultimately show False using e(3) by simp
  qed
  have other: "pg h j + f \<noteq> ?a" if "j < 2 ^ 52" "f < 4096" "j \<noteq> k \<or> f \<noteq> e AND - 8" for j f
    using pg_offset_eq_iff [OF h that(1) kb(2) that(2) e(4)] that(3) by blast
  have start: "pg h j \<noteq> ?a" if "j < 2 ^ 52" for j using other [of j 0] that z by simp
  have cl: "client_change h (used_map 1 rs) (cells m) ((cells m)(?a := x))"
    unfolding client_change_def
  proof (intro conjI allI impI ballI)
    fix a assume "a \<notin> client_cells h (used_map 1 rs)"
    moreover have "?a \<in> client_cells h (used_map 1 rs)"
      by (rule client_page [where U = "used_map 1 rs" and k = k and n = 1]) (use U e(4) in simp_all)
    ultimately have "a \<noteq> ?a" by blast
    then show "((cells m)(?a := x)) a = cells m a" by simp
  next
    fix j assume "j \<in> dom (used_map 1 rs)"
    then have "j < 2 ^ 52" using used_map_range [OF sl] by fastforce
    then show "bit (((cells m)(?a := x)) (pg h j)) 0 = bit (cells m (pg h j)) 0"
      "bit (((cells m)(?a := x)) (pg h j)) 1 = bit (cells m (pg h j)) 1" using start [of j] by simp_all
  qed
  have pk: "a \<noteq> ?a" if a: "a \<in> packed_cells h (classes T)" for a
  proof -
    from a consider i where "i < 23" "a = h + (2048 + of_nat i * 8)"
      | j s f where "classes T j = Some s" "f < of_nat (hdr s)" "a = pg h j + f" unfolding packed_cells_def by blast
    then show ?thesis
    proof cases
      case 1
      then show ?thesis using small_sep [OF h kb(2,1) 1(1) e(4)] by metis
    next
      case 2
      then have j: "j < 2 ^ 52" using heap_inv_dom(2) [OF g(1)] by (auto simp: classes_def)
      have f: "f < 4096" using hdr_less(2) [OF 2(2)] by (rule less_trans) simp
      have "j \<noteq> k \<or> f \<noteq> e AND - 8" using 2(1,2) b(1) e(3) by (auto simp: classes_def)
      then show ?thesis unfolding 2(3) by (rule other [OF j f])
    qed
  qed
  have "packed_ok h T (used_map 1 rs) ((cells m)(?a := x))"
    unfolding packed_ok_def
  proof (intro conjI allI impI)
    show "slabs_ok h T ((cells m)(?a := x))"
      unfolding slabs_ok_def
    proof (intro allI impI)
      fix j s B assume j: "T j = Some (s, B)"
      note t = packed_okD [OF ok j]
      have "packed_at ((cells m)(?a := x)) (pg h j) s B"
      proof (rule packed_at_same [OF t(2)])
        fix a assume "a \<in> header_cells (pg h j) s"
        then have "a \<in> packed_cells h (classes T)" by (rule header_cells_packed [OF _ t(1)]) (use j in \<open>simp add: classes_def\<close>)
        then show "((cells m)(?a := x)) a = cells m a" using pk by simp
      qed
      then show "s \<in> set tiny_classes \<and> packed_at ((cells m)(?a := x)) (pg h j) s B" using t(1) by blast
    qed
    obtain bins where bok: "small_ok h (cells m) bins (tiny_bin T)" using ok by (auto simp: packed_ok_def)
    have "small_ok h ((cells m)(?a := x)) bins (tiny_bin T)"
    proof (rule small_ok_frame [OF bok])
      fix a assume "a \<in> small_cells h (dom (tiny_bin T))"
      then have "a \<in> packed_cells h (classes T)" by (rule small_cells_packed) (use tiny_bin_dom in auto)
      then show "((cells m)(?a := x)) a = cells m a" using pk by simp
    qed
    then show "\<exists>bins. small_ok h ((cells m)(?a := x)) bins (tiny_bin T)" by blast
  qed (use packed_okD [OF ok] in blast)+
  then have "heap_inv h rs T m'" unfolding heap_inv_def m' using slab_inv_client [OF sl cl] by simp
  moreover have "no_medium h ((cells m)(?a := x))"
    unfolding no_medium_def
  proof (intro allI impI)
    fix i :: nat assume "i < 224"
    note o = medium_head_offset [OF this]
    have "of_nat (2232 + 8 * i) < (4096 :: u64)" by (rule less_trans [OF o(2)]) simp
    then have "h + of_nat (2232 + 8 * i) \<noteq> ?a" using pg_eq_iffs(4) [OF h kb(2) kb(2) _ e(4)] kb(1) by fastforce
    then show "((cells m)(?a := x)) (h + of_nat (2232 + 8 * i)) = 0" using g(6) \<open>i < 224\<close> unfolding no_medium_def by (simp only: fun_upd_apply if_False)
  qed
  ultimately show ?thesis using inv by (simp add: tiny_inv_def m' Heap_ok_cells)
qed

lemma tiny_move_good:
  assumes inv: "tiny_inv h rs T (m, live)" and mv: "tiny_move (m, live) (m', live')"
  obtains rs' T' where "tiny_inv h rs' T' (m', live')"
    and "live' \<noteq> live \<longrightarrow> keeps_blocks (live |` dom live') m m'"
  using mv
proof (rule tiny_moveE)
  fix n p
  assume a: "live' = live(p \<mapsto> unat (tiny_class n))" "0 < n" "n \<le> 496" "mm_malloc Heap_sbrk n m = Some (p, m')"
  note g = tiny_invD [OF inv]
  have room: "Heap_room (of_nat (1 - last_free rs) * 4096) m"
    if full: "\<forall>k A. T k = Some (tiny_class n, A) \<longrightarrow> A = {..<nblk (tiny_class n)}" and nf: "\<forall>l\<ge>1. \<not> has_free rs l"
    by (rule ccontr) (use tiny_malloc_refuse [OF g(1-3) a(2,3) full nf] a(4) in simp)
  obtain q m1 rs' T' where r: "mm_malloc Heap_sbrk n m = Some (q, m1)" "tiny_inv h rs' T' (m1, live(q \<mapsto> unat (tiny_class n)))"
    "keeps_blocks live m m1" "live q = None"
    by (rule malloc_good [OF inv a(2,3) room])
  have e: "q = p" "m1 = m'" using r(1) a(4) by simp_all
  have "live |` dom live' = live" unfolding a(1) by (rule ext) (auto simp: restrict_map_def domIff)
  then show thesis using that r(2,3) unfolding e a(1) by metis
next
  fix p l assume a: "live' = live(p := None)" "live p = Some l" "mm_free p m = Some m'"
  obtain m1 rs' T' where r: "mm_free p m = Some m1" "tiny_inv h rs' T' (m1, live(p := None))"
    "keeps_blocks (live(p := None)) m m1"
    by (rule free_good [OF inv a(2)])
  have e: "m1 = m'" using r(1) a(3) by simp
  have "live |` dom live' = live(p := None)" unfolding a(1) by (rule ext) (auto simp: restrict_map_def domIff)
  then show thesis using that r(2,3) unfolding e a(1) by metis
next
  fix p l d v assume a: "live' = live" "live p = Some l" "d < l" "store8 m (p + of_nat d) v = Some m'"
  show thesis by (rule that [of rs T]) (use put_tiny [OF inv a(2-4)] a(1) in simp_all)
qed

text \<open>The live blocks lie in the arena, behind the header, and do not overlap.\<close>

lemma tiny_inv_blocks:
  assumes inv: "tiny_inv h rs T (m, live)" and p: "live p = Some l"
  shows "p \<noteq> 0 \<and> 16 dvd unat p \<and> 0 < l \<and> unat h + 4096 \<le> unat p \<and> unat p + l \<le> unat (arena_end m)
    \<and> disjoint_block (live(p := None)) p l"
proof -
  note g = tiny_invD [OF inv]
  from p g(4) have "(p, l) \<in> blocks_of h T" by blast
  then obtain k sz A i where b: "T k = Some (sz, A)" "i \<in> A" "p = blk (pg h k) sz i" "l = unat sz" by (rule blocks_ofE)
  have iN: "i < nblk sz" by (rule allocated_index [OF g(1) b(1,2)])
  note pl = block_place [OF g(1) b(1) iN]
  have "disjoint_block (live(p := None)) p l"
    unfolding disjoint_block_def
  proof (intro allI impI)
    fix q x assume "(live(p := None)) q = Some x"
    then have q: "q \<noteq> p" "(q, x) \<in> blocks_of h T" using g(4) by (auto split: if_splits)
    from q(2) obtain j s B n where b': "T j = Some (s, B)" "n \<in> B" "q = blk (pg h j) s n" "x = unat s" by (rule blocks_ofE)
    have "j \<noteq> k \<or> n \<noteq> i" using q(1) b b' by auto
    then show "unat q + x \<le> unat p \<or> unat p + l \<le> unat q"
      using blocks_apart [OF g(1) b'(1) allocated_index [OF g(1) b'(1,2)] b(1) iN] unfolding b(3,4) b'(3,4) by blast
  qed
  moreover have "unat h + 4096 \<le> unat p" using pl(1,4) b(3) by simp
  ultimately show ?thesis using pl(2,6,8) class_facts(8) [OF pl(7)] unfolding b(3,4) by simp
qed

subsection \<open>The abstract allocator\<close>

text \<open>
  The calls with their arguments and results, and what each one does to the blocks and
  their contents: the abstract state maps the address of a block to its bytes.
\<close>

datatype tiny_call =
    Malloc_call u64 u64  \<comment> \<open>the size and the result\<close>
  | Free_call u64
  | Put_call u64 nat u8  \<comment> \<open>a store of the owner: block, offset and byte\<close>

inductive tiny_step :: "tiny_call \<Rightarrow> memory \<times> blocks \<Rightarrow> memory \<times> blocks \<Rightarrow> bool" where
  malloc_step: "0 < n \<Longrightarrow> n \<le> 496 \<Longrightarrow> mm_malloc Heap_sbrk n m = Some (p, m') \<Longrightarrow>
    tiny_step (Malloc_call n p) (m, live) (m', live(p \<mapsto> unat (tiny_class n)))"
| free_step: "live p = Some l \<Longrightarrow> mm_free p m = Some m' \<Longrightarrow> tiny_step (Free_call p) (m, live) (m', live(p := None))"
| put_step: "live p = Some l \<Longrightarrow> d < l \<Longrightarrow> store8 m (p + of_nat d) v = Some m' \<Longrightarrow>
    tiny_step (Put_call p d v) (m, live) (m', live)"

lemma tiny_step_moves: "tiny_move st st' \<longleftrightarrow> (\<exists>c. tiny_step c st st')"
proof
  assume "tiny_move st st'"
  then show "\<exists>c. tiny_step c st st'" by cases (blast intro: tiny_step.intros)+
next
  assume "\<exists>c. tiny_step c st st'"
  then obtain c where "tiny_step c st st'" ..
  then show "tiny_move st st'" by cases (blast intro: tiny_move.intros)+
qed

type_synonym block_store = "u64 \<rightharpoonup> u8 list"

definition apart_block :: "block_store \<Rightarrow> u64 \<Rightarrow> nat \<Rightarrow> bool" where
  "apart_block B p l \<longleftrightarrow> (\<forall>q bs. B q = Some bs \<longrightarrow> unat q + length bs \<le> unat p \<or> unat p + l \<le> unat q)"

fun alloc_spec :: "tiny_call \<Rightarrow> block_store \<Rightarrow> block_store \<Rightarrow> bool" where
  "alloc_spec (Malloc_call n p) B B' \<longleftrightarrow> p \<noteq> 0 \<and> 16 dvd unat p \<and> B p = None
     \<and> (\<exists>bs. unat n \<le> length bs \<and> apart_block B p (length bs) \<and> B' = B(p \<mapsto> bs))"
| "alloc_spec (Free_call p) B B' \<longleftrightarrow> B p \<noteq> None \<and> B' = B(p := None)"
| "alloc_spec (Put_call p d v) B B' \<longleftrightarrow> (\<exists>bs. B p = Some bs \<and> d < length bs \<and> B' = B(p \<mapsto> bs[d := v]))"

text \<open>The bytes of the live blocks; a block with a byte that cannot be read has no contents.\<close>

definition contents_of :: "memory \<Rightarrow> blocks \<Rightarrow> block_store" where
  "contents_of m live p = (case live p of None \<Rightarrow> None | Some l \<Rightarrow> those (map (\<lambda>d. load8 m (p + of_nat d)) [0..<l]))"

definition block_byte_at :: "memory \<Rightarrow> u64 \<Rightarrow> nat \<Rightarrow> u8" where
  "block_byte_at m p d = the (load8 m (p + of_nat d))"

lemma those_Some: "(\<And>x. x \<in> set xs \<Longrightarrow> f x \<noteq> None) \<Longrightarrow> those (map f xs) = Some (map (\<lambda>x. the (f x)) xs)"
proof (induction xs)
  case (Cons a xs)
  have "f a \<noteq> None" by (rule Cons.prems) simp
  moreover have "those (map f xs) = Some (map (\<lambda>x. the (f x)) xs)" by (rule Cons.IH) (simp add: Cons.prems)
  ultimately show ?case by (cases "f a") simp_all
qed simp

lemma live_readable:
  assumes inv: "tiny_inv h rs T (m, live)" and p: "live p = Some l" and d: "d < l"
  shows "load8 m (p + of_nat d) \<noteq> None"
proof -
  note g = tiny_invD [OF inv]
  from p g(4) have "(p, l) \<in> blocks_of h T" by blast
  then obtain k sz A i where b: "T k = Some (sz, A)" "i \<in> A" "p = blk (pg h k) sz i" "l = unat sz" by (rule blocks_ofE)
  have iN: "i < nblk sz" by (rule allocated_index [OF g(1) b(1,2)])
  have ds: "d < unat sz" using d b(4) by simp
  have h: "page_aligned (pg h k)" using g(1) inv_basic(1) by (auto simp: heap_inv_def)
  obtain e where e: "blk (pg h k) sz i + of_nat d = pg h k + e" "e < 4096" "valid_cell m (pg h k + (e AND - 8))"
    by (rule block_byte [OF g(1) b(1) iN ds])
  show ?thesis unfolding b(3) e(1) load_lane_page [OF h e(2,3)] by simp
qed

lemma contents_of_eq:
  assumes "tiny_inv h rs T (m, live)"
  shows "contents_of m live p = map_option (\<lambda>l. map (block_byte_at m p) [0..<l]) (live p)"
  using those_Some [of "[0..<the (live p)]" "\<lambda>d. load8 m (p + of_nat d)"] live_readable [OF assms, of p]
  by (cases "live p") (auto simp: contents_of_def block_byte_at_def)

lemma keeps_contents:
  assumes inv: "tiny_inv h rs T (m, live)" "tiny_inv h rs' T' (m', live')" and k: "keeps_blocks (live |` dom live') m m'"
    and e: "\<And>q. q \<noteq> p \<Longrightarrow> live' q = live q"
  shows "contents_of m' live' = (contents_of m live)(p := contents_of m' live' p)"
proof
  fix q
  show "contents_of m' live' q = ((contents_of m live)(p := contents_of m' live' p)) q"
  proof (cases "q = p")
    case False
    have "block_byte_at m' q d = block_byte_at m q d" if "live q = Some l" "d < l" for l d
    proof -
      have "(live |` dom live') q = Some l" using that(1) e [OF False] by (simp add: restrict_map_def domIff)
      then show ?thesis using k that(2) unfolding keeps_blocks_def block_byte_at_def by metis
    qed
    then show ?thesis using False e [OF False] unfolding contents_of_eq [OF inv(1)] contents_of_eq [OF inv(2)] fun_upd_apply
      by (cases "live q") auto
  qed simp
qed

lemma apart_contents:
  assumes "tiny_inv h rs T (m, live)" and d: "disjoint_block live p l"
  shows "apart_block (contents_of m live) p l"
  unfolding apart_block_def
proof (intro allI impI)
  fix q bs assume "contents_of m live q = Some bs"
  then have "live q = Some (length bs)" unfolding contents_of_eq [OF assms(1)] by auto
  then show "unat q + length bs \<le> unat p \<or> unat p + l \<le> unat q" using d unfolding disjoint_block_def by blast
qed

text \<open>A store into a block changes this byte of this block only.\<close>

lemma put_contents:
  assumes inv: "tiny_inv h rs T (m, live)" and p: "live p = Some l" and d: "d < l" and st: "store8 m (p + of_nat d) v = Some m'"
  shows "alloc_spec (Put_call p d v) (contents_of m live) (contents_of m' live)"
proof -
  note inv' = put_tiny [OF assms]
  have un: "unat (q + of_nat j) = unat q + j" if "live q = Some x" "j < x" for q x j
  proof -
    have "unat q + x \<le> unat (arena_end m)" using tiny_inv_blocks [OF inv that(1)] by blast
    moreover have "unat (arena_end m) < 2 ^ 64" using unsigned_less [where 'a = nat and w = "arena_end m"] by simp
    ultimately have "unat q + j < 2 ^ 64" using that(2) by simp
    then show ?thesis by (simp add: unat_word_ariths unat_of_nat)
  qed
  have b: "block_byte_at m' q j = (if q = p \<and> j = d then v else block_byte_at m q j)" if q: "live q = Some x" "j < x" for q x j
  proof (cases "q + of_nat j = p + of_nat d")
    case True
    then have e: "unat q + j = unat p + d" using un [OF q] un [OF p d] by simp
    have "q = p"
    proof (rule ccontr)
      assume "q \<noteq> p"
      then have "(live(p := None)) q = Some x" using q(1) by simp
      then have "unat q + x \<le> unat p \<or> unat p + l \<le> unat q"
        using tiny_inv_blocks [OF inv p] unfolding disjoint_block_def by blast
      then show False using e q(2) d by linarith
    qed
    then show ?thesis using e load8_store8(1) [OF st] True by (simp add: block_byte_at_def)
  next
    case False
    then show ?thesis using load8_store8(1) [OF st] by (auto simp: block_byte_at_def)
  qed
  let ?bs = "map (block_byte_at m p) [0..<l]"
  have "contents_of m' live = (contents_of m live)(p \<mapsto> ?bs[d := v])"
  proof
    fix q
    show "contents_of m' live q = ((contents_of m live)(p \<mapsto> ?bs[d := v])) q"
    proof (cases "live q")
      case None
      then show ?thesis using p unfolding contents_of_eq [OF inv] contents_of_eq [OF inv'] by auto
    next
      case (Some x)
      have "map (block_byte_at m' q) [0..<x] = (if q = p then ?bs[d := v] else map (block_byte_at m q) [0..<x])"
        using b [OF Some] Some p by (auto intro!: nth_equalityI simp: nth_list_update)
      then show ?thesis using Some unfolding contents_of_eq [OF inv] contents_of_eq [OF inv'] by simp
    qed
  qed
  moreover have "contents_of m live p = Some ?bs" unfolding contents_of_eq [OF inv] p by simp
  ultimately show ?thesis using d by auto
qed

lemma tiny_step_refines:
  assumes inv: "tiny_inv h rs T (m, live)" and c: "tiny_step c (m, live) (m', live')"
  shows "alloc_spec c (contents_of m live) (contents_of m' live')"
  using c
proof cases
  case (malloc_step n p)
  note g = tiny_invD [OF inv]
  have room: "Heap_room (of_nat (1 - last_free rs) * 4096) m"
    if full: "\<forall>k A. T k = Some (tiny_class n, A) \<longrightarrow> A = {..<nblk (tiny_class n)}" and nf: "\<forall>l\<ge>1. \<not> has_free rs l"
    by (rule ccontr) (use tiny_malloc_refuse [OF g(1-3) malloc_step(3,4) full nf] malloc_step(5) in simp)
  obtain q m1 rs' T' where r: "mm_malloc Heap_sbrk n m = Some (q, m1)" "tiny_inv h rs' T' (m1, live(q \<mapsto> unat (tiny_class n)))"
    "keeps_blocks live m m1" "live q = None" "q \<noteq> 0" "16 dvd unat q" "disjoint_block live q (unat (tiny_class n))"
    by (rule malloc_good [OF inv malloc_step(3,4) room])
  have e: "q = p" "m1 = m'" using r(1) malloc_step(5) by simp_all
  note inv' = r(2) [unfolded e]
  let ?l = "unat (tiny_class n)" and ?bs = "map (block_byte_at m' p) [0..<unat (tiny_class n)]"
  have "live |` dom (live(p \<mapsto> ?l)) = live" by (rule ext) (auto simp: restrict_map_def domIff)
  then have "contents_of m' (live(p \<mapsto> ?l)) = (contents_of m live)(p := contents_of m' (live(p \<mapsto> ?l)) p)"
    using keeps_contents [OF inv inv', of p] r(3) e by simp
  moreover have "contents_of m' (live(p \<mapsto> ?l)) p = Some ?bs" unfolding contents_of_eq [OF inv'] by simp
  ultimately have "contents_of m' (live(p \<mapsto> ?l)) = (contents_of m live)(p \<mapsto> ?bs)" by simp
  moreover have "contents_of m live p = None" using r(4) e by (simp add: contents_of_def)
  moreover have "apart_block (contents_of m live) p (length ?bs)" using apart_contents [OF inv] r(7) e by simp
  moreover have "unat n \<le> length ?bs" using tiny_class_props(2) [OF malloc_step(3,4)] by simp
  ultimately show ?thesis using r(5,6) e unfolding malloc_step(1,2) alloc_spec.simps by blast
next
  case (free_step p l)
  obtain m1 rs' T' where r: "mm_free p m = Some m1" "tiny_inv h rs' T' (m1, live(p := None))"
    "keeps_blocks (live(p := None)) m m1"
    by (rule free_good [OF inv free_step(3)])
  have e: "m1 = m'" using r(1) free_step(4) by simp
  note inv' = r(2) [unfolded e]
  have "live |` dom (live(p := None)) = live(p := None)" by (rule ext) (auto simp: restrict_map_def domIff)
  then have "contents_of m' (live(p := None)) = (contents_of m live)(p := contents_of m' (live(p := None)) p)"
    using keeps_contents [OF inv inv', of p] r(3) e by simp
  moreover have "contents_of m' (live(p := None)) p = None" by (simp add: contents_of_def)
  moreover have "contents_of m live p \<noteq> None" unfolding contents_of_eq [OF inv] free_step(3) by simp
  ultimately show ?thesis unfolding free_step(1,2) alloc_spec.simps by simp
next
  case (put_step p l d v)
  then show ?thesis using put_contents [OF inv put_step(3-5)] by simp
qed

lemma tiny_init:
  assumes "Heap_ok m" "Heap_room 4096 m" "page_aligned h" "arena_start m = h" "arena_end m = h"
  obtains m' where "mm_init Heap_sbrk m = Some (True, m')" "tiny_inv h [] Map.empty (m', Map.empty)" "slab_reachable h (m', Map.empty)"
proof -
  obtain m' where m': "mm_init Heap_sbrk m = Some (True, m')" "heap_ptr m' = h" "slab_inv h [] m'"
    "m' = m\<lparr>cells := cells m', arena_end := h + 4096, heap_ptr := h\<rparr>"
    "\<forall>i<253. cells m' (h + of_nat (2048 + 8 * i)) = 0"
    using hs.mm_init_ok [OF assms] by blast
  have sr: "slab_reachable h (m', Map.empty)" by (rule slab_reachable.init [OF assms m'(1)])
  then have "slab_good h (m', Map.empty)" by (rule slab_reachable_good)
  then have src: "Heap_ok m'" by (simp add: slab_good_def)
  have "small_ok h (cells m') (\<lambda>_. []) (tiny_bin Map.empty)"
    unfolding small_ok_def
  proof (intro conjI allI impI)
    show "chain small_nx small_pv (cells m') (small_root h i) (map (pg h) [])" if "i < 23" for i
    proof -
      have "cells m' (h + of_nat (2048 + 8 * i)) = 0" using m'(5) that by (simp del: of_nat_add)
      then have "cells m' (small_nx (small_root h i)) = 0" unfolding small_root_nx [OF that] by (simp add: mult.commute)
      then show ?thesis by simp
    qed
  qed (simp_all add: tiny_bin_def ran_def)
  then have "packed_ok h Map.empty (used_map 1 []) (cells m')" unfolding packed_ok_def slabs_ok_def by auto
  then have "heap_inv h [] Map.empty m'" using m'(3) by (simp add: heap_inv_def)
  moreover have "no_medium h (cells m')"
    unfolding no_medium_def
  proof (intro allI impI)
    fix i :: nat assume i: "i < 224"
    have "2048 + 8 * (23 + i) = 2232 + 8 * i" "23 + i < 253" using i by simp_all
    then show "cells m' (h + of_nat (2232 + 8 * i)) = 0" using m'(5) by metis
  qed
  ultimately have "tiny_inv h [] Map.empty (m', Map.empty)"
    using src m'(2) by (simp add: tiny_inv_def blocks_of_def all_packed_def fun_eq_iff)
  then show thesis using that m'(1) sr by blast
qed

lemma tiny_reachable_good: "tiny_reachable h st \<Longrightarrow> \<exists>rs T. tiny_inv h rs T st"
proof (induction rule: tiny_reachable.induct)
  case (init m r m')
  obtain m1 where "mm_init Heap_sbrk m = Some (True, m1)" "tiny_inv h [] Map.empty (m1, Map.empty)"
    by (rule tiny_init [OF init(1-5)])
  then show ?case using init(6) by auto
next
  case (step st st')
  obtain rs T where inv: "tiny_inv h rs T st" using step.IH by blast
  obtain m live m' live' where e: "st = (m, live)" "st' = (m', live')" by (cases st; cases st') blast
  obtain rs' T' where "tiny_inv h rs' T' (m', live')"
    by (rule tiny_move_good [OF inv [unfolded e] step.hyps(2) [unfolded e]])
  then show ?case unfolding e by blast
qed

subsection \<open>A concrete run\<close>

text \<open>The heap of \<open>heap0\<close> after \<^verbatim>\<open>malloc(24)\<close>.\<close>

definition tiny_ptr :: u64 where "tiny_ptr = fst (the (mm_malloc Heap_sbrk 24 heap0))"
definition tiny_heap :: memory where "tiny_heap = snd (the (mm_malloc Heap_sbrk 24 heap0))"

lemma tiny_class_24: "tiny_class 24 = 32"
  by (simp add: tiny_class_def ALIGN_UP_def layout_simps adj_tiny_size_def)

lemma tiny_run:
  "tiny_reachable 4096 (heap0, Map.empty)" "mm_malloc Heap_sbrk 24 heap0 = Some (tiny_ptr, tiny_heap)"
  "tiny_reachable 4096 (tiny_heap, [tiny_ptr \<mapsto> 32])" "unat (arena_end tiny_heap) \<le> 12288"
  "arena_max tiny_heap = 2 ^ 20" "arena_start tiny_heap = 4096"
proof -
  obtain m1 where m1: "mm_init Heap_sbrk (Heap_new 4096 (2 ^ 20) (\<lambda>_. 0)) = Some (True, m1)"
    "tiny_inv 4096 [] Map.empty (m1, Map.empty)" by (rule tiny_init [OF heap_new_ok])
  have e: "m1 = heap0" using m1(1) heap0_facts(1) by simp
  show r: "tiny_reachable 4096 (heap0, Map.empty)" by (rule tiny_reachable.init [OF heap_new_ok heap0_facts(1)])
  have room: "Heap_room (of_nat (1 - last_free []) * 4096) heap0" using heap0_room [of 1] by (simp add: last_free_def)
  obtain p m where p: "mm_malloc Heap_sbrk 24 heap0 = Some (p, m)" "unat (arena_end m) \<le> unat (arena_end heap0) + 4096"
    "arena_max m = arena_max heap0" "arena_start m = arena_start heap0"
    by (rule malloc_good [OF m1(2) [unfolded e], of 24]) (use room in auto)
  show "unat (arena_end tiny_heap) \<le> 12288" "arena_max tiny_heap = 2 ^ 20" "arena_start tiny_heap = 4096"
    using p by (simp_all add: tiny_heap_def heap0_facts)
  from p(1) show a: "mm_malloc Heap_sbrk 24 heap0 = Some (tiny_ptr, tiny_heap)" by (simp add: tiny_ptr_def tiny_heap_def)
  have "tiny_move (heap0, Map.empty) (tiny_heap, Map.empty(tiny_ptr \<mapsto> unat (tiny_class 24)))" by (rule malloc [OF _ _ a]) simp_all
  then show "tiny_reachable 4096 (tiny_heap, [tiny_ptr \<mapsto> 32])"
    using tiny_reachable.step [OF r] by (simp add: tiny_class_24)
qed

definition tiny_ptr2 :: u64 where "tiny_ptr2 = fst (the (mm_malloc Heap_sbrk 100 tiny_heap))"
definition tiny_heap2 :: memory where "tiny_heap2 = snd (the (mm_malloc Heap_sbrk 100 tiny_heap))"

lemma tiny_run2: "mm_malloc Heap_sbrk 100 tiny_heap = Some (tiny_ptr2, tiny_heap2)" "tiny_ptr2 \<noteq> tiny_ptr"
proof -
  obtain rs T where inv: "tiny_inv 4096 rs T (tiny_heap, [tiny_ptr \<mapsto> 32])" using tiny_reachable_good [OF tiny_run(3)] by blast
  have "Heap_room (of_nat 1 * 4096) tiny_heap"
    using tiny_run(4-6) by (simp add: Heap_room_def heap0_facts)
  then have room: "Heap_room (of_nat (1 - last_free rs) * 4096) tiny_heap" by (rule Heap_room_less) simp_all
  obtain p m where p: "mm_malloc Heap_sbrk 100 tiny_heap = Some (p, m)" "[tiny_ptr \<mapsto> 32 :: nat] p = None"
    by (rule malloc_good [OF inv, of 100]) (use room in auto)
  then show "mm_malloc Heap_sbrk 100 tiny_heap = Some (tiny_ptr2, tiny_heap2)" by (simp add: tiny_ptr2_def tiny_heap2_def)
  show "tiny_ptr2 \<noteq> tiny_ptr" using p by (auto simp: tiny_ptr2_def)
qed

subsection \<open>Properties\<close>

text \<open>C1: In every state that mm_init and any interleaving of malloc of up to 496 bytes, free and
  client writes can reach, every live block is non-null, 16-byte aligned, inside the arena
  and after the heap header, and overlaps no other live block.\<close>

theorem tiny_blocks_disjoint:
  assumes "tiny_reachable h (m, live)" and "live p = Some l"
  shows "p \<noteq> 0 \<and> 16 dvd unat p \<and> 0 < l \<and> unat h + 4096 \<le> unat p \<and> unat p + l \<le> unat (arena_end m)
    \<and> disjoint_block (live(p := None)) p l"
proof -
  obtain rs T where inv: "tiny_inv h rs T (m, live)" using tiny_reachable_good [OF assms(1)] by blast
  show ?thesis by (rule tiny_inv_blocks [OF inv assms(2)])
qed

theorem tiny_blocks_disjoint_witness:
  "tiny_ptr \<noteq> 0 \<and> 16 dvd unat tiny_ptr \<and> 0 < (32 :: nat) \<and> unat (4096 :: u64) + 4096 \<le> unat tiny_ptr
    \<and> unat tiny_ptr + 32 \<le> unat (arena_end tiny_heap) \<and> disjoint_block ([tiny_ptr \<mapsto> 32](tiny_ptr := None)) tiny_ptr 32"
  by (rule tiny_blocks_disjoint [OF tiny_run(3)]) simp

text \<open>C4: In every reachable state the used regions of the slab layer are exactly the packed
  slabs, one page each; the header of each packed slab (class, count, one- or two-level
  bitvector) describes exactly its allocated blocks, which are the live blocks; no packed
  slab is empty; and the small bin of each class holds exactly the slabs of the class with
  a free block.\<close>

theorem tiny_reachable_invariant:
  assumes "tiny_reachable h (m, live)"
  shows "\<exists>rs T. slab_inv h rs m \<and> packed_ok h T (used_map 1 rs) (cells m) \<and> all_packed (used_map 1 rs) T
    \<and> (\<forall>p l. live p = Some l \<longleftrightarrow> (\<exists>k sz A i. T k = Some (sz, A) \<and> i \<in> A \<and> p = blk (pg h k) sz i \<and> l = unat sz))"
proof -
  obtain rs T where inv: "tiny_inv h rs T (m, live)" using tiny_reachable_good [OF assms] by blast
  show ?thesis
    by (rule exI [of _ rs], rule exI [of _ T]) (use tiny_invD [OF inv] in \<open>auto simp: heap_inv_def blocks_of_def\<close>)
qed

theorem tiny_reachable_invariant_witness:
  "\<exists>rs T. slab_inv 4096 rs tiny_heap \<and> packed_ok 4096 T (used_map 1 rs) (cells tiny_heap) \<and> all_packed (used_map 1 rs) T
    \<and> (\<forall>p l. [tiny_ptr \<mapsto> 32] p = Some l \<longleftrightarrow>
        (\<exists>k sz A i. T k = Some (sz, A) \<and> i \<in> A \<and> p = blk (pg 4096 k) sz i \<and> l = unat sz))"
  by (rule tiny_reachable_invariant [OF tiny_run(3)])

text \<open>C3: malloc and free of tiny blocks refine an abstract store of blocks: in a reachable state
  malloc(n) adds a non-null, 16-byte aligned block of at least n bytes at an address where
  no block was and that overlaps none, free(p) removes exactly the block p, and a store of
  the owner changes one byte; every other block keeps its contents.\<close>

theorem tiny_steps_refine:
  assumes "tiny_reachable h (m, live)" and "tiny_step c (m, live) (m', live')"
  shows "alloc_spec c (contents_of m live) (contents_of m' live')"
proof -
  obtain rs T where inv: "tiny_inv h rs T (m, live)" using tiny_reachable_good [OF assms(1)] by blast
  show ?thesis by (rule tiny_step_refines [OF inv assms(2)])
qed

theorem tiny_steps_refine_witness:
  "alloc_spec (Malloc_call 100 tiny_ptr2) (contents_of tiny_heap [tiny_ptr \<mapsto> 32])
     (contents_of tiny_heap2 [tiny_ptr \<mapsto> 32, tiny_ptr2 \<mapsto> unat (tiny_class 100)])"
  by (rule tiny_steps_refine [OF tiny_run(3) malloc_step [OF _ _ tiny_run2(1)]]) simp_all

text \<open>C2: No malloc or free of a tiny block changes a byte of any other live block.\<close>

theorem tiny_calls_keep_contents:
  assumes "tiny_reachable h (m, live)" and "tiny_move (m, live) (m', live')" and "live' \<noteq> live"
  shows "keeps_blocks (live |` dom live') m m'"
proof -
  obtain rs T where inv: "tiny_inv h rs T (m, live)" using tiny_reachable_good [OF assms(1)] by blast
  show ?thesis by (rule tiny_move_good [OF inv assms(2)]) (use assms(3) in blast)
qed

theorem tiny_calls_keep_contents_witness:
  "keeps_blocks ([tiny_ptr \<mapsto> 32] |` dom ([tiny_ptr \<mapsto> 32, tiny_ptr2 \<mapsto> unat (tiny_class 100)])) tiny_heap tiny_heap2"
  by (rule tiny_calls_keep_contents [OF tiny_run(3) malloc [OF _ _ tiny_run2(1)]])
    (use tiny_run2(2) in \<open>auto simp: fun_eq_iff\<close>)

text \<open>C5: In a reachable state malloc of 1 to 496 bytes succeeds while the arena can grow by one
  slab, and returns a fresh block of at least the requested size.\<close>

theorem tiny_malloc_total:
  assumes "tiny_reachable h (m, live)" and "0 < n" and "n \<le> 496" and "Heap_room 4096 m"
  shows "\<exists>p m'. mm_malloc Heap_sbrk n m = Some (p, m') \<and> p \<noteq> 0 \<and> 16 dvd unat p \<and> live p = None
    \<and> unat n \<le> unat (tiny_class n) \<and> disjoint_block live p (unat (tiny_class n))
    \<and> tiny_reachable h (m', live(p \<mapsto> unat (tiny_class n)))"
proof -
  obtain rs T where inv: "tiny_inv h rs T (m, live)" using tiny_reachable_good [OF assms(1)] by blast
  have room: "Heap_room (of_nat (1 - last_free rs) * 4096) m"
    by (rule Heap_room_less [of 1]) (use assms(4) in simp_all)
  obtain p m' where r: "mm_malloc Heap_sbrk n m = Some (p, m')" "live p = None" "p \<noteq> 0" "16 dvd unat p"
    "disjoint_block live p (unat (tiny_class n))"
    by (rule malloc_good [OF inv assms(2,3) room])
  have "tiny_reachable h (m', live(p \<mapsto> unat (tiny_class n)))"
    by (rule tiny_reachable.step [OF assms(1)]) (rule malloc [OF assms(2,3) r(1)])
  then show ?thesis using r tiny_class_props(2) [OF assms(2,3)] by blast
qed

theorem tiny_malloc_total_witness:
  "\<exists>p m'. mm_malloc Heap_sbrk 496 heap0 = Some (p, m') \<and> p \<noteq> 0 \<and> 16 dvd unat p \<and> (Map.empty :: blocks) p = None
    \<and> unat (496 :: u64) \<le> unat (tiny_class 496) \<and> disjoint_block Map.empty p (unat (tiny_class 496))
    \<and> tiny_reachable 4096 (m', [p \<mapsto> unat (tiny_class 496)])"
  by (rule tiny_malloc_total [OF tiny_run(1)]) (use heap0_room [of 1] in simp_all)

text \<open>C6: In a reachable state the free of any live block returns (no assertion fails, no access
  leaves the arena), also when it empties the slab and the slab is given back.\<close>

theorem tiny_free_total:
  assumes "tiny_reachable h (m, live)" and "live p = Some l"
  shows "\<exists>m'. mm_free p m = Some m' \<and> tiny_reachable h (m', live(p := None))"
proof -
  obtain rs T where inv: "tiny_inv h rs T (m, live)" using tiny_reachable_good [OF assms(1)] by blast
  obtain m' where m': "mm_free p m = Some m'" by (rule free_good [OF inv assms(2)])
  have "tiny_reachable h (m', live(p := None))"
    by (rule tiny_reachable.step [OF assms(1)]) (rule free, rule assms(2), rule m')
  then show ?thesis using m' by blast
qed

theorem tiny_free_total_witness:
  "\<exists>m'. mm_free tiny_ptr tiny_heap = Some m' \<and> tiny_reachable 4096 (m', [tiny_ptr \<mapsto> 32](tiny_ptr := None))"
  by (rule tiny_free_total [OF tiny_run(3)]) simp

text \<open>C7: After the free of a tiny block, malloc of a size of the same class succeeds without
  growing the arena, however full it is.\<close>

theorem tiny_free_then_malloc:
  assumes "tiny_reachable h (m, live)" and "live p = Some (unat (tiny_class n))" and "0 < n" and "n \<le> 496"
    and "mm_free p m = Some m1"
  shows "\<exists>q m2. mm_malloc Heap_sbrk n m1 = Some (q, m2) \<and> q \<noteq> 0 \<and> arena_end m2 = arena_end m"
proof -
  obtain rs T where inv: "tiny_inv h rs T (m, live)" using tiny_reachable_good [OF assms(1)] by blast
  obtain m' rs' T' k sz A i where r: "mm_free p m = Some m'" "tiny_inv h rs' T' (m', live(p := None))" "arena_end m' = arena_end m"
    "T k = Some (sz, A)" "i \<in> A" "unat (tiny_class n) = unat sz" "T' = drop_block T k sz (A - {i})"
    "A = {i} \<longrightarrow> (\<exists>l\<ge>1. has_free rs' l)"
    by (rule free_good [OF inv assms(2)])
  have e: "m' = m1" using r(1) assms(5) by simp
  have sz: "tiny_class n = sz" using r(6) by (simp add: word_unat_eq_iff)
  have iN: "i < nblk sz" by (rule allocated_index [OF tiny_invD(1) [OF inv] r(4,5)])
  have fits: "(\<exists>j B. T' j = Some (tiny_class n, B) \<and> B \<noteq> {..<nblk (tiny_class n)}) \<or> (\<exists>l\<ge>1. has_free rs' l)"
  proof (cases "A = {i}")
    case True
    then show ?thesis using r(8) by blast
  next
    case False
    then have "T' k = Some (sz, A - {i})" using r(5,7) by (auto simp: drop_block_def)
    moreover have "A - {i} \<noteq> {..<nblk sz}" using iN by blast
    ultimately show ?thesis unfolding sz by blast
  qed
  obtain q m2 where q: "mm_malloc Heap_sbrk n m' = Some (q, m2)" "q \<noteq> 0"
    "(\<exists>j B. T' j = Some (tiny_class n, B) \<and> B \<noteq> {..<nblk (tiny_class n)}) \<or> (\<exists>l\<ge>1. has_free rs' l) \<longrightarrow> arena_end m2 = arena_end m'"
    by (rule malloc_good [OF r(2) assms(3,4)]) (use fits in blast)+
  then show ?thesis using fits r(3) e by auto
qed

definition tiny_heap3 :: memory where "tiny_heap3 = the (mm_free tiny_ptr tiny_heap)"

lemma tiny_run3: "mm_free tiny_ptr tiny_heap = Some tiny_heap3"
proof -
  obtain rs T where inv: "tiny_inv 4096 rs T (tiny_heap, [tiny_ptr \<mapsto> 32])" using tiny_reachable_good [OF tiny_run(3)] by blast
  obtain m where "mm_free tiny_ptr tiny_heap = Some m" by (rule free_good [OF inv, of tiny_ptr 32]) simp_all
  then show ?thesis by (simp add: tiny_heap3_def)
qed

theorem tiny_free_then_malloc_witness:
  "\<exists>q m2. mm_malloc Heap_sbrk 17 tiny_heap3 = Some (q, m2) \<and> q \<noteq> 0 \<and> arena_end m2 = arena_end tiny_heap"
proof (rule tiny_free_then_malloc [OF tiny_run(3) _ _ _ tiny_run3])
  have "tiny_class 17 = 32" by (simp add: tiny_class_def ALIGN_UP_def layout_simps adj_tiny_size_def)
  then show "[tiny_ptr \<mapsto> 32] tiny_ptr = Some (unat (tiny_class 17))" by simp
qed simp_all

end
