(* ===== verification/Check_Packed.thy ===== *)
theory Check_Packed
  imports Check_Heap Tiny_Machine
begin

unbundle bit_operations_syntax

section \<open>The heap check of a packed slab\<close>

text \<open>
  For a slab whose header describes the allocated blocks \<open>A\<close>, the bitvector checks of
  \<^verbatim>\<open>mm_checkheap\<close> succeed, the population count gives the number of allocated blocks and
  the slab is counted for its small bin exactly when it has a free block.
\<close>

lemma drop_and_1: "drop_bit i (x :: 'a :: len word) AND 1 = 1 \<longleftrightarrow> bit x i"
  by (simp add: bit_iff_and_drop_bit_eq_1)

lemma ucast_of_nat:
  assumes "n < 2 ^ LENGTH('b :: len)"
  shows "(ucast (of_nat n :: 'b word) :: 'a :: len word) = of_nat n"
proof -
  have "take_bit LENGTH('b) n = n" using assms by (rule take_bit_nat_eq_self)
  then show ?thesis by (simp only: unsigned_of_nat)
qed

lemma popcount64_card: "popcount64 w = of_nat (card {b. b < 64 \<and> bit w b})"
proof -
  have "length (filter (bit w) [0..<64]) = card (set (filter (bit w) [0..<64]))"
    by (rule distinct_card [symmetric]) simp
  also have "set (filter (bit w) [0..<64]) = {b. b < 64 \<and> bit w b}" by auto
  finally show ?thesis by (simp add: popcount64_def)
qed

lemma count_words_ok:
  assumes "\<And>j. j < n \<Longrightarrow> valid_cell m (bitv_cell s j)"
  shows "count_words s n m = Some (of_nat (card {i. i < 64 * n \<and> free_bit (cells m) s i}))"
  using assms
proof (induction n)
  case (Suc n)
  let ?P = "free_bit (cells m) s"
  have split: "{i. i < 64 * Suc n \<and> ?P i} = {i. i < 64 * n \<and> ?P i} \<union> (\<lambda>b. 64 * n + b) ` {b. b < 64 \<and> ?P (64 * n + b)}"
  proof (intro set_eqI iffI)
    fix i assume i: "i \<in> {i. i < 64 * Suc n \<and> ?P i}"
    show "i \<in> {i. i < 64 * n \<and> ?P i} \<union> (\<lambda>b. 64 * n + b) ` {b. b < 64 \<and> ?P (64 * n + b)}"
    proof (cases "i < 64 * n")
      case False
      then have "i = 64 * n + (i - 64 * n)" "i - 64 * n < 64" using i by auto
      then show ?thesis using i by (metis (mono_tags, lifting) UnCI imageI mem_Collect_eq)
    qed (use i in simp)
  qed auto
  have "card {i. i < 64 * Suc n \<and> ?P i} = card {i. i < 64 * n \<and> ?P i} + card ((\<lambda>b. 64 * n + b) ` {b. b < 64 \<and> ?P (64 * n + b)})"
    unfolding split by (rule card_Un_disjoint) auto
  also have "card ((\<lambda>b. 64 * n + b) ` {b. b < 64 \<and> ?P (64 * n + b)}) = card {b. b < 64 \<and> ?P (64 * n + b)}"
    by (rule card_image) (simp add: inj_on_def)
  also have "{b. b < 64 \<and> ?P (64 * n + b)} = {b. b < 64 \<and> bit (cells m (bitv_cell s n)) b}"
    by (auto simp: free_bit_def)
  finally have c: "card {i. i < 64 * Suc n \<and> ?P i} = card {i. i < 64 * n \<and> ?P i} + card {b. b < 64 \<and> bit (cells m (bitv_cell s n)) b}" .
  have "valid_cell m (bitv_cell s n)" using Suc.prems by simp
  then have l: "load64 m (s + (slab_ps_f2 + of_nat n * 8)) = Some (cells m (bitv_cell s n))"
    by (simp add: bitv_cell_def layout_simps load64_valid)
  show ?case using Suc by (simp add: l popcount64_card c del: mult_Suc_right)
qed simp

lemma free_count:
  assumes pk: "packed_at c s sz A" and sz: "sz \<in> set tiny_classes"
  shows "card {i. i < 64 * bit_cells sz \<and> free_bit c s i} = nblk sz - card A"
proof -
  have "{i. i < 64 * bit_cells sz \<and> free_bit c s i} = {..<nblk sz} - A"
    using pk class_facts(2) [OF sz] by (auto simp: packed_at_def)
  moreover have "A \<subseteq> {..<nblk sz}" using pk by (simp add: packed_at_def)
  ultimately show ?thesis by (simp add: card_Diff_subset finite_subset)
qed

lemma has_free_block:
  assumes "A \<subseteq> {..<nblk sz}"
  shows "A \<noteq> {..<nblk sz} \<longleftrightarrow> (\<exists>i<nblk sz. i \<notin> A)"
  using assms by auto

text \<open>What a page-aligned, valid slab header holds.\<close>

definition slab_header :: "memory \<Rightarrow> u64 \<Rightarrow> bool" where
  "slab_header m s \<longleftrightarrow> page_aligned s \<and> valid_cell m s \<and> valid_cell m (s + 8) \<and> valid_cell m (s + 16)
     \<and> (\<forall>j<4. valid_cell m (bitv_cell s j))"

lemma header_lanes:
  assumes "slab_header m s"
  shows "load8 m (s + slab_sz_class) = Some (get_lane 8 (cells m s))"
    "load16 m (s + slab_alloc_cnt) = Some (get_lane 16 (cells m s))"
    "load16 m (s + slab_ps_f1) = Some (get_lane 32 (cells m s))"
    "load64 m (s + slab_pl_f) = Some (cells m (bitv_cell s 0))"
    "load8 m (s + slab_flags) = Some (get_lane 0 (cells m s))"
proof -
  have s: "page_aligned s" "valid_cell m s" "valid_cell m (bitv_cell s 0)" using assms by (simp_all add: slab_header_def)
  show "load8 m (s + slab_sz_class) = Some (get_lane 8 (cells m s))"
    "load16 m (s + slab_alloc_cnt) = Some (get_lane 16 (cells m s))"
    "load16 m (s + slab_ps_f1) = Some (get_lane 32 (cells m s))"
    "load8 m (s + slab_flags) = Some (get_lane 0 (cells m s))"
    using s by (simp_all add: exec_simps layout_simps)
  show "load64 m (s + slab_pl_f) = Some (cells m (bitv_cell s 0))"
    using s by (simp add: bitv_cell_def layout_simps load64_valid)
qed

lemma check_levels_ok:
  assumes pk: "packed_at (cells m) s sz A" and sz: "sz \<in> set tiny_classes" "sz \<le> 48" and hd: "slab_header m s"
    and w: "unat (CEIL_DIV len 2) \<le> 4 * bit_cells sz"
  shows "check_levels s len m = Some ()"
  unfolding check_levels_def
proof (rule each_Some)
  fix j assume "j \<in> set [0..<unat (CEIL_DIV len 2)]"
  then have j: "j < 4 * bit_cells sz" using w by auto
  have j16: "j < 16" "j div 4 < 4" using j bit_cells_le [of sz] by auto
  let ?w = "get_lane (16 * (j mod 4)) (cells m (bitv_cell s (j div 4))) :: u16"
  have l: "load16 m (ps_f2_word s (of_nat j)) = Some ?w"
    using hd j16 by (intro bitv_word_exec) (auto simp: slab_header_def)
  have f: "free_bit (cells m) s (16 * j + b) \<longleftrightarrow> 16 * j + b < nblk sz \<and> 16 * j + b \<notin> A" if "b < 16" for b
    using pk j that unfolding packed_at_def by auto
  have "?w = 0 \<longleftrightarrow> \<not> (\<exists>i<nblk sz. i div 16 = j \<and> i \<notin> A)"
  proof -
    have "?w = 0 \<longleftrightarrow> (\<forall>b<16. \<not> bit ?w b)"
    proof
      assume z: "\<forall>b<16. \<not> bit ?w b"
      show "?w = 0" by (rule bit_word_eqI) (use z in simp)
    qed simp
    also have "\<dots> \<longleftrightarrow> (\<forall>b<16. \<not> (16 * j + b < nblk sz \<and> 16 * j + b \<notin> A))" using f bitv_word_bit by blast
    also have "\<dots> \<longleftrightarrow> \<not> (\<exists>i<nblk sz. i div 16 = j \<and> i \<notin> A)"
    proof (intro iffI notI allI impI)
      assume a: "\<forall>b<16. \<not> (16 * j + b < nblk sz \<and> 16 * j + b \<notin> A)" and "\<exists>i<nblk sz. i div 16 = j \<and> i \<notin> A"
      then obtain i where i: "i < nblk sz" "i div 16 = j" "i \<notin> A" by blast
      then show False using a [rule_format, of "i mod 16"] by auto
    next
      fix b :: nat assume a: "\<not> (\<exists>i<nblk sz. i div 16 = j \<and> i \<notin> A)" "b < 16" "16 * j + b < nblk sz \<and> 16 * j + b \<notin> A"
      then show False by (auto dest: spec [of _ "16 * j + b"])
    qed
    finally show ?thesis .
  qed
  moreover have "bit (get_lane 32 (cells m s) :: u16) j \<longleftrightarrow> (\<exists>i<nblk sz. i div 16 = j \<and> i \<notin> A)"
    using pk sz(2) j16 by (simp add: packed_at_def)
  ultimately show "do { ps_f1 \<leftarrow> load16 m (s + slab_ps_f1); ps_f2 \<leftarrow> load16 m (ps_f2_word s (of_nat j));
      malloc_assert ((drop_bit j ps_f1 AND 1 = 1) \<noteq> (ps_f2 = 0)) } = Some ()"
    by (simp add: header_lanes [OF hd] l drop_and_1 malloc_assert_def)
qed

lemma first_level:
  assumes pk: "packed_at c s sz A" and sz: "sz \<in> set tiny_classes" "sz \<le> 48"
  shows "(get_lane 32 (c s) :: u16) \<noteq> 0 \<longleftrightarrow> A \<noteq> {..<nblk sz}"
proof -
  have "(get_lane 32 (c s) :: u16) \<noteq> 0 \<longleftrightarrow> (\<exists>j<16. bit (get_lane 32 (c s) :: u16) j)"
  proof
    assume "(get_lane 32 (c s) :: u16) \<noteq> 0"
    then obtain j where "bit (get_lane 32 (c s) :: u16) j" by (auto simp: bit_eq_iff)
    then show "\<exists>j<16. bit (get_lane 32 (c s) :: u16) j" using bit_imp_le_length by fastforce
  qed auto
  also have "\<dots> \<longleftrightarrow> (\<exists>i<nblk sz. i \<notin> A)"
  proof
    assume "\<exists>i<nblk sz. i \<notin> A"
    then obtain i where i: "i < nblk sz" "i \<notin> A" by blast
    moreover have "i div 16 < 16" using class_facts(4) [OF sz(1)] i(1) by simp
    ultimately show "\<exists>j<16. bit (get_lane 32 (c s) :: u16) j" using pk sz(2) unfolding packed_at_def by blast
  qed (use pk sz(2) in \<open>auto simp: packed_at_def\<close>)
  finally show ?thesis using has_free_block [of A sz] pk by (simp add: packed_at_def)
qed

lemma one_level:
  assumes pk: "packed_at c s sz A" and sz: "sz \<in> set tiny_classes" "48 < sz"
  shows "c (bitv_cell s 0) \<noteq> 0 \<longleftrightarrow> A \<noteq> {..<nblk sz}" "{b. b < 64 \<and> bit (c (bitv_cell s 0)) b} = {..<nblk sz} - A"
    "b < 64 \<Longrightarrow> bit (c (bitv_cell s 0)) b \<longleftrightarrow> b < nblk sz \<and> b \<notin> A"
proof -
  have "bit_cells sz = 1" using sz(2) by (auto simp: bit_cells_def)
  then have f: "bit (c (bitv_cell s 0)) b \<longleftrightarrow> b < nblk sz \<and> b \<notin> A" if "b < 64" for b
    using pk that unfolding packed_at_def by (auto simp: free_bit_def)
  then show "b < 64 \<Longrightarrow> bit (c (bitv_cell s 0)) b \<longleftrightarrow> b < nblk sz \<and> b \<notin> A" .
  have n: "nblk sz \<le> 64" using class_facts(2) [OF sz(1)] \<open>bit_cells sz = 1\<close> by simp
  show s: "{b. b < 64 \<and> bit (c (bitv_cell s 0)) b} = {..<nblk sz} - A" using f n by auto
  have "c (bitv_cell s 0) \<noteq> 0 \<longleftrightarrow> (\<exists>b<64. bit (c (bitv_cell s 0)) b)"
  proof
    assume "c (bitv_cell s 0) \<noteq> 0"
    then obtain j where "bit (c (bitv_cell s 0)) j" by (auto simp: bit_eq_iff)
    then show "\<exists>b<64. bit (c (bitv_cell s 0)) b" using bit_imp_le_length by fastforce
  qed auto
  also have "\<dots> \<longleftrightarrow> (\<exists>i<nblk sz. i \<notin> A)" using f n by (meson order_less_le_trans)
  finally show "c (bitv_cell s 0) \<noteq> 0 \<longleftrightarrow> A \<noteq> {..<nblk sz}" using has_free_block [of A sz] pk by (simp add: packed_at_def)
qed


text \<open>The whole check of the bitvector, by class.\<close>

lemma count_words_packed:
  assumes pk: "packed_at (cells m) s sz A" and sz: "sz \<in> set tiny_classes" and hd: "slab_header m s"
  obtains cnt where "count_words s (bit_cells sz) m = Some cnt" "of_nat (nblk sz) - cnt = of_nat (card A)"
proof
  show "count_words s (bit_cells sz) m = Some (of_nat (nblk sz - card A))"
    unfolding free_count [OF pk sz, symmetric]
    by (rule count_words_ok) (use hd bit_cells_le [of sz] in \<open>auto simp: slab_header_def\<close>)
  show "of_nat (nblk sz) - (of_nat (nblk sz - card A) :: u32) = of_nat (card A)"
    using packed_card [OF pk] by (simp add: of_nat_diff)
qed

lemma check_2lvl_ok:
  assumes pk: "packed_at (cells m) s sz A" and sz: "sz \<in> set tiny_classes" "sz \<le> 48" and hd: "slab_header m s"
    and l: "unat (CEIL_DIV len 2) \<le> 4 * bit_cells sz" "unat (CEIL_DIV len 8) = bit_cells sz" and b: "ucast bits = (of_nat (nblk sz) :: u32)"
  shows "check_2lvl s len bits m = Some (of_nat (card A), A \<noteq> {..<nblk sz})"
proof -
  obtain cnt where "count_words s (bit_cells sz) m = Some cnt" "of_nat (nblk sz) - cnt = of_nat (card A)"
    by (rule count_words_packed [OF pk sz(1) hd])
  then show ?thesis
    by (simp add: check_2lvl_def check_levels_ok [OF pk sz hd l(1)] l(2) header_lanes [OF hd] b first_level [OF pk sz])
qed

lemma high_bits_clear:
  assumes "n < 64" "\<And>b. n \<le> b \<Longrightarrow> b < 64 \<Longrightarrow> \<not> bit w b"
  shows "w AND NOT (shl64 1 n - 1) = (0 :: u64)"
proof -
  have "shl64 1 n - 1 = (mask n :: u64)" using assms(1) by (simp add: shl64_def mask_eq_exp_minus_1 push_bit_eq_mult)
  then show ?thesis
    by (intro bit_word_eqI) (use assms(2) in \<open>auto simp: bit_and_iff bit_not_iff bit_mask_iff not_less\<close>)
qed

lemma check_bitvector_ok:
  assumes pk: "packed_at (cells m) s sz A" and sz: "sz \<in> set tiny_classes" and hd: "slab_header m s"
  shows "check_bitvector s sz m = Some (of_nat (card A), A \<noteq> {..<nblk sz})"
proof (cases "sz \<le> 48")
  case True
  then consider "sz = 16" | "sz = 32" | "sz = 48" using class_facts(10) [OF sz] by blast
  then show ?thesis
  proof cases
    case 1
    have "check_2lvl s PACKED_SLAB_16_BITV_LEN PACKED_SLAB_16_BITV_BITS m = Some (of_nat (card A), A \<noteq> {..<nblk sz})"
      by (rule check_2lvl_ok [OF pk sz True hd])
        (simp_all add: 1 layout_simps CEIL_DIV_def bit_cells_def nblk_def hdr_def)
    then show ?thesis by (simp add: check_bitvector_def 1)
  next
    case 2
    have "check_2lvl s PACKED_SLAB_32_BITV_LEN PACKED_SLAB_32_BITV_BITS m = Some (of_nat (card A), A \<noteq> {..<nblk sz})"
      by (rule check_2lvl_ok [OF pk sz True hd])
        (simp_all add: 2 layout_simps CEIL_DIV_def bit_cells_def nblk_def hdr_def)
    then show ?thesis by (simp add: check_bitvector_def 2)
  next
    case 3
    have c: "check_2lvl s PACKED_SLAB_48_BITV_LEN PACKED_SLAB_48_BITV_BITS m = Some (of_nat (card A), A \<noteq> {..<nblk sz})"
      by (rule check_2lvl_ok [OF pk sz True hd])
        (simp_all add: 3 layout_simps CEIL_DIV_def bit_cells_def nblk_def hdr_def)
    have "\<not> bit (cells m (bitv_cell s 1)) b" if "20 \<le> b" "b < 64" for b
    proof -
      have "free_bit (cells m) s (64 + b) \<longleftrightarrow> 64 + b < nblk sz \<and> 64 + b \<notin> A"
        using pk that unfolding packed_at_def by (auto simp: 3 bit_cells_def)
      moreover have "(64 + b) div 64 = 1" "(64 + b) mod 64 = b" using that by simp_all
      then have "free_bit (cells m) s (64 + b) \<longleftrightarrow> bit (cells m (bitv_cell s 1)) b" by (simp only: free_bit_def)
      moreover have "nblk sz = 84" by (simp add: 3 nblk_def hdr_def)
      ultimately show ?thesis using that by simp
    qed
    then have "cells m (bitv_cell s 1) AND NOT (shl64 1 20 - 1) = 0" by (intro high_bits_clear) simp_all
    moreover have "valid_cell m (bitv_cell s 1)" using hd by (simp add: slab_header_def)
    then have "load64 m (s + (slab_ps_f2 + 8)) = Some (cells m (bitv_cell s 1))"
      by (simp add: bitv_cell_def layout_simps load64_valid)
    moreover have "unat ((SLAB_SIZE - PACKED_SLAB_48_HEADER_SIZE) div 48 - 64) = 20" by (simp add: layout_simps)
    ultimately show ?thesis unfolding check_bitvector_def using c by (simp add: 3 malloc_assert_def)
  qed
next
  case False
  then have s48: "48 < sz" by simp
  note o = one_level [OF pk sz s48]
  have n: "nblk sz < 64"
  proof -
    have "list_all (\<lambda>sz. 48 < sz \<longrightarrow> nblk sz < 64) tiny_classes" by (simp add: tiny_classes_def nblk_def hdr_def)
    then show ?thesis using sz s48 by (simp only: list_all_iff)
  qed
  have u: "unat (packed_slab_n_blocks sz) = nblk sz" using class_facts(11) [OF sz s48] n by (simp add: unsigned_of_nat take_bit_nat_eq_self)
  have "cells m (bitv_cell s 0) AND NOT (shl64 1 (nblk sz) - 1) = 0"
    by (rule high_bits_clear [OF n]) (use o(3) in auto)
  moreover have "packed_slab_n_blocks sz - popcount64 (cells m (bitv_cell s 0)) = of_nat (card A)"
  proof -
    have "A \<subseteq> {..<nblk sz}" using pk by (simp add: packed_at_def)
    then have "card ({..<nblk sz} - A) = nblk sz - card A" by (simp add: card_Diff_subset finite_subset)
    then show ?thesis using packed_card [OF pk] by (simp add: popcount64_card o(2) class_facts(11) [OF sz s48] of_nat_diff)
  qed
  moreover have "sz \<noteq> 16" "sz \<noteq> 32" "sz \<noteq> 48" using s48 by auto
  ultimately show ?thesis by (simp add: check_bitvector_def header_lanes [OF hd] u malloc_assert_def o(1))
qed

lemma packed_block_size:
  assumes pk: "packed_at (cells m) s sz A" and sz: "sz \<in> set tiny_classes" and hd: "slab_header m s"
  shows "packed_slab_block_size s m = Some sz" "slab_is_packed s m = Some True" "packed_slab_is_empty s m = Some (A = {})"
    "load8 m (s + slab_sz_class) = Some (size_to_sz_class sz)" "load16 m (s + slab_alloc_cnt) = Some (of_nat (card A))"
    "small_slab_is_full s sz m = Some (A = {..<nblk sz})"
proof -
  have c: "get_lane 8 (cells m s) = size_to_sz_class sz" "get_lane 16 (cells m s) = (of_nat (card A) :: u16)" "bit (cells m s) 2"
    using pk by (simp_all add: packed_at_def)
  show "load8 m (s + slab_sz_class) = Some (size_to_sz_class sz)" "load16 m (s + slab_alloc_cnt) = Some (of_nat (card A))"
    by (simp_all add: header_lanes [OF hd] c)
  show "packed_slab_block_size s m = Some sz"
  proof -
    have "sz_class_to_size (size_to_sz_class sz) = sz" by (rule class_facts(13) [OF sz])
    then have "ucast MALLOC_ALIGN + ucast (size_to_sz_class sz) * ucast MALLOC_ALIGN = sz" by (simp add: sz_class_to_size_def algebra_simps)
    then show ?thesis by (simp add: packed_slab_block_size_def header_lanes [OF hd] c)
  qed
  show "slab_is_packed s m = Some True" using page_flags(2) [of m s] hd c by (simp add: slab_header_def)
  have A: "finite A" "card A \<le> 252" using packed_card [OF pk] class_facts(4) [OF sz] by auto
  have "(of_nat (card A) :: u16) = 0 \<longleftrightarrow> card A = 0"
  proof -
    have "card A < 2 ^ 16" by (rule le_less_trans [OF A(2)]) simp
    then have "unat (of_nat (card A) :: u16) = card A" by (subst unat_of_nat, intro mod_less) simp
    then show ?thesis unfolding unat_eq_zero [of "of_nat (card A) :: u16", symmetric] by simp
  qed
  then show "packed_slab_is_empty s m = Some (A = {})" using A(1) by (simp add: packed_slab_is_empty_def header_lanes [OF hd] c)
  show "small_slab_is_full s sz m = Some (A = {..<nblk sz})"
  proof (cases "sz \<le> 48")
    case True
    then have "sz = 16 \<or> sz = 32 \<or> sz = 48" using class_facts(10) [OF sz] by blast
    then show ?thesis using first_level [OF pk sz True] by (simp add: small_slab_is_full_def packed_slab_2lvl_is_full_def header_lanes [OF hd])
  next
    case False
    then have "48 < sz" "\<not> (sz = 16 \<or> sz = 32 \<or> sz = 48)" by auto
    then show ?thesis using one_level(1) [OF pk sz] by (simp add: small_slab_is_full_def packed_slab_is_full_def header_lanes [OF hd])
  qed
qed

text \<open>A packed slab passes the check, and is counted for its small bin when it has a free block.\<close>

lemma check_packed_slab_ok:
  assumes pk: "packed_at (cells m) s sz A" and sz: "sz \<in> set tiny_classes" and hd: "slab_header m s"
    and nx: "check_next_flag h s True m = Some ()" and len: "length (smallbin_cnts c) = 23"
  defines "b \<equiv> unat (packed_bin_idx sz)"
  shows "check_packed_slab h s c m = Some (c\<lparr>smallbin_cnts := (if A = {..<nblk sz} then smallbin_cnts c
      else (smallbin_cnts c)[b := smallbin_cnts c ! b + 1]), last_slab_is_alloc := True\<rparr>)"
proof -
  have "card A \<le> 252" using packed_card [OF pk] class_facts(4) [OF sz] by auto
  then have cnt: "(of_nat (card A) :: u32) = ucast (of_nat (card A) :: u16)"
    by (subst ucast_of_nat) simp_all
  have b: "b < 23" unfolding b_def by (rule bin_idx_of_nat(2) [OF sz])
  note simps = check_packed_slab_def packed_block_size(1,5) [OF pk sz hd] nx check_bitvector_ok [OF pk sz hd]
    bind.bind_lunit prod.case malloc_assert_True [OF cnt] b_def [symmetric]
  show ?thesis
  proof (cases "A = {..<nblk sz}")
    case True
    then have n: "\<not> A \<noteq> {..<nblk sz}" by blast
    show ?thesis unfolding simps if_not_P [OF n] if_P [OF True] by simp
  next
    case False
    show ?thesis unfolding simps if_P [OF False] if_not_P [OF False] using b by (simp add: count_up_def len)
  qed
qed

text \<open>The debug printer counts the bytes of the allocated blocks.\<close>

lemma calc_slab_used_mem_packed:
  assumes pk: "packed_at (cells m) s sz A" and sz: "sz \<in> set tiny_classes" and hd: "slab_header m s" and al: "bit (cells m s) 0"
  shows "calc_slab_used_mem s m = Some (of_nat (card A * unat sz))"
proof -
  have p: "calc_packed_used s sz m = Some (of_nat (card A))"
  proof (cases "sz \<le> 48")
    case True
    obtain cnt where w: "count_words s (bit_cells sz) m = Some cnt" "of_nat (nblk sz) - cnt = of_nat (card A)"
      by (rule count_words_packed [OF pk sz hd])
    from True consider "sz = 16" | "sz = 32" | "sz = 48" using class_facts(10) [OF sz] by blast
    then show ?thesis
    proof cases
      case 1
      have e: "unat (CEIL_DIV PACKED_SLAB_16_BITV_LEN 8) = bit_cells sz" "ucast PACKED_SLAB_16_BITV_BITS = (of_nat (nblk sz) :: u32)"
        by (simp_all add: 1 layout_simps CEIL_DIV_def bit_cells_def nblk_def hdr_def)
      show ?thesis unfolding calc_packed_used_def e w(1) bind.bind_lunit w(2) by (simp add: 1)
    next
      case 2
      have e: "unat (CEIL_DIV PACKED_SLAB_32_BITV_LEN 8) = bit_cells sz" "ucast PACKED_SLAB_32_BITV_BITS = (of_nat (nblk sz) :: u32)"
        by (simp_all add: 2 layout_simps CEIL_DIV_def bit_cells_def nblk_def hdr_def)
      show ?thesis unfolding calc_packed_used_def e w(1) bind.bind_lunit w(2) by (simp add: 2)
    next
      case 3
      have e: "unat (CEIL_DIV PACKED_SLAB_48_BITV_LEN 8) = bit_cells sz" "ucast PACKED_SLAB_48_BITV_BITS = (of_nat (nblk sz) :: u32)"
        by (simp_all add: 3 layout_simps CEIL_DIV_def bit_cells_def nblk_def hdr_def)
      show ?thesis unfolding calc_packed_used_def e w(1) bind.bind_lunit w(2) by (simp add: 3)
    qed
  next
    case False
    then have s48: "48 < sz" "sz \<noteq> 16" "sz \<noteq> 32" "sz \<noteq> 48" by auto
    have b: "bit_cells sz = 1" using s48(1) by (auto simp: bit_cells_def)
    have "card {i. i < 64 \<and> free_bit (cells m) s i} = nblk sz - card A" using free_count [OF pk sz] by (simp add: b)
    moreover have "{i. i < 64 \<and> free_bit (cells m) s i} = {i. i < 64 \<and> bit (cells m (bitv_cell s 0)) i}" by (auto simp: free_bit_def)
    ultimately have "packed_slab_n_blocks sz - popcount64 (cells m (bitv_cell s 0)) = of_nat (card A)"
      using packed_card [OF pk] by (simp add: popcount64_card class_facts(11) [OF sz s48(1)] of_nat_diff)
    then show ?thesis using s48(2-) by (simp add: calc_packed_used_def header_lanes [OF hd])
  qed
  have "A \<subseteq> {..<nblk sz}" using pk by (simp add: packed_at_def)
  then have "card A \<le> nblk sz" using packed_card [OF pk] by blast
  then have "card A * unat sz \<le> nblk sz * unat sz" by (rule mult_le_mono1)
  then have "card A * unat sz \<le> 4096" using class_facts(1) [OF sz] by linarith
  then have lim: "card A * unat sz < 2 ^ 32" by (rule le_less_trans) simp
  have "(of_nat (card A) * sz :: u32) = of_nat (card A * unat sz)" by simp
  then have e: "(ucast (of_nat (card A) * sz :: u32) :: u64) = of_nat (card A * unat sz)"
    by (simp only:) (rule ucast_of_nat, use lim in simp)
  have "slab_is_free s m = Some False"
    using page_flags(1) [of m s] hd al by (simp add: slab_is_alloc_def slab_is_free_def slab_header_def split: Option.bind_splits)
  then show ?thesis unfolding calc_slab_used_mem_def by (simp only: packed_block_size [OF pk sz hd] p bind.bind_lunit if_True if_False e)
qed

end
