(* ===== verification/Check_Sound.thy ===== *)
theory Check_Sound
  imports Check_Packed
begin

unbundle bit_operations_syntax

section \<open>The heap check accepts every reachable heap\<close>

text \<open>
  \<^verbatim>\<open>mm_checkheap\<close> on the heaps of \<open>tiny_reachable\<close>: the walk over the slabs counts the
  free regions by bin and the packed slabs with a free block by class, and the walks over
  the bins find the same numbers.
\<close>

subsection \<open>Tallies\<close>

text \<open>The number of entries of a map that satisfy a predicate.\<close>

definition tally :: "(nat \<rightharpoonup> nat) \<Rightarrow> (nat \<Rightarrow> nat \<Rightarrow> bool) \<Rightarrow> nat" where
  "tally F P = card {j. \<exists>n. F j = Some n \<and> P j n}"

lemma tally_empty [simp]: "tally Map.empty P = 0"
  by (simp add: tally_def)

lemma tally_upd:
  assumes "finite (dom F)" "F k = None"
  shows "tally (F(k \<mapsto> n)) P = tally F P + (if P k n then 1 else 0)"
proof -
  have fin: "finite {j. \<exists>n. F j = Some n \<and> P j n}" by (rule finite_subset [OF _ assms(1)]) auto
  have "{j. \<exists>x. (F(k \<mapsto> n)) j = Some x \<and> P j x} = (if P k n then insert k {j. \<exists>n. F j = Some n \<and> P j n} else {j. \<exists>n. F j = Some n \<and> P j n})"
    using assms(2) by auto
  then show ?thesis using fin assms(2) by (simp add: tally_def)
qed

lemma region_maps_finite: "finite (dom (free_map k rs))" "finite (dom (used_map k rs))"
proof -
  have "dom (free_map k rs) \<subseteq> {..k + pages rs}" "dom (used_map k rs) \<subseteq> {..k + pages rs}"
    using free_map_bounds used_map_bounds by fastforce+
  then show "finite (dom (free_map k rs))" "finite (dom (used_map k rs))" by (blast intro: finite_subset)+
qed

lemma tally_free:
  assumes "0 < n"
  shows "tally (free_map k (Free n # rs)) P = tally (free_map (k + n) rs) P + (if P k n then 1 else 0)"
proof -
  have "free_map (k + n) rs k = None" using free_map_bounds [of "k + n" rs k] assms by (cases "free_map (k + n) rs k") auto
  then show ?thesis by (simp add: tally_upd region_maps_finite)
qed

lemma tally_used:
  assumes "0 < n"
  shows "tally (used_map k (Used n # rs)) P = tally (used_map (k + n) rs) P + (if P k n then 1 else 0)"
proof -
  have "used_map (k + n) rs k = None" using used_map_bounds [of "k + n" rs k] assms by (cases "used_map (k + n) rs k") auto
  then show ?thesis by (simp add: tally_upd region_maps_finite)
qed

subsection \<open>One step of the walk\<close>

lemma lay_head_flag: "lay h c k p (r # rs) \<Longrightarrow> bit (c (pg h k)) 1 = p"
  by (cases r) auto

lemma page_header:
  assumes "shape h N m" "k < N"
  shows "slab_header m (pg h k)"
proof -
  have v: "valid_cell m (pg h k + c)" if "c < 4096" "c AND 7 = 0" for c by (rule shape_valid [OF assms that])
  have "valid_cell m (bitv_cell (pg h k) j)" if "j < 4" for j
  proof -
    from that consider "j = 0" | "j = 1" | "j = 2" | "j = 3" by linarith
    then show ?thesis unfolding bitv_cell_def by cases (simp_all add: v)
  qed
  then show ?thesis
    using v [of 0] v [of 8] v [of 16] shape_aligned [OF assms(1)] by (simp add: slab_header_def)
qed

lemma check_next_flag_ok:
  assumes sh: "shape h N m" and e: "cells m (h + 4072) = pg h N" and N: "k + n + pages rs = N"
    and nx: "next_adj_slab (pg h k) m = Some (pg h (k + n))" and l: "lay h (cells m) (k + n) b rs"
  shows "check_next_flag h (pg h k) b m = Some ()"
proof -
  have ld: "load64 m (h + heap_heap_end) = Some (pg h N)"
    using heap_end_exec [OF sh] e by (simp add: heap_end_def)
  show ?thesis
  proof (cases rs)
    case Nil
    then show ?thesis using N by (simp add: check_next_flag_def nx ld)
  next
    case (Cons r rs')
    have "0 < pages_of r" using lay_pos [OF l, of r] by (simp add: Cons)
    then have lt: "k + n < N" using N by (simp add: Cons)
    note hd = page_header [OF sh lt]
    have "bit (cells m (pg h (k + n))) 1 = b" using l lay_head_flag unfolding Cons by blast
    then show ?thesis
      using flag_tests(1) [of "cells m (pg h (k + n))"] header_lanes(5) [OF hd]
      by (auto simp: check_next_flag_def nx ld malloc_assert_def SLAB_PREV_ALLOC_BIT_def)
  qed
qed

lemma check_free_slab_ok:
  assumes sh: "shape h N m" and e: "cells m (h + 4072) = pg h N" and N: "k + n + pages rs = N"
    and l: "lay h (cells m) k p (Free n # rs)" and len: "length (free_slab_cnts c) = 128"
  defines "cs \<equiv> free_slab_cnts c"
  shows "check_slab h (pg h k) c m = Some (c\<lparr>free_slab_cnts := cs[bin_no n := cs ! bin_no n + 1], last_slab_is_alloc := False\<rparr>)"
    and "next_adj_slab (pg h k) m = Some (pg h (k + n))"
proof -
  have n: "0 < n" "\<not> bit (cells m (pg h k)) 0" "bit (cells m (pg h k)) 1" "cells m (pg h k + 24) = of_nat n"
    "cells m (pg h (k + n - 1) + 4088) = of_nat n" "lay h (cells m) (k + n) False rs" using l by simp_all
  have lt: "k < N" "k + n - 1 < N" using N n(1) by simp_all
  have h: "page_aligned h" by (rule shape_aligned [OF sh])
  have n52: "n < 2 ^ 52" using sh N by (simp add: shape_def)
  note hd = page_header [OF sh lt(1)]
  have fr: "slab_is_free (pg h k) m = Some True"
    using slab_is_free_exec [of "pg h k" m] hd n(2) by (simp add: slab_header_def)
  have pk: "\<exists>b. slab_is_packed (pg h k) m = Some b" using page_flags(2) [of m "pg h k"] hd by (simp add: slab_header_def)
  have v24: "valid_cell m (pg h k + 24)" by (rule shape_valid [OF sh lt(1)]) simp_all
  have num: "load64 m (pg h k + slab_num_slabs) = Some (of_nat n)" by (simp add: layout_simps load64_valid v24 n(4))
  have sz: "slab_get_size (pg h k) m = Some (of_nat n)" by (simp add: slab_get_size_def fr num)
  show nx: "next_adj_slab (pg h k) m = Some (pg h (k + n))" by (simp add: next_adj_slab_def sz slab_plus_pg)
  have ft: "load64 m (slab_plus (pg h k) (of_nat n) - 8) = Some (of_nat n)"
  proof -
    have v: "valid_cell m (pg h (k + n - 1) + 4088)" by (rule shape_valid [OF sh lt(2)]) simp_all
    have a: "pg h (k + n) - 8 = pg h (k + n - 1) + 4088" using n(1) by (intro pg_footer) simp
    show ?thesis unfolding slab_plus_pg a load64_valid [OF v] n(5) ..
  qed
  have b: "unat (slab_bin_idx (of_nat n)) = bin_no n" "bin_no n < 128"
  proof -
    show "bin_no n < 128" by (simp add: bin_no_def)
    then show "unat (slab_bin_idx (of_nat n)) = bin_no n"
      using slab_bin_idx_of_nat(1) [of n] n(1) n52 by (simp add: unat_of_nat)
  qed
  have z: "0 < (of_nat n :: u64)"
  proof -
    have "unat (of_nat n :: u64) = n" using n52 by (simp add: unat_of_nat)
    then show ?thesis using n(1) by (simp add: word_less_nat_alt)
  qed
  have "check_free_slab h (pg h k) c m = Some (c\<lparr>free_slab_cnts := cs[bin_no n := cs ! bin_no n + 1], last_slab_is_alloc := False\<rparr>)"
    using flag_tests(1) [of "cells m (pg h k)"] n(3) b(2)
    by (simp add: check_free_slab_def sz num ft b(1) z header_lanes(5) [OF hd] check_next_flag_ok [OF sh e N nx n(6)]
        count_up_def len cs_def malloc_assert_def SLAB_PREV_ALLOC_BIT_def)
  then show "check_slab h (pg h k) c m = Some (c\<lparr>free_slab_cnts := cs[bin_no n := cs ! bin_no n + 1], last_slab_is_alloc := False\<rparr>)"
    using pk fr by (auto simp: check_slab_def)
qed

lemma check_used_slab_ok:
  assumes sh: "shape h N m" and e: "cells m (h + 4072) = pg h N" and N: "k + 1 + pages rs = N"
    and l: "lay h (cells m) k p (Used 1 # rs)" and len: "length (smallbin_cnts c) = 23"
    and pk: "packed_at (cells m) (pg h k) sz A" and sz: "sz \<in> set tiny_classes"
  defines "cs \<equiv> smallbin_cnts c" and "b \<equiv> unat (packed_bin_idx sz)"
  shows "check_slab h (pg h k) c m = Some (c\<lparr>smallbin_cnts := (if A = {..<nblk sz} then cs else cs[b := cs ! b + 1]),
      last_slab_is_alloc := True\<rparr>)"
    and "next_adj_slab (pg h k) m = Some (pg h (k + 1))"
proof -
  have n: "bit (cells m (pg h k)) 0" "lay h (cells m) (k + 1) True rs" using l by simp_all
  have lt: "k < N" using N by simp
  note hd = page_header [OF sh lt]
  have fr: "slab_is_free (pg h k) m = Some False"
    using slab_is_free_exec [of "pg h k" m] hd n(1) by (simp add: slab_header_def)
  have pkd: "slab_is_packed (pg h k) m = Some True" by (rule packed_block_size(2) [OF pk sz hd])
  show nx: "next_adj_slab (pg h k) m = Some (pg h (k + 1))"
    using slab_plus_pg [of h k 1] by (simp add: next_adj_slab_def slab_get_size_def fr pkd)
  show "check_slab h (pg h k) c m = Some (c\<lparr>smallbin_cnts := (if A = {..<nblk sz} then cs else cs[b := cs ! b + 1]),
      last_slab_is_alloc := True\<rparr>)"
    using check_packed_slab_ok [OF pk sz hd check_next_flag_ok [OF sh e N nx n(2)] len]
    by (simp add: check_slab_def fr pkd cs_def b_def)
qed


subsection \<open>The walk over the slabs\<close>

definition lens_ok :: "counts \<Rightarrow> bool" where
  "lens_ok c \<longleftrightarrow> length (free_slab_cnts c) = 128 \<and> length (smallbin_cnts c) = 23"

text \<open>What the walk over the regions \<open>rs\<close> from page \<open>k\<close> adds to the counts.\<close>

definition walked :: "packed_map \<Rightarrow> nat \<Rightarrow> region list \<Rightarrow> counts \<Rightarrow> counts \<Rightarrow> bool" where
  "walked T k rs c c' \<longleftrightarrow> lens_ok c'
     \<and> (\<forall>b<128. free_slab_cnts c' ! b = free_slab_cnts c ! b + of_nat (tally (free_map k rs) (\<lambda>j n. bin_no n = b)))
     \<and> (\<forall>b<23. smallbin_cnts c' ! b = smallbin_cnts c ! b + of_nat (tally (used_map k rs) (\<lambda>j n. tiny_bin T j = Some b)))
     \<and> mediumbin_cnts c' = mediumbin_cnts c \<and> last_slab_is_alloc c' = last_used (last_slab_is_alloc c) rs"

lemma walked_free:
  assumes w: "walked T (k + n) rs (c\<lparr>free_slab_cnts := (free_slab_cnts c)[bin_no n := free_slab_cnts c ! bin_no n + 1], last_slab_is_alloc := False\<rparr>) c'"
    and n: "0 < n" and len: "lens_ok c"
  shows "walked T k (Free n # rs) c c'"
proof -
  have "bin_no n < 128" by (simp add: bin_no_def)
  then show ?thesis
    using w len unfolding walked_def tally_free [OF n] lens_ok_def by (simp add: nth_list_update)
qed

lemma walked_used:
  assumes w: "walked T (k + 1) rs (c\<lparr>smallbin_cnts := (if A = {..<nblk sz} then smallbin_cnts c
      else (smallbin_cnts c)[b := smallbin_cnts c ! b + 1]), last_slab_is_alloc := True\<rparr>) c'"
    and T: "T k = Some (sz, A)" and b: "b = unat (packed_bin_idx sz)" and sz: "sz \<in> set tiny_classes" and len: "lens_ok c"
  shows "walked T k (Used 1 # rs) c c'"
proof -
  have "b < 23" unfolding b by (rule bin_idx_of_nat(2) [OF sz])
  moreover have "tiny_bin T k = (if A = {..<nblk sz} then None else Some b)" by (simp add: tiny_bin_def T b)
  moreover have "tally (used_map k (Used 1 # rs)) P = tally (used_map (k + 1) rs) P + (if P k 1 then 1 else 0)" for P
    by (rule tally_used) simp
  ultimately show ?thesis
    using w len unfolding walked_def lens_ok_def by (auto simp add: nth_list_update)
qed

lemma check_slabs_ok:
  assumes sh: "shape h N m" and e: "cells m (h + 4072) = pg h N"
    and "k + pages rs = N" "lay h (cells m) k p rs" "lens_ok c"
    and "\<And>j n. used_map k rs j = Some n \<Longrightarrow> n = 1 \<and> (\<exists>sz A. T j = Some (sz, A) \<and> sz \<in> set tiny_classes \<and> packed_at (cells m) (pg h j) sz A)"
  shows "\<exists>c'. check_slabs h (pg h k) c m = Some c' \<and> walked T k rs c c'"
  using assms(3-)
proof (induction rs arbitrary: k p c)
  case Nil
  then have "pg h k = pg h N" by simp
  then have "check_slabs h (pg h k) c m = Some c"
    by (subst check_slabs.simps) (simp add: heap_end_exec [OF sh] e)
  then show ?case using Nil.prems(3) by (simp add: walked_def)
next
  case (Cons r rs)
  have r0: "0 < pages_of r" using lay_pos [OF Cons.prems(2), of r] by simp
  have N: "k + pages_of r + pages rs = N" using Cons.prems(1) by simp
  have "pg h k \<noteq> pg h N"
  proof -
    have "k < 2 ^ 52" "N < 2 ^ 52" using sh N by (simp_all add: shape_def)
    then show ?thesis using pg_inj [of k N h] N r0 by simp
  qed
  then have step: "check_slabs h (pg h k) c m = do {
      c \<leftarrow> check_slab h (pg h k) c m; s \<leftarrow> next_adj_slab (pg h k) m; check_slabs h s c m }"
    by (subst check_slabs.simps) (simp add: heap_end_exec [OF sh] e)
  show ?case
  proof (cases r)
    case (Free n)
    note l = Cons.prems(2) [unfolded Free]
    have n: "0 < n" "k + n + pages rs = N" using r0 N by (simp_all add: Free)
    have len: "length (free_slab_cnts c) = 128" using Cons.prems(3) by (simp add: lens_ok_def)
    let ?c = "c\<lparr>free_slab_cnts := (free_slab_cnts c)[bin_no n := free_slab_cnts c ! bin_no n + 1], last_slab_is_alloc := False\<rparr>"
    have "\<exists>c'. check_slabs h (pg h (k + n)) ?c m = Some c' \<and> walked T (k + n) rs ?c c'"
    proof (rule Cons.IH [OF n(2)])
      show "lay h (cells m) (k + n) False rs" using l by simp
      show "lens_ok ?c" using Cons.prems(3) by (simp add: lens_ok_def)
      show "x = 1 \<and> (\<exists>sz A. T j = Some (sz, A) \<and> sz \<in> set tiny_classes \<and> packed_at (cells m) (pg h j) sz A)"
        if "used_map (k + n) rs j = Some x" for j x
        by (rule Cons.prems(4)) (use that in \<open>simp add: Free\<close>)
    qed
    then show ?thesis
      using walked_free [OF _ n(1) Cons.prems(3)] unfolding step Free check_free_slab_ok [OF sh e n(2) l len] bind.bind_lunit by blast
  next
    case (Used n)
    have u: "used_map k (r # rs) k = Some n" by (simp add: Used)
    from Cons.prems(4) [OF u] obtain sz A where n: "n = 1"
      and T: "T k = Some (sz, A)" "sz \<in> set tiny_classes" "packed_at (cells m) (pg h k) sz A" by blast
    note l = Cons.prems(2) [unfolded Used n]
    have N1: "k + 1 + pages rs = N" using N by (simp add: Used n)
    have len: "length (smallbin_cnts c) = 23" using Cons.prems(3) by (simp add: lens_ok_def)
    let ?b = "unat (packed_bin_idx sz)"
    let ?c = "c\<lparr>smallbin_cnts := (if A = {..<nblk sz} then smallbin_cnts c else (smallbin_cnts c)[?b := smallbin_cnts c ! ?b + 1]),
      last_slab_is_alloc := True\<rparr>"
    have "\<exists>c'. check_slabs h (pg h (k + 1)) ?c m = Some c' \<and> walked T (k + 1) rs ?c c'"
    proof (rule Cons.IH [OF N1])
      show "lay h (cells m) (k + 1) True rs" using l by simp
      show "lens_ok ?c" using Cons.prems(3) by (simp add: lens_ok_def)
      show "x = 1 \<and> (\<exists>sz A. T j = Some (sz, A) \<and> sz \<in> set tiny_classes \<and> packed_at (cells m) (pg h j) sz A)"
        if "used_map (k + 1) rs j = Some x" for j x
      proof (rule Cons.prems(4))
        have "j \<noteq> k" using used_map_bounds [OF that] by auto
        then show "used_map k (r # rs) j = Some x" using that by (simp add: Used n)
      qed
    qed
    then show ?thesis
      using walked_used [where T = T and k = k and b = ?b, OF _ T(1) refl T(2) Cons.prems(3)]
      unfolding step Used n check_used_slab_ok [OF sh e N1 l len T(3,2)] bind.bind_lunit by blast
  qed
qed


subsection \<open>The slab bins\<close>

lemma free_start:
  assumes inv: "slab_inv h rs m" and l: "free_map 1 rs k = Some l"
  shows "slab_is_free (pg h k) m = Some True" "pg h k \<in> nodes h (dom (free_map 1 rs))" "1 \<le> k" "k < 2 ^ 52"
proof -
  note f = inv_basic [OF inv]
  obtain xs ys where rs: "rs = xs @ Free l # ys" "k = 1 + pages xs" using free_map_split [OF l] by auto
  have k: "1 \<le> k" "k < 1 + pages rs" using f(6) l by auto
  then show "1 \<le> k" "k < 2 ^ 52" using f(3) by simp_all
  have "\<not> bit (cells m (pg h k)) 0" using f(4) by (simp add: rs lay_append)
  then show "slab_is_free (pg h k) m = Some True"
    using slab_is_free_exec [of "pg h k" m] page_header [OF f(2) k(2)] by (simp add: slab_header_def)
  show "pg h k \<in> nodes h (dom (free_map 1 rs))" using l by (auto simp: nodes_def)
qed

lemma count_step:
  assumes "unat (cnt :: u32) + Suc n < 1000000"
  shows "cnt + 1 < 1000000" "unat (cnt + 1) + n < 1000000" "cnt + 1 + of_nat n = cnt + of_nat (Suc n)"
proof -
  have "unat (cnt + 1) = unat cnt + 1" using assms by (simp add: unat_word_ariths)
  then show "cnt + 1 < 1000000" "unat (cnt + 1) + n < 1000000" using assms by (simp_all add: word_less_nat_alt)
qed simp

lemma check_slab_list_ok:
  assumes inv: "slab_inv h rs m" and ok: "bins_ok h (cells m) bins (free_map 1 rs)" and i: "i < 128"
    and "bins i = xs @ ys" "unat cnt + length ys < 1000000"
  defines "r \<equiv> bin_root h i"
  shows "check_slab_list i r (last (r # map (pg h) xs)) (hd (map (pg h) ys @ [r])) cnt m = Some (cnt + of_nat (length ys))"
  using assms(4,5)
proof (induction ys arbitrary: xs cnt)
  case Nil
  then show ?case by (subst check_slab_list.simps) simp
next
  case (Cons y ys)
  note f = inv_basic [OF inv]
  have mem: "\<exists>n. free_map 1 rs x = Some n \<and> bin_no n = i" if "x \<in> set (bins i)" for x using bins_okD(2) [OF ok i] that by blast
  obtain n where n: "free_map 1 rs y = Some n" "bin_no n = i" using mem [of y] Cons.prems(1) by auto
  note fs = free_start [OF inv n(1)] and sz = free_size [OF inv n(1)]
  have rg: "ring slab_nx slab_pv (cells m) r (map (pg h) xs @ pg h y # map (pg h) ys)"
    using bins_okD(1) [OF ok i] Cons.prems(1) by (simp add: r_def)
  have pv: "cells m (slab_pv (pg h y)) = last (r # map (pg h) xs)" and nx: "cells m (slab_nx (pg h y)) = hd (map (pg h) ys @ [r])"
    using rg unfolding ring_def seg_append by (blast dest: seg_head_next seg_last_prev)+
  note v = valid_link_cells [OF f(2,6) fs(2)]
  have ne: "pg h y \<noteq> r" unfolding r_def using bin_root_not_page [OF f(1) fs(3,4) i] by metis
  have b: "unat (slab_bin_idx (of_nat n)) = i"
    using slab_bin_idx_of_nat(1) [OF sz(2,3)] n(2) i by (simp add: unat_of_nat)
  have srt: "(if i = NUM_SLAB_BINS - 1 \<and> last (r # map (pg h) xs) \<noteq> r then do {
      prev_num \<leftarrow> load64 m (last (r # map (pg h) xs) + slab_num_slabs); malloc_assert (prev_num \<le> of_nat n) } else Some ()) = Some ()"
  proof (cases "i = 127 \<and> xs \<noteq> []")
    case True
    let ?x = "last xs"
    have x: "?x \<in> set (bins i)" using True Cons.prems(1) by simp
    then obtain l where l: "free_map 1 rs ?x = Some l" using mem by blast
    have "sorted (map (\<lambda>k. the (free_map 1 rs k)) (xs @ y # ys))" using ok True Cons.prems(1) by (simp add: bins_ok_def)
    then have "the (free_map 1 rs ?x) \<le> the (free_map 1 rs y)" using True by (simp add: sorted_append)
    then have "l \<le> n" unfolding l n(1) option.sel .
    then have "(of_nat l :: u64) \<le> of_nat n" using sz(3) by (simp add: word_le_nat_alt unat_of_nat)
    moreover have "last (r # map (pg h) xs) = pg h ?x" using True by (simp add: last_map)
    ultimately show ?thesis using free_size(1) [OF inv l] by (simp add: malloc_assert_def)
  qed (auto simp: layout_simps)
  note ct = count_step [of cnt "length ys"]
  have lim: "unat cnt + Suc (length ys) < 1000000" using Cons.prems(2) by simp
  have "check_slab_list i r (pg h y) (hd (map (pg h) ys @ [r])) (cnt + 1) m = Some (cnt + 1 + of_nat (length ys))"
    using Cons.IH [of "xs @ [y]" "cnt + 1"] Cons.prems(1) ct(2) [OF lim] by simp
  then show ?case
    unfolding list.map append_Cons list.sel length_Cons ct(3) [OF lim, symmetric]
    by (subst check_slab_list.simps)
      (simp only: ne if_False Let_def load64_valid [OF v(2)] load64_valid [OF v(1)] pv nx fs(1) sz(1) b srt ct(1) [OF lim] bind.bind_lunit
        malloc_assert_True)
qed

lemma check_slab_bin_ok:
  assumes inv: "slab_inv h rs m" and ok: "bins_ok h (cells m) bins (free_map 1 rs)" and i: "i < 128" and lim: "pages rs < 1000000"
    and c: "free_slab_cnts c ! i = of_nat (tally (free_map 1 rs) (\<lambda>j n. bin_no n = i))"
  shows "check_slab_bin h c m i = Some ()"
proof -
  note f = inv_basic [OF inv]
  let ?r = "bin_root h i"
  have rg: "ring slab_nx slab_pv (cells m) ?r (map (pg h) (bins i))" by (rule bins_okD(1) [OF ok i])
  have d: "distinct (bins i)" using rg by (auto simp: ring_def distinct_map)
  have s: "set (bins i) = {k. \<exists>n. free_map 1 rs k = Some n \<and> bin_no n = i}" by (rule bins_okD(2) [OF ok i])
  have len: "length (bins i) = tally (free_map 1 rs) (\<lambda>j n. bin_no n = i)"
    using distinct_card [OF d] unfolding s tally_def by simp
  have "set (bins i) \<subseteq> {1..<1 + pages rs}" using s f(6) by auto
  then have "card (set (bins i)) \<le> card {1..<1 + pages rs}" by (intro card_mono) simp_all
  then have l: "length (bins i) < 1000000" using lim distinct_card [OF d] by simp
  have "?r \<in> nodes h (dom (free_map 1 rs))" using i by (auto simp: nodes_def)
  then have v: "valid_cell m (slab_nx ?r)" by (rule valid_link_cells(1) [OF f(2,6)])
  have hd: "load64 m (slab_bin h (of_nat i) + bin_head) = Some (hd (map (pg h) (bins i) @ [?r]))"
  proof -
    have "slab_bin h (of_nat i) + bin_head = slab_nx ?r" by (simp add: bin_root_def slab_bin_start_def layout_simps)
    moreover have "cells m (slab_nx ?r) = hd (map (pg h) (bins i) @ [?r])" using rg by (auto simp: ring_def dest: seg_head_next)
    ultimately show ?thesis by (simp add: load64_valid [OF v])
  qed
  have walk: "check_slab_list i ?r ?r (hd (map (pg h) (bins i) @ [?r])) 0 m = Some (of_nat (length (bins i)))"
    using check_slab_list_ok [OF inv ok i, of "[]" "bins i" 0] l by simp
  note w = skiplist_word [OF f(1) i]
  let ?a = "h + (4024 + of_nat (i div 64) * 8)" and ?k = "32 * (i div 32 mod 2)"
  have "i div 64 = 0 \<or> i div 64 = 1" using i by auto
  then have va: "valid_cell m ?a" by (auto intro!: shape_valid_header [OF f(2)])
  have w32: "load32 m (slab_skiplist h (of_nat (i div 32))) = Some (get_lane ?k (cells m ?a))"
    unfolding w(3) using load_lane_page [OF f(1) w(6), of m] va w(4,5) by (simp add: mult.commute)
  have bit: "drop_bit (unat (of_nat (i mod 32) :: u8)) (get_lane ?k (cells m ?a) :: u32) AND 1 = 1 \<longleftrightarrow> skip_bit h (cells m) i"
    unfolding skip_bit_lane [OF i] drop_and_1 by (simp add: unat_of_nat)
  have sk: "if i = 127 then \<not> skip_bit h (cells m) i else bins i = [] \<or> skip_bit h (cells m) i"
  proof (cases "i = 127")
    case False
    then have "i < 127" using i by simp
    then show ?thesis using ok False by (auto simp: bins_ok_def)
  qed (use ok in \<open>simp add: bins_ok_def\<close>)
  have z: "(of_nat (length (bins i)) :: u32) = 0 \<longleftrightarrow> bins i = []"
  proof -
    have "unat (of_nat (length (bins i)) :: u32) = length (bins i)" using l by (simp add: unat_of_nat)
    then show ?thesis unfolding unat_eq_zero [of "of_nat (length (bins i)) :: u32", symmetric] by simp
  qed
  have c': "free_slab_cnts c ! i = of_nat (length (bins i))" by (simp only: c len)
  show ?thesis
    unfolding check_slab_bin_def Let_def hd bin_root_def [symmetric] bind.bind_lunit walk w(1,2) w32 bit
    using sk by (auto simp add: c' malloc_assert_def z layout_simps)
qed


subsection \<open>The small bins\<close>

definition packed_slabs :: "memory \<Rightarrow> u64 \<Rightarrow> packed_map \<Rightarrow> bool" where
  "packed_slabs m h T \<longleftrightarrow> (\<forall>k sz A. T k = Some (sz, A) \<longrightarrow> sz \<in> set tiny_classes \<and> packed_at (cells m) (pg h k) sz A
     \<and> A \<noteq> {} \<and> slab_header m (pg h k))"

lemma check_small_list_ok:
  assumes T: "packed_slabs m h T" and ok: "small_ok h (cells m) bins (tiny_bin T)" and i: "i < 23"
    and "bins i = xs @ ys" "unat cnt + length ys < 1000000"
  defines "r \<equiv> small_root h i"
  shows "check_small_list i (last (r # map (pg h) xs)) (case map (pg h) ys of [] \<Rightarrow> 0 | y # _ \<Rightarrow> y) cnt m = Some (cnt + of_nat (length ys))"
  using assms(4,5)
proof (induction ys arbitrary: xs cnt)
  case Nil
  then show ?case by (subst check_small_list.simps) simp
next
  case (Cons y ys)
  have "y \<in> {k. tiny_bin T k = Some i}" using ok i Cons.prems(1) unfolding small_ok_def by (metis in_set_conv_decomp)
  then obtain sz A where y: "T y = Some (sz, A)" "A \<noteq> {..<nblk sz}" "unat (packed_bin_idx sz) = i"
    by (auto simp: tiny_bin_def split: option.splits if_splits)
  then have t: "sz \<in> set tiny_classes" "packed_at (cells m) (pg h y) sz A" "A \<noteq> {}" and hd: "slab_header m (pg h y)"
    using T by (simp_all add: packed_slabs_def)
  have "chain small_nx small_pv (cells m) r (map (pg h) (bins i))" using ok i by (simp add: small_ok_def r_def)
  then have "chain small_nx small_pv (cells m) r (map (pg h) xs @ pg h y # map (pg h) ys)"
    by (simp only: Cons.prems(1) map_append list.map)
  then have pv: "cells m (small_pv (pg h y)) = last (r # map (pg h) xs)" and ne: "pg h y \<noteq> 0"
    and cy: "chain small_nx small_pv (cells m) (pg h y) (map (pg h) ys)"
    unfolding chain_append by (blast dest: seg_last_prev)+
  have nx: "cells m (small_nx (pg h y)) = (case map (pg h) ys of [] \<Rightarrow> 0 | y # _ \<Rightarrow> y)" using chain_head [OF cy] .
  have v: "valid_cell m (small_pv (pg h y))" "valid_cell m (small_nx (pg h y))"
    using hd by (simp_all add: slab_header_def layout_simps)
  have lim: "unat cnt + Suc (length ys) < 1000000" using Cons.prems(2) by simp
  note ct = count_step [OF lim] and pb = packed_block_size [OF t(2,1) hd]
  have "check_small_list i (pg h y) (case map (pg h) ys of [] \<Rightarrow> 0 | y # _ \<Rightarrow> y) (cnt + 1) m = Some (cnt + 1 + of_nat (length ys))"
    using Cons.IH [of "xs @ [y]" "cnt + 1"] Cons.prems(1) ct(2) by simp
  then show ?case
    unfolding list.map list.case length_Cons ct(3) [symmetric]
    by (subst check_small_list.simps)
      (simp only: ne if_False Let_def load64_valid [OF v(1)] load64_valid [OF v(2)] pv nx pb class_facts(13) [OF t(1)] y(2,3) t(3) ct(1)
        bind.bind_lunit malloc_assert_True not_False_eq_True)
qed

lemma check_small_bin_ok:
  assumes T: "packed_slabs m h T" and ok: "small_ok h (cells m) bins (tiny_bin T)" and i: "i < 23"
    and v: "valid_cell m (small_nx (small_root h i))" and D: "dom T \<subseteq> {1..<1 + n}" and lim: "n < 1000000"
    and c: "smallbin_cnts c ! i = of_nat (card {k. tiny_bin T k = Some i})"
  shows "check_small_bin h c m i = Some ()"
proof -
  let ?r = "small_root h i"
  have ch: "chain small_nx small_pv (cells m) ?r (map (pg h) (bins i))" and d: "distinct (bins i)" and s: "set (bins i) = {k. tiny_bin T k = Some i}"
    using ok i by (simp_all add: small_ok_def)
  have "set (bins i) \<subseteq> {1..<1 + n}" using D tiny_bin_dom unfolding s by blast
  then have "card (set (bins i)) \<le> card {1..<1 + n}" by (intro card_mono) simp_all
  then have l: "length (bins i) < 1000000" using lim distinct_card [OF d] by simp
  have bin: "small_bin h (of_nat i) = small_nx ?r" "small_bin_start (small_bin h (of_nat i)) = ?r"
    by (simp_all add: small_root_def small_bin_start_def layout_simps)
  have "check_small_list i ?r (case map (pg h) (bins i) of [] \<Rightarrow> 0 | y # _ \<Rightarrow> y) 0 m = Some (of_nat (length (bins i)))"
    using check_small_list_ok [OF T ok i, of "[]" "bins i" 0] l by simp
  then show ?thesis
    using distinct_card [OF d] c chain_head [OF ch]
    by (simp add: check_small_bin_def bin(2)) (simp add: bin(1) load64_valid [OF v] s malloc_assert_def)
qed

subsection \<open>The medium bins and the whole check\<close>

lemma check_medium_bin_ok:
  assumes nm: "no_medium h (cells m)" and sh: "shape h N m" and i: "i < 224" and c: "mediumbin_cnts c ! i = 0"
  shows "check_medium_bin h c m i = Some ()"
proof -
  note o = medium_head_offset [OF i]
  have h: "page_aligned h" by (rule shape_aligned [OF sh])
  have "of_nat (2232 + 8 * i) < (4096 :: u64)" by (rule less_trans [OF o(2)]) simp
  then have v: "valid_cell m (h + of_nat (2232 + 8 * i))" by (rule shape_valid_header [OF sh _ o(3)])
  have a: "h + (heap_mediumbins + of_nat i * 8) = h + of_nat (2232 + 8 * i)" by (simp add: layout_simps mult.commute)
  have b: "load64 m (h + (heap_mediumbins + of_nat i * 8)) = Some 0"
    using nm i unfolding a load64_valid [OF v] no_medium_def by blast
  have walk: "check_medium_list i x 0 0 m = Some 0" for x by (subst check_medium_list.simps) simp
  have w: "\<exists>w :: u32. load_lane m (med_skiplist h (medium_bin_skiplist_idx (of_nat i))) = Some w"
  proof -
    have "unat (of_nat i :: u32) = i" using i by (simp add: unat_of_nat)
    then have "medium_bin_skiplist_idx (of_nat i) = of_nat (i div 32)"
      unfolding medium_bin_skiplist_idx_def
      by (intro unsigned_word_eqI [where ?'a = nat]) (use i in \<open>simp add: unat_div unsigned_ucast_eq take_bit_eq_mod unat_of_nat\<close>)
    moreover have "i div 32 \<in> {0, 1, 2, 3, 4, 5, 6}" using i by auto
    ultimately have "\<exists>d \<in> {4040, 4044, 4048, 4052, 4056, 4060, 4064 :: u64}. med_skiplist h (medium_bin_skiplist_idx (of_nat i)) = h + d"
      by (auto simp: med_skiplist_def layout_simps)
    moreover have "valid_cell m (h + d)" if "d \<in> {4040, 4048, 4056, 4064}" for d using that by (auto intro!: shape_valid_header [OF sh])
    ultimately show ?thesis by (auto simp: load_lane_page [OF h])
  qed
  then show ?thesis by (auto simp: check_medium_bin_def b walk c malloc_assert_def)
qed


text \<open>The facts about a heap of tiny blocks that the parts of the check need.\<close>

lemma tiny_packed_slabs:
  assumes inv: "heap_inv h rs T m"
  shows "packed_slabs m h T"
  unfolding packed_slabs_def
proof (intro allI impI)
  fix k sz A assume k: "T k = Some (sz, A)"
  have ok: "packed_ok h T (used_map 1 rs) (cells m)" and sh: "shape h (1 + pages rs) m"
    using inv inv_basic(2) by (auto simp: heap_inv_def)
  have "k < 1 + pages rs" using heap_inv_dom(1) [OF inv] k by auto
  then show "sz \<in> set tiny_classes \<and> packed_at (cells m) (pg h k) sz A \<and> A \<noteq> {} \<and> slab_header m (pg h k)"
    using packed_okD [OF ok k] page_header [OF sh] by blast
qed

lemma tiny_tally:
  assumes "all_packed U T"
  shows "tally U (\<lambda>j n. tiny_bin T j = Some b) = card {k. tiny_bin T k = Some b}"
proof -
  have "U k = map_option (\<lambda>_. 1) (T k)" for k using assms unfolding all_packed_def by (rule fun_cong)
  then have "(\<exists>n. U k = Some n \<and> tiny_bin T k = Some b) \<longleftrightarrow> tiny_bin T k = Some b" for k using tiny_bin_dom [of T k b] by auto
  then show ?thesis by (simp only: tally_def)
qed

lemma walk_tiny:
  assumes inv: "tiny_inv h rs T (m, live)"
  obtains c where "check_slabs h (heap_start h) init_counts m = Some c" "walked T 1 rs init_counts c"
proof -
  note g = tiny_invD [OF inv]
  have sl: "slab_inv h rs m" and ok: "packed_ok h T (used_map 1 rs) (cells m)" using g(1) by (simp_all add: heap_inv_def)
  note f = inv_basic [OF sl]
  have e: "cells m (h + 4072) = pg h (1 + pages rs)" using sl by (simp add: slab_inv_def end_ok_def)
  have start: "heap_start h = pg h 1" by (simp add: heap_start_def layout_simps ALIGN_UP_def pg_def)
  have "\<exists>c. check_slabs h (pg h 1) init_counts m = Some c \<and> walked T 1 rs init_counts c"
  proof (rule check_slabs_ok [OF f(2) e refl f(4)])
    show "lens_ok init_counts" by (simp add: lens_ok_def init_counts_def layout_simps)
    show "n = 1 \<and> (\<exists>sz A. T j = Some (sz, A) \<and> sz \<in> set tiny_classes \<and> packed_at (cells m) (pg h j) sz A)"
      if "used_map 1 rs j = Some n" for j n
    proof -
      have "used_map 1 rs j = map_option (\<lambda>_. 1) (T j)" using g(5) unfolding all_packed_def by (rule fun_cong)
      then have "T j \<noteq> None" "n = 1" using that by auto
      then obtain sz A where "T j = Some (sz, A)" by fast
      then show ?thesis using packed_okD [OF ok] \<open>n = 1\<close> by blast
    qed
  qed
  then show thesis using that unfolding start by blast
qed

lemma last_slab_flag:
  assumes "slab_inv h rs m"
  shows "\<exists>w. load32 m (h + heap_flags) = Some w \<and> (w AND LAST_SLAB_ALLOC \<noteq> 0 \<longleftrightarrow> last_used True rs)"
proof -
  note f = inv_basic [OF assms]
  have "valid_cell m (h + 4080)" using shape_valid_header [OF f(2), of 4080] by simp
  then have "load32 m (h + heap_flags) = Some (get_lane 0 (cells m (h + 4080)))"
    by (simp add: load_lane_page [OF f(1)] layout_simps)
  moreover have "(w AND 1 \<noteq> 0) \<longleftrightarrow> bit w 0" for w :: u32 by (simp add: and_one_eq bit_0 even_iff_mod_2_eq_zero)
  then have "get_lane 0 (cells m (h + 4080)) AND LAST_SLAB_ALLOC \<noteq> (0 :: u32) \<longleftrightarrow> bit (cells m (h + 4080)) 0"
    by (simp only: LAST_SLAB_ALLOC_def bit_get_lane) simp
  moreover have "bit (cells m (h + 4080)) 0 \<longleftrightarrow> last_used True rs" using assms by (simp add: slab_inv_def end_ok_def)
  ultimately show ?thesis by blast
qed

lemma init_counts_0:
  "b < 128 \<Longrightarrow> free_slab_cnts init_counts ! b = 0" "b < 23 \<Longrightarrow> smallbin_cnts init_counts ! b = 0"
  "b < 224 \<Longrightarrow> mediumbin_cnts init_counts ! b = 0" "last_slab_is_alloc init_counts"
  by (simp_all add: init_counts_def layout_simps)

text \<open>The whole check, for a heap that holds tiny blocks only.\<close>

lemma check_heap_ok:
  assumes inv: "tiny_inv h rs T (m, live)" and lim: "pages rs < 1000000"
  shows "mm_checkheap m = Some True"
proof -
  note g = tiny_invD [OF inv]
  have sl: "slab_inv h rs m" and ok: "packed_ok h T (used_map 1 rs) (cells m)" using g(1) by (simp_all add: heap_inv_def)
  note f = inv_basic [OF sl]
  obtain bins where bins: "bins_ok h (cells m) bins (free_map 1 rs)" using sl by (auto simp: slab_inv_def)
  obtain sbins where sbins: "small_ok h (cells m) sbins (tiny_bin T)" using ok by (auto simp: packed_ok_def)
  obtain c where walk: "check_slabs h (heap_start h) init_counts m = Some c" and c: "walked T 1 rs init_counts c"
    by (rule walk_tiny [OF inv])
  obtain w where w: "load32 m (h + heap_flags) = Some w" "w AND LAST_SLAB_ALLOC \<noteq> 0 \<longleftrightarrow> last_used True rs"
    using last_slab_flag [OF sl] by blast
  have lastb: "last_slab_is_alloc c = (w AND LAST_SLAB_ALLOC \<noteq> 0)"
    using c w(2) init_counts_0(4) unfolding walked_def by (simp only: simp_thms)
  have b1: "each (check_slab_bin h c m) [0..<128] = Some ()"
  proof (rule each_Some)
    fix i assume "i \<in> set [0..<128]"
    then have i: "i < 128" by simp
    show "check_slab_bin h c m i = Some ()"
      by (rule check_slab_bin_ok [OF sl bins i lim]) (use c i in \<open>simp add: walked_def init_counts_0\<close>)
  qed
  have b2: "each (check_small_bin h c m) [0..<23] = Some ()"
  proof (rule each_Some)
    fix i assume "i \<in> set [0..<23]"
    then have i: "i < 23" by simp
    have "valid_cell m (small_nx (small_root h i))"
      unfolding small_root_nx [OF i] by (rule shape_valid_header [OF f(2) small_offsets(2,3) [OF i]])
    moreover have "smallbin_cnts c ! i = of_nat (card {k. tiny_bin T k = Some i})"
      using c i unfolding walked_def tiny_tally [OF g(5)] by (simp add: init_counts_0)
    ultimately show "check_small_bin h c m i = Some ()"
      using check_small_bin_ok [OF tiny_packed_slabs [OF g(1)] sbins i _ heap_inv_dom(1) [OF g(1)] lim] by blast
  qed
  have b3: "each (check_medium_bin h c m) [0..<224] = Some ()"
  proof (rule each_Some)
    fix i assume "i \<in> set [0..<224]"
    then have i: "i < 224" by simp
    show "check_medium_bin h c m i = Some ()"
      by (rule check_medium_bin_ok [OF g(6) f(2) i]) (use c i in \<open>simp add: walked_def init_counts_0\<close>)
  qed
  show ?thesis
    unfolding mm_checkheap_def Let_def g(3) walk w(1) bind.bind_lunit malloc_assert_True [OF lastb]
    by (simp only: layout_simps NUM_SLAB_BINS_def b1 b2 b3 bind.bind_lunit)
qed

lemma tiny_heap_size:
  assumes "tiny_inv h rs T (m, live)"
  shows "unat (Heap_Size m) = 4096 * (1 + pages rs)" "unat (arena_end m) = unat h + unat (Heap_Size m)"
proof -
  have sh: "shape h (1 + pages rs) m" using assms inv_basic(2) by (auto simp: tiny_inv_def heap_inv_def)
  then have e: "unat (arena_end m) = unat h + 4096 * (1 + pages rs)" "arena_start m = h" by (simp_all add: shape_def unat_pg)
  then show "unat (Heap_Size m) = 4096 * (1 + pages rs)" by (simp add: Heap_Size_def unat_sub word_le_nat_alt)
  then show "unat (arena_end m) = unat h + unat (Heap_Size m)" using e(1) by simp
qed

text \<open>C8: Whatever tiny blocks a client allocates, frees and writes, the library's own consistency
  check of the heap, mm_checkheap, succeeds in every state reached, as long as the heap
  has at most a million pages (the check takes longer bins for loops).\<close>

theorem checkheap_accepts_reachable:
  assumes "tiny_reachable h (m, live)" and "Heap_Size m \<le> 4096 * 1000000"
  shows "mm_checkheap m = Some True"
proof -
  obtain rs T where inv: "tiny_inv h rs T (m, live)" using tiny_reachable_good [OF assms(1)] by blast
  have "unat (Heap_Size m) \<le> 4096 * 1000000" using assms(2) by (simp add: word_le_nat_alt)
  then have "pages rs < 1000000" unfolding tiny_heap_size(1) [OF inv] by simp
  then show ?thesis by (rule check_heap_ok [OF inv])
qed

theorem checkheap_accepts_reachable_witness: "mm_checkheap tiny_heap = Some True"
proof (rule checkheap_accepts_reachable [OF tiny_run(3)])
  obtain rs T where inv: "tiny_inv 4096 rs T (tiny_heap, [tiny_ptr \<mapsto> 32])" using tiny_reachable_good [OF tiny_run(3)] by blast
  then have "unat (Heap_Size tiny_heap) \<le> 12288" using tiny_heap_size(2) [OF inv] tiny_run(4) by linarith
  then show "Heap_Size tiny_heap \<le> 4096 * 1000000" by (simp add: word_le_nat_alt)
qed

end
