(* ===== verification/Large_Vector.thy ===== *)
theory Large_Vector
  imports Medium
begin

unbundle bit_operations_syntax

section \<open>The offset vector of a large slab\<close>

text \<open>
  The blocks of a large slab as a list of pieces: the offset of the piece from the start of
  the slab, in units of 16 bytes, and whether it is allocated. Byte \<open>i\<close> of the first word
  holds the offset of piece \<open>i\<close> modulo 256, bit \<open>i\<close> of \<^verbatim>\<open>block_alloc\<close> its flag. This theory
  relates the masks and shifts of the code to operations on the list.
\<close>

type_synonym pieces = "(nat \<times> bool) list"

text \<open>
  No piece is shorter than 512 bytes, no two free ones are neighbours, and the last one
  ends at \<open>e\<close>: at the end of the first slab (256 units), or of a later one, and then it is
  allocated and may start as late as at the end of the first slab.
\<close>

definition fits :: "nat \<times> bool \<Rightarrow> nat \<times> bool \<Rightarrow> bool" where
  "fits b b' \<longleftrightarrow> fst b + 32 \<le> fst b' \<and> (snd b \<or> snd b')"

definition end_fits :: "nat \<Rightarrow> nat \<times> bool \<Rightarrow> bool" where
  "end_fits e b \<longleftrightarrow> fst b \<le> 256 \<and> fst b + 32 \<le> e \<and> (e = 256 \<or> snd b)"

definition pieces_ok :: "nat \<Rightarrow> pieces \<Rightarrow> bool" where
  "pieces_ok e bs \<longleftrightarrow> bs \<noteq> [] \<and> fst (hd bs) = 1 \<and> successively fits bs \<and> end_fits e (last bs)"

definition piece_end :: "nat \<Rightarrow> pieces \<Rightarrow> nat" where
  "piece_end e ys = (case ys of [] \<Rightarrow> e | y # _ \<Rightarrow> fst y)"

lemma piece_end_simps [simp]: "piece_end e [] = e" "piece_end e (y # ys) = fst y"
  by (simp_all add: piece_end_def)

subsection \<open>Where the pieces lie\<close>

lemma fits_offset:
  assumes "successively fits bs" "i < length bs"
  shows "fst (hd bs) + 32 * i \<le> fst (bs ! i)"
  using assms
proof (induction bs arbitrary: i)
  case (Cons b bs)
  show ?case
  proof (cases i)
    case (Suc j)
    then have j: "j < length bs" using Cons.prems(2) by simp
    then have ne: "bs \<noteq> []" by auto
    then have "fits b (hd bs)" "successively fits bs" using Cons.prems(1) by (auto simp: successively_Cons)
    then have "fst b + 32 \<le> fst (hd bs)" "fst (hd bs) + 32 * j \<le> fst (bs ! j)"
      using Cons.IH [OF _ j] by (simp_all add: fits_def)
    then show ?thesis using Suc by simp
  qed simp
qed simp

lemma fits_less:
  assumes "successively fits bs" "i < j" "j < length bs"
  shows "fst (bs ! i) + 32 * (j - i) \<le> fst (bs ! j)"
proof -
  have d: "drop i bs \<noteq> []" "hd (drop i bs) = bs ! i" using assms by (simp_all add: hd_drop_conv_nth)
  have "successively fits (take i bs @ drop i bs)" using assms(1) by simp
  then have "successively fits (drop i bs)" unfolding successively_append_iff by blast
  from fits_offset [OF this, of "j - i"] show ?thesis using assms d by simp
qed

lemma pieces_bounds:
  assumes "pieces_ok e bs"
  shows "length bs \<le> 8" "i < length bs \<Longrightarrow> 1 + 32 * i \<le> fst (bs ! i)" "i < length bs \<Longrightarrow> fst (bs ! i) \<le> 256"
    "Suc i < length bs \<Longrightarrow> fst (bs ! i) \<le> 224" "i < j \<Longrightarrow> j < length bs \<Longrightarrow> fst (bs ! i) < fst (bs ! j)"
    "fst (last bs) + 32 \<le> e"
proof -
  have ne: "bs \<noteq> []" and hd: "fst (hd bs) = 1" and s: "successively fits bs" and e: "end_fits e (last bs)"
    using assms by (simp_all add: pieces_ok_def)
  show lo: "1 + 32 * i \<le> fst (bs ! i)" if "i < length bs" for i using fits_offset [OF s that] hd by simp
  have l: "fst (bs ! (length bs - 1)) \<le> 256" using e ne by (simp add: end_fits_def last_conv_nth)
  have "length bs - 1 < length bs" using ne by (cases bs) simp_all
  from le_trans [OF lo [OF this] l] have "1 + 32 * (length bs - 1) \<le> 256" .
  then show "length bs \<le> 8" by simp
  show "fst (bs ! i) \<le> 256" if "i < length bs" for i
  proof (cases "i = length bs - 1")
    case False
    then have "i < length bs - 1" "length bs - 1 < length bs" using that by linarith+
    from fits_less [OF s this] l show ?thesis by linarith
  qed (use l in simp)
  show "fst (bs ! i) \<le> 224" if "Suc i < length bs" for i
  proof -
    have "i < length bs - 1" "length bs - 1 < length bs" using that by linarith+
    from fits_less [OF s this] have "fst (bs ! i) + 32 * (length bs - 1 - i) \<le> 256" using l by linarith
    moreover have "1 \<le> length bs - 1 - i" using that by simp
    ultimately show ?thesis by linarith
  qed
  show "fst (bs ! i) < fst (bs ! j)" if "i < j" "j < length bs" for i j
    using fits_less [OF s that] that by simp
  show "fst (last bs) + 32 \<le> e" using e by (simp add: end_fits_def)
qed

subsection \<open>Bytes of a word\<close>

abbreviation byte :: "nat \<Rightarrow> u64 \<Rightarrow> u8" where "byte i w \<equiv> get_lane (8 * i) w"

lemma bit_byte: "bit (byte j w) i \<longleftrightarrow> i < 8 \<and> bit w (8 * j + i)"
  by (simp add: bit_get_lane)

lemma byte_ops:
  "byte j (a OR b) = byte j a OR byte j b"
  "byte j (w AND mask (8 * n)) = (if j < n then byte j w else 0)"
  "j < 8 \<Longrightarrow> byte j (w AND NOT (mask (8 * n))) = (if j < n then 0 else byte j w)"
  "j < 8 \<Longrightarrow> byte j (push_bit 8 w) = (if j = 0 then 0 else byte (j - 1) w)"
  "byte j (drop_bit (8 * n) w) = byte (j + n) w"
proof -
  show "byte j (a OR b) = byte j a OR byte j b" by (rule bit_eqI) (auto simp: bit_byte bit_or_iff)
  have c: "8 * j + i < 8 * n \<longleftrightarrow> j < n" if "i < 8" for i using that by presburger
  show "byte j (w AND mask (8 * n)) = (if j < n then byte j w else 0)"
    by (rule bit_eqI) (auto simp: bit_byte bit_and_iff bit_mask_iff c dest: bit_imp_le_length)
  show "byte j (w AND NOT (mask (8 * n))) = (if j < n then 0 else byte j w)" if j: "j < 8"
  proof (rule bit_eqI)
    fix i
    have "8 * j + i < 64" if "i < 8" using that j by presburger
    then show "bit (byte j (w AND NOT (mask (8 * n)))) i \<longleftrightarrow> bit (if j < n then 0 else byte j w) i"
      using c [of i] by (auto simp: bit_byte bit_and_iff bit_not_iff bit_mask_iff)
  qed
  show "byte j (push_bit 8 w) = (if j = 0 then 0 else byte (j - 1) w)" if j: "j < 8"
  proof (rule bit_eqI)
    fix i
    have "8 * j + i < 64" if "i < 8" using that j by presburger
    moreover have "8 \<le> 8 * j + i \<longleftrightarrow> j \<noteq> 0" if "i < 8" using that by presburger
    moreover have "8 * j + i - 8 = 8 * (j - 1) + i" if "j \<noteq> 0" using that by (cases j) simp_all
    ultimately show "bit (byte j (push_bit 8 w)) i \<longleftrightarrow> bit (if j = 0 then 0 else byte (j - 1) w) i"
      by (auto simp: bit_byte bit_push_bit_iff)
  qed
  show "byte j (drop_bit (8 * n) w) = byte (j + n) w"
  proof (rule bit_eqI)
    fix i
    have "8 * n + (8 * j + i) = 8 * (j + n) + i" by simp
    then show "bit (byte j (drop_bit (8 * n) w)) i \<longleftrightarrow> bit (byte (j + n) w) i"
      by (simp only: bit_byte bit_drop_bit_eq comp_def)
  qed
qed

lemma byte_high: "8 \<le> j \<Longrightarrow> byte j w = 0"
  by (rule bit_eqI) (auto simp: bit_byte dest: bit_imp_le_length)

lemma byte_word: "byte j (push_bit (8 * n) (ucast (b :: u8))) = (if j = n \<and> j < 8 then b else 0)"
proof (rule bit_eqI)
  fix i
  show "bit (byte j (push_bit (8 * n) (ucast b))) i \<longleftrightarrow> bit (if j = n \<and> j < 8 then b else 0) i"
  proof (cases "i < 8 \<and> j = n \<and> j < 8")
    case True
    then have "8 * j + i < 64" by presburger
    then show ?thesis using True by (simp add: bit_byte bit_push_bit_iff bit_ucast_iff)
  next
    case False
    have "\<not> (8 * n \<le> 8 * j + i \<and> 8 * j + i - 8 * n < 8)" if "i < 8" "j \<noteq> n" using that by presburger
    moreover have "\<not> bit b l" if "8 \<le> l" for l using that bit_imp_le_length [of b l] by auto
    moreover have "\<not> 8 * j + i < 64" if "8 \<le> j" using that by presburger
    ultimately show ?thesis using False
      by (auto simp: bit_byte bit_push_bit_iff bit_ucast_iff)
  qed
qed

lemma byte_mask_and: "byte i (w AND 0xff) = (if i = 0 then byte 0 w else 0)"
  using byte_ops(2) [of i w 1] by (simp add: mask_eq_exp_minus_1)

subsection \<open>The representation\<close>

definition vec_rep :: "u64 \<Rightarrow> pieces \<Rightarrow> bool" where
  "vec_rep w bs \<longleftrightarrow> (\<forall>i. 1 \<le> i \<longrightarrow> i < 8 \<longrightarrow> byte i w = (if i < length bs then of_nat (fst (bs ! i)) else 0))"

definition alloc_rep :: "u8 \<Rightarrow> pieces \<Rightarrow> bool" where
  "alloc_rep b bs \<longleftrightarrow> (\<forall>i<8. bit b i \<longleftrightarrow> i < length bs \<and> snd (bs ! i))"

lemma vec_repD: "vec_rep w bs \<Longrightarrow> 1 \<le> i \<Longrightarrow> i < 8 \<Longrightarrow> byte i w = (if i < length bs then of_nat (fst (bs ! i)) else 0)"
  by (simp add: vec_rep_def)

lemma vec_repI: "(\<And>i. 1 \<le> i \<Longrightarrow> i < 8 \<Longrightarrow> byte i w = (if i < length bs then of_nat (fst (bs ! i)) else 0)) \<Longrightarrow> vec_rep w bs"
  by (simp add: vec_rep_def)

lemma alloc_repD: "alloc_rep b bs \<Longrightarrow> i < 8 \<Longrightarrow> bit b i \<longleftrightarrow> i < length bs \<and> snd (bs ! i)"
  by (simp add: alloc_rep_def)

text \<open>The offset in bytes of piece \<open>i\<close>, with the implied first one and 0 for the end of the slab.\<close>

lemma offset_byte: "x \<le> 256 \<Longrightarrow> unat (of_nat x :: u8) = (if x = 256 then 0 else x)"
  by (auto simp: unat_of_nat)

lemma byte_value: "(shr64 w (8 * i) AND 0xff) = ucast (byte i w)" if "i < 8"
proof (rule bit_eqI)
  fix n
  have "8 * i < 64" using that by presburger
  then have "8 * i mod 64 = 8 * i" by simp
  moreover have m: "(255 :: u64) = mask 8" by (simp add: mask_eq_exp_minus_1)
  ultimately show "bit (shr64 w (8 * i) AND 255) n = bit (ucast (byte i w) :: u64) n"
    unfolding m by (auto simp: shr64_def bit_simps bit_byte)
qed

subsection \<open>Finding a piece\<close>

lemma bit_mm_cmpeq: "n < 64 \<Longrightarrow> bit (mm_cmpeq_pi8 a b) n \<longleftrightarrow> byte (n div 8) a = byte (n div 8) b"
proof -
  have F: "bit (fold (\<lambda>i c. set_lane (8 * i) (if byte i a = byte i b then 0xff else 0 :: u8) c) [0..<k] 0) n
      \<longleftrightarrow> n div 8 < k \<and> byte (n div 8) a = byte (n div 8) b" if "k \<le> 8" for k n
    using that
  proof (induction k)
    case (Suc k)
    let ?f = "fold (\<lambda>i c. set_lane (8 * i) (if byte i a = byte i b then 0xff else 0 :: u8) c) [0..<k] 0"
    have l: "8 * k + LENGTH(8) \<le> 64" using Suc.prems by simp
    have m: "(255 :: u8) = mask 8" by (simp add: mask_eq_exp_minus_1)
    have e: "8 * k \<le> n \<and> n < 8 * k + 8 \<longleftrightarrow> n div 8 = k" by presburger
    have "bit (if byte k a = byte k b then 0xff else 0 :: u8) (n - 8 * k) \<longleftrightarrow> byte k a = byte k b" if "n div 8 = k"
    proof -
      have "n - 8 * k < 8" using that e by linarith
      then show ?thesis by (simp add: m bit_mask_iff)
    qed
    then show ?case using Suc e by (auto simp: bit_set_lane [OF l])
  qed simp
  assume "n < 64"
  then have "n div 8 < 8" by simp
  then show ?thesis using F [of 8 n] by (simp add: mm_cmpeq_pi8_def)
qed

lemma byte_mm_set1: "i < 8 \<Longrightarrow> byte i (mm_set1_pi8 v) = v"
proof -
  have F: "byte i (fold (\<lambda>i c. set_lane (8 * i) v c) [0..<k] 0) = (if i < k then v else 0)" if "k \<le> 8" for k
    using that
  proof (induction k)
    case 0
    show ?case by (rule bit_eqI) (simp add: bit_byte)
  next
    case (Suc k)
    let ?f = "fold (\<lambda>i c. set_lane (8 * i) v c) [0..<k] 0"
    have l: "8 * k + LENGTH(8) \<le> 64" using Suc.prems by simp
    have s: "byte i (set_lane (8 * k) v ?f) = (if i = k then v else byte i ?f)"
    proof (cases "i = k")
      case True
      then show ?thesis using get_set_lane_same [OF l] by simp
    next
      case False
      then have "8 * i + LENGTH(8) \<le> 8 * k \<or> 8 * k + LENGTH(8) \<le> 8 * i" by auto
      from get_set_lane_other [OF l this] show ?thesis using False by simp
    qed
    show ?case using Suc s by simp
  qed
  assume "i < 8"
  then show ?thesis using F [of 8] by (simp add: mm_set1_pi8_def)
qed

lemma builtin_ctz_lowest:
  fixes w :: "'a::len word"
  assumes "bit w n" "\<And>j. j < n \<Longrightarrow> \<not> bit w j"
  shows "builtin_ctz w = Some n" "w \<noteq> 0"
proof -
  show nz: "w \<noteq> 0" using assms(1) by auto
  obtain i where i: "builtin_ctz w = Some i" "bit w i" "\<And>j. j < i \<Longrightarrow> \<not> bit w j"
    by (rule builtin_ctz_Some [OF nz]) blast
  have "i = n" using i(2,3) assms by (metis linorder_neqE_nat)
  then show "builtin_ctz w = Some n" using i(1) by simp
qed

lemma find_block_pos_ok:
  assumes v: "valid_cell m s" and rep: "vec_rep (cells m s) bs" and ok: "pieces_ok e bs" and i: "i < length bs"
    and b: "b - s = of_nat (16 * fst (bs ! i))"
  shows "medium_bin_find_block_pos s b m = Some (of_nat i)"
proof -
  note pb = pieces_bounds [OF ok]
  have i8: "i < 8" using i pb(1) by simp
  let ?o = "fst (bs ! i)"
  let ?w = "set_lane 0 (1 :: u8) (cells m s)"
  have o: "?o \<le> 256" by (rule pb(3) [OF i])
  have off: "(ucast ((b - s) div MALLOC_ALIGN) :: u8) = of_nat ?o"
  proof -
    have u: "unat (of_nat (16 * ?o) :: u64) = 16 * ?o" using o by (simp only: unat_of_nat) simp
    have "unat ((b - s) div MALLOC_ALIGN) = ?o" unfolding b by (simp add: MALLOC_ALIGN_def unat_div u del: of_nat_mult)
    then have "(b - s) div MALLOC_ALIGN = of_nat ?o" by (metis of_nat_unat ucast_id)
    then show ?thesis by (simp add: word_unat_eq_iff unsigned_ucast_eq unsigned_of_nat take_bit_eq_mod mod_mod_cancel)
  qed
  have w: "byte j ?w = of_nat (if j < length bs then fst (bs ! j) else 256)" if "j < 8" for j
  proof (cases "j = 0")
    case True
    then show ?thesis using ok i get_set_lane_same [of 0, where 'b = 8, of 1 "cells m s"] by (auto simp: pieces_ok_def hd_conv_nth)
  next
    case False
    then have "byte j ?w = byte j (cells m s)"
      using get_set_lane_other [of 0, where 'b = 8, of "8 * j", where 'a = 8] by simp
    then show ?thesis using vec_repD [OF rep, of j] False that by auto
  qed
  have eq: "byte j ?w = of_nat ?o \<longleftrightarrow> (if j < length bs then fst (bs ! j) = ?o else ?o = 256)" if "j < 8" for j
  proof -
    have "(of_nat x :: u8) = of_nat y \<longleftrightarrow> x = y \<or> {x, y} = {0, 256}" if "x \<le> 256" "y \<le> 256" for x y
      using offset_byte [OF that(1)] offset_byte [OF that(2)] by (auto simp: word_unat_eq_iff split: if_splits)
    moreover have "1 \<le> ?o" using pb(2) [OF i] by simp
    moreover have "fst (bs ! j) \<le> 256" "1 \<le> fst (bs ! j)" if "j < length bs" using pb(2,3) [OF that] by simp_all
    ultimately show ?thesis using w [OF that] o by (auto simp: doubleton_eq_iff)
  qed
  let ?si = "mm_cmpeq_pi8 ?w (mm_set1_pi8 (of_nat ?o))"
  have si: "bit ?si n \<longleftrightarrow> byte (n div 8) ?w = of_nat ?o" if "n < 64" for n
  proof -
    have "n div 8 < 8" using that by simp
    then show ?thesis using bit_mm_cmpeq [OF that] by (simp add: byte_mm_set1)
  qed
  have n: "bit ?si (8 * i)" using si [of "8 * i"] i8 eq [OF i8] i by simp
  have lo: "\<not> bit ?si n" if "n < 8 * i" for n
  proof -
    have d: "n div 8 < i" "n div 8 < 8" "n < 64" using that i8 by auto
    then have "fst (bs ! (n div 8)) < ?o" using pb(5) [OF d(1) i] by simp
    then show ?thesis using si [OF d(3)] eq [OF d(2)] d(1) i by simp
  qed
  note z = builtin_ctz_lowest [OF n lo]
  have "drop_bit 3 (of_nat (8 * i) :: u32) = of_nat i"
  proof -
    have "unat (of_nat (8 * i) :: u32) = 8 * i" using i8 by (simp only: unat_of_nat) simp
    then have "unat (drop_bit 3 (of_nat (8 * i) :: u32)) = i" by (simp add: drop_bit_eq_div unat_div del: of_nat_mult)
    then show ?thesis by (metis of_nat_unat ucast_id)
  qed
  then show ?thesis
    using v z off
    by (simp add: medium_bin_find_block_pos_def medium_bin_offsets_def load64_valid LARGE_SLAB_HEADER_SIZE_def
        MALLOC_ALIGN_def malloc_assert_True Let_def)
qed

subsection \<open>Splitting a piece\<close>

lemma keep_mask_eq: "n < 8 \<Longrightarrow> shl64 0x100 (8 * n) - 1 = mask (8 * (n + 1))"
proof -
  assume n: "n < 8"
  have "(0x100 :: u64) = push_bit 8 1" by simp
  moreover have "8 * n mod 64 = 8 * n" using n by simp
  ultimately have "shl64 0x100 (8 * n) = push_bit (8 * n + 8) 1" by (simp only: shl64_def push_bit_push_bit)
  then show ?thesis by (simp add: mask_eq_exp_minus_1 push_bit_of_1 add.commute)
qed

lemma bit_mask8: "n \<le> 8 \<Longrightarrow> (ucast (shl32 1 n - 1) :: u8) = mask n" "n \<le> 7 \<Longrightarrow> (ucast (shl32 2 n - 1) :: u8) = mask (n + 1)"
proof -
  have m: "(ucast (mask n :: u32) :: u8) = mask n" for n
    by (rule bit_eqI) (auto simp: bit_ucast_iff bit_mask_iff dest: bit_imp_le_length)
  have "(shl32 1 n :: u32) - 1 = mask n" if "n \<le> 8" for n using that by (simp add: shl32_def mask_eq_exp_minus_1 push_bit_of_1)
  then show "(ucast (shl32 1 n - 1) :: u8) = mask n" if "n \<le> 8" using that m by simp
  have "shl32 2 n = push_bit (n + 1) 1" if "n \<le> 7" for n
  proof -
    have "(2 :: u32) = push_bit 1 1" by simp
    moreover have "n mod 32 = n" using that by simp
    ultimately show ?thesis by (simp only: shl32_def push_bit_push_bit)
  qed
  then show "(ucast (shl32 2 n - 1) :: u8) = mask (n + 1)" if "n \<le> 7"
    using that m [of "n + 1"] by (simp only: mask_eq_exp_minus_1 push_bit_of_1)
qed

definition insert_piece :: "nat \<Rightarrow> nat \<times> bool \<Rightarrow> pieces \<Rightarrow> pieces" where
  "insert_piece i b bs = take i bs @ b # drop i bs"

lemma insert_piece_nth:
  "i \<le> length bs \<Longrightarrow> j \<le> length bs \<Longrightarrow> insert_piece i b bs ! j = (if j < i then bs ! j else if j = i then b else bs ! (j - 1))"
  by (auto simp: insert_piece_def nth_append min_def)

lemma insert_piece_length [simp]: "length (insert_piece i b bs) = length bs + 1"
  by (simp add: insert_piece_def)

lemma push_word:
  assumes rep: "vec_rep w bs" and p: "p < length bs" "p < 7" and x: "x < 256"
  defines "w' \<equiv> (w AND mask (8 * (p + 1))) OR shl64 (push_bit (8 - 4) (of_nat (16 * x))) (8 * p)
      OR push_bit 8 (w AND NOT (mask (8 * (p + 1))))"
  shows "vec_rep w' (insert_piece (p + 1) (x, a) bs)" "byte 0 w' = byte 0 w"
proof -
  have e: "(16 :: u64) = 2 ^ 4" by simp
  have "push_bit (8 - 4) (of_nat (16 * x) :: u64) = push_bit 8 (of_nat x)"
    by (simp only: push_bit_eq_mult of_nat_mult of_nat_numeral) (simp add: algebra_simps)
  moreover have "8 * p mod 64 = 8 * p" using p(2) by simp
  moreover have "(of_nat x :: u64) = ucast (of_nat x :: u8)"
    using x by (simp add: word_unat_eq_iff unsigned_ucast_eq unsigned_of_nat take_bit_nat_eq_self)
  ultimately have mid: "shl64 (push_bit (8 - 4) (of_nat (16 * x))) (8 * p) = push_bit (8 * (p + 1)) (ucast (of_nat x :: u8))"
    by (simp only: shl64_def push_bit_push_bit distrib_left mult_1_right)
  have b: "byte j w' = (if j < p + 1 then byte j w else if j = p + 1 then of_nat x else byte (j - 1) w)" if j: "j < 8" for j
    unfolding w'_def mid byte_ops(1) byte_ops(4) [OF j] byte_ops(2) byte_word
    using byte_ops(3) [of "j - 1" w "p + 1"] j p(2) by auto
  show "byte 0 w' = byte 0 w" using b [of 0] by simp
  show "vec_rep w' (insert_piece (p + 1) (x, a) bs)"
  proof (rule vec_repI)
    fix i :: nat assume i: "1 \<le> i" "i < 8"
    have pl: "p + 1 \<le> length bs" using p(1) by simp
    show "byte i w' = (if i < length (insert_piece (p + 1) (x, a) bs) then of_nat (fst (insert_piece (p + 1) (x, a) bs ! i)) else 0)"
      using b [OF i(2)] vec_repD [OF rep i] vec_repD [OF rep, of "i - 1"] i p insert_piece_nth [OF pl, of i "(x, a)"] by auto
  qed
qed

lemma push_offset_ok:
  assumes v: "valid_cell m s" and rep: "vec_rep (cells m s) bs" and p: "p < length bs" "p < 7" and x: "x < 256"
  obtains w' where "medium_bin_push_offset s (of_nat p) (of_nat (16 * x)) m = Some (m\<lparr>cells := (cells m)(s := w')\<rparr>)"
    and "vec_rep w' (insert_piece (p + 1) (x, a) bs)" "byte 0 w' = byte 0 (cells m s)"
proof -
  have u: "unat (of_nat p * 8 :: u8) = 8 * p" using p(2) by (simp add: unat_word_ariths unat_of_nat)
  have l: "(of_nat p :: u8) < 7" using p(2) by (simp add: word_less_nat_alt unat_of_nat)
  have k: "keep_mask_after (of_nat p) = mask (8 * (p + 1))" using keep_mask_eq [of p] p(2) by (simp only: keep_mask_after_def u)
  show thesis
    by (rule that [OF _ push_word [OF rep p x]])
      (simp add: medium_bin_push_offset_def Let_def malloc_assert_True [OF l] k u load64_valid [OF v] store64_valid [OF v] del: of_nat_mult)
qed

lemma split_alloc:
  assumes rep: "alloc_rep b bs" and p: "p < length bs" "p < 7" and f: "\<not> snd (bs ! p)"
  shows "alloc_rep ((b AND mask p) OR push_bit p 1 OR push_bit 1 (b AND NOT (mask p))) (insert_piece (p + 1) (x, False) (bs[p := (fst (bs ! p), True)]))"
  unfolding alloc_rep_def
proof (intro allI impI)
  fix i :: nat assume i: "i < 8"
  have pl: "p + 1 \<le> length (bs[p := (fst (bs ! p), True)])" using p(1) by simp
  have "bit ((b AND mask p) OR push_bit p 1 OR push_bit 1 (b AND NOT (mask p))) i
      \<longleftrightarrow> (if i < p then bit b i else i = p \<or> bit b (i - 1))"
  proof -
    have "bit (push_bit 1 z) i \<longleftrightarrow> 1 \<le> i \<and> bit z (i - 1)" "bit (push_bit p 1 :: u8) i \<longleftrightarrow> i = p" for z :: u8
      using i p(2) by (auto simp only: bit_push_bit_iff bit_1_iff possible_bit_word) auto
    then show ?thesis using i p(2) bit_imp_le_length [of b i]
      by (simp only: bit_or_iff bit_and_iff bit_not_iff bit_mask_iff possible_bit_word) auto
  qed
  also have "\<dots> \<longleftrightarrow> i < length bs + 1 \<and> snd (insert_piece (p + 1) (x, False) (bs[p := (fst (bs ! p), True)]) ! i)"
  proof -
    consider "i < p" | "i = p" | "i = p + 1" | "p + 1 < i" by linarith
    then show ?thesis
    proof cases
      case 3
      then have "i - 1 = p" "i - 1 < 8" using i by simp_all
      then have "\<not> bit b (i - 1)" using alloc_repD [OF rep, of "i - 1"] f by simp
      then show ?thesis using 3 insert_piece_nth [OF pl, of i "(x, False)"] p by simp
    next
      case 4
      then have "i - 1 < 8" "i - 1 \<noteq> p" using i by simp_all
      then have "bit b (i - 1) \<longleftrightarrow> i - 1 < length bs \<and> snd (bs ! (i - 1))" using alloc_repD [OF rep, of "i - 1"] by simp
      moreover have "i - 1 < length bs \<longleftrightarrow> i < length bs + 1" using 4 by linarith
      ultimately show ?thesis using 4 insert_piece_nth [OF pl, of i "(x, False)"] by (auto simp: nth_list_update)
    qed (use alloc_repD [OF rep i] i p insert_piece_nth [OF pl, of i "(x, False)"] in \<open>auto simp: nth_list_update\<close>)
  qed
  finally show "bit ((b AND mask p) OR push_bit p 1 OR push_bit 1 (b AND NOT (mask p))) i
      \<longleftrightarrow> i < length (insert_piece (p + 1) (x, False) (bs[p := (fst (bs ! p), True)]))
        \<and> snd (insert_piece (p + 1) (x, False) (bs[p := (fst (bs ! p), True)]) ! i)" by simp
qed

lemma whole_alloc:
  assumes rep: "alloc_rep b bs" and p: "p < length bs" "p < 8"
  shows "alloc_rep (b OR push_bit p 1) (bs[p := (fst (bs ! p), True)])"
  unfolding alloc_rep_def
proof (intro allI impI)
  fix i :: nat assume i: "i < 8"
  show "bit (b OR push_bit p 1) i \<longleftrightarrow> i < length (bs[p := (fst (bs ! p), True)]) \<and> snd (bs[p := (fst (bs ! p), True)] ! i)"
    using alloc_repD [OF rep i] i p by (auto simp: bit_simps nth_list_update)
qed

lemma whole_vec: "vec_rep w bs \<Longrightarrow> p < length bs \<Longrightarrow> vec_rep w (bs[p := (fst (bs ! p), True)])"
  by (auto simp: vec_rep_def nth_list_update)

subsection \<open>Merging pieces\<close>

lemma cut_nth: "k \<le> length bs \<Longrightarrow> j < length (take k bs @ drop (k + d) bs) \<Longrightarrow>
    (take k bs @ drop (k + d) bs) ! j = (if j < k then bs ! j else bs ! (j + d))"
  by (auto simp: nth_append min_def add.commute)

lemma cut_vec:
  fixes d :: nat
  assumes rep: "vec_rep w bs" and k: "1 \<le> k" "k \<le> length bs" "length bs \<le> 8"
  defines "w' \<equiv> (w AND mask (8 * k)) OR drop_bit (8 * d) (w AND NOT (mask (8 * (k + d))))"
  shows "vec_rep w' (take k bs @ drop (k + d) bs)" "byte 0 w' = byte 0 w"
proof -
  have b: "byte j w' = (if j < k then byte j w else byte (j + d) w)" for j
  proof (cases "j + d < 8")
    case True
    then show ?thesis unfolding w'_def byte_ops(1) byte_ops(2) byte_ops(5) byte_ops(3) [OF True] by auto
  next
    case False
    then have "byte (j + d) x = 0" for x by (intro byte_high) simp
    then show ?thesis unfolding w'_def byte_ops(1) byte_ops(2) byte_ops(5) by simp
  qed
  show "byte 0 w' = byte 0 w" using b [of 0] k(1) by simp
  show "vec_rep w' (take k bs @ drop (k + d) bs)"
  proof (rule vec_repI)
    fix j :: nat assume j: "1 \<le> j" "j < 8"
    have len: "j < length (take k bs @ drop (k + d) bs) \<longleftrightarrow> (if j < k then j < length bs else j + d < length bs)"
      using k(2) by auto
    show "byte j w' = (if j < length (take k bs @ drop (k + d) bs) then of_nat (fst ((take k bs @ drop (k + d) bs) ! j)) else 0)"
    proof (cases "j < k")
      case True
      then show ?thesis using b [of j] vec_repD [OF rep j] len cut_nth [OF k(2), of j d] k(2) by auto
    next
      case False
      have "byte (j + d) w = (if j + d < length bs then of_nat (fst (bs ! (j + d))) else 0)"
        using vec_repD [OF rep, of "j + d"] byte_high [of "j + d" w] j k(3) by (cases "j + d < 8") auto
      then show ?thesis using b [of j] len cut_nth [OF k(2), of j d] False by auto
    qed
  qed
qed

lemma merge_alloc:
  assumes rep: "alloc_rep b bs" and k: "k < length bs" "length bs \<le> 8"
  shows "alloc_rep ((b AND mask k) OR drop_bit d (b AND NOT (mask (k + 1 + d)))) (take k bs @ (x, False) # drop (k + 1 + d) bs)"
  unfolding alloc_rep_def
proof (intro allI impI)
  fix i :: nat assume i: "i < 8"
  have bit: "bit ((b AND mask k) OR drop_bit d (b AND NOT (mask (k + 1 + d)))) i \<longleftrightarrow>
      (if i < k then bit b i else i \<noteq> k \<and> bit b (i + d))"
    using i bit_imp_le_length [of b "i + d"]
    by (auto simp: bit_or_iff bit_and_iff bit_not_iff bit_mask_iff bit_drop_bit_eq add.commute)
  consider "i < k" | "i = k" | "k < i" by linarith
  then show "bit ((b AND mask k) OR drop_bit d (b AND NOT (mask (k + 1 + d)))) i \<longleftrightarrow>
      i < length (take k bs @ (x, False) # drop (k + 1 + d) bs) \<and> snd ((take k bs @ (x, False) # drop (k + 1 + d) bs) ! i)"
  proof cases
    case 3
    have "bit b (i + d) \<longleftrightarrow> i + d < length bs \<and> snd (bs ! (i + d))"
    proof (cases "i + d < 8")
      case False
      then show ?thesis using k(2) bit_imp_le_length [of b "i + d"] by auto
    qed (use alloc_repD [OF rep] in simp)
    moreover have "(take k bs @ (x, False) # drop (k + 1 + d) bs) ! i = bs ! (i + d)" if "i + d < length bs"
    proof -
      obtain j where "i = k + 1 + j" using 3 by (metis add.assoc add.commute less_iff_Suc_add plus_1_eq_Suc)
      then show ?thesis using that k(1) by (simp add: nth_append add.commute add.left_commute)
    qed
    moreover have "i < length (take k bs @ (x, False) # drop (k + 1 + d) bs) \<longleftrightarrow> i + d < length bs"
      using 3 k(1) by auto
    ultimately show ?thesis using bit 3 by auto
  qed (use bit alloc_repD [OF rep i] k(1) in \<open>auto simp: nth_append\<close>)
qed

lemma cut_alloc:
  assumes rep: "alloc_rep b bs" and k: "length bs = k + 1" "k < 8"
  shows "alloc_rep ((b AND mask k) OR (b AND NOT (mask (k + 1)))) (take k bs)"
  unfolding alloc_rep_def
proof (intro allI impI)
  fix i :: nat assume i: "i < 8"
  show "bit ((b AND mask k) OR (b AND NOT (mask (k + 1)))) i \<longleftrightarrow> i < length (take k bs) \<and> snd (take k bs ! i)"
    using alloc_repD [OF rep i] i k by (auto simp: bit_or_iff bit_and_iff bit_not_iff bit_mask_iff nth_append)
qed

lemma vec_rep_fst: "map fst bs = map fst bs' \<Longrightarrow> vec_rep w bs \<Longrightarrow> vec_rep w bs'"
proof -
  assume m: "map fst bs = map fst bs'" and r: "vec_rep w bs"
  have l: "length bs = length bs'" using m by (metis length_map)
  have "fst (bs ! i) = fst (bs' ! i)" if "i < length bs" for i using m that l by (metis nth_map)
  then show ?thesis using r l by (simp add: vec_rep_def)
qed

text \<open>The masks of \<^verbatim>\<open>medium_bin_free\<close>.\<close>

lemma drop_mask: "n \<le> LENGTH('a) \<Longrightarrow> drop_bit k (mask n :: 'a::len word) = mask (n - k)"
  by (rule bit_eqI) (auto simp: bit_drop_bit_eq bit_mask_iff dest: bit_imp_le_length)

lemma push_not_mask: "push_bit k (NOT (mask n) :: 'a::len word) = NOT (mask (n + k))" if "k \<le> n" 
proof (rule bit_eqI)
  fix i assume "possible_bit TYPE('a word) i"
  then have "i < LENGTH('a)" by simp
  then show "bit (push_bit k (NOT (mask n)) :: 'a word) i \<longleftrightarrow> bit (NOT (mask (n + k)) :: 'a word) i"
    using that by (auto simp: bit_push_bit_iff bit_not_iff bit_mask_iff)
qed

end
