(* ===== verification/Chain_Bins.thy ===== *)
theory Chain_Bins
  imports Link_List
begin

section \<open>Arrays of chains\<close>

text \<open>
  The small and the medium bins are arrays of NULL-terminated lists. \<open>root i\<close> is the
  node before the first one of bin \<open>i\<close>, \<open>addr\<close> gives the address of a node, and \<open>P i\<close> is
  the set of nodes in bin \<open>i\<close>.
\<close>

definition chains_ok ::
  "(u64 \<Rightarrow> u64) \<Rightarrow> (u64 \<Rightarrow> u64) \<Rightarrow> (nat \<Rightarrow> u64) \<Rightarrow> (nat \<Rightarrow> u64) \<Rightarrow> nat \<Rightarrow> (u64 \<Rightarrow> u64) \<Rightarrow> (nat \<Rightarrow> nat list) \<Rightarrow> (nat \<Rightarrow> nat set) \<Rightarrow> bool"
where
  "chains_ok nx pv root addr nb c bins P \<longleftrightarrow>
     (\<forall>i<nb. chain nx pv c (root i) (map addr (bins i)) \<and> distinct (bins i) \<and> set (bins i) = P i)"

text \<open>No two cells that hold a link are the same, for nodes in \<open>K\<close>.\<close>

definition links_apart ::
  "(u64 \<Rightarrow> u64) \<Rightarrow> (u64 \<Rightarrow> u64) \<Rightarrow> (nat \<Rightarrow> u64) \<Rightarrow> (nat \<Rightarrow> u64) \<Rightarrow> nat \<Rightarrow> nat set \<Rightarrow> bool"
where
  "links_apart nx pv root addr nb K \<longleftrightarrow> inj_on addr K \<and> 0 \<notin> addr ` K
     \<and> (\<forall>i<nb. \<forall>j<nb. root i = root j \<longrightarrow> i = j)
     \<and> (\<forall>i<nb. \<forall>g\<in>K. root i \<noteq> addr g \<and> nx (root i) \<noteq> pv (addr g))
     \<and> (\<forall>g\<in>K. \<forall>g'\<in>K. nx (addr g) \<noteq> pv (addr g'))"

definition chain_cells :: "(u64 \<Rightarrow> u64) \<Rightarrow> (u64 \<Rightarrow> u64) \<Rightarrow> (nat \<Rightarrow> u64) \<Rightarrow> (nat \<Rightarrow> u64) \<Rightarrow> nat \<Rightarrow> nat set \<Rightarrow> u64 set" where
  "chain_cells nx pv root addr b K = insert (nx (root b)) (nx ` addr ` K \<union> pv ` addr ` K)"

lemma chains_okD:
  assumes "chains_ok nx pv root addr nb c bins P" "i < nb"
  shows "chain nx pv c (root i) (map addr (bins i))" "distinct (bins i)" "set (bins i) = P i"
  using assms by (simp_all add: chains_ok_def)

lemma chains_ok_frame:
  assumes ok: "chains_ok nx pv root addr nb c bins P"
    and fr: "\<And>i a. i < nb \<Longrightarrow> a \<in> chain_cells nx pv root addr i (P i) \<Longrightarrow> c' a = c a"
  shows "chains_ok nx pv root addr nb c' bins P"
  unfolding chains_ok_def
proof (intro allI impI conjI)
  fix i assume i: "i < nb"
  note d = chains_okD [OF ok i]
  show "chain nx pv c' (root i) (map addr (bins i))"
    by (rule chain_frame [OF d(1)]) (use d(3) in \<open>auto intro!: fr [OF i] simp: chain_cells_def\<close>)
qed (use ok in \<open>simp_all add: chains_ok_def\<close>)

context link_fields
begin

lemma chains_ok_update:
  assumes ok: "chains_ok nx pv root addr nb c bins P" and ap: "links_apart nx pv root addr nb K"
    and P: "\<And>i. i < nb \<Longrightarrow> P i \<subseteq> K" "\<And>i. i < nb \<Longrightarrow> i \<noteq> b \<Longrightarrow> P i \<inter> Q = {}" and Q: "Q \<subseteq> K" and b: "b < nb"
    and new: "chain nx pv c' (root b) (map addr xs)" "distinct xs" "set xs = R"
    and out: "\<And>a. a \<notin> chain_cells nx pv root addr b Q \<Longrightarrow> c' a = c a"
  shows "chains_ok nx pv root addr nb c' (bins(b := xs)) (P(b := R))"
  unfolding chains_ok_def
proof (intro allI impI)
  fix i assume i: "i < nb"
  show "chain nx pv c' (root i) (map addr ((bins(b := xs)) i)) \<and> distinct ((bins(b := xs)) i)
      \<and> set ((bins(b := xs)) i) = (P(b := R)) i"
  proof (cases "i = b")
    case False
    note d = chains_okD [OF ok i]
    have ne: "addr g \<noteq> addr q" if "g \<in> P i" "q \<in> Q" for g q
      using ap P(1) [OF i] P(2) [OF i False] Q that unfolding links_apart_def by (metis disjoint_iff inj_on_def subsetD)
    have "chain nx pv c' (root i) (map addr (bins i))"
    proof (rule chain_frame [OF d(1)])
      fix u assume u: "u \<in> set (root i # map addr (bins i))"
      show "c' (nx u) = c (nx u)"
      proof (rule out)
        from u consider "u = root i" | g where "g \<in> P i" "u = addr g" using d(3) by auto
        then show "nx u \<notin> chain_cells nx pv root addr b Q"
        proof cases
          case 1
          have "root i \<noteq> root b" using ap i b False by (auto simp: links_apart_def)
          moreover have "root i \<noteq> addr q \<and> nx (root i) \<noteq> pv (addr q)" if "q \<in> Q" for q
            using ap i Q that by (auto simp: links_apart_def)
          ultimately show ?thesis unfolding 1 chain_cells_def by (auto simp: nx_inj)
        next
          case 2
          have g: "g \<in> K" using P(1) [OF i] 2(1) by blast
          have "root b \<noteq> addr g" using ap b g by (auto simp: links_apart_def)
          moreover have "nx (addr g) \<noteq> pv (addr q)" if "q \<in> Q" for q
            using ap g Q that by (auto simp: links_apart_def)
          ultimately show ?thesis unfolding 2 chain_cells_def using ne [OF 2(1)] by (auto simp: nx_inj)
        qed
      qed
    next
      fix v assume "v \<in> set (map addr (bins i))"
      then obtain g where g: "g \<in> P i" "v = addr g" using d(3) by auto
      then have K: "g \<in> K" using P(1) [OF i] by blast
      show "c' (pv v) = c (pv v)"
      proof (rule out)
        have "nx (root b) \<noteq> pv (addr g)" using ap b K by (auto simp: links_apart_def)
        moreover have "nx (addr q) \<noteq> pv (addr g)" if "q \<in> Q" for q
          using ap K Q that by (auto simp: links_apart_def)
        ultimately show "pv v \<notin> chain_cells nx pv root addr b Q"
          unfolding g chain_cells_def using ne [OF g(1)] by (auto simp: pv_inj) metis+
      qed
    qed
    then show ?thesis using d False by simp
  qed (use new in simp)
qed

text \<open>Unlinking a node.\<close>

lemma chains_unlink:
  assumes ok: "chains_ok nx pv root addr nb c bins P" and ap: "links_apart nx pv root addr nb K"
    and P: "\<And>i. i < nb \<Longrightarrow> P i \<subseteq> K" "\<And>i. i < nb \<Longrightarrow> i \<noteq> b \<Longrightarrow> P i \<inter> P b = {}" and b: "b < nb" and g: "g \<in> P b"
  defines "n \<equiv> c (nx (addr g))" and "p \<equiv> c (pv (addr g))"
  defines "c' \<equiv> if n \<noteq> 0 then c(nx p := n, pv n := p) else c(nx p := n)"
  shows "\<exists>xs. chains_ok nx pv root addr nb c' (bins(b := xs)) (P(b := P b - {g}))"
    "\<And>a. a \<notin> chain_cells nx pv root addr b (P b) \<Longrightarrow> c' a = c a"
    "nx p \<in> chain_cells nx pv root addr b (P b)" "n \<noteq> 0 \<Longrightarrow> pv n \<in> chain_cells nx pv root addr b (P b)"
proof -
  note d = chains_okD [OF ok b]
  obtain xs ys where x: "bins b = xs @ g # ys" using g d(3) by (metis split_list)
  have dx: "distinct (xs @ g # ys)" using d(2) x by simp
  have PK: "P b \<subseteq> K" by (rule P(1) [OF b])
  have S: "set (xs @ g # ys) = P b" using d(3) x by simp
  have ch: "chain nx pv c (root b) (map addr xs @ addr g # map addr ys)" using d(1) x by simp
  then have sg: "seg nx pv c (root b) (map addr xs) (addr g)" and cy: "chain nx pv c (addr g) (map addr ys)"
    unfolding chain_append by blast+
  have n: "n = (case map addr ys of [] \<Rightarrow> 0 | y # _ \<Rightarrow> y)" unfolding n_def by (rule chain_head [OF cy])
  have p: "p = last (root b # map addr xs)" unfolding p_def by (rule seg_last_prev [OF sg])
  have pK: "p = root b \<or> p \<in> addr ` P b"
  proof -
    have "p \<in> set (root b # map addr xs)" unfolding p by (rule last_in_set) simp
    then show ?thesis using S by auto
  qed
  have nK: "n = 0 \<or> n \<in> addr ` P b" unfolding n using S by (cases ys) auto
  have z: "addr q \<noteq> 0" if "q \<in> P b" for q using ap PK that unfolding links_apart_def by force
  have nys: "n \<noteq> 0" if "ys \<noteq> []" using that z S unfolding n by (cases ys) auto
  have np: "nx u \<noteq> pv v" if "u = root b \<or> u \<in> addr ` P b" "v \<in> addr ` P b" for u v
    using ap b PK that unfolding links_apart_def by blast
  have injK: "inj_on addr K" using ap by (simp add: links_apart_def)
  have inj: "inj_on addr (P b)" by (rule inj_on_subset [OF injK PK])
  have dist: "distinct (root b # map addr xs @ addr g # map addr ys)"
  proof -
    have "distinct (map addr (xs @ g # ys))" using dx inj by (simp only: distinct_map S simp_thms)
    moreover have "root b \<notin> addr ` set (xs @ g # ys)" unfolding S using ap b PK unfolding links_apart_def by blast
    moreover have "map addr xs @ addr g # map addr ys = map addr (xs @ g # ys)" by simp
    ultimately show ?thesis by (simp only: distinct.simps set_map simp_thms)
  qed
  show addr: "nx p \<in> chain_cells nx pv root addr b (P b)" "n \<noteq> 0 \<Longrightarrow> pv n \<in> chain_cells nx pv root addr b (P b)"
    using pK nK by (auto simp: chain_cells_def)
  show out: "c' a = c a" if "a \<notin> chain_cells nx pv root addr b (P b)" for a
    using that addr by (auto simp: c'_def)
  have "chain nx pv c' (root b) (map addr xs @ map addr ys)"
  proof (rule chain_remove [OF ch p n dist])
    show "c' (nx p) = n" using np [OF pK] nK by (auto simp: c'_def)
    show "c' (pv n) = p" if "map addr ys \<noteq> []" using nys that by (simp add: c'_def)
    show "c' (nx u) = c (nx u)" if "u \<in> set (root b # map addr xs @ map addr ys)" "u \<noteq> p" for u
    proof -
      have "u = root b \<or> u \<in> addr ` P b" using that(1) S by auto
      then show ?thesis using that(2) np [of u n] nK by (auto simp: c'_def nx_inj)
    qed
    show "c' (pv v) = c (pv v)" if "v \<in> set (map addr xs @ map addr ys)" "v \<noteq> n" for v
    proof -
      have "v \<in> addr ` P b" using that(1) S by auto
      then show ?thesis using that(2) np [OF pK, of v] by (auto simp: c'_def pv_inj)
    qed
  qed
  then have new: "chain nx pv c' (root b) (map addr (xs @ ys))" by simp
  have "chains_ok nx pv root addr nb c' (bins(b := xs @ ys)) (P(b := P b - {g}))"
    by (rule chains_ok_update [OF ok ap P(1,2) PK b new _ _ out]) (use dx S in auto)
  then show "\<exists>xs. chains_ok nx pv root addr nb c' (bins(b := xs)) (P(b := P b - {g}))" by blast
qed

text \<open>Pushing a node to the front of a bin.\<close>

lemma chains_link:
  assumes ok: "chains_ok nx pv root addr nb c bins P" and ap: "links_apart nx pv root addr nb K"
    and P: "\<And>i. i < nb \<Longrightarrow> P i \<subseteq> K" "\<And>i. i < nb \<Longrightarrow> i \<noteq> b \<Longrightarrow> P i \<inter> P b = {}" and b: "b < nb"
    and g: "g \<in> K" "\<And>i. i < nb \<Longrightarrow> g \<notin> P i"
  defines "n \<equiv> c (nx (root b))"
  defines "c1 \<equiv> c(nx (addr g) := n, pv (addr g) := root b)"
  defines "c' \<equiv> (if n \<noteq> 0 then c1(pv n := addr g) else c1)(nx (root b) := addr g)"
  shows "chains_ok nx pv root addr nb c' (bins(b := g # bins b)) (P(b := insert g (P b)))"
    "\<And>a. a \<notin> chain_cells nx pv root addr b (insert g (P b)) \<Longrightarrow> c' a = c a"
    "n \<noteq> 0 \<Longrightarrow> pv n \<in> chain_cells nx pv root addr b (P b)"
proof -
  note d = chains_okD [OF ok b]
  let ?L = "insert g (P b)"
  have LK: "?L \<subseteq> K" using P(1) [OF b] g(1) by blast
  have n: "n = (case map addr (bins b) of [] \<Rightarrow> 0 | y # _ \<Rightarrow> y)" unfolding n_def by (rule chain_head [OF d(1)])
  have nK: "n = 0 \<or> n \<in> addr ` P b" unfolding n using d(3) by (cases "bins b") auto
  have np: "nx u \<noteq> pv v" if "u = root b \<or> u \<in> addr ` ?L" "v \<in> addr ` ?L" for u v
    using ap b LK that unfolding links_apart_def by blast
  have injK: "inj_on addr K" using ap by (simp add: links_apart_def)
  have inj: "inj_on addr ?L" by (rule inj_on_subset [OF injK LK])
  have gP: "addr g \<notin> addr ` P b" using inj g(2) [OF b] by auto
  have rL: "root b \<notin> addr ` ?L" using ap b LK unfolding links_apart_def by blast
  have gz: "addr g \<noteq> 0" using ap g(1) unfolding links_apart_def by (metis image_eqI)
  show "n \<noteq> 0 \<Longrightarrow> pv n \<in> chain_cells nx pv root addr b (P b)" using nK by (auto simp: chain_cells_def)
  show out: "c' a = c a" if "a \<notin> chain_cells nx pv root addr b ?L" for a
    using that nK by (auto simp: c'_def c1_def chain_cells_def)
  have gL: "addr g \<in> addr ` ?L" by simp
  have nL: "n \<noteq> 0 \<Longrightarrow> n \<in> addr ` ?L" using nK by blast
  have "chain nx pv c' (root b) (addr g # map addr (bins b))"
  proof (rule chain_push [OF d(1) n])
    show "addr g \<notin> set (root b # map addr (bins b))" using gP rL d(3) by auto
    show "addr g \<noteq> 0" by (rule gz)
    have "inj_on addr (set (bins b))" using inj d(3) by (blast intro: inj_on_subset)
    then have "distinct (map addr (bins b))" using d(2) by (simp add: distinct_map)
    moreover have "root b \<notin> set (map addr (bins b))" using rL d(3) by auto
    ultimately show "distinct (root b # map addr (bins b))" by simp
    have rg: "root b \<noteq> addr g" using rL by blast
    show "c' (nx (addr g)) = n"
      using np [OF disjI2 [OF gL] gL] np [OF disjI2 [OF gL] nL] rg by (auto simp: c'_def c1_def nx_inj)
    show "c' (pv (addr g)) = root b"
      using np [OF disjI1 [OF refl] gL] nK gP by (auto simp: c'_def c1_def pv_inj)
    show "c' (nx (root b)) = addr g" by (simp add: c'_def)
    show "c' (pv n) = addr g" if "map addr (bins b) \<noteq> []"
    proof -
      have "n \<in> set (map addr (bins b))" using that n by (cases "bins b") simp_all
      then have "n \<noteq> 0" using chain_nonnull [OF d(1)] by metis
      then show ?thesis using np [OF disjI1 [OF refl] nL] by (auto simp: c'_def)
    qed
    show "c' (nx u) = c (nx u)" if "u \<in> set (map addr (bins b))" for u
    proof -
      have u: "u \<in> addr ` P b" using that d(3) by auto
      then have "u \<in> addr ` ?L" by blast
      then have "nx u \<noteq> pv (addr g)" "n \<noteq> 0 \<Longrightarrow> nx u \<noteq> pv n" using np gL nL by blast+
      moreover have "u \<noteq> addr g" "u \<noteq> root b" using u gP rL by blast+
      ultimately show ?thesis by (auto simp: c'_def c1_def nx_inj)
    qed
    show "c' (pv v) = c (pv v)" if "v \<in> set (map addr (bins b))" "v \<noteq> n" for v
    proof -
      have v: "v \<in> addr ` P b" using that d(3) by auto
      then have vL: "v \<in> addr ` ?L" by blast
      have "nx (addr g) \<noteq> pv v" "nx (root b) \<noteq> pv v" using np [OF disjI2 [OF gL] vL] np [OF disjI1 [OF refl] vL] by auto
      moreover have "v \<noteq> addr g" using v gP by metis
      ultimately show ?thesis using that(2) by (auto simp: c'_def c1_def pv_inj)
    qed
  qed
  then have new: "chain nx pv c' (root b) (map addr (g # bins b))" by simp
  show "chains_ok nx pv root addr nb c' (bins(b := g # bins b)) (P(b := insert g (P b)))"
  proof (rule chains_ok_update [OF ok ap P(1) _ LK b new _ _ out])
    show "P i \<inter> ?L = {}" if "i < nb" "i \<noteq> b" for i using P(2) [OF that] g(2) [OF that(1)] by blast
  qed (use d g(2) [OF b] in auto)
qed

end

end
