(* ===== verification/Medium_Bins.thy ===== *)
theory Medium_Bins
  imports Slab_Client Large_Vector Chain_Bins
begin

unbundle bit_operations_syntax

section \<open>The medium bins\<close>

text \<open>
  Blocks are named by their distance from the heap's start in units of 16 bytes. \<open>B\<close> maps
  every free block of a large slab to its size in the same units: the block is in the bin of
  exactly that size, and the bit of the bin in the skiplist is set. A set bit may be stale.
\<close>

definition ad :: "u64 \<Rightarrow> nat \<Rightarrow> u64" where
  "ad h g = h + of_nat (16 * g)"

abbreviation med_nx :: "u64 \<Rightarrow> u64" where "med_nx b \<equiv> b + block_next"
abbreviation med_pv :: "u64 \<Rightarrow> u64" where "med_pv b \<equiv> b + block_prev"

interpretation med_links: link_fields med_nx med_pv
  by unfold_locales simp_all

definition med_head :: "u64 \<Rightarrow> nat \<Rightarrow> u64" where
  "med_head h i = h + of_nat (2232 + 8 * i)"

definition med_root :: "u64 \<Rightarrow> nat \<Rightarrow> u64" where
  "med_root h i = medium_bin_start (med_head h i)"

definition med_word :: "u64 \<Rightarrow> (u64 \<Rightarrow> u64) \<Rightarrow> nat \<Rightarrow> u32" where
  "med_word h c j = get_lane (32 * (j mod 2)) (c (h + (4040 + of_nat (j div 2) * 8)))"

definition med_bit :: "u64 \<Rightarrow> (u64 \<Rightarrow> u64) \<Rightarrow> nat \<Rightarrow> bool" where
  "med_bit h c i \<longleftrightarrow> bit (med_word h c (i div 32)) (i mod 32)"

abbreviation med_chains :: "u64 \<Rightarrow> (u64 \<Rightarrow> u64) \<Rightarrow> (nat \<Rightarrow> nat list) \<Rightarrow> (nat \<rightharpoonup> nat) \<Rightarrow> bool" where
  "med_chains h c bins B \<equiv> chains_ok med_nx med_pv (med_root h) (ad h) 224 c bins (\<lambda>i. {g. B g = Some (i + 32)})"

definition med_ok :: "u64 \<Rightarrow> (u64 \<Rightarrow> u64) \<Rightarrow> (nat \<rightharpoonup> nat) \<Rightarrow> bool" where
  "med_ok h c B \<longleftrightarrow> ran B \<subseteq> {32..<256} \<and> (\<exists>bins. med_chains h c bins B)
     \<and> (\<forall>g z. B g = Some z \<longrightarrow> med_bit h c (z - 32))"

text \<open>The cells that belong to the bins, with \<open>G\<close> the blocks that are or become free.\<close>

definition med_cells :: "u64 \<Rightarrow> nat set \<Rightarrow> u64 set" where
  "med_cells h G = med_head h ` {..<224} \<union> (\<lambda>j. h + (4040 + of_nat j * 8)) ` {..<4}
     \<union> ad h ` G \<union> (\<lambda>g. ad h g + 8) ` G"

lemma med_root_nx [simp]: "med_nx (med_root h i) = med_head h i"
  by (simp add: med_root_def medium_bin_start_def)

lemma med_cells_mono: "G \<subseteq> G' \<Longrightarrow> med_cells h G \<subseteq> med_cells h G'"
  unfolding med_cells_def by blast

subsection \<open>Addresses\<close>

lemma ad_page: "ad h (256 * k + x) = pg h k + of_nat (16 * x)"
  by (simp add: ad_def pg_def algebra_simps)

lemma unat_ad:
  assumes "shape h N m" "g < 256 * N"
  shows "unat (ad h g) = unat h + 16 * g" "unat (ad h g + 8) = unat h + 16 * g + 8"
    "unat (ad h g) + 16 \<le> unat h + 4096 * N" "unat h + 4096 * N < 2 ^ 64"
proof -
  have b: "unat h + 4096 * N < 2 ^ 64" and g: "16 * g + 16 \<le> 4096 * N" using assms by (auto simp: shape_def)
  have u: "unat (of_nat (16 * g) :: u64) = 16 * g" using b g by (simp only: unat_of_nat) simp
  show e: "unat (ad h g) = unat h + 16 * g"
    unfolding ad_def unat_word_ariths u using b g by simp
  show "unat (ad h g + 8) = unat h + 16 * g + 8" unfolding unat_word_ariths e using b g by simp
  show "unat (ad h g) + 16 \<le> unat h + 4096 * N" "unat h + 4096 * N < 2 ^ 64" using e g b by simp_all
qed

lemma unat_header:
  assumes "shape h N m" "d < 4096"
  shows "unat (h + d) = unat h + unat d"
  using unat_pg_offset [of h 0 d] assms by (simp add: shape_def)

lemma unat_med_head:
  assumes "shape h N m" "i < 224"
  shows "unat (med_head h i) = unat h + 2232 + 8 * i"
proof -
  have b: "unat h + 4096 * N < 2 ^ 64" "0 < N" using assms by (auto simp: shape_def)
  have "unat (of_nat (2232 + 8 * i) :: u64) = 2232 + 8 * i" using assms(2) by (simp only: unat_of_nat) simp
  then show ?thesis unfolding med_head_def unat_word_ariths using b assms(2) by simp
qed

lemma med_cell_valid:
  assumes sh: "shape h N m"
  shows "g < 256 * N \<Longrightarrow> valid_cell m (ad h g)" "g < 256 * N \<Longrightarrow> valid_cell m (ad h g + 8)"
    "i < 224 \<Longrightarrow> valid_cell m (med_head h i)"
proof -
  have e: "ad h g = pg h (g div 256) + of_nat (16 * (g mod 256))" for g
    using ad_page [of h "g div 256" "g mod 256"] by (simp only: mult_div_mod_eq)
  have a: "w AND 7 = 0 \<longleftrightarrow> unat w mod 8 = 0" for w :: u64
  proof -
    have "w AND 7 = take_bit 3 w" by (simp add: take_bit_eq_mask mask_eq_exp_minus_1)
    then have "unat (w AND 7) = unat w mod 8" by (simp only: unsigned_take_bit_eq) (simp add: take_bit_eq_mod)
    then show ?thesis by (metis unat_0 unat_eq_zero)
  qed
  have o: "unat (of_nat (16 * (g mod 256)) :: u64) = 16 * (g mod 256)" "unat (of_nat (16 * (g mod 256)) + 8 :: u64) = 16 * (g mod 256) + 8" for g
  proof -
    have "g mod 256 < 256" by simp
    then show u: "unat (of_nat (16 * (g mod 256)) :: u64) = 16 * (g mod 256)" by (simp only: unat_of_nat) simp
    show "unat (of_nat (16 * (g mod 256)) + 8 :: u64) = 16 * (g mod 256) + 8"
      unfolding unat_word_ariths u using \<open>g mod 256 < 256\<close> by simp
  qed
  have m8: "16 * x mod 8 = 0" "(16 * x + 8) mod 8 = 0" for x :: nat by presburger+
  show "valid_cell m (ad h g)" if "g < 256 * N"
  proof -
    have "g div 256 < N" using that by (simp add: less_mult_imp_div_less mult.commute)
    moreover have "(of_nat (16 * (g mod 256)) :: u64) < 4096"
      unfolding word_less_nat_alt o(1) using mod_less_divisor [of 256 g] by simp
    moreover have "16 * (g mod 256) mod 8 = 0" by (rule m8)
    ultimately show ?thesis unfolding e by (intro shape_valid [OF sh]) (simp_all only: a o)
  qed
  show "valid_cell m (ad h g + 8)" if "g < 256 * N"
  proof -
    have "g div 256 < N" using that by (simp add: less_mult_imp_div_less mult.commute)
    moreover have "(of_nat (16 * (g mod 256)) + 8 :: u64) < 4096"
      unfolding word_less_nat_alt o(2) using mod_less_divisor [of 256 g] by simp
    moreover have "(16 * (g mod 256) + 8) mod 8 = 0" by (rule m8)
    ultimately show ?thesis unfolding e add.assoc by (intro shape_valid [OF sh]) (simp_all only: a o)
  qed
  show "valid_cell m (med_head h i)" if "i < 224"
  proof -
    have u: "unat (of_nat (2232 + 8 * i) :: u64) = 2232 + 8 * i" using that by (simp only: unat_of_nat) simp
    have m: "(2232 + 8 * i) mod 8 = 0" by simp
    have "(of_nat (2232 + 8 * i) :: u64) AND 7 = 0" unfolding a u by (rule m)
    moreover have "2232 + 8 * i < 4096" using that by simp
    then have "(of_nat (2232 + 8 * i) :: u64) < 4096" unfolding word_less_nat_alt u by simp
    ultimately show ?thesis unfolding med_head_def by (intro shape_valid_header [OF sh])
  qed
qed

lemma med_apart:
  assumes sh: "shape h N m"
  shows "links_apart med_nx med_pv (med_root h) (ad h) 224 {256..<256 * N}"
  unfolding links_apart_def
proof (intro conjI allI ballI impI)
  note u = unat_ad [OF sh] and uh = unat_med_head [OF sh]
  show "inj_on (ad h) {256..<256 * N}"
  proof (rule inj_onI)
    fix x y assume a: "x \<in> {256..<256 * N}" "y \<in> {256..<256 * N}" "ad h x = ad h y"
    then have "x < 256 * N" "y < 256 * N" by simp_all
    then have "unat h + 16 * x = unat h + 16 * y" using u(1) a(3) by metis
    then show "x = y" by simp
  qed
  show "0 \<notin> ad h ` {256..<256 * N}"
  proof
    assume "0 \<in> ad h ` {256..<256 * N}"
    then obtain g where g: "256 \<le> g" "g < 256 * N" "ad h g = 0" by auto
    have "unat (ad h g) = 0" by (simp add: g(3))
    then show False using u(1) [OF g(2)] g(1) by linarith
  qed
  show "i = j" if "i < 224" "j < 224" "med_root h i = med_root h j" for i j :: nat
  proof -
    have "med_head h i = med_head h j" using that(3) by (metis med_root_nx)
    then have "unat h + 2232 + 8 * i = unat h + 2232 + 8 * j" using uh [OF that(1)] uh [OF that(2)] by metis
    then show ?thesis by simp
  qed
  fix i g :: nat assume i: "i < 224" and "g \<in> {256..<256 * N}"
  then have g: "256 \<le> g" "g < 256 * N" by simp_all
  show "med_root h i \<noteq> ad h g"
  proof
    assume "med_root h i = ad h g"
    then have "med_head h i = ad h g" using med_root_nx [of h i] by (simp add: layout_simps)
    then have "unat h + 2232 + 8 * i = unat h + 16 * g" using uh [OF i] u(1) [OF g(2)] by metis
    then show False using g(1) i by linarith
  qed
  show "med_nx (med_root h i) \<noteq> med_pv (ad h g)"
  proof
    assume "med_nx (med_root h i) = med_pv (ad h g)"
    then have "med_head h i = ad h g + 8" unfolding med_root_nx block_prev_def .
    then have "unat h + 2232 + 8 * i = unat h + 16 * g + 8" using uh [OF i] u(2) [OF g(2)] by metis
    then show False using g(1) i by linarith
  qed
next
  fix g g' :: nat assume "g \<in> {256..<256 * N}" "g' \<in> {256..<256 * N}"
  then have u: "unat (ad h g) = unat h + 16 * g" "unat (ad h g' + 8) = unat h + 16 * g' + 8" using unat_ad [OF sh] by simp_all
  have "unat h + 16 * g \<noteq> unat h + 16 * g' + 8" by presburger
  then have "ad h g \<noteq> ad h g' + 8" using u by metis
  then show "med_nx (ad h g) \<noteq> med_pv (ad h g')" by (simp add: layout_simps)
qed

lemma med_chain_cells:
  assumes "i < 224" "K \<subseteq> G"
  shows "chain_cells med_nx med_pv (med_root h) (ad h) i K \<subseteq> med_cells h G"
  unfolding chain_cells_def med_root_nx med_cells_def using assms by (auto simp: layout_simps)

subsection \<open>The skiplist\<close>

lemma med_skip_address:
  assumes "j < 7"
  shows "med_skiplist h (of_nat j) = h + (4040 + of_nat j * 4)"
    "(4040 + of_nat j * 4 :: u64) AND - 8 = 4040 + of_nat (j div 2) * 8"
    "unat ((4040 + of_nat j * 4 :: u64) AND 7) * 8 = 32 * (j mod 2)"
    "4040 + of_nat j * 4 < (4096 :: u64)" "4040 + of_nat (j div 2) * 8 < (4096 :: u64)"
    "(4040 + of_nat (j div 2) * 8 :: u64) AND 7 = 0"
proof -
  have "j \<in> {0, 1, 2, 3, 4, 5, 6}" using assms by auto
  then have c: "j = 0 \<or> j = 1 \<or> j = 2 \<or> j = 3 \<or> j = 4 \<or> j = 5 \<or> j = 6" by simp
  show "med_skiplist h (of_nat j) = h + (4040 + of_nat j * 4)" using c by (auto simp: med_skiplist_def layout_simps)
  show "(4040 + of_nat j * 4 :: u64) AND - 8 = 4040 + of_nat (j div 2) * 8"
    "unat ((4040 + of_nat j * 4 :: u64) AND 7) * 8 = 32 * (j mod 2)"
    "4040 + of_nat j * 4 < (4096 :: u64)" "4040 + of_nat (j div 2) * 8 < (4096 :: u64)"
    "(4040 + of_nat (j div 2) * 8 :: u64) AND 7 = 0"
    using c by (elim disjE; simp)+
qed

lemma med_word_load:
  assumes sh: "shape h N m" and j: "j < 7"
  shows "load32 m (med_skiplist h (of_nat j)) = Some (med_word h (cells m) j)"
proof -
  note a = med_skip_address [OF j]
  have v: "valid_cell m (h + (4040 + of_nat (j div 2) * 8))" by (rule shape_valid_header [OF sh a(5,6)])
  show ?thesis using v a(2,3) shape_aligned [OF sh] a(4)
    by (simp add: a(1) load_lane_page med_word_def mult.commute [of 8])
qed

lemma med_word_store:
  assumes sh: "shape h N m" and j: "j < 7"
  obtains c' where "store32 m (med_skiplist h (of_nat j)) w = Some (m\<lparr>cells := c'\<rparr>)"
    and "\<And>k. k < 7 \<Longrightarrow> med_word h c' k = (if k = j then w else med_word h (cells m) k)"
    and "\<And>a. a \<noteq> h + (4040 + of_nat (j div 2) * 8) \<Longrightarrow> c' a = cells m a"
proof -
  note a = med_skip_address [OF j]
  let ?a = "h + (4040 + of_nat (j div 2) * 8)" and ?l = "32 * (j mod 2)"
  have v: "valid_cell m ?a" by (rule shape_valid_header [OF sh a(5,6)])
  define c' where "c' = (cells m)(?a := set_lane ?l w (cells m ?a))"
  have l: "?l + LENGTH(32) \<le> 64" by simp
  have "store32 m (med_skiplist h (of_nat j)) w = Some (m\<lparr>cells := c'\<rparr>)"
    using v a(2,3) shape_aligned [OF sh] a(4) by (simp add: a(1) store_lane_page c'_def mult.commute [of 8])
  moreover have "med_word h c' k = (if k = j then w else med_word h (cells m) k)" if k: "k < 7" for k
  proof (cases "k div 2 = j div 2")
    case True
    have e: "med_word h c' k = get_lane (32 * (k mod 2)) (set_lane ?l w (cells m ?a))"
      unfolding med_word_def c'_def True fun_upd_same ..
    show ?thesis
    proof (cases "k = j")
      case True
      then show ?thesis unfolding e by (simp add: get_set_lane_same [OF l])
    next
      case False
      then have "k mod 2 \<noteq> j mod 2" using True by (metis div_mult_mod_eq)
      then have "32 * (k mod 2) + LENGTH(32) \<le> ?l \<or> ?l + LENGTH(32) \<le> 32 * (k mod 2)"
        using mod_less_divisor [of 2 k] mod_less_divisor [of 2 j] by simp linarith
      from get_set_lane_other [OF l this] show ?thesis unfolding e using False True by (simp add: med_word_def)
    qed
  next
    case False
    have "unat (4040 + of_nat (i div 2) * 8 :: u64) = 4040 + 8 * (i div 2)" if "i < 7" for i
      using that by (simp add: unat_word_ariths unat_of_nat)
    from this [OF k] this [OF j] have "h + (4040 + of_nat (k div 2) * 8) \<noteq> ?a" using False by auto
    then show ?thesis using False by (auto simp: med_word_def c'_def)
  qed
  moreover have "c' a = cells m a" if "a \<noteq> ?a" for a using that by (simp add: c'_def)
  ultimately show thesis by (rule that)
qed

lemma med_cells_skip: "j < 7 \<Longrightarrow> h + (4040 + of_nat (j div 2) * 8) \<in> med_cells h G"
proof -
  assume "j < 7"
  then have "j div 2 \<in> {..<4}" by auto
  then show ?thesis unfolding med_cells_def by blast
qed

lemma med_word_frame:
  assumes "j < 7" "\<And>a. a \<in> med_cells h {} \<Longrightarrow> c' a = c a"
  shows "med_word h c' j = med_word h c j"
  using assms(2) [OF med_cells_skip [OF assms(1)]] by (simp add: med_word_def)

lemma med_ok_frame:
  assumes ok: "med_ok h c B" and fr: "\<And>a. a \<in> med_cells h (dom B) \<Longrightarrow> c' a = c a"
  shows "med_ok h c' B"
proof -
  obtain bins where b: "med_chains h c bins B" using ok by (auto simp: med_ok_def)
  have "med_chains h c' bins B"
  proof (rule chains_ok_frame [OF b])
    fix i a assume i: "i < 224" and a: "a \<in> chain_cells med_nx med_pv (med_root h) (ad h) i {g. B g = Some (i + 32)}"
    have "{g. B g = Some (i + 32)} \<subseteq> dom B" by auto
    from med_chain_cells [OF i this] a show "c' a = c a" by (blast intro: fr)
  qed
  moreover have "med_bit h c' (z - 32)" if "B g = Some z" for g z
  proof -
    have z: "32 \<le> z" "z < 256" using ok that by (auto simp: med_ok_def ran_def)
    then have "(z - 32) div 32 < 7" by auto
    then have "med_word h c' ((z - 32) div 32) = med_word h c ((z - 32) div 32)"
      by (rule med_word_frame) (use fr med_cells_mono [of "{}" "dom B" h] in blast)
    moreover have "med_bit h c (z - 32)" using ok that by (simp add: med_ok_def)
    ultimately show ?thesis by (simp add: med_bit_def)
  qed
  ultimately show ?thesis using ok by (auto simp: med_ok_def)
qed

lemma med_chain_cellE:
  assumes "a \<in> chain_cells med_nx med_pv (med_root h) (ad h) i {g. B g = Some (i + 32)}"
  obtains (head) "a = med_head h i" | (node) q where "q \<in> dom B" "a = ad h q \<or> a = ad h q + 8"
  using assms unfolding chain_cells_def med_root_nx by (auto simp: block_next_def block_prev_def)

lemma skip_not_link:
  assumes sh: "shape h N m" and D: "dom B \<subseteq> {256..<256 * N}" and j: "j < 7" and i: "i < 224"
    and a: "a \<in> chain_cells med_nx med_pv (med_root h) (ad h) i {g. B g = Some (i + 32)}"
  shows "a \<noteq> h + (4040 + of_nat (j div 2) * 8)"
proof -
  let ?s = "h + (4040 + of_nat (j div 2) * 8)"
  have o: "unat (4040 + of_nat (j div 2) * 8 :: u64) = 4040 + 8 * (j div 2)" using j by (simp add: unat_word_ariths unat_of_nat)
  have jd: "j div 2 < 4" using j by auto
  have s: "unat ?s = unat h + (4040 + 8 * (j div 2))" unfolding unat_header [OF sh med_skip_address(5) [OF j]] o ..
  from a show "a \<noteq> ?s"
  proof (cases rule: med_chain_cellE)
    case head
    then show ?thesis using unat_med_head [OF sh i] s i by auto
  next
    case (node q)
    then have g: "256 \<le> q" "q < 256 * N" using D by auto
    then show ?thesis using unat_ad(1,2) [OF sh g(2)] node(2) s jd by auto
  qed
qed

text \<open>Stores to the skiplist do not concern the lists.\<close>

lemma med_chains_skip:
  assumes sh: "shape h N m" and b: "med_chains h c bins B" and D: "dom B \<subseteq> {256..<256 * N}" and j: "j < 7"
    and out: "\<And>a. a \<noteq> h + (4040 + of_nat (j div 2) * 8) \<Longrightarrow> c' a = c a"
  shows "med_chains h c' bins B"
  by (rule chains_ok_frame [OF b], rule out) (rule skip_not_link [OF sh D j])

subsection \<open>Linking and unlinking a block\<close>

lemma medium_size:
  assumes "32 \<le> z" "z < 256"
  shows "unat (of_nat (16 * z) :: u64) = 16 * z" "medium_bin_idx (of_nat (16 * z)) = of_nat (z - 32)"
    "medium_bin_idx_size (of_nat (z - 32)) = of_nat (16 * z)" "get_medium_bin h (of_nat (16 * z)) = med_head h (z - 32)"
    "(ucast ((of_nat (16 * z) - MIN_MEDIUM_BLOCK_SZ) div MALLOC_ALIGN) :: u32) = of_nat (z - 32)"
proof -
  show u: "unat (of_nat (16 * z) :: u64) = 16 * z" using assms by (simp only: unat_of_nat) simp
  have "(512 :: u64) \<le> of_nat (16 * z)" using assms u by (simp add: word_le_nat_alt del: of_nat_mult)
  then have "unat (of_nat (16 * z) - 512 :: u64) = 16 * z - 512" using u by (simp add: unat_sub del: of_nat_mult)
  then have "unat ((of_nat (16 * z) - 512 :: u64) div 16) = z - 32" by (simp add: unat_div del: of_nat_mult)
  then have d: "(of_nat (16 * z) - 512 :: u64) div 16 = of_nat (z - 32)" by (metis of_nat_unat ucast_id)
  show i: "medium_bin_idx (of_nat (16 * z)) = of_nat (z - 32)"
    unfolding medium_bin_idx_def MALLOC_ALIGN_def size_limits(1) by (rule d)
  have z: "16 * (z - 32) + 512 = 16 * z" using assms by simp
  have "of_nat (16 * (z - 32) + 512) = (of_nat (16 * z) :: u64)" unfolding z ..
  then show "medium_bin_idx_size (of_nat (z - 32)) = of_nat (16 * z)"
    by (simp add: medium_bin_idx_size_def MALLOC_ALIGN_def size_limits mult.commute)
  show "get_medium_bin h (of_nat (16 * z)) = med_head h (z - 32)"
    unfolding get_medium_bin_def i med_head_def by (simp add: layout_simps mult.commute)
  have "z - 32 < 2 ^ 32" "z - 32 < 2 ^ 64" using assms by simp_all
  then show "(ucast ((of_nat (16 * z) - MIN_MEDIUM_BLOCK_SZ) div MALLOC_ALIGN) :: u32) = of_nat (z - 32)"
    unfolding MALLOC_ALIGN_def size_limits(1) d
    by (simp add: word_unat_eq_iff unsigned_ucast_eq unsigned_of_nat take_bit_nat_eq_self)
qed

lemma medium_skip_index:
  assumes "i < 224"
  shows "medium_bin_skiplist_idx (of_nat i) = of_nat (i div 32)" "unat (medium_bin_skiplist_bit (of_nat i)) = i mod 32"
    "i div 32 < 7"
proof -
  have u: "unat (of_nat i :: u32) = i" using assms by (simp add: unat_of_nat)
  show "medium_bin_skiplist_idx (of_nat i) = of_nat (i div 32)"
    unfolding medium_bin_skiplist_idx_def
    by (rule unsigned_word_eqI [where ?'a = nat]) (use assms in \<open>simp add: unat_div u unsigned_ucast_eq take_bit_eq_mod unat_of_nat\<close>)
  have "of_nat i AND (31 :: u32) = take_bit 5 (of_nat i)" by (simp add: take_bit_eq_mask mask_eq_exp_minus_1)
  then have "unat (of_nat i AND (31 :: u32)) = i mod 32"
    by (simp only: unsigned_take_bit_eq u) (simp add: take_bit_eq_mod)
  moreover have "i mod 32 < 256" by (rule less_trans [of _ 32]) simp_all
  ultimately show "unat (medium_bin_skiplist_bit (of_nat i)) = i mod 32"
    by (simp add: medium_bin_skiplist_bit_def unsigned_ucast_eq take_bit_eq_mod)
  show "i div 32 < 7" using assms by auto
qed

lemma med_disjoint: "i \<noteq> j \<Longrightarrow> {g. B g = Some (i + 32 :: nat)} \<inter> {g. B g = Some (j + 32)} = {}"
  by auto

lemma medium_bin_unlink_ok:
  assumes sh: "shape h N m" and ok: "med_ok h (cells m) B" and D: "dom B \<subseteq> {256..<256 * N}" and g: "B g = Some z"
  obtains c' where "medium_bin_unlink (ad h g) m = Some (m\<lparr>cells := c'\<rparr>)" and "med_ok h c' (B(g := None))"
    and "\<And>a. a \<notin> med_cells h (dom B) \<Longrightarrow> c' a = cells m a"
    and "\<And>j. j < 7 \<Longrightarrow> med_word h c' j = med_word h (cells m) j"
proof -
  let ?c = "cells m" and ?P = "\<lambda>i. {g. B g = Some (i + 32)}" and ?b = "z - 32"
  have z: "32 \<le> z" "z < 256" using ok g by (auto simp: med_ok_def ran_def)
  then have b: "?b < 224" by simp
  have Pb: "?P ?b = {g. B g = Some z}" using z by simp
  obtain bins where ch: "med_chains h ?c bins B" using ok by (auto simp: med_ok_def)
  have P1: "?P i \<subseteq> {256..<256 * N}" for i using D by auto
  let ?n = "?c (med_nx (ad h g))" and ?p = "?c (med_pv (ad h g))"
  define c' where "c' = (if ?n \<noteq> 0 then ?c(med_nx ?p := ?n, med_pv ?n := ?p) else ?c(med_nx ?p := ?n))"
  note u = med_links.chains_unlink [OF ch med_apart [OF sh] P1 med_disjoint b, of g, folded c'_def]
  have gP: "g \<in> ?P ?b" using g Pb by simp
  obtain xs where xs: "chains_ok med_nx med_pv (med_root h) (ad h) 224 c' (bins(?b := xs)) (?P(?b := ?P ?b - {g}))"
    using u(1) [OF _ gP] by auto
  have "?P(?b := ?P ?b - {g}) = (\<lambda>i. {q. (B(g := None)) q = Some (i + 32)})" using g z by (auto simp: fun_eq_iff)
  then have ch': "med_chains h c' (bins(?b := xs)) (B(g := None))" using xs by simp
  let ?C = "chain_cells med_nx med_pv (med_root h) (ad h) ?b (?P ?b)"
  have C: "?C \<subseteq> med_cells h (dom B)" by (rule med_chain_cells [OF b]) auto
  have out: "c' a = ?c a" if "a \<notin> ?C" for a using u(2) [OF _ gP] that by auto
  have pv: "med_nx ?p \<in> ?C" "?n \<noteq> 0 \<Longrightarrow> med_pv ?n \<in> ?C" using u(3,4) [OF _ gP] by auto
  have va: "valid_cell m a" if "a \<in> ?C" for a
    using that med_cell_valid [OF sh] b D by (cases rule: med_chain_cellE) auto
  have gN: "g < 256 * N" using D g by auto
  have ex: "medium_bin_unlink (ad h g) m = Some (m\<lparr>cells := c'\<rparr>)"
    using med_cell_valid(1,2) [OF sh gN] va [OF pv(1)] va [OF pv(2)]
    by (simp add: medium_bin_unlink_def block_next_def block_prev_def load64_valid store64_valid c'_def)
  have sk: "med_word h c' j = med_word h ?c j" if j: "j < 7" for j
  proof -
    have "h + (4040 + of_nat (j div 2) * 8) \<notin> ?C" using skip_not_link [OF sh D j b] by blast
    then show ?thesis using out by (simp add: med_word_def)
  qed
  have "med_bit h c' (y - 32)" if "(B(g := None)) q = Some y" for q y
  proof -
    have y: "B q = Some y" using that by (auto split: if_splits)
    then have "(y - 32) div 32 < 7" using ok by (force simp: med_ok_def ran_def)
    then show ?thesis using ok y sk by (simp add: med_ok_def med_bit_def)
  qed
  moreover have "ran (B(g := None)) \<subseteq> {32..<256}" using ok by (auto simp: med_ok_def ran_def split: if_splits)
  ultimately have "med_ok h c' (B(g := None))" unfolding med_ok_def using ch' by blast
  then show thesis using that ex C out sk by blast
qed

lemma medium_bin_link_ok:
  assumes sh: "shape h N m" and ok: "med_ok h (cells m) B" and D: "insert g (dom B) \<subseteq> {256..<256 * N}"
    and g: "B g = None" and z: "32 \<le> z" "z < 256"
  obtains c' where "medium_bin_link h (ad h g) (of_nat (16 * z)) m = Some (m\<lparr>cells := c'\<rparr>)"
    and "med_ok h c' (B(g \<mapsto> z))" and "\<And>a. a \<notin> med_cells h (insert g (dom B)) \<Longrightarrow> c' a = cells m a"
    and "\<And>j. j < 7 \<Longrightarrow> med_word h c' j = (if j = (z - 32) div 32 then med_word h (cells m) j OR push_bit ((z - 32) mod 32) 1
      else med_word h (cells m) j)"
proof -
  let ?c = "cells m" and ?P = "\<lambda>i. {g. B g = Some (i + 32)}" and ?b = "z - 32" and ?K = "{256..<256 * N}"
  have b: "?b < 224" using z by simp
  have D1: "dom B \<subseteq> {256..<256 * N}" and gD: "g \<in> ?K" and gN: "g < 256 * N" using D by auto
  have bz: "?b + 32 = z" using z by simp
  obtain bins where ch: "med_chains h ?c bins B" using ok by (auto simp: med_ok_def)
  have P1: "?P i \<subseteq> ?K" for i using D by auto
  have gP: "g \<notin> ?P i" for i using g by simp
  let ?r = "med_root h ?b"
  let ?n = "?c (med_nx ?r)"
  define c1 where "c1 = ?c(med_nx (ad h g) := ?n, med_pv (ad h g) := ?r)"
  define c2 where "c2 = (if ?n \<noteq> 0 then c1(med_pv ?n := ad h g) else c1)(med_nx ?r := ad h g)"
  note u = med_links.chains_link [OF ch med_apart [OF sh] P1 med_disjoint b gD gP, folded c1_def, folded c2_def]
  have PB: "?P(?b := insert g (?P ?b)) = (\<lambda>i. {q. (B(g \<mapsto> z)) q = Some (i + 32)})"
    using g z by (auto simp: fun_eq_iff)
  have ch2: "med_chains h c2 (bins(?b := g # bins ?b)) (B(g \<mapsto> z))" using u(1) unfolding PB .
  let ?B = "B(g \<mapsto> z)"
  have Q: "insert g (?P ?b) = {q. ?B q = Some (?b + 32)}" using g bz by auto
  let ?C = "chain_cells med_nx med_pv (med_root h) (ad h) ?b {q. ?B q = Some (?b + 32)}"
  have out2: "c2 a = ?c a" if "a \<notin> ?C" for a using u(2) that unfolding Q by simp
  have dB: "dom ?B = insert g (dom B)" by simp
  have C: "?C \<subseteq> med_cells h (insert g (dom B))" by (rule med_chain_cells [OF b]) auto
  have pvn: "?n \<noteq> 0 \<Longrightarrow> med_pv ?n \<in> chain_cells med_nx med_pv (med_root h) (ad h) ?b (?P ?b)" by (rule u(3))
  have vn: "valid_cell m (med_pv ?n)" if "?n \<noteq> 0"
    using pvn [OF that] med_cell_valid [OF sh] b D1 by (cases rule: med_chain_cellE) auto
  have sk: "med_word h c2 j = med_word h ?c j" if j: "j < 7" for j
  proof -
    have "h + (4040 + of_nat (j div 2) * 8) \<notin> ?C" using skip_not_link [OF sh _ j b, of ?B] D dB by blast
    then show ?thesis using out2 by (simp add: med_word_def)
  qed
  note si = medium_skip_index [OF b]
  let ?j = "?b div 32"
  have sh2: "shape h N (m\<lparr>cells := c2\<rparr>)" using sh by simp
  obtain c' where st: "store32 (m\<lparr>cells := c2\<rparr>) (med_skiplist h (of_nat ?j)) (med_word h c2 ?j OR push_bit (?b mod 32) 1) = Some (m\<lparr>cells := c'\<rparr>)"
    and w: "\<And>k. k < 7 \<Longrightarrow> med_word h c' k = (if k = ?j then med_word h c2 ?j OR push_bit (?b mod 32) 1 else med_word h c2 k)"
    and out: "\<And>a. a \<noteq> h + (4040 + of_nat (?j div 2) * 8) \<Longrightarrow> c' a = c2 a"
    by (rule med_word_store [OF sh2 si(3), where w = "med_word h c2 ?j OR push_bit (?b mod 32) 1"]) simp
  show thesis
  proof (rule that)
    have vs: "valid_cell m (ad h g)" "valid_cell m (ad h g + 8)" "valid_cell m (med_head h ?b)"
      using med_cell_valid [OF sh] gN b by simp_all
    have ld: "load32 (m\<lparr>cells := c2\<rparr>) (med_skiplist h (of_nat ?j)) = Some (med_word h c2 ?j)"
      using med_word_load [OF sh2 si(3)] by simp
    have r: "medium_bin_start (med_head h ?b) = ?r" by (simp add: med_root_def)
    have m32: "?b mod 32 mod 32 = ?b mod 32" by simp
    have "medium_bin_link h (ad h g) (of_nat (16 * z)) m = do {
        w \<leftarrow> load32 (m\<lparr>cells := c2\<rparr>) (med_skiplist h (of_nat ?j));
        store32 (m\<lparr>cells := c2\<rparr>) (med_skiplist h (of_nat ?j)) (w OR push_bit (?b mod 32) 1) }"
    proof (cases "cells m (med_head h ?b) = 0")
      case True
      then show ?thesis
        unfolding medium_bin_link_def Let_def medium_size(4,5) [OF z] si(1,2) r
        using vs by (simp add: load64_valid store64_valid c2_def c1_def block_next_def block_prev_def shl32_def
          med_root_nx [unfolded block_next_def, simplified] del: med_root_nx)
    next
      case False
      then have "valid_cell m (cells m (med_head h ?b) + 8)" using vn by (simp add: block_prev_def)
      then show ?thesis
        unfolding medium_bin_link_def Let_def medium_size(4,5) [OF z] si(1,2) r
        using vs False by (simp add: load64_valid store64_valid c2_def c1_def block_next_def block_prev_def shl32_def
          med_root_nx [unfolded block_next_def, simplified] del: med_root_nx)
    qed
    then show "medium_bin_link h (ad h g) (of_nat (16 * z)) m = Some (m\<lparr>cells := c'\<rparr>)" using ld st by simp
    show o': "c' a = ?c a" if "a \<notin> med_cells h (insert g (dom B))" for a
    proof -
      have "a \<noteq> h + (4040 + of_nat (?j div 2) * 8)" using that med_cells_skip [OF si(3)] by metis
      then have "c' a = c2 a" by (rule out)
      also have "\<dots> = ?c a" by (rule out2) (use that C in blast)
      finally show ?thesis .
    qed
    show ww: "med_word h c' j = (if j = ?j then med_word h ?c j OR push_bit (?b mod 32) 1 else med_word h ?c j)" if "j < 7" for j
      unfolding w [OF that] sk [OF that] sk [OF si(3)] by (cases "j = ?j") simp_all
    have "med_chains h c' (bins(?b := g # bins ?b)) ?B"
      by (rule med_chains_skip [OF sh ch2 _ si(3) out], unfold dB, rule D)
    moreover have "ran ?B \<subseteq> {32..<256}" using ok z g by (auto simp: med_ok_def ran_def)
    moreover have "med_bit h c' (y - 32)" if "?B q = Some y" for q y
    proof (cases "q = g")
      case True
      have "bit (x OR push_bit n 1 :: u32) n" if "n < 32" for n x
        using that by (simp add: bit_or_iff bit_push_bit_iff del: push_bit_of_1)
      moreover have "y = z" using that True by simp
      ultimately show ?thesis unfolding med_bit_def using ww [OF si(3)] by simp
    next
      case False
      then have y: "B q = Some y" using that by simp
      then have j: "(y - 32) div 32 < 7" using ok by (force simp: med_ok_def ran_def)
      have "bit (med_word h ?c ((y - 32) div 32)) ((y - 32) mod 32)" using ok y by (auto simp: med_ok_def med_bit_def)
      then show ?thesis unfolding med_bit_def ww [OF j] by (cases "(y - 32) div 32 = ?j") (simp_all add: bit_or_iff)
    qed
    ultimately show "med_ok h c' ?B" unfolding med_ok_def by blast
  qed
qed

end
