(* ===== verification/Realloc.thy ===== *)
theory Realloc
  imports Malloc
begin

unbundle bit_operations_syntax

section \<open>\<^verbatim>\<open>realloc\<close>\<close>

text \<open>
  \<^verbatim>\<open>__int_realloc\<close>, one definition per branch of the C function. A block stays where it
  is when its size class does not change, when it can shrink in place, or when the free
  space after it suffices; otherwise \<open>realloc_move\<close> allocates, copies and frees.
\<close>

subsection \<open>Moving a block\<close>

definition realloc_move ::
  "sbrk_fn \<Rightarrow> u64 \<Rightarrow> u64 \<Rightarrow> u64 \<Rightarrow> u64 \<Rightarrow> u64 \<Rightarrow> (memory \<Rightarrow> memory option) \<Rightarrow> memory
    \<Rightarrow> (u64 \<times> memory) option" where
  "realloc_move sbrk h s ptr sz n release m = do {
     (new_ptr, m) \<leftarrow> int_malloc sbrk h sz m;
     m \<leftarrow> (if new_ptr \<noteq> 0 then mem_cpy new_ptr ptr (unat n) m else Some m);
     m \<leftarrow> release m;
     Some (new_ptr, m)
   }"

definition realloc_packed ::
  "sbrk_fn \<Rightarrow> u64 \<Rightarrow> u64 \<Rightarrow> u64 \<Rightarrow> u64 \<Rightarrow> memory \<Rightarrow> (u64 \<times> memory) option" where
  "realloc_packed sbrk h s ptr sz m = do {
     sz_class \<leftarrow> packed_slab_sz_class s m;
     let blk_size = (ucast (sz_class_to_size sz_class) :: u64);
     if is_tiny_block_size sz \<and> ucast (adj_tiny_size (ucast sz)) = blk_size
     then Some (ptr, m)
     else realloc_move sbrk h s ptr sz (if sz < blk_size then sz else blk_size)
            (packed_free_switch h s ptr sz_class) m
   }"

subsection \<open>Large blocks\<close>

definition realloc_large_grow ::
  "sbrk_fn \<Rightarrow> u64 \<Rightarrow> u64 \<Rightarrow> u64 \<Rightarrow> u64 \<Rightarrow> u64 \<Rightarrow> memory \<Rightarrow> (u64 \<times> memory) option" where
  "realloc_large_grow sbrk h s ptr sz blk_size m =
     (let remainder = sz - blk_size;
          deadweight = (ucast (ALIGN_UP remainder SLAB_SIZE - remainder) :: u32);
          move = realloc_move sbrk h s ptr sz blk_size (int_large_block_free h s ptr) in
      if deadweight \<le> ucast REALLOC_MAX_DEADWEIGHT then do {
        let req_n_slabs = CEIL_DIV remainder SLAB_SIZE;
        s_size \<leftarrow> large_slab_get_size s m;
        let next_slab = slab_plus s s_size;
        hend \<leftarrow> heap_end h m;
        if next_slab = hend then do {
          let (ext, m) = sbrk (req_n_slabs * SLAB_SIZE) m;
          hend \<leftarrow> heap_end h m;
          _ \<leftarrow> malloc_assert (ext = hend);
          m \<leftarrow> store64 m (h + heap_heap_end) (slab_plus hend req_n_slabs);
          m \<leftarrow> large_slab_set_size s (s_size + req_n_slabs) m;
          Some (ptr, m)
        } else do {
          free \<leftarrow> slab_is_free next_slab m;
          num_slabs \<leftarrow> (if free then load64 m (next_slab + slab_num_slabs) else Some 0);
          if free \<and> req_n_slabs \<le> num_slabs then do {
            m \<leftarrow> large_slab_set_size s (s_size + req_n_slabs) m;
            m \<leftarrow> int_take_slab h next_slab req_n_slabs m;
            Some (ptr, m)
          } else move m
        }
      } else move m)"

definition realloc_large_shrink ::
  "sbrk_fn \<Rightarrow> u64 \<Rightarrow> u64 \<Rightarrow> u64 \<Rightarrow> u64 \<Rightarrow> u64 \<Rightarrow> u8 \<Rightarrow> memory \<Rightarrow> (u64 \<times> memory) option" where
  "realloc_large_shrink sbrk h s ptr sz blk_size blk_idx m =
     (let remainder = blk_size - sz;
          blk_hangover = blk_size AND NOT SLAB_SIZE_MASK;
          blk_offset = SLAB_SIZE - blk_hangover in
      if sz \<le> blk_hangover then do {
        m \<leftarrow> int_free_remainder_slab h (slab_plus s 1) (req_slabs_for_size blk_size - 1) m;
        m \<leftarrow> slab_set_flags (slab_plus s 1) SLAB_PREV_ALLOC_BIT m;
        m \<leftarrow> large_slab_set_size s 1 m;
        if MIN_MEDIUM_BLOCK_SZ \<le> blk_hangover - sz then do {
          let new_offset = blk_offset + sz;
          m \<leftarrow> medium_bin_append_offset s blk_idx new_offset m;
          m \<leftarrow> medium_bin_link h (s + new_offset) (SLAB_SIZE - new_offset) m;
          Some (ptr, m)
        } else Some (ptr, m)
      } else if remainder AND NOT SLAB_SIZE_MASK \<le> REALLOC_MAX_DEADWEIGHT then do {
        let slabs_to_free = remainder div SLAB_SIZE;
        let new_n_slabs = req_slabs_for_size sz;
        n \<leftarrow> large_slab_get_size s m;
        _ \<leftarrow> malloc_assert (new_n_slabs + slabs_to_free = n);
        m \<leftarrow> int_free_remainder_slab h (slab_plus s new_n_slabs) slabs_to_free m;
        m \<leftarrow> slab_set_flags (slab_plus s new_n_slabs) SLAB_PREV_ALLOC_BIT m;
        m \<leftarrow> large_slab_set_size s new_n_slabs m;
        Some (ptr, m)
      } else if REALLOC_MAX_DEADWEIGHT < remainder
      then realloc_move sbrk h s ptr sz sz (int_large_block_free h s ptr) m
      else Some (ptr, m))"

subsection \<open>Medium blocks\<close>

definition store_block_offs :: "u64 \<Rightarrow> u8 \<Rightarrow> u8 \<Rightarrow> memory \<Rightarrow> memory option" where
  "store_block_offs s i v m = store8 m (s + (slab_block_offs + ucast i)) v"

definition realloc_medium_shrink ::
  "u64 \<Rightarrow> u64 \<Rightarrow> u64 \<Rightarrow> u64 \<Rightarrow> u64 \<Rightarrow> u8 \<Rightarrow> memory \<Rightarrow> (u64 \<times> memory) option" where
  "realloc_medium_shrink h s ptr sz blk_size blk_idx m = do {
     offsets \<leftarrow> medium_bin_offsets s m;
     let blk_off = (ucast (medium_bin_get_offset offsets (ucast blk_idx)) :: u32);
     let next_off = (ucast (medium_bin_get_offset offsets (ucast blk_idx + 1)) :: u32);
     block_alloc \<leftarrow> load8 m (s + slab_block_alloc);
     if next_off \<noteq> ucast SLAB_SIZE \<and> drop_bit (unat blk_idx) (drop_bit 1 block_alloc) AND 1 = 0
     then do {
       let next_end = medium_bin_get_adj_offset offsets (ucast blk_idx + 2);
       let new_off = ucast blk_off + sz;
       m \<leftarrow> store_block_offs s blk_idx (ucast (new_off div MALLOC_ALIGN)) m;
       m \<leftarrow> medium_bin_unlink (s + ucast next_off) m;
       m \<leftarrow> medium_bin_link h (s + ucast blk_off + sz) (ucast next_end - new_off) m;
       Some (ptr, m)
     } else do {
       let remainder = (ucast (blk_size - sz) :: u32);
       if ucast MIN_MEDIUM_BLOCK_SZ \<le> remainder then do {
         let offset = (ucast (ptr - s + sz) :: u32);
         m \<leftarrow> medium_bin_split_block s blk_idx (ucast offset) m;
         m \<leftarrow> medium_bin_link h (s + ucast offset) (ucast remainder) m;
         Some (ptr, m)
       } else Some (ptr, m)
     }
   }"

text \<open>Growing in place; \<open>None\<close> as a result pointer means that the block has to move.\<close>

definition realloc_medium_grow ::
  "u64 \<Rightarrow> u64 \<Rightarrow> u64 \<Rightarrow> u64 \<Rightarrow> u64 \<Rightarrow> u8 \<Rightarrow> memory \<Rightarrow> (u64 option \<times> memory) option" where
  "realloc_medium_grow h s ptr sz blk_size blk_idx m = do {
     offsets \<leftarrow> medium_bin_offsets s m;
     let next_off = (ucast (medium_bin_get_offset offsets (ucast blk_idx + 1)) :: u32);
     let remainder = (ucast (sz - blk_size) :: u32);
     block_alloc \<leftarrow> load8 m (s + slab_block_alloc);
     let next_size = medium_bin_get_adj_offset offsets (ucast blk_idx + 2) - next_off;
     if next_off \<noteq> 0 \<and> drop_bit (unat blk_idx + 1) block_alloc AND 1 = 0 \<and> remainder \<le> next_size
     then do {
       let next_blk = s + ucast next_off;
       m \<leftarrow> medium_bin_unlink next_blk m;
       if next_size - remainder < ucast MIN_MEDIUM_BLOCK_SZ then do {
         m \<leftarrow> medium_bin_remove_offset s blk_idx m;
         Some (Some ptr, m)
       } else do {
         let next_off = next_off + remainder;
         m \<leftarrow> store_block_offs s blk_idx (ucast (next_off div ucast MALLOC_ALIGN)) m;
         m \<leftarrow> medium_bin_link h (next_blk + ucast remainder) (ucast (next_size - remainder)) m;
         Some (Some ptr, m)
       }
     } else Some (None, m)
   }"

subsection \<open>The dispatch\<close>

definition int_realloc :: "sbrk_fn \<Rightarrow> u64 \<Rightarrow> u64 \<Rightarrow> u64 \<Rightarrow> memory \<Rightarrow> (u64 \<times> memory) option" where
  "int_realloc sbrk h ptr sz m = do {
     let s = ptr_get_slab ptr;
     packed \<leftarrow> slab_is_packed s m;
     if packed then realloc_packed sbrk h s ptr sz m
     else if sz < MIN_MEDIUM_BLOCK_SZ
     then realloc_move sbrk h s ptr sz sz (int_large_block_free h s ptr) m
     else do {
       pos \<leftarrow> medium_bin_find_block_pos s ptr m;
       let blk_idx = (ucast pos :: u8);
       blk_size \<leftarrow> medium_bin_block_size s blk_idx m;
       if MIN_LARGE_BLOCK_SZ \<le> blk_size then
         if blk_size < sz then realloc_large_grow sbrk h s ptr sz blk_size m
         else realloc_large_shrink sbrk h s ptr sz blk_size blk_idx m
       else if sz \<le> blk_size then realloc_medium_shrink h s ptr sz blk_size blk_idx m
       else do {
         (res, m) \<leftarrow> (if sz \<le> MAX_MEDIUM_BLOCK_SZ
           then realloc_medium_grow h s ptr sz blk_size blk_idx m else Some (None, m));
         case res of
           Some p \<Rightarrow> Some (p, m)
         | None \<Rightarrow> realloc_move sbrk h s ptr sz blk_size (int_large_block_free h s ptr) m
       }
     }
   }"

definition mm_realloc :: "sbrk_fn \<Rightarrow> u64 \<Rightarrow> u64 \<Rightarrow> memory \<Rightarrow> (u64 \<times> memory) option" where
  "mm_realloc sbrk ptr sz m = do {
     let h = heap_ptr m;
     _ \<leftarrow> malloc_assert (h \<noteq> 0);
     let esize = ALIGN_UP sz MALLOC_ALIGN;
     if ptr = 0 then
       if esize = 0 then Some (0, m) else int_malloc sbrk h esize m
     else if esize = 0 then do {
       m \<leftarrow> int_free h ptr m;
       Some (0, m)
     } else int_realloc sbrk h ptr esize m
   }"

end
