(* ===== verification/Trace.thy ===== *)
theory Trace
  imports Prelude "HOL-Library.AList"
begin

section \<open>Traces\<close>

text \<open>
  The trace lines of \<^verbatim>\<open>proto/tracefile.proto\<close> as \<^verbatim>\<open>src/tracefile_executor.h\<close> and
  \<^verbatim>\<open>src/local_id_map.cc\<close> read them, and \<^verbatim>\<open>RewriteIdsToUnique\<close>. An optional field is an
  \<open>option\<close>; reading an unset field yields the protobuf default 0. A hash map is an
  association list whose keys are distinct; an \<^verbatim>\<open>absl::Status\<close> is a value of \<open>error\<close>.
\<close>

type_synonym ptr = u64

record malloc_line =
  malloc_result_id :: "u64 option"
  malloc_input_size :: "u64 option"
  malloc_input_alignment :: "u64 option"

record calloc_line =
  calloc_result_id :: "u64 option"
  calloc_input_nmemb :: "u64 option"
  calloc_input_size :: "u64 option"

record realloc_line =
  realloc_result_id :: "u64 option"
  realloc_input_id :: "u64 option"
  realloc_input_size :: "u64 option"

record free_line =
  free_input_id :: "u64 option"
  free_input_size_hint :: "u64 option"
  free_input_alignment_hint :: "u64 option"

datatype trace_line =
    kMalloc malloc_line
  | kCalloc calloc_line
  | kRealloc realloc_line
  | kFree free_line
  | OP_NOT_SET

definition field :: "u64 option \<Rightarrow> u64" where
  "field x = (case x of Some v \<Rightarrow> v | None \<Rightarrow> 0)"

lemma field_simps [simp]: "field (Some v) = v" "field None = 0"
  by (simp_all add: field_def)

datatype error =
    Duplicate_result_id u64
  | Unknown_realloc u64
  | Unknown_free u64
  | Op_not_set
  | Not_all_freed
  | No_allocation u64
  | Duplicate_unique_id u64
  | Erase_failed u64
  | Insert_failed u64
  | Failed string "u64 list"  \<comment> \<open>a message of the checkers and its arguments\<close>
  | Ended "int option"  \<comment> \<open>no status: the process called \<^verbatim>\<open>exit\<close> or was killed by a signal\<close>

type_synonym 'a status_or = "error + 'a"

text \<open>The end of the process is no \<^verbatim>\<open>absl::Status\<close>: nothing that follows is run.\<close>

fun ended :: "'a status_or \<Rightarrow> bool" where
  "ended (Inl (Ended _)) = True"
| "ended _ = False"

lemma ended_iff: "ended r \<longleftrightarrow> (\<exists>c. r = Inl (Ended c))"
  by (cases r rule: ended.cases) simp_all

fun status_bind :: "'a status_or \<Rightarrow> ('a \<Rightarrow> 'b status_or) \<Rightarrow> 'b status_or" where
  "status_bind (Inl e) f = Inl e"
| "status_bind (Inr a) f = f a"

lemma status_bind_eq_Inr: "status_bind x f = Inr b \<longleftrightarrow> (\<exists>a. x = Inr a \<and> f a = Inr b)"
  by (cases x) simp_all

text \<open>The ids a line consumes and produces (\<^verbatim>\<open>LocalIdMap::InputAndResultIds\<close>).\<close>

fun InputAndResultIds :: "trace_line \<Rightarrow> u64 option \<times> u64 option" where
  "InputAndResultIds (kMalloc l) = (None, malloc_result_id l)"
| "InputAndResultIds (kCalloc l) = (None, calloc_result_id l)"
| "InputAndResultIds (kRealloc l) = (realloc_input_id l, Some (field (realloc_result_id l)))"
| "InputAndResultIds (kFree l) = (free_input_id l, None)"
| "InputAndResultIds OP_NOT_SET = (None, None)"

fun SetInputId :: "trace_line \<Rightarrow> u64 \<Rightarrow> trace_line" where
  "SetInputId (kRealloc l) i = kRealloc (l\<lparr>realloc_input_id := Some i\<rparr>)"
| "SetInputId (kFree l) i = kFree (l\<lparr>free_input_id := Some i\<rparr>)"
| "SetInputId l i = l"

fun SetResultId :: "trace_line \<Rightarrow> u64 \<Rightarrow> trace_line" where
  "SetResultId (kMalloc l) i = kMalloc (l\<lparr>malloc_result_id := Some i\<rparr>)"
| "SetResultId (kCalloc l) i = kCalloc (l\<lparr>calloc_result_id := Some i\<rparr>)"
| "SetResultId (kRealloc l) i = kRealloc (l\<lparr>realloc_result_id := Some i\<rparr>)"
| "SetResultId l i = l"

abbreviation input_id :: "trace_line \<Rightarrow> u64 option" where "input_id l \<equiv> fst (InputAndResultIds l)"
abbreviation result_id :: "trace_line \<Rightarrow> u64 option" where "result_id l \<equiv> snd (InputAndResultIds l)"

subsection \<open>\<^verbatim>\<open>RewriteIdsToUnique\<close>\<close>

text \<open>The state of the loop: \<^verbatim>\<open>next_id\<close> and \<^verbatim>\<open>new_id_map\<close>.\<close>

type_synonym id_map = "(u64 \<times> (u64 \<times> u64)) list"

definition rewrite_result :: "u64 \<Rightarrow> u64 \<Rightarrow> u64 \<times> id_map \<Rightarrow> (u64 \<times> id_map) status_or" where
  "rewrite_result i sz st = (case st of (next_id, m) \<Rightarrow>
     if map_of m i = None then Inr (next_id + 1, (i, (next_id, sz)) # m)
     else Inl (Duplicate_result_id i))"

fun rewrite_line :: "u64 \<times> id_map \<Rightarrow> trace_line \<Rightarrow> ((u64 \<times> id_map) \<times> trace_line) status_or" where
  "rewrite_line (next_id, m) (kMalloc l) =
     (case malloc_result_id l of
        None \<Rightarrow> Inr ((next_id, m), kMalloc l)
      | Some i \<Rightarrow> status_bind (rewrite_result i (field (malloc_input_size l)) (next_id, m))
          (\<lambda>st. Inr (st, kMalloc (l\<lparr>malloc_result_id := Some next_id\<rparr>))))"
| "rewrite_line (next_id, m) (kCalloc l) =
     (case calloc_result_id l of
        None \<Rightarrow> Inr ((next_id, m), kCalloc l)
      | Some i \<Rightarrow> status_bind
          (rewrite_result i (field (calloc_input_nmemb l) * field (calloc_input_size l)) (next_id, m))
          (\<lambda>st. Inr (st, kCalloc (l\<lparr>calloc_result_id := Some next_id\<rparr>))))"
| "rewrite_line (next_id, m) (kRealloc l) =
     status_bind
       (case realloc_input_id l of
          None \<Rightarrow> Inr (m, l)
        | Some i \<Rightarrow> (case map_of m i of
              None \<Rightarrow> Inl (Unknown_realloc i)
            | Some (j, sz) \<Rightarrow> Inr (AList.delete i m, l\<lparr>realloc_input_id := Some j\<rparr>)))
       (\<lambda>(m, l). status_bind
          (rewrite_result (field (realloc_result_id l)) (field (realloc_input_size l)) (next_id, m))
          (\<lambda>st. Inr (st, kRealloc (l\<lparr>realloc_result_id := Some next_id\<rparr>))))"
| "rewrite_line (next_id, m) (kFree l) =
     (case free_input_id l of
        None \<Rightarrow> Inr ((next_id, m), kFree l)
      | Some i \<Rightarrow> (case map_of m i of
            None \<Rightarrow> Inl (Unknown_free i)
          | Some (j, sz) \<Rightarrow> Inr ((next_id, AList.delete i m), kFree (l\<lparr>free_input_id := Some j\<rparr>))))"
| "rewrite_line (next_id, m) OP_NOT_SET = Inl Op_not_set"

fun rewrite_lines :: "u64 \<times> id_map \<Rightarrow> trace_line list \<Rightarrow> ((u64 \<times> id_map) \<times> trace_line list) status_or" where
  "rewrite_lines st [] = Inr (st, [])"
| "rewrite_lines st (l # ls) =
     status_bind (rewrite_line st l) (\<lambda>(st, l').
       status_bind (rewrite_lines st ls) (\<lambda>(st, ls'). Inr (st, l' # ls')))"

definition RewriteIdsToUnique :: "trace_line list \<Rightarrow> trace_line list status_or" where
  "RewriteIdsToUnique ls =
     status_bind (rewrite_lines (0, []) ls) (\<lambda>((next_id, m), ls').
       if m \<noteq> [] then Inl Not_all_freed else Inr ls')"

subsection \<open>One rule for all lines\<close>

fun alloc_size :: "trace_line \<Rightarrow> u64" where
  "alloc_size (kMalloc l) = field (malloc_input_size l)"
| "alloc_size (kCalloc l) = field (calloc_input_nmemb l) * field (calloc_input_size l)"
| "alloc_size (kRealloc l) = field (realloc_input_size l)"
| "alloc_size l = 0"

fun unknown_id :: "trace_line \<Rightarrow> u64 \<Rightarrow> error" where
  "unknown_id (kRealloc l) i = Unknown_realloc i"
| "unknown_id l i = Unknown_free i"

definition consume :: "trace_line \<Rightarrow> id_map \<Rightarrow> (id_map \<times> trace_line) status_or" where
  "consume l m = (case input_id l of
     None \<Rightarrow> Inr (m, l)
   | Some i \<Rightarrow> (case map_of m i of
         None \<Rightarrow> Inl (unknown_id l i)
       | Some (j, sz) \<Rightarrow> Inr (AList.delete i m, SetInputId l j)))"

definition produce :: "trace_line \<Rightarrow> u64 \<Rightarrow> id_map \<Rightarrow> trace_line \<Rightarrow> ((u64 \<times> id_map) \<times> trace_line) status_or" where
  "produce l n m l1 = (case result_id l of
     None \<Rightarrow> Inr ((n, m), l1)
   | Some r \<Rightarrow> if map_of m r = None then Inr ((n + 1, (r, (n, alloc_size l)) # m), SetResultId l1 n)
       else Inl (Duplicate_result_id r))"

lemma rewrite_line_eq:
  "rewrite_line (n, m) l = (if l = OP_NOT_SET then Inl Op_not_set
     else status_bind (consume l m) (\<lambda>(m1, l1). produce l n m1 l1))"
  by (cases l) (auto simp: consume_def produce_def rewrite_result_def split: option.splits)

lemma SetId_ids [simp]:
  "input_id (SetInputId l i) = (if input_id l = None then (case l of kRealloc _ \<Rightarrow> Some i | kFree _ \<Rightarrow> Some i | _ \<Rightarrow> None) else Some i)"
  "result_id (SetInputId l i) = result_id l"
  "input_id (SetResultId l i) = input_id l"
  "result_id l = Some r \<Longrightarrow> result_id (SetResultId l i) = Some i"
  by (cases l; simp)+

lemma consume_result:
  assumes "consume l m = Inr (m1, l1)"
  shows "result_id l1 = result_id l" "alloc_size l1 = alloc_size l" "l1 = OP_NOT_SET \<longleftrightarrow> l = OP_NOT_SET"
    "input_id l1 = map_option (\<lambda>i. fst (the (map_of m i))) (input_id l)"
    "input_id l = Some i \<Longrightarrow> map_of m i \<noteq> None"
    "m1 = (case input_id l of None \<Rightarrow> m | Some i \<Rightarrow> AList.delete i m)"
  using assms by (cases l; auto simp: consume_def split: option.splits prod.splits)+

lemma produce_result:
  assumes "produce l n m l1 = Inr (st, l')" and "result_id l1 = result_id l"
  shows "input_id l' = input_id l1" "result_id l' = map_option (\<lambda>_. n) (result_id l)"
    "l' = OP_NOT_SET \<longleftrightarrow> l1 = OP_NOT_SET" "alloc_size l' = alloc_size l1"
    "result_id l = Some r \<Longrightarrow> map_of m r = None"
    "st = (case result_id l of None \<Rightarrow> (n, m) | Some r \<Rightarrow> (n + 1, (r, (n, alloc_size l)) # m))"
  using assms by (cases l1; auto simp: produce_def split: option.splits if_splits)+

text \<open>The discipline that a trace has to follow: what is live after a line.\<close>

definition live_step :: "u64 set \<Rightarrow> trace_line \<Rightarrow> u64 set option" where
  "live_step L l = (if l = OP_NOT_SET \<or> \<not> set_option (input_id l) \<subseteq> L then None
     else let L1 = L - set_option (input_id l) in
       if set_option (result_id l) \<inter> L1 \<noteq> {} then None else Some (L1 \<union> set_option (result_id l)))"

fun live_run :: "u64 set \<Rightarrow> trace_line list \<Rightarrow> u64 set option" where
  "live_run L [] = Some L"
| "live_run L (l # ls) = Option.bind (live_step L l) (\<lambda>L'. live_run L' ls)"

lemma live_run_append: "live_run L (xs @ ys) = Option.bind (live_run L xs) (\<lambda>L. live_run L ys)"
  by (induction xs arbitrary: L) (auto split: Option.bind_split simp: Option.bind_assoc)

text \<open>Every id is allocated while it is not live, consumed while it is live, and freed in the end.\<close>

definition trace_ok :: "trace_line list \<Rightarrow> bool" where
  "trace_ok ls \<longleftrightarrow> live_run {} ls = Some {}"

lemma delete_filter: "AList.delete k m = filter (\<lambda>q. fst q \<noteq> k) m"
  by (induction m) auto

lemma delete_fst: "fst ` set (AList.delete k m) = fst ` set m - {k}"
  using arg_cong [OF AList.delete_keys [of k m], of set] by (simp only: set_map set_removeAll)

lemma rewrite_line_live:
  assumes "distinct (map fst m)"
  shows "(case rewrite_line (n, m) l of Inl e \<Rightarrow> live_step (fst ` set m) l = None
     | Inr ((n', m'), l') \<Rightarrow> live_step (fst ` set m) l = Some (fst ` set m') \<and> distinct (map fst m'))"
proof (cases "l = OP_NOT_SET")
  case False
  show ?thesis
  proof (cases "consume l m")
    case (Inl e)
    then show ?thesis
      using False by (auto simp: rewrite_line_eq consume_def live_step_def map_of_eq_None_iff split: option.splits)
  next
    case (Inr p)
    obtain m1 l1 where p: "p = (m1, l1)" by (cases p)
    note c = consume_result [OF Inr [unfolded p]]
    have m1: "fst ` set m1 = fst ` set m - set_option (input_id l)" "distinct (map fst m1)"
      using c(6) assms by (auto simp: delete_fst AList.distinct_delete split: option.splits)
    have "set_option (input_id l) \<subseteq> fst ` set m" using c(5) by (auto simp: map_of_eq_None_iff)
    then show ?thesis
      using False Inr p m1 by (auto simp: rewrite_line_eq produce_def live_step_def map_of_eq_None_iff split: option.splits if_splits)
  qed
qed (simp add: live_step_def rewrite_line_eq)

lemma rewrite_lines_live:
  assumes "distinct (map fst m)"
  shows "(case rewrite_lines (n, m) ls of Inl e \<Rightarrow> live_run (fst ` set m) ls = None
     | Inr ((n', m'), ls') \<Rightarrow> live_run (fst ` set m) ls = Some (fst ` set m') \<and> distinct (map fst m'))"
  using assms
proof (induction ls arbitrary: n m)
  case (Cons l ls)
  note h = rewrite_line_live [OF Cons.prems, where n = n and l = l]
  show ?case
  proof (cases "rewrite_line (n, m) l")
    case (Inl e)
    then show ?thesis using h by simp
  next
    case (Inr p)
    obtain n1 m1 l' where p: "p = ((n1, m1), l')" by (metis surj_pair)
    have d: "distinct (map fst m1)" and s: "live_step (fst ` set m) l = Some (fst ` set m1)"
      using h Inr p by simp_all
    from Cons.IH [OF d, where n = n1] show ?thesis
      using Inr p s by (cases "rewrite_lines (n1, m1) ls") auto
  qed
qed simp

subsection \<open>The same trace with other ids\<close>

fun strip_ids :: "trace_line \<Rightarrow> trace_line" where
  "strip_ids (kMalloc l) = kMalloc (l\<lparr>malloc_result_id := None\<rparr>)"
| "strip_ids (kCalloc l) = kCalloc (l\<lparr>calloc_result_id := None\<rparr>)"
| "strip_ids (kRealloc l) = kRealloc (l\<lparr>realloc_result_id := None, realloc_input_id := None\<rparr>)"
| "strip_ids (kFree l) = kFree (l\<lparr>free_input_id := None\<rparr>)"
| "strip_ids OP_NOT_SET = OP_NOT_SET"

text \<open>
  \<open>R\<close> pairs the live ids of the two traces. Corresponding lines are the same but for their
  ids, consume paired ids and produce a new pair.
\<close>

definition retire :: "'a option \<Rightarrow> 'b option \<Rightarrow> ('a \<times> 'b) set \<Rightarrow> ('a \<times> 'b) set" where
  "retire a b R = {p \<in> R. Some (fst p) \<noteq> a \<and> Some (snd p) \<noteq> b}"

definition enter :: "'a option \<Rightarrow> 'b option \<Rightarrow> ('a \<times> 'b) set \<Rightarrow> ('a \<times> 'b) set" where
  "enter a b R = (case (a, b) of (Some x, Some y) \<Rightarrow> insert (x, y) (retire a b R) | _ \<Rightarrow> R)"

fun same_trace :: "(u64 \<times> u64) set \<Rightarrow> trace_line list \<Rightarrow> trace_line list \<Rightarrow> bool" where
  "same_trace R [] [] = True"
| "same_trace R (l # ls) (l' # ls') = (strip_ids l = strip_ids l'
     \<and> rel_option (\<lambda>i j. (i, j) \<in> R) (input_id l) (input_id l')
     \<and> (result_id l = None \<longleftrightarrow> result_id l' = None)
     \<and> same_trace (enter (result_id l) (result_id l') (retire (input_id l) (input_id l') R)) ls ls')"
| "same_trace R _ _ = False"

lemma strip_SetId [simp]: "strip_ids (SetInputId l i) = strip_ids l" "strip_ids (SetResultId l i) = strip_ids l"
  by (cases l; simp)+

lemma SetId_idem [simp]:
  "input_id l = Some i \<Longrightarrow> SetInputId l i = l" "SetResultId (SetResultId l i) i = SetResultId l i"
  by (cases l; simp)+

text \<open>The ids handed out are \<open>0, 1, \<dots>\<close>, and the live ones are paired one to one.\<close>

definition rewrite_inv :: "nat \<Rightarrow> u64 \<Rightarrow> id_map \<Rightarrow> bool" where
  "rewrite_inv k n m \<longleftrightarrow> n = of_nat k \<and> distinct (map fst m) \<and> distinct (map (\<lambda>p. fst (snd p)) m)
     \<and> (\<forall>p\<in>set m. unat (fst (snd p)) < k)"

definition pairs :: "id_map \<Rightarrow> (u64 \<times> u64) set" where
  "pairs m = (\<lambda>p. (fst p, fst (snd p))) ` set m"

definition renamed :: "id_map \<Rightarrow> id_map" where
  "renamed m = map (\<lambda>p. (fst (snd p), snd p)) m"

lemma rewrite_inv_unique:
  assumes "rewrite_inv k n m" "p \<in> set m" "q \<in> set m"
  shows "fst p = fst q \<Longrightarrow> p = q" "fst (snd p) = fst (snd q) \<Longrightarrow> p = q"
  using assms by (auto simp: rewrite_inv_def distinct_map dest: inj_onD)

lemma rewrite_inv_delete:
  assumes inv: "rewrite_inv k n m" and i: "map_of m i = Some (j, s)"
  shows "rewrite_inv k n (AList.delete i m)" "pairs (AList.delete i m) = retire (Some i) (Some j) (pairs m)"
    "map_of (renamed m) j = Some (j, s)" "AList.delete j (renamed m) = renamed (AList.delete i m)"
proof -
  have p: "(i, (j, s)) \<in> set m" using i by (rule map_of_SomeD)
  note u = rewrite_inv_unique [OF inv _ p]
  note del = delete_filter [of i m]
  show "rewrite_inv k n (AList.delete i m)"
    using inv unfolding del rewrite_inv_def by (auto simp: distinct_map_filter)
  have q: "fst q = i \<longleftrightarrow> fst (snd q) = j" if "q \<in> set m" for q using u [OF that] by (metis fst_conv snd_conv)
  show "pairs (AList.delete i m) = retire (Some i) (Some j) (pairs m)"
    unfolding del pairs_def retire_def using q by fastforce
  have "distinct (map fst (renamed m))" "(j, (j, s)) \<in> set (renamed m)"
    using inv p by (force simp: renamed_def rewrite_inv_def comp_def)+
  then show "map_of (renamed m) j = Some (j, s)" by (rule map_of_is_SomeI)
  have "AList.delete j (renamed m) = map (\<lambda>p. (fst (snd p), snd p)) (filter (\<lambda>p. fst (snd p) \<noteq> j) m)"
    by (simp add: renamed_def delete_filter filter_map comp_def)
  also have "\<dots> = renamed (AList.delete i m)"
    unfolding del renamed_def by (intro arg_cong [where f = "map _"] filter_cong) (use q in auto)
  finally show "AList.delete j (renamed m) = renamed (AList.delete i m)" .
qed

lemma rewrite_inv_insert:
  assumes inv: "rewrite_inv k n m" and r: "map_of m r = None" and k: "k < 2 ^ 64"
  shows "rewrite_inv (Suc k) (n + 1) ((r, (n, s)) # m)"
    "pairs ((r, (n, s)) # m) = enter (Some r) (Some n) (pairs m)" "map_of (renamed m) n = None"
proof -
  have n: "unat n = k" using inv k by (simp add: rewrite_inv_def unat_of_nat)
  have new: "fst (snd p) \<noteq> n" if "p \<in> set m" for p using inv that n by (auto simp: rewrite_inv_def)
  have rm: "fst p \<noteq> r" if "p \<in> set m" for p using r that by (auto simp: map_of_eq_None_iff)
  have no: "(a, n, b) \<notin> set m" "(r, p) \<notin> set m" for a b p using new rm by fastforce+
  show "rewrite_inv (Suc k) (n + 1) ((r, (n, s)) # m)"
  proof -
    have "r \<notin> fst ` set m" "n \<notin> (\<lambda>p. fst (snd p)) ` set m" using rm new by fastforce+
    then show ?thesis using inv n by (auto simp: rewrite_inv_def less_Suc_eq add.commute simp del: image_iff)
  qed
  show "pairs ((r, (n, s)) # m) = enter (Some r) (Some n) (pairs m)"
    using no by (auto simp: pairs_def enter_def retire_def)
  show "map_of (renamed m) n = None" using no by (auto simp: renamed_def map_of_eq_None_iff)
qed


lemma SetInputId_None: "input_id l = None \<longleftrightarrow> consume l m = Inr (m, l) \<and> input_id l = None"
  by (auto simp: consume_def)

text \<open>One line: the pairing is extended, and rewriting the rewritten line changes nothing.\<close>

lemma rewrite_line_step:
  assumes inv: "rewrite_inv k n m" and k: "k < 2 ^ 64" and r: "rewrite_line (n, m) l = Inr ((n', m'), l')"
  shows "rewrite_inv (case result_id l of None \<Rightarrow> k | Some _ \<Rightarrow> Suc k) n' m'"
    and "strip_ids l = strip_ids l'" and "rel_option (\<lambda>i j. (i, j) \<in> pairs m) (input_id l) (input_id l')"
    and "result_id l' = map_option (\<lambda>_. of_nat k) (result_id l)"
    and "pairs m' = enter (result_id l) (result_id l') (retire (input_id l) (input_id l') (pairs m))"
    and "rewrite_line (n, renamed m) l' = Inr ((n', renamed m'), l')"
proof -
  have l: "l \<noteq> OP_NOT_SET" using r by (auto simp: rewrite_line_eq)
  obtain m1 l1 where c: "consume l m = Inr (m1, l1)" and p: "produce l n m1 l1 = Inr ((n', m'), l')"
    using r l by (auto simp: rewrite_line_eq status_bind_eq_Inr)
  have nk: "n = of_nat k" using inv by (simp add: rewrite_inv_def)
  note cr = consume_result [OF c] and pr = produce_result [OF p cr(1)]
  have s1: "strip_ids l = strip_ids l1" using c by (auto simp: consume_def split: option.splits)
  have s2: "strip_ids l1 = strip_ids l'" using p by (auto simp: produce_def split: option.splits if_splits)
  have A: "rewrite_inv k n m1 \<and> pairs m1 = retire (input_id l) (input_id l') (pairs m)
    \<and> rel_option (\<lambda>i j. (i, j) \<in> pairs m) (input_id l) (input_id l')
    \<and> consume l' (renamed m) = Inr (renamed m1, l')"
  proof (cases "input_id l")
    case None
    then have "input_id l' = None" "m1 = m" using cr(4,6) pr(1) by simp_all
    then show ?thesis using inv None by (auto simp: retire_def consume_def)
  next
    case (Some i)
    then obtain j s where m: "map_of m i = Some (j, s)" using cr(5) by fastforce
    have i': "input_id l' = Some j" and m1: "m1 = AList.delete i m" using cr(4,6) pr(1) Some m by simp_all
    note d = rewrite_inv_delete [OF inv m]
    have "(i, j) \<in> pairs m" using map_of_SomeD [OF m] by (force simp: pairs_def)
    moreover have "consume l' (renamed m) = Inr (renamed m1, l')"
      using d(3,4) i' m1 by (simp add: consume_def)
    ultimately show ?thesis using d(1,2) Some i' m1 by simp
  qed
  have B: "rewrite_inv (case result_id l of None \<Rightarrow> k | Some _ \<Rightarrow> Suc k) n' m'
    \<and> pairs m' = enter (result_id l) (result_id l') (pairs m1)
    \<and> produce l' n (renamed m1) l' = Inr ((n', renamed m'), l')"
  proof (cases "result_id l")
    case None
    then show ?thesis using A p pr(2) by (auto simp: produce_def enter_def)
  next
    case (Some q)
    note d = rewrite_inv_insert [OF conjunct1 [OF A] pr(5) [OF Some] k]
    have e: "n' = n + 1" "m' = (q, (n, alloc_size l)) # m1" using pr(6) Some by simp_all
    have l': "result_id l' = Some n" "SetResultId l' n = l'" "alloc_size l' = alloc_size l"
      using pr(2,4) cr(2) p Some by (auto simp: produce_def split: if_splits)
    have "produce l' n (renamed m1) l' = Inr ((n', renamed m'), l')"
      using d(3) l' e by (simp add: produce_def renamed_def)
    then show ?thesis using d(1,2) [of "alloc_size l"] Some l' e by simp
  qed
  show "rewrite_line (n, renamed m) l' = Inr ((n', renamed m'), l')"
    using A B l cr(3) pr(3) by (auto simp: rewrite_line_eq)
  show "rewrite_inv (case result_id l of None \<Rightarrow> k | Some _ \<Rightarrow> Suc k) n' m'"
    "pairs m' = enter (result_id l) (result_id l') (retire (input_id l) (input_id l') (pairs m))"
    using A B by simp_all
  show "strip_ids l = strip_ids l'" "rel_option (\<lambda>i j. (i, j) \<in> pairs m) (input_id l) (input_id l')"
    "result_id l' = map_option (\<lambda>_. of_nat k) (result_id l)"
    using s1 s2 A pr(2) nk by simp_all
qed

fun result_ids :: "trace_line list \<Rightarrow> u64 list" where
  "result_ids [] = []"
| "result_ids (l # ls) = (case result_id l of None \<Rightarrow> result_ids ls | Some r \<Rightarrow> r # result_ids ls)"

lemma rewrite_lines_run:
  assumes "rewrite_inv k n m" "k + length ls < 2 ^ 64" "rewrite_lines (n, m) ls = Inr ((n', m'), ls')"
  shows "same_trace (pairs m) ls ls'" "result_ids ls' = map of_nat [k..<k + length (result_ids ls)]"
    "rewrite_lines (n, renamed m) ls' = Inr ((n', renamed m'), ls')"
proof -
  have "same_trace (pairs m) ls ls' \<and> result_ids ls' = map of_nat [k..<k + length (result_ids ls)]
    \<and> rewrite_lines (n, renamed m) ls' = Inr ((n', renamed m'), ls')"
    using assms
  proof (induction ls arbitrary: k n m ls')
    case (Cons l ls)
    obtain n1 m1 l1 ls1 where r: "rewrite_line (n, m) l = Inr ((n1, m1), l1)"
      "rewrite_lines (n1, m1) ls = Inr ((n', m'), ls1)" "ls' = l1 # ls1"
      using Cons.prems(3) by (auto simp: status_bind_eq_Inr)
    have k: "k < 2 ^ 64" using Cons.prems(2) by simp
    note st = rewrite_line_step [OF Cons.prems(1) k r(1)]
    let ?k = "case result_id l of None \<Rightarrow> k | Some _ \<Rightarrow> Suc k"
    have "?k + length ls < 2 ^ 64" using Cons.prems(2) by (auto split: option.split)
    from Cons.IH [OF st(1) this r(2)] show ?case
      using st(2,3,4,5,6) r(3) by (auto split: option.splits simp: upt_rec [of k])
  qed (simp add: renamed_def)
  then show "same_trace (pairs m) ls ls'" "result_ids ls' = map of_nat [k..<k + length (result_ids ls)]"
    "rewrite_lines (n, renamed m) ls' = Inr ((n', renamed m'), ls')" by blast+
qed

subsection \<open>The whole trace\<close>

lemma rewrite_ok_iff: "(\<exists>ls'. RewriteIdsToUnique ls = Inr ls') \<longleftrightarrow> trace_ok ls"
  using rewrite_lines_live [where m = "[]" and n = 0 and ls = ls]
  by (cases "rewrite_lines (0, []) ls") (auto simp: RewriteIdsToUnique_def trace_ok_def split: if_splits)

lemma rewrite_inv_0: "rewrite_inv 0 0 []"
  by (simp add: rewrite_inv_def)

lemma rewrite_same:
  assumes "RewriteIdsToUnique ls = Inr ls'" and "length ls < 2 ^ 64"
  shows "same_trace {} ls ls' \<and> result_ids ls' = map of_nat [0..<length (result_ids ls)]"
proof -
  obtain n where r: "rewrite_lines (0, []) ls = Inr ((n, []), ls')"
    using assms(1) by (auto simp: RewriteIdsToUnique_def status_bind_eq_Inr split: if_splits)
  show ?thesis using rewrite_lines_run(1,2) [OF rewrite_inv_0 _ r] assms(2) by (simp add: pairs_def)
qed

lemma rewrite_again:
  assumes "RewriteIdsToUnique ls = Inr ls'" and "length ls < 2 ^ 64"
  shows "RewriteIdsToUnique ls' = Inr ls'"
proof -
  obtain n where r: "rewrite_lines (0, []) ls = Inr ((n, []), ls')"
    using assms(1) by (auto simp: RewriteIdsToUnique_def status_bind_eq_Inr split: if_splits)
  show ?thesis
    using rewrite_lines_run(3) [OF rewrite_inv_0 _ r] assms(2) by (simp add: renamed_def RewriteIdsToUnique_def)
qed

end
