(* ===== verification/Trace_Parser.thy ===== *)
theory Trace_Parser
  imports Trace "HOL-Library.Multiset"
begin

section \<open>Parsing a log of allocator calls\<close>

text \<open>
  \<^verbatim>\<open>src/tracefile_parser.cc\<close> turns the output of \<^verbatim>\<open>valgrind --trace-malloc=yes\<close> into a trace: the
  pointers of the log become ids, the smallest free one first, and what is still allocated at
  the end of the log is freed. RE2's \<^verbatim>\<open>PartialMatch\<close>, which yields the captured groups, absl's
  \<^verbatim>\<open>SimpleAtoi\<close> and \<^verbatim>\<open>SimpleHexAtoi\<close> and the iteration order of \<^verbatim>\<open>flat_hash_map\<close> are third-party
  code and the fields of \<open>parser_env\<close>.
\<close>

record parser_env =
  PartialMatch :: "string \<Rightarrow> string \<Rightarrow> string list option"
  SimpleAtoi_int32 :: "string \<Rightarrow> 32 word option"
  SimpleAtoi_size_t :: "string \<Rightarrow> u64 option"
  SimpleHexAtoi :: "string \<Rightarrow> u64 option"
  hash_order :: "(ptr \<times> u64) list \<Rightarrow> (ptr \<times> u64) list"

text \<open>The patterns, as the code writes them; \<open>!\<close> stands for the backslash of the raw literals.\<close>

definition raw :: "string \<Rightarrow> string" where
  "raw s = map (\<lambda>c. if c = CHR ''!'' then CHR 0x5C else c) s"

definition kFreeRegex :: string where
  \<open>kFreeRegex = raw ''--(!d+)-- (?:free|_ZdlPv|_ZdaPv|_ZdlPvm|_ZdaPvm|_ZdlPvSt11align_val_t)!(0x([0-9A-Fa-f]+)!)''\<close>
definition kMallocRegex :: string where
  \<open>kMallocRegex = raw ''--(!d+)-- (?:malloc|_Znwm|_Znam|_ZnwmRKSt9nothrow_t)!((!d+)!) = 0x([0-9A-Fa-f]+)''\<close>
definition kMemalignAllocRegex :: string where
  \<open>kMemalignAllocRegex = raw ''--(!d+)-- (?:memalign)!(al (!d+), size (!d+)!) = 0x([0-9A-Fa-f]+)''\<close>
definition kAlignedAllocRegex :: string where
  \<open>kAlignedAllocRegex = raw ''--(!d+)-- (?:_ZnwmSt11align_val_t)!(size (!d+), al (!d+)!) = 0x([0-9A-Fa-f]+)''\<close>
definition kCallocRegex :: string where
  \<open>kCallocRegex = raw ''--(!d+)-- calloc!((!d+),(!d+)!) = 0x([0-9A-Fa-f]+)''\<close>
definition kReallocRegex :: string where
  \<open>kReallocRegex = raw ''--(!d+)-- realloc!(0x([0-9A-Fa-f]+),(!d+)!)(?:malloc!(!d+!))? = 0x([0-9A-Fa-f]+)''\<close>

text \<open>The variables of \<^verbatim>\<open>Open\<close>; \<^verbatim>\<open>available_ids\<close> is a sorted list, as the tree set iterates it.\<close>

record parser =
  lines_out :: "trace_line list"
  required_pid :: "32 word option"
  ptr_ids :: "(ptr \<times> u64) list"
  available_ids :: "u64 list"
  next_id :: u64
  max_allocs :: u64

definition parser_init :: parser where
  "parser_init = \<lparr>lines_out = [], required_pid = None, ptr_ids = [], available_ids = [],
     next_id = 0, max_allocs = 0\<rparr>"

definition get_next_id :: "ptr \<Rightarrow> parser \<Rightarrow> (u64 \<times> parser) status_or" where
  "get_next_id p st =
     (let (i, st) = (case available_ids st of
          [] \<Rightarrow> (next_id st, st\<lparr>next_id := next_id st + 1\<rparr>)
        | i # is' \<Rightarrow> (i, st\<lparr>available_ids := is'\<rparr>))
      in if map_of (ptr_ids st) p \<noteq> None then Inl (Failed ''Allocated duplicate pointer'' [p])
         else Inr (i, st\<lparr>ptr_ids := (p, i) # ptr_ids st\<rparr>))"

definition find_and_erase_id :: "ptr \<Rightarrow> parser \<Rightarrow> (u64 \<times> parser) status_or" where
  "find_and_erase_id p st = (case map_of (ptr_ids st) p of
     None \<Rightarrow> Inl (Failed ''Tracefile frees unallocated ptr'' [p])
   | Some i \<Rightarrow>
       if i \<in> set (available_ids st) then Inl (Failed ''assert(inserted)'' [i])
       else Inr (i, st\<lparr>ptr_ids := AList.delete p (ptr_ids st), available_ids := insort i (available_ids st)\<rparr>))"

definition ParsePid :: "parser_env \<Rightarrow> string \<Rightarrow> 32 word status_or" where
  "ParsePid env s = (case SimpleAtoi_int32 env s of
     None \<Rightarrow> Inl (Failed (''failed to parse '' @ s @ '' as int32'') []) | Some pid \<Rightarrow> Inr pid)"

definition ParsePtr :: "parser_env \<Rightarrow> string \<Rightarrow> ptr status_or" where
  "ParsePtr env s = (case SimpleHexAtoi env s of
     None \<Rightarrow> Inl (Failed (''failed to parse 0x'' @ s @ '' as void*'') []) | Some p \<Rightarrow> Inr p)"

definition ParseSize :: "parser_env \<Rightarrow> string \<Rightarrow> u64 status_or" where
  "ParseSize env s = (case SimpleAtoi_size_t env s of
     None \<Rightarrow> Inl (Failed (''failed to parse '' @ s @ '' as size_t'') []) | Some n \<Rightarrow> Inr n)"

subsection \<open>The cases of a line\<close>

type_synonym parsed = "32 word \<times> trace_line \<times> parser"

definition parse_free :: "parser_env \<Rightarrow> string list \<Rightarrow> parser \<Rightarrow> parsed status_or" where
  "parse_free env ms st =
     status_bind (ParsePid env (ms ! 0)) (\<lambda>pid.
     status_bind (ParsePtr env (ms ! 1)) (\<lambda>input_ptr.
     let l = \<lparr>free_input_id = None, free_input_size_hint = None, free_input_alignment_hint = None\<rparr> in
     if input_ptr \<noteq> 0 then
       status_bind (find_and_erase_id input_ptr st) (\<lambda>(i, st).
         Inr (pid, kFree (l\<lparr>free_input_id := Some i\<rparr>), st))
     else Inr (pid, kFree l, st)))"

definition parse_malloc :: "parser_env \<Rightarrow> string list \<Rightarrow> parser \<Rightarrow> parsed status_or" where
  "parse_malloc env ms st =
     status_bind (ParsePid env (ms ! 0)) (\<lambda>pid.
     status_bind (ParseSize env (ms ! 1)) (\<lambda>sz.
     status_bind (ParsePtr env (ms ! 2)) (\<lambda>result_ptr.
     status_bind (get_next_id result_ptr st) (\<lambda>(i, st).
       Inr (pid, kMalloc \<lparr>malloc_result_id = Some i, malloc_input_size = Some sz,
                          malloc_input_alignment = None\<rparr>, st)))))"

definition parse_memalign :: "parser_env \<Rightarrow> string list \<Rightarrow> parser \<Rightarrow> parsed status_or" where
  "parse_memalign env ms st =
     status_bind (ParsePid env (ms ! 0)) (\<lambda>pid.
     status_bind (ParseSize env (ms ! 1)) (\<lambda>al.
     status_bind (ParseSize env (ms ! 2)) (\<lambda>sz.
     status_bind (ParsePtr env (ms ! 3)) (\<lambda>result_ptr.
     status_bind (get_next_id result_ptr st) (\<lambda>(i, st).
       Inr (pid, kMalloc \<lparr>malloc_result_id = Some i, malloc_input_size = Some sz,
                          malloc_input_alignment = Some al\<rparr>, st))))))"

definition parse_aligned_alloc :: "parser_env \<Rightarrow> string list \<Rightarrow> parser \<Rightarrow> parsed status_or" where
  "parse_aligned_alloc env ms st =
     status_bind (ParsePid env (ms ! 0)) (\<lambda>pid.
     status_bind (ParseSize env (ms ! 1)) (\<lambda>sz.
     status_bind (ParseSize env (ms ! 2)) (\<lambda>al.
     status_bind (ParsePtr env (ms ! 3)) (\<lambda>result_ptr.
     status_bind (get_next_id result_ptr st) (\<lambda>(i, st).
       Inr (pid, kMalloc \<lparr>malloc_result_id = Some i, malloc_input_size = Some sz,
                          malloc_input_alignment = Some al\<rparr>, st))))))"

definition parse_calloc :: "parser_env \<Rightarrow> string list \<Rightarrow> parser \<Rightarrow> parsed status_or" where
  "parse_calloc env ms st =
     status_bind (ParsePid env (ms ! 0)) (\<lambda>pid.
     status_bind (ParseSize env (ms ! 1)) (\<lambda>nmemb.
     status_bind (ParseSize env (ms ! 2)) (\<lambda>sz.
     status_bind (ParsePtr env (ms ! 3)) (\<lambda>result_ptr.
     status_bind (get_next_id result_ptr st) (\<lambda>(i, st).
       Inr (pid, kCalloc \<lparr>calloc_result_id = Some i, calloc_input_nmemb = Some nmemb,
                          calloc_input_size = Some sz\<rparr>, st))))))"

definition parse_realloc :: "parser_env \<Rightarrow> string list \<Rightarrow> parser \<Rightarrow> parsed status_or" where
  "parse_realloc env ms st =
     status_bind (ParsePid env (ms ! 0)) (\<lambda>pid.
     status_bind (ParsePtr env (ms ! 1)) (\<lambda>input_ptr.
     status_bind (ParseSize env (ms ! 2)) (\<lambda>sz.
     status_bind (ParsePtr env (ms ! 3)) (\<lambda>result_ptr.
     let l = \<lparr>realloc_result_id = None, realloc_input_id = None, realloc_input_size = None\<rparr> in
     status_bind
       (if input_ptr \<noteq> 0 then
          status_bind (find_and_erase_id input_ptr st) (\<lambda>(i, st).
            Inr (l\<lparr>realloc_input_id := Some i\<rparr>, st))
        else Inr (l, st)) (\<lambda>(l, st).
     status_bind (get_next_id result_ptr st) (\<lambda>(i, st).
       Inr (pid, kRealloc (l\<lparr>realloc_input_size := Some sz, realloc_result_id := Some i\<rparr>), st)))))))"

text \<open>A line of none of the forms is skipped: \<open>None\<close>.\<close>

definition parse_line :: "parser_env \<Rightarrow> string \<Rightarrow> parser \<Rightarrow> parsed option status_or" where
  "parse_line env s st = (case PartialMatch env s kFreeRegex of
     Some ms \<Rightarrow> status_bind (parse_free env ms st) (\<lambda>r. Inr (Some r))
   | None \<Rightarrow> (case PartialMatch env s kMallocRegex of
     Some ms \<Rightarrow> status_bind (parse_malloc env ms st) (\<lambda>r. Inr (Some r))
   | None \<Rightarrow> (case PartialMatch env s kMemalignAllocRegex of
     Some ms \<Rightarrow> status_bind (parse_memalign env ms st) (\<lambda>r. Inr (Some r))
   | None \<Rightarrow> (case PartialMatch env s kAlignedAllocRegex of
     Some ms \<Rightarrow> status_bind (parse_aligned_alloc env ms st) (\<lambda>r. Inr (Some r))
   | None \<Rightarrow> (case PartialMatch env s kCallocRegex of
     Some ms \<Rightarrow> status_bind (parse_calloc env ms st) (\<lambda>r. Inr (Some r))
   | None \<Rightarrow> (case PartialMatch env s kReallocRegex of
     Some ms \<Rightarrow> status_bind (parse_realloc env ms st) (\<lambda>r. Inr (Some r))
   | None \<Rightarrow> Inr None))))))"

definition add_line :: "32 word \<Rightarrow> trace_line \<Rightarrow> parser \<Rightarrow> parser" where
  "add_line pid l st =
     (if required_pid st \<noteq> None \<and> required_pid st \<noteq> Some pid then st
      else st\<lparr>required_pid := Some pid, lines_out := lines_out st @ [l],
              max_allocs := max (max_allocs st) (of_nat (length (ptr_ids st)))\<rparr>)"

definition parse_step :: "parser_env \<Rightarrow> string \<Rightarrow> parser \<Rightarrow> parser status_or" where
  "parse_step env s st = status_bind (parse_line env s st) (\<lambda>r. case r of
     None \<Rightarrow> Inr st | Some (pid, l, st') \<Rightarrow> Inr (add_line pid l st'))"

subsection \<open>The file\<close>

text \<open>
  \<^verbatim>\<open>std::getline\<close> with the test of \<^verbatim>\<open>eof\<close>: a last line that no newline ends is not returned.
\<close>

definition getline :: "string \<Rightarrow> (string \<times> string) option" where
  "getline s = (if CHR 0x0A \<in> set s
     then Some (takeWhile (\<lambda>c. c \<noteq> CHR 0x0A) s, tl (dropWhile (\<lambda>c. c \<noteq> CHR 0x0A) s)) else None)"

lemma getline_shorter:
  assumes "getline s = Some (l, r)"
  shows "length r < length s"
proof -
  let ?d = "dropWhile (\<lambda>c. c \<noteq> CHR 0x0A) s"
  have "?d \<noteq> []" "r = tl ?d" using assms by (auto simp: getline_def dropWhile_eq_Nil_conv split: if_splits)
  then have "length r < length ?d" by simp
  then show ?thesis using length_dropWhile_le [of "\<lambda>c. c \<noteq> CHR 0x0A" s] by simp
qed

function parse_loop :: "parser_env \<Rightarrow> u64 \<Rightarrow> u64 \<Rightarrow> string \<Rightarrow> parser \<Rightarrow> parser status_or" where
  "parse_loop env max_ops iter file st =
     (if iter + of_nat (length (ptr_ids st)) < max_ops then
        (case getline file of
           None \<Rightarrow> Inr st
         | Some (s, rest) \<Rightarrow> status_bind (parse_step env s st) (parse_loop env max_ops (iter + 1) rest))
      else Inr st)"
  by pat_completeness auto
termination
  by (relation "measure (\<lambda>(_, _, _, file, _). length file)") (auto dest: getline_shorter)

declare parse_loop.simps [simp del]

definition final_free :: "ptr \<times> u64 \<Rightarrow> trace_line" where
  "final_free q = kFree \<lparr>free_input_id = Some (snd q), free_input_size_hint = None, free_input_alignment_hint = None\<rparr>"

record tracefile =
  tracefile_lines :: "trace_line list"
  max_simultaneous_allocs :: u64

text \<open>\<^verbatim>\<open>file\<close> is what \<^verbatim>\<open>filename\<close> holds, if it could be opened.\<close>

definition Open :: "parser_env \<Rightarrow> u64 \<Rightarrow> string \<Rightarrow> string option \<Rightarrow> tracefile status_or" where
  "Open env max_ops filename file = (case file of
     None \<Rightarrow> Inl (Failed (''Failed to open file '' @ filename) [])
   | Some text \<Rightarrow> status_bind (parse_loop env max_ops 0 text parser_init) (\<lambda>st.
       Inr \<lparr>tracefile_lines = lines_out st @ map final_free (hash_order env (ptr_ids st)),
            max_simultaneous_allocs = max_allocs st\<rparr>))"


subsection \<open>What one line does to the ids\<close>

text \<open>
  Of the \<open>k\<close> ids handed out so far each is live or available, and none is both.
\<close>

definition parser_inv :: "nat \<Rightarrow> parser \<Rightarrow> bool" where
  "parser_inv k st \<longleftrightarrow> next_id st = of_nat k \<and> distinct (map fst (ptr_ids st))
     \<and> distinct (map snd (ptr_ids st)) \<and> distinct (available_ids st) \<and> sorted (available_ids st)
     \<and> snd ` set (ptr_ids st) \<inter> set (available_ids st) = {}
     \<and> snd ` set (ptr_ids st) \<union> set (available_ids st) = of_nat ` {0..<k}"

abbreviation live_ids :: "parser \<Rightarrow> u64 set" where "live_ids st \<equiv> snd ` set (ptr_ids st)"

lemma parser_init_inv: "parser_inv 0 parser_init"
  by (simp add: parser_inv_def parser_init_def)

lemma of_nat_new: "k < 2 ^ 64 \<Longrightarrow> (of_nat k :: u64) \<notin> of_nat ` {0..<k}"
proof
  assume k: "k < 2 ^ 64" and "(of_nat k :: u64) \<in> of_nat ` {0..<k}"
  then obtain j where j: "j < k" "(of_nat k :: u64) = of_nat j" by auto
  then have "unat (of_nat k :: u64) = unat (of_nat j :: u64)" by simp
  then show False using j(1) k by (simp add: unat_of_nat)
qed

lemma find_and_erase_id_inv:
  assumes inv: "parser_inv k st" and f: "find_and_erase_id p st = Inr (i, st')"
  shows "parser_inv k st'" "i \<in> live_ids st" "live_ids st' = live_ids st - {i}"
    "lines_out st' = lines_out st" "required_pid st' = required_pid st" "max_allocs st' = max_allocs st"
    "next_id st' = next_id st"
proof -
  have m: "map_of (ptr_ids st) p = Some i" and na: "i \<notin> set (available_ids st)"
    and st': "st' = st\<lparr>ptr_ids := AList.delete p (ptr_ids st), available_ids := insort i (available_ids st)\<rparr>"
    using f by (auto simp: find_and_erase_id_def split: option.splits if_splits)
  have pi: "(p, i) \<in> set (ptr_ids st)" using m by (rule map_of_SomeD)
  have un: "q = (p, i)" if "q \<in> set (ptr_ids st)" "fst q = p \<or> snd q = i" for q
  proof -
    have "inj_on fst (set (ptr_ids st))" "inj_on snd (set (ptr_ids st))"
      using inv by (auto simp: parser_inv_def distinct_map)
    then show ?thesis using that pi by (metis fst_conv inj_onD snd_conv)
  qed
  have d: "ptr_ids st' = filter (\<lambda>q. fst q \<noteq> p) (ptr_ids st)" using st' by (simp add: delete_filter)
  have "set (ptr_ids st') = set (ptr_ids st) - {(p, i)}" unfolding d using un by auto
  moreover have "snd ` (set (ptr_ids st) - {(p, i)}) = live_ids st - {i}"
  proof -
    have "inj_on snd (set (ptr_ids st))" using inv by (auto simp: parser_inv_def distinct_map)
    from inj_on_image_set_diff [OF this, of "set (ptr_ids st)" "{(p, i)}"] pi show ?thesis by auto
  qed
  ultimately have l: "live_ids st' = live_ids st - {i}" by simp
  then show "live_ids st' = live_ids st - {i}" .
  show i: "i \<in> live_ids st" using pi by force
  have av: "available_ids st' = insort i (available_ids st)" "next_id st' = next_id st" using st' by simp_all
  have dist: "distinct (map fst (ptr_ids st'))" "distinct (map snd (ptr_ids st'))"
    using inv unfolding d by (simp_all add: parser_inv_def distinct_map_filter)
  have u: "live_ids st' \<union> set (available_ids st') = live_ids st \<union> set (available_ids st)"
    unfolding l av set_insort_key using i by auto
  have n: "live_ids st' \<inter> set (available_ids st') = {}"
    unfolding l av set_insort_key using inv by (auto simp: parser_inv_def)
  show "parser_inv k st'"
    using inv na dist u n by (simp add: parser_inv_def av distinct_insort sorted_insort)
qed (use f in \<open>auto simp: find_and_erase_id_def split: option.splits if_splits\<close>)

lemma find_and_erase_id_error:
  assumes inv: "parser_inv k st"
  shows "find_and_erase_id p st = (case map_of (ptr_ids st) p of
     None \<Rightarrow> Inl (Failed ''Tracefile frees unallocated ptr'' [p])
   | Some i \<Rightarrow> Inr (i, st\<lparr>ptr_ids := AList.delete p (ptr_ids st), available_ids := insort i (available_ids st)\<rparr>))"
proof (cases "map_of (ptr_ids st) p")
  case (Some i)
  then have "i \<in> live_ids st" by (force dest: map_of_SomeD)
  then show ?thesis using Some inv by (auto simp: find_and_erase_id_def parser_inv_def)
qed (simp add: find_and_erase_id_def)

lemma get_next_id_inv:
  assumes inv: "parser_inv k st" and k: "k < 2 ^ 64" and f: "get_next_id p st = Inr (i, st')"
  obtains k' where "parser_inv k' st'" "i \<notin> live_ids st" "live_ids st' = insert i (live_ids st)"
    "lines_out st' = lines_out st" "required_pid st' = required_pid st" "max_allocs st' = max_allocs st"
    "p \<notin> fst ` set (ptr_ids st)" "k' = (if available_ids st = [] then Suc k else k)"
proof -
  have p: "p \<notin> fst ` set (ptr_ids st)"
    using f by (auto simp: get_next_id_def Let_def map_of_eq_None_iff split: list.splits if_splits)
  show thesis
  proof (cases "available_ids st")
    case Nil
    then have i: "i = of_nat k" "st' = st\<lparr>next_id := next_id st + 1, ptr_ids := (p, i) # ptr_ids st\<rparr>"
      using f inv by (auto simp: get_next_id_def parser_inv_def split: if_splits)
    have s: "live_ids st = of_nat ` {0..<k}" using inv Nil by (simp add: parser_inv_def)
    have "i \<notin> live_ids st" unfolding s i(1) by (rule of_nat_new [OF k])
    moreover from this have "parser_inv (Suc k) st'"
      using inv p Nil s by (auto simp: parser_inv_def i(2) atLeast0_lessThan_Suc) (auto simp: i(1))
    ultimately show thesis using that [of "Suc k"] p Nil by (simp add: i(2))
  next
    case (Cons a as)
    then have i: "i = a" "st' = st\<lparr>available_ids := as, ptr_ids := (p, i) # ptr_ids st\<rparr>"
      using f by (auto simp: get_next_id_def split: if_splits)
    have n: "i \<notin> live_ids st" using inv Cons i(1) by (auto simp: parser_inv_def)
    have "parser_inv k st'" using inv p Cons n by (auto simp: parser_inv_def i)
    then show thesis using that [of k] p Cons n by (simp add: i(2))
  qed
qed

text \<open>The id that is handed out is the smallest one that is not live.\<close>

lemma get_next_id_least:
  assumes inv: "parser_inv k st" and k: "k < 2 ^ 64" and f: "get_next_id p st = Inr (i, st')" and j: "j < i"
  shows "j \<in> live_ids st"
proof -
  have below: "j \<in> of_nat ` {0..<k}" if "j < of_nat n" "n \<le> k" for n
  proof -
    have "unat j < k" using that k by (simp add: word_less_nat_alt unat_of_nat)
    then show ?thesis by (intro image_eqI [of _ _ "unat j"]) simp_all
  qed
  have u: "live_ids st \<union> set (available_ids st) = of_nat ` {0..<k}" using inv by (simp add: parser_inv_def)
  show ?thesis
  proof (cases "available_ids st")
    case Nil
    then have "i = of_nat k" using f inv by (auto simp: get_next_id_def parser_inv_def split: if_splits)
    then show ?thesis using below [of k] j u Nil by simp
  next
    case (Cons a as)
    then have i: "i = a" using f by (auto simp: get_next_id_def split: if_splits)
    have "i \<in> of_nat ` {0..<k}" using Cons i by (simp flip: u)
    then obtain n where "i = of_nat n" "n \<le> k" by auto
    then have "j \<in> live_ids st \<union> set (available_ids st)" unfolding u using below j by blast
    moreover have "sorted (a # as)" using inv Cons by (simp add: parser_inv_def)
    then have "j \<notin> set (available_ids st)" using j i Cons by auto
    ultimately show ?thesis by blast
  qed
qed

text \<open>The process id that a line of the log carries, if it is one of the six forms.\<close>

definition line_pid :: "parser_env \<Rightarrow> string \<Rightarrow> 32 word option" where
  "line_pid env s =
     (case List.find (\<lambda>rx. PartialMatch env s rx \<noteq> None)
         [kFreeRegex, kMallocRegex, kMemalignAllocRegex, kAlignedAllocRegex, kCallocRegex, kReallocRegex] of
        None \<Rightarrow> None
      | Some rx \<Rightarrow> SimpleAtoi_int32 env (the (PartialMatch env s rx) ! 0))"

text \<open>A parsed line consumes at most one id, then produces at most one.\<close>

definition ids_moved :: "trace_line \<Rightarrow> parser \<Rightarrow> parser \<Rightarrow> bool" where
  "ids_moved l st st' \<longleftrightarrow> l \<noteq> OP_NOT_SET \<and> (\<exists>st1.
     (case input_id l of None \<Rightarrow> st1 = st | Some i \<Rightarrow> \<exists>p. find_and_erase_id p st = Inr (i, st1))
     \<and> (case result_id l of None \<Rightarrow> st' = st1 | Some i \<Rightarrow> \<exists>p. get_next_id p st1 = Inr (i, st')))"

lemma status_bind_Inr_iff: "status_bind x f = Inr b \<longleftrightarrow> (case x of Inl e \<Rightarrow> False | Inr a \<Rightarrow> f a = Inr b)"
  by (cases x) simp_all

lemma ParsePid_Inr: "ParsePid env s = Inr pid \<longleftrightarrow> SimpleAtoi_int32 env s = Some pid"
  by (auto simp: ParsePid_def split: option.splits)

lemmas parse_case_defs = parse_free_def parse_malloc_def parse_memalign_def parse_aligned_alloc_def
  parse_calloc_def parse_realloc_def

lemma parse_cases:
  "parse_free env ms st = Inr (pid, l, st') \<Longrightarrow> SimpleAtoi_int32 env (ms ! 0) = Some pid \<and> ids_moved l st st'"
  "parse_malloc env ms st = Inr (pid, l, st') \<Longrightarrow> SimpleAtoi_int32 env (ms ! 0) = Some pid \<and> ids_moved l st st'"
  "parse_memalign env ms st = Inr (pid, l, st') \<Longrightarrow> SimpleAtoi_int32 env (ms ! 0) = Some pid \<and> ids_moved l st st'"
  "parse_aligned_alloc env ms st = Inr (pid, l, st') \<Longrightarrow> SimpleAtoi_int32 env (ms ! 0) = Some pid \<and> ids_moved l st st'"
  "parse_calloc env ms st = Inr (pid, l, st') \<Longrightarrow> SimpleAtoi_int32 env (ms ! 0) = Some pid \<and> ids_moved l st st'"
  "parse_realloc env ms st = Inr (pid, l, st') \<Longrightarrow> SimpleAtoi_int32 env (ms ! 0) = Some pid \<and> ids_moved l st st'"
  by (auto simp: parse_case_defs status_bind_eq_Inr ids_moved_def Let_def ParsePid_Inr split: if_splits) metis

lemma parse_line_moves:
  assumes "parse_line env s st = Inr (Some (pid, l, st'))"
  shows "line_pid env s = Some pid" "ids_moved l st st'"
  using assms parse_cases [where env = env and st = st and pid = pid and l = l and st' = st']
  unfolding parse_line_def line_pid_def
  by (auto simp: status_bind_eq_Inr split: option.splits if_splits)

lemma parser_inv_full:
  assumes inv: "parser_inv k st" and k: "k < 2 ^ 64" and n: "available_ids st = []"
  shows "length (ptr_ids st) = k"
proof -
  have "length (ptr_ids st) = card (live_ids st)"
    using inv distinct_card [of "map snd (ptr_ids st)"] by (simp add: parser_inv_def)
  also have "\<dots> = card ((of_nat :: nat \<Rightarrow> u64) ` {0..<k})" using inv n by (simp add: parser_inv_def)
  also have "inj_on (of_nat :: nat \<Rightarrow> u64) {0..<k}"
  proof (rule inj_onI)
    fix a b assume ab: "a \<in> {0..<k}" "b \<in> {0..<k}" and e: "(of_nat a :: u64) = of_nat b"
    have "unat (of_nat a :: u64) = unat (of_nat b :: u64)" using e by simp
    then show "a = b" using ab k by (simp add: unat_of_nat)
  qed
  then have "card ((of_nat :: nat \<Rightarrow> u64) ` {0..<k}) = k" by (simp add: card_image)
  finally show ?thesis .
qed

lemma ids_moved_live:
  assumes inv: "parser_inv k st" and k: "k < 2 ^ 64" and m: "ids_moved l st st'"
  obtains k' where "parser_inv k' st'" "k \<le> k'" "k' \<le> Suc k" "live_step (live_ids st) l = Some (live_ids st')"
    "lines_out st' = lines_out st" "required_pid st' = required_pid st" "max_allocs st' = max_allocs st"
    "k' \<le> max k (length (ptr_ids st'))" "set_option (result_id l) \<subseteq> of_nat ` {0..<k'}"
    "set_option (result_id l) \<union> of_nat ` {0..<k} = of_nat ` {0..<k'}"
    "\<And>i j. result_id l = Some i \<Longrightarrow> j < i \<Longrightarrow> j \<in> live_ids st - set_option (input_id l)"
proof -
  obtain st1 where st1: "(case input_id l of None \<Rightarrow> st1 = st | Some i \<Rightarrow> \<exists>p. find_and_erase_id p st = Inr (i, st1))"
    and st': "(case result_id l of None \<Rightarrow> st' = st1 | Some i \<Rightarrow> \<exists>p. get_next_id p st1 = Inr (i, st'))"
    and l: "l \<noteq> OP_NOT_SET"
    using m by (auto simp: ids_moved_def)
  have a: "parser_inv k st1 \<and> live_ids st1 = live_ids st - set_option (input_id l) \<and> set_option (input_id l) \<subseteq> live_ids st
      \<and> lines_out st1 = lines_out st \<and> required_pid st1 = required_pid st \<and> max_allocs st1 = max_allocs st"
  proof (cases "input_id l")
    case (Some i)
    then obtain p where "find_and_erase_id p st = Inr (i, st1)" using st1 by auto
    from find_and_erase_id_inv [OF inv this] show ?thesis using Some by simp
  qed (use st1 inv in simp)
  show thesis
  proof (cases "result_id l")
    case None
    then show thesis using that [of k] a st' l by (simp add: live_step_def Let_def)
  next
    case (Some i)
    then obtain p where g: "get_next_id p st1 = Inr (i, st')" using st' by auto
    obtain k' where k': "parser_inv k' st'" "i \<notin> live_ids st1" "live_ids st' = insert i (live_ids st1)"
      "lines_out st' = lines_out st1" "required_pid st' = required_pid st1" "max_allocs st' = max_allocs st1"
      "k' = (if available_ids st1 = [] then Suc k else k)"
      using get_next_id_inv [OF conjunct1 [OF a] k g] by metis
    have i: "i \<in> of_nat ` {0..<k'}" using k'(1,3) by (auto simp: parser_inv_def)
    have full: "length (ptr_ids st') = Suc k \<and> i = of_nat k" if n: "available_ids st1 = []"
      using g n a parser_inv_full [OF conjunct1 [OF a] k n]
      by (auto simp: get_next_id_def parser_inv_def split: if_splits)
    have "set_option (result_id l) \<union> of_nat ` {0..<k} = of_nat ` {0..<k'}"
      using i k'(7) full Some by (auto simp: atLeast0_lessThan_Suc)
    moreover have "k' \<le> max k (length (ptr_ids st'))" using k'(7) full by auto
    moreover have "j \<in> live_ids st - set_option (input_id l)" if "result_id l = Some i'" "j < i'" for i' j
      using get_next_id_least [OF conjunct1 [OF a] k g, of j] that Some a by simp
    ultimately show thesis
      using that [OF k'(1)] a k' l Some i by (auto simp: live_step_def Let_def)
  qed
qed


subsection \<open>A log of one process\<close>

function log_lines :: "string \<Rightarrow> string list" where
  "log_lines file = (case getline file of None \<Rightarrow> [] | Some (s, rest) \<Rightarrow> s # log_lines rest)"
  by pat_completeness auto
termination
  by (relation "measure length") (auto dest: getline_shorter)

declare log_lines.simps [simp del]

definition one_process :: "parser_env \<Rightarrow> 32 word \<Rightarrow> string \<Rightarrow> bool" where
  "one_process env p file \<longleftrightarrow> list_all (\<lambda>s. line_pid env s = None \<or> line_pid env s = Some p) (log_lines file)"

text \<open>The largest number of ids that are live at the same time in a trace.\<close>

fun peak_live :: "u64 set \<Rightarrow> trace_line list \<Rightarrow> nat" where
  "peak_live L [] = card L"
| "peak_live L (l # ls) = max (card L) (case live_step L l of None \<Rightarrow> 0 | Some L' \<Rightarrow> peak_live L' ls)"

lemma peak_live_append:
  "live_run L xs = Some L' \<Longrightarrow> peak_live L (xs @ ys) = max (peak_live L xs) (peak_live L' ys)"
proof (induction xs arbitrary: L)
  case Nil
  then show ?case by (cases ys) auto
next
  case (Cons x xs)
  then show ?case by (cases "live_step L x") (auto simp: max.assoc)
qed

text \<open>
  Each result id is the smallest number that is not live once the line has consumed its
  input.
\<close>

fun smallest_first :: "u64 set \<Rightarrow> trace_line list \<Rightarrow> bool" where
  "smallest_first L [] \<longleftrightarrow> True"
| "smallest_first L (l # ls) \<longleftrightarrow>
     (case result_id l of None \<Rightarrow> True | Some i \<Rightarrow>
        i \<notin> L - set_option (input_id l) \<and> (\<forall>j<i. j \<in> L - set_option (input_id l)))
     \<and> (case live_step L l of None \<Rightarrow> False | Some L' \<Rightarrow> smallest_first L' ls)"

lemma smallest_first_append:
  "live_run L xs = Some L' \<Longrightarrow> smallest_first L (xs @ ys) \<longleftrightarrow> smallest_first L xs \<and> smallest_first L' ys"
proof (induction xs arbitrary: L)
  case (Cons x xs)
  then show ?case by (cases "live_step L x") auto
qed simp

lemma smallest_first_frees:
  "live_run L (map final_free qs) = Some L' \<Longrightarrow> smallest_first L (map final_free qs)"
proof (induction qs arbitrary: L)
  case (Cons q qs)
  then show ?case by (cases "live_step L (final_free q)") (auto simp: final_free_def)
qed simp

lemma result_ids_append: "result_ids (xs @ ys) = result_ids xs @ result_ids ys"
  by (induction xs) (auto split: option.split)

lemma set_result_ids: "set (result_ids [l]) = set_option (result_id l)"
  by (simp split: option.split)

lemma final_free_ids [simp]:
  "input_id (final_free q) = Some (snd q)" "result_id (final_free q) = None" "final_free q \<noteq> OP_NOT_SET"
  by (simp_all add: final_free_def)

lemma live_run_frees:
  "distinct (map snd qs) \<Longrightarrow> live_run (snd ` set qs) (map final_free qs) = Some {}
     \<and> peak_live (snd ` set qs) (map final_free qs) = length qs \<and> result_ids (map final_free qs) = []"
proof (induction qs)
  case (Cons q qs)
  have s: "insert (snd q) (snd ` set qs) - {snd q} = snd ` set qs" using Cons.prems by auto
  have c: "card (insert (snd q) (snd ` set qs)) = Suc (length qs)"
    using distinct_card [of "map snd (q # qs)"] Cons.prems by simp
  show ?case using Cons by (simp add: live_step_def Let_def s c)
qed simp

definition log_inv :: "32 word \<Rightarrow> nat \<Rightarrow> parser \<Rightarrow> bool" where
  "log_inv p k st \<longleftrightarrow> parser_inv k st \<and> (required_pid st = None \<or> required_pid st = Some p)
     \<and> live_run {} (lines_out st) = Some (live_ids st) \<and> max_allocs st = of_nat k
     \<and> peak_live {} (lines_out st) = k \<and> set (result_ids (lines_out st)) = of_nat ` {0..<k}
     \<and> smallest_first {} (lines_out st)"

lemma parser_inv_size:
  assumes "parser_inv k st" shows "length (ptr_ids st) \<le> k" "card (live_ids st) = length (ptr_ids st)"
proof -
  show c: "card (live_ids st) = length (ptr_ids st)"
    using assms distinct_card [of "map snd (ptr_ids st)"] by (simp add: parser_inv_def)
  have "live_ids st \<subseteq> (of_nat :: nat \<Rightarrow> u64) ` {0..<k}" using assms by (auto simp: parser_inv_def)
  then have "card (live_ids st) \<le> card ((of_nat :: nat \<Rightarrow> u64) ` {0..<k})" by (intro card_mono) auto
  also have "\<dots> \<le> k" using card_image_le [of "{0..<k}" "of_nat :: nat \<Rightarrow> u64"] by simp
  finally show "length (ptr_ids st) \<le> k" using c by simp
qed

lemma of_nat_max: "a < 2 ^ 64 \<Longrightarrow> b < 2 ^ 64 \<Longrightarrow> max (of_nat a :: u64) (of_nat b) = of_nat (max a b)"
  by (auto simp: max_def word_le_nat_alt unat_of_nat)

lemma parse_step_log:
  assumes inv: "log_inv p k st" and k: "Suc k < 2 ^ 64" and r: "parse_step env s st = Inr st'"
    and s: "line_pid env s = None \<or> line_pid env s = Some p"
  obtains k' where "log_inv p k' st'" "k' \<le> Suc k"
proof (cases "parse_line env s st")
  case (Inr o')
  show thesis
  proof (cases o')
    case None
    then show thesis using that [of k] inv r Inr by (simp add: parse_step_def)
  next
    case (Some q)
    obtain pid l st1 where q: "q = (pid, l, st1)" by (cases q)
    have pl: "parse_line env s st = Inr (Some (pid, l, st1))" using Inr Some q by simp
    have pid: "pid = p" using parse_line_moves(1) [OF pl] s by simp
    have st': "st' = add_line p l st1" using r pl pid by (simp add: parse_step_def)
    have kk: "k < 2 ^ 64" and pinv: "parser_inv k st" using k inv by (simp_all add: log_inv_def)
    obtain k' where k': "parser_inv k' st1" "k \<le> k'" "k' \<le> Suc k" "live_step (live_ids st) l = Some (live_ids st1)"
      "lines_out st1 = lines_out st" "required_pid st1 = required_pid st" "max_allocs st1 = max_allocs st"
      "k' \<le> max k (length (ptr_ids st1))" "set_option (result_id l) \<union> of_nat ` {0..<k} = of_nat ` {0..<k'}"
      "\<And>i j. result_id l = Some i \<Longrightarrow> j < i \<Longrightarrow> j \<in> live_ids st - set_option (input_id l)"
      by (rule ids_moved_live [OF pinv kk parse_line_moves(2) [OF pl]]) (rule that; assumption)
    note sz = parser_inv_size [OF k'(1)] parser_inv_size [OF pinv]
    have m: "max k (length (ptr_ids st1)) = k'" using k' sz by auto
    have st'': "st' = st1\<lparr>required_pid := Some p, lines_out := lines_out st @ [l],
        max_allocs := max (max_allocs st) (of_nat (length (ptr_ids st1)))\<rparr>"
    proof -
      have "required_pid st1 = None \<or> required_pid st1 = Some p" using inv k'(6) by (simp add: log_inv_def)
      then have r: "\<not> (required_pid st1 \<noteq> None \<and> required_pid st1 \<noteq> Some p)" by argo
      then show ?thesis unfolding st' add_line_def if_not_P [OF r] using k'(5,7) by simp
    qed
    have run: "live_run {} (lines_out st) = Some (live_ids st)" and res: "set (result_ids (lines_out st)) = of_nat ` {0..<k}"
      and pk: "peak_live {} (lines_out st) = k" and mx: "max_allocs st = of_nat k" and sf: "smallest_first {} (lines_out st)"
      using inv by (simp_all add: log_inv_def)
    have "peak_live {} (lines_out st @ [l]) = k'"
      using peak_live_append [OF run, of "[l]"] k'(4) sz pk m by simp
    moreover have "set (result_ids (lines_out st @ [l])) = of_nat ` {0..<k'}"
      unfolding result_ids_append set_append res set_result_ids using k'(9) by (simp add: Un_commute)
    moreover have "max (of_nat k) (of_nat (length (ptr_ids st1))) = (of_nat k' :: u64)"
      using of_nat_max [of k "length (ptr_ids st1)"] m k k' sz by simp
    moreover have "smallest_first {} (lines_out st @ [l])"
      using sf k'(4,10) unfolding smallest_first_append [OF run]
      by (auto simp: live_step_def Let_def split: option.splits if_splits)
    moreover have "parser_inv k' st'" using k'(1) by (simp add: st'' parser_inv_def)
    ultimately have "log_inv p k' st'"
      using run k'(4) mx unfolding log_inv_def by (simp add: st'' live_run_append)
    then show thesis using that k'(3) by blast
  qed
qed (use r in \<open>simp add: parse_step_def\<close>)

lemma parse_loop_log:
  assumes "parse_loop env max_ops iter inp st = Inr st'" "one_process env p inp"
    "log_inv p k st" "k + length inp < 2 ^ 64"
  shows "\<exists>k'. log_inv p k' st' \<and> k' \<le> k + length inp"
  using assms
proof (induction env max_ops iter inp st arbitrary: k st' rule: parse_loop.induct)
  case (1 env max_ops iter inp st)
  show ?case
  proof (cases "iter + of_nat (length (ptr_ids st)) < max_ops \<and> getline inp \<noteq> None")
    case True
    then obtain s rest where g: "getline inp = Some (s, rest)" by auto
    obtain st1 where st1: "parse_step env s st = Inr st1" "parse_loop env max_ops (iter + 1) rest st1 = Inr st'"
      using "1.prems"(1) True g by (auto simp: parse_loop.simps [of env max_ops iter] status_bind_eq_Inr)
    have o: "line_pid env s = None \<or> line_pid env s = Some p" "one_process env p rest"
      using "1.prems"(2) g by (simp_all add: one_process_def log_lines.simps [of inp])
    note sh = getline_shorter [OF g]
    obtain k1 where k1: "log_inv p k1 st1" "k1 \<le> Suc k"
      using parse_step_log [OF "1.prems"(3) _ st1(1) o(1)] "1.prems"(4) sh by auto
    have "k1 + length rest < 2 ^ 64" using k1(2) sh "1.prems"(4) by simp
    from "1.IH" [OF conjunct1 [OF True] g refl st1(2) o(2) k1(1) this]
    obtain k' where "log_inv p k' st'" "k' \<le> k1 + length rest" by blast
    then show ?thesis using k1(2) sh by (intro exI [of _ k']) simp
  next
    case False
    then have "st' = st" using "1.prems"(1) by (auto simp: parse_loop.simps [of env max_ops iter] split: if_splits option.splits)
    then show ?thesis using "1.prems"(3) by (intro exI [of _ k]) simp
  qed
qed


lemma Open_one_process:
  assumes o: "Open env max_ops name (Some inp) = Inr tf" and p: "one_process env p inp"
    and h: "\<And>m. mset (hash_order env m) = mset m" and len: "length inp < 2 ^ 64"
  obtains k where "live_run {} (tracefile_lines tf) = Some {}" "max_simultaneous_allocs tf = of_nat k" "k < 2 ^ 64"
    "peak_live {} (tracefile_lines tf) = k" "set (result_ids (tracefile_lines tf)) = of_nat ` {0..<k}"
    "smallest_first {} (tracefile_lines tf)"
proof -
  obtain st where st: "parse_loop env max_ops 0 inp parser_init = Inr st"
    and tf: "tf = \<lparr>tracefile_lines = lines_out st @ map final_free (hash_order env (ptr_ids st)),
            max_simultaneous_allocs = max_allocs st\<rparr>"
    using o by (auto simp: Open_def status_bind_eq_Inr)
  have i: "log_inv p 0 parser_init" using parser_init_inv by (simp add: log_inv_def parser_init_def)
  obtain k where k: "log_inv p k st" "k \<le> length inp" using parse_loop_log [OF st p i] len by auto
  let ?q = "hash_order env (ptr_ids st)"
  have set: "set ?q = set (ptr_ids st)" by (rule mset_eq_setD [OF h])
  have "distinct (map snd ?q)"
  proof -
    have "mset (map snd ?q) = mset (map snd (ptr_ids st))" using h by simp
    from mset_eq_imp_distinct_iff [OF this] show ?thesis using k(1) by (simp add: log_inv_def parser_inv_def)
  qed
  from live_run_frees [OF this] have f: "live_run (live_ids st) (map final_free ?q) = Some {}"
    "peak_live (live_ids st) (map final_free ?q) = length (ptr_ids st)" "result_ids (map final_free ?q) = []"
    using set mset_eq_length [OF h] by simp_all
  have run: "live_run {} (lines_out st) = Some (live_ids st)" and pk: "peak_live {} (lines_out st) = k"
    using k(1) by (simp_all add: log_inv_def)
  have "length (ptr_ids st) \<le> k" using k(1) parser_inv_size(1) by (auto simp: log_inv_def)
  then have "peak_live {} (tracefile_lines tf) = k"
    using peak_live_append [OF run, of "map final_free ?q"] f pk tf by simp
  moreover have "smallest_first {} (tracefile_lines tf)"
    using k(1) smallest_first_append [OF run] smallest_first_frees [OF f(1)] tf by (simp add: log_inv_def)
  ultimately show thesis
    using that [of k] k len run f tf by (simp add: live_run_append result_ids_append log_inv_def)
qed

subsection \<open>The limit on the number of operations\<close>

lemma ids_moved_lines:
  assumes "ids_moved l st st'"
  shows "lines_out st' = lines_out st" "length (ptr_ids st') \<le> Suc (length (ptr_ids st))"
proof -
  obtain st1 where st1: "(case input_id l of None \<Rightarrow> st1 = st | Some i \<Rightarrow> \<exists>p. find_and_erase_id p st = Inr (i, st1))"
    and st': "(case result_id l of None \<Rightarrow> st' = st1 | Some i \<Rightarrow> \<exists>p. get_next_id p st1 = Inr (i, st'))"
    using assms by (auto simp: ids_moved_def)
  have "lines_out st1 = lines_out st \<and> length (ptr_ids st1) \<le> length (ptr_ids st)"
    using st1 length_filter_le
    by (auto simp: find_and_erase_id_def delete_filter split: option.splits if_splits)
  moreover have "lines_out st' = lines_out st1 \<and> length (ptr_ids st') \<le> Suc (length (ptr_ids st1))"
    using st' by (auto simp: get_next_id_def Let_def split: option.splits if_splits list.splits)
  ultimately show "lines_out st' = lines_out st" "length (ptr_ids st') \<le> Suc (length (ptr_ids st))" by auto
qed

lemma parse_step_lines:
  assumes "parse_step env s st = Inr st'"
  shows "length (lines_out st') \<le> Suc (length (lines_out st))" "length (ptr_ids st') \<le> Suc (length (ptr_ids st))"
proof -
  obtain r where r: "parse_line env s st = Inr r" using assms by (auto simp: parse_step_def status_bind_eq_Inr)
  show "length (lines_out st') \<le> Suc (length (lines_out st))" "length (ptr_ids st') \<le> Suc (length (ptr_ids st))"
  proof -
    have "length (lines_out st') \<le> Suc (length (lines_out st)) \<and> length (ptr_ids st') \<le> Suc (length (ptr_ids st))"
    proof (cases r)
      case None
      then show ?thesis using assms r by (simp add: parse_step_def)
    next
      case (Some q)
      obtain pid l st1 where q: "q = (pid, l, st1)" by (cases q)
      have "parse_line env s st = Inr (Some (pid, l, st1))" using r Some q by simp
      note m = ids_moved_lines [OF parse_line_moves(2) [OF this]]
      have "st' = add_line pid l st1" using assms r Some q by (simp add: parse_step_def)
      then show ?thesis using m by (simp add: add_line_def)
    qed
    then show "length (lines_out st') \<le> Suc (length (lines_out st))" "length (ptr_ids st') \<le> Suc (length (ptr_ids st))"
      by blast+
  qed
qed

lemma parse_loop_ops:
  assumes "parse_loop env max_ops iter inp st = Inr st'" "length (lines_out st) \<le> unat iter"
    "length (ptr_ids st) \<le> unat iter" "unat iter + length inp < 2 ^ 63"
    "length (lines_out st) + length (ptr_ids st) \<le> Suc (unat max_ops)"
  shows "length (lines_out st') + length (ptr_ids st') \<le> Suc (unat max_ops)"
  using assms
proof (induction env max_ops iter inp st arbitrary: st' rule: parse_loop.induct)
  case (1 env max_ops iter inp st)
  show ?case
  proof (cases "iter + of_nat (length (ptr_ids st)) < max_ops \<and> getline inp \<noteq> None")
    case True
    then obtain s rest where g: "getline inp = Some (s, rest)" by auto
    obtain st1 where st1: "parse_step env s st = Inr st1" "parse_loop env max_ops (iter + 1) rest st1 = Inr st'"
      using "1.prems"(1) True g by (auto simp: parse_loop.simps [of env max_ops iter] status_bind_eq_Inr)
    note sh = getline_shorter [OF g] and ln = parse_step_lines [OF st1(1)]
    have i1: "unat (iter + 1) = Suc (unat iter)" using "1.prems"(4) by (subst unat_word_ariths) simp
    have "unat (iter + of_nat (length (ptr_ids st))) = unat iter + length (ptr_ids st)"
      using "1.prems"(3,4) by (subst unat_word_ariths) (simp add: unat_of_nat)
    then have "unat iter + length (ptr_ids st) < unat max_ops" using True by (simp add: word_less_nat_alt)
    then have "length (lines_out st1) + length (ptr_ids st1) \<le> Suc (unat max_ops)" using ln "1.prems"(2) by simp
    moreover have "length (lines_out st1) \<le> unat (iter + 1)" "length (ptr_ids st1) \<le> unat (iter + 1)"
      "unat (iter + 1) + length rest < 2 ^ 63" using ln "1.prems"(2,3,4) i1 sh by simp_all
    ultimately show ?thesis using "1.IH" [OF conjunct1 [OF True] g refl st1(2)] by simp
  next
    case False
    then have "st' = st" using "1.prems"(1) by (auto simp: parse_loop.simps [of env max_ops iter] split: if_splits option.splits)
    then show ?thesis using "1.prems"(5) by simp
  qed
qed


subsection \<open>The properties of a parsed log\<close>

text \<open>A library that knows four lines, as RE2 and absl read them.\<close>

definition demo_lines :: "(string \<times> string \<times> string list) list" where
  "demo_lines =
     [(''--7-- malloc(8) = 0xa'', kMallocRegex, [''7'', ''8'', ''a'']),
      (''--7-- free(0xa)'', kFreeRegex, [''7'', ''a'']),
      (''--7-- realloc(0xa,9) = 0xb'', kReallocRegex, [''7'', ''a'', ''9'', ''b'']),
      (''--8-- malloc(9) = 0xb'', kMallocRegex, [''8'', ''9'', ''b''])]"

definition demo_env :: parser_env where
  "demo_env = \<lparr>
     PartialMatch = (\<lambda>s rx. case map_of demo_lines s of None \<Rightarrow> None
       | Some (rx', ms) \<Rightarrow> if rx = rx' then Some ms else None),
     SimpleAtoi_int32 = map_of [(''7'', 7), (''8'', 8), (''9'', 9)],
     SimpleAtoi_size_t = map_of [(''7'', 7), (''8'', 8), (''9'', 9)],
     SimpleHexAtoi = map_of [(''a'', 10), (''b'', 11)],
     hash_order = id\<rparr>"

definition demo_log :: "string list \<Rightarrow> string" where
  "demo_log ls = concat (map (\<lambda>l. l @ [CHR 0x0A]) ls)"

definition demo1 :: string where
  "demo1 = demo_log [''--7-- malloc(8) = 0xa'', ''--7-- realloc(0xa,9) = 0xb'']"

lemma demo_hash: "mset (hash_order demo_env m) = mset m"
  by (simp add: demo_env_def)

lemma demo1_open: "Open demo_env 100 ''log'' (Some demo1) = Inr \<lparr>tracefile_lines =
    [kMalloc \<lparr>malloc_result_id = Some 0, malloc_input_size = Some 8, malloc_input_alignment = None\<rparr>,
     kRealloc \<lparr>realloc_result_id = Some 0, realloc_input_id = Some 0, realloc_input_size = Some 9\<rparr>,
     kFree \<lparr>free_input_id = Some 0, free_input_size_hint = None, free_input_alignment_hint = None\<rparr>],
    max_simultaneous_allocs = 1\<rparr>"
  by code_simp

lemma demo1_process: "one_process demo_env 7 demo1"
  by code_simp

lemma demo1_length: "length demo1 = 49"
  by (simp add: demo1_def demo_log_def)

text \<open>C35: A log whose lines come from one process parses to a trace that follows the id
  discipline, whatever the order in which the hash map is emptied at the end, so the
  executor's RewriteIdsToUnique accepts it.\<close>

theorem parser_traces_accepted:
  assumes "Open env max_ops name (Some log) = Inr tf" and "one_process env p log"
    and "\<And>m. mset (hash_order env m) = mset m" and "length log < 2 ^ 64"
  shows "trace_ok (tracefile_lines tf) \<and> (\<exists>ls. RewriteIdsToUnique (tracefile_lines tf) = Inr ls)"
proof -
  have "trace_ok (tracefile_lines tf)"
    by (rule Open_one_process [OF assms]) (simp add: trace_ok_def)
  then show ?thesis by (simp add: rewrite_ok_iff)
qed

theorem parser_traces_accepted_witness:
  "\<exists>tf. Open demo_env 100 ''log'' (Some demo1) = Inr tf \<and> trace_ok (tracefile_lines tf)"
  using conjunct1 [OF parser_traces_accepted [OF demo1_open demo1_process demo_hash]] demo1_open by (simp add: demo1_length)

text \<open>C36: For a log of one process max_simultaneous_allocs is exactly the largest number of ids
  that are live at the same time, the ids of the trace are exactly the numbers below it,
  and ids are reused smallest first: every line's result id is the smallest number that is
  not live after the line has consumed its input.\<close>

theorem parser_array_bound:
  assumes "Open env max_ops name (Some log) = Inr tf" and "one_process env p log"
    and "\<And>m. mset (hash_order env m) = mset m" and "length log < 2 ^ 64"
  shows "unat (max_simultaneous_allocs tf) = peak_live {} (tracefile_lines tf)
    \<and> unat ` set (result_ids (tracefile_lines tf)) = {0..<unat (max_simultaneous_allocs tf)}
    \<and> smallest_first {} (tracefile_lines tf)"
proof -
  obtain k where k: "max_simultaneous_allocs tf = of_nat k" "k < 2 ^ 64"
    "peak_live {} (tracefile_lines tf) = k" "set (result_ids (tracefile_lines tf)) = of_nat ` {0..<k}"
    "smallest_first {} (tracefile_lines tf)"
    by (rule Open_one_process [OF assms]) (rule that; assumption)
  have u: "unat (of_nat j :: u64) = j" if "j \<le> k" for j using k(2) that by (simp add: unat_of_nat)
  have "unat ` set (result_ids (tracefile_lines tf)) = {0..<k}"
    unfolding k(4) image_image using u by (auto simp: image_def)
  then show ?thesis using k(1,3,5) u by simp
qed

theorem parser_array_bound_witness:
  "\<exists>tf. Open demo_env 100 ''log'' (Some demo1) = Inr tf
     \<and> unat ` set (result_ids (tracefile_lines tf)) = {0..<unat (max_simultaneous_allocs tf)}
     \<and> smallest_first {} (tracefile_lines tf) \<and> unat (max_simultaneous_allocs tf) = 1"
proof -
  have "length demo1 < 2 ^ 64" by (simp add: demo1_length)
  note w = parser_array_bound [OF demo1_open demo1_process demo_hash this]
  show ?thesis
    by (intro exI conjI, rule demo1_open, rule conjunct1 [OF conjunct2 [OF w]], rule conjunct2 [OF conjunct2 [OF w]], simp)
qed

text \<open>C37: A parsed trace has at most one operation more than the flag max_ops allows, the final
  frees included; the limit itself can be exceeded by one.\<close>

theorem parser_op_limit:
  assumes "Open env max_ops name (Some log) = Inr tf" and "\<And>m. mset (hash_order env m) = mset m"
    and "length log < 2 ^ 63"
  shows "length (tracefile_lines tf) \<le> Suc (unat max_ops)"
proof -
  obtain st where st: "parse_loop env max_ops 0 log parser_init = Inr st"
    and tf: "tf = \<lparr>tracefile_lines = lines_out st @ map final_free (hash_order env (ptr_ids st)),
            max_simultaneous_allocs = max_allocs st\<rparr>"
    using assms(1) by (auto simp: Open_def status_bind_eq_Inr)
  have "length (lines_out st) + length (ptr_ids st) \<le> Suc (unat max_ops)"
    using parse_loop_ops [OF st] assms(3) by (simp add: parser_init_def)
  then show ?thesis using tf mset_eq_length [OF assms(2)] by simp
qed

lemma demo2_open: "Open demo_env 1 ''log'' (Some demo1) = Inr \<lparr>tracefile_lines =
    [kMalloc \<lparr>malloc_result_id = Some 0, malloc_input_size = Some 8, malloc_input_alignment = None\<rparr>,
     kFree \<lparr>free_input_id = Some 0, free_input_size_hint = None, free_input_alignment_hint = None\<rparr>],
    max_simultaneous_allocs = 1\<rparr>"
  by code_simp

theorem parser_op_limit_witness:
  "\<exists>tf. Open demo_env 1 ''log'' (Some demo1) = Inr tf
     \<and> length (tracefile_lines tf) \<le> Suc (unat (1::u64)) \<and> length (tracefile_lines tf) > unat (1::u64)"
  using parser_op_limit [OF demo2_open demo_hash] demo2_open by (simp add: demo1_length)

text \<open>
  The lines of another process are left out of the trace only after their pointers were
  entered in the map, so the trace frees an id that it never allocates.
\<close>

theorem parser_mixes_processes:
  "\<exists>tf. Open demo_env 100 ''log'' (Some (demo_log [''--7-- malloc(8) = 0xa'', ''--8-- malloc(9) = 0xb''])) = Inr tf
     \<and> RewriteIdsToUnique (tracefile_lines tf) = Inl (Unknown_free 1)"
proof -
  let ?l = "[kMalloc \<lparr>malloc_result_id = Some 0, malloc_input_size = Some 8, malloc_input_alignment = None\<rparr>,
     kFree \<lparr>free_input_id = Some 1, free_input_size_hint = None, free_input_alignment_hint = None\<rparr>,
     kFree \<lparr>free_input_id = Some 0, free_input_size_hint = None, free_input_alignment_hint = None\<rparr>]"
  have "Open demo_env 100 ''log'' (Some (demo_log [''--7-- malloc(8) = 0xa'', ''--8-- malloc(9) = 0xb''])) =
    Inr \<lparr>tracefile_lines = ?l, max_simultaneous_allocs = 1\<rparr>"
    by code_simp
  moreover have "RewriteIdsToUnique ?l = Inl (Unknown_free 1)" by code_simp
  ultimately show ?thesis by simp
qed

end
