(* ===== verification/Heaps.thy ===== *)
theory Heaps
  imports Arena Trace
begin

unbundle bit_operations_syntax

section \<open>The heaps of the harness\<close>

text \<open>
  The process that runs a test: \<^verbatim>\<open>src/heap_factory.cc\<close>, \<^verbatim>\<open>src/mmap_heap.cc\<close> and the global
  variables of \<^verbatim>\<open>src/allocator_interface.cc\<close>. A heap object is an arena of the theory of
  memory, known by its address; a byte of the process is a byte of the heap object whose
  region between start and break contains it. What \<^verbatim>\<open>mmap\<close> and \<^verbatim>\<open>operator new\<close> return is up
  to the system: the fields of \<open>os\<close>. An access outside all heaps crashes.
\<close>

record process =
  heap_objects :: "(ptr \<times> memory) list"
  factory_heaps :: "ptr list"
  g_heap :: ptr

record os =
  mmap :: "u64 \<Rightarrow> process \<Rightarrow> u64 option"
  new_object :: "process \<Rightarrow> ptr"
  static_heap :: ptr

type_synonym ('s, 'a) op = "'s \<Rightarrow> 'a status_or \<times> 's"

fun op_bind :: "('s, 'a) op \<Rightarrow> ('a \<Rightarrow> ('s, 'b) op) \<Rightarrow> ('s, 'b) op" where
  "op_bind f g s = (case f s of (Inl e, s) \<Rightarrow> (Inl e, s) | (Inr a, s) \<Rightarrow> g a s)"

definition op_return :: "'a \<Rightarrow> ('s, 'a) op" where "op_return a s = (Inr a, s)"

definition op_fail :: "error \<Rightarrow> ('s, 'a) op" where "op_fail e s = (Inl e, s)"

abbreviation crash :: error where "crash \<equiv> Ended None"

subsection \<open>Bytes of the process\<close>

definition heap_at :: "process \<Rightarrow> u64 \<Rightarrow> (ptr \<times> memory) option" where
  "heap_at p a = List.find (\<lambda>(k, m). arena_start m \<le> a \<and> a < arena_end m) (heap_objects p)"

definition read8 :: "process \<Rightarrow> u64 \<Rightarrow> u8 option" where
  "read8 p a = Option.bind (heap_at p a) (\<lambda>(k, m). load8 m a)"

definition set_heap :: "ptr \<Rightarrow> memory \<Rightarrow> process \<Rightarrow> process" where
  "set_heap k m p = p\<lparr>heap_objects := AList.update k m (heap_objects p)\<rparr>"

definition write8 :: "process \<Rightarrow> u64 \<Rightarrow> u8 \<Rightarrow> process option" where
  "write8 p a v = Option.bind (heap_at p a) (\<lambda>(k, m). map_option (\<lambda>m'. set_heap k m' p) (store8 m a v))"

primrec write_bytes :: "u64 \<Rightarrow> u8 list \<Rightarrow> process \<Rightarrow> process option" where
  "write_bytes a [] p = Some p"
| "write_bytes a (v # vs) p = Option.bind (write8 p a v) (write_bytes (a + 1) vs)"

primrec read_bytes :: "u64 \<Rightarrow> nat \<Rightarrow> process \<Rightarrow> u8 list option" where
  "read_bytes a 0 p = Some []"
| "read_bytes a (Suc n) p = do { v \<leftarrow> read8 p a; vs \<leftarrow> read_bytes (a + 1) n p; Some (v # vs) }"

text \<open>A \<^verbatim>\<open>uint64_t\<close> access is the access of its eight bytes, the low one first.\<close>

definition read64 :: "process \<Rightarrow> u64 \<Rightarrow> u64 option" where
  "read64 p a = map_option (\<lambda>vs. foldr (\<lambda>v w. push_bit 8 w OR ucast v) vs 0) (read_bytes a 8 p)"

definition le_bytes :: "u64 \<Rightarrow> u8 list" where
  "le_bytes w = map (\<lambda>i. ucast (drop_bit (8 * i) w)) [0..<8]"

definition write64 :: "u64 \<Rightarrow> u64 \<Rightarrow> process \<Rightarrow> process option" where
  "write64 a w p = write_bytes a (le_bytes w) p"

text \<open>\<^verbatim>\<open>memset\<close>, and \<^verbatim>\<open>memcpy\<close>, whose regions must not overlap.\<close>

definition memset :: "u64 \<Rightarrow> u8 \<Rightarrow> u64 \<Rightarrow> process \<Rightarrow> process option" where
  "memset a v n p = write_bytes a (replicate (unat n) v) p"

definition memcpy :: "u64 \<Rightarrow> u64 \<Rightarrow> u64 \<Rightarrow> process \<Rightarrow> process option" where
  "memcpy d s n p =
     (if unat d < unat s + unat n \<and> unat s < unat d + unat n then None
      else Option.bind (read_bytes s (unat n) p) (\<lambda>vs. write_bytes d vs p))"

definition op_memory :: "(process \<Rightarrow> process option) \<Rightarrow> (process, unit) op" where
  "op_memory f p = (case f p of None \<Rightarrow> (Inl crash, p) | Some p' \<Rightarrow> (Inr (), p'))"

subsection \<open>\<^verbatim>\<open>MMapHeap\<close> and \<^verbatim>\<open>HeapFactory\<close>\<close>

definition MMapHeap_New :: "os \<Rightarrow> u64 \<Rightarrow> (process, memory) op" where
  "MMapHeap_New os sz p = (case mmap os sz p of
     None \<Rightarrow> (Inl (Failed ''Failed to mmap'' [sz]), p)
   | Some heap_start \<Rightarrow> (Inr (Heap_new heap_start sz (\<lambda>_. 0)), p))"

definition MakeHeap :: "os \<Rightarrow> u64 \<Rightarrow> (process, ptr) op" where
  "MakeHeap os sz = op_bind (MMapHeap_New os sz) (\<lambda>m p.
     (Inr (new_object os p), set_heap (new_object os p) m p))"

definition NewInstance :: "os \<Rightarrow> u64 \<Rightarrow> (process, ptr) op" where
  "NewInstance os sz = op_bind (MakeHeap os sz) (\<lambda>k p.
     (Inr k, p\<lparr>factory_heaps := List.insert k (factory_heaps p)\<rparr>))"

definition DeleteInstance :: "ptr \<Rightarrow> (process, unit) op" where
  "DeleteInstance k p =
     (if k \<notin> set (factory_heaps p) then (Inl (Failed ''Heap not found'' [k]), p)
      else (Inr (), p\<lparr>factory_heaps := removeAll k (factory_heaps p),
                      heap_objects := AList.delete k (heap_objects p)\<rparr>))"

definition Reset :: "process \<Rightarrow> process" where
  "Reset p = p\<lparr>factory_heaps := [],
     heap_objects := filter (\<lambda>(k, m). k \<notin> set (factory_heaps p)) (heap_objects p)\<rparr>"

definition instances :: "process \<Rightarrow> memory list" where
  "instances p = map (\<lambda>k. the (map_of (heap_objects p) k)) (factory_heaps p)"

definition WithInstances :: "(memory list \<Rightarrow> 'a) \<Rightarrow> process \<Rightarrow> 'a" where
  "WithInstances fn p = fn (instances p)"

subsection \<open>\<^verbatim>\<open>allocator_interface.h\<close>: the bump allocator that a user replaces\<close>

definition kHeapSize :: u64 where "kHeapSize = 512 * 2 ^ 20"

definition initialize_heap :: "os \<Rightarrow> (process, unit) op" where
  "initialize_heap os p = (case NewInstance os kHeapSize p of
     (Inl e, p) \<Rightarrow> (Inl (Ended (Some (- 1))), p)
   | (Inr k, p) \<Rightarrow> (Inr (), p\<lparr>g_heap := k\<rparr>))"

definition initialize :: "os \<Rightarrow> (process, unit) op" where
  "initialize os p = (case MMapHeap_New os kHeapSize p of
     (Inl e, p) \<Rightarrow> (Inl crash, p)
   | (Inr m, p) \<Rightarrow> (Inr (), (set_heap (static_heap os) m p)\<lparr>g_heap := static_heap os\<rparr>))"

definition heap_sbrk :: "ptr \<Rightarrow> u64 \<Rightarrow> (process, ptr) op" where
  "heap_sbrk k n p = (case map_of (heap_objects p) k of
     None \<Rightarrow> (Inl crash, p)
   | Some m \<Rightarrow> (case Heap_sbrk n m of (r, m') \<Rightarrow> (Inr r, set_heap k m' p)))"

definition bump_malloc :: "os \<Rightarrow> u64 \<Rightarrow> u64 \<Rightarrow> (process, ptr) op" where
  "bump_malloc os sz alignment =
     op_bind (\<lambda>p. if g_heap p = 0 then initialize os p else (Inr (), p)) (\<lambda>_ p.
       if sz = 0 then (Inr 0, p)
       else let round_up = (sz + 0xf) AND NOT 0xf in heap_sbrk (g_heap p) round_up p)"

definition bump_calloc :: "os \<Rightarrow> u64 \<Rightarrow> u64 \<Rightarrow> (process, ptr) op" where
  "bump_calloc os nmemb sz = op_bind (bump_malloc os (nmemb * sz) 0) (\<lambda>q.
     if q \<noteq> 0 then op_bind (op_memory (memset q 0 (nmemb * sz))) (\<lambda>_. op_return q) else op_return q)"

definition bump_realloc :: "os \<Rightarrow> ptr \<Rightarrow> u64 \<Rightarrow> (process, ptr) op" where
  "bump_realloc os q sz = op_bind (bump_malloc os sz 0) (\<lambda>r.
     if q \<noteq> 0 \<and> r \<noteq> 0 then op_bind (op_memory (memcpy r q sz)) (\<lambda>_. op_return r) else op_return r)"

definition bump_free :: "ptr \<Rightarrow> u64 \<Rightarrow> u64 \<Rightarrow> (process, unit) op" where
  "bump_free q sz alignment = op_return ()"

definition bump_get_size :: "ptr \<Rightarrow> (process, u64) op" where
  "bump_get_size q = op_return 0"

text \<open>The functions of the interface, as a client calls them.\<close>

record 's bench_api =
  bench_initialize_heap :: "('s, unit) op"
  bench_malloc :: "u64 \<Rightarrow> u64 \<Rightarrow> ('s, ptr) op"
  bench_calloc :: "u64 \<Rightarrow> u64 \<Rightarrow> ('s, ptr) op"
  bench_realloc :: "ptr \<Rightarrow> u64 \<Rightarrow> ('s, ptr) op"
  bench_free :: "ptr \<Rightarrow> u64 \<Rightarrow> u64 \<Rightarrow> ('s, unit) op"
  bench_get_size :: "ptr \<Rightarrow> ('s, u64) op"

definition bump :: "os \<Rightarrow> process bench_api" where
  "bump os = \<lparr>bench_initialize_heap = initialize_heap os, bench_malloc = bump_malloc os,
     bench_calloc = bump_calloc os, bench_realloc = bump_realloc os, bench_free = bump_free,
     bench_get_size = bump_get_size\<rparr>"

end
