(* ===== verification/Local_Ids.thy ===== *)
theory Local_Ids
  imports Trace
begin

section \<open>Trace identifiers\<close>

text \<open>
  \<^verbatim>\<open>src/concurrent_id_map.cc\<close> maps the globally unique id of an allocation to its pointer
  or to the operation that waits for it; \<^verbatim>\<open>src/local_id_map.cc\<close> cuts a trace into batches
  whose ids are indices into an array of 512 pointers. The outer \<open>option\<close> of a result is
  \<open>None\<close> where the C++ code has undefined behaviour: reading the inactive member of the
  union \<^verbatim>\<open>MapVal\<close>, or an array access out of bounds. Each method is one atomic step.
\<close>

subsection \<open>\<^verbatim>\<open>ConcurrentIdMap\<close>\<close>

type_synonym queued_op = "trace_line \<times> u64"

datatype map_val = allocated_ptr ptr | pending_idx queued_op

record id_store =
  store_id_map :: "(u64 \<times> map_val) list"
  store_queued_ops :: "queued_op list"

definition UniqueId :: "u64 \<Rightarrow> u64 \<Rightarrow> trace_line list \<Rightarrow> u64" where
  "UniqueId i iteration tracefile = i + iteration * of_nat (length tracefile)"

definition AddAllocation :: "u64 \<Rightarrow> ptr \<Rightarrow> id_store \<Rightarrow> (unit status_or \<times> id_store) option" where
  "AddAllocation i p st = (case map_of (store_id_map st) i of
     None \<Rightarrow> Some (Inr (), st\<lparr>store_id_map := (i, allocated_ptr p) # store_id_map st\<rparr>)
   | Some (pending_idx op) \<Rightarrow> Some (Inr (), st\<lparr>store_id_map := AList.update i (allocated_ptr p) (store_id_map st),
       store_queued_ops := store_queued_ops st @ [op]\<rparr>)
   | Some (allocated_ptr _) \<Rightarrow> None)"

definition AddFree :: "u64 \<Rightarrow> id_store \<Rightarrow> unit status_or \<times> id_store" where
  "AddFree i st = (if map_of (store_id_map st) i = None then (Inl (Erase_failed i), st)
     else (Inr (), st\<lparr>store_id_map := AList.delete i (store_id_map st)\<rparr>))"

definition LookupAllocation :: "u64 \<Rightarrow> id_store \<Rightarrow> ptr option option" where
  "LookupAllocation i st = (case map_of (store_id_map st) i of
     None \<Rightarrow> Some None
   | Some (allocated_ptr p) \<Rightarrow> Some (Some p)
   | Some (pending_idx _) \<Rightarrow> None)"

definition MaybeSuspendAllocation :: "u64 \<Rightarrow> queued_op \<Rightarrow> id_store \<Rightarrow> bool \<times> id_store" where
  "MaybeSuspendAllocation i op st = (if map_of (store_id_map st) i = None
     then (True, st\<lparr>store_id_map := (i, pending_idx op) # store_id_map st\<rparr>) else (False, st))"

definition TakeFromQueue :: "nat \<Rightarrow> id_store \<Rightarrow> queued_op list \<times> id_store" where
  "TakeFromQueue n st = (take n (store_queued_ops st), st\<lparr>store_queued_ops := drop n (store_queued_ops st)\<rparr>)"

subsection \<open>\<^verbatim>\<open>UniqueTemporalIdGenerator\<close>\<close>

text \<open>The ordered set of available ids is its list in ascending order.\<close>

record id_gen =
  gen_next_id :: u64
  gen_available_ids :: "u64 list"

definition NextUnusedId :: "id_gen \<Rightarrow> u64 \<times> id_gen" where
  "NextUnusedId g = (gen_next_id g, g\<lparr>gen_next_id := gen_next_id g + 1\<rparr>)"

definition NextId :: "id_gen \<Rightarrow> u64 \<times> id_gen" where
  "NextId g = (case gen_available_ids g of i # is \<Rightarrow> (i, g\<lparr>gen_available_ids := is\<rparr>) | [] \<Rightarrow> NextUnusedId g)"

definition FreeId :: "u64 \<Rightarrow> id_gen \<Rightarrow> id_gen" where
  "FreeId i g = g\<lparr>gen_available_ids := insort_insert i (gen_available_ids g)\<rparr>"

subsection \<open>\<^verbatim>\<open>BatchContext\<close>\<close>

definition kBatchSize :: nat where "kBatchSize = 512"
definition kMaxQueuedOpsTaken :: nat where "kMaxQueuedOpsTaken = 128"

text \<open>\<open>ctx_id_map\<close> is the array \<^verbatim>\<open>id_map_\<close> of the context.\<close>

record batch_context =
  ctx_ops :: "trace_line list"
  ctx_id_to_idx :: "(u64 \<times> u64) list"
  ctx_id_map :: "ptr list"

definition array_set :: "u64 \<Rightarrow> 'a \<Rightarrow> 'a list \<Rightarrow> 'a list option" where
  "array_set i v xs = (if unat i < length xs then Some (xs[unat i := v]) else None)"

definition array_get :: "u64 \<Rightarrow> 'a list \<Rightarrow> 'a option" where
  "array_get i xs = (if unat i < length xs then Some (xs ! unat i) else None)"

type_synonym batch_state = "batch_context \<times> id_gen \<times> id_store"

text \<open>One iteration of the loop of \<^verbatim>\<open>MakeFromOps\<close>: first the consumed id.\<close>

definition batch_input :: "trace_line list \<Rightarrow> queued_op \<Rightarrow> batch_state \<Rightarrow> (trace_line \<times> batch_state) status_or option" where
  "batch_input tracefile op st = (case (op, st) of ((line, iteration), (ctx, g, store)) \<Rightarrow>
     (case input_id line of
        None \<Rightarrow> Some (Inr (line, st))
      | Some i \<Rightarrow>
          let u = UniqueId i iteration tracefile in
          (case map_of (ctx_id_to_idx ctx) u of
             Some idx \<Rightarrow> Some (Inr (SetInputId line idx,
               (ctx\<lparr>ctx_id_to_idx := AList.delete u (ctx_id_to_idx ctx)\<rparr>, FreeId idx g, store)))
           | None \<Rightarrow>
               let (idx, g) = NextUnusedId g in
               Option.bind (LookupAllocation u store) (\<lambda>allocation. case allocation of
                   None \<Rightarrow> Some (Inl (No_allocation u))
                 | Some p \<Rightarrow> (case AddFree u store of
                       (Inl e, store) \<Rightarrow> Some (Inl e)
                     | (Inr _, store) \<Rightarrow>
                         Option.bind (array_set idx p (ctx_id_map ctx)) (\<lambda>a.
                           Some (Inr (SetInputId line idx, (ctx\<lparr>ctx_id_map := a\<rparr>, FreeId idx g, store)))))))))"

text \<open>Then the produced id; the line is added to the batch.\<close>

definition batch_result :: "trace_line list \<Rightarrow> u64 \<Rightarrow> u64 option \<Rightarrow> trace_line \<times> batch_state \<Rightarrow> batch_state status_or" where
  "batch_result tracefile iteration result st = (case st of (line, (ctx, g, store)) \<Rightarrow>
     (case result of
        None \<Rightarrow> Inr (ctx\<lparr>ctx_ops := ctx_ops ctx @ [line]\<rparr>, g, store)
      | Some r \<Rightarrow>
          let u = UniqueId r iteration tracefile; (idx, g) = NextId g in
          if map_of (ctx_id_to_idx ctx) u \<noteq> None then Inl (Duplicate_unique_id u)
          else Inr (ctx\<lparr>ctx_id_to_idx := (u, idx) # ctx_id_to_idx ctx, ctx_ops := ctx_ops ctx @ [SetResultId line idx]\<rparr>, g, store)))"

primrec batch_ops :: "trace_line list \<Rightarrow> queued_op list \<Rightarrow> batch_state \<Rightarrow> batch_state status_or option" where
  "batch_ops tracefile [] st = Some (Inr st)"
| "batch_ops tracefile (op # ops) st = Option.bind (batch_input tracefile op st) (\<lambda>r. case r of
     Inl e \<Rightarrow> Some (Inl e)
   | Inr s \<Rightarrow> (case batch_result tracefile (snd op) (result_id (fst op)) s of
         Inl e \<Rightarrow> Some (Inl e)
       | Inr st \<Rightarrow> batch_ops tracefile ops st))"

text \<open>The array is not initialised: its contents \<open>junk\<close> are arbitrary.\<close>

definition MakeFromOps ::
  "trace_line list \<Rightarrow> ptr list \<Rightarrow> queued_op list \<Rightarrow> id_store \<Rightarrow> (batch_context \<times> id_store) status_or option" where
  "MakeFromOps tracefile junk ops store =
     map_option (\<lambda>r. status_bind r (\<lambda>(ctx, g, store). Inr (ctx, store)))
       (batch_ops tracefile ops
         (\<lparr>ctx_ops = [], ctx_id_to_idx = [], ctx_id_map = junk\<rparr>, \<lparr>gen_next_id = 0, gen_available_ids = []\<rparr>, store))"

subsection \<open>\<^verbatim>\<open>LocalIdMap\<close>\<close>

definition CanDoOpOrQueue ::
  "trace_line list \<Rightarrow> u64 set \<Rightarrow> trace_line \<Rightarrow> u64 \<Rightarrow> id_store \<Rightarrow> bool \<times> u64 set \<times> id_store" where
  "CanDoOpOrQueue tracefile local_allocations line iteration store =
     (let (can, loc, store) = (case input_id line of
          None \<Rightarrow> (True, local_allocations, store)
        | Some i \<Rightarrow> let u = UniqueId i iteration tracefile in
            if u \<in> local_allocations then (True, local_allocations - {u}, store)
            else let (suspended, store) = MaybeSuspendAllocation u (line, iteration) store in
              (\<not> suspended, local_allocations, store)) in
      if \<not> can then (False, loc, store)
      else (True, (case result_id line of
          None \<Rightarrow> loc | Some r \<Rightarrow> insert (UniqueId r iteration tracefile) loc), store))"

text \<open>The inner loop over the trace positions \<open>i, \<dots>, i + n - 1\<close>.\<close>

primrec take_ops ::
  "trace_line list \<Rightarrow> u64 \<Rightarrow> nat \<Rightarrow> u64 set \<Rightarrow> id_store \<Rightarrow> queued_op list \<times> u64 set \<times> id_store" where
  "take_ops tracefile i 0 loc store = ([], loc, store)"
| "take_ops tracefile i (Suc n) loc store =
     (let line = tracefile ! unat (i mod of_nat (length tracefile));
          iteration = i div of_nat (length tracefile);
          (can, loc, store) = CanDoOpOrQueue tracefile loc line iteration store;
          (ops, loc, store) = take_ops tracefile (i + 1) n loc store
      in ((if can then (line, iteration) # ops else ops), loc, store))"

text \<open>The outer loop; the shared counter \<^verbatim>\<open>idx_\<close> is \<open>idx\<close>, \<open>n_total\<close> the number of operations of all repetitions.\<close>

partial_function (option) prepare_loop ::
  "trace_line list \<Rightarrow> u64 \<Rightarrow> nat \<Rightarrow> queued_op list \<Rightarrow> u64 set \<Rightarrow> u64 \<Rightarrow> id_store \<Rightarrow> (queued_op list \<times> u64 \<times> id_store) option" where
  "prepare_loop tracefile n_total n taken loc idx store =
     (if n \<le> length taken then Some (taken, idx, store)
      else let remaining = of_nat (n - length taken);
               (first_idx, idx) = (if n_total \<le> idx then (n_total, n_total) else (idx, idx + remaining));
               end_idx = min (first_idx + remaining) n_total
        in if first_idx = end_idx then Some (taken, idx, store)
           else let (ops, loc, store) = take_ops tracefile first_idx (unat (end_idx - first_idx)) loc store
             in prepare_loop tracefile n_total n (taken @ ops) loc idx store)"

declare prepare_loop.simps [code]

definition PrepareOpsFromTrace ::
  "trace_line list \<Rightarrow> u64 \<Rightarrow> nat \<Rightarrow> u64 \<Rightarrow> id_store \<Rightarrow> (queued_op list \<times> u64 \<times> id_store) option" where
  "PrepareOpsFromTrace tracefile num_repetitions n idx store =
     prepare_loop tracefile (num_repetitions * of_nat (length tracefile)) n [] {} idx store"

definition PrepareBatch ::
  "trace_line list \<Rightarrow> u64 \<Rightarrow> ptr list \<Rightarrow> u64 \<Rightarrow> id_store \<Rightarrow> ((batch_context \<times> id_store) status_or \<times> u64) option" where
  "PrepareBatch tracefile num_repetitions junk idx store =
     (let (queued, store) = TakeFromQueue kMaxQueuedOpsTaken store in
      Option.bind (PrepareOpsFromTrace tracefile num_repetitions (kBatchSize - length queued) idx store)
        (\<lambda>(ops, idx, store). map_option (\<lambda>r. (r, idx)) (MakeFromOps tracefile junk (queued @ ops) store)))"

primrec flush_ids :: "(u64 \<times> u64) list \<Rightarrow> ptr list \<Rightarrow> id_store \<Rightarrow> (unit status_or \<times> id_store) option" where
  "flush_ids [] a store = Some (Inr (), store)"
| "flush_ids (p # ps) a store = Option.bind (array_get (snd p) a) (\<lambda>v.
     Option.bind (AddAllocation (fst p) v store) (\<lambda>(r, store).
       case r of Inl e \<Rightarrow> Some (Inl e, store) | Inr _ \<Rightarrow> flush_ids ps a store))"

definition FlushOps :: "batch_context \<Rightarrow> id_store \<Rightarrow> (unit status_or \<times> id_store) option" where
  "FlushOps ctx store = flush_ids (ctx_id_to_idx ctx) (ctx_id_map ctx) store"

end
