(* ===== verification/Executor.thy ===== *)
theory Executor
  imports Local_Ids
begin

section \<open>Replaying a trace\<close>

text \<open>
  \<^verbatim>\<open>src/tracefile_executor.h\<close> for one thread. The allocator under test is the template
  parameter of \<^verbatim>\<open>TracefileExecutor\<close>: a record with the functions of the concept
  \<^verbatim>\<open>TracefileAllocator\<close>. Times and trace events are left out; with one thread the
  barrier never waits and \<^verbatim>\<open>done\<close> stays false.
\<close>

record 'h allocator =
  InitializeHeap :: "'h \<Rightarrow> unit status_or \<times> 'h"
  CleanupHeap :: "'h \<Rightarrow> unit status_or \<times> 'h"
  Malloc :: "u64 \<Rightarrow> u64 option \<Rightarrow> 'h \<Rightarrow> ptr status_or \<times> 'h"
  Calloc :: "u64 \<Rightarrow> u64 \<Rightarrow> 'h \<Rightarrow> ptr status_or \<times> 'h"
  Realloc :: "ptr \<Rightarrow> u64 \<Rightarrow> 'h \<Rightarrow> ptr status_or \<times> 'h"
  Free :: "ptr \<Rightarrow> u64 option \<Rightarrow> u64 option \<Rightarrow> 'h \<Rightarrow> unit status_or \<times> 'h"

type_synonym 'h outcome = "unit status_or \<times> ptr list \<times> 'h"

definition DoMalloc :: "'h allocator \<Rightarrow> malloc_line \<Rightarrow> ptr list \<Rightarrow> 'h \<Rightarrow> 'h outcome option" where
  "DoMalloc A l a h = (case Malloc A (field (malloc_input_size l)) (malloc_input_alignment l) h of
     (Inl e, h) \<Rightarrow> Some (Inl e, a, h)
   | (Inr p, h) \<Rightarrow> (case malloc_result_id l of
         Some i \<Rightarrow> if field (malloc_input_size l) \<noteq> 0
           then map_option (\<lambda>a. (Inr (), a, h)) (array_set i p a) else Some (Inr (), a, h)
       | None \<Rightarrow> Some (Inr (), a, h)))"

definition DoCalloc :: "'h allocator \<Rightarrow> calloc_line \<Rightarrow> ptr list \<Rightarrow> 'h \<Rightarrow> 'h outcome option" where
  "DoCalloc A l a h = (case Calloc A (field (calloc_input_nmemb l)) (field (calloc_input_size l)) h of
     (Inl e, h) \<Rightarrow> Some (Inl e, a, h)
   | (Inr p, h) \<Rightarrow> (case calloc_result_id l of
         Some i \<Rightarrow> if field (calloc_input_nmemb l) \<noteq> 0 \<and> field (calloc_input_size l) \<noteq> 0
           then map_option (\<lambda>a. (Inr (), a, h)) (array_set i p a) else Some (Inr (), a, h)
       | None \<Rightarrow> Some (Inr (), a, h)))"

definition DoRealloc :: "'h allocator \<Rightarrow> realloc_line \<Rightarrow> ptr list \<Rightarrow> 'h \<Rightarrow> 'h outcome option" where
  "DoRealloc A l a h =
     Option.bind (case realloc_input_id l of Some i \<Rightarrow> array_get i a | None \<Rightarrow> Some 0) (\<lambda>input_ptr.
       case Realloc A input_ptr (field (realloc_input_size l)) h of
         (Inl e, h) \<Rightarrow> Some (Inl e, a, h)
       | (Inr p, h) \<Rightarrow> map_option (\<lambda>a. (Inr (), a, h)) (array_set (field (realloc_result_id l)) p a))"

definition DoFree :: "'h allocator \<Rightarrow> free_line \<Rightarrow> ptr list \<Rightarrow> 'h \<Rightarrow> 'h outcome option" where
  "DoFree A l a h = (case free_input_id l of
     None \<Rightarrow> (case Free A 0 None None h of (r, h) \<Rightarrow> Some (r, a, h))
   | Some i \<Rightarrow> Option.bind (array_get i a) (\<lambda>p.
       case Free A p (free_input_size_hint l) (free_input_alignment_hint l) h of (r, h) \<Rightarrow> Some (r, a, h)))"

text \<open>A line without operation is unreachable code in \<^verbatim>\<open>ProcessLine\<close>.\<close>

fun ProcessLine :: "'h allocator \<Rightarrow> trace_line \<Rightarrow> ptr list \<Rightarrow> 'h \<Rightarrow> 'h outcome option" where
  "ProcessLine A (kMalloc l) = DoMalloc A l"
| "ProcessLine A (kCalloc l) = DoCalloc A l"
| "ProcessLine A (kRealloc l) = DoRealloc A l"
| "ProcessLine A (kFree l) = DoFree A l"
| "ProcessLine A OP_NOT_SET = (\<lambda>a h. None)"

primrec process_lines :: "'h allocator \<Rightarrow> trace_line list \<Rightarrow> ptr list \<Rightarrow> 'h \<Rightarrow> 'h outcome option" where
  "process_lines A [] a h = Some (Inr (), a, h)"
| "process_lines A (l # ls) a h = Option.bind (ProcessLine A l a h) (\<lambda>(r, a, h).
     case r of Inl e \<Rightarrow> Some (Inl e, a, h) | Inr _ \<Rightarrow> process_lines A ls a h)"

text \<open>The loop of \<^verbatim>\<open>ProcessorWorker\<close>; \<open>junk n\<close> is what the \<open>n\<close>th batch's array holds at first.\<close>

partial_function (option) worker_loop ::
  "'h allocator \<Rightarrow> trace_line list \<Rightarrow> u64 \<Rightarrow> (nat \<Rightarrow> ptr list) \<Rightarrow> nat \<Rightarrow> u64 \<Rightarrow> id_store \<Rightarrow> 'h \<Rightarrow> (unit status_or \<times> 'h) option" where
  "worker_loop A tracefile num_repetitions junk n idx store h =
     Option.bind (PrepareBatch tracefile num_repetitions (junk n) idx store) (\<lambda>(r, idx). case r of
         Inl e \<Rightarrow> Some (Inl e, h)
       | Inr (ctx, store) \<Rightarrow>
           if ctx_ops ctx = [] then Some (Inr (), h)
           else Option.bind (process_lines A (ctx_ops ctx) (ctx_id_map ctx) h) (\<lambda>(r, a, h). case r of
               Inl e \<Rightarrow> Some (Inl e, h)
             | Inr _ \<Rightarrow> Option.bind (FlushOps (ctx\<lparr>ctx_id_map := a\<rparr>) store) (\<lambda>(r, store). case r of
                   Inl e \<Rightarrow> Some (Inl e, h)
                 | Inr _ \<Rightarrow> worker_loop A tracefile num_repetitions junk (Suc n) idx store h)))"

declare worker_loop.simps [code]

definition ProcessorWorker ::
  "'h allocator \<Rightarrow> trace_line list \<Rightarrow> u64 \<Rightarrow> (nat \<Rightarrow> ptr list) \<Rightarrow> 'h \<Rightarrow> (unit status_or \<times> 'h) option" where
  "ProcessorWorker A tracefile num_repetitions junk h =
     worker_loop A tracefile num_repetitions junk 0 0 \<lparr>store_id_map = [], store_queued_ops = []\<rparr> h"

definition ProcessTracefile ::
  "'h allocator \<Rightarrow> trace_line list \<Rightarrow> u64 \<Rightarrow> (nat \<Rightarrow> ptr list) \<Rightarrow> 'h \<Rightarrow> (unit status_or \<times> 'h) option" where
  "ProcessTracefile A lines num_repetitions junk h = (case RewriteIdsToUnique lines of
     Inl e \<Rightarrow> Some (Inl e, h)
   | Inr tracefile \<Rightarrow> ProcessorWorker A tracefile num_repetitions junk h)"

text \<open>When a call has ended the process (\<open>Ended\<close>), nothing that follows is run.\<close>

definition RunRepeated ::
  "'h allocator \<Rightarrow> trace_line list \<Rightarrow> u64 \<Rightarrow> (nat \<Rightarrow> ptr list) \<Rightarrow> 'h \<Rightarrow> (unit status_or \<times> 'h) option" where
  "RunRepeated A lines num_repetitions junk h = (case InitializeHeap A h of
     (Inl e, h) \<Rightarrow> Some (Inl e, h)
   | (Inr _, h) \<Rightarrow> map_option (\<lambda>(result, h).
       if ended result then (result, h)
       else case CleanupHeap A h of
         (Inl e, h) \<Rightarrow> (Inl e, h)
       | (Inr _, h) \<Rightarrow> (result, h)) (ProcessTracefile A lines num_repetitions junk h))"

definition Run ::
  "'h allocator \<Rightarrow> trace_line list \<Rightarrow> (nat \<Rightarrow> ptr list) \<Rightarrow> 'h \<Rightarrow> (unit status_or \<times> 'h) option" where
  "Run A lines junk h = RunRepeated A lines 1 junk h"

subsection \<open>The reference: a trace is executed line by line\<close>

text \<open>\<open>M\<close> maps every id to the pointer its allocation returned.\<close>

fun ref_line :: "'h allocator \<Rightarrow> trace_line \<Rightarrow> (u64 \<Rightarrow> ptr) \<Rightarrow> 'h \<Rightarrow> unit status_or \<times> (u64 \<Rightarrow> ptr) \<times> 'h" where
  "ref_line A (kMalloc l) M h = (case Malloc A (field (malloc_input_size l)) (malloc_input_alignment l) h of
     (Inl e, h) \<Rightarrow> (Inl e, M, h)
   | (Inr p, h) \<Rightarrow> (Inr (), (case malloc_result_id l of None \<Rightarrow> M | Some i \<Rightarrow> M(i := p)), h))"
| "ref_line A (kCalloc l) M h = (case Calloc A (field (calloc_input_nmemb l)) (field (calloc_input_size l)) h of
     (Inl e, h) \<Rightarrow> (Inl e, M, h)
   | (Inr p, h) \<Rightarrow> (Inr (), (case calloc_result_id l of None \<Rightarrow> M | Some i \<Rightarrow> M(i := p)), h))"
| "ref_line A (kRealloc l) M h =
     (case Realloc A (case realloc_input_id l of None \<Rightarrow> 0 | Some i \<Rightarrow> M i) (field (realloc_input_size l)) h of
        (Inl e, h) \<Rightarrow> (Inl e, M, h)
      | (Inr p, h) \<Rightarrow> (Inr (), M(field (realloc_result_id l) := p), h))"
| "ref_line A (kFree l) M h =
     (case (case free_input_id l of None \<Rightarrow> Free A 0 None None h
         | Some i \<Rightarrow> Free A (M i) (free_input_size_hint l) (free_input_alignment_hint l) h) of
        (r, h) \<Rightarrow> (r, M, h))"
| "ref_line A OP_NOT_SET M h = (Inl Op_not_set, M, h)"

primrec ref_lines :: "'h allocator \<Rightarrow> trace_line list \<Rightarrow> (u64 \<Rightarrow> ptr) \<Rightarrow> 'h \<Rightarrow> unit status_or \<times> (u64 \<Rightarrow> ptr) \<times> 'h" where
  "ref_lines A [] M h = (Inr (), M, h)"
| "ref_lines A (l # ls) M h = (case ref_line A l M h of
     (Inl e, M, h) \<Rightarrow> (Inl e, M, h) | (Inr _, M, h) \<Rightarrow> ref_lines A ls M h)"

definition replay :: "'h allocator \<Rightarrow> trace_line list \<Rightarrow> 'h \<Rightarrow> unit status_or \<times> 'h" where
  "replay A ls h = (case ref_lines A ls (\<lambda>_. 0) h of (r, M, h) \<Rightarrow> (r, h))"

text \<open>An allocation of zero bytes that records its result does not set its id.\<close>

fun sets_id :: "trace_line \<Rightarrow> bool" where
  "sets_id (kMalloc l) = (malloc_result_id l \<noteq> None \<longrightarrow> field (malloc_input_size l) \<noteq> 0)"
| "sets_id (kCalloc l) = (calloc_result_id l \<noteq> None \<longrightarrow> field (calloc_input_nmemb l) \<noteq> 0 \<and> field (calloc_input_size l) \<noteq> 0)"
| "sets_id l = True"

subsection \<open>Executions of the same trace\<close>

definition agree :: "('a \<times> 'b) set \<Rightarrow> ('a \<Rightarrow> ptr) \<Rightarrow> ('b \<Rightarrow> ptr) \<Rightarrow> bool" where
  "agree R M M' \<longleftrightarrow> (\<forall>p\<in>R. M (fst p) = M' (snd p))"

text \<open>The pairs that are live after two corresponding lines, or lists of lines.\<close>

definition next_pairs :: "trace_line \<Rightarrow> trace_line \<Rightarrow> (u64 \<times> u64) set \<Rightarrow> (u64 \<times> u64) set" where
  "next_pairs l l' R = enter (result_id l) (result_id l') (retire (input_id l) (input_id l') R)"

fun last_pairs :: "trace_line list \<Rightarrow> trace_line list \<Rightarrow> (u64 \<times> u64) set \<Rightarrow> (u64 \<times> u64) set" where
  "last_pairs (l # ls) (l' # ls') R = last_pairs ls ls' (next_pairs l l' R)"
| "last_pairs _ _ R = R"

definition corresponds :: "(u64 \<times> u64) set \<Rightarrow> trace_line \<Rightarrow> trace_line \<Rightarrow> bool" where
  "corresponds R l l' \<longleftrightarrow> strip_ids l = strip_ids l'
     \<and> rel_option (\<lambda>i j. (i, j) \<in> R) (input_id l) (input_id l') \<and> (result_id l = None \<longleftrightarrow> result_id l' = None)"

lemma same_trace_Cons:
  "same_trace R (l # ls) (l' # ls') \<longleftrightarrow> corresponds R l l' \<and> same_trace (next_pairs l l' R) ls ls'"
  by (simp add: corresponds_def next_pairs_def)

lemma same_trace_length: "same_trace R ls ls' \<Longrightarrow> length ls = length ls'"
  by (induction R ls ls' rule: same_trace.induct) simp_all

lemma same_trace_append:
  assumes "length xs = length xs'"
  shows "same_trace R (xs @ ys) (xs' @ ys') \<longleftrightarrow> same_trace R xs xs' \<and> same_trace (last_pairs xs xs' R) ys ys'"
  using assms by (induction xs xs' arbitrary: R rule: list_induct2) (simp_all add: same_trace_Cons del: same_trace.simps(2))

lemma agree_retire: "agree R M M' \<Longrightarrow> agree (retire a b R) M M'"
  by (auto simp: agree_def retire_def)

lemma agree_enter: "agree R M M' \<Longrightarrow> agree (enter (Some a) (Some b) R) (M(a := p)) (M'(b := p))"
  by (auto simp: agree_def enter_def retire_def)

lemma strip_eq_fields:
  "strip_ids (kMalloc x) = strip_ids l' \<Longrightarrow>
     \<exists>y. l' = kMalloc y \<and> malloc_input_size y = malloc_input_size x \<and> malloc_input_alignment y = malloc_input_alignment x"
  "strip_ids (kCalloc c) = strip_ids l' \<Longrightarrow>
     \<exists>y. l' = kCalloc y \<and> calloc_input_nmemb y = calloc_input_nmemb c \<and> calloc_input_size y = calloc_input_size c"
  "strip_ids (kRealloc r) = strip_ids l' \<Longrightarrow> \<exists>y. l' = kRealloc y \<and> realloc_input_size y = realloc_input_size r"
  "strip_ids (kFree f) = strip_ids l' \<Longrightarrow> \<exists>y. l' = kFree y \<and> free_input_size_hint y = free_input_size_hint f
     \<and> free_input_alignment_hint y = free_input_alignment_hint f"
  "strip_ids OP_NOT_SET = strip_ids l' \<Longrightarrow> l' = OP_NOT_SET"
proof -
  have m: "malloc_input_size y = malloc_input_size x \<and> malloc_input_alignment y = malloc_input_alignment x"
    if "x\<lparr>malloc_result_id := None\<rparr> = y\<lparr>malloc_result_id := None\<rparr>" for x y
    using that by (cases x; cases y) simp
  have c: "calloc_input_nmemb y = calloc_input_nmemb x \<and> calloc_input_size y = calloc_input_size x"
    if "x\<lparr>calloc_result_id := None\<rparr> = y\<lparr>calloc_result_id := None\<rparr>" for x y
    using that by (cases x; cases y) simp
  have r: "realloc_input_size y = realloc_input_size x"
    if "x\<lparr>realloc_result_id := None, realloc_input_id := None\<rparr> = y\<lparr>realloc_result_id := None, realloc_input_id := None\<rparr>" for x y
    using that by (cases x; cases y) simp
  have f: "free_input_size_hint y = free_input_size_hint x \<and> free_input_alignment_hint y = free_input_alignment_hint x"
    if "x\<lparr>free_input_id := None\<rparr> = y\<lparr>free_input_id := None\<rparr>" for x y
    using that by (cases x; cases y) simp
  show "strip_ids (kMalloc x) = strip_ids l' \<Longrightarrow>
     \<exists>y. l' = kMalloc y \<and> malloc_input_size y = malloc_input_size x \<and> malloc_input_alignment y = malloc_input_alignment x"
    by (cases l') (auto dest: m)
  show "strip_ids (kCalloc c) = strip_ids l' \<Longrightarrow>
     \<exists>y. l' = kCalloc y \<and> calloc_input_nmemb y = calloc_input_nmemb c \<and> calloc_input_size y = calloc_input_size c"
    by (cases l') (auto dest: c)
  show "strip_ids (kRealloc r) = strip_ids l' \<Longrightarrow> \<exists>y. l' = kRealloc y \<and> realloc_input_size y = realloc_input_size r"
    by (cases l') (auto dest: r)
  show "strip_ids (kFree f) = strip_ids l' \<Longrightarrow> \<exists>y. l' = kFree y \<and> free_input_size_hint y = free_input_size_hint f
     \<and> free_input_alignment_hint y = free_input_alignment_hint f"
    by (cases l') (auto dest: f)
  show "strip_ids OP_NOT_SET = strip_ids l' \<Longrightarrow> l' = OP_NOT_SET" by (cases l') simp_all
qed

lemma agreeD: "agree R M M' \<Longrightarrow> (a, b) \<in> R \<Longrightarrow> M' b = M a"
  by (force simp: agree_def)

lemma ref_line_same:
  assumes c: "corresponds R l l'" and a: "agree R M M'"
    and r: "ref_line A l M h = (r, M1, h1)" and r': "ref_line A l' M' h = (r', M1', h1')"
  shows "r' = r" "h1' = h1" "r = Inr u \<Longrightarrow> agree (next_pairs l l' R) M1 M1'"
proof -
  have s: "strip_ids l = strip_ids l'" and i: "rel_option (\<lambda>i j. (i, j) \<in> R) (input_id l) (input_id l')"
    and o: "result_id l = None \<longleftrightarrow> result_id l' = None" using c by (simp_all add: corresponds_def)
  have "r' = r \<and> h1' = h1 \<and> (r = Inr u \<longrightarrow> agree (next_pairs l l' R) M1 M1')"
  proof (cases l)
    case (kMalloc x)
    obtain y where "l' = kMalloc y" "malloc_input_size y = malloc_input_size x" "malloc_input_alignment y = malloc_input_alignment x"
      using strip_eq_fields(1) [OF s [unfolded kMalloc]] by blast
    then show ?thesis
      using kMalloc r r' a o
      by (auto simp: next_pairs_def split: prod.splits sum.splits option.splits intro: agree_enter agree_retire)
        (auto simp: enter_def intro: agree_retire)
  next
    case (kCalloc x)
    obtain y where "l' = kCalloc y" "calloc_input_nmemb y = calloc_input_nmemb x" "calloc_input_size y = calloc_input_size x"
      using strip_eq_fields(2) [OF s [unfolded kCalloc]] by blast
    then show ?thesis
      using kCalloc r r' a o
      by (auto simp: next_pairs_def split: prod.splits sum.splits option.splits intro: agree_enter agree_retire)
        (auto simp: enter_def intro: agree_retire)
  next
    case (kRealloc x)
    obtain y where y: "l' = kRealloc y" "realloc_input_size y = realloc_input_size x"
      using strip_eq_fields(3) [OF s [unfolded kRealloc]] by blast
    have "(case realloc_input_id y of None \<Rightarrow> 0 | Some i \<Rightarrow> M' i) = (case realloc_input_id x of None \<Rightarrow> 0 | Some i \<Rightarrow> M i)"
      using i agreeD [OF a] by (auto simp: kRealloc y split: option.splits)
    then show ?thesis
      using kRealloc y r r' a
      by (auto simp: next_pairs_def split: prod.splits sum.splits intro!: agree_enter agree_retire)
  next
    case (kFree x)
    obtain y where y: "l' = kFree y" "free_input_size_hint y = free_input_size_hint x"
      "free_input_alignment_hint y = free_input_alignment_hint x"
      using strip_eq_fields(4) [OF s [unfolded kFree]] by blast
    have e: "(case free_input_id y of None \<Rightarrow> Free A 0 None None h
         | Some i \<Rightarrow> Free A (M' i) (free_input_size_hint y) (free_input_alignment_hint y) h)
      = (case free_input_id x of None \<Rightarrow> Free A 0 None None h
         | Some i \<Rightarrow> Free A (M i) (free_input_size_hint x) (free_input_alignment_hint x) h)"
      using i agreeD [OF a] by (auto simp: kFree y split: option.splits)
    show ?thesis
      using r r' a e unfolding kFree y(1)
      by (auto simp: next_pairs_def enter_def split: prod.splits intro!: agree_retire)
  next
    case OP_NOT_SET
    then show ?thesis using strip_eq_fields(5) [OF s [unfolded OP_NOT_SET]] r r' by auto
  qed
  then show "r' = r" "h1' = h1" "r = Inr u \<Longrightarrow> agree (next_pairs l l' R) M1 M1'" by blast+
qed

lemma ref_lines_same:
  assumes "same_trace R ls ls'" "agree R M M'"
    and "ref_lines A ls M h = (r, M1, h1)" "ref_lines A ls' M' h = (r', M1', h1')"
  shows "r' = r" "h1' = h1" "r = Inr u \<Longrightarrow> agree (last_pairs ls ls' R) M1 M1'"
proof -
  have "r' = r \<and> h1' = h1 \<and> (r = Inr u \<longrightarrow> agree (last_pairs ls ls' R) M1 M1')"
    using assms
  proof (induction R ls ls' arbitrary: M M' h rule: same_trace.induct)
    case (2 R l ls l' ls')
    have c: "corresponds R l l'" and t: "same_trace (next_pairs l l' R) ls ls'"
      using "2.prems"(1) unfolding same_trace_Cons by blast+
    obtain r1 N1 g1 where e: "ref_line A l M h = (r1, N1, g1)" by (cases "ref_line A l M h")
    obtain r2 N2 g2 where e': "ref_line A l' M' h = (r2, N2, g2)" by (cases "ref_line A l' M' h")
    note s = ref_line_same [OF c "2.prems"(2) e e']
    show ?case
    proof (cases r1)
      case (Inl x)
      then show ?thesis using "2.prems"(3,4) e e' s by auto
    next
      case (Inr v)
      have ag: "agree (next_pairs l l' R) N1 N2" by (rule s(3) [OF Inr])
      have "ref_lines A ls N1 g1 = (r, M1, h1)" "ref_lines A ls' N2 g1 = (r', M1', h1')"
        using "2.prems"(3,4) e e' s Inr by auto
      from "2.IH" [folded next_pairs_def, OF t ag this] show ?thesis by simp
    qed
  qed auto
  then show "r' = r" "h1' = h1" "r = Inr u \<Longrightarrow> agree (last_pairs ls ls' R) M1 M1'" by blast+
qed

subsection \<open>Executing with an array of pointers\<close>

definition in_array :: "('a \<times> u64) set \<Rightarrow> nat \<Rightarrow> bool" where
  "in_array R n \<longleftrightarrow> (\<forall>p\<in>R. unat (snd p) < n)"

lemma in_arrayD: "in_array R n \<Longrightarrow> (a, b) \<in> R \<Longrightarrow> unat b < n"
  by (force simp: in_array_def)

lemma in_array_next:
  assumes "in_array R n" "\<And>r. result_id l' = Some r \<Longrightarrow> unat r < n"
  shows "in_array (next_pairs l l' R) n"
  using assms by (auto simp: in_array_def next_pairs_def enter_def retire_def split: option.splits)

lemma sets_id_same: "corresponds R l l' \<Longrightarrow> sets_id l' = sets_id l"
proof -
  assume c: "corresponds R l l'"
  then have s: "strip_ids l = strip_ids l'" and o: "result_id l = None \<longleftrightarrow> result_id l' = None"
    by (simp_all add: corresponds_def)
  show "sets_id l' = sets_id l"
  proof (cases l)
    case (kMalloc x)
    then show ?thesis using strip_eq_fields(1) [OF s [unfolded kMalloc]] o by auto
  next
    case (kCalloc x)
    then show ?thesis using strip_eq_fields(2) [OF s [unfolded kCalloc]] o by auto
  next
    case (kRealloc x)
    then show ?thesis using strip_eq_fields(3) [OF s [unfolded kRealloc]] by auto
  next
    case (kFree x)
    then show ?thesis using strip_eq_fields(4) [OF s [unfolded kFree]] by auto
  next
    case OP_NOT_SET
    then show ?thesis using strip_eq_fields(5) [OF s [unfolded OP_NOT_SET]] by auto
  qed
qed

lemma agree_array:
  assumes "agree R M (\<lambda>b. a ! unat b)" "unat j < length a"
  shows "agree (enter (Some i) (Some j) R) (M(i := p)) (\<lambda>b. a[unat j := p] ! unat b)"
proof -
  have "a[unat j := p] ! unat b = ((\<lambda>b. a ! unat b)(j := p)) b" for b
    using assms(2) by (auto simp: nth_list_update word_unat_eq_iff)
  then have "(\<lambda>b. a[unat j := p] ! unat b) = (\<lambda>b. a ! unat b)(j := p)" by blast
  then show ?thesis using agree_enter [OF assms(1)] by simp
qed

lemma process_line_same:
  assumes c: "corresponds R l l'" and a: "agree R M (\<lambda>b. a ! unat b)" and b: "in_array R (length a)"
    and res: "\<And>r. result_id l' = Some r \<Longrightarrow> unat r < length a" and set: "sets_id l" and l: "l \<noteq> OP_NOT_SET"
    and r: "ref_line A l M h = (r, M1, h1)"
  shows "\<exists>a1. ProcessLine A l' a h = Some (r, a1, h1) \<and> length a1 = length a
    \<and> (r = Inr u \<longrightarrow> agree (next_pairs l l' R) M1 (\<lambda>b. a1 ! unat b))"
proof -
  have s: "strip_ids l = strip_ids l'" and i: "rel_option (\<lambda>i j. (i, j) \<in> R) (input_id l) (input_id l')"
    and o: "result_id l = None \<longleftrightarrow> result_id l' = None" using c by (simp_all add: corresponds_def)
  have set': "sets_id l'" using sets_id_same [OF c] set by simp
  show ?thesis
  proof (cases l)
    case (kMalloc x)
    obtain y where "l' = kMalloc y" "malloc_input_size y = malloc_input_size x" "malloc_input_alignment y = malloc_input_alignment x"
      using strip_eq_fields(1) [OF s [unfolded kMalloc]] by blast
    then show ?thesis
      using kMalloc r a o res set'
      by (auto simp: next_pairs_def DoMalloc_def array_set_def split: prod.splits sum.splits option.splits
          intro!: agree_array agree_retire) (auto simp: enter_def intro: agree_retire)
  next
    case (kCalloc x)
    obtain y where "l' = kCalloc y" "calloc_input_nmemb y = calloc_input_nmemb x" "calloc_input_size y = calloc_input_size x"
      using strip_eq_fields(2) [OF s [unfolded kCalloc]] by blast
    then show ?thesis
      using kCalloc r a o res set'
      by (auto simp: next_pairs_def DoCalloc_def array_set_def split: prod.splits sum.splits option.splits
          intro!: agree_array agree_retire) (auto simp: enter_def intro: agree_retire)
  next
    case (kRealloc x)
    obtain y where y: "l' = kRealloc y" "realloc_input_size y = realloc_input_size x"
      using strip_eq_fields(3) [OF s [unfolded kRealloc]] by blast
    have "(case realloc_input_id y of Some i \<Rightarrow> array_get i a | None \<Rightarrow> Some 0)
        = Some (case realloc_input_id x of None \<Rightarrow> 0 | Some i \<Rightarrow> M i)"
      using i agreeD [OF a] in_arrayD [OF b] by (auto simp: kRealloc y array_get_def split: option.splits)
    then show ?thesis
      using kRealloc y r a res
      by (auto simp: next_pairs_def DoRealloc_def array_set_def split: prod.splits sum.splits intro!: agree_array agree_retire)
  next
    case (kFree x)
    obtain y where y: "l' = kFree y" "free_input_size_hint y = free_input_size_hint x"
      "free_input_alignment_hint y = free_input_alignment_hint x"
      using strip_eq_fields(4) [OF s [unfolded kFree]] by blast
    have "DoFree A y a h = Some (case (case free_input_id x of None \<Rightarrow> Free A 0 None None h
         | Some i \<Rightarrow> Free A (M i) (free_input_size_hint x) (free_input_alignment_hint x) h) of (r, h) \<Rightarrow> (r, a, h))"
      using i agreeD [OF a] in_arrayD [OF b] y
      by (auto simp: kFree DoFree_def array_get_def split: option.splits prod.splits)
    then show ?thesis
      using kFree y(1) r a by (auto simp: next_pairs_def enter_def split: prod.splits intro!: agree_retire)
  qed (use l in simp)
qed

lemma process_lines_same:
  assumes "same_trace R ls ls'" "agree R M (\<lambda>b. a ! unat b)" "in_array R (length a)"
    and "\<And>r. r \<in> set (result_ids ls') \<Longrightarrow> unat r < length a" "\<And>l. l \<in> set ls \<Longrightarrow> sets_id l \<and> l \<noteq> OP_NOT_SET"
    and "ref_lines A ls M h = (r, M1, h1)"
  shows "\<exists>a1. process_lines A ls' a h = Some (r, a1, h1) \<and> length a1 = length a
    \<and> (r = Inr u \<longrightarrow> agree (last_pairs ls ls' R) M1 (\<lambda>b. a1 ! unat b))"
  using assms
proof (induction R ls ls' arbitrary: M a h rule: same_trace.induct)
  case (2 R l ls l' ls')
  have c: "corresponds R l l'" and t: "same_trace (next_pairs l l' R) ls ls'"
    using "2.prems"(1) unfolding same_trace_Cons by blast+
  obtain r1 N1 g1 where e: "ref_line A l M h = (r1, N1, g1)" by (cases "ref_line A l M h")
  have rb: "unat q < length a" if "result_id l' = Some q" for q using "2.prems"(4) [of q] that by simp
  have rb2: "unat q < length a" if "q \<in> set (result_ids ls')" for q
    using "2.prems"(4) [of q] that by (simp split: option.split)
  obtain a1 where a1: "ProcessLine A l' a h = Some (r1, a1, g1)" "length a1 = length a"
    "r1 = Inr () \<Longrightarrow> agree (next_pairs l l' R) N1 (\<lambda>b. a1 ! unat b)"
    using process_line_same [OF c "2.prems"(2,3) rb _ _ e, of "()"] "2.prems"(5) by auto
  show ?case
  proof (cases r1)
    case (Inl x)
    then show ?thesis using "2.prems"(6) e a1 by auto
  next
    case (Inr v)
    have "ref_lines A ls N1 g1 = (r, M1, h1)" using "2.prems"(6) e Inr by simp
    from "2.IH" [folded next_pairs_def, OF t a1(3) _ _ _ this] show ?thesis
      using Inr a1 rb2 "2.prems"(5) in_array_next [OF "2.prems"(3), of l' l] rb by auto
  qed
qed auto

end
