(* ===== verification/Runner.thy ===== *)
theory Runner
  imports Heaps Executor
begin

section \<open>\<^verbatim>\<open>MallocRunner\<close>\<close>

text \<open>
  \<^verbatim>\<open>src/malloc_runner.h\<close>: the allocator that the executor drives, made of the interface under
  test and the four hooks of a derived class (\<^verbatim>\<open>CorrectnessChecker\<close>, \<^verbatim>\<open>Utiltest\<close>,
  \<^verbatim>\<open>Perftest\<close>). The state is the derived object's and the process. Printing with \<^verbatim>\<open>verbose\<close> is
  left out; an \<^verbatim>\<open>absl::Status\<close> is \<open>Failed\<close> with the text of its message and its arguments.
\<close>

record ('c, 'd) hooks =
  PostAlloc :: "ptr \<Rightarrow> u64 \<Rightarrow> u64 option \<Rightarrow> bool \<Rightarrow> ('c \<times> process, unit) op"
  PreRealloc :: "ptr \<Rightarrow> u64 \<Rightarrow> ('c \<times> process, 'd) op"
  PostRealloc :: "ptr \<Rightarrow> ptr \<Rightarrow> u64 \<Rightarrow> 'd \<Rightarrow> ('c \<times> process, unit) op"
  PreRelease :: "ptr \<Rightarrow> ('c \<times> process, unit) op"

definition on_process :: "(process, 'a) op \<Rightarrow> ('c \<times> process, 'a) op" where
  "on_process f s = (case f (snd s) of (r, p) \<Rightarrow> (r, (fst s, p)))"

definition kFailedTestPrefix :: string where "kFailedTestPrefix = ''[Failed]''"

abbreviation failed :: "string \<Rightarrow> u64 list \<Rightarrow> error" where
  "failed s args \<equiv> Failed (kFailedTestPrefix @ s) args"

fun message :: "error \<Rightarrow> string" where
  "message (Failed s args) = s"
| "message _ = ''''"

definition IsFailedTestStatus :: "error \<Rightarrow> bool" where
  "IsFailedTestStatus e \<longleftrightarrow> take (length kFailedTestPrefix) (message e) = kFailedTestPrefix"

definition value_or :: "u64 option \<Rightarrow> u64 \<Rightarrow> u64" where
  "value_or x d = (case x of None \<Rightarrow> d | Some v \<Rightarrow> v)"

definition runner_InitializeHeap :: "process bench_api \<Rightarrow> ('c \<times> process, unit) op" where
  "runner_InitializeHeap api s = on_process (bench_initialize_heap api) (fst s, Reset (snd s))"

definition runner_CleanupHeap :: "('c \<times> process, unit) op" where
  "runner_CleanupHeap = op_return ()"

definition runner_Malloc :: "bool \<Rightarrow> process bench_api \<Rightarrow> ('c, 'd) hooks \<Rightarrow> u64 \<Rightarrow> u64 option \<Rightarrow> ('c \<times> process, ptr) op" where
  "runner_Malloc perftest api H sz alignment =
     (if perftest then on_process (bench_malloc api sz (value_or alignment 0))
      else op_bind (on_process (bench_malloc api sz (value_or alignment 0))) (\<lambda>q.
        if sz = 0 \<and> q \<noteq> 0 then op_fail (failed '' Expected nullptr on malloc with size 0'' [q, sz])
        else op_bind (PostAlloc H q sz alignment False) (\<lambda>_. op_return q)))"

definition runner_Calloc :: "bool \<Rightarrow> process bench_api \<Rightarrow> ('c, 'd) hooks \<Rightarrow> u64 \<Rightarrow> u64 \<Rightarrow> ('c \<times> process, ptr) op" where
  "runner_Calloc perftest api H nmemb sz =
     (if perftest then on_process (bench_malloc api (nmemb * sz) 0)
      else op_bind (on_process (bench_calloc api nmemb sz)) (\<lambda>q.
        if (nmemb = 0 \<or> sz = 0) \<and> q \<noteq> 0
        then op_fail (failed '' Expected nullptr on calloc with size 0'' [q, nmemb, sz])
        else op_bind (PostAlloc H q (nmemb * sz) None True) (\<lambda>_. op_return q)))"

definition runner_Realloc :: "bool \<Rightarrow> process bench_api \<Rightarrow> ('c, 'd) hooks \<Rightarrow> ptr \<Rightarrow> u64 \<Rightarrow> ('c \<times> process, ptr) op" where
  "runner_Realloc perftest api H q sz =
     (if perftest then on_process (bench_realloc api q sz)
      else if q = 0 then
        op_bind (on_process (bench_realloc api 0 sz)) (\<lambda>r.
        op_bind (PostAlloc H r sz None False) (\<lambda>_. op_return r))
      else
        op_bind (PreRealloc H q sz) (\<lambda>d.
        op_bind (on_process (bench_realloc api q sz)) (\<lambda>r.
        op_bind (PostRealloc H r q sz d) (\<lambda>_. op_return r))))"

definition runner_Free :: "bool \<Rightarrow> process bench_api \<Rightarrow> ('c, 'd) hooks \<Rightarrow> ptr \<Rightarrow> u64 option \<Rightarrow> u64 option \<Rightarrow> ('c \<times> process, unit) op" where
  "runner_Free perftest api H q size_hint alignment_hint =
     op_bind (if perftest then op_return () else PreRelease H q) (\<lambda>_.
       on_process (bench_free api q (value_or size_hint 0) (value_or alignment_hint 0)))"

definition MallocRunner :: "bool \<Rightarrow> process bench_api \<Rightarrow> ('c, 'd) hooks \<Rightarrow> ('c \<times> process) allocator" where
  "MallocRunner perftest api H =
     \<lparr>InitializeHeap = runner_InitializeHeap api, CleanupHeap = runner_CleanupHeap,
      Malloc = runner_Malloc perftest api H, Calloc = runner_Calloc perftest api H,
      Realloc = runner_Realloc perftest api H, Free = runner_Free perftest api H\<rparr>"

subsection \<open>\<^verbatim>\<open>Perftest\<close>: no hooks\<close>

definition perftest_hooks :: "('c, bool) hooks" where
  "perftest_hooks = \<lparr>PostAlloc = \<lambda>q sz al c. op_return (), PreRealloc = \<lambda>q sz. op_return False,
     PostRealloc = \<lambda>r q sz d. op_return (), PreRelease = \<lambda>q. op_return ()\<rparr>"

end
