(* ===== verification/Heap_Bytes.thy ===== *)
theory Heap_Bytes
  imports Heaps
begin

unbundle bit_operations_syntax

section \<open>Reading and writing the bytes of the process\<close>

text \<open>
  The laws of byte accesses on which the checker's proofs rest: a byte that can be read can
  be written, a write changes the byte it is aimed at and nothing else, and no write moves a
  heap.
\<close>

subsection \<open>The process\<close>

definition proc_ok :: "process \<Rightarrow> bool" where
  "proc_ok p \<longleftrightarrow> distinct (map fst (heap_objects p))"

text \<open>The heap objects with their bounds.\<close>

definition heap_shape :: "process \<Rightarrow> (ptr \<times> u64 \<times> u64 \<times> u64) list" where
  "heap_shape p = map (\<lambda>(k, m). (k, arena_start m, arena_end m, arena_max m)) (heap_objects p)"

definition same_heaps :: "process \<Rightarrow> process \<Rightarrow> bool" where
  "same_heaps p p' \<longleftrightarrow> heap_shape p' = heap_shape p \<and> factory_heaps p' = factory_heaps p \<and> g_heap p' = g_heap p"

lemma same_heaps_refl [simp]: "same_heaps p p"
  by (simp add: same_heaps_def)

lemma same_heaps_trans: "same_heaps p q \<Longrightarrow> same_heaps q r \<Longrightarrow> same_heaps p r"
  by (simp add: same_heaps_def)

lemma update_split:
  "k \<notin> fst ` set xs \<Longrightarrow> AList.update k m' (xs @ (k, m) # ys) = xs @ (k, m') # ys"
  by (induction xs) auto

lemma heap_at_Some:
  assumes "heap_at p a = Some (k, m)"
  obtains xs ys where "heap_objects p = xs @ (k, m) # ys" "arena_start m \<le> a" "a < arena_end m"
    "\<And>k' m'. (k', m') \<in> set xs \<Longrightarrow> \<not> (arena_start m' \<le> a \<and> a < arena_end m')"
proof -
  obtain i where i: "i < length (heap_objects p)" "heap_objects p ! i = (k, m)"
    "arena_start m \<le> a" "a < arena_end m"
    "\<forall>j<i. \<not> (case heap_objects p ! j of (k, m) \<Rightarrow> arena_start m \<le> a \<and> a < arena_end m)"
    using assms unfolding heap_at_def find_Some_iff by force
  show thesis
  proof (rule that [of "take i (heap_objects p)" "drop (Suc i) (heap_objects p)"])
    show "heap_objects p = take i (heap_objects p) @ (k, m) # drop (Suc i) (heap_objects p)"
      using id_take_nth_drop [OF i(1)] i(2) by simp
    show "\<not> (arena_start m' \<le> a \<and> a < arena_end m')" if "(k', m') \<in> set (take i (heap_objects p))" for k' m'
      using that i(1,5) by (auto simp: in_set_conv_nth)
  qed (rule i)+
qed

lemma find_append: "List.find P (xs @ ys) = (case List.find P xs of None \<Rightarrow> List.find P ys | Some x \<Rightarrow> Some x)"
  by (induction xs) simp_all

lemma write8_laws:
  assumes ok: "proc_ok p" and w: "write8 p a v = Some p'"
  shows "proc_ok p'" "read8 p' b = (if b = a then Some v else read8 p b)" "same_heaps p p'"
proof -
  obtain k m m' where h: "heap_at p a = Some (k, m)" and s: "store8 m a v = Some m'" and p': "p' = set_heap k m' p"
    using w by (auto simp: write8_def split: Option.bind_splits)
  obtain xs ys where o: "heap_objects p = xs @ (k, m) # ys" and a: "arena_start m \<le> a" "a < arena_end m"
    and xs: "\<And>k' m'. (k', m') \<in> set xs \<Longrightarrow> \<not> (arena_start m' \<le> a \<and> a < arena_end m')"
    by (rule heap_at_Some [OF h]) (rule that; assumption)
  have k: "k \<notin> fst ` set xs" using ok o by (auto simp: proc_ok_def)
  have o': "heap_objects p' = xs @ (k, m') # ys" unfolding p' set_heap_def o using update_split [OF k] by simp
  note ls = load8_store8 [OF s]
  show "proc_ok p'" using ok o o' by (simp add: proc_ok_def)
  show "same_heaps p p'" using o o' ls(2,3,4) by (simp add: same_heaps_def heap_shape_def p' set_heap_def)
  show "read8 p' b = (if b = a then Some v else read8 p b)"
  proof (cases "List.find (\<lambda>(k, m). arena_start m \<le> b \<and> b < arena_end m) xs")
    case (Some q)
    then have "q \<in> set xs \<and> (case q of (k, m) \<Rightarrow> arena_start m \<le> b \<and> b < arena_end m)"
      by (auto simp: find_Some_iff in_set_conv_nth)
    then have "b \<noteq> a" using xs by (cases q) blast
    moreover have "heap_at p' b = heap_at p b" using Some o o' by (simp add: heap_at_def find_append)
    ultimately show ?thesis by (simp add: read8_def)
  next
    case None
    show ?thesis
    proof (cases "arena_start m \<le> b \<and> b < arena_end m")
      case True
      then have "heap_at p b = Some (k, m)" "heap_at p' b = Some (k, m')"
        using None o o' ls(2,3) by (simp_all add: heap_at_def find_append)
      then show ?thesis using ls(1) by (simp add: read8_def)
    next
      case False
      then have "heap_at p' b = heap_at p b" "b \<noteq> a"
        using None o o' ls(2,3) a by (auto simp: heap_at_def find_append)
      then show ?thesis by (simp add: read8_def)
    qed
  qed
qed

lemma write8_Some: "(\<exists>p'. write8 p a v = Some p') \<longleftrightarrow> read8 p a \<noteq> None"
  using load8_Some store8_Some by (fastforce simp: write8_def read8_def split: Option.bind_splits)


subsection \<open>Runs of bytes\<close>

lemma unat_eq_Suc_sub: "x \<noteq> 0 \<Longrightarrow> unat (x :: u64) = Suc (unat (x - 1))"
  by (metis Suc_pred' unat_gt_0 unat_minus_one)

lemma write_bytes_laws:
  assumes "proc_ok p" "write_bytes a vs p = Some p'" "length vs \<le> 2 ^ 64"
  shows "proc_ok p' \<and> same_heaps p p'
    \<and> read8 p' b = (if unat (b - a) < length vs then Some (vs ! unat (b - a)) else read8 p b)"
  using assms
proof (induction vs arbitrary: a p)
  case (Cons v vs)
  obtain p1 where p1: "write8 p a v = Some p1" "write_bytes (a + 1) vs p1 = Some p'"
    using Cons.prems(2) by (auto split: Option.bind_splits)
  note w = write8_laws [OF Cons.prems(1) p1(1)]
  have IH: "proc_ok p' \<and> same_heaps p1 p'
    \<and> read8 p' b = (if unat (b - (a + 1)) < length vs then Some (vs ! unat (b - (a + 1))) else read8 p1 b)"
    using Cons.IH [OF w(1) p1(2)] Cons.prems(3) by simp
  show ?case
  proof (cases "b = a")
    case True
    have "unat (b - (a + 1)) = 2 ^ 64 - 1" using True by (simp add: unsigned_minus_1_eq_mask mask_eq_exp_minus_1)
    then have "\<not> unat (b - (a + 1)) < length vs" using Cons.prems(3) by simp
    then show ?thesis using IH w True same_heaps_trans by auto
  next
    case False
    then have "b - a \<noteq> 0" by simp
    then have "unat (b - a) = Suc (unat (b - a - 1))" by (rule unat_eq_Suc_sub)
    moreover have "b - (a + 1) = b - a - 1" by (rule diff_diff_add [symmetric])
    ultimately have "unat (b - a) = Suc (unat (b - (a + 1)))" by metis
    then show ?thesis using IH w False same_heaps_trans by auto
  qed
qed simp

lemma write_bytes_Some:
  assumes "proc_ok p" "\<And>i. i < length vs \<Longrightarrow> read8 p (a + of_nat i) \<noteq> None"
  shows "\<exists>p'. write_bytes a vs p = Some p'"
  using assms
proof (induction vs arbitrary: a p)
  case (Cons v vs)
  obtain p1 where p1: "write8 p a v = Some p1" using Cons.prems(2) [of 0] write8_Some by fastforce
  note w = write8_laws [OF Cons.prems(1) p1]
  have "read8 p1 (a + 1 + of_nat i) \<noteq> None" if "i < length vs" for i
    using Cons.prems(2) [of "Suc i"] that w(2) [of "a + 1 + of_nat i"] by (simp add: add.assoc)
  from Cons.IH [OF w(1) this] show ?case using p1 by simp
qed simp

lemma read_bytes_eq:
  "read_bytes a n p = (if \<forall>i<n. read8 p (a + of_nat i) \<noteq> None
     then Some (map (\<lambda>i. the (read8 p (a + of_nat i))) [0..<n]) else None)"
proof (induction n arbitrary: a)
  case (Suc n)
  have e: "a + 1 + of_nat i = a + of_nat (Suc i)" for i by simp
  have m: "map f [0..<Suc n] = f 0 # map (\<lambda>i. f (Suc i)) [0..<n]" for f :: "nat \<Rightarrow> u8"
    by (simp add: upt_conv_Cons map_Suc_upt [symmetric] comp_def del: upt_Suc)
  show ?case
  proof (cases "read8 p a")
    case None
    then show ?thesis by (auto intro!: exI [of _ 0])
  next
    case (Some v)
    then show ?thesis unfolding read_bytes.simps Suc.IH e m All_less_Suc2 by simp
  qed
qed simp

end
