(* ===== verification/Checker.thy ===== *)
theory Checker
  imports Runner Heap_Bytes
begin

unbundle bit_operations_syntax

section \<open>The correctness checker\<close>

text \<open>
  \<^verbatim>\<open>src/correctness_checker.cc\<close>: each block is filled with a magic word, which is checked
  before the block is released or reallocated. The random numbers of
  \<^verbatim>\<open>folly::ThreadLocalPRNG\<close> are the parameter \<open>prng\<close>.
\<close>

record allocated_block =
  block_size :: u64
  block_magic :: u64

record checker =
  allocated_blocks :: "(ptr \<times> allocated_block) list"
  prng :: "nat \<Rightarrow> u64"
  draws :: nat

type_synonym 'a checker_op = "(checker \<times> process, 'a) op"

definition countr_zero :: "u64 \<Rightarrow> nat" where
  "countr_zero w = ctz_upto 64 w"

subsection \<open>Magic bytes\<close>

text \<open>The two loops of \<^verbatim>\<open>FillMagicBytes\<close>: whole words, then the bytes that are left.\<close>

primrec fill_words :: "u64 \<Rightarrow> u64 \<Rightarrow> nat \<Rightarrow> process \<Rightarrow> process option" where
  "fill_words a w 0 p = Some p"
| "fill_words a w (Suc n) p = Option.bind (write64 a w p) (fill_words (a + 8) w n)"

primrec fill_tail :: "u64 \<Rightarrow> u64 \<Rightarrow> nat \<Rightarrow> nat \<Rightarrow> process \<Rightarrow> process option" where
  "fill_tail a w j 0 p = Some p"
| "fill_tail a w j (Suc n) p =
     Option.bind (write8 p a (ucast (drop_bit (8 * j) w))) (fill_tail (a + 1) w (Suc j) n)"

definition FillMagicBytes :: "ptr \<Rightarrow> u64 \<Rightarrow> u64 \<Rightarrow> (process, unit) op" where
  "FillMagicBytes q sz w = op_memory (\<lambda>p.
     let i = unat (sz div 8) in
     Option.bind (fill_words q w i p) (fill_tail (q + of_nat (8 * i)) w 0 (unat sz - 8 * i)))"

text \<open>
  The loops of \<^verbatim>\<open>CheckMagicBytes\<close>: \<open>None\<close> is a crash, \<open>Some None\<close> a clean block and
  \<open>Some (Some j)\<close> a difference that is reported at offset \<open>j\<close>.
\<close>

primrec check_words :: "u64 \<Rightarrow> u64 \<Rightarrow> nat \<Rightarrow> nat \<Rightarrow> process \<Rightarrow> nat option option" where
  "check_words a w i 0 p = Some None"
| "check_words a w i (Suc n) p = (case read64 p a of
     None \<Rightarrow> None
   | Some val \<Rightarrow> if val \<noteq> w then Some (Some (i * 8 + countr_zero (val XOR w) div 8))
       else check_words (a + 8) w (Suc i) n p)"

primrec check_tail :: "u64 \<Rightarrow> u64 \<Rightarrow> nat \<Rightarrow> nat \<Rightarrow> nat \<Rightarrow> process \<Rightarrow> nat option option" where
  "check_tail a w i j 0 p = Some None"
| "check_tail a w i j (Suc n) p = (case read8 p a of
     None \<Rightarrow> None
   | Some v \<Rightarrow> if v \<noteq> ucast (drop_bit (8 * (j - 8 * i)) w) then Some (Some j)
       else check_tail (a + 1) w i (Suc j) n p)"

definition CheckMagicBytes :: "ptr \<Rightarrow> u64 \<Rightarrow> u64 \<Rightarrow> (process, unit) op" where
  "CheckMagicBytes q sz w p =
     (let i = unat (sz div 8) in
      case (case check_words q w 0 i p of
          Some None \<Rightarrow> check_tail (q + of_nat (8 * i)) w i (8 * i) (unat sz - 8 * i) p
        | r \<Rightarrow> r) of
        None \<Rightarrow> (Inl crash, p)
      | Some None \<Rightarrow> (Inr (), p)
      | Some (Some j) \<Rightarrow> (Inl (failed '' Allocated block has dirtied bytes'' [q, sz, of_nat j]), p))"

text \<open>The loop of \<^verbatim>\<open>PostAlloc\<close> over a block of \<^verbatim>\<open>calloc\<close>.\<close>

primrec check_cleared :: "u64 \<Rightarrow> nat \<Rightarrow> process \<Rightarrow> bool option" where
  "check_cleared a 0 p = Some True"
| "check_cleared a (Suc n) p = (case read8 p a of
     None \<Rightarrow> None | Some v \<Rightarrow> if v \<noteq> 0 then Some False else check_cleared (a + 1) n p)"

subsection \<open>The hooks\<close>

definition in_heaps :: "ptr \<Rightarrow> u64 \<Rightarrow> process \<Rightarrow> bool" where
  "in_heaps q sz = WithInstances (list_ex (\<lambda>m. arena_start m \<le> q \<and> q + sz \<le> arena_end m))"

definition ValidateNewBlock :: "ptr \<Rightarrow> u64 \<Rightarrow> u64 option \<Rightarrow> unit checker_op" where
  "ValidateNewBlock q sz alignment s =
     (if q = 0 then (Inl (failed '' Bad nullptr alloc'' [sz]), s)
      else if \<not> in_heaps q sz (snd s) then (Inl (failed '' Bad alloc of out-of-range block'' [q, sz]), s)
      else case alignment of
        None \<Rightarrow> (Inr (), s)
      | Some al \<Rightarrow>
          let min_alignment = (if sz \<le> 8 then 8 else 16); al = max al min_alignment in
          if q mod al \<noteq> 0 then (Inl (failed '' Pointer is not aligned'' [q, sz, al]), s)
          else (Inr (), s))"

definition insert_block :: "ptr \<Rightarrow> allocated_block \<Rightarrow> checker \<Rightarrow> checker" where
  "insert_block q b c = c\<lparr>allocated_blocks := (q, b) # allocated_blocks c\<rparr>"

definition erase_block :: "ptr \<Rightarrow> checker \<Rightarrow> checker" where
  "erase_block q c = c\<lparr>allocated_blocks := AList.delete q (allocated_blocks c)\<rparr>"

definition checker_PostAlloc :: "ptr \<Rightarrow> u64 \<Rightarrow> u64 option \<Rightarrow> bool \<Rightarrow> unit checker_op" where
  "checker_PostAlloc q sz alignment is_calloc =
     (if sz = 0 then op_return ()
      else op_bind (ValidateNewBlock q sz alignment) (\<lambda>_ (c, p).
        let magic_bytes = prng c (draws c); c = c\<lparr>draws := Suc (draws c)\<rparr> in
        case map_of (allocated_blocks c) q of
          Some b \<Rightarrow> (Inl (failed '' Duplicate allocation'' [q, sz, block_size b]), (c, p))
        | None \<Rightarrow>
            let c = insert_block q \<lparr>block_size = sz, block_magic = magic_bytes\<rparr> c in
            if is_calloc \<and> check_cleared q (unat sz) p = None then (Inl crash, (c, p))
            else if is_calloc \<and> check_cleared q (unat sz) p = Some False
            then (Inl (failed '' calloc-ed block is not cleared'' [q, sz]), (c, p))
            else on_process (FillMagicBytes q sz magic_bytes) (c, p)))"

definition checker_PreRealloc :: "ptr \<Rightarrow> u64 \<Rightarrow> allocated_block checker_op" where
  "checker_PreRealloc q sz s = (case map_of (allocated_blocks (fst s)) q of
     None \<Rightarrow> (Inl (failed '' realloc-ed block not found in allocated blocks map'' [q]), s)
   | Some b \<Rightarrow> op_bind (on_process (CheckMagicBytes q (block_size b) (block_magic b)))
       (\<lambda>_ (c, p). (Inr b, (erase_block q c, p))) s)"

definition checker_PostRealloc :: "ptr \<Rightarrow> ptr \<Rightarrow> u64 \<Rightarrow> allocated_block \<Rightarrow> unit checker_op" where
  "checker_PostRealloc new_ptr old_ptr sz block =
     op_bind (ValidateNewBlock new_ptr sz (Some 0)) (\<lambda>_ (c, p).
       let orig_size = block_size block; block = block\<lparr>block_size := sz\<rparr> in
       case map_of (allocated_blocks c) new_ptr of
         Some _ \<Rightarrow> (Inl (failed '' realloc-ed block conflicts with existing allocation'' [old_ptr, sz]), (c, p))
       | None \<Rightarrow>
           op_bind (on_process (CheckMagicBytes new_ptr (min orig_size sz) (block_magic block))) (\<lambda>_.
             if sz > orig_size then on_process (FillMagicBytes new_ptr sz (block_magic block)) else op_return ())
             (insert_block new_ptr block c, p))"

definition checker_PreRelease :: "ptr \<Rightarrow> unit checker_op" where
  "checker_PreRelease q s =
     (if q = 0 then (Inr (), s)
      else case map_of (allocated_blocks (fst s)) q of
        None \<Rightarrow> (Inl (failed '' freed block not found in allocated blocks map'' [q]), s)
      | Some b \<Rightarrow> op_bind (on_process (CheckMagicBytes q (block_size b) (block_magic b)))
          (\<lambda>_ (c, p). (Inr (), (erase_block q c, p))) s)"

definition checker_hooks :: "(checker, allocated_block) hooks" where
  "checker_hooks = \<lparr>PostAlloc = checker_PostAlloc, PreRealloc = checker_PreRealloc,
     PostRealloc = checker_PostRealloc, PreRelease = checker_PreRelease\<rparr>"

text \<open>The allocator that \<^verbatim>\<open>CorrectnessChecker::Check\<close> gives to the executor.\<close>

definition CorrectnessChecker :: "process bench_api \<Rightarrow> (checker \<times> process) allocator" where
  "CorrectnessChecker api = MallocRunner False api checker_hooks"

definition new_checker :: "(nat \<Rightarrow> u64) \<Rightarrow> checker" where
  "new_checker rng = \<lparr>allocated_blocks = [], prng = rng, draws = 0\<rparr>"

subsection \<open>Filling and checking, a byte at a time\<close>

definition magic_byte :: "u64 \<Rightarrow> nat \<Rightarrow> u8" where
  "magic_byte w j = ucast (drop_bit (8 * (j mod 8)) w)"

lemma bind_cong_fun: "(\<And>x. f x = g x) \<Longrightarrow> Option.bind a f = Option.bind a g"
  by (cases a) simp_all

lemma write_bytes_append:
  "write_bytes a (xs @ ys) p = Option.bind (write_bytes a xs p) (write_bytes (a + of_nat (length xs)) ys)"
proof (induction xs arbitrary: a p)
  case (Cons x xs)
  have e: "a + 1 + of_nat (length xs) = a + of_nat (length (x # xs))" by simp
  show ?case unfolding append_Cons write_bytes.simps Option.bind_assoc by (rule bind_cong_fun) (simp only: Cons.IH e)
qed simp

lemma fill_words_bytes:
  "fill_words a w n p = write_bytes a (map (magic_byte w) [0..<8 * n]) p"
proof (induction n arbitrary: a p)
  case (Suc n)
  have s: "map (magic_byte w) [0..<8 * Suc n] = le_bytes w @ map (magic_byte w) [0..<8 * n]"
  proof -
    have "[0..<8 * Suc n] = [0..<8] @ map (\<lambda>i. i + 8) [0..<8 * n]"
      using upt_add_eq_append [of 0 8 "8 * n"] by (simp add: map_add_upt add.commute)
    then show ?thesis by (simp add: le_bytes_def magic_byte_def comp_def)
  qed
  have l: "length (le_bytes w) = 8" by (simp add: le_bytes_def)
  show ?case unfolding s write_bytes_append l fill_words.simps write64_def
    by (rule bind_cong_fun) (simp add: Suc.IH)
qed simp

lemma fill_tail_bytes:
  "j + n \<le> 8 \<Longrightarrow> fill_tail a w j n p = write_bytes a (map (magic_byte w) [j..<j + n]) p"
proof (induction n arbitrary: a j p)
  case (Suc n)
  have "map (magic_byte w) [j..<j + Suc n] = magic_byte w j # map (magic_byte w) [Suc j..<Suc j + n]"
    by (subst upt_conv_Cons) simp_all
  moreover have "magic_byte w j = ucast (drop_bit (8 * j) w)" using Suc.prems by (simp add: magic_byte_def)
  moreover have "fill_tail b w (Suc j) n p' = write_bytes b (map (magic_byte w) [Suc j..<Suc j + n]) p'" for b p'
    using Suc by simp
  ultimately show ?case by (simp only: write_bytes.simps fill_tail.simps) (rule bind_cong_fun, simp)
qed simp

lemma FillMagicBytes_bytes:
  "FillMagicBytes q sz w = op_memory (write_bytes q (map (magic_byte w) [0..<unat sz]))"
proof -
  let ?i = "unat (sz div 8)"
  have i: "?i = unat sz div 8" by (simp add: unat_div)
  have r: "unat sz = 8 * ?i + unat sz mod 8" using i by simp
  have t: "unat sz - 8 * ?i = unat sz mod 8" using r by simp
  have s: "map (magic_byte w) [0..<unat sz] = map (magic_byte w) [0..<8 * ?i] @ map (magic_byte w) [0..<unat sz mod 8]"
  proof -
    have "[0..<8 * ?i + unat sz mod 8] = [0..<8 * ?i] @ map (\<lambda>k. k + 8 * ?i) [0..<unat sz mod 8]"
      using upt_add_eq_append [of 0 "8 * ?i" "unat sz mod 8"] by (simp add: map_add_upt add.commute)
    then have "map (magic_byte w) [0..<unat sz] = map (magic_byte w) [0..<8 * ?i] @ map (\<lambda>k. magic_byte w (k + 8 * ?i)) [0..<unat sz mod 8]"
      using r by (metis (no_types, lifting) map_append map_map comp_apply map_eq_conv)
    then show ?thesis by (simp add: magic_byte_def)
  qed
  show ?thesis
    unfolding FillMagicBytes_def s write_bytes_append fill_words_bytes t Let_def
    by (rule arg_cong [where f = op_memory], rule ext, rule bind_cong_fun) (simp add: fill_tail_bytes)
qed

end
