(* ===== verification/Checker_Magic.thy ===== *)
theory Checker_Magic
  imports Checker
begin

unbundle bit_operations_syntax

section \<open>What \<^verbatim>\<open>CheckMagicBytes\<close> reports\<close>

text \<open>The specification: the first offset whose byte is not the magic byte.\<close>

definition clean :: "process \<Rightarrow> ptr \<Rightarrow> u64 \<Rightarrow> nat \<Rightarrow> bool" where
  "clean p q w j \<longleftrightarrow> read8 p (q + of_nat j) = Some (magic_byte w j)"

definition readable :: "process \<Rightarrow> ptr \<Rightarrow> nat \<Rightarrow> bool" where
  "readable p q n \<longleftrightarrow> (\<forall>j<n. read8 p (q + of_nat j) \<noteq> None)"

definition first_dirty :: "process \<Rightarrow> ptr \<Rightarrow> u64 \<Rightarrow> nat list \<Rightarrow> nat option" where
  "first_dirty p q w js = List.find (\<lambda>j. \<not> clean p q w j) js"

lemma first_dirty_append: "first_dirty p q w (xs @ ys) = (case first_dirty p q w xs of None \<Rightarrow> first_dirty p q w ys | Some j \<Rightarrow> Some j)"
  by (simp add: first_dirty_def find_append split: option.split)

lemma first_dirty_Cons: "first_dirty p q w (j # js) = (if clean p q w j then first_dirty p q w js else Some j)"
  by (simp add: first_dirty_def)

lemma bit_le_word:
  "bit (foldr (\<lambda>v w. push_bit 8 w OR ucast v) (vs :: u8 list) (0 :: u64)) n
     \<longleftrightarrow> n < 64 \<and> n div 8 < length vs \<and> bit (vs ! (n div 8)) (n mod 8)"
proof (induction vs arbitrary: n)
  case (Cons v vs)
  show ?case
  proof (cases "n < 8")
    case True
    then show ?thesis by (simp add: bit_simps)
  next
    case False
    then have d: "n div 8 = Suc ((n - 8) div 8)" "n mod 8 = (n - 8) mod 8" 
      using le_div_geq [of 8 n] le_mod_geq [of 8 n] by simp_all
    have "\<not> bit v n" using False by (auto dest: bit_imp_le_length)
    then show ?thesis using False d Cons.IH [of "n - 8"] by (auto simp: bit_simps)
  qed
qed simp

lemma word_of_bytes:
  assumes "read64 p a = Some val"
  obtains vs where "read_bytes a 8 p = Some vs" "length vs = 8"
    "\<And>n. n < 64 \<Longrightarrow> bit val n = bit (vs ! (n div 8)) (n mod 8)"
    "\<And>i. i < 8 \<Longrightarrow> read8 p (a + of_nat i) = Some (vs ! i)"
proof -
  obtain vs where vs: "read_bytes a 8 p = Some vs" "val = foldr (\<lambda>v w. push_bit 8 w OR ucast v) vs 0"
    using assms by (auto simp: read64_def)
  have e: "vs = map (\<lambda>i. the (read8 p (a + of_nat i))) [0..<8]" and r: "\<forall>i<8. read8 p (a + of_nat i) \<noteq> None"
    using vs(1) unfolding read_bytes_eq by (simp_all split: if_splits)
  have l: "length vs = 8" using e by simp
  have "bit val n = bit (vs ! (n div 8)) (n mod 8)" if "n < 64" for n
    using that l unfolding vs(2) bit_le_word by (simp add: div_less_iff_less_mult)
  moreover have "read8 p (a + of_nat i) = Some (vs ! i)" if "i < 8" for i
  proof -
    have "vs ! i = the (read8 p (a + of_nat i))" using that unfolding e by (subst nth_map) simp_all
    then show ?thesis using r that by auto
  qed
  ultimately show thesis using that [of vs] vs l by blast
qed

text \<open>The lowest differing bit of a word lies in its first differing byte.\<close>

lemma first_dirty_word:
  assumes r: "read64 p (q + of_nat (8 * i)) = Some val"
  shows "first_dirty p q w [8 * i..<8 * i + 8] = (if val = w then None else Some (i * 8 + countr_zero (val XOR w) div 8))"
proof -
  obtain vs where vs: "length vs = 8" "\<And>n. n < 64 \<Longrightarrow> bit val n = bit (vs ! (n div 8)) (n mod 8)"
    "\<And>j. j < 8 \<Longrightarrow> read8 p (q + of_nat (8 * i) + of_nat j) = Some (vs ! j)"
    by (rule word_of_bytes [OF r]) (rule that; assumption)
  have cl: "clean p q w (8 * i + j) \<longleftrightarrow> (\<forall>k<8. bit val (8 * j + k) = bit w (8 * j + k))" if j: "j < 8" for j
  proof -
    have "clean p q w (8 * i + j) \<longleftrightarrow> vs ! j = magic_byte w j"
      using vs(3) [OF j] by (simp add: clean_def magic_byte_def add.assoc)
    also have "\<dots> \<longleftrightarrow> (\<forall>k<8. bit (vs ! j) k = bit w (8 * j + k))"
      using j by (auto simp: bit_eq_iff magic_byte_def bit_simps dest: bit_imp_le_length)
    also have "\<dots> \<longleftrightarrow> (\<forall>k<8. bit val (8 * j + k) = bit w (8 * j + k))"
      using j vs(2) [of "8 * j + k" for k] by simp
    finally show ?thesis .
  qed
  show ?thesis
  proof (cases "val = w")
    case True
    then have "\<forall>j\<in>set [8 * i..<8 * i + 8]. clean p q w j"
    proof (intro ballI)
      fix j assume "j \<in> set [8 * i..<8 * i + 8]"
      then have "j - 8 * i < 8" "8 * i + (j - 8 * i) = j" by auto
      then show "clean p q w j" using cl [of "j - 8 * i"] True by simp
    qed
    then show ?thesis using True by (auto simp: first_dirty_def find_None_iff)
  next
    case False
    let ?x = "val XOR w"
    obtain b where b: "bit ?x b" "b < 64"
    proof -
      obtain b where "bit val b \<noteq> bit w b" using False by (auto simp: bit_eq_iff)
      then show thesis using that [of b] by (auto simp: bit_xor_iff dest: bit_imp_le_length)
    qed
    let ?c = "countr_zero ?x"
    have c: "?c < 64" using ctz_upto_less(2) [OF b] by (simp add: countr_zero_def)
    have cb: "bit ?x ?c" "\<And>j. j < ?c \<Longrightarrow> \<not> bit ?x j"
      using ctz_upto_props [of 64 ?x] c by (simp_all add: countr_zero_def)
    have d: "\<not> clean p q w (8 * i + ?c div 8)"
      using cl [of "?c div 8"] c cb(1) by (auto simp: bit_xor_iff intro!: exI [of _ "?c mod 8"])
    have "clean p q w (8 * i + j)" if "j < ?c div 8" for j
      using cl [of j] cb(2) that c by (auto simp: bit_xor_iff)
    then have "List.find (\<lambda>j. \<not> clean p q w j) [8 * i..<8 * i + 8] = Some (8 * i + ?c div 8)"
      unfolding find_Some_iff using d c by (intro exI [of _ "?c div 8"]) auto
    then show ?thesis using False by (simp add: first_dirty_def mult.commute)
  qed
qed


lemma readableD: "readable p q n \<Longrightarrow> j < n \<Longrightarrow> read8 p (q + of_nat j) \<noteq> None"
  by (simp add: readable_def)

lemma readable_mono: "readable p q n \<Longrightarrow> k \<le> n \<Longrightarrow> readable p q k"
  by (simp add: readable_def)

lemma check_words_spec:
  assumes "readable p q (8 * (i + n))"
  shows "check_words (q + of_nat (8 * i)) w i n p = Some (first_dirty p q w [8 * i..<8 * (i + n)])"
  using assms
proof (induction n arbitrary: i)
  case (Suc n)
  have "\<forall>j<8. read8 p (q + of_nat (8 * i) + of_nat j) \<noteq> None"
  proof (intro allI impI)
    fix j :: nat assume "j < 8"
    then have "read8 p (q + of_nat (8 * i + j)) \<noteq> None" by (intro readableD [OF Suc.prems]) simp
    moreover have "q + of_nat (8 * i + j) = q + of_nat (8 * i) + of_nat j" by (simp add: add.assoc)
    ultimately show "read8 p (q + of_nat (8 * i) + of_nat j) \<noteq> None" by metis
  qed
  then obtain val where val: "read64 p (q + of_nat (8 * i)) = Some val" by (simp add: read64_def read_bytes_eq)
  have s: "[8 * i..<8 * (i + Suc n)] = [8 * i..<8 * i + 8] @ [8 * Suc i..<8 * (Suc i + n)]"
    using upt_add_eq_append [of "8 * i" "8 * i + 8" "8 * n"] by (simp add: algebra_simps)
  have a: "q + of_nat (8 * i) + 8 = q + of_nat (8 * Suc i)" by (simp add: algebra_simps)
  have r: "readable p q (8 * (Suc i + n))" using Suc.prems by simp
  show ?case
    unfolding s first_dirty_append first_dirty_word [OF val] check_words.simps val a option.case
    using Suc.IH [OF r] by simp
qed (simp add: first_dirty_def)

lemma check_tail_spec:
  assumes "readable p q (j + n)" "8 * i \<le> j" "j + n \<le> 8 * i + 8"
  shows "check_tail (q + of_nat j) w i j n p = Some (first_dirty p q w [j..<j + n])"
  using assms
proof (induction n arbitrary: j)
  case (Suc n)
  obtain v where v: "read8 p (q + of_nat j) = Some v" using readableD [OF Suc.prems(1), of j] by auto
  have u: "[j..<j + Suc n] = j # [Suc j..<Suc j + n]" by (subst upt_conv_Cons) simp_all
  have m: "magic_byte w j = ucast (drop_bit (8 * (j - 8 * i)) w)"
  proof -
    obtain k where k: "j = 8 * i + k" "k < 8" 
    proof -
      have "j = 8 * i + (j - 8 * i)" "j - 8 * i < 8" using Suc.prems(2,3) by linarith+
      then show thesis by (rule that)
    qed
    then have "j mod 8 = j - 8 * i" by simp
    then show ?thesis by (simp add: magic_byte_def)
  qed
  have a: "q + of_nat j + 1 = q + of_nat (Suc j)" by simp
  have IH: "check_tail (q + of_nat (Suc j)) w i (Suc j) n p = Some (first_dirty p q w [Suc j..<Suc j + n])"
    using Suc.prems by (intro Suc.IH) simp_all
  have c: "clean p q w j \<longleftrightarrow> v = magic_byte w j" using v by (simp add: clean_def)
  show ?case unfolding u check_tail.simps v a option.case IH first_dirty_Cons c m [symmetric] by simp
qed (simp add: first_dirty_def)

lemma CheckMagicBytes_spec:
  assumes "readable p q (unat sz)"
  shows "CheckMagicBytes q sz w p = (case first_dirty p q w [0..<unat sz] of
     None \<Rightarrow> (Inr (), p)
   | Some j \<Rightarrow> (Inl (failed '' Allocated block has dirtied bytes'' [q, sz, of_nat j]), p))"
proof -
  let ?i = "unat (sz div 8)"
  have i: "?i = unat sz div 8" by (simp add: unat_div)
  have le: "8 * ?i \<le> unat sz" "unat sz \<le> 8 * ?i + 8" using i by simp_all
  have e: "8 * ?i + (unat sz - 8 * ?i) = unat sz" using le by simp
  have w: "check_words q w 0 ?i p = Some (first_dirty p q w [0..<8 * ?i])"
    using check_words_spec [of p q 0 ?i w] readable_mono [OF assms le(1)] by simp
  have t: "check_tail (q + of_nat (8 * ?i)) w ?i (8 * ?i) (unat sz - 8 * ?i) p = Some (first_dirty p q w [8 * ?i..<unat sz])"
    using check_tail_spec [of p q "8 * ?i" "unat sz - 8 * ?i" ?i w] assms le e by simp
  have s: "[0..<unat sz] = [0..<8 * ?i] @ [8 * ?i..<unat sz]"
    using upt_add_eq_append [of 0 "8 * ?i" "unat sz - 8 * ?i"] e by simp
  show ?thesis
    unfolding CheckMagicBytes_def Let_def w t s first_dirty_append by (simp split: option.split)
qed

lemma first_dirty_None: "first_dirty p q w [0..<n] = None \<longleftrightarrow> (\<forall>j<n. clean p q w j)"
  by (auto simp: first_dirty_def find_None_iff)

lemma first_dirty_Some:
  "first_dirty p q w [0..<n] = Some j \<longleftrightarrow> j < n \<and> \<not> clean p q w j \<and> (\<forall>i<j. clean p q w i)"
  by (auto simp: first_dirty_def find_Some_iff)

text \<open>Filling succeeds on a readable block and leaves it clean.\<close>

lemma FillMagicBytes_spec:
  assumes ok: "proc_ok p" and r: "readable p q (unat sz)"
  obtains p' where "FillMagicBytes q sz w p = (Inr (), p')" "write_bytes q (map (magic_byte w) [0..<unat sz]) p = Some p'"
    "\<And>b. read8 p' b = (if unat (b - q) < unat sz then Some (magic_byte w (unat (b - q))) else read8 p b)"
proof -
  let ?vs = "map (magic_byte w) [0..<unat sz]"
  have "read8 p (q + of_nat i) \<noteq> None" if "i < length ?vs" for i using r that by (simp add: readable_def)
  from write_bytes_Some [OF ok this] obtain p' where p': "write_bytes q ?vs p = Some p'" by blast
  have "length ?vs \<le> 2 ^ 64" using unsigned_less [where 'a = nat and w = sz] by simp
  note l = write_bytes_laws [OF ok p' this]
  show thesis
    by (rule that [of p']) (use p' l in \<open>simp_all add: FillMagicBytes_bytes op_memory_def\<close>)
qed


lemma check_cleared_True: "(\<And>i. i < n \<Longrightarrow> read8 p (a + of_nat i) = Some 0) \<Longrightarrow> check_cleared a n p = Some True"
proof (induction n arbitrary: a)
  case (Suc n)
  have "read8 p (a + 1 + of_nat i) = Some 0" if "i < n" for i
    using Suc.prems [of "Suc i"] that by (simp add: add.assoc)
  then have "check_cleared (a + 1) n p = Some True" by (rule Suc.IH)
  then show ?case using Suc.prems [of 0] by simp
qed simp

end
