(* ===== verification/Checker_Sound.thy ===== *)
theory Checker_Sound
  imports Checker_Magic
begin

unbundle bit_operations_syntax

section \<open>The checker raises no false alarm\<close>

text \<open>
  What a correct implementation of \<^verbatim>\<open>allocator_interface.h\<close> promises is the locale
  \<open>bench_contract\<close>; inside it every operation of the checked allocator succeeds unless the
  interface itself fails or is out of memory. The live blocks are a map from their addresses
  to their sizes.
\<close>

type_synonym blocks = "ptr \<Rightarrow> nat option"

definition in_block :: "ptr \<Rightarrow> nat \<Rightarrow> u64 \<Rightarrow> bool" where
  "in_block b n a \<longleftrightarrow> unat (a - b) < n"

definition apart_blocks :: "blocks \<Rightarrow> bool" where
  "apart_blocks L \<longleftrightarrow> (\<forall>b n c k a. L b = Some n \<longrightarrow> L c = Some k \<longrightarrow> in_block b n a \<longrightarrow> in_block c k a \<longrightarrow> b = c)"

text \<open>The contents of the live blocks are the same.\<close>

definition keeps :: "blocks \<Rightarrow> process \<Rightarrow> process \<Rightarrow> bool" where
  "keeps L p p' \<longleftrightarrow> (\<forall>b n i. L b = Some n \<longrightarrow> i < n \<longrightarrow> read8 p' (b + of_nat i) = read8 p (b + of_nat i))"

definition fresh_block :: "(blocks \<Rightarrow> process \<Rightarrow> bool) \<Rightarrow> blocks \<Rightarrow> process \<Rightarrow> u64 \<Rightarrow> ptr \<Rightarrow> process \<Rightarrow> bool" where
  "fresh_block ok L p sz q p' \<longleftrightarrow> keeps L p p' \<and>
     (if sz = 0 then q = 0 \<and> ok L p' else q = 0 \<or> L q = None \<and> ok (L(q \<mapsto> unat sz)) p')"

definition least_align :: "u64 \<Rightarrow> u64" where
  "least_align sz = (if sz \<le> 8 then 8 else 16)"

locale bench_contract =
  fixes api :: "process bench_api"
    and ok :: "blocks \<Rightarrow> process \<Rightarrow> bool"
    and supports :: "u64 \<Rightarrow> bool"
    and bounded :: "u64 \<Rightarrow> bool"
  assumes ok_proc: "ok L p \<Longrightarrow> proc_ok p"
    and ok_block: "ok L p \<Longrightarrow> L b = Some n \<Longrightarrow>
      b \<noteq> 0 \<and> n < 2 ^ 64 \<and> readable p b n \<and> in_heaps b (of_nat n) p"
    and ok_apart: "ok L p \<Longrightarrow> apart_blocks L"
    and ok_write: "ok L p \<Longrightarrow> L b = Some n \<Longrightarrow> length vs \<le> n \<Longrightarrow> write_bytes b vs p = Some p' \<Longrightarrow> ok L p'"
    and malloc_law: "ok L p \<Longrightarrow> bounded sz \<Longrightarrow> bench_malloc api sz al p = (Inr q, p') \<Longrightarrow> fresh_block ok L p sz q p'"
    and malloc_align: "ok L p \<Longrightarrow> bounded sz \<Longrightarrow> bench_malloc api sz al p = (Inr q, p') \<Longrightarrow> supports al \<Longrightarrow>
      q mod max al (least_align sz) = 0"
    and calloc_law: "ok L p \<Longrightarrow> bounded (nmemb * sz) \<Longrightarrow> bench_calloc api nmemb sz p = (Inr q, p') \<Longrightarrow> fresh_block ok L p (nmemb * sz) q p'"
    and calloc_clear: "ok L p \<Longrightarrow> bounded (nmemb * sz) \<Longrightarrow> bench_calloc api nmemb sz p = (Inr q, p') \<Longrightarrow> q \<noteq> 0 \<Longrightarrow>
      i < unat (nmemb * sz) \<Longrightarrow> read8 p' (q + of_nat i) = Some 0"
    and realloc_null: "ok L p \<Longrightarrow> bounded sz \<Longrightarrow> bench_realloc api 0 sz p = (Inr q, p') \<Longrightarrow> fresh_block ok L p sz q p'"
    and realloc_law: "ok L p \<Longrightarrow> L b = Some n \<Longrightarrow> sz \<noteq> 0 \<Longrightarrow> bounded sz \<Longrightarrow> bench_realloc api b sz p = (Inr q, p') \<Longrightarrow>
      fresh_block ok (L(b := None)) p sz q p'"
    and realloc_copies: "ok L p \<Longrightarrow> L b = Some n \<Longrightarrow> sz \<noteq> 0 \<Longrightarrow> bounded sz \<Longrightarrow> bench_realloc api b sz p = (Inr q, p') \<Longrightarrow> q \<noteq> 0 \<Longrightarrow>
      i < n \<Longrightarrow> i < unat sz \<Longrightarrow> read8 p' (q + of_nat i) = read8 p (b + of_nat i)"
    and realloc_align: "ok L p \<Longrightarrow> L b = Some n \<Longrightarrow> sz \<noteq> 0 \<Longrightarrow> bounded sz \<Longrightarrow> bench_realloc api b sz p = (Inr q, p') \<Longrightarrow>
      q mod least_align sz = 0"
    and free_law: "ok L p \<Longrightarrow> L b = Some n \<Longrightarrow> bench_free api b sh ah p = (Inr u, p') \<Longrightarrow>
      ok (L(b := None)) p' \<and> keeps (L(b := None)) p p'"
    and free_null: "ok L p \<Longrightarrow> bench_free api 0 sh ah p = (Inr u, p') \<Longrightarrow> ok L p' \<and> keeps L p p'"
    and malloc_ok: "ok L p \<Longrightarrow> bounded sz \<Longrightarrow> bench_malloc api sz al p \<noteq> (Inl e, p')"
    and calloc_ok: "ok L p \<Longrightarrow> bounded (nmemb * sz) \<Longrightarrow> bench_calloc api nmemb sz p \<noteq> (Inl e, p')"
    and realloc_null_ok: "ok L p \<Longrightarrow> bounded sz \<Longrightarrow> bench_realloc api 0 sz p \<noteq> (Inl e, p')"
    and realloc_errors: "ok L p \<Longrightarrow> L b = Some n \<Longrightarrow> sz \<noteq> 0 \<Longrightarrow> bounded sz \<Longrightarrow>
      bench_realloc api b sz p = (Inl e, p') \<Longrightarrow> e = crash"
    and free_ok: "ok L p \<Longrightarrow> b = 0 \<or> L b = Some n \<Longrightarrow> bench_free api b sh ah p \<noteq> (Inl e, p')"

text \<open>The checker's map describes the live blocks, and each is full of its magic bytes.\<close>

definition tracked :: "blocks \<Rightarrow> checker \<Rightarrow> process \<Rightarrow> bool" where
  "tracked L c p \<longleftrightarrow>
     (\<forall>b. L b = map_option (\<lambda>k. unat (block_size k)) (map_of (allocated_blocks c) b))
     \<and> (\<forall>b k j. map_of (allocated_blocks c) b = Some k \<longrightarrow> j < unat (block_size k) \<longrightarrow> clean p b (block_magic k) j)"

text \<open>
  The only errors of a run over a correct interface: the allocator is out of memory, or (only
  where \<open>R\<close> allows it) \<^verbatim>\<open>realloc\<close> of a live block is undefined.
\<close>

definition excused :: "bool \<Rightarrow> error \<Rightarrow> bool" where
  "excused R e \<longleftrightarrow> (\<exists>sz. e = failed '' Bad nullptr alloc'' [sz]) \<or> R \<and> e = crash"

lemma excused_mono: "excused R e \<Longrightarrow> (R \<Longrightarrow> R') \<Longrightarrow> excused R' e"
  by (auto simp: excused_def)

text \<open>What an operation of the checked allocator does: it is excused, or it succeeds and the invariant holds.\<close>

definition checked :: "bool \<Rightarrow> (blocks \<Rightarrow> process \<Rightarrow> bool) \<Rightarrow> ('a \<Rightarrow> blocks \<Rightarrow> bool) \<Rightarrow> 'a status_or \<times> checker \<times> process \<Rightarrow> bool" where
  "checked R ok post r \<longleftrightarrow> (case r of
     (Inl e, s) \<Rightarrow> excused R e
   | (Inr a, (c, p)) \<Rightarrow> \<exists>L'. post a L' \<and> ok L' p \<and> tracked L' c p)"

lemma tracked_keeps:
  assumes "tracked L c p" "keeps L p p'"
  shows "tracked L c p'"
  using assms by (fastforce simp: tracked_def keeps_def clean_def)

lemma tracked_find: "tracked L c p \<Longrightarrow> L b = Some n \<Longrightarrow>
  \<exists>k. map_of (allocated_blocks c) b = Some k \<and> n = unat (block_size k) \<and> (\<forall>j<n. clean p b (block_magic k) j)"
  unfolding tracked_def by (metis (no_types, lifting) map_option_eq_Some)

lemma tracked_none: "tracked L c p \<Longrightarrow> map_of (allocated_blocks c) b = None \<longleftrightarrow> L b = None"
  unfolding tracked_def by (metis option.map_disc_iff)

lemma tracked_erase:
  assumes "tracked L c p"
  shows "tracked (L(b := None)) (erase_block b c) p"
  using assms by (auto simp: tracked_def erase_block_def AList.delete_conv')

lemma tracked_insert:
  assumes t: "tracked L c p" and n: "L b = None"
    and k: "\<And>j. j < unat (block_size k) \<Longrightarrow> clean p b (block_magic k) j"
  shows "tracked (L(b \<mapsto> unat (block_size k))) (insert_block b k c) p"
  using t k by (auto simp: tracked_def insert_block_def)

lemma tracked_draws [simp]: "tracked L (c\<lparr>draws := d\<rparr>) p = tracked L c p"
  by (simp add: tracked_def)

lemma unat64: "unat (x :: u64) < 2 ^ 64"
  using unsigned_less [where 'a = nat and w = x] by simp

text \<open>Filling a block does not touch the others.\<close>

lemma fill_keeps:
  assumes ap: "apart_blocks L" and b: "L b = Some n" and k: "k \<le> n" and l: "\<And>c j. L c = Some j \<Longrightarrow> j < 2 ^ 64"
    and r: "\<And>a. read8 p' a = (if unat (a - b) < k then Some (f (unat (a - b))) else read8 p a)"
  shows "keeps (L(b := None)) p p'"
  unfolding keeps_def
proof (intro allI impI)
  fix c j i assume c: "(L(b := None)) c = Some j" and i: "i < j"
  then have cb: "c \<noteq> b" "L c = Some j" by (auto split: if_splits)
  have "in_block c j (c + of_nat i)" using i l [OF cb(2)] by (simp add: in_block_def unat_of_nat)
  then have "\<not> in_block b n (c + of_nat i)" using ap b cb unfolding apart_blocks_def by blast
  then have "\<not> unat (c + of_nat i - b) < k" using k by (simp add: in_block_def)
  then show "read8 p' (c + of_nat i) = read8 p (c + of_nat i)" using r by simp
qed



text \<open>What an allocation does to the live blocks.\<close>

definition alloc_post :: "blocks \<Rightarrow> u64 \<Rightarrow> ptr \<Rightarrow> blocks \<Rightarrow> bool" where
  "alloc_post L sz q L' \<longleftrightarrow> L' = (if sz = 0 then L else L(q \<mapsto> unat sz)) \<and> (sz = 0 \<longleftrightarrow> q = 0) \<and> (sz \<noteq> 0 \<longrightarrow> L q = None)"

context bench_contract
begin

text \<open>A new block that is filled.\<close>

lemma filled:
  fixes sz :: u64
  assumes okq: "ok (L(q \<mapsto> unat sz)) p'" and n: "L q = None" and t: "tracked L c p'"
    and w: "write_bytes q (map (magic_byte w) [0..<unat sz]) p' = Some p2"
    and r: "\<And>b. read8 p2 b = (if unat (b - q) < unat sz then Some (magic_byte w (unat (b - q))) else read8 p' b)"
  shows "ok (L(q \<mapsto> unat sz)) p2" "tracked L c p2" "j < unat sz \<Longrightarrow> clean p2 q w j"
proof -
  let ?L = "L(q \<mapsto> unat sz)"
  show "ok ?L p2" by (rule ok_write [OF okq _ _ w, of "unat sz"]) simp_all
  have "keeps (?L(q := None)) p' p2"
  proof (rule fill_keeps [OF ok_apart [OF okq] _ order.refl _ r])
    show "j < 2 ^ 64" if "?L c = Some j" for c j using ok_block [OF okq that] by simp
  qed simp
  moreover have "?L(q := None) = L" using n by auto
  ultimately show "tracked L c p2" using tracked_keeps [OF t] by simp
  assume j: "j < unat sz"
  then have "j < 2 ^ 64" by (rule less_trans) (rule unat64)
  then have "unat (q + of_nat j - q) = j" by (simp add: unat_of_nat)
  then show "clean p2 q w j" using r [of "q + of_nat j"] j by (simp add: clean_def)
qed

lemma post_alloc:
  assumes L: "ok L p" and t: "tracked L c p" and f: "fresh_block ok L p sz q p'"
    and al: "\<And>a. al = Some a \<Longrightarrow> q mod max a (least_align sz) = 0"
    and cl: "cal \<Longrightarrow> q \<noteq> 0 \<Longrightarrow> (\<And>i. i < unat sz \<Longrightarrow> read8 p' (q + of_nat i) = Some 0)"
  shows "checked R ok (\<lambda>_ L'. L' = (if sz = 0 then L else L(q \<mapsto> unat sz)) \<and> (sz = 0 \<longleftrightarrow> q = 0) \<and> (sz \<noteq> 0 \<longrightarrow> L q = None))
    (checker_PostAlloc q sz al cal (c, p'))"
proof (cases "sz = 0")
  case True
  have "ok L p' \<and> tracked L c p' \<and> q = 0" using f True tracked_keeps [OF t] by (simp add: fresh_block_def)
  then show ?thesis using True by (simp add: checked_def checker_PostAlloc_def op_return_def)
next
  case sz: False
  show ?thesis
  proof (cases "q = 0")
    case True
    then show ?thesis using sz by (auto simp: checked_def checker_PostAlloc_def ValidateNewBlock_def excused_def)
  next
    case q: False
    let ?L = "L(q \<mapsto> unat sz)"
    have n: "L q = None" and okq: "ok ?L p'" and t': "tracked L c p'"
      using f sz q tracked_keeps [OF t] by (simp_all add: fresh_block_def)
    have b: "readable p' q (unat sz)" "in_heaps q sz p'" using ok_block [OF okq, of q "unat sz"] by simp_all
    have v: "ValidateNewBlock q sz al (c, p') = (Inr (), (c, p'))"
    proof (cases al)
      case (Some a)
      have "q mod max a (if sz \<le> 8 then 8 else 16) = 0" using al [OF Some] by (simp add: least_align_def)
      then show ?thesis using Some q b(2) by (simp add: ValidateNewBlock_def Let_def)
    qed (use q b(2) in \<open>simp add: ValidateNewBlock_def\<close>)
    have m: "map_of (allocated_blocks c) q = None" using tracked_none [OF t'] n by simp
    let ?w = "prng c (draws c)" and ?c = "c\<lparr>draws := Suc (draws c)\<rparr>"
    let ?k = "\<lparr>block_size = sz, block_magic = ?w\<rparr>"
    obtain p2 where fill: "FillMagicBytes q sz ?w p' = (Inr (), p2)" "write_bytes q (map (magic_byte ?w) [0..<unat sz]) p' = Some p2"
      "\<And>b. read8 p2 b = (if unat (b - q) < unat sz then Some (magic_byte ?w (unat (b - q))) else read8 p' b)"
      by (rule FillMagicBytes_spec [OF ok_proc [OF okq] b(1)]) (rule that; assumption)
    note fl = filled [OF okq n t' fill(2,3)]
    have t2: "tracked L ?c p2" using fl(2) by simp
    have t3: "tracked ?L (insert_block q ?k ?c) p2" using tracked_insert [OF t2 n, of ?k] fl(3) by simp
    have cc: "\<not> (cal \<and> check_cleared q (unat sz) p' = None)" "\<not> (cal \<and> check_cleared q (unat sz) p' = Some False)"
      using cl q check_cleared_True [of "unat sz" p' q] by auto
    have "checker_PostAlloc q sz al cal (c, p') = (Inr (), (insert_block q ?k ?c, p2))"
      using sz v m cc fill(1) unfolding checker_PostAlloc_def by (simp add: Let_def on_process_def)
    then show ?thesis using fl(1) t3 sz q n by (simp add: checked_def)
  qed
qed

lemma checked_bind:
  assumes f: "checked R ok post (f s)" and g: "\<And>a c p L'. post a L' \<Longrightarrow> ok L' p \<Longrightarrow> tracked L' c p \<Longrightarrow> checked R ok post' (g a (c, p))"
  shows "checked R ok post' (op_bind f g s)"
proof -
  obtain r c p where s': "f s = (r, (c, p))" by (metis surj_pair)
  show ?thesis
  proof (cases r)
    case (Inr a)
    then obtain L' where "post a L'" "ok L' p" "tracked L' c p" using f s' by (auto simp: checked_def)
    from g [OF this] show ?thesis using s' Inr by simp
  qed (use f s' in \<open>simp add: checked_def\<close>)
qed

lemma checked_post_alloc:
  assumes "ok L p" "tracked L c p" "fresh_block ok L p sz q p'"
    "\<And>a. al = Some a \<Longrightarrow> q mod max a (least_align sz) = 0"
    "cal \<Longrightarrow> q \<noteq> 0 \<Longrightarrow> (\<And>i. i < unat sz \<Longrightarrow> read8 p' (q + of_nat i) = Some 0)"
  shows "checked R ok (alloc_post L sz) (op_bind (checker_PostAlloc q sz al cal) (\<lambda>_. op_return q) (c, p'))"
proof -
  have "checked R ok (\<lambda>_ L'. L' = (if sz = 0 then L else L(q \<mapsto> unat sz)) \<and> (sz = 0 \<longleftrightarrow> q = 0) \<and> (sz \<noteq> 0 \<longrightarrow> L q = None))
    (checker_PostAlloc q sz al cal (c, p'))"
    by (rule post_alloc [OF assms(1-3)]) (use assms(4,5) in blast)+
  then show ?thesis by (rule checked_bind) (auto simp: checked_def op_return_def alloc_post_def)
qed

lemma api_crash: "checked True ok post (Inl crash, s)"
  by (simp add: checked_def excused_def)

lemma checked_Malloc:
  assumes L: "ok L p" and t: "tracked L c p" and bd: "bounded sz" and s: "\<And>a. al = Some a \<Longrightarrow> supports a"
  shows "checked R ok (alloc_post L sz) (Malloc (CorrectnessChecker api) sz al (c, p))"
proof (cases "bench_malloc api sz (value_or al 0) p")
  case (Pair r p')
  show ?thesis
  proof (cases r)
    case (Inl e)
    then show ?thesis using Pair malloc_ok [OF L bd] by simp
  next
    case (Inr q)
    note m = Pair [unfolded Inr]
    have f: "fresh_block ok L p sz q p'" by (rule malloc_law [OF L bd m])
    have "q mod max a (least_align sz) = 0" if "al = Some a" for a
      using malloc_align [OF L bd m] s [OF that] that by (simp add: value_or_def)
    then have al: "q mod max a (least_align sz) = 0" if "al = Some a" for a using that by blast
    have n: "\<not> (sz = 0 \<and> q \<noteq> 0)" using f by (auto simp: fresh_block_def)
    have "Malloc (CorrectnessChecker api) sz al (c, p) = op_bind (checker_PostAlloc q sz al False) (\<lambda>_. op_return q) (c, p')"
      using Pair Inr n
      by (cases "q = 0") (simp_all add: CorrectnessChecker_def MallocRunner_def runner_Malloc_def on_process_def checker_hooks_def)
    then show ?thesis using checked_post_alloc [OF L t f, where al = al and cal = False] al by metis
  qed
qed

lemma checked_Calloc:
  assumes L: "ok L p" and t: "tracked L c p" and bd: "bounded (nmemb * sz)"
  shows "checked R ok (alloc_post L (nmemb * sz)) (Calloc (CorrectnessChecker api) nmemb sz (c, p))"
proof (cases "bench_calloc api nmemb sz p")
  case (Pair r p')
  show ?thesis
  proof (cases r)
    case (Inl e)
    then show ?thesis using Pair calloc_ok [OF L bd] by simp
  next
    case (Inr q)
    note m = Pair [unfolded Inr]
    have f: "fresh_block ok L p (nmemb * sz) q p'" by (rule calloc_law [OF L bd m])
    have z: "read8 p' (q + of_nat i) = Some 0" if "q \<noteq> 0" "i < unat (nmemb * sz)" for i
      by (rule calloc_clear [OF L bd m that])
    have n: "\<not> ((nmemb = 0 \<or> sz = 0) \<and> q \<noteq> 0)" using f by (auto simp: fresh_block_def)
    have "Calloc (CorrectnessChecker api) nmemb sz (c, p) = op_bind (checker_PostAlloc q (nmemb * sz) None True) (\<lambda>_. op_return q) (c, p')"
      using Pair Inr n
      by (cases "q = 0") (simp_all add: CorrectnessChecker_def MallocRunner_def runner_Calloc_def on_process_def checker_hooks_def)
    then show ?thesis using checked_post_alloc [OF L t f, where al = None and cal = True] z by simp
  qed
qed

lemma check_clean:
  assumes L: "ok L p" and t: "tracked L c p" and b: "L b = Some n"
  obtains k where "map_of (allocated_blocks c) b = Some k" "n = unat (block_size k)" "b \<noteq> 0"
    "CheckMagicBytes b (block_size k) (block_magic k) p = (Inr (), p)" "\<And>j. j < n \<Longrightarrow> clean p b (block_magic k) j"
proof -
  obtain k where k: "map_of (allocated_blocks c) b = Some k" "n = unat (block_size k)"
    "\<forall>j<n. clean p b (block_magic k) j" using tracked_find [OF t b] by blast
  have r: "readable p b (unat (block_size k))" "b \<noteq> 0" using ok_block [OF L b] k(2) by simp_all
  have "CheckMagicBytes b (block_size k) (block_magic k) p = (Inr (), p)"
  proof -
    have "first_dirty p b (block_magic k) [0..<unat (block_size k)] = None"
      unfolding first_dirty_None using k(2,3) by blast
    then show ?thesis using CheckMagicBytes_spec [OF r(1)] by simp
  qed
  then show thesis using that k r by blast
qed

lemma checked_Free:
  assumes L: "ok L p" and t: "tracked L c p" and b: "L b = Some n"
  shows "checked R ok (\<lambda>_ L'. L' = L(b := None)) (Free (CorrectnessChecker api) b sh ah (c, p))"
proof -
  obtain k where k: "map_of (allocated_blocks c) b = Some k" "b \<noteq> 0"
    "CheckMagicBytes b (block_size k) (block_magic k) p = (Inr (), p)"
    by (rule check_clean [OF assms]) (rule that; assumption)
  have e: "Free (CorrectnessChecker api) b sh ah (c, p)
      = on_process (bench_free api b (value_or sh 0) (value_or ah 0)) (erase_block b c, p)"
    using k by (simp add: CorrectnessChecker_def MallocRunner_def runner_Free_def checker_hooks_def
      checker_PreRelease_def on_process_def)
  obtain r p' where r: "bench_free api b (value_or sh 0) (value_or ah 0) p = (r, p')" by (metis surj_pair)
  show ?thesis
  proof (cases r)
    case (Inl x)
    then show ?thesis using r free_ok [OF L disjI2 [OF b]] by simp
  next
    case (Inr u)
    note f = free_law [OF L b r [unfolded Inr]]
    have "tracked (L(b := None)) (erase_block b c) p'"
      by (rule tracked_keeps [OF tracked_erase [OF t]]) (use f in blast)
    then show ?thesis using e r Inr f by (simp add: on_process_def checked_def)
  qed
qed

lemma checked_Free_null:
  assumes L: "ok L p" and t: "tracked L c p"
  shows "checked R ok (\<lambda>_ L'. L' = L) (Free (CorrectnessChecker api) 0 sh ah (c, p))"
proof -
  have e: "Free (CorrectnessChecker api) 0 sh ah (c, p)
      = on_process (bench_free api 0 (value_or sh 0) (value_or ah 0)) (c, p)"
    by (simp add: CorrectnessChecker_def MallocRunner_def runner_Free_def checker_hooks_def
      checker_PreRelease_def on_process_def)
  obtain r p' where r: "bench_free api 0 (value_or sh 0) (value_or ah 0) p = (r, p')" by (metis surj_pair)
  show ?thesis
  proof (cases r)
    case (Inl x)
    then show ?thesis using r free_ok [OF L disjI1 [OF refl]] by simp
  next
    case (Inr u)
    note f = free_null [OF L r [unfolded Inr]]
    then show ?thesis using e r Inr tracked_keeps [OF t] by (simp add: on_process_def checked_def)
  qed
qed

lemma checked_Realloc_null:
  assumes L: "ok L p" and t: "tracked L c p" and bd: "bounded sz"
  shows "checked R ok (alloc_post L sz) (Realloc (CorrectnessChecker api) 0 sz (c, p))"
proof -
  obtain r p' where r: "bench_realloc api 0 sz p = (r, p')" by (metis surj_pair)
  show ?thesis
  proof (cases r)
    case (Inl e)
    then show ?thesis using r realloc_null_ok [OF L bd] by simp
  next
    case (Inr q)
    have f: "fresh_block ok L p sz q p'" by (rule realloc_null [OF L bd r [unfolded Inr]])
    have "Realloc (CorrectnessChecker api) 0 sz (c, p) = op_bind (checker_PostAlloc q sz None False) (\<lambda>_. op_return q) (c, p')"
      using r Inr by (simp add: CorrectnessChecker_def MallocRunner_def runner_Realloc_def on_process_def checker_hooks_def)
    then show ?thesis using checked_post_alloc [OF L t f, where al = None and cal = False] by simp
  qed
qed

lemma checked_Realloc:
  assumes L: "ok L p" and t: "tracked L c p" and b: "L b = Some n" and sz: "sz \<noteq> 0" and bd: "bounded sz"
  shows "checked True ok (alloc_post (L(b := None)) sz) (Realloc (CorrectnessChecker api) b sz (c, p))"
proof -
  obtain k where k: "map_of (allocated_blocks c) b = Some k" "n = unat (block_size k)" "b \<noteq> 0"
    "CheckMagicBytes b (block_size k) (block_magic k) p = (Inr (), p)" "\<And>j. j < n \<Longrightarrow> clean p b (block_magic k) j"
    by (rule check_clean [OF L t b]) (rule that; assumption)
  let ?c = "erase_block b c" and ?L = "L(b := None)"
  obtain r p' where r: "bench_realloc api b sz p = (r, p')" by (metis surj_pair)
  show ?thesis
  proof (cases r)
    case (Inl e)
    then show ?thesis using r k api_crash realloc_errors [OF L b sz bd r [unfolded Inl]]
      by (simp add: CorrectnessChecker_def MallocRunner_def runner_Realloc_def on_process_def checker_hooks_def
        checker_PreRealloc_def)
  next
    case (Inr q)
    note rr = r [unfolded Inr]
    have f: "fresh_block ok ?L p sz q p'" by (rule realloc_law [OF L b sz bd rr])
    have e: "Realloc (CorrectnessChecker api) b sz (c, p) = op_bind (checker_PostRealloc q b sz k) (\<lambda>_. op_return q) (?c, p')"
      using rr k by (simp add: CorrectnessChecker_def MallocRunner_def runner_Realloc_def on_process_def
        checker_hooks_def checker_PreRealloc_def)
    have "checked True ok (\<lambda>_. alloc_post ?L sz q) (checker_PostRealloc q b sz k (?c, p'))"
    proof (cases "q = 0")
      case True
      then show ?thesis by (auto simp: checked_def checker_PostRealloc_def ValidateNewBlock_def excused_def)
    next
      case q: False
      let ?M = "?L(q \<mapsto> unat sz)" and ?k = "k\<lparr>block_size := sz\<rparr>" and ?w = "block_magic k"
      have n: "?L q = None" and okq: "ok ?M p'" and t': "tracked ?L ?c p'"
        using f sz q tracked_keeps [OF tracked_erase [OF t]] by (auto simp: fresh_block_def)
      have r: "readable p' q (unat sz)" "in_heaps q sz p'" using ok_block [OF okq, of q "unat sz"] by simp_all
      have v: "ValidateNewBlock q sz (Some 0) (?c, p') = (Inr (), (?c, p'))"
        using q r(2) realloc_align [OF L b sz bd rr] by (simp add: ValidateNewBlock_def Let_def least_align_def)
      have m: "map_of (allocated_blocks ?c) q = None" using tracked_none [OF t'] n by blast
      have le: "unat (min (block_size k) sz) \<le> unat sz" "unat (min (block_size k) sz) \<le> n"
        using k(2) by (simp_all add: word_le_nat_alt [symmetric])
      have cl: "clean p' q ?w j" if "j < unat (min (block_size k) sz)" for j
        using realloc_copies [OF L b sz bd rr q, of j] k(5) [of j] that le by (simp add: clean_def)
      have ck: "CheckMagicBytes q (min (block_size k) sz) ?w p' = (Inr (), p')"
      proof -
        have "first_dirty p' q ?w [0..<unat (min (block_size k) sz)] = None" unfolding first_dirty_None using cl by blast
        then show ?thesis using CheckMagicBytes_spec [OF readable_mono [OF r(1) le(1)]] by simp
      qed
      show ?thesis
      proof (cases "sz > block_size k")
        case False
        then have "min (block_size k) sz = sz" by (simp add: min_def)
        then have c2: "clean p' q (block_magic ?k) j" if "j < unat (block_size ?k)" for j using cl [of j] that by simp
        have sk: "block_size ?k = sz" by simp
        have "tracked ?M (insert_block q ?k ?c) p'" using tracked_insert [OF t' n c2] unfolding sk .
        then show ?thesis using v m ck okq False q sz n
          by (auto simp: checker_PostRealloc_def checked_def alloc_post_def on_process_def op_return_def)
      next
        case True
        obtain p2 where fill: "FillMagicBytes q sz ?w p' = (Inr (), p2)" "write_bytes q (map (magic_byte ?w) [0..<unat sz]) p' = Some p2"
          "\<And>b. read8 p2 b = (if unat (b - q) < unat sz then Some (magic_byte ?w (unat (b - q))) else read8 p' b)"
          by (rule FillMagicBytes_spec [OF ok_proc [OF okq] r(1)]) (rule that; assumption)
        note fl = filled [OF okq n t' fill(2,3)]
        have c2: "clean p2 q (block_magic ?k) j" if "j < unat (block_size ?k)" for j using fl(3) [of j] that by simp
        have sk: "block_size ?k = sz" by simp
        have "tracked ?M (insert_block q ?k ?c) p2" using tracked_insert [OF fl(2) n c2] unfolding sk .
        then show ?thesis using v m ck fl(1) fill(1) True q sz n
          by (auto simp: checker_PostRealloc_def checked_def alloc_post_def on_process_def op_return_def)
      qed
    qed
    then show ?thesis unfolding e by (rule checked_bind) (auto simp: checked_def op_return_def)
  qed
qed

end

subsection \<open>Whole traces\<close>

text \<open>Lines whose sizes are neither zero nor too large and whose alignments are supported.\<close>

fun sized :: "(u64 \<Rightarrow> bool) \<Rightarrow> (u64 \<Rightarrow> bool) \<Rightarrow> trace_line \<Rightarrow> bool" where
  "sized supp bd (kMalloc l) \<longleftrightarrow> field (malloc_input_size l) \<noteq> 0 \<and> bd (field (malloc_input_size l))
     \<and> (case malloc_input_alignment l of None \<Rightarrow> True | Some a \<Rightarrow> supp a)"
| "sized supp bd (kCalloc l) \<longleftrightarrow> field (calloc_input_nmemb l) * field (calloc_input_size l) \<noteq> 0
     \<and> bd (field (calloc_input_nmemb l) * field (calloc_input_size l))"
| "sized supp bd (kRealloc l) \<longleftrightarrow> field (realloc_input_size l) \<noteq> 0 \<and> bd (field (realloc_input_size l))"
| "sized supp bd (kFree l) \<longleftrightarrow> True"
| "sized supp bd OP_NOT_SET \<longleftrightarrow> False"

text \<open>A line that reallocates a live block.\<close>

fun reallocates :: "trace_line \<Rightarrow> bool" where
  "reallocates (kRealloc l) \<longleftrightarrow> realloc_input_id l \<noteq> None"
| "reallocates _ \<longleftrightarrow> False"

lemma sized_sets_id: "sized supp bd l \<Longrightarrow> sets_id l"
  by (cases l) auto

text \<open>The live ids stand for different live blocks.\<close>

definition bound_ids :: "u64 set \<Rightarrow> (u64 \<Rightarrow> ptr) \<Rightarrow> blocks \<Rightarrow> bool" where
  "bound_ids I M L \<longleftrightarrow> inj_on M I \<and> (\<forall>i\<in>I. L (M i) \<noteq> None)"

lemma bound_ids_new:
  assumes "bound_ids I M L" "L q = None" "i \<notin> I"
  shows "bound_ids (insert i I) (M(i := q)) (L(q \<mapsto> n))"
proof -
  have q: "q \<notin> M ` I" using assms(1,2) by (auto simp: bound_ids_def)
  have e: "(M(i := q)) ` I = M ` I" using assms(3) by auto
  have "inj_on (M(i := q)) I" using assms(1,3) by (auto simp: bound_ids_def inj_on_def)
  then show ?thesis using assms q e by (auto simp: bound_ids_def)
qed

lemma bound_ids_more: "bound_ids I M L \<Longrightarrow> L q = None \<Longrightarrow> bound_ids I M (L(q \<mapsto> n))"
  by (auto simp: bound_ids_def)

lemma bound_ids_del:
  assumes "bound_ids I M L" "i \<in> I"
  shows "bound_ids (I - {i}) M (L(M i := None))"
  using assms by (auto simp: bound_ids_def inj_on_def)

lemma alloc_bound:
  assumes "bound_ids I M L" "alloc_post L sz q L'" "sz \<noteq> 0" "set_option r \<inter> I = {}"
  shows "bound_ids (I \<union> set_option r) (case r of None \<Rightarrow> M | Some i \<Rightarrow> M(i := q)) L'"
  using assms bound_ids_new [OF assms(1), of q _ "unat sz"] bound_ids_more [OF assms(1), of q "unat sz"]
  by (auto simp: alloc_post_def split: option.splits)

context bench_contract
begin

lemma checked_cases:
  assumes "checked R ok post (r, s')"
  obtains (error) e where "r = Inl e" "excused R e"
  | (ok) a c' p' L' where "r = Inr a" "s' = (c', p')" "post a L'" "ok L' p'" "tracked L' c' p'"
  using assms by (cases r; cases s') (auto simp: checked_def)

lemma checked_line:
  assumes L: "ok L p" "tracked L c p" "bound_ids I M L" and I: "live_step I l = Some I'" and s: "sized supports bounded l"
    and r: "ref_line (CorrectnessChecker api) l M (c, p) = (r, M', s')"
  shows "case r of Inl e \<Rightarrow> excused (reallocates l) e
    | Inr _ \<Rightarrow> \<exists>L' c' p'. s' = (c', p') \<and> ok L' p' \<and> tracked L' c' p' \<and> bound_ids I' M' L'"
proof (cases l)
  case l: (kMalloc m)
  have ch: "checked (reallocates l) ok (alloc_post L (field (malloc_input_size m)))
      (Malloc (CorrectnessChecker api) (field (malloc_input_size m)) (malloc_input_alignment m) (c, p))"
    by (rule checked_Malloc [OF L(1,2)]) (use s l in simp_all)
  obtain r1 s1 where e: "Malloc (CorrectnessChecker api) (field (malloc_input_size m)) (malloc_input_alignment m) (c, p) = (r1, s1)"
    by (metis surj_pair)
  have I': "I' = I \<union> set_option (malloc_result_id m)" "set_option (malloc_result_id m) \<inter> I = {}"
    using I l by (auto simp: live_step_def Let_def split: if_splits)
  from ch [unfolded e] show ?thesis
  proof (cases rule: checked_cases)
    case (ok q c' p' L')
    have "bound_ids I' (case malloc_result_id m of None \<Rightarrow> M | Some i \<Rightarrow> M(i := q)) L'"
      unfolding I'(1) by (rule alloc_bound [OF L(3) ok(3) _ I'(2)]) (use s l in simp)
    then show ?thesis using ok e r l by auto
  qed (use e r l in auto)
next
  case l: (kCalloc m)
  let ?sz = "field (calloc_input_nmemb m) * field (calloc_input_size m)"
  have ch: "checked (reallocates l) ok (alloc_post L ?sz)
      (Calloc (CorrectnessChecker api) (field (calloc_input_nmemb m)) (field (calloc_input_size m)) (c, p))"
    by (rule checked_Calloc [OF L(1,2)]) (use s l in simp)
  obtain r1 s1 where e: "Calloc (CorrectnessChecker api) (field (calloc_input_nmemb m)) (field (calloc_input_size m)) (c, p) = (r1, s1)"
    by (metis surj_pair)
  have I': "I' = I \<union> set_option (calloc_result_id m)" "set_option (calloc_result_id m) \<inter> I = {}"
    using I l by (auto simp: live_step_def Let_def split: if_splits)
  from ch [unfolded e] show ?thesis
  proof (cases rule: checked_cases)
    case (ok q c' p' L')
    have "bound_ids I' (case calloc_result_id m of None \<Rightarrow> M | Some i \<Rightarrow> M(i := q)) L'"
      unfolding I'(1) by (rule alloc_bound [OF L(3) ok(3) _ I'(2)]) (use s l in simp)
    then show ?thesis using ok e r l by auto
  qed (use e r l in auto)
next
  case l: (kRealloc m)
  let ?sz = "field (realloc_input_size m)" and ?b = "case realloc_input_id m of None \<Rightarrow> 0 | Some i \<Rightarrow> M i"
  let ?rid = "field (realloc_result_id m)" and ?I = "I - set_option (realloc_input_id m)"
  have sz: "?sz \<noteq> 0" "bounded ?sz" using s l by simp_all
  have I': "I' = ?I \<union> {?rid}" "{?rid} \<inter> ?I = {}" "set_option (realloc_input_id m) \<subseteq> I"
    using I l by (auto simp: live_step_def Let_def split: if_splits)
  obtain L1 where L1: "checked (reallocates l) ok (alloc_post L1 ?sz) (Realloc (CorrectnessChecker api) ?b ?sz (c, p))" "bound_ids ?I M L1"
  proof (cases "realloc_input_id m")
    case None
    then show thesis using that [of L] checked_Realloc_null [OF L(1,2) sz(2), of "reallocates l"] L(3) by simp
  next
    case (Some i)
    then obtain n where "L (M i) = Some n" using L(3) I'(3) by (auto simp: bound_ids_def)
    then show thesis
      using that [of "L(M i := None)"] checked_Realloc [OF L(1,2) _ sz] bound_ids_del [OF L(3), of i] Some I'(3) l by simp
  qed
  obtain r1 s1 where e: "Realloc (CorrectnessChecker api) ?b ?sz (c, p) = (r1, s1)" by (metis surj_pair)
  from L1(1) [unfolded e] show ?thesis
  proof (cases rule: checked_cases)
    case (ok q c' p' L')
    have "bound_ids I' (M(?rid := q)) L'"
      using alloc_bound [OF L1(2) ok(3) sz(1), of "Some ?rid"] I'(1,2) by simp
    then show ?thesis using ok e r l by auto
  qed (use e r l in auto)
next
  case l: (kFree m)
  show ?thesis
  proof (cases "free_input_id m")
    case None
    have I': "I' = I" using I l None by (auto simp: live_step_def Let_def split: if_splits)
    obtain r1 s1 where e: "Free (CorrectnessChecker api) 0 None None (c, p) = (r1, s1)" by (metis surj_pair)
    from checked_Free_null [OF L(1,2), where R = "reallocates l" and sh = None and ah = None, unfolded e] show ?thesis
      by (cases rule: checked_cases) (use e r l None I' L(3) in auto)
  next
    case (Some i)
    have I': "I' = I - {i}" "i \<in> I" using I l Some by (auto simp: live_step_def Let_def split: if_splits)
    then obtain n where n: "L (M i) = Some n" using L(3) by (auto simp: bound_ids_def)
    obtain r1 s1 where e: "Free (CorrectnessChecker api) (M i) (free_input_size_hint m) (free_input_alignment_hint m) (c, p) = (r1, s1)"
      by (metis surj_pair)
    from checked_Free [OF L(1,2) n, where R = "reallocates l" and sh = "free_input_size_hint m" and ah = "free_input_alignment_hint m", unfolded e] show ?thesis
      by (cases rule: checked_cases) (use e r l Some I' bound_ids_del [OF L(3) I'(2)] in auto)
  qed
qed (use s in simp)

lemma checked_lines:
  assumes "ok L p" "tracked L c p" "bound_ids I M L" "live_run I ls = Some I'" "list_all (sized supports bounded) ls"
    and "ref_lines (CorrectnessChecker api) ls M (c, p) = (r, M', s')"
  shows "case r of Inl e \<Rightarrow> excused (list_ex reallocates ls) e
    | Inr _ \<Rightarrow> \<exists>L' c' p'. s' = (c', p') \<and> ok L' p' \<and> tracked L' c' p' \<and> bound_ids I' M' L'"
  using assms
proof (induction ls arbitrary: L p c I M)
  case (Cons l ls)
  obtain I1 where I1: "live_step I l = Some I1" "live_run I1 ls = Some I'"
    using Cons.prems(4) by (auto split: Option.bind_splits)
  obtain r1 M1 s1 where e: "ref_line (CorrectnessChecker api) l M (c, p) = (r1, M1, s1)" by (metis surj_pair)
  have s: "sized supports bounded l" "list_all (sized supports bounded) ls" using Cons.prems(5) by simp_all
  note h = checked_line [OF Cons.prems(1-3) I1(1) s(1) e]
  show ?case
  proof (cases r1)
    case (Inl x)
    then show ?thesis using h e Cons.prems(6) excused_mono [of _ x "list_ex reallocates (l # ls)"] by auto
  next
    case (Inr u)
    then obtain L' c' p' where L': "s1 = (c', p')" "ok L' p'" "tracked L' c' p'" "bound_ids I1 M1 L'" using h by auto
    have "ref_lines (CorrectnessChecker api) ls M1 (c', p') = (r, M', s')" using e Inr Cons.prems(6) L'(1) by simp
    from Cons.IH [OF L'(2-4) I1(2) s(2) this] show ?thesis
      using excused_mono [of "list_ex reallocates ls" _ "list_ex reallocates (l # ls)"] by (auto split: sum.splits)
  qed
qed auto

lemma no_false_alarm:
  assumes "ok (\<lambda>_. None) p" "trace_ok ls" "list_all (sized supports bounded) ls"
    and "replay (CorrectnessChecker api) ls (new_checker rng, p) = (Inl e, s')"
  shows "excused (list_ex reallocates ls) e"
proof -
  obtain r M' where r: "ref_lines (CorrectnessChecker api) ls (\<lambda>_. 0) (new_checker rng, p) = (r, M', s')" "r = Inl e"
    using assms(4) by (auto simp: replay_def split: prod.splits)
  have "tracked (\<lambda>_. None) (new_checker rng) p" by (simp add: tracked_def new_checker_def)
  moreover have "bound_ids {} (\<lambda>_. 0) (\<lambda>_. None)" by (simp add: bound_ids_def)
  ultimately show ?thesis
    using checked_lines [OF assms(1) _ _ _ assms(3) r(1)] assms(2) r(2) by (auto simp: trace_ok_def)
qed

end

end
