(* ===== verification/Bump.thy ===== *)
theory Bump
  imports Checker_Sound
begin

unbundle bit_operations_syntax

section \<open>The bump allocator satisfies the contract\<close>

text \<open>
  The allocator that \<^verbatim>\<open>src/allocator_interface.h\<close> ships with, on the process that
  \<^verbatim>\<open>InitializeHeap\<close> leaves: one heap, in the factory, whose region starts at a multiple of 16.
\<close>

definition bump_heap :: "process \<Rightarrow> ptr \<Rightarrow> memory \<Rightarrow> bool" where
  "bump_heap p k m \<longleftrightarrow> heap_objects p = [(k, m)] \<and> factory_heaps p = [k] \<and> g_heap p = k \<and> k \<noteq> 0
     \<and> Heap_ok m \<and> unat (arena_start m) mod 16 = 0 \<and> unat (arena_end m) mod 16 = 0"

definition placed :: "blocks \<Rightarrow> memory \<Rightarrow> bool" where
  "placed L m \<longleftrightarrow> (\<forall>b n. L b = Some n \<longrightarrow> 0 < n \<and> unat (arena_start m) \<le> unat b \<and> unat b + n \<le> unat (arena_end m))
     \<and> (\<forall>b n c k. L b = Some n \<longrightarrow> L c = Some k \<longrightarrow> b \<noteq> c \<longrightarrow> unat b + n \<le> unat c \<or> unat c + k \<le> unat b)"

definition bump_ok :: "blocks \<Rightarrow> process \<Rightarrow> bool" where
  "bump_ok L p \<longleftrightarrow> (\<exists>k m. bump_heap p k m \<and> placed L m)"

lemma read8_single:
  assumes "heap_objects p = [(k, m)]"
  shows "read8 p a = (if arena_start m \<le> a \<and> a < arena_end m then load8 m a else None)"
  using assms by (simp add: read8_def heap_at_def)

lemma heap_byte:
  assumes "unat (arena_start m) mod 16 = 0" "unat (arena_end m) mod 16 = 0" "arena_start m \<le> a" "a < arena_end m"
  shows "valid_cell m (a AND NOT 7)"
proof -
  have u: "unat (a AND NOT 7) = 8 * (unat a div 8)" using unat_and_not_7 [of a] by simp
  obtain s e where s: "unat (arena_start m) = 8 * s" and e: "unat (arena_end m) = 8 * e"
  proof -
    have "unat (arena_start m) = 8 * (unat (arena_start m) div 8)" "unat (arena_end m) = 8 * (unat (arena_end m) div 8)"
      using assms(1,2) by presburger+
    then show thesis by (rule that)
  qed
  have "8 * s \<le> unat a" "unat a < 8 * e" using assms(3,4) s e by (simp_all add: word_le_nat_alt word_less_nat_alt)
  then have "s \<le> unat a div 8" "unat a div 8 < e" by linarith+
  moreover have "(a AND NOT 7) AND 7 = 0" by (rule bit_eqI) (auto simp: bit_simps)
  ultimately show ?thesis using u s e by (simp add: valid_cell_def word_le_nat_alt)
qed

lemma heap_read:
  assumes "bump_heap p k m" "arena_start m \<le> a" "a < arena_end m"
  shows "read8 p a = load8 m a" "read8 p a \<noteq> None"
proof -
  have h: "heap_objects p = [(k, m)]" using assms(1) by (simp add: bump_heap_def)
  show "read8 p a = load8 m a" using read8_single [OF h] assms(2,3) by simp
  then show "read8 p a \<noteq> None"
    using load8_Some [of m a] heap_byte [OF _ _ assms(2,3)] assms(1) by (auto simp: bump_heap_def)
qed

lemma placed_addr:
  assumes "placed L m" "L b = Some n" "i < n" "unat (arena_end m) < 2 ^ 64"
  shows "unat (b + of_nat i) = unat b + i" "arena_start m \<le> b + of_nat i" "b + of_nat i < arena_end m"
proof -
  have b: "unat (arena_start m) \<le> unat b" "unat b + n \<le> unat (arena_end m)" using assms by (auto simp: placed_def)
  then have i: "i < 2 ^ 64" "unat b + i < 2 ^ 64" using assms(3,4) by simp_all
  then show u: "unat (b + of_nat i) = unat b + i" by (simp add: unat_word_ariths unat_of_nat)
  show "arena_start m \<le> b + of_nat i" "b + of_nat i < arena_end m"
    using u b assms(3) by (simp_all add: word_le_nat_alt word_less_nat_alt)
qed

lemma end64: "unat (arena_end m) < 2 ^ 64"
  by (rule unat64)

lemma unat_sub_in:
  fixes a b :: u64
  assumes "unat b + n \<le> 2 ^ 64" "unat (a - b) < n"
  shows "unat b \<le> unat a" "unat a < unat b + n"
proof -
  have "unat (b + (a - b)) = (unat b + unat (a - b)) mod 2 ^ 64" by (subst unat_word_ariths(1)) simp
  also have "\<dots> = unat b + unat (a - b)" by (rule mod_less) (use assms in simp)
  finally have "unat a = unat b + unat (a - b)" by simp
  then show "unat b \<le> unat a" "unat a < unat b + n" using assms(2) by simp_all
qed

lemma placed_apart:
  assumes "placed L m"
  shows "apart_blocks L"
  unfolding apart_blocks_def
proof (intro allI impI)
  fix b n c k a
  assume h: "L b = Some n" "L c = Some k" "in_block b n a" "in_block c k a"
  have le: "unat b + n \<le> 2 ^ 64" "unat c + k \<le> 2 ^ 64"
    using assms h(1,2) end64 [of m] unfolding placed_def by (meson less_imp_le le_trans)+
  note ab = unat_sub_in [OF le(1), of a] and ac = unat_sub_in [OF le(2), of a]
  show "b = c"
  proof (rule ccontr)
    assume "b \<noteq> c"
    then have "unat b + n \<le> unat c \<or> unat c + k \<le> unat b" using assms h(1,2) unfolding placed_def by blast
    then show False using ab ac h(3,4) by (auto simp: in_block_def)
  qed
qed

lemma bump_ok_writes:
  assumes ok: "bump_ok L p" and w: "write_bytes b vs p = Some p'" and l: "length vs \<le> 2 ^ 64"
  shows "bump_ok L p'"
proof -
  obtain k m where h: "bump_heap p k m" "placed L m" using ok by (auto simp: bump_ok_def)
  have "proc_ok p" using h(1) by (simp add: proc_ok_def bump_heap_def)
  then have s: "same_heaps p p'" using write_bytes_laws [OF _ w l] by blast
  then obtain m' where m': "heap_objects p' = [(k, m')]" "arena_start m' = arena_start m" "arena_end m' = arena_end m"
    "arena_max m' = arena_max m"
    using h(1) by (auto simp: same_heaps_def heap_shape_def bump_heap_def)
  then have "bump_heap p' k m'" "placed L m'"
    using h s by (auto simp: bump_heap_def same_heaps_def Heap_ok_def placed_def)
  then show ?thesis by (auto simp: bump_ok_def)
qed

subsection \<open>\<^verbatim>\<open>malloc\<close>\<close>

lemma round_up_bounds:
  fixes sz :: u64
  assumes "sz \<noteq> 0" "unat sz \<le> 2 ^ 64 - 16"
  defines "R \<equiv> (sz + 0xf) AND NOT 0xf"
  shows "unat sz \<le> unat R" "unat R mod 16 = 0" "R \<noteq> 0"
proof -
  have "unat (sz + 15) = unat sz + 15" using assms(2) by (simp add: unat_word_ariths)
  then have u: "unat R = 16 * ((unat sz + 15) div 16)" using unat_and_not_15 [of "sz + 15"] by (simp add: R_def)
  then show "unat sz \<le> unat R" "unat R mod 16 = 0" by simp_all
  moreover have "0 < unat sz" using assms(1) by (simp add: unat_gt_0)
  ultimately show "R \<noteq> 0" by (metis le_zero_eq not_less_zero unat_0)
qed

lemma bump_malloc_cases:
  assumes h: "bump_heap p k m" and sz: "sz \<noteq> 0" "unat sz \<le> 2 ^ 64 - 16"
    and r: "bump_malloc os sz al p = (r, p')"
  obtains (full) "r = Inr 0" "p' = p"
  | (grown) R where "r = Inr (arena_end m)" "bump_heap p' k (m\<lparr>arena_end := arena_end m + R\<rparr>)"
      "unat (arena_end m + R) = unat (arena_end m) + unat R" "unat sz \<le> unat R"
proof -
  let ?R = "(sz + 0xf) AND NOT 0xf"
  have g: "g_heap p = k" "k \<noteq> 0" "heap_objects p = [(k, m)]" "factory_heaps p = [k]" "Heap_ok m"
    using h by (simp_all add: bump_heap_def)
  have e: "bump_malloc os sz al p = (case Heap_sbrk ?R m of (r, m') \<Rightarrow> (Inr r, set_heap k m' p))"
    using g sz(1) by (simp add: bump_malloc_def heap_sbrk_def Let_def)
  note rb = round_up_bounds [OF sz]
  show thesis
  proof (cases "Heap_room ?R m")
    case True
    have w: "unat (arena_end m + ?R) = unat (arena_end m) + unat ?R"
      using hs.room_no_wrap [OF g(5) True] by (simp add: unat_word_ariths)
    have "Heap_ok (m\<lparr>arena_end := arena_end m + ?R\<rparr>)" by (rule hs.src_ok_grow [OF g(5) True])
    moreover have "p' = set_heap k (m\<lparr>arena_end := arena_end m + ?R\<rparr>) p" "r = Inr (arena_end m)"
      using r e Heap_sbrk_grow [OF g(5) True] by simp_all
    ultimately have "bump_heap p' k (m\<lparr>arena_end := arena_end m + ?R\<rparr>)"
      using h w rb(2) by (auto simp: bump_heap_def set_heap_def mod_add_eq)
    then show thesis using grown [of ?R] \<open>r = _\<close> w rb(1) by blast
  next
    case False
    then have "r = Inr 0" "p' = set_heap k m p" using r e Heap_sbrk_refuse [OF g(5) False] by simp_all
    then show thesis using full g(3) by (simp add: set_heap_def)
  qed
qed

lemma placed_new:
  assumes "placed L m" "Heap_ok m" "0 < n" "n \<le> unat R" "unat (arena_end m + R) = unat (arena_end m) + unat R"
  shows "placed (L(arena_end m \<mapsto> n)) (m\<lparr>arena_end := arena_end m + R\<rparr>)" "L (arena_end m) = None"
proof -
  have l: "0 < k \<and> unat (arena_start m) \<le> unat b \<and> unat b + k \<le> unat (arena_end m)" if "L b = Some k" for b k
    using assms(1) that unfolding placed_def by blast
  show n: "L (arena_end m) = None" by (cases "L (arena_end m)") (use l [of "arena_end m"] in auto)
  have s: "unat (arena_start m) \<le> unat (arena_end m)" using assms(2) by (simp add: Heap_ok_def word_le_nat_alt)
  have d: "unat b + k \<le> unat c \<or> unat c + j \<le> unat b" if "L b = Some k" "L c = Some j" "b \<noteq> c" for b k c j
    using assms(1) that unfolding placed_def by blast
  have e: "arena_start (m\<lparr>arena_end := a\<rparr>) = arena_start m" "arena_end (m\<lparr>arena_end := a\<rparr>) = a" for a by simp_all
  show "placed (L(arena_end m \<mapsto> n)) (m\<lparr>arena_end := arena_end m + R\<rparr>)"
    unfolding placed_def e assms(5)
  proof (intro conjI allI impI)
    fix b k assume b: "(L(arena_end m \<mapsto> n)) b = Some k"
    show "0 < k" "unat (arena_start m) \<le> unat b" "unat b + k \<le> unat (arena_end m) + unat R"
      using b l [of b k] s assms(3,4) by (auto split: if_splits)
  next
    fix b k c j assume b: "(L(arena_end m \<mapsto> n)) b = Some k" and c: "(L(arena_end m \<mapsto> n)) c = Some j" and bc: "b \<noteq> c"
    show "unat b + k \<le> unat c \<or> unat c + j \<le> unat b"
      using b c bc l [of b k] l [of c j] d [of b k c j] by (auto split: if_splits)
  qed
qed

lemma bump_keeps:
  assumes "bump_heap p k m" "placed L m" "bump_heap p' k (m\<lparr>arena_end := arena_end m + R\<rparr>)"
    "unat (arena_end m + R) = unat (arena_end m) + unat R"
  shows "keeps L p p'"
  unfolding keeps_def
proof (intro allI impI)
  fix b n i assume b: "L b = Some n" "i < n"
  note a = placed_addr [OF assms(2) b end64]
  have "b + of_nat i < arena_end m + R" using a(3) assms(4) by (simp add: word_less_nat_alt)
  then have "read8 p' (b + of_nat i) = load8 (m\<lparr>arena_end := arena_end m + R\<rparr>) (b + of_nat i)"
    using heap_read(1) [OF assms(3)] a(2) by simp
  moreover have "\<dots> = load8 m (b + of_nat i)"
  proof -
    have "valid_cell m ((b + of_nat i) AND NOT 7)" "valid_cell (m\<lparr>arena_end := arena_end m + R\<rparr>) ((b + of_nat i) AND NOT 7)"
      using heap_byte [OF _ _ a(2,3)] heap_byte [of "m\<lparr>arena_end := arena_end m + R\<rparr>" "b + of_nat i"] assms(1,3) a(2)
        \<open>b + of_nat i < arena_end m + R\<close> by (auto simp: bump_heap_def)
    then show ?thesis by (simp add: load_lane_def load64_def)
  qed
  ultimately show "read8 p' (b + of_nat i) = read8 p (b + of_nat i)" using heap_read(1) [OF assms(1) a(2,3)] by simp
qed

lemma keeps_refl [simp]: "keeps L p p"
  by (simp add: keeps_def)

lemma bump_malloc_fresh:
  assumes ok: "bump_ok L p" and sz: "unat sz \<le> 2 ^ 64 - 16" and r: "bump_malloc os sz al p = (Inr q, p')"
  shows "fresh_block bump_ok L p sz q p'" "unat q mod 16 = 0"
proof -
  obtain k m where h: "bump_heap p k m" "placed L m" using ok by (auto simp: bump_ok_def)
  have g: "g_heap p \<noteq> 0" "Heap_ok m" "unat (arena_end m) mod 16 = 0" "unat (arena_end m) \<noteq> 0"
    using h(1) by (auto simp: bump_heap_def Heap_ok_def word_le_nat_alt unat_eq_0)
  have "fresh_block bump_ok L p sz q p' \<and> unat q mod 16 = 0"
  proof (cases "sz = 0")
    case True
    then have "q = 0" "p' = p" using r g(1) by (auto simp: bump_malloc_def)
    then show ?thesis using True ok by (simp add: fresh_block_def)
  next
    case False
    show ?thesis
    proof (cases rule: bump_malloc_cases [OF h(1) False sz r])
      case 1
      then show ?thesis using ok False by (simp add: fresh_block_def)
    next
      case (2 R)
      have n: "0 < unat sz" using False by (simp add: unat_gt_0)
      note pn = placed_new [OF h(2) g(2) n 2(4,3)]
      have "keeps L p p'" by (rule bump_keeps [OF h 2(2,3)])
      then show ?thesis using pn 2 False g(3) by (auto simp: fresh_block_def bump_ok_def)
    qed
  qed
  then show "fresh_block bump_ok L p sz q p'" "unat q mod 16 = 0" by blast+
qed


subsection \<open>\<^verbatim>\<open>calloc\<close>, \<^verbatim>\<open>realloc\<close> and \<^verbatim>\<open>free\<close>\<close>

lemma bump_ok_sub:
  assumes "bump_ok L p" "\<And>b n. L' b = Some n \<Longrightarrow> L b = Some n"
  shows "bump_ok L' p"
proof -
  obtain k m where h: "bump_heap p k m" "placed L m" using assms(1) by (auto simp: bump_ok_def)
  have "placed L' m" unfolding placed_def
  proof (intro conjI allI impI)
    fix b n assume "L' b = Some n"
    then show "0 < n" "unat (arena_start m) \<le> unat b" "unat b + n \<le> unat (arena_end m)"
      using assms(2) h(2) unfolding placed_def by blast+
  next
    fix b n c k assume "L' b = Some n" "L' c = Some k" "b \<noteq> c"
    then show "unat b + n \<le> unat c \<or> unat c + k \<le> unat b" using assms(2) h(2) unfolding placed_def by blast
  qed
  then show ?thesis using h(1) by (auto simp: bump_ok_def)
qed

lemma bump_ok_del: "bump_ok L p \<Longrightarrow> bump_ok (L(b := None)) p"
  by (erule bump_ok_sub) (auto split: if_splits)

lemma bump_block_size: "bump_ok L p \<Longrightarrow> L b = Some n \<Longrightarrow> n < 2 ^ 64"
  using end64 unfolding bump_ok_def placed_def by (meson add_leD2 le_less_trans)

lemma keeps_trans: "keeps L p q \<Longrightarrow> keeps L q r \<Longrightarrow> keeps L p r"
  by (simp add: keeps_def)

lemma keeps_sub: "keeps L p q \<Longrightarrow> (\<And>b n. L' b = Some n \<Longrightarrow> L b = Some n) \<Longrightarrow> keeps L' p q"
  unfolding keeps_def by blast

lemma keeps_del: "keeps L p q \<Longrightarrow> keeps (L(b := None)) p q"
  by (erule keeps_sub) (auto split: if_splits)

lemma bump_written:
  assumes ok: "bump_ok (L(q \<mapsto> n)) p" and q: "L q = None" and w: "write_bytes q vs p = Some p'" and l: "length vs = n"
  shows "bump_ok (L(q \<mapsto> n)) p'" "keeps L p p'" "i < n \<Longrightarrow> read8 p' (q + of_nat i) = Some (vs ! i)"
proof -
  have n: "n < 2 ^ 64" by (rule bump_block_size [OF ok, of q]) simp
  then have le: "length vs \<le> 2 ^ 64" using l by simp
  show "bump_ok (L(q \<mapsto> n)) p'" by (rule bump_ok_writes [OF ok w le])
  obtain k m where h: "bump_heap p k m" "placed (L(q \<mapsto> n)) m" using ok by (auto simp: bump_ok_def)
  have pk: "proc_ok p" using h(1) by (simp add: proc_ok_def bump_heap_def)
  have rd: "read8 p' b = (if unat (b - q) < n then Some (vs ! unat (b - q)) else read8 p b)" for b
    using write_bytes_laws [OF pk w le, of b] l by simp
  have "keeps ((L(q \<mapsto> n))(q := None)) p p'"
    by (rule fill_keeps [OF placed_apart [OF h(2)] _ order.refl _ rd]) (use bump_block_size [OF ok] in auto)
  moreover have "(L(q \<mapsto> n))(q := None) = L" using q by auto
  ultimately show "keeps L p p'" by simp
  assume i: "i < n"
  then have "unat (q + of_nat i - q) = i" using n by (simp add: unat_of_nat)
  then show "read8 p' (q + of_nat i) = Some (vs ! i)" using rd [of "q + of_nat i"] i by simp
qed

lemma op_memory_Inr: "op_memory f p = (Inr u, p') \<longleftrightarrow> f p = Some p'"
  by (auto simp: op_memory_def split: option.splits)

lemma bump_calloc_fresh:
  assumes ok: "bump_ok L p" and sz: "unat (nmemb * sz) \<le> 2 ^ 64 - 16" and r: "bump_calloc os nmemb sz p = (Inr q, p')"
  shows "fresh_block bump_ok L p (nmemb * sz) q p'"
    "q \<noteq> 0 \<Longrightarrow> i < unat (nmemb * sz) \<Longrightarrow> read8 p' (q + of_nat i) = Some 0"
proof -
  obtain q1 p1 where m: "bump_malloc os (nmemb * sz) 0 p = (Inr q1, p1)"
    using r by (auto simp: bump_calloc_def split: prod.splits sum.splits)
  note f = bump_malloc_fresh [OF ok sz m]
  have "fresh_block bump_ok L p (nmemb * sz) q p'
    \<and> (q \<noteq> 0 \<longrightarrow> i < unat (nmemb * sz) \<longrightarrow> read8 p' (q + of_nat i) = Some 0)"
  proof (cases "q1 = 0")
    case True
    then show ?thesis using r m f by (auto simp: bump_calloc_def op_return_def)
  next
    case False
    let ?n = "unat (nmemb * sz)"
    have s: "write_bytes q (replicate ?n 0) p1 = Some p'" "q = q1"
      using r m False by (auto simp: bump_calloc_def op_return_def op_memory_def memset_def split: option.splits)
    have "nmemb * sz \<noteq> 0" using f(1) False by (auto simp: fresh_block_def)
    then have b: "L q = None" "bump_ok (L(q \<mapsto> ?n)) p1" "keeps L p p1" "nmemb * sz \<noteq> 0"
      using f(1) False s(2) by (simp_all add: fresh_block_def)
    have l: "length (replicate ?n (0 :: u8)) = ?n" by simp
    note w = bump_written [OF b(2,1) s(1) l]
    show ?thesis using w b keeps_trans [OF b(3) w(2)] by (auto simp: fresh_block_def)
  qed
  then show "fresh_block bump_ok L p (nmemb * sz) q p'"
    "q \<noteq> 0 \<Longrightarrow> i < unat (nmemb * sz) \<Longrightarrow> read8 p' (q + of_nat i) = Some 0" by blast+
qed

lemma bump_realloc_null:
  "bump_realloc os 0 sz p = bump_malloc os sz 0 p"
  by (auto simp: bump_realloc_def op_return_def split: prod.splits sum.splits)

lemma bump_realloc_fresh:
  assumes ok: "bump_ok L p" and b: "L b = Some n" and sz: "sz \<noteq> 0" "unat sz \<le> 2 ^ 64 - 16"
    and r: "bump_realloc os b sz p = (Inr q, p')"
  shows "fresh_block bump_ok (L(b := None)) p sz q p'" "unat q mod 16 = 0"
    "q \<noteq> 0 \<Longrightarrow> i < n \<Longrightarrow> i < unat sz \<Longrightarrow> read8 p' (q + of_nat i) = read8 p (b + of_nat i)"
proof -
  obtain q1 p1 where m: "bump_malloc os sz 0 p = (Inr q1, p1)"
    using r by (auto simp: bump_realloc_def split: prod.splits sum.splits)
  note f = bump_malloc_fresh [OF ok sz(2) m]
  have q1: "q = q1" using r m by (auto simp: bump_realloc_def op_return_def op_memory_def split: if_splits option.splits)
  have b0: "b \<noteq> 0"
  proof -
    obtain k m where h: "bump_heap p k m" "placed L m" using ok by (auto simp: bump_ok_def)
    have "arena_start m \<noteq> 0" using h(1) by (simp add: bump_heap_def Heap_ok_def)
    then have "0 < unat (arena_start m)" by (simp add: unat_gt_0)
    moreover have "unat (arena_start m) \<le> unat b" using h(2) b unfolding placed_def by blast
    ultimately show ?thesis by auto
  qed
  have "fresh_block bump_ok (L(b := None)) p sz q p' \<and> unat q mod 16 = 0
    \<and> (q \<noteq> 0 \<longrightarrow> i < n \<longrightarrow> i < unat sz \<longrightarrow> read8 p' (q + of_nat i) = read8 p (b + of_nat i))"
  proof (cases "q1 = 0")
    case True
    then have "p' = p1" using r m by (auto simp: bump_realloc_def op_return_def)
    moreover have "keeps L p p1" using f(1) by (simp add: fresh_block_def)
    then have "keeps (L(b := None)) p p1" by (rule keeps_del)
    ultimately show ?thesis using True q1 f(2) sz(1) by (simp add: fresh_block_def)
  next
    case False
    let ?n = "unat sz"
    obtain vs where vs: "read_bytes b ?n p1 = Some vs" "write_bytes q vs p1 = Some p'"
      using r m False q1 b0
      by (auto simp: bump_realloc_def op_return_def op_memory_def memcpy_def split: option.splits if_splits Option.bind_splits)
    have a: "L q = None" "bump_ok (L(q \<mapsto> ?n)) p1" "keeps L p p1" using f(1) False sz(1) q1 by (auto simp: fresh_block_def)
    have qb: "q \<noteq> b" using a(1) b by auto
    have l: "length vs = ?n" "i < ?n \<Longrightarrow> read8 p1 (b + of_nat i) = Some (vs ! i)"
      using vs(1) unfolding read_bytes_eq by (auto split: if_splits)
    have ok1: "bump_ok ((L(b := None))(q \<mapsto> ?n)) p1" by (rule bump_ok_sub [OF a(2)]) (use qb in \<open>auto split: if_splits\<close>)
    have n1: "(L(b := None)) q = None" using a(1) by simp
    note w = bump_written [OF ok1 n1 vs(2) l(1)]
    have "keeps (L(b := None)) p p1" by (rule keeps_sub [OF a(3)]) (auto split: if_splits)
    then have kp: "keeps (L(b := None)) p p'" using w(2) keeps_trans by blast
    have c: "read8 p' (q + of_nat i) = read8 p (b + of_nat i)" if "i < n" "i < ?n"
      using w(3) [OF that(2)] l(2) [OF that(2)] a(3) b that(1) by (simp add: keeps_def)
    have "fresh_block bump_ok (L(b := None)) p sz q p'"
      unfolding fresh_block_def if_not_P [OF sz(1)] using kp n1 w(1) by blast
    then show ?thesis using c f(2) unfolding q1 by blast
  qed
  then show "fresh_block bump_ok (L(b := None)) p sz q p'" "unat q mod 16 = 0"
    "q \<noteq> 0 \<Longrightarrow> i < n \<Longrightarrow> i < unat sz \<Longrightarrow> read8 p' (q + of_nat i) = read8 p (b + of_nat i)" by blast+
qed

subsection \<open>The interpretation\<close>

definition bump_supports :: "u64 \<Rightarrow> bool" where
  "bump_supports al \<longleftrightarrow> al \<in> {0, 1, 2, 4, 8, 16}"

definition bump_bounded :: "u64 \<Rightarrow> bool" where
  "bump_bounded sz \<longleftrightarrow> unat sz \<le> 2 ^ 64 - 16"

lemma aligned_16:
  assumes "unat q mod 16 = 0"
  shows "q mod 8 = 0" "q mod 16 = 0" "q mod least_align sz = 0" "bump_supports al \<Longrightarrow> q mod max al (least_align sz) = 0"
proof -
  have "unat q mod 8 = 0" using assms by presburger
  then show a: "q mod 8 = 0" "q mod 16 = 0" using assms by (simp_all add: word_unat_eq_iff unat_mod)
  then show "q mod least_align sz = 0" by (simp add: least_align_def)
  assume "bump_supports al"
  then have "max al (least_align sz) = 8 \<or> max al (least_align sz) = 16"
    by (auto simp: bump_supports_def least_align_def max_def)
  then show "q mod max al (least_align sz) = 0" using a by metis
qed

lemma bump_in_heaps:
  assumes h: "bump_heap p k m" "placed L m" and b: "L b = Some n"
  shows "in_heaps b (of_nat n) p"
proof -
  have l: "0 < n" "unat (arena_start m) \<le> unat b" "unat b + n \<le> unat (arena_end m)"
    using h(2) b unfolding placed_def by blast+
  have "unat (b + of_nat n) = unat b + n" using l(3) end64 [of m] by (simp add: unat_word_ariths unat_of_nat)
  then show ?thesis
    using l h(1) by (simp add: in_heaps_def WithInstances_def instances_def bump_heap_def word_le_nat_alt)
qed

lemma bump_ok_block:
  assumes ok: "bump_ok L p" and b: "L b = Some n"
  shows "b \<noteq> 0 \<and> n < 2 ^ 64 \<and> readable p b n \<and> in_heaps b (of_nat n) p"
proof -
  obtain k m where h: "bump_heap p k m" "placed L m" using ok by (auto simp: bump_ok_def)
  have "arena_start m \<noteq> 0" using h(1) by (simp add: bump_heap_def Heap_ok_def)
  then have "0 < unat (arena_start m)" by (simp add: unat_gt_0)
  moreover have "unat (arena_start m) \<le> unat b" using h(2) b unfolding placed_def by blast
  ultimately have "b \<noteq> 0" by auto
  moreover have "readable p b n" unfolding readable_def
    using heap_read(2) [OF h(1)] placed_addr [OF h(2) b _ end64] by blast
  ultimately show ?thesis using bump_block_size [OF ok b] bump_in_heaps [OF h b] by blast
qed

text \<open>On the process of \<open>bump_ok\<close> nothing fails, except a \<^verbatim>\<open>memcpy\<close> of overlapping regions.\<close>

lemma bump_malloc_ok:
  assumes ok: "bump_ok L p"
  shows "bump_malloc os sz al p \<noteq> (Inl e, p')"
proof -
  obtain k m where "bump_heap p k m" using ok by (auto simp: bump_ok_def)
  then have "g_heap p = k" "k \<noteq> 0" "heap_objects p = [(k, m)]" by (simp_all add: bump_heap_def)
  then show ?thesis by (auto simp: bump_malloc_def heap_sbrk_def Let_def split: prod.splits)
qed

lemma bump_calloc_ok:
  assumes ok: "bump_ok L p" and sz: "unat (nmemb * sz) \<le> 2 ^ 64 - 16"
  shows "bump_calloc os nmemb sz p \<noteq> (Inl e, p')"
proof -
  obtain x p1 where x: "bump_malloc os (nmemb * sz) 0 p = (x, p1)" by (metis surj_pair)
  then obtain q where m: "bump_malloc os (nmemb * sz) 0 p = (Inr q, p1)" using bump_malloc_ok [OF ok] by (cases x) auto
  show ?thesis
  proof (cases "q = 0")
    case True
    then show ?thesis using m by (simp add: bump_calloc_def op_return_def)
  next
    case False
    then have o: "bump_ok (L(q \<mapsto> unat (nmemb * sz))) p1"
      using bump_malloc_fresh(1) [OF ok sz m] by (auto simp: fresh_block_def split: if_splits)
    then have pk: "proc_ok p1" by (auto simp: bump_ok_def proc_ok_def bump_heap_def)
    have "readable p1 q (unat (nmemb * sz))" using bump_ok_block [OF o, of q] by simp
    then have "read8 p1 (q + of_nat i) \<noteq> None" if "i < length (replicate (unat (nmemb * sz)) 0)" for i
      using that by (simp add: readable_def)
    from write_bytes_Some [OF pk this] obtain p2 where "memset q 0 (nmemb * sz) p1 = Some p2"
      unfolding memset_def by blast
    then show ?thesis using m False by (simp add: bump_calloc_def op_return_def op_memory_def)
  qed
qed

lemma bump_realloc_errors:
  assumes ok: "bump_ok L p" and r: "bump_realloc os b sz p = (Inl e, p')"
  shows "e = crash"
proof (cases "bump_malloc os sz 0 p")
  case (Pair x p1)
  then show ?thesis using r bump_malloc_ok [OF ok]
    by (cases x) (auto simp: bump_realloc_def op_return_def op_memory_def split: if_splits option.splits)
qed

interpretation bump: bench_contract "bump os" bump_ok bump_supports bump_bounded
proof
  fix L p
  assume ok: "bump_ok L p"
  then obtain k m where h: "bump_heap p k m" "placed L m" by (auto simp: bump_ok_def)
  show "proc_ok p" using h(1) by (simp add: proc_ok_def bump_heap_def)
  show "apart_blocks L" by (rule placed_apart [OF h(2)])
  show "b \<noteq> 0 \<and> n < 2 ^ 64 \<and> readable p b n \<and> in_heaps b (of_nat n) p" if "L b = Some n" for b n
    by (rule bump_ok_block [OF ok that])
  show "bump_ok L p'" if "L b = Some n" "length vs \<le> n" "write_bytes b vs p = Some p'" for b n vs p'
    using bump_ok_writes [OF ok that(3)] bump_block_size [OF ok that(1)] that(2) by simp
  show "fresh_block bump_ok L p sz q p'" "bump_supports al \<Longrightarrow> q mod max al (least_align sz) = 0"
    if "bump_bounded sz" "bench_malloc (bump os) sz al p = (Inr q, p')" for sz al q p'
    using bump_malloc_fresh [OF ok] aligned_16(4) that by (simp_all add: bump_def bump_bounded_def)
  show "fresh_block bump_ok L p (nmemb * sz) q p'"
    "q \<noteq> 0 \<Longrightarrow> i < unat (nmemb * sz) \<Longrightarrow> read8 p' (q + of_nat i) = Some 0"
    if "bump_bounded (nmemb * sz)" "bench_calloc (bump os) nmemb sz p = (Inr q, p')" for nmemb sz q p' i
    using bump_calloc_fresh [OF ok] that by (simp_all add: bump_def bump_bounded_def)
  show "fresh_block bump_ok L p sz q p'"
    if "bump_bounded sz" "bench_realloc (bump os) 0 sz p = (Inr q, p')" for sz q p'
    using bump_malloc_fresh(1) [OF ok] that by (simp add: bump_def bump_bounded_def bump_realloc_null)
  show "fresh_block bump_ok (L(b := None)) p sz q p'" "q mod least_align sz = 0"
    "q \<noteq> 0 \<Longrightarrow> i < n \<Longrightarrow> i < unat sz \<Longrightarrow> read8 p' (q + of_nat i) = read8 p (b + of_nat i)"
    if "L b = Some n" "sz \<noteq> 0" "bump_bounded sz" "bench_realloc (bump os) b sz p = (Inr q, p')" for b n sz q p' i
    using bump_realloc_fresh [OF ok that(1,2)] aligned_16(3) that(3,4) by (simp_all add: bump_def bump_bounded_def)
  show "bump_ok (L(b := None)) p' \<and> keeps (L(b := None)) p p'"
    if "L b = Some n" "bench_free (bump os) b sh ah p = (Inr u, p')" for b n sh ah u p'
    using that(2) bump_ok_del [OF ok] keeps_refl by (simp add: bump_def bump_free_def op_return_def)
  show "bump_ok L p' \<and> keeps L p p'" if "bench_free (bump os) 0 sh ah p = (Inr u, p')" for sh ah u p'
    using that ok by (auto simp: bump_def bump_free_def op_return_def)
  show "bench_malloc (bump os) sz al p \<noteq> (Inl e, p')" for sz al e p'
    using bump_malloc_ok [OF ok] by (simp add: bump_def)
  show "bench_calloc (bump os) nmemb sz p \<noteq> (Inl e, p')" if "bump_bounded (nmemb * sz)" for nmemb sz e p'
    using bump_calloc_ok [OF ok] that by (simp add: bump_def bump_bounded_def)
  show "bench_realloc (bump os) 0 sz p \<noteq> (Inl e, p')" for sz e p'
    using bump_malloc_ok [OF ok] by (simp add: bump_def bump_realloc_null)
  show "e = crash" if "bench_realloc (bump os) b sz p = (Inl e, p')" for b sz e p'
    using bump_realloc_errors [OF ok] that by (simp add: bump_def)
  show "bench_free (bump os) b sh ah p \<noteq> (Inl e, p')" for b sh ah e p'
    by (simp add: bump_def bump_free_def op_return_def)
qed

end
