(* ===== verification/Batches.thy ===== *)
theory Batches
  imports Executor
begin

section \<open>One thread executes a trace in order\<close>

text \<open>
  The batches of \<^verbatim>\<open>LocalIdMap\<close> are the trace with its ids renamed to array indices, so
  that \<^verbatim>\<open>TracefileExecutor\<close> with one thread makes the calls that the trace lists, in
  order, with the pointers its own earlier calls returned.
\<close>

subsection \<open>Lines with globally unique ids\<close>

definition relabel :: "(u64 \<Rightarrow> u64) \<Rightarrow> trace_line \<Rightarrow> trace_line" where
  "relabel f l = (let l' = (case input_id l of None \<Rightarrow> l | Some i \<Rightarrow> SetInputId l (f i)) in
     case result_id l of None \<Rightarrow> l' | Some r \<Rightarrow> SetResultId l' (f r))"

lemma relabel_ids [simp]:
  "input_id (relabel f l) = map_option f (input_id l)" "result_id (relabel f l) = map_option f (result_id l)"
  "strip_ids (relabel f l) = strip_ids l" "relabel f l = OP_NOT_SET \<longleftrightarrow> l = OP_NOT_SET"
  by (cases l; auto simp: relabel_def Let_def split: option.split)+

definition uid_line :: "trace_line list \<Rightarrow> queued_op \<Rightarrow> trace_line" where
  "uid_line tf op = relabel (\<lambda>i. UniqueId i (snd op) tf) (fst op)"

lemma uid_line_ids [simp]:
  "input_id (uid_line tf op) = map_option (\<lambda>i. UniqueId i (snd op) tf) (input_id (fst op))"
  "result_id (uid_line tf op) = map_option (\<lambda>i. UniqueId i (snd op) tf) (result_id (fst op))"
  "strip_ids (uid_line tf op) = strip_ids (fst op)" "uid_line tf op = OP_NOT_SET \<longleftrightarrow> fst op = OP_NOT_SET"
  by (simp_all add: uid_line_def)

subsection \<open>Preparing a batch\<close>

text \<open>
  \<open>k\<close> bounds the indices in use, \<open>L\<close> is the set of live unique ids: those in the batch's
  own map and those in the global one.
\<close>

definition batch_inv :: "nat \<Rightarrow> u64 set \<Rightarrow> batch_state \<Rightarrow> bool" where
  "batch_inv k L st \<longleftrightarrow> (case st of (ctx, g, store) \<Rightarrow>
     distinct (map fst (ctx_id_to_idx ctx)) \<and> distinct (map snd (ctx_id_to_idx ctx))
   \<and> unat (gen_next_id g) \<le> k \<and> (\<forall>p\<in>set (ctx_id_to_idx ctx). snd p < gen_next_id g)
   \<and> (\<forall>i\<in>set (gen_available_ids g). i < gen_next_id g) \<and> distinct (gen_available_ids g)
   \<and> set (gen_available_ids g) \<inter> snd ` set (ctx_id_to_idx ctx) = {}
   \<and> L = fst ` set (ctx_id_to_idx ctx) \<union> dom (map_of (store_id_map store))
   \<and> fst ` set (ctx_id_to_idx ctx) \<inter> dom (map_of (store_id_map store)) = {}
   \<and> (\<forall>u v. map_of (store_id_map store) u = Some v \<longrightarrow> (\<exists>p. v = allocated_ptr p))
   \<and> length (ctx_id_map ctx) = kBatchSize)"

abbreviation lookup :: "id_store \<Rightarrow> u64 \<Rightarrow> map_val option" where
  "lookup store \<equiv> map_of (store_id_map store)"

text \<open>Pairs that a later operation of the batch may bring in from the global map.\<close>

definition foreign :: "id_store \<Rightarrow> u64 \<Rightarrow> (u64 \<times> u64) set \<Rightarrow> bool" where
  "foreign store n F \<longleftrightarrow> (\<forall>p\<in>F. fst p \<in> dom (lookup store) \<and> n \<le> snd p)"

lemma word_suc: "unat (n :: u64) \<le> k \<Longrightarrow> k < 2 ^ 63 \<Longrightarrow> unat (n + 1) = unat n + 1 \<and> n < n + 1"
  by (simp add: unat_word_ariths word_less_nat_alt)

text \<open>What the first half of an iteration achieves; \<open>D\<close> is the pair it brings in.\<close>

definition input_ok ::
  "nat \<Rightarrow> u64 set \<Rightarrow> u64 option \<Rightarrow> trace_line \<Rightarrow> batch_state \<Rightarrow> trace_line \<Rightarrow> batch_state \<Rightarrow> (u64 \<times> u64) set \<Rightarrow> bool" where
  "input_ok k L u line st l st1 D \<longleftrightarrow> (case (st, st1) of ((ctx, g, store), (ctx1, g1, store1)) \<Rightarrow>
     batch_inv (Suc k) (L - set_option u) st1
   \<and> ctx_ops ctx1 = ctx_ops ctx \<and> l = (case input_id l of None \<Rightarrow> line | Some j \<Rightarrow> SetInputId line j)
   \<and> rel_option (\<lambda>u j. (u, j) \<in> set (ctx_id_to_idx ctx) \<union> D) u (input_id l)
   \<and> (\<forall>F. foreign store1 (gen_next_id g1) F \<longrightarrow>
        retire u (input_id l) (set (ctx_id_to_idx ctx) \<union> D \<union> F) = set (ctx_id_to_idx ctx1) \<union> F)
   \<and> foreign store (gen_next_id g) D \<and> in_array D kBatchSize
   \<and> (\<forall>p\<in>D. lookup store (fst p) = Some (allocated_ptr (ctx_id_map ctx1 ! unat (snd p))) \<and> snd p < gen_next_id g1)
   \<and> (\<forall>i<gen_next_id g. ctx_id_map ctx1 ! unat i = ctx_id_map ctx ! unat i)
   \<and> lookup store1 = lookup store |` (- fst ` D)
   \<and> gen_next_id g \<le> gen_next_id g1 \<and> store_queued_ops store1 = store_queued_ops store
   \<and> (unat (gen_next_id g1) \<le> k \<or> gen_available_ids g1 \<noteq> []))"

lemma batch_input_none:
  assumes inv: "batch_inv k L (ctx, g, store)" and u: "input_id (fst op) = None"
  shows "batch_input tf op (ctx, g, store) = Some (Inr (fst op, (ctx, g, store)))
    \<and> input_ok k L None (fst op) (ctx, g, store) (fst op) (ctx, g, store) {}"
  using assms by (cases op) (auto simp: batch_input_def input_ok_def batch_inv_def retire_def foreign_def in_array_def)

lemma batch_input_local:
  assumes inv: "batch_inv k L (ctx, g, store)" and i: "input_id (fst op) = Some i"
    and u: "map_of (ctx_id_to_idx ctx) (UniqueId i (snd op) tf) = Some j"
  shows "batch_input tf op (ctx, g, store) = Some (Inr (SetInputId (fst op) j,
      (ctx\<lparr>ctx_id_to_idx := AList.delete (UniqueId i (snd op) tf) (ctx_id_to_idx ctx)\<rparr>, FreeId j g, store)))"
    and "input_ok k L (Some (UniqueId i (snd op) tf)) (fst op) (ctx, g, store) (SetInputId (fst op) j)
      (ctx\<lparr>ctx_id_to_idx := AList.delete (UniqueId i (snd op) tf) (ctx_id_to_idx ctx)\<rparr>, FreeId j g, store) {}"
proof -
  let ?u = "UniqueId i (snd op) tf" and ?m = "ctx_id_to_idx ctx"
  show "batch_input tf op (ctx, g, store) = Some (Inr (SetInputId (fst op) j,
      (ctx\<lparr>ctx_id_to_idx := AList.delete ?u ?m\<rparr>, FreeId j g, store)))"
    using i u by (cases op) (simp add: batch_input_def Let_def)
  have uj: "(?u, j) \<in> set ?m" by (rule map_of_SomeD [OF u])
  have d: "distinct (map fst ?m)" "distinct (map snd ?m)" using inv by (simp_all add: batch_inv_def)
  note del = delete_filter [of ?u ?m]
  have q: "fst p = ?u \<longleftrightarrow> snd p = j" if "p \<in> set ?m" for p
    using d uj that unfolding distinct_map by (metis fst_conv snd_conv inj_onD)
  have q': "a = ?u" if "(a, j) \<in> set ?m" for a using q [OF that] by simp
  have m1: "set (AList.delete ?u ?m) = {p \<in> set ?m. fst p \<noteq> ?u \<and> snd p \<noteq> j}" using q by (auto simp: del)
  have ids: "input_id (SetInputId (fst op) j) = Some j" using i by simp
  have uL: "?u \<notin> dom (lookup store)" and jn: "j < gen_next_id g"
    using inv uj by (fastforce simp: batch_inv_def)+
  have "batch_inv (Suc k) (L - {?u}) (ctx\<lparr>ctx_id_to_idx := AList.delete ?u ?m\<rparr>, FreeId j g, store)"
    using inv uL jn d
    by (auto simp: batch_inv_def FreeId_def set_insort_insert distinct_insort_insert m1 del distinct_map_filter image_iff dest: q')
  moreover have "retire (Some ?u) (Some j) (set ?m \<union> F) = set (AList.delete ?u ?m) \<union> F"
    if "foreign store (gen_next_id g) F" for F
  proof -
    have "fst p \<noteq> ?u \<and> snd p \<noteq> j" if "p \<in> F" for p
      using \<open>foreign store (gen_next_id g) F\<close> that uL jn by (fastforce simp: foreign_def)
    then show ?thesis by (auto simp: retire_def m1)
  qed
  ultimately show "input_ok k L (Some ?u) (fst op) (ctx, g, store) (SetInputId (fst op) j)
      (ctx\<lparr>ctx_id_to_idx := AList.delete ?u ?m\<rparr>, FreeId j g, store) {}"
    using ids uj inv
    by (auto simp: input_ok_def FreeId_def foreign_def in_array_def insort_insert_key_def)
qed


lemma batch_input_foreign:
  assumes inv: "batch_inv k L (ctx, g, store)" and k: "k < kBatchSize" and i: "input_id (fst op) = Some i"
    and u: "map_of (ctx_id_to_idx ctx) (UniqueId i (snd op) tf) = None" and live: "UniqueId i (snd op) tf \<in> L"
  obtains p where "lookup store (UniqueId i (snd op) tf) = Some (allocated_ptr p)"
    and "batch_input tf op (ctx, g, store) = Some (Inr (SetInputId (fst op) (gen_next_id g),
      (ctx\<lparr>ctx_id_map := (ctx_id_map ctx)[unat (gen_next_id g) := p]\<rparr>, FreeId (gen_next_id g) (snd (NextUnusedId g)),
       store\<lparr>store_id_map := AList.delete (UniqueId i (snd op) tf) (store_id_map store)\<rparr>)))"
    and "input_ok k L (Some (UniqueId i (snd op) tf)) (fst op) (ctx, g, store) (SetInputId (fst op) (gen_next_id g))
      (ctx\<lparr>ctx_id_map := (ctx_id_map ctx)[unat (gen_next_id g) := p]\<rparr>, FreeId (gen_next_id g) (snd (NextUnusedId g)),
       store\<lparr>store_id_map := AList.delete (UniqueId i (snd op) tf) (store_id_map store)\<rparr>)
      {(UniqueId i (snd op) tf, gen_next_id g)}"
proof -
  let ?u = "UniqueId i (snd op) tf" and ?m = "ctx_id_to_idx ctx" and ?n = "gen_next_id g"
  have um: "?u \<notin> fst ` set ?m" using u by (simp add: map_of_eq_None_iff)
  obtain p where p: "lookup store ?u = Some (allocated_ptr p)"
    using inv live um by (fastforce simp: batch_inv_def)
  have n: "unat ?n \<le> k" "unat ?n < length (ctx_id_map ctx)" "unat ?n < kBatchSize"
    using inv k by (auto simp: batch_inv_def)
  have n1: "unat (?n + 1) = unat ?n + 1" "?n < ?n + 1"
    using word_suc [OF n(1)] k by (auto simp: kBatchSize_def)
  have lt: "j < ?n + 1" if "j < ?n" for j using that n1(2) by (rule less_trans)
  let ?ctx = "ctx\<lparr>ctx_id_map := (ctx_id_map ctx)[unat ?n := p]\<rparr>" and ?g = "FreeId ?n (snd (NextUnusedId g))"
    and ?store = "store\<lparr>store_id_map := AList.delete ?u (store_id_map store)\<rparr>"
  have e: "batch_input tf op (ctx, g, store) = Some (Inr (SetInputId (fst op) ?n, (?ctx, ?g, ?store)))"
    using i u p n(2)
    by (cases op) (simp add: batch_input_def Let_def LookupAllocation_def AddFree_def array_set_def NextUnusedId_def)
  have ids: "input_id (SetInputId (fst op) ?n) = Some ?n" using i by simp
  have st: "map_of (AList.delete ?u (store_id_map store)) = (lookup store)(?u := None)" by (rule AList.delete_conv')
  have mn: "(a, ?n) \<notin> set ?m" for a using inv by (fastforce simp: batch_inv_def)
  have an: "?n \<notin> set (gen_available_ids g)" using inv by (fastforce simp: batch_inv_def)
  have "batch_inv (Suc k) (L - {?u}) (?ctx, ?g, ?store)"
    using inv um n n1 mn an
    by (auto simp: batch_inv_def FreeId_def NextUnusedId_def set_insort_insert distinct_insort_insert st image_iff
        intro: lt split: if_splits)
  moreover have "retire (Some ?u) (Some ?n) (set ?m \<union> {(?u, ?n)} \<union> F) = set ?m \<union> F"
    if F: "foreign ?store (gen_next_id ?g) F" for F
  proof -
    have "fst q \<noteq> ?u \<and> snd q \<noteq> ?n" if "q \<in> F" for q
    proof -
      have "fst q \<in> dom (lookup ?store)" "?n + 1 \<le> snd q"
        using F that by (auto simp: foreign_def FreeId_def NextUnusedId_def)
      then show ?thesis using n1(2) by (auto simp: st)
    qed
    moreover have "fst q \<noteq> ?u \<and> snd q \<noteq> ?n" if "q \<in> set ?m" for q
      using um mn [of "fst q"] that by (metis image_eqI prod.collapse)
    ultimately show ?thesis by (auto simp: retire_def)
  qed
  moreover have "\<forall>j<?n. ctx_id_map ?ctx ! unat j = ctx_id_map ctx ! unat j"
    by (auto simp: word_less_nat_alt)
  moreover have "foreign store ?n {(?u, ?n)}" using p by (auto simp: foreign_def)
  moreover have "in_array {(?u, ?n)} kBatchSize" using n(3) by (simp add: in_array_def)
  moreover have "ctx_id_map ?ctx ! unat ?n = p" using n(2) by simp
  moreover have "lookup ?store = lookup store |` (- {?u})" by (auto simp: st restrict_map_def)
  moreover have "gen_next_id ?g = ?n + 1" "gen_available_ids ?g \<noteq> []"
    by (simp_all add: FreeId_def NextUnusedId_def insort_insert_key_def) (metis empty_iff empty_set insert_not_empty set_insort_key)+
  ultimately have "input_ok k L (Some ?u) (fst op) (ctx, g, store) (SetInputId (fst op) ?n) (?ctx, ?g, ?store) {(?u, ?n)}"
    using ids p n1(2) unfolding input_ok_def by (simp add: less_imp_le)
  with p e show thesis by (rule that)
qed

lemma batch_input_step:
  assumes inv: "batch_inv k L (ctx, g, store)" and k: "k < kBatchSize"
    and live: "set_option (input_id (uid_line tf op)) \<subseteq> L"
  obtains l st1 D where "batch_input tf op (ctx, g, store) = Some (Inr (l, st1))"
    and "input_ok k L (input_id (uid_line tf op)) (fst op) (ctx, g, store) l st1 D"
proof (cases "input_id (fst op)")
  case None
  then show thesis using that [of "fst op" "(ctx, g, store)" "{}"] batch_input_none [OF inv None] by simp
next
  case (Some i)
  show thesis
  proof (cases "map_of (ctx_id_to_idx ctx) (UniqueId i (snd op) tf)")
    case None
    have "UniqueId i (snd op) tf \<in> L" using live Some by simp
    from inv k Some None this obtain p where b:
      "batch_input tf op (ctx, g, store) = Some (Inr (SetInputId (fst op) (gen_next_id g),
        (ctx\<lparr>ctx_id_map := (ctx_id_map ctx)[unat (gen_next_id g) := p]\<rparr>, FreeId (gen_next_id g) (snd (NextUnusedId g)),
         store\<lparr>store_id_map := AList.delete (UniqueId i (snd op) tf) (store_id_map store)\<rparr>)))"
      "input_ok k L (Some (UniqueId i (snd op) tf)) (fst op) (ctx, g, store) (SetInputId (fst op) (gen_next_id g))
        (ctx\<lparr>ctx_id_map := (ctx_id_map ctx)[unat (gen_next_id g) := p]\<rparr>, FreeId (gen_next_id g) (snd (NextUnusedId g)),
         store\<lparr>store_id_map := AList.delete (UniqueId i (snd op) tf) (store_id_map store)\<rparr>)
        {(UniqueId i (snd op) tf, gen_next_id g)}"
      by (rule batch_input_foreign)
    from b(1) show thesis by (rule that) (use b(2) Some in simp)
  next
    case (Some j)
    note b = batch_input_local [OF inv \<open>input_id (fst op) = Some i\<close> Some]
    from b(1) show thesis by (rule that) (use b(2) \<open>input_id (fst op) = Some i\<close> in simp)
  qed
qed

lemma NextId_cases:
  assumes "unat (gen_next_id g) \<le> k \<or> gen_available_ids g \<noteq> []"
  obtains i js where "gen_available_ids g = i # js" "NextId g = (i, g\<lparr>gen_available_ids := js\<rparr>)"
    | "gen_available_ids g = []" "unat (gen_next_id g) \<le> k" "NextId g = (gen_next_id g, g\<lparr>gen_next_id := gen_next_id g + 1\<rparr>)"
  using assms by (cases "gen_available_ids g") (auto simp: NextId_def NextUnusedId_def)

lemma NextId_inv:
  assumes inv: "batch_inv (Suc k) L (ctx, g, store)" and a: "unat (gen_next_id g) \<le> k \<or> gen_available_ids g \<noteq> []"
    and k: "k < kBatchSize" and r: "r \<notin> L"
  obtains j g' where "NextId g = (j, g')" and "unat j < kBatchSize" and "gen_next_id g \<le> gen_next_id g'" and "j < gen_next_id g'"
    and "map_of (ctx_id_to_idx ctx) r = None" and "\<And>a. (a, j) \<notin> set (ctx_id_to_idx ctx)"
    and "\<And>x. batch_inv (Suc k) (insert r L) (ctx\<lparr>ctx_id_to_idx := (r, j) # ctx_id_to_idx ctx, ctx_ops := x\<rparr>, g', store)"
proof -
  let ?m = "ctx_id_to_idx ctx" and ?n = "gen_next_id g"
  have rm: "r \<notin> fst ` set ?m" "r \<notin> dom (lookup store)" using inv r by (auto simp: batch_inv_def)
  have n: "unat ?n \<le> Suc k" using inv by (simp add: batch_inv_def)
  from a show thesis
  proof (cases rule: NextId_cases)
    case (1 i js)
    have i: "i < ?n" "i \<notin> snd ` set ?m" using inv 1(1) by (auto simp: batch_inv_def)
    have "unat i < unat ?n" using i(1) by (simp add: word_less_nat_alt)
    then have b: "unat i < kBatchSize" using n k by simp
    have "batch_inv (Suc k) (insert r L) (ctx\<lparr>ctx_id_to_idx := (r, i) # ?m, ctx_ops := x\<rparr>, g\<lparr>gen_available_ids := js\<rparr>, store)" for x
      using inv 1(1) i rm by (auto simp: batch_inv_def)
    then show thesis using that [OF 1(2) b] i rm by (force simp: map_of_eq_None_iff)
  next
    case 2
    have n1: "unat (?n + 1) = unat ?n + 1" "?n < ?n + 1"
      using word_suc [OF 2(2)] k by (auto simp: kBatchSize_def)
    have lt: "j < ?n + 1" if "j < ?n" for j using that n1(2) by (rule less_trans)
    have b: "unat ?n < kBatchSize" using 2(2) k by simp
    have i: "?n \<notin> snd ` set ?m" using inv by (fastforce simp: batch_inv_def)
    have "batch_inv (Suc k) (insert r L)
        (ctx\<lparr>ctx_id_to_idx := (r, ?n) # ?m, ctx_ops := x\<rparr>, g\<lparr>gen_next_id := ?n + 1\<rparr>, store)" for x
      using inv 2 i rm n1 by (auto simp: batch_inv_def intro: lt)
    then show thesis using that [OF 2(3) b] i rm n1(2) by (force simp: map_of_eq_None_iff less_imp_le)
  qed
qed

text \<open>One whole iteration.\<close>

definition step_ok ::
  "nat \<Rightarrow> u64 set \<Rightarrow> trace_line \<Rightarrow> batch_state \<Rightarrow> trace_line \<Rightarrow> batch_state \<Rightarrow> (u64 \<times> u64) set \<Rightarrow> bool" where
  "step_ok k L l st l' st1 D \<longleftrightarrow> (case (st, st1) of ((ctx, g, store), (ctx1, g1, store1)) \<Rightarrow>
     batch_inv (Suc k) L st1 \<and> ctx_ops ctx1 = ctx_ops ctx @ [l']
   \<and> corresponds (set (ctx_id_to_idx ctx) \<union> D) l l' \<and> (\<forall>r. result_id l' = Some r \<longrightarrow> unat r < kBatchSize)
   \<and> (\<forall>F. foreign store1 (gen_next_id g1) F \<longrightarrow>
        next_pairs l l' (set (ctx_id_to_idx ctx) \<union> D \<union> F) = set (ctx_id_to_idx ctx1) \<union> F)
   \<and> foreign store (gen_next_id g) D \<and> in_array D kBatchSize
   \<and> (\<forall>p\<in>D. lookup store (fst p) = Some (allocated_ptr (ctx_id_map ctx1 ! unat (snd p))) \<and> snd p < gen_next_id g1)
   \<and> (\<forall>i<gen_next_id g. ctx_id_map ctx1 ! unat i = ctx_id_map ctx ! unat i)
   \<and> lookup store1 = lookup store |` (- fst ` D)
   \<and> gen_next_id g \<le> gen_next_id g1 \<and> store_queued_ops store1 = store_queued_ops store)"

lemma foreign_mono: "foreign store n F \<Longrightarrow> m \<le> n \<Longrightarrow> foreign store m F"
  by (auto simp: foreign_def intro: order_trans)

lemma batch_step:
  assumes inv: "batch_inv k L (ctx, g, store)" and k: "k < kBatchSize"
    and live: "live_step L (uid_line tf op) = Some L1"
  obtains l st l' st' D where "batch_input tf op (ctx, g, store) = Some (Inr (l, st))"
    and "batch_result tf (snd op) (result_id (fst op)) (l, st) = Inr st'"
    and "step_ok k L1 (uid_line tf op) (ctx, g, store) l' st' D"
proof -
  have li: "set_option (input_id (uid_line tf op)) \<subseteq> L"
    and lr: "set_option (result_id (uid_line tf op)) \<inter> (L - set_option (input_id (uid_line tf op))) = {}"
    and L1: "L1 = (L - set_option (input_id (uid_line tf op))) \<union> set_option (result_id (uid_line tf op))"
    using live by (auto simp: live_step_def Let_def split: if_splits)
  obtain l st D where b: "batch_input tf op (ctx, g, store) = Some (Inr (l, st))"
    and io: "input_ok k L (input_id (uid_line tf op)) (fst op) (ctx, g, store) l st D"
    by (rule batch_input_step [OF inv k li])
  obtain ctx1 g1 store1 where st: "st = (ctx1, g1, store1)" by (metis surj_pair)
  note io' = io [unfolded st input_ok_def, simplified]
  have rl: "result_id l = result_id (fst op)" "strip_ids l = strip_ids (fst op)"
    using io' by (auto split: option.splits)
  show thesis
  proof (cases "result_id (fst op)")
    case None
    have "step_ok k L1 (uid_line tf op) (ctx, g, store) l (ctx1\<lparr>ctx_ops := ctx_ops ctx1 @ [l]\<rparr>, g1, store1) D"
      using io' rl None L1
      by (auto simp: step_ok_def batch_inv_def corresponds_def next_pairs_def enter_def)
    moreover have "batch_result tf (snd op) (result_id (fst op)) (l, st) = Inr (ctx1\<lparr>ctx_ops := ctx_ops ctx1 @ [l]\<rparr>, g1, store1)"
      by (simp add: batch_result_def None st)
    ultimately show thesis using b that by blast
  next
    case (Some r)
    let ?u = "UniqueId r (snd op) tf"
    have inv1: "batch_inv (Suc k) (L - set_option (input_id (uid_line tf op))) (ctx1, g1, store1)"
      and av: "unat (gen_next_id g1) \<le> k \<or> gen_available_ids g1 \<noteq> []" using io' by auto
    have "?u \<notin> L - set_option (input_id (uid_line tf op))" using lr Some by auto
    then obtain j g2 where j: "NextId g1 = (j, g2)" "unat j < kBatchSize" "gen_next_id g1 \<le> gen_next_id g2" "j < gen_next_id g2"
      "map_of (ctx_id_to_idx ctx1) ?u = None" "\<And>a. (a, j) \<notin> set (ctx_id_to_idx ctx1)"
      "\<And>x. batch_inv (Suc k) (insert ?u (L - set_option (input_id (uid_line tf op))))
        (ctx1\<lparr>ctx_id_to_idx := (?u, j) # ctx_id_to_idx ctx1, ctx_ops := x\<rparr>, g2, store1)"
      by (rule NextId_inv [OF inv1 av k]) blast
    let ?ctx2 = "ctx1\<lparr>ctx_id_to_idx := (?u, j) # ctx_id_to_idx ctx1, ctx_ops := ctx_ops ctx1 @ [SetResultId l j]\<rparr>"
    have res: "batch_result tf (snd op) (result_id (fst op)) (l, st) = Inr (?ctx2, g2, store1)"
      using Some j(1,5) by (simp add: batch_result_def st)
    have um: "?u \<notin> fst ` set (ctx_id_to_idx ctx1)" using j(5) by (simp add: map_of_eq_None_iff)
    have us: "?u \<notin> dom (lookup store1)"
      using inv1 \<open>?u \<notin> L - _\<close> by (auto simp: batch_inv_def)
    have en: "enter (Some ?u) (Some j) (set (ctx_id_to_idx ctx1) \<union> F) = set (ctx_id_to_idx ?ctx2) \<union> F"
      if F: "foreign store1 (gen_next_id g2) F" for F
    proof -
      have "fst q \<noteq> ?u \<and> snd q \<noteq> j" if "q \<in> F" for q using F that us j(4) by (fastforce simp: foreign_def)
      moreover have "fst q \<noteq> ?u \<and> snd q \<noteq> j" if "q \<in> set (ctx_id_to_idx ctx1)" for q
        using um j(6) [of "fst q"] that by (metis image_eqI prod.collapse)
      ultimately show ?thesis by (auto simp: enter_def retire_def)
    qed
    have "step_ok k L1 (uid_line tf op) (ctx, g, store) (SetResultId l j) (?ctx2, g2, store1) D"
      unfolding step_ok_def
    proof (simp add: Some rl, intro conjI allI impI)
      show "batch_inv (Suc k) L1 (?ctx2, g2, store1)" using j(7) L1 Some by simp
      show "corresponds (set (ctx_id_to_idx ctx) \<union> D) (uid_line tf op) (SetResultId l j)"
        using io' rl Some by (simp add: corresponds_def)
      fix F assume F: "foreign store1 (gen_next_id g2) F"
      then have "retire (input_id (uid_line tf op)) (input_id l) (set (ctx_id_to_idx ctx) \<union> D \<union> F)
          = set (ctx_id_to_idx ctx1) \<union> F" using io' foreign_mono [OF F j(3)] by simp
      then show "next_pairs (uid_line tf op) (SetResultId l j) (set (ctx_id_to_idx ctx) \<union> D \<union> F)
          = insert (?u, j) (set (ctx_id_to_idx ctx1) \<union> F)"
        using en [OF F] Some rl by (simp add: next_pairs_def)
    qed (use io' j rl Some in \<open>auto intro: order_trans less_le_trans\<close>)
    then show thesis using b res that by blast
  qed
qed

lemma corresponds_mono: "corresponds R l l' \<Longrightarrow> R \<subseteq> S \<Longrightarrow> corresponds S l l'"
  by (auto simp: corresponds_def elim!: option.rel_mono_strong)

definition run_ok ::
  "nat \<Rightarrow> u64 set \<Rightarrow> trace_line list \<Rightarrow> batch_state \<Rightarrow> trace_line list \<Rightarrow> batch_state \<Rightarrow> (u64 \<times> u64) set \<Rightarrow> bool" where
  "run_ok k L ls st news st' F \<longleftrightarrow> (case (st, st') of ((ctx, g, store), (ctx', g', store')) \<Rightarrow>
     batch_inv k L st' \<and> ctx_ops ctx' = ctx_ops ctx @ news
   \<and> same_trace (set (ctx_id_to_idx ctx) \<union> F) ls news
   \<and> last_pairs ls news (set (ctx_id_to_idx ctx) \<union> F) = set (ctx_id_to_idx ctx')
   \<and> foreign store (gen_next_id g) F \<and> in_array F kBatchSize
   \<and> (\<forall>p\<in>F. lookup store (fst p) = Some (allocated_ptr (ctx_id_map ctx' ! unat (snd p))))
   \<and> (\<forall>i<gen_next_id g. ctx_id_map ctx' ! unat i = ctx_id_map ctx ! unat i)
   \<and> (\<forall>r\<in>set (result_ids news). unat r < kBatchSize)
   \<and> set (result_ids ls) \<inter> dom (lookup store') = {}
   \<and> lookup store' = lookup store |` (- fst ` F) \<and> store_queued_ops store' = store_queued_ops store)"

lemma batch_ops_ok:
  assumes "batch_inv k L st" "k + length ops \<le> kBatchSize" "live_run L (map (uid_line tf) ops) = Some L'"
  shows "\<exists>st' news F. batch_ops tf ops st = Some (Inr st')
    \<and> run_ok (k + length ops) L' (map (uid_line tf) ops) st news st' F"
  using assms
proof (induction ops arbitrary: k L st)
  case Nil
  obtain ctx g store where st: "st = (ctx, g, store)" by (metis surj_pair)
  have "run_ok k L' [] st [] st {}"
    using Nil by (auto simp: run_ok_def st foreign_def in_array_def)
  then show ?case by auto
next
  case (Cons op ops)
  obtain ctx g store where st: "st = (ctx, g, store)" by (metis surj_pair)
  obtain L1 where L1: "live_step L (uid_line tf op) = Some L1" "live_run L1 (map (uid_line tf) ops) = Some L'"
    using Cons.prems(3) by (auto simp: bind_eq_Some_conv)
  have k: "k < kBatchSize" using Cons.prems(2) by simp
  obtain l st0 l' st1 D where s: "batch_input tf op (ctx, g, store) = Some (Inr (l, st0))"
    "batch_result tf (snd op) (result_id (fst op)) (l, st0) = Inr st1"
    "step_ok k L1 (uid_line tf op) (ctx, g, store) l' st1 D"
    by (rule batch_step [OF Cons.prems(1) [unfolded st] k L1(1)])
  obtain ctx1 g1 store1 where st1: "st1 = (ctx1, g1, store1)" by (metis surj_pair)
  note so = s(3) [unfolded step_ok_def st1 prod.case]
  have soA: "batch_inv (Suc k) L1 (ctx1, g1, store1)" "ctx_ops ctx1 = ctx_ops ctx @ [l']"
    "corresponds (set (ctx_id_to_idx ctx) \<union> D) (uid_line tf op) l'"
    "\<And>r. result_id l' = Some r \<Longrightarrow> unat r < kBatchSize"
    "\<And>F. foreign store1 (gen_next_id g1) F \<Longrightarrow>
        next_pairs (uid_line tf op) l' (set (ctx_id_to_idx ctx) \<union> D \<union> F) = set (ctx_id_to_idx ctx1) \<union> F"
    using so by blast+
  have soB: "foreign store (gen_next_id g) D" "in_array D kBatchSize"
    "\<And>p. p \<in> D \<Longrightarrow> lookup store (fst p) = Some (allocated_ptr (ctx_id_map ctx1 ! unat (snd p))) \<and> snd p < gen_next_id g1"
    "\<And>i. i < gen_next_id g \<Longrightarrow> ctx_id_map ctx1 ! unat i = ctx_id_map ctx ! unat i"
    "lookup store1 = lookup store |` (- fst ` D)"
    "gen_next_id g \<le> gen_next_id g1" "store_queued_ops store1 = store_queued_ops store"
    using so by blast+
  have b: "Suc k + length ops \<le> kBatchSize" using Cons.prems(2) by simp
  have inv1: "batch_inv (Suc k) L1 st1" using soA(1) st1 by simp
  obtain st' news F where r: "batch_ops tf ops st1 = Some (Inr st')"
    "run_ok (Suc k + length ops) L' (map (uid_line tf) ops) st1 news st' F"
    using Cons.IH [OF inv1 b L1(2)] by blast
  obtain ctx' g' store' where st': "st' = (ctx', g', store')" by (metis surj_pair)
  note ro = r(2) [unfolded run_ok_def st1 st' prod.case]
  have roA: "batch_inv (Suc k + length ops) L' (ctx', g', store')" "ctx_ops ctx' = ctx_ops ctx1 @ news"
    "same_trace (set (ctx_id_to_idx ctx1) \<union> F) (map (uid_line tf) ops) news"
    "last_pairs (map (uid_line tf) ops) news (set (ctx_id_to_idx ctx1) \<union> F) = set (ctx_id_to_idx ctx')"
    using ro by blast+
  have roB: "foreign store1 (gen_next_id g1) F" "in_array F kBatchSize"
    "\<And>p. p \<in> F \<Longrightarrow> lookup store1 (fst p) = Some (allocated_ptr (ctx_id_map ctx' ! unat (snd p)))"
    "\<And>i. i < gen_next_id g1 \<Longrightarrow> ctx_id_map ctx' ! unat i = ctx_id_map ctx1 ! unat i"
    "\<And>r. r \<in> set (result_ids news) \<Longrightarrow> unat r < kBatchSize"
    "set (result_ids (map (uid_line tf) ops)) \<inter> dom (lookup store') = {}"
    "lookup store' = lookup store1 |` (- fst ` F)" "store_queued_ops store' = store_queued_ops store1"
    using ro by blast+
  have e: "batch_ops tf (op # ops) st = Some (Inr st')"
    using s(1,2) r(1) by (simp add: st)
  have np: "next_pairs (uid_line tf op) l' (set (ctx_id_to_idx ctx) \<union> D \<union> F) = set (ctx_id_to_idx ctx1) \<union> F"
    by (rule soA(5) [OF roB(1)])
  have FF: "lookup store (fst p) = lookup store1 (fst p) \<and> fst p \<in> dom (lookup store)" if "p \<in> F" for p
  proof -
    have "fst p \<in> dom (lookup store1)" using roB(1) that by (simp add: foreign_def)
    then obtain v where "lookup store1 (fst p) = Some v" by blast
    then show ?thesis by (auto simp: soB(5) restrict_map_def split: if_splits)
  qed
  have c: "corresponds (set (ctx_id_to_idx ctx) \<union> (D \<union> F)) (uid_line tf op) l'"
    by (rule corresponds_mono [OF soA(3)]) blast
  have "run_ok (Suc k + length ops) L' (map (uid_line tf) (op # ops)) st (l' # news) st' (D \<union> F)"
    unfolding run_ok_def st st' prod.case list.map
  proof (intro conjI)
    show "batch_inv (Suc k + length ops) L' (ctx', g', store')" by (rule roA(1))
    show "ctx_ops ctx' = ctx_ops ctx @ l' # news" by (simp add: roA(2) soA(2))
    show "same_trace (set (ctx_id_to_idx ctx) \<union> (D \<union> F)) (uid_line tf op # map (uid_line tf) ops) (l' # news)"
      unfolding same_trace_Cons using c roA(3) np by (simp only: Un_assoc)
    show "last_pairs (uid_line tf op # map (uid_line tf) ops) (l' # news) (set (ctx_id_to_idx ctx) \<union> (D \<union> F)) = set (ctx_id_to_idx ctx')"
      using roA(4) np by (simp only: Un_assoc last_pairs.simps)
    have "n \<le> snd p" if "n \<le> m" "m \<le> snd p" for n m :: u64 and p :: "u64 \<times> u64" using that by (rule order_trans)
    then show "foreign store (gen_next_id g) (D \<union> F)"
      using soB(1,6) roB(1) FF by (auto simp: foreign_def)
    show "in_array (D \<union> F) kBatchSize" using soB(2) roB(2) by (auto simp: in_array_def)
    show "\<forall>p\<in>D \<union> F. lookup store (fst p) = Some (allocated_ptr (ctx_id_map ctx' ! unat (snd p)))"
    proof
      fix p assume "p \<in> D \<union> F"
      then consider "p \<in> D" | "p \<in> F" by blast
      then show "lookup store (fst p) = Some (allocated_ptr (ctx_id_map ctx' ! unat (snd p)))"
      proof cases
        case 1
        then show ?thesis using soB(3) [OF 1] roB(4) [of "snd p"] by simp
      next
        case 2
        then show ?thesis using FF [OF 2] roB(3) [OF 2] by simp
      qed
    qed
    show "\<forall>i<gen_next_id g. ctx_id_map ctx' ! unat i = ctx_id_map ctx ! unat i"
    proof (intro allI impI)
      fix i assume i: "i < gen_next_id g"
      then have "i < gen_next_id g1" using soB(6) by (rule less_le_trans)
      then show "ctx_id_map ctx' ! unat i = ctx_id_map ctx ! unat i" by (simp only: roB(4) soB(4) [OF i])
    qed
    show "\<forall>r\<in>set (result_ids (l' # news)). unat r < kBatchSize"
      using soA(4) roB(5) by (auto split: option.splits)
    have "r \<notin> dom (lookup store')" if r: "result_id (uid_line tf op) = Some r" for r
    proof -
      have "result_id l' \<noteq> None" using soA(3) r unfolding corresponds_def by (simp del: uid_line_ids)
      moreover have "next_pairs (uid_line tf op) l' (set (ctx_id_to_idx ctx) \<union> D \<union> {}) = set (ctx_id_to_idx ctx1) \<union> {}"
        by (rule soA(5)) (simp add: foreign_def)
      ultimately have "r \<in> fst ` set (ctx_id_to_idx ctx1)"
        using r by (force simp: next_pairs_def enter_def simp del: uid_line_ids split: option.splits)
      then have "r \<notin> dom (lookup store1)" using soA(1) unfolding batch_inv_def by blast
      then show ?thesis unfolding roB(7) by (auto simp: restrict_map_def split: if_splits)
    qed
    then show "set (result_ids (uid_line tf op # map (uid_line tf) ops)) \<inter> dom (lookup store') = {}"
      using roB(6) by (simp del: uid_line_ids split: option.split)
    show "lookup store' = lookup store |` (- fst ` (D \<union> F))"
      by (simp only: roB(7) soB(5) restrict_restrict image_Un Compl_Un)
    show "store_queued_ops store' = store_queued_ops store" by (simp only: roB(8) soB(7))
  qed
  moreover have "Suc k + length ops = k + length (op # ops)" by simp
  ultimately show ?case using e by (simp only:) blast
qed

end
