(* ===== verification/Worker.thy ===== *)
theory Worker
  imports Batches
begin

section \<open>The worker loop\<close>

text \<open>
  With one thread no operation is ever suspended, every batch is the next piece of the
  trace, and the loop makes the calls of the trace one after the other.
\<close>

subsection \<open>Taking operations from the trace\<close>

text \<open>The operation at position \<open>i\<close> of all repetitions.\<close>

definition pos_op :: "trace_line list \<Rightarrow> nat \<Rightarrow> queued_op" where
  "pos_op tf i = (tf ! (i mod length tf), of_nat (i div length tf))"

abbreviation uid_range :: "trace_line list \<Rightarrow> nat \<Rightarrow> nat \<Rightarrow> trace_line list" where
  "uid_range tf i j \<equiv> map (\<lambda>k. uid_line tf (pos_op tf k)) [i..<j]"

lemma of_nat_div_mod:
  assumes "i < 2 ^ 64" "n < 2 ^ 64"
  shows "unat (of_nat i mod of_nat n :: u64) = i mod n" "(of_nat i div of_nat n :: u64) = of_nat (i div n)"
proof -
  have u: "unat (of_nat i :: u64) = i" "unat (of_nat n :: u64) = n" using assms by (simp_all add: unat_of_nat)
  show "unat (of_nat i mod of_nat n :: u64) = i mod n" by (simp only: unat_mod_distrib u)
  have "unat (of_nat i div of_nat n :: u64) = i div n" by (simp only: unat_div_distrib u)
  then show "(of_nat i div of_nat n :: u64) = of_nat (i div n)" by (metis word_of_nat_eq_iff of_nat_unat ucast_id)
qed

lemma CanDoOpOrQueue_live:
  assumes "live_step L (uid_line tf (line, it)) = Some L1" and "L \<subseteq> loc \<union> dom (lookup store)"
  obtains loc1 where "CanDoOpOrQueue tf loc line it store = (True, loc1, store)" and "L1 \<subseteq> loc1 \<union> dom (lookup store)"
proof -
  let ?u = "\<lambda>u. UniqueId u it tf"
  have L1: "L1 = (L - ?u ` set_option (input_id line)) \<union> ?u ` set_option (result_id line)"
    and i: "?u ` set_option (input_id line) \<subseteq> L"
    using assms(1) by (auto simp: live_step_def Let_def option.set_map split: if_splits)
  let ?loc = "loc - ?u ` set_option (input_id line)"
  let ?loc1 = "(case result_id line of None \<Rightarrow> ?loc | Some r \<Rightarrow> insert (?u r) ?loc)"
  let ?loc2 = "(case result_id line of None \<Rightarrow> loc | Some r \<Rightarrow> insert (?u r) loc)"
  have "CanDoOpOrQueue tf loc line it store = (True, ?loc1, store) \<or> CanDoOpOrQueue tf loc line it store = (True, ?loc2, store)"
  proof (cases "input_id line")
    case (Some a)
    then have "?u a \<in> loc \<or> lookup store (?u a) \<noteq> None" using i assms(2) by auto
    then show ?thesis using Some by (cases "?u a \<in> loc"; cases "result_id line") (auto simp: CanDoOpOrQueue_def MaybeSuspendAllocation_def Let_def)
  qed (cases "result_id line"; simp add: CanDoOpOrQueue_def)
  moreover have "L1 \<subseteq> ?loc1 \<union> dom (lookup store)" "L1 \<subseteq> ?loc2 \<union> dom (lookup store)"
    using assms(2) by (auto simp: L1 split: option.split)
  ultimately show thesis using that by blast
qed

lemma take_ops_live:
  assumes "live_run L (uid_range tf i (i + n)) = Some L'" and "L \<subseteq> loc \<union> dom (lookup store)"
    and "i + n < 2 ^ 64" and "length tf < 2 ^ 64"
  obtains loc1 where "take_ops tf (of_nat i) n loc store = (map (pos_op tf) [i..<i + n], loc1, store)"
    and "L' \<subseteq> loc1 \<union> dom (lookup store)"
proof -
  have "\<exists>loc1. take_ops tf (of_nat i) n loc store = (map (pos_op tf) [i..<i + n], loc1, store)
    \<and> L' \<subseteq> loc1 \<union> dom (lookup store)"
    using assms
  proof (induction n arbitrary: i L loc)
    case (Suc n)
    have r: "[i..<i + Suc n] = i # [Suc i..<Suc i + n]" by (simp add: upt_rec)
    obtain L1 where L1: "live_step L (uid_line tf (pos_op tf i)) = Some L1"
      "live_run L1 (uid_range tf (Suc i) (Suc i + n)) = Some L'"
      using Suc.prems(1) unfolding r by (auto simp: bind_eq_Some_conv)
    note w = of_nat_div_mod [of i "length tf"]
    have p: "pos_op tf i = (tf ! unat (of_nat i mod of_nat (length tf) :: u64), of_nat i div of_nat (length tf))"
      using Suc.prems(3,4) by (simp add: w pos_op_def)
    obtain loc1 where c: "CanDoOpOrQueue tf loc (fst (pos_op tf i)) (snd (pos_op tf i)) store = (True, loc1, store)"
      "L1 \<subseteq> loc1 \<union> dom (lookup store)"
      by (rule CanDoOpOrQueue_live [of L tf "fst (pos_op tf i)" "snd (pos_op tf i)"]) (use L1 Suc.prems(2) in auto)
    have b: "Suc i + n < 2 ^ 64" using Suc.prems(3) by simp
    obtain loc2 where t: "take_ops tf (of_nat (Suc i)) n loc1 store = (map (pos_op tf) [Suc i..<Suc i + n], loc2, store)"
      "L' \<subseteq> loc2 \<union> dom (lookup store)"
      using Suc.IH [OF L1(2) c(2) b Suc.prems(4)] by blast
    have e: "of_nat i + 1 = (of_nat (Suc i) :: u64)" by simp
    have "take_ops tf (of_nat i) (Suc n) loc store = (pos_op tf i # map (pos_op tf) [Suc i..<Suc i + n], loc2, store)"
      using c(1) t(1) unfolding take_ops.simps Let_def p fst_conv snd_conv e by simp
    then show ?case using t(2) unfolding r by auto
  qed simp
  then show thesis using that by blast
qed

lemma of_nat_le_iff64: "i < 2 ^ 64 \<Longrightarrow> j < 2 ^ 64 \<Longrightarrow> (of_nat i \<le> (of_nat j :: u64)) = (i \<le> j)"
  by (simp add: word_le_nat_alt unat_of_nat)

lemma min_of_nat: "i < 2 ^ 64 \<Longrightarrow> j < 2 ^ 64 \<Longrightarrow> min (of_nat i) (of_nat j :: u64) = of_nat (min i j)"
  by (simp add: min_def of_nat_le_iff64)

lemma prepare_loop_live:
  assumes live: "live_run (dom (lookup store)) (uid_range tf i (min (i + n) t)) = Some L'"
    and i: "i \<le> t" and t: "t + n < 2 ^ 64" and len: "length tf < 2 ^ 64"
  shows "prepare_loop tf (of_nat t) n [] {} (of_nat i) store
    = Some (map (pos_op tf) [i..<min (i + n) t], of_nat (min (i + n) t), store)"
proof (cases "n = 0")
  case True
  then show ?thesis using i by (simp add: prepare_loop.simps)
next
  case n: False
  note le = of_nat_le_iff64
  show ?thesis
  proof (cases "i = t")
    case True
    then show ?thesis using n t by (simp add: prepare_loop.simps min_of_nat [of _ t, simplified] flip: of_nat_add)
  next
    case False
    let ?e = "min (i + n) t" and ?m = "min (i + n) t - i"
    have im: "i + ?m = ?e" "?m \<le> n" using i by auto
    have un: "unat (of_nat ?e - of_nat i :: u64) = ?m"
      using i t by (simp add: unat_sub le unat_of_nat)
    have ne: "(of_nat i :: u64) \<noteq> of_nat ?e"
      using False n i t by (simp add: word_of_nat_eq_iff take_bit_nat_eq_self min_def)
    obtain loc1 where tk: "take_ops tf (of_nat i) ?m {} store = (map (pos_op tf) [i..<?e], loc1, store)"
      by (rule take_ops_live [of "dom (lookup store)" tf i ?m L' "{}" store]) (use live im t len in simp_all)
    have l: "length (map (pos_op tf) [i..<?e]) = ?m" by simp
    have s1: "prepare_loop tf (of_nat t) n [] {} (of_nat i) store
        = prepare_loop tf (of_nat t) n (map (pos_op tf) [i..<?e]) loc1 (of_nat (i + n)) store"
      apply (subst prepare_loop.simps)
      using n False i t ne un tk by (simp add: le Let_def min_of_nat flip: of_nat_add)
    show ?thesis
    proof (cases "i + n \<le> t")
      case True
      then show ?thesis unfolding s1 by (subst prepare_loop.simps) simp
    next
      case F: False
      then have m: "?m < n" "?e = t" using i False by auto
      have le2: "of_nat t \<le> (of_nat (i + n) :: u64)" using F t i by (subst le) simp_all
      have "min (of_nat t + of_nat (n - ?m) :: u64) (of_nat t) = of_nat t"
      proof -
        have "t + (n - ?m) < 2 ^ 64" "t < 2 ^ 64" using t by simp_all
        then have "min (of_nat (t + (n - ?m)) :: u64) (of_nat t) = of_nat t" by (subst min_of_nat) (simp_all add: min_def)
        then show ?thesis by (simp only: of_nat_add)
      qed
      then show ?thesis unfolding s1 using m le2 l by (subst prepare_loop.simps) (simp add: Let_def)
    qed
  qed
qed


subsection \<open>Recording a batch\<close>

lemma flush_ids_ok:
  assumes "distinct (map fst ps)" "fst ` set ps \<inter> dom (lookup store) = {}" "in_array (set ps) (length a)"
  obtains store1 where "flush_ids ps a store = Some (Inr (), store1)" and "store_queued_ops store1 = store_queued_ops store"
    and "lookup store1 = (\<lambda>u. case map_of ps u of Some j \<Rightarrow> Some (allocated_ptr (a ! unat j)) | None \<Rightarrow> lookup store u)"
proof -
  have "\<exists>store1. flush_ids ps a store = Some (Inr (), store1) \<and> store_queued_ops store1 = store_queued_ops store
    \<and> lookup store1 = (\<lambda>u. case map_of ps u of Some j \<Rightarrow> Some (allocated_ptr (a ! unat j)) | None \<Rightarrow> lookup store u)"
    using assms
  proof (induction ps arbitrary: store)
    case (Cons p ps)
    let ?s = "store\<lparr>store_id_map := (fst p, allocated_ptr (a ! unat (snd p))) # store_id_map store\<rparr>"
    have p: "unat (snd p) < length a" using Cons.prems(3) by (simp add: in_array_def)
    have n: "lookup store (fst p) = None" using Cons.prems(2) by auto
    have "distinct (map fst ps)" "fst ` set ps \<inter> dom (lookup ?s) = {}" "in_array (set ps) (length a)"
      using Cons.prems by (auto simp: in_array_def)
    from Cons.IH [OF this] obtain s1 where s1: "flush_ids ps a ?s = Some (Inr (), s1)" "store_queued_ops s1 = store_queued_ops ?s"
      "lookup s1 = (\<lambda>u. case map_of ps u of Some j \<Rightarrow> Some (allocated_ptr (a ! unat j)) | None \<Rightarrow> lookup ?s u)"
      by blast
    have "map_of ps (fst p) = None" using Cons.prems(1) by (simp add: map_of_eq_None_iff)
    then have "lookup s1 = (\<lambda>u. case map_of (p # ps) u of Some j \<Rightarrow> Some (allocated_ptr (a ! unat j)) | None \<Rightarrow> lookup store u)"
      unfolding s1(3) by (intro ext) (cases p, auto split: option.split)
    then show ?case using p n s1 by (auto simp: array_get_def AddAllocation_def)
  qed simp
  then show thesis using that by blast
qed

lemma ref_line_frame: "ref_line A l M h = (r, M1, h1) \<Longrightarrow> result_id l \<noteq> Some u \<Longrightarrow> M1 u = M u"
  by (cases l) (auto split: prod.splits sum.splits option.splits)

lemma ref_lines_frame: "ref_lines A ls M h = (r, M1, h1) \<Longrightarrow> u \<notin> set (result_ids ls) \<Longrightarrow> M1 u = M u"
proof (induction ls arbitrary: M h)
  case (Cons l ls)
  obtain r1 M2 h2 where l: "ref_line A l M h = (r1, M2, h2)" by (metis surj_pair)
  have "M2 u = M u" by (rule ref_line_frame [OF l]) (use Cons.prems(2) in \<open>auto split: option.splits\<close>)
  moreover have "M1 u = M2 u"
  proof (cases r1)
    case (Inr x)
    then show ?thesis using Cons.prems l by (auto intro: Cons.IH split: option.splits)
  qed (use Cons.prems(1) l in auto)
  ultimately show ?case by simp
qed simp

lemma ref_lines_append: "ref_lines A (xs @ ys) M h = (case ref_lines A xs M h of
    (Inl e, M, h) \<Rightarrow> (Inl e, M, h) | (Inr _, M, h) \<Rightarrow> ref_lines A ys M h)"
  by (induction xs arbitrary: M h) (auto split: prod.split sum.split)

lemma live_run_ops: "live_run L ls = Some L' \<Longrightarrow> l \<in> set ls \<Longrightarrow> l \<noteq> OP_NOT_SET"
  by (induction ls arbitrary: L) (auto simp: bind_eq_Some_conv live_step_def split: if_splits)

text \<open>The global map holds the pointers of the live ids, and nothing waits.\<close>

definition store_ok :: "id_store \<Rightarrow> (u64 \<Rightarrow> ptr) \<Rightarrow> bool" where
  "store_ok store M \<longleftrightarrow> store_queued_ops store = []
     \<and> (\<forall>u v. lookup store u = Some v \<longrightarrow> v = allocated_ptr (M u))"

lemma sets_id_uid: "sets_id (uid_line tf op) = sets_id (fst op)"
  by (cases op; cases "fst op") (auto simp: uid_line_def relabel_def Let_def split: option.split)

text \<open>One batch: it is prepared, executed and recorded.\<close>

lemma one_batch:
  assumes live: "live_run (dom (lookup store)) (uid_range tf i j) = Some L1" and st: "store_ok store M"
    and j: "j = min (i + kBatchSize) t" and i: "i \<le> t" and t: "t + kBatchSize < 2 ^ 64" and len: "length tf < 2 ^ 64"
    and N: "N * of_nat (length tf) = of_nat t" and junk: "length junk = kBatchSize"
    and set: "\<And>k. k < t \<Longrightarrow> sets_id (fst (pos_op tf k))"
    and ref: "ref_lines A (uid_range tf i j) M h = (r, M1, h1)"
  obtains ctx store1 a1 where "PrepareBatch tf N junk (of_nat i) store = Some (Inr (ctx, store1), of_nat j)"
    and "length (ctx_ops ctx) = j - i" and "process_lines A (ctx_ops ctx) (ctx_id_map ctx) h = Some (r, a1, h1)"
    and "r = Inr () \<longrightarrow> (\<exists>store2. FlushOps (ctx\<lparr>ctx_id_map := a1\<rparr>) store1 = Some (Inr (), store2)
      \<and> store_ok store2 M1 \<and> dom (lookup store2) = L1)"
proof -
  let ?ops = "map (pos_op tf) [i..<j]" and ?U = "uid_range tf i j"
  let ?st = "(\<lparr>ctx_ops = [], ctx_id_to_idx = [], ctx_id_map = junk\<rparr>, \<lparr>gen_next_id = 0, gen_available_ids = []\<rparr>, store)"
  have U: "map (uid_line tf) ?ops = ?U" by (simp add: comp_def)
  have jl: "length ?ops \<le> kBatchSize" using j by simp
  have inv: "batch_inv 0 (dom (lookup store)) ?st"
    using st junk by (auto simp: batch_inv_def store_ok_def)
  obtain st' news F where b: "batch_ops tf ?ops ?st = Some (Inr st')"
    and ok: "run_ok (0 + length ?ops) L1 ?U ?st news st' F"
    using batch_ops_ok [OF inv, of ?ops tf L1] jl live by (auto simp: comp_def)
  obtain ctx g store1 where st': "st' = (ctx, g, store1)" by (metis surj_pair)
  note ro = ok [unfolded run_ok_def st' prod.case]
  have roA: "batch_inv (0 + length ?ops) L1 (ctx, g, store1)" "ctx_ops ctx = news"
    "same_trace F ?U news" "last_pairs ?U news F = set (ctx_id_to_idx ctx)"
    using ro by simp_all
  have roB: "in_array F kBatchSize"
    "\<And>p. p \<in> F \<Longrightarrow> lookup store (fst p) = Some (allocated_ptr (ctx_id_map ctx ! unat (snd p)))"
    "\<And>r. r \<in> set (result_ids news) \<Longrightarrow> unat r < kBatchSize"
    "set (result_ids ?U) \<inter> dom (lookup store1) = {}"
    "lookup store1 = lookup store |` (- fst ` F)" "store_queued_ops store1 = store_queued_ops store"
    using ro by blast+
  have q1: "store_queued_ops store1 = []" using roB(6) st by (simp add: store_ok_def)
  have prep: "PrepareBatch tf N junk (of_nat i) store = Some (Inr (ctx, store1), of_nat j)"
  proof -
    have q: "TakeFromQueue kMaxQueuedOpsTaken store = ([], store)"
      using st by (simp add: TakeFromQueue_def store_ok_def)
    have "prepare_loop tf (of_nat t) kBatchSize [] {} (of_nat i) store = Some (?ops, of_nat j, store)"
      using prepare_loop_live [of store tf i kBatchSize t L1] live i t len j by simp
    then show ?thesis
      using b by (simp add: PrepareBatch_def q PrepareOpsFromTrace_def N MakeFromOps_def st')
  qed
  have idx: "unat (snd p) < kBatchSize" if "p \<in> set (ctx_id_to_idx ctx)" for p
  proof -
    have "unat (gen_next_id g) \<le> kBatchSize" "snd p < gen_next_id g"
      using roA(1) that jl unfolding batch_inv_def by auto
    then show ?thesis by (simp add: word_less_nat_alt)
  qed
  have cl: "length (ctx_id_map ctx) = kBatchSize" using roA(1) by (simp add: batch_inv_def)
  have "agree F M (\<lambda>b. ctx_id_map ctx ! unat b)"
    using roB(2) st by (fastforce simp: agree_def store_ok_def)
  moreover have "sets_id l \<and> l \<noteq> OP_NOT_SET" if l: "l \<in> set ?U" for l
  proof -
    obtain k where k: "k \<in> {i..<j}" "l = uid_line tf (pos_op tf k)"
      using l unfolding set_map set_upt by (rule imageE) blast
    have "sets_id l" unfolding k(2) sets_id_uid using set [of k] k(1) j by simp
    then show ?thesis using live_run_ops [OF live l] by simp
  qed
  ultimately obtain a1 where p: "process_lines A news (ctx_id_map ctx) h = Some (r, a1, h1)" "length a1 = kBatchSize"
    "r = Inr () \<longrightarrow> agree (set (ctx_id_to_idx ctx)) M1 (\<lambda>b. a1 ! unat b)"
    using process_lines_same [OF roA(3) _ _ _ _ ref, of "ctx_id_map ctx" "()"] roB(1,3) cl roA(4) by auto
  have fl: "\<exists>store2. FlushOps (ctx\<lparr>ctx_id_map := a1\<rparr>) store1 = Some (Inr (), store2)
      \<and> store_ok store2 M1 \<and> dom (lookup store2) = L1" if r: "r = Inr ()"
  proof -
    let ?m = "ctx_id_to_idx ctx"
    have d: "distinct (map fst ?m)" "fst ` set ?m \<inter> dom (lookup store1) = {}" "L1 = fst ` set ?m \<union> dom (lookup store1)"
      using roA(1) unfolding batch_inv_def by auto
    have "in_array (set ?m) (length a1)" using idx p(2) by (simp add: in_array_def)
    from flush_ids_ok [OF d(1,2) this] obtain store2 where f: "flush_ids ?m a1 store1 = Some (Inr (), store2)"
      "store_queued_ops store2 = store_queued_ops store1"
      "lookup store2 = (\<lambda>u. case map_of ?m u of Some j \<Rightarrow> Some (allocated_ptr (a1 ! unat j)) | None \<Rightarrow> lookup store1 u)"
      by blast
    have "v = allocated_ptr (M1 u)" if v: "lookup store2 u = Some v" for u v
    proof (cases "map_of ?m u")
      case None
      then have u: "lookup store1 u = Some v" using v f(3) by simp
      then have "u \<notin> set (result_ids ?U)" using roB(4) by blast
      then have "M1 u = M u" by (rule ref_lines_frame [OF ref])
      moreover have "lookup store u = Some v" using u roB(5) by (simp add: restrict_map_def split: if_splits)
      ultimately show ?thesis using st by (simp add: store_ok_def)
    next
      case (Some k)
      then have "v = allocated_ptr (a1 ! unat k)" using v f(3) by simp
      moreover have "a1 ! unat k = M1 u" by (rule agreeD [OF p(3) [THEN mp, OF r] map_of_SomeD [OF Some]])
      ultimately show ?thesis by simp
    qed
    then have so: "store_ok store2 M1" using f(2) q1 by (simp add: store_ok_def)
    have "dom (\<lambda>u. case m u of Some j \<Rightarrow> Some (F j) | None \<Rightarrow> n u) = dom m \<union> dom n"
      for m :: "u64 \<Rightarrow> u64 option" and n and F :: "u64 \<Rightarrow> map_val"
      by (auto simp: dom_def split: option.splits)
    then have "dom (lookup store2) = dom (map_of ?m) \<union> dom (lookup store1)" unfolding f(3) .
    then have "dom (lookup store2) = L1" by (simp only: d(3) dom_map_of_conv_image_fst)
    with so show ?thesis using f(1) by (auto simp: FlushOps_def)
  qed
  have "length (ctx_ops ctx) = j - i"
    using same_trace_length [OF roA(3)] roA(2) by simp
  with prep p(1) fl roA(2) show thesis using that by simp
qed


lemma worker_loop_ok:
  assumes "live_run (dom (lookup store)) (uid_range tf i t) = Some L1" and "store_ok store M"
    and "i \<le> t" and t: "t + kBatchSize < 2 ^ 64" and len: "length tf < 2 ^ 64"
    and N: "N * of_nat (length tf) = of_nat t" and junk: "\<And>k. length (junk k) = kBatchSize"
    and set: "\<And>k. k < t \<Longrightarrow> sets_id (fst (pos_op tf k))"
    and "ref_lines A (uid_range tf i t) M h = (r, M1, h1)"
  shows "worker_loop A tf N junk n (of_nat i) store h = Some (r, h1)"
  using assms(1-3,9)
proof (induction "t - i" arbitrary: i store M h n rule: less_induct)
  case less
  let ?j = "min (i + kBatchSize) t"
  have sp: "uid_range tf i t = uid_range tf i ?j @ uid_range tf ?j t"
    using upt_add_eq_append [of i ?j "t - ?j"] less.prems(3) by (simp flip: map_append)
  obtain L2 where L2: "live_run (dom (lookup store)) (uid_range tf i ?j) = Some L2" "live_run L2 (uid_range tf ?j t) = Some L1"
    using less.prems(1) unfolding sp live_run_append by (auto simp: bind_eq_Some_conv)
  obtain r2 M2 h2 where r2: "ref_lines A (uid_range tf i ?j) M h = (r2, M2, h2)" by (metis surj_pair)
  obtain ctx store1 a1 where b: "PrepareBatch tf N (junk n) (of_nat i) store = Some (Inr (ctx, store1), of_nat ?j)"
    "length (ctx_ops ctx) = ?j - i" "process_lines A (ctx_ops ctx) (ctx_id_map ctx) h = Some (r2, a1, h2)"
    "r2 = Inr () \<longrightarrow> (\<exists>store2. FlushOps (ctx\<lparr>ctx_id_map := a1\<rparr>) store1 = Some (Inr (), store2)
      \<and> store_ok store2 M2 \<and> dom (lookup store2) = L2)"
    by (rule one_batch [OF L2(1) less.prems(2) refl less.prems(3) t len N junk [of n] set r2])
  show ?case
  proof (cases "i = t")
    case True
    then have "r = Inr ()" "h1 = h" using less.prems(4) by auto
    then show ?thesis using b(1,2) True by (subst worker_loop.simps) simp
  next
    case False
    then have ne: "ctx_ops ctx \<noteq> []" and lt: "t - ?j < t - i"
      using b(2) less.prems(3) by (auto simp: kBatchSize_def)
    show ?thesis
    proof (cases r2)
      case (Inl e)
      then have "r = Inl e" "h1 = h2" using less.prems(4) r2 unfolding sp ref_lines_append by auto
      then show ?thesis using b(1,3) ne Inl by (subst worker_loop.simps) simp
    next
      case (Inr u)
      then have "r2 = Inr ()" by simp
      with b(4) obtain store2 where f: "FlushOps (ctx\<lparr>ctx_id_map := a1\<rparr>) store1 = Some (Inr (), store2)"
        "store_ok store2 M2" "dom (lookup store2) = L2" by blast
      have rest: "ref_lines A (uid_range tf ?j t) M2 h2 = (r, M1, h1)"
        using less.prems(4) r2 Inr unfolding sp ref_lines_append by simp
      have "worker_loop A tf N junk (Suc n) (of_nat ?j) store2 h2 = Some (r, h1)"
        by (rule less.hyps [OF lt _ f(2) _ rest]) (simp_all add: f(3) L2(2))
      then show ?thesis using b(1,3) ne Inr f(1) by (subst worker_loop.simps) simp
    qed
  qed
qed

end
