(* ===== verification/Replay.thy ===== *)
theory Replay
  imports Worker
begin

section \<open>The executor replays the trace\<close>

text \<open>
  All repetitions together: the unique ids of one iteration are the rewritten ids moved by a
  constant, so that the positions that the worker takes are the repeated trace.
\<close>

lemma relabel_in_None [simp]: "input_id l = None \<Longrightarrow> input_id (relabel f l) = None"
  by simp

lemma live_step_relabel:
  assumes f: "inj f"
  shows "live_step (f ` L) (relabel f l) = map_option (image f) (live_step L l)"
proof -
  let ?i = "set_option (input_id l)" and ?r = "set_option (result_id l)"
  have "f ` ?i \<subseteq> f ` L \<longleftrightarrow> ?i \<subseteq> L" by (rule inj_image_subset_iff [OF f])
  moreover have "f ` L - f ` ?i = f ` (L - ?i)" by (simp only: image_set_diff [OF f])
  moreover have "f ` ?r \<inter> f ` (L - ?i) = {} \<longleftrightarrow> ?r \<inter> (L - ?i) = {}"
    by (simp only: image_Int [OF f, symmetric] image_is_empty)
  ultimately show ?thesis
    by (simp add: live_step_def Let_def option.set_map image_Un)
qed

lemma live_run_relabel:
  assumes f: "inj f"
  shows "live_run (f ` L) (map (relabel f) ls) = map_option (image f) (live_run L ls)"
proof (induction ls arbitrary: L)
  case (Cons l ls)
  then show ?case by (cases "live_step L l") (simp_all add: live_step_relabel [OF f])
qed simp

lemma apsnd_retire:
  assumes f: "inj f"
  shows "apsnd f ` retire a b R = retire a (map_option f b) (apsnd f ` R)"
proof -
  have "Some (f y) = map_option f b \<longleftrightarrow> Some y = b" for y using f by (cases b) (auto dest: injD)
  then show ?thesis unfolding retire_def by fastforce
qed

lemma apsnd_enter:
  assumes f: "inj f"
  shows "apsnd f ` enter a b R = enter a (map_option f b) (apsnd f ` R)"
  by (cases a; cases b) (simp_all add: enter_def apsnd_retire [OF f])

lemma same_trace_relabel:
  assumes f: "inj f"
  shows "same_trace R ls ls' \<Longrightarrow> same_trace (apsnd f ` R) ls (map (relabel f) ls')"
proof (induction R ls ls' rule: same_trace.induct)
  case (2 R l ls l' ls')
  have "rel_option (\<lambda>i j. (i, j) \<in> apsnd f ` R) (input_id l) (map_option f (input_id l'))"
    using "2.prems" by (cases "input_id l"; cases "input_id l'") (auto intro: rev_image_eqI)
  moreover have "same_trace (apsnd f ` enter (result_id l) (result_id l') (retire (input_id l) (input_id l') R)) ls (map (relabel f) ls')"
    using 2 by simp
  ultimately show ?case using "2.prems" by (simp add: apsnd_retire [OF f] apsnd_enter [OF f])
qed simp_all

lemma retire_mono: "R \<subseteq> S \<Longrightarrow> retire a b R \<subseteq> retire a b S"
  by (auto simp: retire_def)

lemma enter_mono: "R \<subseteq> S \<Longrightarrow> enter a b R \<subseteq> enter a b S"
  by (auto simp: enter_def retire_def split: option.split)

lemma same_trace_mono: "same_trace R ls ls' \<Longrightarrow> R \<subseteq> S \<Longrightarrow> same_trace S ls ls'"
proof (induction R ls ls' arbitrary: S rule: same_trace.induct)
  case (2 R l ls l' ls')
  have "rel_option (\<lambda>i j. (i, j) \<in> S) (input_id l) (input_id l')"
    using "2.prems" by (auto elim!: option.rel_mono_strong)
  moreover have "same_trace (enter (result_id l) (result_id l') (retire (input_id l) (input_id l') S)) ls ls'"
    by (rule "2.IH" [OF _ enter_mono [OF retire_mono [OF "2.prems"(2)]]]) (use "2.prems"(1) in simp)
  ultimately show ?case using "2.prems"(1) by simp
qed simp_all

subsection \<open>All repetitions\<close>

definition iteration :: "trace_line list \<Rightarrow> nat \<Rightarrow> trace_line list" where
  "iteration tf k = map (relabel (\<lambda>i. UniqueId i (of_nat k) tf)) tf"

lemma inj_UniqueId: "inj (\<lambda>i. UniqueId i it tf)"
  by (auto simp: UniqueId_def inj_on_def)

lemma uid_range_iteration: "uid_range tf (k * length tf) (k * length tf + length tf) = iteration tf k"
proof (cases "tf = []")
  case False
  have "uid_line tf (pos_op tf (k * length tf + i)) = relabel (\<lambda>i. UniqueId i (of_nat k) tf) (tf ! i)" if "i < length tf" for i
  proof -
    have "(k * length tf + i) mod length tf = i" "(k * length tf + i) div length tf = k"
      using that False by simp_all
    then show ?thesis by (simp add: uid_line_def pos_op_def)
  qed
  then show ?thesis by (intro nth_equalityI) (simp_all add: iteration_def)
qed (simp add: iteration_def)

lemma uid_range_iterations: "uid_range tf 0 (n * length tf) = concat (map (iteration tf) [0..<n])"
proof (induction n)
  case (Suc n)
  have "uid_range tf 0 (Suc n * length tf)
      = uid_range tf 0 (n * length tf) @ uid_range tf (n * length tf) (n * length tf + length tf)"
    using upt_add_eq_append [of 0 "n * length tf" "length tf"] by (simp add: add.commute flip: map_append)
  then show ?case using Suc by (simp only: uid_range_iteration) simp
qed simp

lemma live_iterations:
  assumes "live_run {} tf = Some {}"
  shows "live_run {} (concat (map (iteration tf) [0..<n])) = Some {}"
proof (induction n)
  case (Suc n)
  have "live_run {} (iteration tf n) = Some {}"
    using live_run_relabel [OF inj_UniqueId [of "of_nat n" tf], of "{}" tf] assms by (simp add: iteration_def)
  then show ?case using Suc by (simp add: live_run_append)
qed simp

lemma same_trace_iterations:
  assumes "same_trace {} ls tf"
  shows "same_trace {} (concat (replicate n ls)) (concat (map (iteration tf) [0..<n]))"
proof (induction n)
  case (Suc n)
  have i: "same_trace {} ls (iteration tf n)"
    using same_trace_relabel [OF inj_UniqueId assms] by (simp add: iteration_def)
  have r: "concat (replicate (Suc n) ls) = concat (replicate n ls) @ ls"
    by (simp flip: replicate_append_same)
  show ?case
    unfolding r using Suc same_trace_mono [OF i] by (simp add: same_trace_append [OF same_trace_length [OF Suc]])
qed simp

lemma sets_id_same_trace: "same_trace R ls ls' \<Longrightarrow> list_all sets_id ls \<Longrightarrow> list_all sets_id ls'"
proof (induction R ls ls' rule: same_trace.induct)
  case (2 R l ls l' ls')
  then show ?case using sets_id_same [of R l l'] unfolding same_trace_Cons next_pairs_def by simp
qed simp_all

lemma process_tracefile_ok:
  assumes ok: "trace_ok ls" and set: "list_all sets_id ls" and len: "length ls < 2 ^ 64"
    and total: "unat N * length ls + kBatchSize < 2 ^ 64" and junk: "\<And>k. length (junk k) = kBatchSize"
  shows "ProcessTracefile A ls N junk h = Some (replay A (concat (replicate (unat N) ls)) h)"
proof -
  obtain tf where tf: "RewriteIdsToUnique ls = Inr tf"
    using ok rewrite_ok_iff [of ls] by blast
  note same = conjunct1 [OF rewrite_same [OF tf len]]
  have l: "length tf = length ls" using same_trace_length [OF same] by simp
  have live: "live_run {} tf = Some {}"
    using rewrite_again [OF tf len] rewrite_ok_iff [of tf] by (auto simp: trace_ok_def)
  let ?t = "unat N * length tf" and ?U = "concat (map (iteration tf) [0..<unat N])"
  obtain r M h1 where r: "ref_lines A ?U (\<lambda>_. 0) h = (r, M, h1)" by (metis surj_pair)
  obtain r' M' h1' where r': "ref_lines A (concat (replicate (unat N) ls)) (\<lambda>_. 0) h = (r', M', h1')" by (metis surj_pair)
  have e: "r = r'" "h1 = h1'"
    using ref_lines_same(1,2) [OF same_trace_iterations [OF same] _ r' r] by (simp_all add: agree_def)
  have sets: "sets_id (fst (pos_op tf k))" if "k < ?t" for k
  proof -
    have "k mod length tf < length tf" using that by (cases "tf = []") simp_all
    then show ?thesis
      using sets_id_same_trace [OF same set] by (simp add: pos_op_def list_all_length)
  qed
  have "worker_loop A tf N junk 0 (of_nat 0) \<lparr>store_id_map = [], store_queued_ops = []\<rparr> h = Some (r, h1)"
  proof (rule worker_loop_ok [where t = ?t and M = "\<lambda>_. 0"])
    show "live_run (dom (lookup \<lparr>store_id_map = [], store_queued_ops = []\<rparr>)) (uid_range tf 0 ?t) = Some {}"
      using live_iterations [OF live] by (simp only: uid_range_iterations) simp
    show "ref_lines A (uid_range tf 0 ?t) (\<lambda>_. 0) h = (r, M, h1)"
      using r by (simp only: uid_range_iterations)
  qed (use total l len junk sets in \<open>simp_all add: store_ok_def\<close>)
  then show ?thesis using tf r' e by (simp add: ProcessTracefile_def ProcessorWorker_def replay_def)
qed

text \<open>C25: RewriteIdsToUnique succeeds exactly on the traces in which every id is produced while it
  is not live, consumed while it is live, and freed in the end, and which have no line
  without operation.\<close>

theorem rewrite_accepts: "(\<exists>ls'. RewriteIdsToUnique ls = Inr ls') \<longleftrightarrow> trace_ok ls"
  by (rule rewrite_ok_iff)

text \<open>C26: The rewritten trace is the same trace up to a renaming of its ids, and its result ids
  are 0, 1, 2 and so on.\<close>

theorem rewrite_renames:
  assumes "RewriteIdsToUnique ls = Inr ls'" and "length ls < 2 ^ 64"
  shows "same_trace {} ls ls' \<and> result_ids ls' = map of_nat [0..<length (result_ids ls)]"
  by (rule rewrite_same [OF assms])

text \<open>Rewriting a rewritten trace changes nothing.\<close>

theorem rewrite_idempotent:
  assumes "RewriteIdsToUnique ls = Inr ls'" and "length ls < 2 ^ 64"
  shows "RewriteIdsToUnique ls' = Inr ls'"
  by (rule rewrite_again [OF assms])

text \<open>C24: On a well-formed trace in which no allocation that records its result has size zero, and
  within the bounds of the 64-bit index, the executor with one thread is equivalent to
  running the trace line by line, N times, with each id bound to the pointer its own
  allocation returned: rewriting ids, batching 512 operations, the per-batch pointer
  array, the global id map and flushing do not change a call, its arguments or the
  outcome; the loop ends and no array access is out of bounds.\<close>

theorem executor_replays:
  assumes "trace_ok ls" "list_all sets_id ls" "length ls < 2 ^ 64"
    and "unat N * length ls + kBatchSize < 2 ^ 64" "\<And>k. length (junk k) = kBatchSize"
  shows "ProcessTracefile A ls N junk h = Some (replay A (concat (replicate (unat N) ls)) h)"
  by (rule process_tracefile_ok) (use assms in auto)

text \<open>C28: A trace that breaks the id discipline is rejected before any call of the allocator: the
  heap is untouched.\<close>

theorem executor_rejects:
  assumes "\<not> trace_ok ls"
  shows "\<exists>e. ProcessTracefile A ls N junk h = Some (Inl e, h)"
  using assms rewrite_ok_iff [of ls] by (cases "RewriteIdsToUnique ls") (auto simp: ProcessTracefile_def)

lemma rewrite_line_status: "rewrite_line st l = Inl e \<Longrightarrow> e \<noteq> Ended c"
  by (cases st; cases l) (auto simp: rewrite_result_def split: option.splits if_splits sum.splits)

lemma rewrite_lines_status: "rewrite_lines st ls = Inl e \<Longrightarrow> e \<noteq> Ended c"
proof (induction ls arbitrary: st)
  case (Cons l ls)
  show ?case
  proof (cases "rewrite_line st l")
    case (Inl x)
    then show ?thesis using Cons.prems rewrite_line_status by auto
  next
    case (Inr y)
    then show ?thesis using Cons by (cases y; cases "rewrite_lines (fst y) ls") auto
  qed
qed simp

lemma rewrite_status: "RewriteIdsToUnique ls = Inl e \<Longrightarrow> \<not> ended (Inl e :: unit status_or)"
  using rewrite_lines_status [of "(0, [])" ls]
  by (cases "rewrite_lines (0, []) ls") (auto simp: RewriteIdsToUnique_def ended_iff split: if_splits)

lemma process_rejected:
  assumes "\<not> trace_ok ls"
  obtains e where "ProcessTracefile A ls N junk h = Some (Inl e, h)" "\<not> ended (Inl e :: unit status_or)"
proof (cases "RewriteIdsToUnique ls")
  case (Inl e)
  then show thesis using that [of e] rewrite_status [OF Inl] by (simp add: ProcessTracefile_def)
qed (use assms rewrite_ok_iff [of ls] in blast)

text \<open>C29: On a trace of less than 2^64 - 512 lines in which no allocation that records its result
  has size zero, Run stops at an error of InitializeHeap; otherwise it replays the trace,
  or rejects it without a call when it breaks the id discipline, and in every case, also
  after an error of the trace and after a rejected trace, calls CleanupHeap on the heap
  the trace left. An error of the cleanup takes precedence over the trace's own result.
  The only exception is a call that ends the process, after which nothing runs.\<close>

theorem run_cleans_up:
  assumes "list_all sets_id ls" "length ls + kBatchSize < 2 ^ 64" "\<And>k. length (junk k) = kBatchSize"
  shows "case InitializeHeap A h of
      (Inl e, h1) \<Rightarrow> Run A ls junk h = Some (Inl e, h1)
    | (Inr _, h1) \<Rightarrow> \<exists>r h2. (if trace_ok ls then replay A ls h1 = (r, h2) else h2 = h1 \<and> (\<exists>e. r = Inl e) \<and> \<not> ended r)
        \<and> Run A ls junk h = Some (
            if ended r then (r, h2)
            else case CleanupHeap A h2 of (Inl e, h3) \<Rightarrow> (Inl e, h3) | (Inr _, h3) \<Rightarrow> (r, h3))"
proof -
  obtain i h1 where i: "InitializeHeap A h = (i, h1)" by (metis surj_pair)
  obtain r h2 where r: "ProcessTracefile A ls 1 junk h1 = Some (r, h2)"
    "if trace_ok ls then replay A ls h1 = (r, h2) else h2 = h1 \<and> (\<exists>e. r = Inl e) \<and> \<not> ended r"
  proof (cases "trace_ok ls")
    case True
    have "ProcessTracefile A ls 1 junk h1 = Some (replay A (concat (replicate (unat (1 :: u64)) ls)) h1)"
      by (rule process_tracefile_ok) (use assms True in simp_all)
    then show thesis using that True by (cases "replay A ls h1") simp
  next
    case False
    then show thesis using that by (metis process_rejected)
  qed
  show ?thesis
  proof (cases i)
    case (Inr u)
    have "Run A ls junk h = Some (if ended r then (r, h2)
        else case CleanupHeap A h2 of (Inl e, h3) \<Rightarrow> (Inl e, h3) | (Inr _, h3) \<Rightarrow> (r, h3))"
      using i r(1) Inr by (simp add: Run_def RunRepeated_def)
    with r(2) show ?thesis unfolding i Inr prod.case sum.case by (intro exI conjI)
  qed (use i in \<open>simp add: Run_def RunRepeated_def\<close>)
qed

text \<open>Where the slot of a zero-sized allocation is not set, the free receives what the array held.\<close>

definition zero_trace :: "trace_line list" where
  "zero_trace = [kMalloc \<lparr>malloc_result_id = Some 1, malloc_input_size = Some 0, malloc_input_alignment = None\<rparr>,
     kFree \<lparr>free_input_id = Some 1, free_input_size_hint = None, free_input_alignment_hint = None\<rparr>]"

lemma zero_trace_ok: "trace_ok zero_trace"
  by (simp add: zero_trace_def trace_ok_def live_step_def)

text \<open>C30: An accepted trace that allocates zero bytes and frees the result calls free with
  whatever the uninitialised pointer array held, because DoMalloc does not set the id of a
  zero-sized allocation.\<close>

theorem zero_size_frees_junk:
  assumes "length (junk 0) = kBatchSize"
  shows "trace_ok zero_trace \<and> ProcessTracefile A zero_trace 1 junk h = Some (case Malloc A 0 None h of
      (Inl e, h) \<Rightarrow> (Inl e, h) | (Inr p, h) \<Rightarrow> Free A (junk 0 ! 0) None None h)"
proof (rule conjI [OF zero_trace_ok])
  let ?tf = "[kMalloc \<lparr>malloc_result_id = Some 0, malloc_input_size = Some 0, malloc_input_alignment = None\<rparr>,
     kFree \<lparr>free_input_id = Some 0, free_input_size_hint = None, free_input_alignment_hint = None\<rparr>]"
  have r: "RewriteIdsToUnique zero_trace = Inr ?tf"
    by (simp add: zero_trace_def RewriteIdsToUnique_def rewrite_result_def)
  let ?store = "\<lparr>store_id_map = [], store_queued_ops = []\<rparr>"
  have l: "PrepareOpsFromTrace ?tf 1 512 0 ?store = Some (map (pos_op ?tf) [0..<2], 2, ?store)"
    using prepare_loop_live [of ?store ?tf 0 512 2 "{}"] by (simp add: PrepareOpsFromTrace_def uid_line_def pos_op_def relabel_def UniqueId_def live_step_def upt_rec)
  have p: "PrepareBatch ?tf 1 (junk 0) 0 ?store
      = Some (Inr (\<lparr>ctx_ops = ?tf, ctx_id_to_idx = [], ctx_id_map = junk 0\<rparr>, ?store), 2)"
    using l by (simp add: PrepareBatch_def TakeFromQueue_def kBatchSize_def kMaxQueuedOpsTaken_def MakeFromOps_def pos_op_def
      batch_input_def batch_result_def NextId_def NextUnusedId_def UniqueId_def FreeId_def upt_rec)
  have "PrepareOpsFromTrace ?tf 1 512 2 ?store = Some ([], 2, ?store)"
    using prepare_loop_live [of ?store ?tf 2 512 2 "{}"] by (simp add: PrepareOpsFromTrace_def)
  then have p2: "PrepareBatch ?tf 1 a 2 ?store
      = Some (Inr (\<lparr>ctx_ops = [], ctx_id_to_idx = [], ctx_id_map = a\<rparr>, ?store), 2)" for a
    by (simp add: PrepareBatch_def TakeFromQueue_def kBatchSize_def kMaxQueuedOpsTaken_def MakeFromOps_def)
  have "junk 0 \<noteq> []" using assms by (auto simp: kBatchSize_def)
  then show "ProcessTracefile A zero_trace 1 junk h = Some (case Malloc A 0 None h of
      (Inl e, h) \<Rightarrow> (Inl e, h) | (Inr p, h) \<Rightarrow> Free A (junk 0 ! 0) None None h)"
    by (cases "Malloc A 0 None h"; cases "Free A (junk 0 ! 0) None None (snd (Malloc A 0 None h))")
      (auto simp: ProcessTracefile_def r ProcessorWorker_def worker_loop.simps p DoMalloc_def DoFree_def array_get_def
        p2 FlushOps_def split: sum.splits)
qed

subsection \<open>A concrete run\<close>

text \<open>An allocator that hands out the addresses 16, 32, \<open>\<dots>\<close> and counts its calls.\<close>

definition counting :: "nat allocator" where
  "counting = \<lparr>InitializeHeap = \<lambda>h. (Inr (), 1), CleanupHeap = \<lambda>h. (Inr (), 0),
     Malloc = \<lambda>s a h. (Inr (16 * of_nat h), h + 1), Calloc = \<lambda>n s h. (Inr (16 * of_nat h), h + 1),
     Realloc = \<lambda>p s h. (Inr (16 * of_nat h), h + 1),
     Free = \<lambda>p s a h. (if p = 0 then Inl (Unknown_free 0) else Inr (), h + 1)\<rparr>"

definition demo_trace :: "trace_line list" where
  "demo_trace =
     [kMalloc \<lparr>malloc_result_id = Some 7, malloc_input_size = Some 8, malloc_input_alignment = None\<rparr>,
      kRealloc \<lparr>realloc_result_id = Some 9, realloc_input_id = Some 7, realloc_input_size = Some 16\<rparr>,
      kCalloc \<lparr>calloc_result_id = Some 7, calloc_input_nmemb = Some 2, calloc_input_size = Some 3\<rparr>,
      kFree \<lparr>free_input_id = Some 9, free_input_size_hint = None, free_input_alignment_hint = None\<rparr>,
      kFree \<lparr>free_input_id = Some 7, free_input_size_hint = None, free_input_alignment_hint = None\<rparr>]"

lemma demo_rewritten: "RewriteIdsToUnique demo_trace = Inr
     [kMalloc \<lparr>malloc_result_id = Some 0, malloc_input_size = Some 8, malloc_input_alignment = None\<rparr>,
      kRealloc \<lparr>realloc_result_id = Some 1, realloc_input_id = Some 0, realloc_input_size = Some 16\<rparr>,
      kCalloc \<lparr>calloc_result_id = Some 2, calloc_input_nmemb = Some 2, calloc_input_size = Some 3\<rparr>,
      kFree \<lparr>free_input_id = Some 1, free_input_size_hint = None, free_input_alignment_hint = None\<rparr>,
      kFree \<lparr>free_input_id = Some 2, free_input_size_hint = None, free_input_alignment_hint = None\<rparr>]"
  by (simp add: demo_trace_def RewriteIdsToUnique_def rewrite_result_def)

lemma demo_ok: "trace_ok demo_trace" "list_all sets_id demo_trace" "length demo_trace = 5"
  by (auto simp add: demo_trace_def trace_ok_def live_step_def)

theorem rewrite_renames_witness:
  "\<exists>ls'. RewriteIdsToUnique demo_trace = Inr ls' \<and> same_trace {} demo_trace ls' \<and> result_ids ls' = [0, 1, 2]"
proof -
  have "result_ids demo_trace = [7, 9, 7]" by (simp add: demo_trace_def)
  then show ?thesis using rewrite_renames [OF demo_rewritten] demo_rewritten by (simp add: demo_ok upt_rec)
qed

theorem rewrite_idempotent_witness:
  "\<exists>ls'. ls' \<noteq> demo_trace \<and> RewriteIdsToUnique demo_trace = Inr ls' \<and> RewriteIdsToUnique ls' = Inr ls'"
  using rewrite_idempotent [OF demo_rewritten] demo_rewritten by (auto simp: demo_ok demo_trace_def)

lemma demo_replay: "replay counting (demo_trace @ demo_trace) 1 = (Inr (), 11)" "replay counting demo_trace 1 = (Inr (), 6)"
  by (simp_all add: replay_def demo_trace_def counting_def)

lemma demo_twice: "concat (replicate 2 demo_trace) = demo_trace @ demo_trace"
  by (simp add: numeral_2_eq_2)

theorem executor_replays_witness:
  "ProcessTracefile counting demo_trace 2 (\<lambda>_. replicate 512 0) 1 = Some (Inr (), 11)"
  using executor_replays [OF demo_ok(1,2), of 2 "\<lambda>_. replicate 512 0" counting 1] demo_replay
  by (simp add: demo_ok kBatchSize_def demo_twice)

text \<open>The first trace is replayed, the second one is rejected; the heap is cleaned up in both runs.\<close>

theorem run_cleans_up_witness:
  "Run counting demo_trace (\<lambda>_. replicate 512 0) 5 = Some (Inr (), 0)
   \<and> (\<exists>e. Run counting (tl demo_trace) (\<lambda>_. replicate 512 0) 5 = Some (Inl e, 0))"
proof
  have c: "InitializeHeap counting 5 = (Inr (), 1)" "CleanupHeap counting h = (Inr (), 0)" for h
    by (simp_all add: counting_def)
  show "Run counting demo_trace (\<lambda>_. replicate 512 0) 5 = Some (Inr (), 0)"
    using run_cleans_up [OF demo_ok(2), of "\<lambda>_. replicate 512 0" counting 5] demo_replay(2) demo_ok
    by (simp add: kBatchSize_def c)
  have t: "\<not> trace_ok (tl demo_trace)" "list_all sets_id (tl demo_trace)" "length (tl demo_trace) = 4"
    by (simp_all add: demo_trace_def trace_ok_def live_step_def)
  show "\<exists>e. Run counting (tl demo_trace) (\<lambda>_. replicate 512 0) 5 = Some (Inl e, 0)"
    using run_cleans_up [OF t(2), of "\<lambda>_. replicate 512 0" counting 5] t(1,3)
    by (auto simp: kBatchSize_def c split: if_splits)
qed

theorem zero_size_frees_junk_witness:
  "ProcessTracefile counting zero_trace 1 (\<lambda>_. replicate 512 0) 1 = Some (Inl (Unknown_free 0), 3)
   \<and> ProcessTracefile counting zero_trace 1 (\<lambda>_. replicate 512 16) 1 = Some (Inr (), 3)"
  using zero_size_frees_junk [of "\<lambda>_. replicate 512 0" counting 1]
    zero_size_frees_junk [of "\<lambda>_. replicate 512 16" counting 1]
  by (simp add: kBatchSize_def counting_def)

theorem executor_rejects_witness:
  "\<exists>e. ProcessTracefile counting (tl demo_trace) 2 (\<lambda>_. []) 1 = Some (Inl e, 1)"
  by (rule executor_rejects) (simp add: demo_trace_def trace_ok_def live_step_def)

end
