(* ===== verification/Harness.thy ===== *)
theory Harness
  imports Bump Replay
begin

unbundle bit_operations_syntax

section \<open>The checker on the executor\<close>

text \<open>
  The composition: the executor drives the checked allocator over a fresh process, and what
  the checker's answers mean.
\<close>

lemma initialized:
  assumes h: "heap_objects (Reset p0) = []"
    and mm: "\<And>a. mmap os kHeapSize (Reset p0) = Some a \<Longrightarrow> a \<noteq> 0 \<and> page_aligned a \<and> unat a + unat kHeapSize < 2 ^ 64"
    and ob: "new_object os (Reset p0) \<noteq> 0"
    and i: "InitializeHeap (CorrectnessChecker (bump os)) (c, p0) = (r, (c', p'))"
  shows "c' = c" "r = Inl e \<Longrightarrow> e = Ended (Some (- 1)) \<and> mmap os kHeapSize (Reset p0) = None"
    "r = Inr u \<Longrightarrow> bump_ok (\<lambda>_. None) p'"
proof -
  have e: "InitializeHeap (CorrectnessChecker (bump os)) (c, p0) = on_process (initialize_heap os) (c, Reset p0)"
    by (simp add: CorrectnessChecker_def MallocRunner_def runner_InitializeHeap_def bump_def)
  show "c' = c" using i e by (auto simp: on_process_def split: prod.splits)
  have "case r of Inl e \<Rightarrow> e = Ended (Some (- 1)) \<and> mmap os kHeapSize (Reset p0) = None | Inr _ \<Rightarrow> bump_ok (\<lambda>_. None) p'"
  proof (cases "mmap os kHeapSize (Reset p0)")
    case None
    then show ?thesis using i e
      by (auto simp: on_process_def initialize_heap_def NewInstance_def MakeHeap_def MMapHeap_New_def)
  next
    case (Some a)
    note a = mm [OF Some]
    let ?k = "new_object os (Reset p0)" and ?m = "Heap_new a kHeapSize (\<lambda>_. 0)"
    have f: "factory_heaps (Reset p0) = []" by (simp add: Reset_def)
    have p': "r = Inr ()" "p' = (set_heap ?k ?m (Reset p0))\<lparr>factory_heaps := [?k], g_heap := ?k\<rparr>"
      using i e Some f by (auto simp: on_process_def initialize_heap_def NewInstance_def MakeHeap_def MMapHeap_New_def
        set_heap_def)
    have "unat a mod 16 = 0"
    proof -
      have "take_bit 12 a = 0" using a by (simp add: page_aligned_def)
      then have "unat (take_bit 12 a) = 0" by simp
      then have "take_bit 12 (unat a) = 0" by (simp only: unsigned_take_bit_eq)
      then have "unat a mod 4096 = 0" by (simp add: take_bit_eq_mod)
      then have "4096 dvd unat a" by (simp add: mod_eq_0_iff_dvd)
      then have "16 dvd unat a" by (rule dvd_trans [rotated]) simp
      then show ?thesis by simp
    qed
    moreover have "unat kHeapSize < 2 ^ 63" by (simp add: kHeapSize_def)
    ultimately have "bump_heap p' ?k ?m"
      using a h ob p'(2) by (simp add: bump_heap_def set_heap_def Heap_new_def Heap_ok_def)
    moreover have "placed (\<lambda>_. None) ?m" by (simp add: placed_def)
    ultimately show ?thesis using p'(1) by (auto simp: bump_ok_def)
  qed
  then show "r = Inl e \<Longrightarrow> e = Ended (Some (- 1)) \<and> mmap os kHeapSize (Reset p0) = None" "r = Inr u \<Longrightarrow> bump_ok (\<lambda>_. None) p'" by auto
qed



definition demo_os :: os where
  "demo_os = \<lparr>mmap = \<lambda>_ _. Some 0x1000, new_object = \<lambda>_. 0x500, static_heap = 0x600\<rparr>"

definition fresh_process :: process where
  "fresh_process = \<lparr>heap_objects = [], factory_heaps = [], g_heap = 0\<rparr>"

definition check_trace :: "trace_line list" where
  "check_trace =
     [kMalloc \<lparr>malloc_result_id = Some 0, malloc_input_size = Some 24, malloc_input_alignment = None\<rparr>,
      kCalloc \<lparr>calloc_result_id = Some 1, calloc_input_nmemb = Some 2, calloc_input_size = Some 5\<rparr>,
      kFree \<lparr>free_input_id = Some 0, free_input_size_hint = None, free_input_alignment_hint = None\<rparr>,
      kFree \<lparr>free_input_id = Some 1, free_input_size_hint = None, free_input_alignment_hint = None\<rparr>]"

lemma check_trace_ok: "trace_ok check_trace" "list_all (sized bump_supports bump_bounded) check_trace"
  by (auto simp: check_trace_def trace_ok_def live_step_def bump_bounded_def)


text \<open>C34: CheckMagicBytes, which compares words and finds the byte from the trailing zeros of the
  difference, reports exactly the first byte of the block that differs, and succeeds when
  there is none.\<close>

theorem check_reports_first_difference:
  assumes "readable p q (unat sz)"
  shows "CheckMagicBytes q sz w p = (case List.find (\<lambda>j. read8 p (q + of_nat j) \<noteq> Some (magic_byte w j)) [0..<unat sz] of
     None \<Rightarrow> (Inr (), p)
   | Some j \<Rightarrow> (Inl (failed '' Allocated block has dirtied bytes'' [q, sz, of_nat j]), p))"
  using CheckMagicBytes_spec [OF assms] by (simp add: first_dirty_def clean_def)

text \<open>C33: For a pointer that is not null and whose block, if it has one, is readable memory: the
  checker's hook before a free accepts a block exactly when the block is live and every
  byte of it is what the checker wrote there. It then forgets this block and no other, so
  a second free of it is reported whatever happened to the memory in between; a free of an
  unknown pointer and a change of a live block are reported as failed tests and leave the
  checker as it was.\<close>

theorem release_detects_corruption:
  assumes "q \<noteq> 0" and "\<And>k. map_of (allocated_blocks c) q = Some k \<Longrightarrow> readable p q (unat (block_size k))"
  shows "case map_of (allocated_blocks c) q of
      None \<Rightarrow> checker_PreRelease q (c, p) = (Inl (failed '' freed block not found in allocated blocks map'' [q]), (c, p))
    | Some k \<Rightarrow>
        if read_bytes q (unat (block_size k)) p = Some (map (magic_byte (block_magic k)) [0..<unat (block_size k)])
        then \<exists>c'. checker_PreRelease q (c, p) = (Inr (), (c', p))
          \<and> map_of (allocated_blocks c') = (map_of (allocated_blocks c))(q := None)
          \<and> checker_PreRelease q (c', p') = (Inl (failed '' freed block not found in allocated blocks map'' [q]), (c', p'))
        else \<exists>j. checker_PreRelease q (c, p)
          = (Inl (failed '' Allocated block has dirtied bytes'' [q, block_size k, of_nat j]), (c, p))"
proof (cases "map_of (allocated_blocks c) q")
  case None
  then show ?thesis using assms(1) by (simp add: checker_PreRelease_def)
next
  case (Some k)
  let ?n = "unat (block_size k)" and ?w = "block_magic k"
  note r = assms(2) [OF Some]
  have b: "read_bytes q ?n p = Some (map (magic_byte ?w) [0..<?n]) \<longleftrightarrow> first_dirty p q ?w [0..<?n] = None"
    using r unfolding first_dirty_None read_bytes_eq readable_def clean_def
    by (auto simp: list_eq_iff_nth_eq) (metis option.sel)
  have e: "map_of (allocated_blocks (erase_block q c)) = (map_of (allocated_blocks c))(q := None)"
    by (simp add: erase_block_def AList.delete_conv')
  show ?thesis
  proof (cases "first_dirty p q ?w [0..<?n]")
    case None
    then show ?thesis using Some assms(1) CheckMagicBytes_spec [OF r] b e
      by (simp add: checker_PreRelease_def on_process_def)
  next
    case d: (Some j)
    then show ?thesis using Some assms(1) CheckMagicBytes_spec [OF r] b
      by (auto simp: checker_PreRelease_def on_process_def)
  qed
qed

text \<open>A process with a heap of 64 bytes at 4096, whose first block is full of its magic bytes.\<close>

definition demo_memory :: memory where
  "demo_memory = (Heap_new 4096 64 (\<lambda>a. if a = 4104 then 7 else 0x0102030405060708))\<lparr>arena_end := 4160\<rparr>"

definition demo_process :: process where
  "demo_process = \<lparr>heap_objects = [(0x500, demo_memory)],
     factory_heaps = [0x500], g_heap = 0x500\<rparr>"

lemma demo_readable: "readable demo_process 4096 16"
  unfolding readable_def
proof (intro allI impI)
  fix j :: nat assume j: "j < 16"
  have h: "bump_heap demo_process 0x500 demo_memory"
    by (simp add: bump_heap_def demo_process_def demo_memory_def Heap_new_def Heap_ok_def)
  have "unat (4096 + of_nat j :: u64) = 4096 + j" using j by (simp add: unat_word_ariths unat_of_nat)
  then have "arena_start demo_memory \<le> 4096 + of_nat j" "4096 + of_nat j < arena_end demo_memory"
    using j by (simp_all add: demo_memory_def Heap_new_def word_le_nat_alt word_less_nat_alt)
  then show "read8 demo_process (4096 + of_nat j) \<noteq> None" by (rule heap_read(2) [OF h])
qed

theorem check_reports_first_difference_witness:
  "CheckMagicBytes 4096 16 0x0102030405060708 demo_process
     = (Inl (failed '' Allocated block has dirtied bytes'' [4096, 16, 8]), demo_process)"
proof -
  have r: "readable demo_process 4096 (unat (16 :: u64))" using demo_readable by simp
  have f: "List.find (\<lambda>j. read8 demo_process (4096 + of_nat j) \<noteq> Some (magic_byte 0x0102030405060708 j)) [0..<16] = Some 8"
    by code_simp
  show ?thesis unfolding check_reports_first_difference [OF r] using f by simp
qed

definition demo_checker :: checker where
  "demo_checker = \<lparr>allocated_blocks = [(4096, \<lparr>block_size = 8, block_magic = 0x0102030405060708\<rparr>)],
     prng = (\<lambda>n. of_nat n), draws = 1\<rparr>"

theorem release_detects_corruption_witness:
  "\<exists>c'. checker_PreRelease 4096 (demo_checker, demo_process) = (Inr (), (c', demo_process))
    \<and> map_of (allocated_blocks c') = Map.empty
    \<and> checker_PreRelease 4096 (c', demo_process)
        = (Inl (failed '' freed block not found in allocated blocks map'' [4096]), (c', demo_process))"
proof -
  have r: "readable demo_process 4096 (unat (8 :: u64))"
    using readable_mono [OF demo_readable, of 8] by simp
  have b: "read_bytes 4096 (unat (8 :: u64)) demo_process = Some (map (magic_byte 0x0102030405060708) [0..<8])"
    by code_simp
  have m: "map_of (allocated_blocks demo_checker) = [4096 \<mapsto> \<lparr>block_size = 8, block_magic = 0x0102030405060708\<rparr>]"
    by (auto simp: demo_checker_def)
  show ?thesis
    using release_detects_corruption [of 4096 demo_checker demo_process demo_process] r b unfolding m by simp
qed

subsection \<open>What the bump allocator does not do\<close>

text \<open>A size that rounds up past 64 bits is a request of zero bytes, which succeeds.\<close>

lemma bump_malloc_wraps:
  assumes h: "bump_heap p k m" and sz: "2 ^ 64 - 16 < unat sz"
  shows "bump_malloc os sz al p = (Inr (arena_end m), p)"
proof -
  have g: "g_heap p = k" "k \<noteq> 0" "heap_objects p = [(k, m)]" "Heap_ok m" using h by (simp_all add: bump_heap_def)
  have "unat (sz + 15) = unat sz + 15 - 2 ^ 64"
    using sz unat64 [of sz] by (simp add: unat_word_ariths mod_if)
  then have "unat ((sz + 15) AND NOT 15) = 0" using unat64 [of sz] unfolding unat_and_not_15 by simp
  then have R: "(sz + 15) AND NOT 15 = 0" by (simp add: unat_eq_0)
  have "Heap_room 0 m" using g(4) by (simp add: Heap_ok_def Heap_room_def)
  then have "Heap_sbrk 0 m = (arena_end m, m)" using Heap_sbrk_grow [OF g(4)] by simp
  then show ?thesis using g sz R by (auto simp: bump_malloc_def heap_sbrk_def Let_def set_heap_def)
qed

text \<open>
  \<^verbatim>\<open>realloc\<close> copies as many bytes as the new block has, also when the old one is smaller: when
  the last block grows, the regions of \<^verbatim>\<open>memcpy\<close> overlap, which is undefined.
\<close>

lemma bump_realloc_overlaps:
  assumes h: "bump_heap p k m" and b: "b \<noteq> 0" "unat b < unat (arena_end m)" "unat (arena_end m) < unat b + unat sz"
    and sz: "unat sz \<le> 2 ^ 64 - 16" and room: "Heap_room ((sz + 0xf) AND NOT 0xf) m"
  shows "fst (bump_realloc os b sz p) = Inl crash"
proof -
  have g: "g_heap p = k" "k \<noteq> 0" "heap_objects p = [(k, m)]" "Heap_ok m" using h by (simp_all add: bump_heap_def)
  have n: "sz \<noteq> 0" using b(2,3) by auto
  have e: "arena_end m \<noteq> 0" using b(2) by auto
  have "bump_malloc os sz 0 p = (Inr (arena_end m), set_heap k (m\<lparr>arena_end := arena_end m + ((sz + 0xf) AND NOT 0xf)\<rparr>) p)"
    using g n Heap_sbrk_grow [OF g(4) room] by (simp add: bump_malloc_def heap_sbrk_def Let_def)
  then show ?thesis using b e by (simp add: bump_realloc_def op_memory_def memcpy_def)
qed

end
