(* ===== verification/Utiltest.thy ===== *)
theory Utiltest
  imports Runner Complex_Main
begin

unbundle bit_operations_syntax

section \<open>Measuring utilisation\<close>

text \<open>
  \<^verbatim>\<open>src/utiltest.cc\<close>: the hooks that keep the number of allocated bytes and the largest values
  of it and of the heap's size. The flag \<^verbatim>\<open>effective_util\<close> is a field of the state; each
  atomic operation is one step. The quotient is a rational: its rounding to \<^verbatim>\<open>double\<close> is left
  out.
\<close>

record util =
  effective_util :: bool
  size_map :: "(ptr \<times> u64) list"
  total_allocated_bytes :: u64
  max_allocated_bytes :: u64
  max_heap_size :: u64

definition new_util :: "bool \<Rightarrow> util" where
  "new_util eff = \<lparr>effective_util = eff, size_map = [], total_allocated_bytes = 0,
     max_allocated_bytes = 0, max_heap_size = 0\<rparr>"

definition RoundUp :: "bool \<Rightarrow> u64 \<Rightarrow> u64" where
  "RoundUp eff sz = (if \<not> eff then sz else if sz \<le> 8 then 8 else (sz + 0xf) AND NOT 0xf)"

text \<open>
  The loop \<^verbatim>\<open>while ((prev = m.exchange(v)) > v) v = prev\<close>; \<open>m\<close> is the value of the atomic.
\<close>

function exchange_max :: "u64 \<Rightarrow> u64 \<Rightarrow> u64" where
  "exchange_max m v = (if m > v then exchange_max v m else v)"
  by pat_completeness auto
termination
  by (relation "measure (\<lambda>(m, v). if m > v then 1 else 0)") auto

declare exchange_max.simps [simp del]

definition RecomputeMax :: "u64 \<Rightarrow> util \<times> process \<Rightarrow> util \<times> process" where
  "RecomputeMax tot s =
     (let heap_size = WithInstances (\<lambda>hs. sum_list (map Heap_Size hs)) (snd s); u = fst s in
      (u\<lparr>max_allocated_bytes := exchange_max (max_allocated_bytes u) tot,
         max_heap_size := exchange_max (max_heap_size u) heap_size\<rparr>, snd s))"

definition util_PostAlloc :: "ptr \<Rightarrow> u64 \<Rightarrow> u64 option \<Rightarrow> bool \<Rightarrow> (util \<times> process, unit) op" where
  "util_PostAlloc q sz alignment is_calloc s =
     (let u = fst s; rounded_size = RoundUp (effective_util u) sz; tot = total_allocated_bytes u + rounded_size;
          (u, p) = RecomputeMax tot (u\<lparr>total_allocated_bytes := tot\<rparr>, snd s)
      in case map_of (size_map u) q of
           Some old \<Rightarrow> (Inl (failed '' Allocated pointer conflicts with existing allocation'' [q, sz, q, old]), (u, p))
         | None \<Rightarrow> (Inr (), (u\<lparr>size_map := (q, sz) # size_map u\<rparr>, p)))"

definition util_PreRealloc :: "ptr \<Rightarrow> u64 \<Rightarrow> (util \<times> process, u64) op" where
  "util_PreRealloc q sz s = (case map_of (size_map (fst s)) q of
     None \<Rightarrow> (Inl (failed '' Reallocated memory not found in size map.'' [q]), s)
   | Some prev_size \<Rightarrow> (Inr (RoundUp (effective_util (fst s)) prev_size),
       ((fst s)\<lparr>size_map := AList.delete q (size_map (fst s))\<rparr>, snd s)))"

definition util_PostRealloc :: "ptr \<Rightarrow> ptr \<Rightarrow> u64 \<Rightarrow> u64 \<Rightarrow> (util \<times> process, unit) op" where
  "util_PostRealloc new_ptr old_ptr sz prev_size s =
     (let u = fst s; rounded_size = RoundUp (effective_util u) sz;
          tot = total_allocated_bytes u + (rounded_size - prev_size);
          (u, p) = RecomputeMax tot (u\<lparr>total_allocated_bytes := tot\<rparr>, snd s)
      in case map_of (size_map u) new_ptr of
           Some old \<Rightarrow> (Inl (failed '' Reallocated pointer conflicts with existing allocation'' [new_ptr, sz, new_ptr, old]), (u, p))
         | None \<Rightarrow> (Inr (), (u\<lparr>size_map := (new_ptr, sz) # size_map u\<rparr>, p)))"

definition util_PreRelease :: "ptr \<Rightarrow> (util \<times> process, unit) op" where
  "util_PreRelease q s =
     (if q = 0 then (Inr (), s)
      else case map_of (size_map (fst s)) q of
        None \<Rightarrow> (Inl (failed '' Freed memory not found in size map.'' [q]), s)
      | Some sz \<Rightarrow>
          let u = fst s; old_size = RoundUp (effective_util u) sz; tot = total_allocated_bytes u - old_size;
              (u, p) = RecomputeMax tot (u\<lparr>total_allocated_bytes := tot\<rparr>, snd s)
          in (Inr (), (u\<lparr>size_map := AList.delete q (size_map u)\<rparr>, p)))"

definition util_hooks :: "(util, u64) hooks" where
  "util_hooks = \<lparr>PostAlloc = util_PostAlloc, PreRealloc = util_PreRealloc,
     PostRealloc = util_PostRealloc, PreRelease = util_PreRelease\<rparr>"

definition ComputeUtilization :: "util \<Rightarrow> rat status_or" where
  "ComputeUtilization u =
     (if total_allocated_bytes u \<noteq> 0
      then Inl (Failed ''Tracefile does not free all the memory it allocates.'' [])
      else Inr (if max_heap_size u \<noteq> 0
        then of_nat (unat (max_allocated_bytes u)) / of_nat (unat (max_heap_size u)) else - 1))"

definition Utiltest :: "process bench_api \<Rightarrow> (util \<times> process) allocator" where
  "Utiltest api = MallocRunner False api util_hooks"

subsection \<open>The totals\<close>

lemma exchange_max_eq: "exchange_max m v = max m v"
proof (cases "m > v")
  case True
  then have "exchange_max m v = exchange_max v m" using exchange_max.simps [of m v] by presburger
  also have "\<dots> = m" using exchange_max.simps [of v m] less_not_sym [OF True] by presburger
  finally show ?thesis using True by (simp add: max_absorb1)
next
  case False
  then have "exchange_max m v = v" using exchange_max.simps [of m v] by presburger
  then show ?thesis using False by (simp add: max_absorb2 not_less)
qed

text \<open>
  The number of allocated bytes is the sum over the live blocks, and the maximum is at
  least that.
\<close>

definition util_inv :: "util \<Rightarrow> bool" where
  "util_inv u \<longleftrightarrow> distinct (map fst (size_map u))
     \<and> total_allocated_bytes u = sum_list (map (\<lambda>(q, sz). RoundUp (effective_util u) sz) (size_map u))
     \<and> total_allocated_bytes u \<le> max_allocated_bytes u"

lemma sum_list_delete:
  assumes "distinct (map fst xs)" "map_of xs q = Some sz"
  shows "sum_list (map (\<lambda>(q, sz). f sz) (AList.delete q xs)) = sum_list (map (\<lambda>(q, sz). f sz) xs) - (f sz :: u64)"
  using assms
proof (induction xs)
  case (Cons x xs)
  obtain a b where x: "x = (a, b)" by (cases x)
  show ?case
  proof (cases "a = q")
    case True
    then have "q \<notin> fst ` set xs" using Cons.prems(1) x by auto
    then have "AList.delete q xs = xs" by (rule AList.delete_id)
    then show ?thesis using True Cons.prems x by simp
  next
    case False
    then show ?thesis using Cons x by (simp add: algebra_simps)
  qed
qed simp

lemma RecomputeMax_fields:
  assumes "RecomputeMax tot (u, p) = (u', p')"
  shows "p' = p" "size_map u' = size_map u" "total_allocated_bytes u' = total_allocated_bytes u"
    "effective_util u' = effective_util u" "max_allocated_bytes u' = max (max_allocated_bytes u) tot"
    "max_heap_size u' = max (max_heap_size u) (WithInstances (\<lambda>hs. sum_list (map Heap_Size hs)) p)"
proof -
  have e: "u' = u\<lparr>max_allocated_bytes := max (max_allocated_bytes u) tot,
      max_heap_size := max (max_heap_size u) (WithInstances (\<lambda>hs. sum_list (map Heap_Size hs)) p)\<rparr>" and p: "p' = p"
    using assms by (auto simp: RecomputeMax_def Let_def exchange_max_eq)
  show "p' = p" "size_map u' = size_map u" "total_allocated_bytes u' = total_allocated_bytes u"
    "effective_util u' = effective_util u" "max_allocated_bytes u' = max (max_allocated_bytes u) tot"
    "max_heap_size u' = max (max_heap_size u) (WithInstances (\<lambda>hs. sum_list (map Heap_Size hs)) p)"
    unfolding e p by simp_all
qed


text \<open>What a successful operation does to the totals.\<close>

definition util_step :: "util \<Rightarrow> util \<Rightarrow> bool" where
  "util_step u u' \<longleftrightarrow> util_inv u' \<and> effective_util u' = effective_util u
     \<and> max_allocated_bytes u' = max (max_allocated_bytes u) (total_allocated_bytes u')"

lemma util_step_refl: "util_inv u \<Longrightarrow> util_step u u"
  unfolding util_step_def util_inv_def using max_absorb1 [of "total_allocated_bytes u" "max_allocated_bytes u"] by metis

lemma util_PostAlloc_step:
  assumes "util_inv u" "util_PostAlloc q sz al cal (u, p) = (Inr v, (u', p'))"
  shows "util_step u u'"
proof -
  let ?t = "total_allocated_bytes u + RoundUp (effective_util u) sz"
  obtain u1 p1 where r: "RecomputeMax ?t (u\<lparr>total_allocated_bytes := ?t\<rparr>, p) = (u1, p1)" by (metis surj_pair)
  note f = RecomputeMax_fields [OF r]
  have "map_of (size_map u) q = None" "u' = u1\<lparr>size_map := (q, sz) # size_map u1\<rparr>"
    using assms(2) r f by (auto simp: util_PostAlloc_def Let_def split: option.splits)
  then show ?thesis using f assms(1)
    by (auto simp: util_step_def util_inv_def map_of_eq_None_iff algebra_simps)
qed

lemma util_PreRelease_step:
  assumes "util_inv u" "util_PreRelease q (u, p) = (Inr v, (u', p'))"
  shows "util_step u u'"
proof (cases "q = 0")
  case True
  then show ?thesis using assms util_step_refl by (simp add: util_PreRelease_def)
next
  case False
  then obtain sz where sz: "map_of (size_map u) q = Some sz"
    using assms(2) by (auto simp: util_PreRelease_def split: option.splits)
  let ?t = "total_allocated_bytes u - RoundUp (effective_util u) sz"
  obtain u1 p1 where r: "RecomputeMax ?t (u\<lparr>total_allocated_bytes := ?t\<rparr>, p) = (u1, p1)" by (metis surj_pair)
  note f = RecomputeMax_fields [OF r]
  have u': "u' = u1\<lparr>size_map := AList.delete q (size_map u1)\<rparr>"
    using assms(2) r f sz False by (auto simp: util_PreRelease_def Let_def)
  have d: "distinct (map fst (size_map u))" using assms(1) by (simp add: util_inv_def)
  show ?thesis using f assms(1) AList.distinct_delete [OF d] sum_list_delete [OF d sz]
    by (simp add: u' util_step_def util_inv_def)
qed

lemma util_Realloc_step:
  assumes "util_inv u" and pre: "util_PreRealloc q sz (u, p) = (Inr d, (u1, p1))"
    and post: "util_PostRealloc r q sz d (u1, p2) = (Inr v, (u', p'))"
  shows "util_step u u'"
proof -
  obtain old where old: "map_of (size_map u) q = Some old" and u1: "u1 = u\<lparr>size_map := AList.delete q (size_map u)\<rparr>"
    and d: "d = RoundUp (effective_util u) old"
    using pre by (auto simp: util_PreRealloc_def split: option.splits)
  let ?t = "total_allocated_bytes u1 + (RoundUp (effective_util u1) sz - d)"
  obtain u2 p3 where rc: "RecomputeMax ?t (u1\<lparr>total_allocated_bytes := ?t\<rparr>, p2) = (u2, p3)" by (metis surj_pair)
  note f = RecomputeMax_fields [OF rc]
  have n: "map_of (size_map u1) r = None" "u' = u2\<lparr>size_map := (r, sz) # size_map u2\<rparr>"
    using post rc f by (auto simp: util_PostRealloc_def Let_def split: option.splits)
  have dd: "distinct (map fst (size_map u))" using assms(1) by (simp add: util_inv_def)
  have e: "effective_util u2 = effective_util u" "max_allocated_bytes u2 = max (max_allocated_bytes u) (total_allocated_bytes u2)"
    "total_allocated_bytes u2 = total_allocated_bytes u + (RoundUp (effective_util u) sz - RoundUp (effective_util u) old)"
    "size_map u2 = AList.delete q (size_map u)"
    using f by (simp_all add: u1 d)
  have "r \<notin> fst ` set (AList.delete q (size_map u))" using n(1) by (simp add: u1 map_of_eq_None_iff)
  moreover have "total_allocated_bytes u2 = RoundUp (effective_util u) sz
      + sum_list (map (\<lambda>(q, sz). RoundUp (effective_util u) sz) (AList.delete q (size_map u)))"
    using assms(1) sum_list_delete [OF dd old, of "RoundUp (effective_util u)"] by (simp add: e(3) util_inv_def)
  moreover have "total_allocated_bytes u2 \<le> max_allocated_bytes u2" by (subst e(2)) simp
  ultimately show ?thesis
    using e AList.distinct_delete [OF dd] unfolding util_step_def util_inv_def n(2) by simp
qed

lemma util_Malloc_step:
  assumes "util_inv u" "Malloc (Utiltest api) sz al (u, p) = (Inr q, (u', p'))"
  shows "util_step u u'"
  using assms util_PostAlloc_step
  by (auto simp: Utiltest_def MallocRunner_def runner_Malloc_def on_process_def util_hooks_def op_return_def op_fail_def
    split: prod.splits sum.splits if_splits)

lemma util_Calloc_step:
  assumes "util_inv u" "Calloc (Utiltest api) nmemb sz (u, p) = (Inr q, (u', p'))"
  shows "util_step u u'"
  using assms util_PostAlloc_step
  by (auto simp: Utiltest_def MallocRunner_def runner_Calloc_def on_process_def util_hooks_def op_return_def op_fail_def
    split: prod.splits sum.splits if_splits)

lemma util_Reallocation_step:
  assumes "util_inv u" "Realloc (Utiltest api) b sz (u, p) = (Inr q, (u', p'))"
  shows "util_step u u'"
proof (cases "b = 0")
  case True
  then show ?thesis using assms util_PostAlloc_step
    by (auto simp: Utiltest_def MallocRunner_def runner_Realloc_def on_process_def util_hooks_def op_return_def
      split: prod.splits sum.splits)
next
  case False
  then show ?thesis using assms util_Realloc_step
    by (auto simp: Utiltest_def MallocRunner_def runner_Realloc_def on_process_def util_hooks_def op_return_def
      split: prod.splits sum.splits)
qed

lemma util_Free_step:
  assumes "util_inv u" "Free (Utiltest api) b sh ah (u, p) = (Inr v, (u', p'))"
  shows "util_step u u'"
  using assms util_PreRelease_step
  by (auto simp: Utiltest_def MallocRunner_def runner_Free_def on_process_def util_hooks_def
    split: prod.splits sum.splits)

lemma util_line_step:
  assumes "util_inv u" "ref_line (Utiltest api) l M (u, p) = (Inr v, M', (u', p'))"
  shows "util_step u u'"
  using assms util_Malloc_step util_Calloc_step util_Reallocation_step util_Free_step
  by (cases l) (auto split: prod.splits sum.splits option.splits)

lemma util_PostAlloc_map:
  assumes "util_PostAlloc q sz al cal (u, p) = (Inr v, (u', p'))"
  shows "size_map u' = (q, sz) # size_map u"
proof -
  let ?t = "total_allocated_bytes u + RoundUp (effective_util u) sz"
  obtain u1 p1 where r: "RecomputeMax ?t (u\<lparr>total_allocated_bytes := ?t\<rparr>, p) = (u1, p1)" by (metis surj_pair)
  show ?thesis using assms r RecomputeMax_fields [OF r]
    by (auto simp: util_PostAlloc_def Let_def split: option.splits)
qed

lemma util_PreRelease_map:
  assumes "util_PreRelease q (u, p) = (Inr v, (u', p'))"
  shows "size_map u' = (if q = 0 then size_map u else AList.delete q (size_map u))"
proof (cases "map_of (size_map u) q")
  case None
  then show ?thesis using assms by (auto simp: util_PreRelease_def split: if_splits)
next
  case (Some sz)
  let ?t = "total_allocated_bytes u - RoundUp (effective_util u) sz"
  obtain u1 p1 where r: "RecomputeMax ?t (u\<lparr>total_allocated_bytes := ?t\<rparr>, p) = (u1, p1)" by (metis surj_pair)
  show ?thesis using assms Some r RecomputeMax_fields [OF r]
    by (auto simp: util_PreRelease_def Let_def split: if_splits)
qed

lemma util_Realloc_map:
  assumes pre: "util_PreRealloc q sz (u, p) = (Inr d, (u1, p1))"
    and post: "util_PostRealloc r q sz d (u1, p2) = (Inr v, (u', p'))"
  shows "size_map u' = (r, sz) # AList.delete q (size_map u)"
proof -
  have u1: "size_map u1 = AList.delete q (size_map u)"
    using pre by (auto simp: util_PreRealloc_def split: option.splits)
  let ?t = "total_allocated_bytes u1 + (RoundUp (effective_util u1) sz - d)"
  obtain u2 p3 where rc: "RecomputeMax ?t (u1\<lparr>total_allocated_bytes := ?t\<rparr>, p2) = (u2, p3)" by (metis surj_pair)
  show ?thesis using post rc u1 RecomputeMax_fields [OF rc]
    by (auto simp: util_PostRealloc_def Let_def split: option.splits)
qed

fun allocates :: "trace_line \<Rightarrow> bool" where
  "allocates (kFree l) = False"
| "allocates OP_NOT_SET = False"
| "allocates l = True"

definition in_ptr :: "(u64 \<Rightarrow> ptr) \<Rightarrow> trace_line \<Rightarrow> ptr" where
  "in_ptr M l = (case input_id l of None \<Rightarrow> 0 | Some i \<Rightarrow> M i)"

definition still_recorded :: "ptr \<Rightarrow> (ptr \<times> u64) list \<Rightarrow> (ptr \<times> u64) list" where
  "still_recorded q xs = (if q = 0 then xs else AList.delete q xs)"

lemma util_line_map:
  assumes "ref_line (Utiltest api) l M (u, p) = (Inr v, M', (u', p'))"
  shows "\<exists>q. size_map u' = (if allocates l then [(q, alloc_size l)] else []) @ still_recorded (in_ptr M l) (size_map u)
    \<and> M' = (case result_id l of None \<Rightarrow> M | Some i \<Rightarrow> M(i := q))"
proof (cases l)
  case (kMalloc m)
  then show ?thesis using assms util_PostAlloc_map
    by (fastforce simp: Utiltest_def MallocRunner_def runner_Malloc_def on_process_def util_hooks_def op_return_def op_fail_def
      in_ptr_def still_recorded_def split: prod.splits sum.splits if_splits)
next
  case (kCalloc m)
  then show ?thesis using assms util_PostAlloc_map
    by (fastforce simp: Utiltest_def MallocRunner_def runner_Calloc_def on_process_def util_hooks_def op_return_def op_fail_def
      in_ptr_def still_recorded_def split: prod.splits sum.splits if_splits)
next
  case l: (kRealloc m)
  let ?b = "in_ptr M l"
  show ?thesis
  proof (cases "?b = 0")
    case True
    then show ?thesis using assms util_PostAlloc_map l
      by (fastforce simp: Utiltest_def MallocRunner_def runner_Realloc_def on_process_def util_hooks_def op_return_def
        in_ptr_def still_recorded_def split: prod.splits sum.splits)
  next
    case False
    then show ?thesis using assms util_Realloc_map l
      by (fastforce simp: Utiltest_def MallocRunner_def runner_Realloc_def on_process_def util_hooks_def op_return_def
        in_ptr_def still_recorded_def split: prod.splits sum.splits)
  qed
next
  case l: (kFree m)
  then show ?thesis using assms util_PreRelease_map
    by (cases "free_input_id m") (fastforce simp: Utiltest_def MallocRunner_def runner_Free_def on_process_def util_hooks_def
      in_ptr_def still_recorded_def split: prod.splits sum.splits)+
qed (use assms in simp)


text \<open>The live blocks of a trace: each one's recorded id and its size.\<close>

definition blocks_step :: "trace_line \<Rightarrow> (u64 option \<times> u64) list \<Rightarrow> (u64 option \<times> u64) list" where
  "blocks_step l B =
     (let B = (case input_id l of None \<Rightarrow> B | Some i \<Rightarrow> AList.delete (Some i) B)
      in if allocates l then (result_id l, alloc_size l) # B else B)"

primrec block_history :: "trace_line list \<Rightarrow> (u64 option \<times> u64) list \<Rightarrow> (u64 option \<times> u64) list list" where
  "block_history [] B = []"
| "block_history (l # ls) B = blocks_step l B # block_history ls (blocks_step l B)"

definition live_blocks :: "trace_line list \<Rightarrow> (u64 option \<times> u64) list" where
  "live_blocks ls = fold blocks_step ls []"

text \<open>The bytes of the live blocks, each rounded up to its alignment when \<open>eff\<close> is set.\<close>

definition live_total :: "bool \<Rightarrow> (u64 option \<times> u64) list \<Rightarrow> u64" where
  "live_total eff B = of_nat (\<Sum>(k, sz) \<leftarrow> B.
     if \<not> eff then unat sz else if unat sz \<le> 8 then 8 else 16 * ((unat sz + 15) div 16))"

definition block_of :: "(u64 \<Rightarrow> ptr) \<Rightarrow> ptr \<times> u64 \<Rightarrow> u64 option \<times> u64 \<Rightarrow> bool" where
  "block_of M x y \<longleftrightarrow> snd x = snd y \<and> (case fst y of None \<Rightarrow> True | Some i \<Rightarrow> M i = fst x)"

lemma RoundUp_nat:
  "RoundUp eff sz = of_nat (if \<not> eff then unat sz else if unat sz \<le> 8 then 8 else 16 * ((unat sz + 15) div 16))"
proof -
  have s: "sz \<le> 8 \<longleftrightarrow> unat sz \<le> 8" by (simp add: word_le_nat_alt)
  have "(sz + 15) AND NOT 15 = of_nat (16 * ((unat sz + 15) div 16))" if "8 < unat sz"
  proof (cases "unat sz + 15 < 2 ^ 64")
    case True
    then have "unat (sz + 15) = unat sz + 15" by (simp add: unat_word_ariths)
    then have "unat ((sz + 15) AND NOT 15) = 16 * ((unat sz + 15) div 16)" by (simp only: unat_and_not_15)
    then show ?thesis by (metis of_nat_unat ucast_id)
  next
    case False
    have u: "unat (sz + 15) = unat sz + 15 - 2 ^ 64" using False unsigned_less [where 'a = nat and w = sz]
      by (simp add: unat_word_ariths mod_if)
    moreover have "unat sz + 15 - 2 ^ 64 < 16" using unsigned_less [where 'a = nat and w = sz] by simp
    ultimately have "unat ((sz + 15) AND NOT 15) = 0" unfolding unat_and_not_15 by simp
    then have z: "(sz + 15) AND NOT 15 = 0" by (simp add: unat_eq_0)
    have "(unat sz + 15) div 16 = 2 ^ 60"
      using False unsigned_less [where 'a = nat and w = sz] by (intro div_nat_eqI) simp_all
    then have "of_nat (16 * ((unat sz + 15) div 16)) = (of_nat (2 ^ 64) :: u64)" by simp
    also have "\<dots> = 0" by simp
    finally show ?thesis using z by simp
  qed
  then show ?thesis by (simp add: RoundUp_def s)
qed

lemma live_total_rel:
  assumes "list_all2 (block_of M) xs B"
  shows "sum_list (map (\<lambda>(q, sz). RoundUp eff sz) xs) = live_total eff B"
  using assms by (induction rule: list_all2_induct) (auto simp: live_total_def block_of_def RoundUp_nat)

lemma adelete_filter: "AList.delete k xs = filter (\<lambda>x. fst x \<noteq> k) xs"
  by (induction xs) auto

lemma block_of_delete:
  assumes rel: "list_all2 (block_of M) xs B" and d: "distinct (map fst xs)" and i: "Some i \<in> fst ` set B"
  shows "list_all2 (block_of M) (AList.delete (M i) xs) (AList.delete (Some i) B)"
proof -
  obtain j where j: "j < length B" "fst (B ! j) = Some i" using i by (auto simp: in_set_conv_nth)
  have l: "length xs = length B" by (rule list_all2_lengthD [OF rel])
  have r: "block_of M (xs ! k) (B ! k)" if "k < length B" for k using list_all2_nthD2 [OF rel that] .
  have e: "fst (xs ! k) = M i \<longleftrightarrow> fst (B ! k) = Some i" if k: "k < length B" for k
  proof
    assume h: "fst (xs ! k) = M i"
    have "fst (xs ! j) = M i" using r [OF j(1)] j(2) by (simp add: block_of_def)
    then have "map fst xs ! k = map fst xs ! j" using h j k l by simp
    then have "k = j" using d j k l by (simp only: nth_eq_iff_index_eq length_map)
    then show "fst (B ! k) = Some i" using j by simp
  next
    assume "fst (B ! k) = Some i"
    then show "fst (xs ! k) = M i" using r [OF k] by (simp add: block_of_def)
  qed
  have "list_all2 (\<lambda>x y. block_of M x y \<and> (fst x = M i \<longleftrightarrow> fst y = Some i)) xs B"
    unfolding list_all2_conv_all_nth using l r e by simp
  then show ?thesis unfolding adelete_filter by (induction rule: list_all2_induct) auto
qed

lemma block_of_bind:
  assumes "list_all2 (block_of M) xs B" "case k of None \<Rightarrow> True | Some i \<Rightarrow> Some i \<notin> fst ` set B"
  shows "list_all2 (block_of (case k of None \<Rightarrow> M | Some i \<Rightarrow> M(i := q))) xs B"
  using assms by (induction rule: list_all2_induct) (auto simp: block_of_def split: option.splits)

text \<open>
  The invariant: the recorded blocks are the live ones, in the same order; \<open>I\<close> are the live ids.
\<close>

definition util_rel :: "u64 set \<Rightarrow> (u64 \<Rightarrow> ptr) \<Rightarrow> util \<Rightarrow> (u64 option \<times> u64) list \<Rightarrow> bool" where
  "util_rel I M u B \<longleftrightarrow> util_inv u \<and> map_of (size_map u) 0 = None \<and> list_all2 (block_of M) (size_map u) B
     \<and> {i. Some i \<in> fst ` set B} = I"

lemma blocks_step_ids:
  assumes "live_step {i. Some i \<in> fst ` set B} l = Some I"
  shows "{i. Some i \<in> fst ` set (blocks_step l B)} = I"
    "case result_id l of None \<Rightarrow> True | Some r \<Rightarrow> Some r \<notin> fst ` set (case input_id l of None \<Rightarrow> B | Some i \<Rightarrow> AList.delete (Some i) B)"
    "case input_id l of None \<Rightarrow> True | Some i \<Rightarrow> Some i \<in> fst ` set B"
  using assms
  by (cases l; force simp: blocks_step_def live_step_def Let_def adelete_filter split: option.splits if_splits)+

lemma null_stays:
  assumes "ref_line (Utiltest api) l M (u, p) = (Inr v, M', (u', p'))" "map_of (size_map u') 0 = None"
  shows "map_of (size_map u) 0 = None"
proof -
  obtain q where q: "size_map u' = (if allocates l then [(q, alloc_size l)] else []) @ still_recorded (in_ptr M l) (size_map u)"
    using util_line_map [OF assms(1)] by blast
  then have "map_of (still_recorded (in_ptr M l) (size_map u)) 0 = None" using assms(2) by (auto split: if_splits)
  then show ?thesis by (auto simp: still_recorded_def AList.delete_conv' split: if_splits)
qed

lemma null_stays_lines:
  "ref_lines (Utiltest api) ls M (u, p) = (Inr v, M', (u', p')) \<Longrightarrow> map_of (size_map u') 0 = None \<Longrightarrow> map_of (size_map u) 0 = None"
proof (induction ls arbitrary: u p M)
  case (Cons l ls)
  obtain r1 M1 u1 p1 where e: "ref_line (Utiltest api) l M (u, p) = (r1, M1, (u1, p1))" by (metis surj_pair)
  obtain w where r1: "r1 = Inr w" using Cons.prems(1) e by (cases r1) auto
  have "ref_lines (Utiltest api) ls M1 (u1, p1) = (Inr v, M', (u', p'))" using Cons.prems(1) e r1 by simp
  from Cons.IH [OF this Cons.prems(2)] show ?case by (rule null_stays [OF e [unfolded r1]])
qed simp

lemma util_rel_line:
  assumes rel: "util_rel I M u B" and l: "live_step I l = Some I'"
    and e: "ref_line (Utiltest api) l M (u, p) = (Inr v, M', (u', p'))" and n: "map_of (size_map u') 0 = None"
  shows "util_rel I' M' u' (blocks_step l B)"
proof -
  let ?B = "case input_id l of None \<Rightarrow> B | Some i \<Rightarrow> AList.delete (Some i) B"
  have r: "util_inv u" "map_of (size_map u) 0 = None" "list_all2 (block_of M) (size_map u) B" "{i. Some i \<in> fst ` set B} = I"
    using rel by (simp_all add: util_rel_def)
  note ids = blocks_step_ids [of B l I', unfolded r(4), OF l]
  have d: "distinct (map fst (size_map u))" using r(1) by (simp add: util_inv_def)
  obtain q where q: "size_map u' = (if allocates l then [(q, alloc_size l)] else []) @ still_recorded (in_ptr M l) (size_map u)"
    "M' = (case result_id l of None \<Rightarrow> M | Some i \<Rightarrow> M(i := q))" using util_line_map [OF e] by blast
  have k: "list_all2 (block_of M) (still_recorded (in_ptr M l) (size_map u)) ?B"
  proof (cases "input_id l")
    case None
    then show ?thesis using r(3) by (simp add: in_ptr_def still_recorded_def)
  next
    case (Some i)
    then have i: "Some i \<in> fst ` set B" using ids(3) by simp
    have "M i \<noteq> 0"
    proof
      assume z: "M i = 0"
      have "list_all2 (block_of M) (AList.delete 0 (size_map u)) (AList.delete (Some i) B)"
        using block_of_delete [OF r(3) d i] z by simp
      moreover have "AList.delete 0 (size_map u) = size_map u"
        using r(2) by (intro AList.delete_id) (simp add: map_of_eq_None_iff)
      ultimately have "length (AList.delete (Some i) B) = length B" using r(3) list_all2_lengthD by metis
      moreover obtain y where "y \<in> set B" "\<not> fst y \<noteq> Some i" using i by auto
      then have "length (filter (\<lambda>x. fst x \<noteq> Some i) B) < length B" by (rule length_filter_less)
      ultimately show False by (simp add: adelete_filter)
    qed
    then show ?thesis using block_of_delete [OF r(3) d i] Some by (simp add: in_ptr_def still_recorded_def)
  qed
  have "list_all2 (block_of M') (still_recorded (in_ptr M l) (size_map u)) ?B"
    unfolding q(2) by (rule block_of_bind [OF k ids(2)])
  then have "list_all2 (block_of M') (size_map u') (blocks_step l B)"
    unfolding q(1) blocks_step_def Let_def by (auto simp: block_of_def q(2) split: option.splits)
  moreover have "util_inv u'" using util_line_step [OF r(1) e] by (simp add: util_step_def)
  ultimately show ?thesis using n ids(1) by (simp add: util_rel_def)
qed

lemma util_peak_lines:
  assumes "util_rel I M u B" "live_run I ls = Some I'"
    and "ref_lines (Utiltest api) ls M (u, p) = (Inr v, M', (u', p'))" "map_of (size_map u') 0 = None"
  shows "util_rel I' M' u' (fold blocks_step ls B) \<and> effective_util u' = effective_util u
    \<and> max_allocated_bytes u' = fold max (map (live_total (effective_util u)) (block_history ls B)) (max_allocated_bytes u)"
  using assms
proof (induction ls arbitrary: u p M I B)
  case (Cons l ls)
  obtain r1 M1 u1 p1 where e: "ref_line (Utiltest api) l M (u, p) = (r1, M1, (u1, p1))" by (metis surj_pair)
  obtain w where r1: "r1 = Inr w" using Cons.prems(3) e by (cases r1) auto
  have rest: "ref_lines (Utiltest api) ls M1 (u1, p1) = (Inr v, M', (u', p'))" using Cons.prems(3) e r1 by simp
  have n: "map_of (size_map u1) 0 = None" by (rule null_stays_lines [OF rest Cons.prems(4)])
  obtain I1 where I1: "live_step I l = Some I1" "live_run I1 ls = Some I'"
    using Cons.prems(2) by (auto split: Option.bind_splits)
  have rel: "util_rel I1 M1 u1 (blocks_step l B)"
    by (rule util_rel_line [OF Cons.prems(1) I1(1) e [unfolded r1] n])
  have s: "util_step u u1" by (rule util_line_step [OF _ e [unfolded r1]]) (use Cons.prems(1) in \<open>simp add: util_rel_def\<close>)
  have "total_allocated_bytes u1 = live_total (effective_util u) (blocks_step l B)"
    using rel s live_total_rel [of M1 "size_map u1" "blocks_step l B"] by (simp add: util_rel_def util_inv_def util_step_def)
  then show ?case using Cons.IH [OF rel I1(2) rest Cons.prems(4)] s by (simp add: util_step_def max.commute)
qed simp

text \<open>C38: When a trace, each line of which uses its ids in the right order, has run without error
  and the allocator has handed out no null pointer, the utilisation test's count of
  allocated bytes is, modulo 2^64, the sum of the rounded sizes of the blocks that the
  trace's own lines leave live, and its maximum is the largest such sum after any line,
  whatever addresses the allocator chose.\<close>

theorem util_counts_peak:
  assumes "replay (Utiltest api) ls (new_util eff, p) = (Inr (), (u, p'))"
    and "live_run {} ls = Some I" and "map_of (size_map u) 0 = None"
  shows "total_allocated_bytes u = live_total eff (live_blocks ls)
    \<and> max_allocated_bytes u = fold max (map (live_total eff) (block_history ls [])) 0"
proof -
  have i: "util_rel {} (\<lambda>_. 0) (new_util eff) []" by (simp add: util_rel_def util_inv_def new_util_def)
  obtain M' where r: "ref_lines (Utiltest api) ls (\<lambda>_. 0) (new_util eff, p) = (Inr (), M', (u, p'))"
    using assms(1) by (auto simp: replay_def split: prod.splits)
  have e: "effective_util (new_util eff) = eff" "max_allocated_bytes (new_util eff) = 0" by (simp_all add: new_util_def)
  note P = util_peak_lines [OF i assms(2) r assms(3), unfolded e, folded live_blocks_def]
  then have "total_allocated_bytes u = live_total eff (live_blocks ls)"
    using live_total_rel [of M' "size_map u" "live_blocks ls"] by (simp add: util_rel_def util_inv_def)
  then show ?thesis using P by blast
qed

definition one_block :: "process bench_api" where
  "one_block = \<lparr>bench_initialize_heap = op_return (), bench_malloc = \<lambda>sz al. op_return 4096,
     bench_calloc = \<lambda>n sz. op_return 4096, bench_realloc = \<lambda>q sz. op_return 4096,
     bench_free = \<lambda>q sz al. op_return (), bench_get_size = \<lambda>q. op_return 0\<rparr>"

definition util_trace :: "trace_line list" where
  "util_trace =
     [kMalloc \<lparr>malloc_result_id = Some 0, malloc_input_size = Some 24, malloc_input_alignment = None\<rparr>,
      kRealloc \<lparr>realloc_result_id = Some 1, realloc_input_id = Some 0, realloc_input_size = Some 40\<rparr>,
      kFree \<lparr>free_input_id = Some 1, free_input_size_hint = None, free_input_alignment_hint = None\<rparr>]"

lemma util_trace_runs:
  "replay (Utiltest one_block) util_trace (new_util True, \<lparr>heap_objects = [], factory_heaps = [], g_heap = 0\<rparr>)
     = (Inr (), (\<lparr>effective_util = True, size_map = [], total_allocated_bytes = 0, max_allocated_bytes = 48, max_heap_size = 0\<rparr>,
        \<lparr>heap_objects = [], factory_heaps = [], g_heap = 0\<rparr>))"
  by code_simp

theorem util_counts_peak_witness:
  "total_allocated_bytes (fst (snd (replay (Utiltest one_block) util_trace
       (new_util True, \<lparr>heap_objects = [], factory_heaps = [], g_heap = 0\<rparr>)))) = live_total True (live_blocks util_trace)
   \<and> fold max (map (live_total True) (block_history util_trace [])) 0 = 48"
proof -
  have "live_run {} util_trace = Some {}" by (simp add: util_trace_def live_step_def)
  from util_counts_peak [OF util_trace_runs this] show ?thesis by (simp add: util_trace_runs)
qed

text \<open>An allocator that returns null for a size of zero cannot be asked for it twice.\<close>

lemma util_zero_conflict:
  assumes "bench_malloc api 0 0 p = (Inr 0, p')" and "map_of (size_map u) 0 = Some old"
  shows "\<exists>args s. Malloc (Utiltest api) 0 None (u, p)
    = (Inl (failed '' Allocated pointer conflicts with existing allocation'' args), s)"
proof -
  let ?t = "total_allocated_bytes u + RoundUp (effective_util u) 0"
  obtain u1 p1 where r: "RecomputeMax ?t (u\<lparr>total_allocated_bytes := ?t\<rparr>, p') = (u1, p1)" by (metis surj_pair)
  note f = RecomputeMax_fields [OF r]
  show ?thesis using assms r f
    by (simp add: Utiltest_def MallocRunner_def runner_Malloc_def on_process_def util_hooks_def value_or_def
      util_PostAlloc_def Let_def)
qed

end
