(* ===== verification/Driver.thy ===== *)
theory Driver
  imports Harness Utiltest "HOL-Library.Sublist" "HOL-Library.List_Lexorder" "HOL-Library.Char_ord"
begin

section \<open>The driver\<close>

text \<open>
  \<^verbatim>\<open>src/driver.cc\<close> with \<^verbatim>\<open>Perftest::TimeTrace\<close>: which traces are run, what one trace's result is
  made of, when the run is aborted, and the score. What the program reads from outside is
  the record \<open>env\<close>: the directory, the decoded trace files, the random numbers of the
  checker, the uninitialised contents of the executor's arrays and the measured throughput.
  A \<^verbatim>\<open>double\<close> is a real number (no rounding); a member that is not initialised is \<open>None\<close>.
  Printing is left out. \<open>None\<close> as a result is a run that does not return or that is killed by
  a signal; a status \<open>Ended (Some c)\<close> is a run that called \<^verbatim>\<open>exit(c)\<close>, which nothing absorbs.
\<close>

record flags =
  trace_flag :: string
  skip_correctness :: bool
  ignore_test :: bool
  ignore_hard :: bool
  perftest_iters :: u64
  effective_util_flag :: bool

record env =
  traces_dir :: "string list"
  open_trace :: "string \<Rightarrow> trace_line list status_or"
  thread_rng :: "string \<Rightarrow> nat \<Rightarrow> u64"
  stack_junk :: "string \<Rightarrow> nat \<Rightarrow> nat \<Rightarrow> ptr list"
  throughput :: "string \<Rightarrow> u64 \<Rightarrow> real"

record trace_result =
  result_trace :: string
  result_correct :: bool
  result_mega_ops :: "real option"
  result_utilization :: "rat option"

definition ShouldIgnoreForScoring :: "string \<Rightarrow> bool" where
  "ShouldIgnoreForScoring tr \<longleftrightarrow> sublist ''simple'' tr \<or> sublist ''test'' tr \<or> sublist ''/bdd-'' tr
     \<or> sublist ''/cbit-'' tr \<or> sublist ''/syn-'' tr \<or> sublist ''/ngram-'' tr \<or> sublist ''/server.trace'' tr"

definition IsHard :: "string \<Rightarrow> bool" where
  "IsHard tr \<longleftrightarrow> sublist ''/gto.trace'' tr"

subsection \<open>One trace\<close>

definition Check :: "process bench_api \<Rightarrow> trace_line list \<Rightarrow> (nat \<Rightarrow> u64) \<Rightarrow> (nat \<Rightarrow> ptr list) \<Rightarrow> process
    \<Rightarrow> (unit status_or \<times> process) option" where
  "Check api ls rng junk p = do {
     (r, s) \<leftarrow> Run (CorrectnessChecker api) ls junk (new_checker rng, p);
     Some (r, snd s)
   }"

definition TimeTrace :: "process bench_api \<Rightarrow> trace_line list \<Rightarrow> u64 \<Rightarrow> (nat \<Rightarrow> ptr list) \<Rightarrow> (u64 \<Rightarrow> real)
    \<Rightarrow> process \<Rightarrow> (real status_or \<times> process) option" where
  "TimeTrace api ls min_desired_ops junk speed p =
     (let reader_size = of_nat (length ls) in
      if reader_size = 0 then None
      else do {
        let num_repetitions = (min_desired_ops - 1) div reader_size + 1;
        (r, s) \<leftarrow> RunRepeated (MallocRunner True api perftest_hooks) ls num_repetitions junk ((), p);
        let total_ops = num_repetitions * reader_size;
        Some (case r of Inl e \<Rightarrow> Inl e | Inr _ \<Rightarrow> Inr (speed total_ops), snd s)
      })"

definition MeasureUtilization :: "process bench_api \<Rightarrow> trace_line list \<Rightarrow> bool \<Rightarrow> (nat \<Rightarrow> ptr list) \<Rightarrow> process
    \<Rightarrow> (rat status_or \<times> process) option" where
  "MeasureUtilization api ls eff junk p = do {
     (r, s) \<leftarrow> Run (Utiltest api) ls junk (new_util eff, p);
     Some (case r of Inl e \<Rightarrow> Inl e | Inr _ \<Rightarrow> ComputeUtilization (fst s), snd s)
   }"

definition perf_util :: "flags \<Rightarrow> env \<Rightarrow> process bench_api \<Rightarrow> string \<Rightarrow> trace_line list \<Rightarrow> process
    \<Rightarrow> ((real \<times> rat) status_or \<times> process) option" where
  "perf_util F E api tracefile ls p = do {
     (mega_ops, p) \<leftarrow> TimeTrace api ls (perftest_iters F) (stack_junk E tracefile 1) (throughput E tracefile) p;
     case mega_ops of
       Inl e \<Rightarrow> Some (Inl e, p)
     | Inr mega_ops \<Rightarrow> do {
         (u, p) \<leftarrow> MeasureUtilization api ls (effective_util_flag F) (stack_junk E tracefile 2) p;
         Some (case u of Inl e \<Rightarrow> Inl e | Inr utilization \<Rightarrow> Inr (mega_ops, utilization), p)
       }
   }"

definition measure_trace :: "flags \<Rightarrow> env \<Rightarrow> process bench_api \<Rightarrow> string \<Rightarrow> trace_line list \<Rightarrow> trace_result \<Rightarrow> process
    \<Rightarrow> (trace_result status_or \<times> process) option" where
  "measure_trace F E api tracefile ls result p =
     (if result_correct result then do {
        (r, p) \<leftarrow> perf_util F E api tracefile ls p;
        Some (case r of
            Inl e \<Rightarrow> if ended r then Inl e else Inr (result\<lparr>result_correct := False\<rparr>)
          | Inr (mega_ops, utilization) \<Rightarrow>
              Inr (result\<lparr>result_mega_ops := Some mega_ops, result_utilization := Some utilization\<rparr>), p)
      } else Some (Inr result, p))"

definition RunTrace :: "flags \<Rightarrow> env \<Rightarrow> process bench_api \<Rightarrow> string \<Rightarrow> process
    \<Rightarrow> (trace_result status_or \<times> process) option" where
  "RunTrace F E api tracefile p =
     (let result = \<lparr>result_trace = tracefile, result_correct = False, result_mega_ops = None,
                    result_utilization = None\<rparr> in
      case open_trace E tracefile of
        Inl e \<Rightarrow> Some (Inl e, p)
      | Inr ls \<Rightarrow>
          if skip_correctness F
          then measure_trace F E api tracefile ls (result\<lparr>result_correct := True\<rparr>) p
          else do {
            (status, p) \<leftarrow> Check api ls (thread_rng E tracefile) (stack_junk E tracefile 0) p;
            case status of
              Inr _ \<Rightarrow> measure_trace F E api tracefile ls (result\<lparr>result_correct := True\<rparr>) p
            | Inl e \<Rightarrow>
                if \<not> IsFailedTestStatus e then Some (Inl e, p)
                else measure_trace F E api tracefile ls (result\<lparr>result_correct := False\<rparr>) p
          })"

subsection \<open>All traces\<close>

definition ListTracefiles :: "env \<Rightarrow> string list" where
  "ListTracefiles E = sort (filter (suffix ''.trace'') (traces_dir E))"

definition skipped :: "flags \<Rightarrow> string \<Rightarrow> bool" where
  "skipped F tracefile \<longleftrightarrow> ignore_test F \<and> ShouldIgnoreForScoring tracefile \<or> ignore_hard F \<and> IsHard tracefile"

fun run_traces :: "flags \<Rightarrow> env \<Rightarrow> process bench_api \<Rightarrow> string list \<Rightarrow> trace_result list \<Rightarrow> process
    \<Rightarrow> (trace_result list status_or \<times> process) option" where
  "run_traces F E api [] results p = Some (Inr results, p)"
| "run_traces F E api (tracefile # files) results p =
     (if skipped F tracefile then run_traces F E api files results p
      else do {
        (result, p) \<leftarrow> RunTrace F E api tracefile p;
        case result of
          Inl e \<Rightarrow> Some (Inl e, p)
        | Inr result \<Rightarrow> run_traces F E api files (results @ [result]) p
      })"

text \<open>The numbers that \<^verbatim>\<open>PrintTestResults\<close> prints at the end.\<close>

definition counted :: "trace_result \<Rightarrow> bool" where
  "counted result \<longleftrightarrow> result_correct result \<and> \<not> ShouldIgnoreForScoring (result_trace result)"

definition clamp :: "real \<Rightarrow> real \<Rightarrow> real \<Rightarrow> real" where
  "clamp v lo hi = (if v < lo then lo else if hi < v then hi else v)"

record summary =
  all_correct :: bool
  average_util :: real
  average_mops :: real
  score :: real

definition totals :: "trace_result list \<Rightarrow> bool \<times> u32 \<times> real \<times> real" where
  "totals results =
     (let n_correct = (of_nat (length (filter counted results)) :: u32);
          total_util = sum_list (map (\<lambda>r. of_rat (the (result_utilization r))) (filter counted results));
          total_mops_geom = fold (\<lambda>r acc. acc * (the (result_mega_ops r) powr (1 / real (unat n_correct))))
                              (filter counted results) 1
      in (list_all result_correct results, n_correct, total_util, total_mops_geom))"

definition summarize :: "bool \<times> u32 \<times> real \<times> real \<Rightarrow> summary" where
  "summarize t = (case t of (correct, n_correct, total_util, total_mops_geom) \<Rightarrow>
     let n_correct = max n_correct 1;
         util_score = clamp ((total_util / real (unat n_correct) - 0.55) / (0.875 - 0.55)) 0 1;
         ops_score = clamp ((ln total_mops_geom - ln 40) / (ln 100 - ln 40)) 0 1
     in \<lparr>all_correct = correct, average_util = total_util / real (unat n_correct),
         average_mops = total_mops_geom,
         score = (if correct then 0.5 * util_score + 0.5 * ops_score else 0)\<rparr>)"

definition PrintTestResults :: "trace_result list \<Rightarrow> summary" where
  "PrintTestResults results = summarize (totals results)"

text \<open>How a run that reports a status ends: with -1, unless the process has ended already.\<close>

fun exit_code :: "error \<Rightarrow> int option" where
  "exit_code (Ended c) = c"
| "exit_code _ = Some (- 1)"

definition RunAllTraces :: "flags \<Rightarrow> env \<Rightarrow> process bench_api \<Rightarrow> process \<Rightarrow> (int \<times> summary option) option" where
  "RunAllTraces F E api p = do {
     (results, p) \<leftarrow> run_traces F E api (ListTracefiles E) [] p;
     case results of
       Inl e \<Rightarrow> map_option (\<lambda>c. (c, None)) (exit_code e)
     | Inr rs \<Rightarrow> Some (0, Some (PrintTestResults rs))
   }"

definition StripSuffix :: "string \<Rightarrow> string \<Rightarrow> string" where
  "StripSuffix s x = (if suffix x s then take (length s - length x) s else s)"

definition driver_main :: "flags \<Rightarrow> env \<Rightarrow> process bench_api \<Rightarrow> process \<Rightarrow> int option" where
  "driver_main F E api p =
     (let tracefile = StripSuffix (trace_flag F) ''.gz'' in
      if tracefile = [] then map_option fst (RunAllTraces F E api p)
      else do {
        (result, p) \<leftarrow> RunTrace F E api tracefile p;
        case result of Inl e \<Rightarrow> exit_code e | Inr _ \<Rightarrow> Some 0
      })"

subsection \<open>What the results mean\<close>

text \<open>A result is measured when it has its measures exactly if it is marked correct.\<close>

definition measured :: "trace_result \<Rightarrow> bool" where
  "measured r \<longleftrightarrow> (result_correct r \<longleftrightarrow> result_mega_ops r \<noteq> None) \<and> (result_correct r \<longleftrightarrow> result_utilization r \<noteq> None)"

lemma measure_trace_complete:
  assumes "measure_trace F E api f ls r p = Some (x, p')"
    and "result_mega_ops r = None" "result_utilization r = None"
  shows "(\<exists>c. x = Inl (Ended c) \<and> result_correct r \<and> perf_util F E api f ls p = Some (Inl (Ended c), p'))
    \<or> (\<exists>r'. x = Inr r' \<and> measured r' \<and> result_trace r' = result_trace r
    \<and> (result_correct r' \<longleftrightarrow> result_correct r \<and> (\<exists>v p''. perf_util F E api f ls p = Some (Inr v, p''))))"
proof (cases "result_correct r")
  case True
  then obtain v where v: "perf_util F E api f ls p = Some (v, p')"
      "x = (case v of Inl e \<Rightarrow> if ended v then Inl e else Inr (r\<lparr>result_correct := False\<rparr>)
        | Inr (mo, u) \<Rightarrow> Inr (r\<lparr>result_mega_ops := Some mo, result_utilization := Some u\<rparr>))"
    using assms(1) by (auto simp: measure_trace_def bind_eq_Some_conv)
  show ?thesis
  proof (cases v)
    case (Inl e)
    then show ?thesis using v True assms(2,3) by (cases "ended v") (auto simp: ended_iff measured_def)
  next
    case (Inr w)
    then show ?thesis using v True assms(2,3) by (cases w) (auto simp: measured_def)
  qed
next
  case False
  then show ?thesis using assms by (auto simp: measure_trace_def measured_def)
qed

text \<open>
  A result of \<^verbatim>\<open>RunTrace\<close> names its trace, is marked correct exactly when the checker was
  skipped or passed and both measurements succeeded, and has its measures exactly then. The
  run gives an error instead only when the file cannot be opened, the checker failed for
  another reason than a failed test, or a measurement ended the process.
\<close>

definition passed :: "flags \<Rightarrow> env \<Rightarrow> process bench_api \<Rightarrow> string \<Rightarrow> trace_line list \<Rightarrow> process \<Rightarrow> process \<Rightarrow> bool" where
  "passed F E api f ls p q \<longleftrightarrow> (if skip_correctness F then q = p
     else Check api ls (thread_rng E f) (stack_junk E f 0) p = Some (Inr (), q))"

lemma run_trace_verdict:
  assumes "RunTrace F E api f p = Some (x, p')"
  shows "case x of
     Inl e \<Rightarrow> open_trace E f = Inl e
       \<or> (\<exists>ls. open_trace E f = Inr ls \<and> \<not> skip_correctness F \<and> \<not> IsFailedTestStatus e
            \<and> Check api ls (thread_rng E f) (stack_junk E f 0) p = Some (Inl e, p'))
       \<or> (\<exists>ls q c. open_trace E f = Inr ls \<and> passed F E api f ls p q \<and> e = Ended c
            \<and> perf_util F E api f ls q = Some (Inl e, p'))
   | Inr r \<Rightarrow> measured r \<and> result_trace r = f \<and> (\<exists>ls. open_trace E f = Inr ls
       \<and> (result_correct r \<longleftrightarrow> (\<exists>q. passed F E api f ls p q \<and> (\<exists>v q'. perf_util F E api f ls q = Some (Inr v, q')))))"
proof (cases "open_trace E f")
  case (Inl e)
  then show ?thesis using assms by (auto simp: RunTrace_def)
next
  case (Inr ls)
  let ?r = "\<lambda>b. \<lparr>result_trace = f, result_correct = b, result_mega_ops = None, result_utilization = None\<rparr>"
  have M: "(\<exists>c. x = Inl (Ended c) \<and> b \<and> perf_util F E api f ls q = Some (Inl (Ended c), p'))
      \<or> (\<exists>r'. x = Inr r' \<and> measured r' \<and> result_trace r' = f
          \<and> (result_correct r' \<longleftrightarrow> b \<and> (\<exists>v q'. perf_util F E api f ls q = Some (Inr v, q'))))"
    if "measure_trace F E api f ls (?r b) q = Some (x, p')" for q b
    using measure_trace_complete [OF that] by simp
  show ?thesis
  proof (cases "skip_correctness F")
    case True
    then have m: "measure_trace F E api f ls (?r True) p = Some (x, p')" using assms Inr by (simp add: RunTrace_def)
    from M [OF m] True Inr show ?thesis by (auto simp: passed_def)
  next
    case False
    then obtain s q where c: "Check api ls (thread_rng E f) (stack_junk E f 0) p = Some (s, q)"
      using assms Inr by (auto simp: RunTrace_def Let_def bind_eq_Some_conv)
    show ?thesis
    proof (cases s)
      case s: (Inr u)
      then have m: "measure_trace F E api f ls (?r True) q = Some (x, p')" using assms Inr c False by (simp add: RunTrace_def)
      from M [OF m] False Inr c s show ?thesis by (auto simp: passed_def)
    next
      case s: (Inl e)
      show ?thesis
      proof (cases "IsFailedTestStatus e")
        case True
        then have m: "measure_trace F E api f ls (?r False) q = Some (x, p')" using assms Inr c False s by (simp add: RunTrace_def)
        from M [OF m] False Inr c s show ?thesis by (auto simp: passed_def)
      next
        case nf: False
        then show ?thesis using assms Inr c False s by (auto simp: RunTrace_def)
      qed
    qed
  qed
qed

text \<open>A result in the table, for the process \<open>p\<close> in which its trace was run.\<close>

definition verdict :: "flags \<Rightarrow> env \<Rightarrow> process bench_api \<Rightarrow> trace_result \<Rightarrow> bool" where
  "verdict F E api r \<longleftrightarrow> measured r \<and> (\<exists>ls p. open_trace E (result_trace r) = Inr ls
     \<and> (result_correct r \<longleftrightarrow> (\<exists>q. passed F E api (result_trace r) ls p q
          \<and> (\<exists>v q'. perf_util F E api (result_trace r) ls q = Some (Inr v, q')))))"

lemma run_traces_results:
  assumes "run_traces F E api files rs p = Some (Inr rs', p')"
  shows "\<exists>new. rs' = rs @ new \<and> map result_trace new = filter (\<lambda>f. \<not> skipped F f) files \<and> (\<forall>r \<in> set new. verdict F E api r)"
  using assms
proof (induction files arbitrary: rs p)
  case (Cons f files)
  show ?case
  proof (cases "skipped F f")
    case True
    then show ?thesis using Cons by simp
  next
    case False
    then obtain x q where x: "RunTrace F E api f p = Some (x, q)" using Cons.prems by (auto simp: bind_eq_Some_conv)
    then obtain r where r: "x = Inr r" "run_traces F E api files (rs @ [r]) q = Some (Inr rs', p')"
      using Cons.prems False by (cases x) auto
    have v: "measured r" "result_trace r = f" "\<exists>ls. open_trace E f = Inr ls \<and> (result_correct r \<longleftrightarrow>
        (\<exists>q. passed F E api f ls p q \<and> (\<exists>v q'. perf_util F E api f ls q = Some (Inr v, q'))))"
      using run_trace_verdict [OF x] unfolding r(1) by simp_all
    have "verdict F E api r" unfolding verdict_def v(2) using v(1,3) by blast
    then show ?thesis using Cons.IH [OF r(2)] v(2) False by auto
  qed
qed simp

text \<open>C27: When the driver reports a table, it has exactly one result for every trace file that the
  flags select, in the order of their names; a result is marked correct exactly if the
  correctness check (unless the flags skip it) and both measurements of its decoded trace
  succeeded, and has its throughput and utilisation exactly then. In particular every
  selected trace could be opened.\<close>

theorem run_all_traces_complete:
  assumes "run_traces F E api (ListTracefiles E) [] p = Some (Inr rs, p')"
  shows "map result_trace rs = sort (filter (\<lambda>f. suffix ''.trace'' f \<and> \<not> skipped F f) (traces_dir E)) \<and> list_all (verdict F E api) rs"
  using run_traces_results [OF assms] by (auto simp: ListTracefiles_def filter_sort list_all_iff conj_commute)

text \<open>
  Two selected traces over the bump allocator: the checker and both measurements succeed on
  the first one; on the second one the checker fails, because the allocator ignores the
  alignment.
\<close>

definition driver_flags :: flags where
  "driver_flags = \<lparr>trace_flag = [], skip_correctness = False, ignore_test = False, ignore_hard = True,
     perftest_iters = 3, effective_util_flag = False\<rparr>"

definition good_trace :: "trace_line list" where
  "good_trace =
     [kMalloc \<lparr>malloc_result_id = Some 5, malloc_input_size = Some 3, malloc_input_alignment = None\<rparr>,
      kFree \<lparr>free_input_id = Some 5, free_input_size_hint = None, free_input_alignment_hint = None\<rparr>]"

definition skewed_trace :: "trace_line list" where
  "skewed_trace =
     [kMalloc \<lparr>malloc_result_id = None, malloc_input_size = Some 1, malloc_input_alignment = None\<rparr>,
      kMalloc \<lparr>malloc_result_id = None, malloc_input_size = Some 1, malloc_input_alignment = Some 32\<rparr>]"

definition driver_env :: env where
  "driver_env = \<lparr>traces_dir = [''traces/b.trace'', ''traces/gto.trace'', ''traces/README'', ''traces/a.trace''],
     open_trace = \<lambda>f. if f = ''traces/a.trace'' then Inr good_trace else Inr skewed_trace,
     thread_rng = \<lambda>_ n. of_nat n, stack_junk = \<lambda>_ _ _. replicate 512 0, throughput = \<lambda>_ _. 1\<rparr>"

text \<open>\<^verbatim>\<open>InitializeHeap\<close> always leaves the same process.\<close>

definition emptied :: "process \<Rightarrow> bool" where
  "emptied p \<longleftrightarrow> list_all (\<lambda>(k, m). k \<in> set (factory_heaps p)) (heap_objects p)"

definition started :: process where
  "started = \<lparr>heap_objects = [(0x500, Heap_new 0x1000 kHeapSize (\<lambda>_. 0))], factory_heaps = [0x500], g_heap = 0x500\<rparr>"

lemma run_started:
  assumes p: "emptied p" and ls: "trace_ok ls" "list_all sets_id ls" "length ls < 2 ^ 8" "unat N < 2 ^ 8"
    and junk: "junk = (\<lambda>_. replicate 512 0)"
  shows "RunRepeated (MallocRunner pf (bump demo_os) H) ls N junk (x, p)
    = Some (replay (MallocRunner pf (bump demo_os) H) (concat (replicate (unat N) ls)) (x, started))"
proof -
  let ?A = "MallocRunner pf (bump demo_os) H"
  have "heap_objects (Reset p) = []"
    using p by (auto simp: emptied_def Reset_def filter_empty_conv list_all_iff)
  then have i: "InitializeHeap ?A (x, p) = (Inr (), (x, started))"
    by (simp add: MallocRunner_def runner_InitializeHeap_def on_process_def bump_def initialize_heap_def
      NewInstance_def MakeHeap_def MMapHeap_New_def demo_os_def set_heap_def started_def Reset_def)
  have c: "CleanupHeap ?A h = (Inr (), h)" for h
    by (simp add: MallocRunner_def runner_CleanupHeap_def op_return_def)
  have "unat N * length ls \<le> 2 ^ 8 * 2 ^ 8" by (rule mult_le_mono) (use ls(3,4) in simp_all)
  then have "ProcessTracefile ?A ls N junk (x, started)
      = Some (replay ?A (concat (replicate (unat N) ls)) (x, started))"
    by (intro process_tracefile_ok ls(1,2)) (use ls(3) in \<open>simp_all add: junk kBatchSize_def\<close>)
  then show ?thesis by (cases "replay ?A (concat (replicate (unat N) ls)) (x, started)") (simp add: RunRepeated_def i c)
qed

lemma demo_traces:
  "trace_ok good_trace" "list_all sets_id good_trace" "length good_trace = 2"
  "trace_ok skewed_trace" "list_all sets_id skewed_trace" "length skewed_trace = 2"
  by (auto simp: good_trace_def skewed_trace_def trace_ok_def live_step_def)

lemma good_check: "case replay (CorrectnessChecker (bump demo_os)) good_trace (new_checker (\<lambda>n. of_nat n), started) of
    (r, s) \<Rightarrow> r = Inr () \<and> emptied (snd s)"
  by code_simp

lemma good_perf: "case replay (MallocRunner True (bump demo_os) perftest_hooks) (good_trace @ good_trace) ((), started) of
    (r, s) \<Rightarrow> r = Inr () \<and> emptied (snd s)"
  by code_simp

lemma good_util: "case replay (Utiltest (bump demo_os)) good_trace (new_util False, started) of
    (r, s) \<Rightarrow> r = Inr () \<and> emptied (snd s) \<and> (case ComputeUtilization (fst s) of Inl _ \<Rightarrow> False | Inr _ \<Rightarrow> True)"
  by code_simp

lemma skewed_check: "case replay (CorrectnessChecker (bump demo_os)) skewed_trace (new_checker (\<lambda>n. of_nat n), started) of
    (r, s) \<Rightarrow> (case r of Inl e \<Rightarrow> IsFailedTestStatus e | Inr _ \<Rightarrow> False) \<and> emptied (snd s)"
  by code_simp

lemma good_result: "\<exists>mo u p'. emptied p \<longrightarrow> emptied p' \<and>
  RunTrace driver_flags driver_env (bump demo_os) ''traces/a.trace'' p = Some (Inr \<lparr>result_trace = ''traces/a.trace'',
    result_correct = True, result_mega_ops = Some mo, result_utilization = Some u\<rparr>, p')"
proof (cases "emptied p")
  case p: True
  note run = run_started [where junk = "\<lambda>_. replicate 512 0", OF _ demo_traces(1,2) _ _ refl]
  obtain c p1 where c: "replay (CorrectnessChecker (bump demo_os)) good_trace (new_checker (\<lambda>n. of_nat n), started) = (Inr (), (c, p1))"
    "emptied p1" using good_check by (auto split: prod.splits)
  obtain x p2 where t: "replay (MallocRunner True (bump demo_os) perftest_hooks) (good_trace @ good_trace) ((), started) = (Inr (), (x, p2))"
    "emptied p2" using good_perf by (auto split: prod.splits)
  obtain y p3 u where u: "replay (Utiltest (bump demo_os)) good_trace (new_util False, started) = (Inr (), (y, p3))"
    "emptied p3" "ComputeUtilization y = Inr u" using good_util by (auto split: prod.splits sum.splits)
  have C: "Check (bump demo_os) good_trace (\<lambda>n. of_nat n) (\<lambda>_. replicate 512 0) p = Some (Inr (), p1)"
    using run [OF p, of 1 False checker_hooks] c(1) demo_traces(3) by (simp add: Check_def Run_def CorrectnessChecker_def)
  have r2: "replicate 2 ls = [ls, ls]" for ls :: "trace_line list" by (simp add: numeral_2_eq_2)
  have T: "TimeTrace (bump demo_os) good_trace 3 (\<lambda>_. replicate 512 0) (\<lambda>_. 1) p1 = Some (Inr 1, p2)"
    using run [OF c(2), of 2 True perftest_hooks "()"] t(1) demo_traces(3)
    by (simp add: TimeTrace_def Let_def r2)
  have U: "MeasureUtilization (bump demo_os) good_trace False (\<lambda>_. replicate 512 0) p2 = Some (Inr u, p3)"
    using run [OF t(2), of 1 False util_hooks "new_util False"] u(1,3) demo_traces(3)
    by (simp add: MeasureUtilization_def Run_def Utiltest_def)
  show ?thesis
    using C T U u(2) by (simp add: RunTrace_def driver_flags_def driver_env_def measure_trace_def perf_util_def)
qed simp

lemma skewed_result: "\<exists>p'. emptied p \<longrightarrow>
  RunTrace driver_flags driver_env (bump demo_os) ''traces/b.trace'' p = Some (Inr \<lparr>result_trace = ''traces/b.trace'',
    result_correct = False, result_mega_ops = None, result_utilization = None\<rparr>, p')"
proof (cases "emptied p")
  case p: True
  obtain e s where c: "replay (CorrectnessChecker (bump demo_os)) skewed_trace (new_checker (\<lambda>n. of_nat n), started) = (Inl e, s)"
    "IsFailedTestStatus e" using skewed_check by (auto split: prod.splits sum.splits)
  have "Check (bump demo_os) skewed_trace (\<lambda>n. of_nat n) (\<lambda>_. replicate 512 0) p = Some (Inl e, snd s)"
    using run_started [where junk = "\<lambda>_. replicate 512 0", OF p demo_traces(4,5) _ _ refl, of 1 False checker_hooks] c(1) demo_traces(6)
    by (simp add: Check_def Run_def CorrectnessChecker_def)
  then show ?thesis using c(2) by (simp add: RunTrace_def driver_flags_def driver_env_def measure_trace_def)
qed simp

lemma driver_files: "ListTracefiles driver_env = [''traces/a.trace'', ''traces/b.trace'', ''traces/gto.trace'']"
  by code_simp

lemma driver_skips: "\<not> skipped driver_flags ''traces/a.trace''" "\<not> skipped driver_flags ''traces/b.trace''"
    "skipped driver_flags ''traces/gto.trace''"
  by (code_simp, code_simp, code_simp)

theorem run_all_traces_complete_witness:
  "\<exists>rs p'. run_traces driver_flags driver_env (bump demo_os) (ListTracefiles driver_env) [] fresh_process = Some (Inr rs, p')
    \<and> map result_correct rs = [True, False]
    \<and> map result_trace rs = sort (filter (\<lambda>f. suffix ''.trace'' f \<and> \<not> skipped driver_flags f) (traces_dir driver_env))
    \<and> list_all (verdict driver_flags driver_env (bump demo_os)) rs"
proof -
  have "emptied fresh_process" by (simp add: emptied_def fresh_process_def)
  then obtain rs p' where r: "run_traces driver_flags driver_env (bump demo_os) (ListTracefiles driver_env) [] fresh_process = Some (Inr rs, p')"
    "map result_correct rs = [True, False]"
    using good_result [of fresh_process] skewed_result unfolding driver_files by (fastforce simp: driver_skips)
  note m = run_all_traces_complete [OF r(1)]
  show ?thesis by (intro exI conjI, rule r(1), rule r(2), rule conjunct1 [OF m], rule conjunct2 [OF m])
qed

lemma clamp_bounds: "lo \<le> hi \<Longrightarrow> lo \<le> clamp v lo hi \<and> clamp v lo hi \<le> hi"
  by (auto simp: clamp_def)

lemma score_bounds: "0 \<le> score (PrintTestResults rs) \<and> score (PrintTestResults rs) \<le> 1
    \<and> (\<not> list_all result_correct rs \<longrightarrow> score (PrintTestResults rs) = 0)"
proof -
  have c: "0 \<le> clamp v 0 1 \<and> clamp v 0 1 \<le> 1" for v by (rule clamp_bounds) simp
  have "0 \<le> 0.5 * clamp v 0 1 + 0.5 * clamp w 0 1 \<and> 0.5 * clamp v 0 1 + 0.5 * clamp w 0 1 \<le> 1" for v w
    using c [of v] c [of w] by auto
  then show ?thesis by (auto simp: PrintTestResults_def summarize_def totals_def Let_def)
qed

text \<open>A trace without lines makes \<^verbatim>\<open>TimeTrace\<close> divide by zero.\<close>

lemma time_trace_empty: "TimeTrace api [] iters junk speed p = None"
  by (simp add: TimeTrace_def)


end
