(* ===== verification/Libc_Override.thy ===== *)
theory Libc_Override
  imports Bump
begin

unbundle bit_operations_syntax

section \<open>The entry points of the C library\<close>

text \<open>
  \<^verbatim>\<open>src/libc_override.cc\<close> replaces the allocation functions of the C and C++ libraries by calls
  of the interface. Functions of the \<^verbatim>\<open>__GLIBC__\<close> part carry the suffix \<open>_glibc\<close>. A null result
  of a throwing operator is the error \<^verbatim>\<open>std::bad_alloc\<close>; the out-parameter of
  \<^verbatim>\<open>posix_memalign\<close> is \<open>None\<close> when it is not written.
\<close>

definition ENOMEM :: u64 where "ENOMEM = 12"

abbreviation bad_alloc :: error where "bad_alloc \<equiv> Failed ''std::bad_alloc'' []"

definition throw_if_null :: "('s, ptr) op \<Rightarrow> ('s, ptr) op" where
  "throw_if_null f = op_bind f (\<lambda>r. if r = 0 then op_fail bad_alloc else op_return r)"

definition posix_memalign_helper :: "'s bench_api \<Rightarrow> u64 \<Rightarrow> u64 \<Rightarrow> ('s, u64 \<times> ptr option) op" where
  "posix_memalign_helper api al sz = op_bind (bench_malloc api sz al) (\<lambda>r. op_return (if r = 0 then (ENOMEM, None) else (0, Some r)))"

definition libc_malloc_glibc :: "'s bench_api \<Rightarrow> u64 \<Rightarrow> ('s, ptr) op" where
  "libc_malloc_glibc api sz = bench_malloc api sz 0"

definition libc_free_glibc :: "'s bench_api \<Rightarrow> ptr \<Rightarrow> ('s, unit) op" where
  "libc_free_glibc api q = bench_free api q 0 0"

definition libc_realloc_glibc :: "'s bench_api \<Rightarrow> ptr \<Rightarrow> u64 \<Rightarrow> ('s, ptr) op" where
  "libc_realloc_glibc api q sz = bench_realloc api q sz"

definition libc_calloc_glibc :: "'s bench_api \<Rightarrow> u64 \<Rightarrow> u64 \<Rightarrow> ('s, ptr) op" where
  "libc_calloc_glibc api n sz = bench_calloc api n sz"

definition libc_cfree_glibc :: "'s bench_api \<Rightarrow> ptr \<Rightarrow> ('s, unit) op" where
  "libc_cfree_glibc api q = bench_free api q 0 0"

definition libc_memalign_glibc :: "'s bench_api \<Rightarrow> u64 \<Rightarrow> u64 \<Rightarrow> ('s, ptr) op" where
  "libc_memalign_glibc api al sz = bench_malloc api sz al"

definition libc_valloc_glibc :: "'s bench_api \<Rightarrow> u64 \<Rightarrow> ('s, ptr) op" where
  "libc_valloc_glibc api sz = bench_malloc api sz 4096"

definition libc_pvalloc_glibc :: "'s bench_api \<Rightarrow> u64 \<Rightarrow> ('s, ptr) op" where
  "libc_pvalloc_glibc api sz = bench_malloc api ((sz + 4095) AND NOT 4096) 4096"

definition libc_posix_memalign_glibc :: "'s bench_api \<Rightarrow> u64 \<Rightarrow> u64 \<Rightarrow> ('s, u64 \<times> ptr option) op" where
  "libc_posix_memalign_glibc api al sz = posix_memalign_helper api al sz"

definition glibc_override_malloc :: "'s bench_api \<Rightarrow> u64 \<Rightarrow> ('s, ptr) op" where
  "glibc_override_malloc api sz = bench_malloc api sz 0"

definition glibc_override_realloc :: "'s bench_api \<Rightarrow> ptr \<Rightarrow> u64 \<Rightarrow> ('s, ptr) op" where
  "glibc_override_realloc api q sz = bench_realloc api q sz"

definition glibc_override_free :: "'s bench_api \<Rightarrow> ptr \<Rightarrow> ('s, unit) op" where
  "glibc_override_free api q = bench_free api q 0 0"

definition glibc_override_memalign :: "'s bench_api \<Rightarrow> u64 \<Rightarrow> u64 \<Rightarrow> ('s, ptr) op" where
  "glibc_override_memalign api al sz = bench_malloc api sz al"

definition operator_new :: "'s bench_api \<Rightarrow> u64 \<Rightarrow> ('s, ptr) op" where
  "operator_new api sz = throw_if_null (bench_malloc api sz 0)"

definition operator_delete :: "'s bench_api \<Rightarrow> ptr \<Rightarrow> ('s, unit) op" where
  "operator_delete api q = bench_free api q 0 0"

definition operator_delete_sized :: "'s bench_api \<Rightarrow> ptr \<Rightarrow> u64 \<Rightarrow> ('s, unit) op" where
  "operator_delete_sized api q sz = bench_free api q sz 0"

definition operator_new_array :: "'s bench_api \<Rightarrow> u64 \<Rightarrow> ('s, ptr) op" where
  "operator_new_array api sz = throw_if_null (bench_malloc api sz 0)"

definition operator_delete_array :: "'s bench_api \<Rightarrow> ptr \<Rightarrow> ('s, unit) op" where
  "operator_delete_array api q = bench_free api q 0 0"

definition operator_delete_array_sized :: "'s bench_api \<Rightarrow> ptr \<Rightarrow> u64 \<Rightarrow> ('s, unit) op" where
  "operator_delete_array_sized api q sz = bench_free api q sz 0"

definition operator_new_nothrow :: "'s bench_api \<Rightarrow> u64 \<Rightarrow> ('s, ptr) op" where
  "operator_new_nothrow api sz = bench_malloc api sz 0"

definition operator_new_array_nothrow :: "'s bench_api \<Rightarrow> u64 \<Rightarrow> ('s, ptr) op" where
  "operator_new_array_nothrow api sz = bench_malloc api sz 0"

definition operator_delete_nothrow :: "'s bench_api \<Rightarrow> ptr \<Rightarrow> ('s, unit) op" where
  "operator_delete_nothrow api q = bench_free api q 0 0"

definition operator_delete_array_nothrow :: "'s bench_api \<Rightarrow> ptr \<Rightarrow> ('s, unit) op" where
  "operator_delete_array_nothrow api q = bench_free api q 0 0"

definition operator_new_aligned :: "'s bench_api \<Rightarrow> u64 \<Rightarrow> u64 \<Rightarrow> ('s, ptr) op" where
  "operator_new_aligned api sz al = throw_if_null (bench_malloc api al sz)"

definition operator_new_aligned_nothrow :: "'s bench_api \<Rightarrow> u64 \<Rightarrow> u64 \<Rightarrow> ('s, ptr) op" where
  "operator_new_aligned_nothrow api sz al = bench_malloc api al sz"

definition operator_delete_aligned :: "'s bench_api \<Rightarrow> ptr \<Rightarrow> u64 \<Rightarrow> ('s, unit) op" where
  "operator_delete_aligned api q al = bench_free api q 0 al"

definition operator_delete_aligned_nothrow :: "'s bench_api \<Rightarrow> ptr \<Rightarrow> u64 \<Rightarrow> ('s, unit) op" where
  "operator_delete_aligned_nothrow api q al = bench_free api q 0 al"

definition operator_delete_sized_aligned :: "'s bench_api \<Rightarrow> ptr \<Rightarrow> u64 \<Rightarrow> u64 \<Rightarrow> ('s, unit) op" where
  "operator_delete_sized_aligned api q sz al = bench_free api q sz al"

definition operator_new_array_aligned :: "'s bench_api \<Rightarrow> u64 \<Rightarrow> u64 \<Rightarrow> ('s, ptr) op" where
  "operator_new_array_aligned api sz al = throw_if_null (bench_malloc api al sz)"

definition operator_new_array_aligned_nothrow :: "'s bench_api \<Rightarrow> u64 \<Rightarrow> u64 \<Rightarrow> ('s, ptr) op" where
  "operator_new_array_aligned_nothrow api sz al = bench_malloc api al sz"

definition operator_delete_array_aligned :: "'s bench_api \<Rightarrow> ptr \<Rightarrow> u64 \<Rightarrow> ('s, unit) op" where
  "operator_delete_array_aligned api q al = bench_free api q 0 al"

definition operator_delete_array_aligned_nothrow :: "'s bench_api \<Rightarrow> ptr \<Rightarrow> u64 \<Rightarrow> ('s, unit) op" where
  "operator_delete_array_aligned_nothrow api q al = bench_free api q 0 al"

definition operator_delete_array_sized_aligned :: "'s bench_api \<Rightarrow> ptr \<Rightarrow> u64 \<Rightarrow> u64 \<Rightarrow> ('s, unit) op" where
  "operator_delete_array_sized_aligned api q sz al = bench_free api q sz al"

definition libc_malloc :: "'s bench_api \<Rightarrow> u64 \<Rightarrow> ('s, ptr) op" where
  "libc_malloc api sz = bench_malloc api sz 0"

definition libc_free :: "'s bench_api \<Rightarrow> ptr \<Rightarrow> ('s, unit) op" where
  "libc_free api q = bench_free api q 0 0"

definition libc_free_sized :: "'s bench_api \<Rightarrow> ptr \<Rightarrow> u64 \<Rightarrow> ('s, unit) op" where
  "libc_free_sized api q sz = bench_free api q sz 0"

definition libc_free_aligned_sized :: "'s bench_api \<Rightarrow> ptr \<Rightarrow> u64 \<Rightarrow> u64 \<Rightarrow> ('s, unit) op" where
  "libc_free_aligned_sized api q al sz = bench_free api q sz al"

definition libc_realloc :: "'s bench_api \<Rightarrow> ptr \<Rightarrow> u64 \<Rightarrow> ('s, ptr) op" where
  "libc_realloc api q sz = bench_realloc api q sz"

definition libc_reallocarray :: "'s bench_api \<Rightarrow> ptr \<Rightarrow> u64 \<Rightarrow> u64 \<Rightarrow> ('s, ptr) op" where
  "libc_reallocarray api q nmemb sz = bench_realloc api q (nmemb * sz)"

definition libc_reallocf :: "'s bench_api \<Rightarrow> ptr \<Rightarrow> u64 \<Rightarrow> ('s, ptr) op" where
  "libc_reallocf api q sz = op_bind (bench_realloc api q sz) (\<lambda>r.
     if r = 0 then op_bind (bench_free api q 0 0) (\<lambda>_. op_return r) else op_return r)"

definition libc_calloc :: "'s bench_api \<Rightarrow> u64 \<Rightarrow> u64 \<Rightarrow> ('s, ptr) op" where
  "libc_calloc api nmemb sz = bench_calloc api nmemb sz"

definition libc_cfree :: "'s bench_api \<Rightarrow> ptr \<Rightarrow> ('s, unit) op" where
  "libc_cfree api q = bench_free api q 0 0"

definition libc_memalign :: "'s bench_api \<Rightarrow> u64 \<Rightarrow> u64 \<Rightarrow> ('s, ptr) op" where
  "libc_memalign api al sz = bench_malloc api sz al"

definition libc_aligned_alloc :: "'s bench_api \<Rightarrow> u64 \<Rightarrow> u64 \<Rightarrow> ('s, ptr) op" where
  "libc_aligned_alloc api al sz = bench_malloc api sz al"

definition libc_valloc :: "'s bench_api \<Rightarrow> u64 \<Rightarrow> ('s, ptr) op" where
  "libc_valloc api sz = bench_malloc api sz 4096"

definition libc_pvalloc :: "'s bench_api \<Rightarrow> u64 \<Rightarrow> ('s, ptr) op" where
  "libc_pvalloc api sz = bench_malloc api ((sz + 4095) AND NOT 4096) 4096"

definition libc_posix_memalign :: "'s bench_api \<Rightarrow> u64 \<Rightarrow> u64 \<Rightarrow> ('s, u64 \<times> ptr option) op" where
  "libc_posix_memalign api al sz = posix_memalign_helper api al sz"

definition libc_malloc_size :: "'s bench_api \<Rightarrow> ptr \<Rightarrow> ('s, u64) op" where
  "libc_malloc_size api q = bench_get_size api q"

definition libc_malloc_usable_size :: "'s bench_api \<Rightarrow> ptr \<Rightarrow> ('s, u64) op" where
  "libc_malloc_usable_size api q = bench_get_size api q"

definition libc_malloc_trim :: "u64 \<Rightarrow> ('s, u64) op" where
  "libc_malloc_trim pad = op_return 0"

definition libc_mallopt :: "u64 \<Rightarrow> u64 \<Rightarrow> ('s, u64) op" where
  "libc_mallopt param v = op_return 1"

subsection \<open>\<^verbatim>\<open>pvalloc\<close> does not round up\<close>

lemma pvalloc_size:
  assumes "1 \<le> sz" "sz \<le> (4096 :: u64)"
  shows "(sz + 4095) AND NOT 4096 = sz - 1"
proof -
  have y: "sz - 1 < 4096" using assms by (simp add: word_less_nat_alt word_le_nat_alt unat_sub)
  have a: "page_aligned 4096" by (simp add: page_aligned_def take_bit_eq_mod)
  have "sz + 4095 = 4096 + (sz - 1)" by simp
  also have "\<dots> = 4096 OR (sz - 1)" by (rule page_plus_or [OF a y])
  finally have e: "sz + 4095 = 4096 OR (sz - 1)" .
  have m: "(4096 :: u64) = push_bit 12 1" by simp
  have b: "\<not> bit (sz - 1) 12" using take_bit_12_small [OF y] by (metis bit_take_bit_iff less_irrefl)
  show ?thesis
    unfolding e unfolding m
    by (rule bit_eqI) (use b in \<open>auto simp: bit_simps simp del: push_bit_of_1\<close>)
qed

text \<open>C39: pvalloc of 1 to 4096 bytes requests one byte less than its argument instead of a whole
  page: it masks with the complement of 4096 instead of 4095.\<close>

theorem pvalloc_requests_too_little:
  assumes "1 \<le> sz" "sz \<le> 4096"
  shows "libc_pvalloc api sz = bench_malloc api (sz - 1) 4096 \<and> libc_pvalloc_glibc api sz = bench_malloc api (sz - 1) 4096"
  unfolding libc_pvalloc_def libc_pvalloc_glibc_def pvalloc_size [OF assms] by simp

theorem pvalloc_requests_too_little_witness:
  "(\<lambda>api :: process bench_api. libc_pvalloc api 100) = (\<lambda>api. bench_malloc api 99 4096)"
proof (rule ext)
  fix api :: "process bench_api"
  show "libc_pvalloc api 100 = bench_malloc api 99 4096"
    using pvalloc_requests_too_little [of 100 api] by simp
qed

subsection \<open>Aligned \<^verbatim>\<open>operator new\<close>\<close>

lemma bump_aligned_new:
  assumes h: "bump_heap p k m" and al: "unat al mod 16 = 0" "al \<noteq> 0" and room: "Heap_room al m"
  obtains p1 where "operator_new_aligned (bump os) sz al p = (Inr (arena_end m), p1)"
    "bump_heap p1 k (m\<lparr>arena_end := arena_end m + al\<rparr>)" "unat (arena_end m + al) = unat (arena_end m) + unat al"
proof -
  let ?p = "set_heap k (m\<lparr>arena_end := arena_end m + al\<rparr>) p"
  have g: "g_heap p = k" "k \<noteq> 0" "heap_objects p = [(k, m)]" "Heap_ok m" "unat (arena_end m) mod 16 = 0"
    using h by (simp_all add: bump_heap_def)
  have e: "arena_end m \<noteq> 0"
  proof -
    have "arena_start m \<noteq> 0" "unat (arena_start m) \<le> unat (arena_end m)"
      using g(4) by (simp_all add: Heap_ok_def word_le_nat_alt)
    then show ?thesis by (metis le_zero_eq unat_0 unat_eq_0)
  qed
  have s63: "unat al < 2 ^ 63"
    using room g(4) unfolding Heap_ok_def Heap_room_def by (auto simp: word_le_nat_alt)
  have R: "(al + 0xf) AND NOT 0xf = al"
  proof -
    have "unat (al + 15) = unat al + 15" using s63 by (simp add: unat_word_ariths)
    then have "unat ((al + 15) AND NOT 15) = 16 * ((unat al + 15) div 16)" by (simp only: unat_and_not_15)
    moreover have "16 * ((unat al + 15) div 16) = unat al" using al(1) by presburger
    ultimately show ?thesis by (simp only: word_unat_eq_iff)
  qed
  have w: "unat (arena_end m + al) = unat (arena_end m) + unat al"
    using hs.room_no_wrap [OF g(4) room] by (simp add: unat_word_ariths)
  have "bump_malloc os al sz p = (Inr (arena_end m), ?p)"
    unfolding bump_malloc_def heap_sbrk_def Let_def R using g al(2) Heap_sbrk_grow [OF g(4) room] by simp
  then have n: "operator_new_aligned (bump os) sz al p = (Inr (arena_end m), ?p)"
    using e by (simp add: operator_new_aligned_def throw_if_null_def bump_def op_return_def)
  have "Heap_ok (m\<lparr>arena_end := arena_end m + al\<rparr>)" by (rule hs.src_ok_grow [OF g(4) room])
  then have "bump_heap ?p k (m\<lparr>arena_end := arena_end m + al\<rparr>)"
    using h w al(1) by (auto simp: bump_heap_def set_heap_def mod_add_eq)
  then show thesis using that n w by blast
qed

text \<open>C40: The aligned operator new passes its size and alignment in the wrong order, so that with
  the bump allocator two aligned objects larger than their alignment overlap.\<close>

theorem aligned_new_too_small:
  assumes "bump_heap p k m" and "unat al mod 16 = 0" and "al \<noteq> 0" and "al < sz"
    and "unat (arena_end m) + 2 * unat al \<le> unat (arena_start m) + unat (arena_max m)"
  shows "\<exists>p1 p2. operator_new_aligned (bump os) sz al p = (Inr (arena_end m), p1)
    \<and> operator_new_aligned (bump os) sz al p1 = (Inr (arena_end m + al), p2)
    \<and> in_block (arena_end m) (unat sz) (arena_end m + al)"
proof -
  have r: "Heap_room al m" using assms(5) by (simp add: Heap_room_def)
  obtain p1 where p1: "operator_new_aligned (bump os) sz al p = (Inr (arena_end m), p1)"
    "bump_heap p1 k (m\<lparr>arena_end := arena_end m + al\<rparr>)" "unat (arena_end m + al) = unat (arena_end m) + unat al"
    by (rule bump_aligned_new [OF assms(1-3) r]) (rule that; assumption)
  have r1: "Heap_room al (m\<lparr>arena_end := arena_end m + al\<rparr>)" using assms(5) p1(3) by (simp add: Heap_room_def)
  obtain p2 where p2: "operator_new_aligned (bump os) sz al p1 = (Inr (arena_end (m\<lparr>arena_end := arena_end m + al\<rparr>)), p2)"
    by (rule bump_aligned_new [OF p1(2) assms(2,3) r1]) (rule that; assumption)
  have "in_block (arena_end m) (unat sz) (arena_end m + al)"
    using assms(4) by (simp add: in_block_def word_less_nat_alt)
  then show ?thesis using p1(1) p2 by auto
qed

definition small_process :: process where
  "small_process = \<lparr>heap_objects = [(0x500, Heap_new 4096 4096 (\<lambda>_. 0))], factory_heaps = [0x500], g_heap = 0x500\<rparr>"

lemma small_heap: "bump_heap small_process 0x500 (Heap_new 4096 4096 (\<lambda>_. 0))"
  by (simp add: bump_heap_def small_process_def Heap_new_def Heap_ok_def)

definition any_os :: os where
  "any_os = \<lparr>mmap = \<lambda>_ _. None, new_object = \<lambda>_. 0x500, static_heap = 0x600\<rparr>"

theorem aligned_new_too_small_witness:
  "\<exists>p1 p2. operator_new_aligned (bump any_os) 64 16 small_process = (Inr 4096, p1)
    \<and> operator_new_aligned (bump any_os) 64 16 p1 = (Inr 4112, p2)
    \<and> in_block 4096 64 4112"
  using aligned_new_too_small [OF small_heap, of 16 64 any_os] by (simp add: Heap_new_def)

end
