(* ===== verification/Spec2Isabelle.thy ===== *)
theory Spec2Isabelle
  imports Check_Sound Medium_Bins Realloc Tiny_Machine Trace_Parser Driver Libc_Override
begin

text \<open>
  \<^bold>\<open>malloc-bench\<close>: a slab allocator in C (\<^verbatim>\<open>slab_malloc/mm.c\<close>) and the C++ benchmark that
  replays recorded traces against an implementation of \<^verbatim>\<open>src/allocator_interface.h\<close>.

  \<^bold>\<open>The slab allocator.\<close> The state is \<open>memory\<close> (theory \<open>Memory\<close>): the 8-byte cells of one arena
  between its start and its break, and the global \<^verbatim>\<open>heap\<close>. A load or store outside it, a
  misaligned one and a failed \<^verbatim>\<open>MALLOC_ASSERT\<close> are \<open>None\<close>, so a theorem that an operation
  returns \<open>Some\<close> also states memory safety. Structs are byte offsets (theory \<open>Layout\<close>, with the
  macros), fields narrower than a cell are bit lanes (\<open>Prelude\<close>), all integers have their C width.
  \<^item> \<open>Arena\<close>: \<^verbatim>\<open>Heap::sbrk\<close>, \<^verbatim>\<open>Reset\<close>, \<^verbatim>\<open>Size\<close> of \<^verbatim>\<open>heap_interface.{h,cc}\<close>; the locale
    \<open>mem_source\<close> says what the allocator needs of \<^verbatim>\<open>mem_sbrk\<close> and is interpreted by
    \<^verbatim>\<open>Heap::sbrk\<close>. The compare-and-swap loop is one atomic step.
  \<^item> \<open>Size_Class\<close>: \<^verbatim>\<open>adj_tiny_size\<close>, \<^verbatim>\<open>size_to_sz_class\<close>, \<^verbatim>\<open>packed_bin_idx\<close>,
    \<^verbatim>\<open>medium_bin_idx\<close> and their inverses.
  \<^item> \<open>Slab_Bins\<close>, \<open>Slab_Heap\<close>: the 128 rings of free slab regions with their skiplist,
    \<^verbatim>\<open>mm_init\<close>, \<^verbatim>\<open>__int_alloc_slab\<close>, \<^verbatim>\<open>__int_free_slab\<close>, \<^verbatim>\<open>__int_free_remainder_slab\<close>,
    \<^verbatim>\<open>__int_take_slab\<close>. \<open>Link_List\<close> holds the theory of intrusive lists.
  \<^item> \<open>Packed\<close>: slabs of tiny blocks with one- or two-level bitvectors and the small bins;
    \<open>Medium\<close>: slabs with an offset vector and large blocks; \<open>Malloc\<close> and \<open>Realloc\<close>: the entry
    points \<^verbatim>\<open>malloc\<close>, \<^verbatim>\<open>free\<close>, \<^verbatim>\<open>calloc\<close>, \<^verbatim>\<open>realloc\<close> with all their branches.

  What is proved of it. \<open>Slab_Inv\<close> states the invariant of the slab layer: the arena after the
  header page is a sequence of free and used regions described by their boundary tags, the
  bins hold exactly the free ones, no two free ones are adjacent. \<open>Slab_Alloc\<close> and \<open>Slab_Free\<close>
  prove that each operation keeps it, inside \<open>mem_source\<close>; \<open>Slab_Machine\<close> is the step relation
  of all slab calls and client writes, its reachable states, and the properties (disjoint
  runs, untouched contents, refinement of an abstract store of runs with their contents by
  each labelled call, termination of the skiplist and bin searches, no failure while the
  arena can grow, a failing assertion when \<^verbatim>\<open>sbrk\<close> answers anything but the break). \<open>Slab_Client\<close> is the frame
  rule for the layers above. \<open>Small_Bins\<close> and the \<open>Tiny\<close> theories do the same for blocks of up
  to 496 bytes: \<open>Tiny_Block\<close> relates a bitvector to the set of free blocks, \<open>Tiny_Ops\<close>,
  \<open>Tiny_Init\<close>, \<open>Tiny_Heap\<close>, \<open>Tiny_Step\<close> execute the operations on a slab, \<open>Tiny_Malloc\<close> and
  \<open>Tiny_Free\<close> the entry points, and \<open>Tiny_Machine\<close> is the step relation of \<^verbatim>\<open>mm_init\<close>,
  \<^verbatim>\<open>malloc\<close>, \<^verbatim>\<open>free\<close> and client writes with the allocator's contract: refinement of an
  abstract store of blocks with their bytes by each labelled call, aligned, disjoint,
  untouched blocks, total \<^verbatim>\<open>free\<close>, \<^verbatim>\<open>malloc\<close> that succeeds while the arena can grow.
  \<open>Large_Vector\<close> relates the masks and shifts on the offset vector of a large slab to
  operations on the list of its blocks, \<open>Chain_Bins\<close> is the theory of arrays of intrusive
  chains, and \<open>Medium_Bins\<close> proves that linking and unlinking a medium block keep its bins.

  \<open>Check_Heap\<close> is the allocator's own \<^verbatim>\<open>mm_checkheap\<close> as it is compiled with
  \<^verbatim>\<open>DEFINE_CHECKS\<close> (off by default): the walk over the slabs, the checks of the three kinds of
  slab, of the bins and of the counts. \<open>Check_Packed\<close> shows that a packed slab whose header
  describes its blocks passes them, and \<open>Check_Sound\<close> that the whole check accepts every state
  a client of tiny blocks can reach. The bound of a million pages there keeps the 32-bit
  counters of the check from wrapping around.

  \<^bold>\<open>The benchmark.\<close> The \<open>allocator\<close> record (\<open>Executor\<close>) is the concept \<^verbatim>\<open>TracefileAllocator\<close>, an
  \<^verbatim>\<open>absl::Status\<close> the type \<open>error + 'a\<close>.
  \<^item> \<open>Trace\<close>: trace lines and \<^verbatim>\<open>RewriteIdsToUnique\<close>; \<open>Trace_Parser\<close>: \<^verbatim>\<open>tracefile_parser.cc\<close>,
    from the bytes of a log to a trace, with RE2, absl's number parsing and the hash map's
    order as parameters.
  \<^item> \<open>Local_Ids\<close>, \<open>Executor\<close>: \<^verbatim>\<open>local_id_map.cc\<close>, \<^verbatim>\<open>concurrent_id_map.cc\<close>,
    \<^verbatim>\<open>tracefile_executor.h\<close>. \<open>Batches\<close>, \<open>Worker\<close> and \<open>Replay\<close> prove that the batches of 512
    operations over an array of pointers are the trace, executed line by line.
  \<^item> \<open>Heaps\<close>: \<^verbatim>\<open>heap_factory.cc\<close>, \<^verbatim>\<open>mmap_heap.cc\<close> and the bump allocator of
    \<^verbatim>\<open>allocator_interface.h\<close>, over a process that is a list of arenas; \<open>Heap_Bytes\<close> its laws of
    byte accesses. \<open>Runner\<close>: \<^verbatim>\<open>malloc_runner.h\<close> and \<^verbatim>\<open>perftest.cc\<close>. \<open>Checker\<close>:
    \<^verbatim>\<open>correctness_checker.cc\<close>. \<open>Utiltest\<close>: \<^verbatim>\<open>utiltest.cc\<close>. \<open>Libc_Override\<close>:
    \<^verbatim>\<open>libc_override.cc\<close>.
  \<^item> \<open>Checker_Magic\<close> proves what the word-wise comparison reports. \<open>Checker_Sound\<close> has the locale
    \<open>bench_contract\<close>, the contract of the interface, and proves inside it that the checker
    accepts every correct allocator; \<open>Bump\<close> interprets it; \<open>Harness\<close> composes it with the
    executor. An error \<open>Ended c\<close> is no status: the process has called \<^verbatim>\<open>exit\<close> (\<open>Some\<close> code) or
    was killed by a signal (\<open>None\<close>), and nothing above absorbs it. \<open>Driver\<close>: \<^verbatim>\<open>driver.cc\<close> and \<^verbatim>\<open>Perftest::TimeTrace\<close>, which run the checker and the
    two measurements on each trace and add the results up.

  \<^bold>\<open>Bounds and termination.\<close> Recursion is structural or has a proved measure. The loops whose
  end depends on the memory (the searches and list walks of \<^verbatim>\<open>mm.c\<close>, the worker's loop) are
  partial functions for which not returning is \<open>None\<close>, and theorems state that they return
  (\<open>slab_find_decides\<close>, \<open>tiny_malloc_total\<close>, \<open>executor_replays\<close>). Arenas are bounded by the
  address space: a heap object's size is below \<open>2 ^ 63\<close> and its region does not wrap around.

  \<^bold>\<open>Findings.\<close> Lemmas beside the models show where the code departs from its purpose:
  \<open>req_slabs_for_size_wraps\<close>, \<open>eighth_large_block_kept\<close>, \<open>zero_size_frees_junk\<close>,
  \<open>parser_mixes_processes\<close>, \<open>bump_malloc_wraps\<close>, \<open>bump_realloc_overlaps\<close>,
  \<open>util_zero_conflict\<close>, \<open>time_trace_empty\<close>, \<open>pvalloc_requests_too_little\<close>,
  \<open>aligned_new_too_small\<close>.

  \<^bold>\<open>Not modelled.\<close> The printing functions of \<^verbatim>\<open>mm.c\<close> and of the driver; more than one thread
  of the executor (its barrier and the interleaving of workers); the measurement of time,
  profiling (\<^verbatim>\<open>perfetto.cc\<close>); reading and writing protobuf files. The medium and large
  blocks, \<^verbatim>\<open>calloc\<close> and \<^verbatim>\<open>realloc\<close> of \<^verbatim>\<open>mm.c\<close> are modelled in full, but the theorems about
  blocks cover the tiny ones.
\<close>

end
